(* ===== verification/Prelude.thy ===== *)
theory Prelude
  imports Main "HOL-Library.Word"
begin

text \<open>
  Shared vocabulary of the development.

  \<^item> Faults and the result type: every \<open>assert\<close> of the code (the default build type of the
    project is Debug, so assertions are on), every out-of-range access, null dereference and
    \<open>LOG_FATAL\<close>/\<open>LOG_SYSFATAL\<close> is a value \<open>Inl fault\<close> of the sum type \<open>'a result\<close>;
    \<open>bindR\<close> sequences fallible calls and \<open>assertR\<close> is \<open>assert\<close>.
  \<^item> C arrays as lists: \<open>splice\<close> is \<open>memcpy\<close>/\<open>std::copy\<close> into an array, \<open>slice\<close> reads a
    range, \<open>vec_resize\<close> is \<open>std::vector::resize\<close>; \<open>mem_read\<close> and \<open>mem_write\<close> are the checked versions.
  \<^item> C integer division (\<open>cdiv\<close>, \<open>cmod\<close>), which truncates towards zero.
  \<^item> \<open>std::search\<close>, \<open>std::find_end\<close> and \<open>memchr\<close> on a range (\<open>find_sub\<close>, \<open>rfind_sub\<close>,
    \<open>find_char\<close>), which return the offset of the match.
\<close>

named_theorems res_simps \<open>evaluation rules of the result type\<close>

section \<open>Faults and results\<close>

datatype fault =
    AssertionFailed  \<comment> \<open>an \<open>assert\<close> of the source is false\<close>
  | OutOfRange       \<comment> \<open>an access outside the array it belongs to\<close>
  | NullPointer      \<comment> \<open>a member access through a null pointer\<close>
  | UseAfterFree     \<comment> \<open>an access to an object that has been deleted\<close>
  | DivideByZero     \<comment> \<open>an integer division by zero\<close>
  | Fatal            \<comment> \<open>\<open>LOG_FATAL\<close>, \<open>LOG_SYSFATAL\<close>: the logger calls \<open>abort()\<close>\<close>

type_synonym 'a result = "fault + 'a"

definition bindR :: "'a result \<Rightarrow> ('a \<Rightarrow> 'b result) \<Rightarrow> 'b result" where
  "bindR m f = (case m of Inl e \<Rightarrow> Inl e | Inr x \<Rightarrow> f x)"

definition assertR :: "bool \<Rightarrow> unit result" where
  "assertR b = (if b then Inr () else Inl AssertionFailed)"

definition guardR :: "fault \<Rightarrow> bool \<Rightarrow> unit result" where
  "guardR e b = (if b then Inr () else Inl e)"

fun foldR :: "('a \<Rightarrow> 's \<Rightarrow> 's result) \<Rightarrow> 'a list \<Rightarrow> 's \<Rightarrow> 's result" where
  "foldR f [] s = Inr s"
| "foldR f (x # xs) s = bindR (f x s) (foldR f xs)"

lemma bindR_Inl [simp, res_simps]: "bindR (Inl e) f = Inl e"
  by (simp add: bindR_def)

lemma bindR_Inr [simp, res_simps]: "bindR (Inr x) f = f x"
  by (simp add: bindR_def)

lemma assertR_True [simp, res_simps]: "assertR True = Inr ()"
  by (simp add: assertR_def)

lemma assertR_False [simp, res_simps]: "assertR False = Inl AssertionFailed"
  by (simp add: assertR_def)

lemma guardR_True [simp, res_simps]: "guardR e True = Inr ()"
  by (simp add: guardR_def)

lemma guardR_False [simp, res_simps]: "guardR e False = Inl e"
  by (simp add: guardR_def)

lemma bindR_eq_Inr_iff [simp]: "bindR m f = Inr y \<longleftrightarrow> (\<exists>x. m = Inr x \<and> f x = Inr y)"
  by (simp add: bindR_def split: sum.splits)

lemma bindR_eq_Inl_iff: "bindR m f = Inl e \<longleftrightarrow> m = Inl e \<or> (\<exists>x. m = Inr x \<and> f x = Inl e)"
  by (simp add: bindR_def split: sum.splits)

lemma assertR_eq_Inr_iff [simp]: "assertR b = Inr u \<longleftrightarrow> b"
  by (simp add: assertR_def)

lemma guardR_eq_Inr_iff [simp]: "guardR e b = Inr u \<longleftrightarrow> b"
  by (simp add: guardR_def)

lemma bindR_assoc: "bindR (bindR m f) g = bindR m (\<lambda>x. bindR (f x) g)"
  by (simp add: bindR_def split: sum.splits)

lemma bindR_cong [fundef_cong]:
  "m = m' \<Longrightarrow> (\<And>x. m' = Inr x \<Longrightarrow> f x = f' x) \<Longrightarrow> bindR m f = bindR m' f'"
  by (auto simp: bindR_def split: sum.splits)

lemma foldR_append: "foldR f (xs @ ys) s = bindR (foldR f xs s) (foldR f ys)"
proof (induction xs arbitrary: s)
  case Nil
  then show ?case by simp
next
  case (Cons x xs)
  have "foldR f (xs @ ys) = (\<lambda>t. bindR (foldR f xs t) (foldR f ys))"
    using Cons.IH by (rule ext)
  then show ?case by (simp add: bindR_assoc)
qed

text \<open>An invariant that one step keeps, and under which one step succeeds, holds along a fold.\<close>

lemma foldR_invariant:
  assumes "P s" and "\<And>x t. x \<in> set xs \<Longrightarrow> P t \<Longrightarrow> \<exists>t'. f x t = Inr t' \<and> P t'"
  shows "\<exists>t. foldR f xs s = Inr t \<and> P t"
  using assms
proof (induction xs arbitrary: s)
  case Nil
  then show ?case by simp
next
  case (Cons x xs)
  obtain t where t: "f x s = Inr t" "P t"
    using Cons.prems by force
  have "\<exists>u. foldR f xs t = Inr u \<and> P u"
    using t(2) Cons.prems(2) by (intro Cons.IH) auto
  with t show ?case by simp
qed

section \<open>Arrays\<close>

definition slice :: "nat \<Rightarrow> nat \<Rightarrow> 'a list \<Rightarrow> 'a list" where
  "slice i j xs = take (j - i) (drop i xs)"

definition splice :: "nat \<Rightarrow> 'a list \<Rightarrow> 'a list \<Rightarrow> 'a list" where
  "splice i ys xs = take i xs @ ys @ drop (i + length ys) xs"

definition vec_resize :: "'a \<Rightarrow> nat \<Rightarrow> 'a list \<Rightarrow> 'a list" where
  "vec_resize d n xs = take n xs @ replicate (n - length xs) d"

lemma length_slice [simp]: "j \<le> length xs \<Longrightarrow> length (slice i j xs) = j - i"
  by (simp add: slice_def)

lemma slice_same [simp]: "slice i i xs = []"
  by (simp add: slice_def)

lemma slice_all: "slice 0 (length xs) xs = xs"
  by (simp add: slice_def)

lemma drop_slice: "drop n (slice i j xs) = slice (i + n) j xs"
  by (simp add: slice_def drop_take add.commute)

lemma take_slice: "i + n \<le> j \<Longrightarrow> take n (slice i j xs) = slice i (i + n) xs"
  by (simp add: slice_def min_def)

lemma slice_append_slice:
  "i \<le> j \<Longrightarrow> j \<le> k \<Longrightarrow> k \<le> length xs \<Longrightarrow> slice i j xs @ slice j k xs = slice i k xs"
  by (rule nth_equalityI) (auto simp: slice_def nth_append add.commute)

lemma length_splice [simp]: "i + length ys \<le> length xs \<Longrightarrow> length (splice i ys xs) = length xs"
  by (simp add: splice_def)

lemma slice_splice_same:
  "i + length ys \<le> length xs \<Longrightarrow> slice i (i + length ys) (splice i ys xs) = ys"
  by (simp add: slice_def splice_def)

lemma slice_splice_before:
  "j \<le> i \<Longrightarrow> i + length ys \<le> length xs \<Longrightarrow> slice k j (splice i ys xs) = slice k j xs"
  by (rule nth_equalityI) (auto simp: slice_def splice_def nth_append)

lemma slice_splice_after:
  "i + length ys \<le> k \<Longrightarrow> i + length ys \<le> length xs \<Longrightarrow>
   slice k j (splice i ys xs) = slice k j xs"
  by (rule nth_equalityI) (auto simp: slice_def splice_def nth_append)

lemma length_vec_resize [simp]: "length (vec_resize d n xs) = n"
  by (simp add: vec_resize_def)

lemma slice_vec_resize:
  "j \<le> n \<Longrightarrow> j \<le> length xs \<Longrightarrow> slice i j (vec_resize d n xs) = slice i j xs"
  by (rule nth_equalityI) (auto simp: slice_def vec_resize_def nth_append drop_take)

section \<open>Ordered sets\<close>

text \<open>\<open>std::set\<close> and the keys of \<open>std::map\<close>: a strictly sorted list, with insertion and erasure.\<close>

definition oset_insert :: "'a :: linorder \<Rightarrow> 'a list \<Rightarrow> 'a list" where
  "oset_insert x xs = (if x \<in> set xs then xs else insort x xs)"

definition oset_erase :: "'a \<Rightarrow> 'a list \<Rightarrow> 'a list" where
  "oset_erase x xs = remove1 x xs"

lemma set_oset_insert [simp]: "set (oset_insert x xs) = insert x (set xs)"
  by (auto simp: oset_insert_def set_insort_key)

lemma sorted_oset_insert [simp]: "sorted (oset_insert x xs) = sorted xs"
  by (simp add: oset_insert_def sorted_insort)

lemma distinct_oset_insert [simp]: "distinct (oset_insert x xs) = distinct xs"
  by (simp add: oset_insert_def distinct_insort)

lemma length_oset_insert [simp]: "x \<notin> set xs \<Longrightarrow> length (oset_insert x xs) = Suc (length xs)"
  by (simp add: oset_insert_def)

lemma set_oset_erase [simp]: "distinct xs \<Longrightarrow> set (oset_erase x xs) = set xs - {x}"
  by (simp add: oset_erase_def)

lemma sorted_oset_erase [simp]: "sorted xs \<Longrightarrow> sorted (oset_erase x xs)"
  by (simp add: oset_erase_def sorted_remove1)

lemma distinct_oset_erase [simp]: "distinct xs \<Longrightarrow> distinct (oset_erase x xs)"
  by (simp add: oset_erase_def)

lemma length_oset_erase: "x \<in> set xs \<Longrightarrow> Suc (length (oset_erase x xs)) = length xs"
  using length_pos_if_in_set [of x xs] by (simp add: oset_erase_def length_remove1)

section \<open>Division of C\<close>

definition cdiv :: "int \<Rightarrow> int \<Rightarrow> int" where
  "cdiv a b = sgn a * sgn b * (\<bar>a\<bar> div \<bar>b\<bar>)"

definition cmod :: "int \<Rightarrow> int \<Rightarrow> int" where
  "cmod a b = a - cdiv a b * b"

lemma cdiv_nonneg: "0 \<le> a \<Longrightarrow> 0 < b \<Longrightarrow> cdiv a b = a div b"
  by (cases "a = 0") (auto simp: cdiv_def)

lemma cmod_nonneg: "0 \<le> a \<Longrightarrow> 0 < b \<Longrightarrow> cmod a b = a mod b"
  by (simp add: cmod_def cdiv_nonneg minus_div_mult_eq_mod)

lemma cdiv_neg: "a < 0 \<Longrightarrow> 0 < b \<Longrightarrow> cdiv a b = - ((- a) div b)"
  by (simp add: cdiv_def)

lemma cmod_neg: "a < 0 \<Longrightarrow> 0 < b \<Longrightarrow> cmod a b = - ((- a) mod b)"
  by (simp add: cmod_def cdiv_neg minus_div_mult_eq_mod [symmetric])

section \<open>Searching a range\<close>

fun find_sub :: "'a list \<Rightarrow> 'a list \<Rightarrow> nat option" where
  "find_sub p [] = (if p = [] then Some 0 else None)"
| "find_sub p (x # xs) =
     (if take (length p) (x # xs) = p then Some 0 else map_option Suc (find_sub p xs))"

fun rfind_sub :: "'a list \<Rightarrow> 'a list \<Rightarrow> nat option" where
  "rfind_sub p [] = (if p = [] then Some 0 else None)"
| "rfind_sub p (x # xs) =
     (case rfind_sub p xs of
        Some i \<Rightarrow> Some (Suc i)
      | None \<Rightarrow> if take (length p) (x # xs) = p then Some 0 else None)"

fun find_char :: "'a \<Rightarrow> 'a list \<Rightarrow> nat option" where
  "find_char c [] = None"
| "find_char c (x # xs) = (if x = c then Some 0 else map_option Suc (find_char c xs))"

definition occurs_at :: "'a list \<Rightarrow> 'a list \<Rightarrow> nat \<Rightarrow> bool" where
  "occurs_at p xs i \<longleftrightarrow> i + length p \<le> length xs \<and> take (length p) (drop i xs) = p"

lemma occurs_at_0: "occurs_at p xs 0 \<longleftrightarrow> take (length p) xs = p"
  by (auto simp: occurs_at_def) (metis length_take min.cobounded1)

lemma occurs_at_Suc [simp]: "occurs_at p (x # xs) (Suc i) \<longleftrightarrow> occurs_at p xs i"
  by (simp add: occurs_at_def)

lemma occurs_at_Nil [simp]: "occurs_at p [] i \<longleftrightarrow> i = 0 \<and> p = []"
  by (auto simp: occurs_at_def)

lemma find_sub_Some:
  "find_sub p xs = Some i \<longleftrightarrow> occurs_at p xs i \<and> (\<forall>j<i. \<not> occurs_at p xs j)"
proof (induction p xs arbitrary: i rule: find_sub.induct)
  case (1 p)
  then show ?case by auto
next
  case (2 p x xs)
  show ?case
  proof (cases i)
    case 0
    then show ?thesis by (auto simp: occurs_at_0)
  next
    case (Suc k)
    have "(\<forall>j<Suc k. \<not> occurs_at p (x # xs) j) \<longleftrightarrow>
          \<not> occurs_at p (x # xs) 0 \<and> (\<forall>j<k. \<not> occurs_at p xs j)"
      by (auto simp: less_Suc_eq_0_disj)
    with Suc 2 show ?thesis by (auto simp: occurs_at_0)
  qed
qed

lemma find_sub_None: "find_sub p xs = None \<longleftrightarrow> (\<forall>i. \<not> occurs_at p xs i)"
proof (induction p xs rule: find_sub.induct)
  case (1 p)
  then show ?case by auto
next
  case (2 p x xs)
  have "(\<forall>i. \<not> occurs_at p (x # xs) i) \<longleftrightarrow>
        \<not> occurs_at p (x # xs) 0 \<and> (\<forall>i. \<not> occurs_at p xs i)"
    by (metis not0_implies_Suc occurs_at_Suc)
  with 2 show ?case by (auto simp: occurs_at_0)
qed

lemma rfind_sub_None: "rfind_sub p xs = None \<longleftrightarrow> (\<forall>i. \<not> occurs_at p xs i)"
proof (induction p xs rule: rfind_sub.induct)
  case (1 p)
  then show ?case by auto
next
  case (2 p x xs)
  have "(\<forall>i. \<not> occurs_at p (x # xs) i) \<longleftrightarrow>
        \<not> occurs_at p (x # xs) 0 \<and> (\<forall>i. \<not> occurs_at p xs i)"
    by (metis not0_implies_Suc occurs_at_Suc)
  with 2 show ?case by (auto simp: occurs_at_0 split: option.splits)
qed

lemma rfind_sub_Some:
  "rfind_sub p xs = Some i \<longleftrightarrow> occurs_at p xs i \<and> (\<forall>j>i. \<not> occurs_at p xs j)"
proof (induction p xs arbitrary: i rule: rfind_sub.induct)
  case (1 p)
  then show ?case by auto
next
  case (2 p x xs)
  show ?case
  proof (cases "rfind_sub p xs")
    case None
    then have none: "\<not> occurs_at p xs k" for k by (simp add: rfind_sub_None)
    have "occurs_at p (x # xs) k \<longleftrightarrow> k = 0 \<and> occurs_at p (x # xs) 0" for k
      using none by (cases k) auto
    with None show ?thesis by (auto simp: occurs_at_0)
  next
    case (Some k)
    with 2 have k: "occurs_at p xs k" "\<forall>j>k. \<not> occurs_at p xs j" by auto
    have "occurs_at p (x # xs) (Suc k)" "\<forall>j>Suc k. \<not> occurs_at p (x # xs) j"
      using k by (auto simp: Suc_less_eq2)
    then have "Suc k = i \<longleftrightarrow> occurs_at p (x # xs) i \<and> (\<forall>j>i. \<not> occurs_at p (x # xs) j)"
      by (metis linorder_neqE_nat)
    with Some show ?thesis by simp
  qed
qed

lemma find_char_Some:
  "find_char c xs = Some i \<longleftrightarrow> i < length xs \<and> xs ! i = c \<and> c \<notin> set (take i xs)"
proof (induction c xs arbitrary: i rule: find_char.induct)
  case (1 c)
  then show ?case by simp
next
  case (2 c x xs)
  then show ?case by (cases i) auto
qed

lemma find_char_None: "find_char c xs = None \<longleftrightarrow> c \<notin> set xs"
  by (induction c xs rule: find_char.induct) auto

section \<open>Decimal numerals\<close>

text \<open>What \<open>%d\<close> of the C library prints, and its inverse.\<close>

definition digit :: "nat \<Rightarrow> char" where
  "digit d = char_of (48 + d)"

definition digit_val :: "char \<Rightarrow> nat" where
  "digit_val c = of_char c - 48"

fun nat_dec :: "nat \<Rightarrow> string" where
  "nat_dec n = (if n < 10 then [digit n] else nat_dec (n div 10) @ [digit (n mod 10)])"

declare nat_dec.simps [simp del]

definition int_dec :: "int \<Rightarrow> string" where
  "int_dec i = (if i < 0 then CHR ''-'' # nat_dec (nat (- i)) else nat_dec (nat i))"

definition dec_val :: "string \<Rightarrow> nat" where
  "dec_val cs = foldl (\<lambda>a c. 10 * a + digit_val c) 0 cs"

lemma of_char_digit [simp]: "d < 10 \<Longrightarrow> (of_char (digit d) :: nat) = 48 + d"
  by (simp add: digit_def)

lemma digit_val_digit [simp]: "d < 10 \<Longrightarrow> digit_val (digit d) = d"
  by (simp add: digit_val_def)

lemma dec_val_nat_dec [simp]: "dec_val (nat_dec n) = n"
proof (induction n rule: nat_dec.induct)
  case (1 n)
  show ?case
  proof (cases "n < 10")
    case True
    then show ?thesis by (subst nat_dec.simps) (simp add: dec_val_def)
  next
    case False
    then have "dec_val (nat_dec (n div 10) @ [digit (n mod 10)]) = n"
      using 1 by (simp add: dec_val_def)
    then show ?thesis using False by (subst nat_dec.simps) simp
  qed
qed

lemma nat_dec_inject [simp]: "nat_dec m = nat_dec n \<longleftrightarrow> m = n"
  by (metis dec_val_nat_dec)

lemma nat_dec_nonempty [simp]: "nat_dec n \<noteq> []"
  by (subst nat_dec.simps) simp

lemma length_nat_dec: "n < 10 ^ k \<Longrightarrow> 0 < k \<Longrightarrow> length (nat_dec n) \<le> k"
proof (induction n arbitrary: k rule: nat_dec.induct)
  case (1 n)
  show ?case
  proof (cases "n < 10")
    case True
    then show ?thesis using 1 by (subst nat_dec.simps) simp
  next
    case False
    obtain j where j: "k = Suc j" using 1(3) by (cases k) auto
    then have k: "k = Suc j" "0 < j"
      using False 1(2) by (cases j; simp)+
    then have "n div 10 < 10 ^ j" using 1(2) by (simp add: less_mult_imp_div_less mult.commute)
    then have "length (nat_dec (n div 10)) \<le> j" using 1(1) [OF False] k by simp
    then show ?thesis using False k by (subst nat_dec.simps) simp
  qed
qed

lemma nat_dec_digits: "c \<in> set (nat_dec n) \<Longrightarrow> \<exists>d < 10. c = digit d"
proof (induction n rule: nat_dec.induct)
  case (1 n)
  show ?case
  proof (cases "n < 10")
    case True
    then show ?thesis using 1(2) by (subst (asm) nat_dec.simps) auto
  next
    case False
    then have "c \<in> set (nat_dec (n div 10)) \<or> c = digit (n mod 10)"
      using 1(2) by (subst (asm) nat_dec.simps) auto
    then show ?thesis using 1(1) [OF False] by (metis mod_less_divisor zero_less_numeral)
  qed
qed

text \<open>\<open>snprintf\<close> into an array of \<open>n\<close> bytes keeps \<open>n - 1\<close> characters.\<close>

definition snprintf :: "nat \<Rightarrow> string \<Rightarrow> string" where
  "snprintf n str = take (n - 1) str"

text \<open>
  \<open>memcpy\<close> out of and into an array, with the check that the range lies inside.
\<close>

definition mem_read :: "'a list \<Rightarrow> nat \<Rightarrow> nat \<Rightarrow> 'a list result" where
  "mem_read xs pos len = (if pos + len \<le> length xs then Inr (slice pos (pos + len) xs) else Inl OutOfRange)"

definition mem_write :: "nat \<Rightarrow> 'a list \<Rightarrow> 'a list \<Rightarrow> 'a list result" where
  "mem_write pos ys xs = (if pos + length ys \<le> length xs then Inr (splice pos ys xs) else Inl OutOfRange)"

lemma mem_read_ok [simp]: "pos + len \<le> length xs \<Longrightarrow> mem_read xs pos len = Inr (slice pos (pos + len) xs)"
  by (simp add: mem_read_def)

lemma mem_write_ok [simp]: "pos + length ys \<le> length xs \<Longrightarrow> mem_write pos ys xs = Inr (splice pos ys xs)"
  by (simp add: mem_write_def)

text \<open>Conversion to a 32-bit \<open>int\<close>.\<close>

definition to_int32 :: "int \<Rightarrow> int" where
  "to_int32 i = sint (word_of_int i :: 32 word)"

lemma to_int32_small: "- (2 ^ 31) \<le> i \<Longrightarrow> i < 2 ^ 31 \<Longrightarrow> to_int32 i = i"
  by (simp add: to_int32_def signed_of_int signed_take_bit_int_eq_self)

end
