(* ===== verification/Base_Queues.thy ===== *)
theory Base_Queues
  imports Prelude
begin

text \<open>
  The queues of \<open>ideal/base\<close>: \<open>RingBuffer.h\<close>, \<open>BoundedBlockingQueue.h\<close> and \<open>BlockingQueue.h\<close>.

  The ring buffer is sequential. The two blocking queues protect their container by a mutex and
  two (one) condition variables; one pass through the critical section of \<open>put\<close> or \<open>take\<close> is a
  function that returns \<open>None\<close> when the wait predicate is false. The step relation \<open>cv_step\<close>
  interleaves any number of threads: a thread enters a call, runs its critical section or blocks
  on the condition variable, and is made runnable again by \<open>notify_all\<close> or spuriously. Two
  ghost logs record the elements put and taken, in the order of the critical sections.

  The locale \<open>blocking_queue\<close> states what the condition-variable protocol needs of the container;
  its safety lemmas are proved once and used for both queues.
\<close>

section \<open>RingBuffer\<close>

record 'a RingBuffer =
  rb_buffer :: "'a list"
  rb_numDatas :: int
  rb_capacity :: nat
  rb_putPos :: nat
  rb_getPos :: nat

definition RingBuffer_new :: "'a \<Rightarrow> nat \<Rightarrow> 'a RingBuffer" where
  "RingBuffer_new dflt capacity =
     \<lparr>rb_buffer = replicate capacity dflt, rb_numDatas = 0, rb_capacity = capacity,
      rb_putPos = 0, rb_getPos = 0\<rparr>"

definition RingBuffer_add :: "'a RingBuffer \<Rightarrow> nat \<Rightarrow> nat" where
  "RingBuffer_add rb pos = (if pos + 1 = rb_capacity rb then 0 else pos + 1)"

definition RingBuffer_push_back :: "'a \<Rightarrow> 'a RingBuffer \<Rightarrow> 'a RingBuffer result" where
  "RingBuffer_push_back data rb =
     bindR (assertR (rb_numDatas rb < int (rb_capacity rb))) (\<lambda>_.
     bindR (guardR OutOfRange (rb_putPos rb < length (rb_buffer rb))) (\<lambda>_.
     Inr (rb\<lparr>rb_buffer := (rb_buffer rb)[rb_putPos rb := data],
             rb_putPos := RingBuffer_add rb (rb_putPos rb),
             rb_numDatas := rb_numDatas rb + 1\<rparr>)))"

definition RingBuffer_pop_front :: "'a RingBuffer \<Rightarrow> 'a RingBuffer" where
  "RingBuffer_pop_front rb =
     rb\<lparr>rb_getPos := RingBuffer_add rb (rb_getPos rb), rb_numDatas := rb_numDatas rb - 1\<rparr>"

definition RingBuffer_front :: "'a RingBuffer \<Rightarrow> 'a result" where
  "RingBuffer_front rb =
     bindR (assertR (rb_numDatas rb > 0)) (\<lambda>_.
     bindR (guardR OutOfRange (rb_getPos rb < length (rb_buffer rb))) (\<lambda>_.
     Inr (rb_buffer rb ! rb_getPos rb)))"

definition RingBuffer_full :: "'a RingBuffer \<Rightarrow> bool" where
  "RingBuffer_full rb \<longleftrightarrow> rb_numDatas rb = int (rb_capacity rb)"

definition RingBuffer_empty :: "'a RingBuffer \<Rightarrow> bool" where
  "RingBuffer_empty rb \<longleftrightarrow> rb_numDatas rb = 0"

definition RingBuffer_size :: "'a RingBuffer \<Rightarrow> int" where
  "RingBuffer_size rb = rb_numDatas rb"

section \<open>The critical sections of the blocking queues\<close>

definition BoundedBlockingQueue_put :: "'a \<Rightarrow> 'a RingBuffer \<Rightarrow> 'a RingBuffer option result" where
  "BoundedBlockingQueue_put x q =
     (if RingBuffer_full q then Inr None
      else bindR (RingBuffer_push_back x q) (\<lambda>q'. Inr (Some q')))"

definition BoundedBlockingQueue_take :: "'a RingBuffer \<Rightarrow> ('a \<times> 'a RingBuffer) option result" where
  "BoundedBlockingQueue_take q =
     (if RingBuffer_empty q then Inr None
      else bindR (RingBuffer_front q) (\<lambda>front. Inr (Some (front, RingBuffer_pop_front q))))"

definition BlockingQueue_put :: "'a \<Rightarrow> 'a list \<Rightarrow> 'a list option result" where
  "BlockingQueue_put x q = Inr (Some (q @ [x]))"

definition BlockingQueue_take :: "'a list \<Rightarrow> ('a \<times> 'a list) option result" where
  "BlockingQueue_take q = (case q of [] \<Rightarrow> Inr None | front # rest \<Rightarrow> Inr (Some (front, rest)))"

section \<open>Threads\<close>

datatype 'x tstate = Idle | Putting 'x | WaitNotFull 'x | Taking | WaitNotEmpty

record ('x, 'q) qsys =
  queue :: 'q
  threads :: "nat \<Rightarrow> 'x tstate"
  put_log :: "'x list"
  take_log :: "'x list"

text \<open>\<open>_noEmpty.notify_all()\<close> and \<open>_noFull.notify_all()\<close>.\<close>

definition notify_takers :: "(nat \<Rightarrow> 'x tstate) \<Rightarrow> nat \<Rightarrow> 'x tstate" where
  "notify_takers ts = (\<lambda>t. case ts t of WaitNotEmpty \<Rightarrow> Taking | st \<Rightarrow> st)"

definition notify_putters :: "(nat \<Rightarrow> 'x tstate) \<Rightarrow> nat \<Rightarrow> 'x tstate" where
  "notify_putters ts = (\<lambda>t. case ts t of WaitNotFull x \<Rightarrow> Putting x | st \<Rightarrow> st)"

inductive cv_step ::
  "('x \<Rightarrow> 'q \<Rightarrow> 'q option result) \<Rightarrow> ('q \<Rightarrow> ('x \<times> 'q) option result) \<Rightarrow>
   ('x, 'q) qsys \<Rightarrow> ('x, 'q) qsys \<Rightarrow> bool"
  for put :: "'x \<Rightarrow> 'q \<Rightarrow> 'q option result" and take' :: "'q \<Rightarrow> ('x \<times> 'q) option result" where
  call_put: "threads s t = Idle \<Longrightarrow>
     cv_step put take' s (s\<lparr>threads := (threads s)(t := Putting x)\<rparr>)"
| call_take: "threads s t = Idle \<Longrightarrow>
     cv_step put take' s (s\<lparr>threads := (threads s)(t := Taking)\<rparr>)"
| put_done: "threads s t = Putting x \<Longrightarrow> put x (queue s) = Inr (Some q) \<Longrightarrow>
     cv_step put take' s
       (s\<lparr>queue := q, threads := notify_takers ((threads s)(t := Idle)), put_log := put_log s @ [x]\<rparr>)"
| put_wait: "threads s t = Putting x \<Longrightarrow> put x (queue s) = Inr None \<Longrightarrow>
     cv_step put take' s (s\<lparr>threads := (threads s)(t := WaitNotFull x)\<rparr>)"
| take_done: "threads s t = Taking \<Longrightarrow> take' (queue s) = Inr (Some (x, q)) \<Longrightarrow>
     cv_step put take' s
       (s\<lparr>queue := q, threads := notify_putters ((threads s)(t := Idle)), take_log := take_log s @ [x]\<rparr>)"
| take_wait: "threads s t = Taking \<Longrightarrow> take' (queue s) = Inr None \<Longrightarrow>
     cv_step put take' s (s\<lparr>threads := (threads s)(t := WaitNotEmpty)\<rparr>)"
| spurious_put: "threads s t = WaitNotFull x \<Longrightarrow>
     cv_step put take' s (s\<lparr>threads := (threads s)(t := Putting x)\<rparr>)"
| spurious_take: "threads s t = WaitNotEmpty \<Longrightarrow>
     cv_step put take' s (s\<lparr>threads := (threads s)(t := Taking)\<rparr>)"

definition cv_start :: "'q \<Rightarrow> ('x, 'q) qsys" where
  "cv_start q = \<lparr>queue = q, threads = (\<lambda>_. Idle), put_log = [], take_log = []\<rparr>"

inductive cv_reachable ::
  "('x \<Rightarrow> 'q \<Rightarrow> 'q option result) \<Rightarrow> ('q \<Rightarrow> ('x \<times> 'q) option result) \<Rightarrow> 'q \<Rightarrow>
   ('x, 'q) qsys \<Rightarrow> bool"
  for put :: "'x \<Rightarrow> 'q \<Rightarrow> 'q option result" and take' :: "'q \<Rightarrow> ('x \<times> 'q) option result"
    and q0 :: 'q where
  start: "cv_reachable put take' q0 (cv_start q0)"
| step: "cv_reachable put take' q0 s \<Longrightarrow> cv_step put take' s s' \<Longrightarrow> cv_reachable put take' q0 s'"

lemma notify_takers_simps [simp]:
  "notify_takers ts t \<noteq> WaitNotEmpty"
  "notify_takers ts t = WaitNotFull x \<longleftrightarrow> ts t = WaitNotFull x"
  by (auto simp: notify_takers_def split: tstate.splits)

lemma notify_putters_simps [simp]:
  "notify_putters ts t \<noteq> WaitNotFull x"
  "notify_putters ts t = WaitNotEmpty \<longleftrightarrow> ts t = WaitNotEmpty"
  by (auto simp: notify_putters_def split: tstate.splits)

section \<open>The contract of the container\<close>

locale blocking_queue =
  fixes invar :: "'q \<Rightarrow> bool"
    and items :: "'q \<Rightarrow> 'x list"
    and room :: "'q \<Rightarrow> bool"
    and put :: "'x \<Rightarrow> 'q \<Rightarrow> 'q option result"
    and take' :: "'q \<Rightarrow> ('x \<times> 'q) option result"
  assumes put_room: "invar q \<Longrightarrow> room q \<Longrightarrow>
        \<exists>q'. put x q = Inr (Some q') \<and> invar q' \<and> items q' = items q @ [x]"
    and put_full: "invar q \<Longrightarrow> \<not> room q \<Longrightarrow> put x q = Inr None"
    and full_nonempty: "invar q \<Longrightarrow> \<not> room q \<Longrightarrow> items q \<noteq> []"
    and take_item: "invar q \<Longrightarrow> items q = x # xs \<Longrightarrow>
        \<exists>q'. take' q = Inr (Some (x, q')) \<and> invar q' \<and> items q' = xs"
    and take_empty: "invar q \<Longrightarrow> items q = [] \<Longrightarrow> take' q = Inr None"
begin

definition cv_ok :: "('x, 'q) qsys \<Rightarrow> bool" where
  "cv_ok s \<longleftrightarrow> invar (queue s) \<and> put_log s = take_log s @ items (queue s)
     \<and> (\<forall>t x. threads s t = WaitNotFull x \<longrightarrow> \<not> room (queue s))
     \<and> (\<forall>t. threads s t = WaitNotEmpty \<longrightarrow> items (queue s) = [])"

lemma put_SomeD:
  "invar q \<Longrightarrow> put x q = Inr (Some q') \<Longrightarrow> room q \<and> invar q' \<and> items q' = items q @ [x]"
  using put_room [of q x] put_full [of q x] by (cases "room q") auto

lemma put_NoneD: "invar q \<Longrightarrow> put x q = Inr None \<Longrightarrow> \<not> room q"
  using put_room [of q x] by auto

lemma take_SomeD:
  "invar q \<Longrightarrow> take' q = Inr (Some (x, q')) \<Longrightarrow> invar q' \<and> items q = x # items q'"
  using take_item [of q] take_empty [of q] by (cases "items q") auto

lemma take_NoneD: "invar q \<Longrightarrow> take' q = Inr None \<Longrightarrow> items q = []"
  using take_item [of q] by (cases "items q") auto

lemma cv_step_ok: "cv_step put take' s s' \<Longrightarrow> cv_ok s \<Longrightarrow> cv_ok s'"
proof (induction rule: cv_step.induct)
  case (put_done s t x q)
  then have "room (queue s)" "invar q" "items q = items (queue s) @ [x]"
    using put_SomeD by (auto simp: cv_ok_def)
  with put_done show ?case by (auto simp: cv_ok_def)
next
  case (put_wait s t x)
  then have "\<not> room (queue s)" using put_NoneD by (auto simp: cv_ok_def)
  with put_wait show ?case by (auto simp: cv_ok_def)
next
  case (take_done s t x q)
  then have "invar q" "items (queue s) = x # items q"
    using take_SomeD by (auto simp: cv_ok_def)
  with take_done show ?case by (auto simp: cv_ok_def)
next
  case (take_wait s t)
  then have "items (queue s) = []" using take_NoneD by (auto simp: cv_ok_def)
  with take_wait show ?case by (auto simp: cv_ok_def)
qed (auto simp: cv_ok_def split: if_splits)

lemma cv_reachable_ok:
  assumes "invar q0" and "items q0 = []"
  shows "cv_reachable put take' q0 s \<Longrightarrow> cv_ok s"
proof (induction rule: cv_reachable.induct)
  case start
  with assms show ?case by (simp add: cv_ok_def cv_start_def)
next
  case (step s s')
  then show ?case by (blast intro: cv_step_ok)
qed

lemma critical_sections_total:
  assumes "cv_ok s"
  shows "(\<exists>r. put x (queue s) = Inr r) \<and> (\<exists>r. take' (queue s) = Inr r)"
  using assms put_room [of "queue s" x] put_full [of "queue s" x]
    take_item [of "queue s"] take_empty [of "queue s"]
  by (cases "room (queue s)"; cases "items (queue s)") (auto simp: cv_ok_def)

lemma not_both_blocked:
  "cv_ok s \<Longrightarrow> threads s t = WaitNotFull x \<Longrightarrow> threads s u \<noteq> WaitNotEmpty"
  using full_nonempty by (auto simp: cv_ok_def)

lemma fifo: "cv_ok s \<Longrightarrow> put_log s = take_log s @ items (queue s)"
  by (simp add: cv_ok_def)

lemma no_lost_wakeup:
  "cv_ok s \<Longrightarrow> threads s t = WaitNotFull x \<Longrightarrow> \<not> room (queue s)"
  "cv_ok s \<Longrightarrow> threads s t = WaitNotEmpty \<Longrightarrow> items (queue s) = []"
  by (auto simp: cv_ok_def)

end

section \<open>The ring buffer implements a bounded queue\<close>

definition rb_ok :: "'a RingBuffer \<Rightarrow> bool" where
  "rb_ok rb \<longleftrightarrow> 0 < rb_capacity rb \<and> length (rb_buffer rb) = rb_capacity rb
     \<and> 0 \<le> rb_numDatas rb \<and> rb_numDatas rb \<le> int (rb_capacity rb)
     \<and> rb_getPos rb < rb_capacity rb
     \<and> rb_putPos rb = (rb_getPos rb + nat (rb_numDatas rb)) mod rb_capacity rb"

definition rb_items :: "'a RingBuffer \<Rightarrow> 'a list" where
  "rb_items rb = map (\<lambda>i. rb_buffer rb ! ((rb_getPos rb + i) mod rb_capacity rb))
                     [0..<nat (rb_numDatas rb)]"

lemma mod_add_inj:
  assumes "i < n" and "j < n" and "(g + i) mod n = (g + j) mod (n :: nat)"
  shows "i = j"
proof -
  have le: "a = b" if "b \<le> a" "a < n" "(g + a) mod n = (g + b) mod n" for a b
  proof -
    have "n dvd a - b" using that by (simp add: mod_eq_dvd_iff_nat)
    moreover have "a - b < n" using that by simp
    ultimately have "a - b = 0" by (metis dvd_imp_le not_less neq0_conv)
    with that show ?thesis by simp
  qed
  show ?thesis using le [of i j] le [of j i] assms by (metis nat_le_linear)
qed

lemma RingBuffer_add_mod: "pos < rb_capacity rb \<Longrightarrow> RingBuffer_add rb pos = Suc pos mod rb_capacity rb"
  by (auto simp: RingBuffer_add_def)

lemma rb_new_ok: "0 < n \<Longrightarrow> rb_ok (RingBuffer_new d n)"
  by (simp add: rb_ok_def RingBuffer_new_def)

lemma rb_items_new [simp]: "rb_items (RingBuffer_new d n) = []"
  by (simp add: rb_items_def RingBuffer_new_def)

lemma length_rb_items: "length (rb_items rb) = nat (rb_numDatas rb)"
  by (simp add: rb_items_def)

lemma RingBuffer_empty_iff: "rb_ok rb \<Longrightarrow> RingBuffer_empty rb \<longleftrightarrow> rb_items rb = []"
  by (auto simp: rb_ok_def RingBuffer_empty_def rb_items_def)

lemma RingBuffer_full_iff: "rb_ok rb \<Longrightarrow> RingBuffer_full rb \<longleftrightarrow> length (rb_items rb) = rb_capacity rb"
  by (auto simp: rb_ok_def RingBuffer_full_def length_rb_items)

lemma RingBuffer_push_back_spec:
  assumes ok: "rb_ok rb" and room: "\<not> RingBuffer_full rb"
  shows "\<exists>rb'. RingBuffer_push_back x rb = Inr rb' \<and> rb_ok rb' \<and> rb_items rb' = rb_items rb @ [x]
            \<and> rb_capacity rb' = rb_capacity rb"
proof -
  obtain k where k: "rb_numDatas rb = int k"
    using ok by (metis rb_ok_def nonneg_int_cases)
  let ?c = "rb_capacity rb" and ?g = "rb_getPos rb"
  let ?p = "(?g + k) mod ?c"
  have lt: "k < ?c" and c: "0 < ?c"
    using ok room k by (auto simp: rb_ok_def RingBuffer_full_def)
  have p: "rb_putPos rb = ?p" "?p < length (rb_buffer rb)"
    using ok k by (auto simp: rb_ok_def)
  have other: "(?g + i) mod ?c \<noteq> ?p" if "i < k" for i
    using mod_add_inj [of i ?c k ?g] that lt by auto
  have keep: "(rb_buffer rb)[?p := x] ! ((?g + i) mod ?c) = rb_buffer rb ! ((?g + i) mod ?c)"
    if "i < k" for i
    by (rule nth_list_update_neq) (use other [OF that] in simp)
  have add: "RingBuffer_add rb ?p = (?g + Suc k) mod ?c"
    using c by (simp add: RingBuffer_add_mod mod_Suc_eq)
  let ?rb' = "rb\<lparr>rb_buffer := (rb_buffer rb)[?p := x], rb_putPos := RingBuffer_add rb ?p,
                 rb_numDatas := rb_numDatas rb + 1\<rparr>"
  have "RingBuffer_push_back x rb = Inr ?rb'"
    using p k lt by (simp add: RingBuffer_push_back_def)
  moreover have "rb_ok ?rb'"
    using ok add k lt by (simp add: rb_ok_def nat_add_distrib)
  moreover have "rb_items ?rb' = rb_items rb @ [x]"
    using k p keep by (simp add: rb_items_def nat_add_distrib)
  ultimately show ?thesis by auto
qed

lemma RingBuffer_push_back_full:
  "RingBuffer_full rb \<Longrightarrow> RingBuffer_push_back x rb = Inl AssertionFailed"
  by (simp add: RingBuffer_full_def RingBuffer_push_back_def)

lemma RingBuffer_front_pop_spec:
  assumes ok: "rb_ok rb" and items: "rb_items rb = x # xs"
  shows "RingBuffer_front rb = Inr x \<and> rb_ok (RingBuffer_pop_front rb)
     \<and> rb_items (RingBuffer_pop_front rb) = xs"
proof -
  have "length (rb_items rb) = Suc (length xs)" using items by simp
  then obtain k where k: "rb_numDatas rb = int (Suc k)"
    using ok by (metis length_rb_items nat_eq_iff of_nat_Suc rb_ok_def int_ops(1) zero_neq_one
        old.nat.distinct(2))
  let ?c = "rb_capacity rb" and ?g = "rb_getPos rb"
  have c: "0 < ?c" "?g < ?c" using ok by (auto simp: rb_ok_def)
  have "rb_items rb = rb_buffer rb ! (?g mod ?c) #
          map (\<lambda>i. rb_buffer rb ! ((?g + i) mod ?c)) [1..<Suc k]"
    using k by (simp add: rb_items_def nat_add_distrib upt_conv_Cons del: upt_Suc)
  also have "[1..<Suc k] = map Suc [0..<k]" by (simp add: map_Suc_upt)
  finally have split: "x = rb_buffer rb ! ?g"
      "xs = map (\<lambda>i. rb_buffer rb ! ((?g + Suc i) mod ?c)) [0..<k]"
    using items c by simp_all
  have add: "RingBuffer_add rb ?g = Suc ?g mod ?c"
    using c by (simp add: RingBuffer_add_mod)
  have "rb_items (RingBuffer_pop_front rb) = xs"
    using k by (simp add: split(2) rb_items_def RingBuffer_pop_front_def add mod_add_left_eq)
  moreover have "rb_ok (RingBuffer_pop_front rb)"
    using ok k c by (simp add: rb_ok_def RingBuffer_pop_front_def add mod_add_left_eq nat_add_distrib)
  moreover have "RingBuffer_front rb = Inr x"
    using ok k split(1) by (simp add: RingBuffer_front_def rb_ok_def)
  ultimately show ?thesis by simp
qed

interpretation bounded: blocking_queue rb_ok rb_items "\<lambda>rb. \<not> RingBuffer_full rb"
    BoundedBlockingQueue_put BoundedBlockingQueue_take
proof (unfold_locales, goal_cases)
  case (1 q x)
  then show ?case using RingBuffer_push_back_spec [of q x] by (auto simp: BoundedBlockingQueue_put_def)
next
  case (2 q x)
  then show ?case by (simp add: BoundedBlockingQueue_put_def)
next
  case (3 q)
  then show ?case by (auto simp: RingBuffer_full_iff rb_ok_def)
next
  case (4 q x xs)
  then show ?case using RingBuffer_front_pop_spec [of q x xs]
    by (simp add: BoundedBlockingQueue_take_def RingBuffer_empty_iff)
next
  case (5 q)
  then show ?case by (simp add: BoundedBlockingQueue_take_def RingBuffer_empty_iff)
qed

interpretation unbounded: blocking_queue "\<lambda>_. True" "\<lambda>q. q" "\<lambda>_. True"
    BlockingQueue_put BlockingQueue_take
  by unfold_locales (auto simp: BlockingQueue_put_def BlockingQueue_take_def)

section \<open>Properties\<close>



text \<open>
  C9. The bounded blocking queue, under every interleaving of any number of producers and
  consumers: elements leave in the order they entered, none lost or duplicated; the queue never
  holds more than its capacity; no critical section trips an assertion; a producer is blocked only
  while the queue is full and a consumer only while it is empty (no lost wake-up), so producers and
  consumers are never blocked at the same time.
\<close>

theorem BoundedBlockingQueue_safe:
  assumes cap: "0 < n"
    and run: "cv_reachable BoundedBlockingQueue_put BoundedBlockingQueue_take (RingBuffer_new d n) s"
  shows "put_log s = take_log s @ rb_items (queue s) \<and>
     length (rb_items (queue s)) \<le> rb_capacity (queue s) \<and>
     (\<exists>r. BoundedBlockingQueue_put x (queue s) = Inr r) \<and>
     (\<exists>r. BoundedBlockingQueue_take (queue s) = Inr r) \<and>
     (\<forall>t y. threads s t = WaitNotFull y \<longrightarrow> RingBuffer_full (queue s)) \<and>
     (\<forall>t. threads s t = WaitNotEmpty \<longrightarrow> RingBuffer_empty (queue s)) \<and>
     (\<forall>t u y. threads s t = WaitNotFull y \<longrightarrow> threads s u \<noteq> WaitNotEmpty)"
proof -
  have ok: "bounded.cv_ok s"
    using bounded.cv_reachable_ok [OF rb_new_ok [OF cap] _ run] by simp
  then have inv: "rb_ok (queue s)" by (simp add: bounded.cv_ok_def)
  show ?thesis
    using bounded.fifo [OF ok] bounded.critical_sections_total [OF ok]
      bounded.no_lost_wakeup [OF ok] bounded.not_both_blocked [OF ok] inv
    by (auto simp: RingBuffer_empty_iff rb_ok_def length_rb_items)
qed

theorem BoundedBlockingQueue_safe_witness:
  "\<exists>s :: (nat, nat RingBuffer) qsys.
     cv_reachable BoundedBlockingQueue_put BoundedBlockingQueue_take (RingBuffer_new 0 1) s \<and>
     threads s 0 = WaitNotEmpty \<and> RingBuffer_empty (queue s)"
proof -
  let ?R = "cv_reachable BoundedBlockingQueue_put BoundedBlockingQueue_take (RingBuffer_new (0 :: nat) 1)"
  let ?s0 = "cv_start (RingBuffer_new 0 1) :: (nat, nat RingBuffer) qsys"
  let ?s1 = "?s0\<lparr>threads := (threads ?s0)(0 := Taking)\<rparr>"
  let ?s2 = "?s1\<lparr>threads := (threads ?s1)(0 := WaitNotEmpty)\<rparr>"
  have "?R ?s1"
    by (rule cv_reachable.step [OF cv_reachable.start], rule cv_step.call_take) (simp add: cv_start_def)
  then have r: "?R ?s2"
    by (rule cv_reachable.step, intro cv_step.take_wait)
      (simp_all add: cv_start_def BoundedBlockingQueue_take_def RingBuffer_empty_def RingBuffer_new_def)
  have w: "threads ?s2 0 = WaitNotEmpty" by simp
  have "RingBuffer_empty (queue ?s2)"
    using BoundedBlockingQueue_safe [OF zero_less_one r] w by blast
  with r w show ?thesis by blast
qed

text \<open>
  The unbounded blocking queue: the same order and wake-up guarantees, and a producer never
  blocks.
\<close>

theorem BlockingQueue_safe:
  assumes run: "cv_reachable BlockingQueue_put BlockingQueue_take [] s"
  shows "put_log s = take_log s @ queue s \<and>
     (\<forall>t y. threads s t \<noteq> WaitNotFull y) \<and> (\<forall>t. threads s t = WaitNotEmpty \<longrightarrow> queue s = [])"
proof -
  have ok: "unbounded.cv_ok s"
    using unbounded.cv_reachable_ok [OF _ _ run] by simp
  then show ?thesis
    using unbounded.fifo [OF ok] unbounded.no_lost_wakeup [OF ok] by auto
qed

theorem BlockingQueue_safe_witness:
  "\<exists>s :: (nat, nat list) qsys. cv_reachable BlockingQueue_put BlockingQueue_take [] s \<and>
     threads s 0 = Idle \<and> put_log s = [7] \<and> [7] = take_log s @ queue s"
proof -
  let ?R = "cv_reachable BlockingQueue_put BlockingQueue_take ([] :: nat list)"
  let ?s0 = "cv_start [] :: (nat, nat list) qsys"
  let ?s1 = "?s0\<lparr>threads := (threads ?s0)(0 := Putting 7)\<rparr>"
  let ?s2 = "?s1\<lparr>queue := [7], threads := notify_takers ((threads ?s1)(0 := Idle)), put_log := put_log ?s1 @ [7]\<rparr>"
  have "?R ?s1"
    by (rule cv_reachable.step [OF cv_reachable.start], rule cv_step.call_put) (simp add: cv_start_def)
  then have r: "?R ?s2"
    by (rule cv_reachable.step, intro cv_step.put_done)
      (simp_all add: cv_start_def BlockingQueue_put_def)
  then show ?thesis using BlockingQueue_safe [OF r]
    by (intro exI [of _ ?s2]) (simp add: cv_start_def notify_takers_def)
qed

end
