(* ===== verification/Base_LogStream.thy ===== *)
theory Base_LogStream
  imports Prelude
begin

text \<open>
  Formatting of log lines: \<open>LogStream.h\<close> and \<open>LogStream.cc\<close> of \<open>ideal/base\<close>.

  \<open>FixedBuffer<SIZE>\<close> is its array and the offset of \<open>_cur\<close>. An inserted integer is a word of the width
  of its C++ type; \<open>convert\<close> computes in that type, where neither the remainder nor the quotient by ten
  can overflow, so it is a function on \<open>int\<close>. The text \<open>%.12g\<close> gives for a \<open>double\<close> is a parameter.
\<close>

section \<open>Fixed buffers\<close>

definition kSmallBuffer :: nat where
  "kSmallBuffer = 4000"

record FixedBuffer =
  fb_data :: "char list"
  fb_cur :: nat

definition FixedBuffer_new :: "char list \<Rightarrow> FixedBuffer" where
  "FixedBuffer_new junk = \<lparr>fb_data = junk, fb_cur = 0\<rparr>"

definition FixedBuffer_avail :: "FixedBuffer \<Rightarrow> nat" where
  "FixedBuffer_avail b = length (fb_data b) - fb_cur b"

definition FixedBuffer_add :: "nat \<Rightarrow> FixedBuffer \<Rightarrow> FixedBuffer" where
  "FixedBuffer_add len b = b\<lparr>fb_cur := fb_cur b + len\<rparr>"

definition FixedBuffer_append :: "char list \<Rightarrow> FixedBuffer \<Rightarrow> FixedBuffer result" where
  "FixedBuffer_append buf b =
     (if FixedBuffer_avail b > length buf
      then bindR (mem_write (fb_cur b) buf (fb_data b)) (\<lambda>d. Inr (FixedBuffer_add (length buf) (b\<lparr>fb_data := d\<rparr>)))
      else Inr b)"

definition FixedBuffer_reset :: "FixedBuffer \<Rightarrow> FixedBuffer" where
  "FixedBuffer_reset b = b\<lparr>fb_cur := 0\<rparr>"

definition FixedBuffer_bzero :: "FixedBuffer \<Rightarrow> FixedBuffer" where
  "FixedBuffer_bzero b = b\<lparr>fb_data := replicate (length (fb_data b)) (CHR 0x00)\<rparr>"

definition FixedBuffer_toString :: "FixedBuffer \<Rightarrow> string" where
  "FixedBuffer_toString b = slice 0 (fb_cur b) (fb_data b)"

section \<open>Conversion of integers\<close>

definition digits :: string where
  "digits = ''9876543210123456789''"

definition digitsHex :: string where
  "digitsHex = ''0123456789ABCDEF''"

definition zero :: "int \<Rightarrow> char" where
  "zero lsd = digits ! nat (9 + lsd)"

text \<open>The \<open>do\<close> loop of \<open>convert\<close>: the characters in the order they are written.\<close>

function convert_loop :: "int \<Rightarrow> string" where
  "convert_loop i =
     (let lsd = cmod i 10; i = cdiv i 10 in zero lsd # (if i \<noteq> 0 then convert_loop i else []))"
  by pat_completeness auto
termination convert_loop
proof (relation "measure (\<lambda>i. nat \<bar>i\<bar>)")
  fix i x xa :: int
  assume x: "xa = cdiv i 10" "xa \<noteq> 0"
  have "\<bar>cdiv i 10\<bar> = \<bar>i\<bar> div 10" by (auto simp: cdiv_def abs_mult)
  moreover have "\<bar>i\<bar> div 10 < \<bar>i\<bar>" using x by (cases "i = 0") (auto simp: cdiv_def)
  ultimately show "(xa, i) \<in> measure (\<lambda>i. nat \<bar>i\<bar>)" using x by simp
qed simp

definition convert :: "int \<Rightarrow> string" where
  "convert value = rev (convert_loop value @ (if value < 0 then ''-'' else ''''))"

fun convertHex_loop :: "nat \<Rightarrow> string" where
  "convertHex_loop i = digitsHex ! (i mod 16) # (if i div 16 \<noteq> 0 then convertHex_loop (i div 16) else [])"

definition convertHex :: "nat \<Rightarrow> string" where
  "convertHex value = rev (convertHex_loop value)"

declare convert_loop.simps [simp del] convertHex_loop.simps [simp del]

section \<open>Log streams\<close>

definition kMaxNumericSize :: nat where
  "kMaxNumericSize = 32"

text \<open>The number and its terminating NUL are written at \<open>current()\<close>.\<close>

definition LogStream_formatInteger :: "int \<Rightarrow> FixedBuffer \<Rightarrow> FixedBuffer result" where
  "LogStream_formatInteger v b =
     (if FixedBuffer_avail b \<ge> kMaxNumericSize
      then bindR (mem_write (fb_cur b) (convert v @ [CHR 0x00]) (fb_data b)) (\<lambda>d.
           Inr (FixedBuffer_add (length (convert v)) (b\<lparr>fb_data := d\<rparr>)))
      else Inr b)"

definition LogStream_bool :: "bool \<Rightarrow> FixedBuffer \<Rightarrow> FixedBuffer result" where
  "LogStream_bool v = FixedBuffer_append (if v then ''1'' else ''0'')"

definition LogStream_int :: "32 word \<Rightarrow> FixedBuffer \<Rightarrow> FixedBuffer result" where
  "LogStream_int v = LogStream_formatInteger (sint v)"

definition LogStream_unsigned_int :: "32 word \<Rightarrow> FixedBuffer \<Rightarrow> FixedBuffer result" where
  "LogStream_unsigned_int v = LogStream_formatInteger (uint v)"

definition LogStream_short :: "16 word \<Rightarrow> FixedBuffer \<Rightarrow> FixedBuffer result" where
  "LogStream_short v = LogStream_int (scast v)"

definition LogStream_unsigned_short :: "16 word \<Rightarrow> FixedBuffer \<Rightarrow> FixedBuffer result" where
  "LogStream_unsigned_short v = LogStream_unsigned_int (ucast v)"

text \<open>\<open>long\<close> and \<open>long long\<close> have 64 bits.\<close>

definition LogStream_long :: "64 word \<Rightarrow> FixedBuffer \<Rightarrow> FixedBuffer result" where
  "LogStream_long v = LogStream_formatInteger (sint v)"

definition LogStream_unsigned_long :: "64 word \<Rightarrow> FixedBuffer \<Rightarrow> FixedBuffer result" where
  "LogStream_unsigned_long v = LogStream_formatInteger (uint v)"

text \<open>\<open>snprintf\<close> writes at most 31 characters and a NUL and returns the length of the whole text.\<close>

definition LogStream_double :: "string \<Rightarrow> FixedBuffer \<Rightarrow> FixedBuffer result" where
  "LogStream_double text b =
     (if FixedBuffer_avail b \<ge> kMaxNumericSize
      then bindR (mem_write (fb_cur b) (snprintf kMaxNumericSize text @ [CHR 0x00]) (fb_data b)) (\<lambda>d.
           Inr (FixedBuffer_add (length text) (b\<lparr>fb_data := d\<rparr>)))
      else Inr b)"

definition LogStream_char :: "char \<Rightarrow> FixedBuffer \<Rightarrow> FixedBuffer result" where
  "LogStream_char v = FixedBuffer_append [v]"

definition LogStream_c_string :: "string option \<Rightarrow> FixedBuffer \<Rightarrow> FixedBuffer result" where
  "LogStream_c_string str = FixedBuffer_append (case str of Some s \<Rightarrow> s | None \<Rightarrow> ''(null)'')"

definition LogStream_pointer :: "64 word \<Rightarrow> FixedBuffer \<Rightarrow> FixedBuffer result" where
  "LogStream_pointer p b =
     (if FixedBuffer_avail b \<ge> kMaxNumericSize
      then bindR (mem_write (fb_cur b) (''0x'' @ convertHex (unat p) @ [CHR 0x00]) (fb_data b)) (\<lambda>d.
           Inr (FixedBuffer_add (length (convertHex (unat p)) + 2) (b\<lparr>fb_data := d\<rparr>)))
      else Inr b)"

definition LogStream_string :: "string \<Rightarrow> FixedBuffer \<Rightarrow> FixedBuffer result" where
  "LogStream_string str = FixedBuffer_append str"

definition LogStream_Buffer :: "FixedBuffer \<Rightarrow> FixedBuffer \<Rightarrow> FixedBuffer result" where
  "LogStream_Buffer buf = LogStream_string (FixedBuffer_toString buf)"

text \<open>What can be inserted, and the insertion of a sequence of items.\<close>

datatype log_item =
    LBool bool | LShort "16 word" | LUShort "16 word" | LInt "32 word" | LUInt "32 word" | LLong "64 word" | LULong "64 word"
  | LDouble string | LChar char | LCString "string option" | LPointer "64 word" | LString string

fun LogStream_insert :: "log_item \<Rightarrow> FixedBuffer \<Rightarrow> FixedBuffer result" where
  "LogStream_insert (LBool v) = LogStream_bool v"
| "LogStream_insert (LShort v) = LogStream_short v"
| "LogStream_insert (LUShort v) = LogStream_unsigned_short v"
| "LogStream_insert (LInt v) = LogStream_int v"
| "LogStream_insert (LUInt v) = LogStream_unsigned_int v"
| "LogStream_insert (LLong v) = LogStream_long v"
| "LogStream_insert (LULong v) = LogStream_unsigned_long v"
| "LogStream_insert (LDouble text) = LogStream_double text"
| "LogStream_insert (LChar c) = LogStream_char c"
| "LogStream_insert (LCString s) = LogStream_c_string s"
| "LogStream_insert (LPointer p) = LogStream_pointer p"
| "LogStream_insert (LString s) = LogStream_string s"

section \<open>Conversion is decimal notation\<close>

lemma zero_table: "list_all (\<lambda>d. zero (int d) = digit d \<and> zero (- int d) = digit d) [0..<10]"
  by code_simp

lemma zero_digit: "d < 10 \<Longrightarrow> zero (int d) = digit d \<and> zero (- int d) = digit d"
  using zero_table by (simp add: list_all_iff del: upt_Suc)

lemma cdiv_cmod_abs:
  assumes "\<bar>i\<bar> = int n"
  shows "\<bar>cdiv i 10\<bar> = int (n div 10)" "cmod i 10 = int (n mod 10) \<or> cmod i 10 = - int (n mod 10)"
proof -
  have d: "int (n div 10) = \<bar>i\<bar> div 10" "int (n mod 10) = \<bar>i\<bar> mod 10" using assms by (simp_all add: zdiv_int zmod_int)
  show "\<bar>cdiv i 10\<bar> = int (n div 10)" unfolding d by (auto simp: cdiv_def abs_mult)
  show "cmod i 10 = int (n mod 10) \<or> cmod i 10 = - int (n mod 10)"
    unfolding d by (cases "0 \<le> i") (simp_all add: cmod_nonneg cmod_neg)
qed

lemma convert_loop_abs: "\<bar>i\<bar> = int n \<Longrightarrow> rev (convert_loop i) = nat_dec n"
proof (induction i arbitrary: n rule: convert_loop.induct)
  case (1 i)
  note q = cdiv_cmod_abs [OF 1(2)]
  have lsd: "zero (cmod i 10) = digit (n mod 10)" using q(2) zero_digit [of "n mod 10"] by auto
  show ?case
  proof (cases "cdiv i 10 = 0")
    case True
    then have "n < 10" using q(1) by simp
    then show ?thesis using True lsd by (subst convert_loop.simps, subst nat_dec.simps) (simp add: Let_def)
  next
    case False
    then have "\<not> n < 10" using q(1) by auto
    moreover have "rev (convert_loop (cdiv i 10)) = nat_dec (n div 10)" using 1(1) [OF refl refl False q(1)] .
    ultimately show ?thesis using False lsd by (subst convert_loop.simps, subst nat_dec.simps) (simp add: Let_def)
  qed
qed

lemma convert_int_dec: "convert value = int_dec value"
  using convert_loop_abs [of "value" "nat \<bar>value\<bar>"] by (simp add: convert_def int_dec_def)

text \<open>
  The conversion of integers, which takes the digits from a table with negative remainders to avoid
  negating the smallest number, is decimal notation: for every value of every integer type the text is
  the one with the sign, if any, and the decimal digits of the absolute value.
\<close>

theorem LogStream_convert_decimal:
  "convert value = int_dec value"
  by (rule convert_int_dec)

section \<open>Lines\<close>

definition fb_ok :: "FixedBuffer \<Rightarrow> bool" where
  "fb_ok b \<longleftrightarrow> length (fb_data b) = kSmallBuffer \<and> fb_cur b < kSmallBuffer"

fun item_ok :: "log_item \<Rightarrow> bool" where
  "item_ok (LDouble str) \<longleftrightarrow> length str < 32"
| "item_ok _ \<longleftrightarrow> True"

fun item_text :: "log_item \<Rightarrow> string" where
  "item_text (LBool v) = (if v then ''1'' else ''0'')"
| "item_text (LShort v) = int_dec (sint v)"
| "item_text (LUShort v) = nat_dec (unat v)"
| "item_text (LInt v) = int_dec (sint v)"
| "item_text (LUInt v) = nat_dec (unat v)"
| "item_text (LLong v) = int_dec (sint v)"
| "item_text (LULong v) = nat_dec (unat v)"
| "item_text (LDouble str) = str"
| "item_text (LChar c) = [c]"
| "item_text (LCString s) = (case s of Some s \<Rightarrow> s | None \<Rightarrow> ''(null)'')"
| "item_text (LPointer p) = ''0x'' @ convertHex (unat p)"
| "item_text (LString s) = s"

definition inserted :: "string \<Rightarrow> FixedBuffer \<Rightarrow> FixedBuffer result \<Rightarrow> bool" where
  "inserted str b res \<longleftrightarrow> (\<exists>b'. res = Inr b' \<and> fb_ok b' \<and>
     (FixedBuffer_toString b' = FixedBuffer_toString b @ str \<or> b' = b \<and> FixedBuffer_avail b < max 32 (length str + 1)))"

lemma write_text:
  assumes "fb_ok b" "fb_cur b + length (str @ tail) \<le> kSmallBuffer" "fb_cur b + length str < kSmallBuffer"
  shows "inserted str b (bindR (mem_write (fb_cur b) (str @ tail) (fb_data b)) (\<lambda>d.
    Inr (FixedBuffer_add (length str) (b\<lparr>fb_data := d\<rparr>))))"
proof -
  let ?d = "splice (fb_cur b) (str @ tail) (fb_data b)"
  have len: "length (fb_data b) = kSmallBuffer" using assms(1) by (simp add: fb_ok_def)
  have "slice 0 (fb_cur b + length str) ?d = slice 0 (fb_cur b) (fb_data b) @ str"
    using assms(2) len by (simp add: slice_def splice_def)
  then show ?thesis
    using assms len by (simp add: inserted_def FixedBuffer_add_def FixedBuffer_toString_def fb_ok_def)
qed

lemma append_inserted: "fb_ok b \<Longrightarrow> inserted str b (FixedBuffer_append str b)"
  using write_text [of b str "[]"]
  by (auto simp: FixedBuffer_append_def FixedBuffer_avail_def fb_ok_def inserted_def)

lemma numeric_inserted:
  assumes "fb_ok b" "length str < 32"
  shows "inserted str b (if FixedBuffer_avail b \<ge> kMaxNumericSize
      then bindR (mem_write (fb_cur b) (str @ [CHR 0x00]) (fb_data b)) (\<lambda>d.
        Inr (FixedBuffer_add (length str) (b\<lparr>fb_data := d\<rparr>))) else Inr b)"
  using write_text [of b str "[CHR 0x00]"] assms
  by (auto simp: FixedBuffer_avail_def fb_ok_def inserted_def kMaxNumericSize_def)

lemma formatInteger_inserted:
  assumes "fb_ok b" "\<bar>v\<bar> < 2 ^ 64"
  shows "inserted (int_dec v) b (LogStream_formatInteger v b)"
proof -
  have "nat \<bar>v\<bar> < 10 ^ 20" using assms(2) by (simp add: nat_less_iff)
  then have "length (nat_dec (nat \<bar>v\<bar>)) \<le> 20" by (rule length_nat_dec) simp
  then have "length (int_dec v) < 32" by (auto simp: int_dec_def)
  from numeric_inserted [OF assms(1) this] show ?thesis
    unfolding LogStream_formatInteger_def convert_int_dec .
qed

lemma length_convertHex: "n < 16 ^ k \<Longrightarrow> 0 < k \<Longrightarrow> length (convertHex_loop n) \<le> k"
proof (induction n arbitrary: k rule: convertHex_loop.induct)
  case (1 n)
  show ?case
  proof (cases "n div 16 = 0")
    case True
    then show ?thesis using 1(3) by (subst convertHex_loop.simps) simp
  next
    case False
    then have "16 \<le> n" by simp
    then have k: "1 < k" using 1(2) by (cases k; cases "k - 1") auto
    then have "n div 16 < 16 ^ (k - 1)" using 1(2) by (cases k) (simp_all add: less_mult_imp_div_less mult.commute)
    then have "length (convertHex_loop (n div 16)) \<le> k - 1" using 1(1) [OF False] k by simp
    then show ?thesis using False k by (subst convertHex_loop.simps) simp
  qed
qed

lemma word_abs: "\<bar>sint (w :: 32 word)\<bar> < 2 ^ 64" "\<bar>uint (w :: 32 word)\<bar> < 2 ^ 64" "\<bar>sint (v :: 64 word)\<bar> < 2 ^ 64"
  "\<bar>uint (v :: 64 word)\<bar> < 2 ^ 64"
  using sint_ge [of w] sint_lt [of w] sint_ge [of v] sint_lt [of v] unsigned_less [of w, where 'a = int] unsigned_less [of v, where 'a = int]
  by simp_all

lemma int_dec_uint: "int_dec (uint w) = nat_dec (unat w)"
  by (simp add: int_dec_def)

lemma short_values: "sint (scast (v :: 16 word) :: 32 word) = sint v" "uint (ucast (v :: 16 word) :: 32 word) = uint v"
proof -
  show "uint (ucast v :: 32 word) = uint v" by (simp add: unsigned_ucast_eq take_bit_int_eq_self_iff)
      (use unsigned_less [of v, where 'a = int] in simp)
  show "sint (scast v :: 32 word) = sint v"
    by (simp add: signed_scast_eq signed_take_bit_int_eq_self_iff) (use sint_ge [of v] sint_lt [of v] in simp)
qed

lemma insert_inserted:
  assumes "fb_ok b" "item_ok it"
  shows "inserted (item_text it) b (LogStream_insert it b)"
proof -
  note fmt = formatInteger_inserted [OF assms(1)]
  show ?thesis
  proof (cases it)
    case (LShort v)
    then show ?thesis using fmt [OF word_abs(1), of "scast v"] by (simp add: LogStream_short_def LogStream_int_def short_values)
  next
    case (LUShort v)
    then show ?thesis using fmt [OF word_abs(2), of "ucast v"]
      by (simp add: LogStream_unsigned_short_def LogStream_unsigned_int_def short_values int_dec_uint)
  next
    case (LPointer p)
    have "unat p < 16 ^ 16" using unsigned_less [of p, where 'a = nat] by simp
    then have "length (''0x'' @ convertHex (unat p)) < 32" using length_convertHex [of "unat p" 16] by (simp add: convertHex_def)
    from numeric_inserted [OF assms(1) this] show ?thesis using LPointer by (auto simp: LogStream_pointer_def split: if_splits)
  next
    case (LDouble s)
    then have "length s < 32" using assms(2) by simp
    moreover from this have "snprintf kMaxNumericSize s = s" by (simp add: snprintf_def kMaxNumericSize_def)
    ultimately show ?thesis using numeric_inserted [OF assms(1), of s] LDouble by (auto simp: LogStream_double_def split: if_splits)
  qed (use append_inserted [OF assms(1)] fmt word_abs in
      \<open>simp_all add: LogStream_bool_def LogStream_int_def LogStream_unsigned_int_def LogStream_long_def LogStream_unsigned_long_def
        LogStream_char_def LogStream_c_string_def LogStream_string_def int_dec_uint [symmetric]\<close>)
qed

text \<open>
  C22. A log line never leaves its buffer. Any sequence of insertions into a well-formed buffer of 4000 bytes
  succeeds, keeps it well-formed (the array keeps its size, the end of the text stays inside it) and
  appends, item by item, either the whole text of the item or nothing; an item is left out only when
  fewer bytes are free than it needs, a terminating NUL included, or fewer than 32.
\<close>

theorem LogStream_line_type:
  assumes "fb_ok b" "\<forall>it\<in>set items. item_ok it"
  shows "\<exists>b' ts. foldR LogStream_insert items b = Inr b' \<and> fb_ok b' \<and>
    FixedBuffer_toString b' = FixedBuffer_toString b @ concat ts \<and>
    list_all2 (\<lambda>t it. t = item_text it \<or> t = '''' \<and> FixedBuffer_avail b' < max 32 (length (item_text it) + 1)) ts items"
  using assms
proof (induction items arbitrary: b)
  case Nil
  then show ?case by (intro exI [of _ b] exI [of _ "[]"]) simp
next
  case (Cons it items)
  then obtain b1 where b1: "LogStream_insert it b = Inr b1" "fb_ok b1"
      "FixedBuffer_toString b1 = FixedBuffer_toString b @ item_text it \<or>
       b1 = b \<and> FixedBuffer_avail b < max 32 (length (item_text it) + 1)"
    using insert_inserted [of b it] by (auto simp: inserted_def)
  then obtain b' ts where b': "foldR LogStream_insert items b1 = Inr b'" "fb_ok b'"
      "FixedBuffer_toString b' = FixedBuffer_toString b1 @ concat ts"
      "list_all2 (\<lambda>t it. t = item_text it \<or> t = '''' \<and> FixedBuffer_avail b' < max 32 (length (item_text it) + 1)) ts items"
    using Cons.IH [of b1] Cons.prems by auto
  have grow: "FixedBuffer_avail b' \<le> FixedBuffer_avail b1"
  proof -
    have "length (FixedBuffer_toString b1) \<le> length (FixedBuffer_toString b')" using b'(3) by simp
    then show ?thesis using b1(2) b'(2) by (simp add: FixedBuffer_toString_def FixedBuffer_avail_def fb_ok_def)
  qed
  have run: "foldR LogStream_insert (it # items) b = Inr b'" using b1(1) b'(1) by simp
  from b1(3) show ?case
  proof
    assume "FixedBuffer_toString b1 = FixedBuffer_toString b @ item_text it"
    then show ?thesis using run b' by (intro exI [of _ b'] exI [of _ "item_text it # ts"]) simp
  next
    assume "b1 = b \<and> FixedBuffer_avail b < max 32 (length (item_text it) + 1)"
    then show ?thesis using run b' grow by (intro exI [of _ b'] exI [of _ "'''' # ts"]) auto
  qed
qed

theorem LogStream_line_type_witness:
  "\<exists>b' ts. foldR LogStream_insert [LString ''n='', LInt (- 5), LBool True] (FixedBuffer_new (replicate 4000 (CHR 0x00))) = Inr b' \<and> fb_ok b' \<and>
    FixedBuffer_toString b' = FixedBuffer_toString (FixedBuffer_new (replicate 4000 (CHR 0x00))) @ concat ts \<and>
    list_all2 (\<lambda>t it. t = item_text it \<or> t = '''' \<and> FixedBuffer_avail b' < max 32 (length (item_text it) + 1)) ts
      [LString ''n='', LInt (- 5), LBool True]"
  by (rule LogStream_line_type) (simp_all add: fb_ok_def FixedBuffer_new_def kSmallBuffer_def)

end
