(* ===== verification/Base_Time.thy ===== *)
theory Base_Time
  imports Prelude
begin

text \<open>
  Time: \<open>Timestamp.h\<close> of \<open>ideal/base\<close>. A timestamp is its only member, the number of
  microseconds since the epoch. An interval is given in seconds as a \<open>double\<close>; the code only
  tests its sign and uses \<open>static_cast<int64_t>(seconds * 1000000)\<close>, so an interval is
  represented by these two observations.
\<close>

type_synonym Timestamp = int

record duration =
  dur_positive :: bool
  dur_micros :: int

definition duration_ok :: "duration \<Rightarrow> bool" where
  "duration_ok d \<longleftrightarrow> (dur_positive d \<longrightarrow> 0 \<le> dur_micros d)"

definition kMicrosecondsPerSecond :: int where
  "kMicrosecondsPerSecond = 1000 * 1000"

definition Timestamp_valid :: "Timestamp \<Rightarrow> bool" where
  "Timestamp_valid t \<longleftrightarrow> t > 0"

definition Timestamp_invalid :: Timestamp where
  "Timestamp_invalid = 0"

definition Timestamp_secondsSinceEpoch :: "Timestamp \<Rightarrow> int" where
  "Timestamp_secondsSinceEpoch t = cdiv t kMicrosecondsPerSecond"

definition Timestamp_fromUnixTime :: "int \<Rightarrow> Timestamp" where
  "Timestamp_fromUnixTime t = t * kMicrosecondsPerSecond"

definition addTime :: "Timestamp \<Rightarrow> duration \<Rightarrow> Timestamp" where
  "addTime timestamp seconds = timestamp + dur_micros seconds"

lemma secondsSinceEpoch_fromUnixTime: "Timestamp_secondsSinceEpoch (Timestamp_fromUnixTime t) = t"
  by (cases "t \<ge> 0")
    (simp_all add: Timestamp_secondsSinceEpoch_def Timestamp_fromUnixTime_def
      kMicrosecondsPerSecond_def cdiv_nonneg cdiv_neg)

end
