(* ===== verification/Base_Date.thy ===== *)
theory Base_Date
  imports Base_Time
begin

text \<open>
  Dates: \<open>Date.h\<close> and \<open>Date.cc\<close> of \<open>ideal/base\<close>, and the printing of timestamps in \<open>Timestamp.cc\<close>.

  A date is its Julian day number. The C arithmetic is on \<open>int\<close> with division towards zero
  (\<open>cdiv\<close>); the numbers of the formulas stay below \<open>2^31\<close> for years up to a million, so they are
  unbounded here. The reference is the Gregorian calendar: leap years, lengths of months and the
  next day.
\<close>

section \<open>Date\<close>

record YearMonthDay =
  ymd_year :: int
  ymd_month :: int
  ymd_day :: int

definition kDaysPerWeek :: int where
  "kDaysPerWeek = 7"

definition getJulianDayNumber :: "int \<Rightarrow> int \<Rightarrow> int \<Rightarrow> int" where
  "getJulianDayNumber year month day =
     (let a = cdiv (14 - month) 12;
          y = year + 4800 - a;
          m = month + 12 * a - 3
      in day + cdiv (153 * m + 2) 5 + y * 365 + cdiv y 4 - cdiv y 100 + cdiv y 400 - 32045)"

definition getYearMonthDay :: "int \<Rightarrow> YearMonthDay" where
  "getYearMonthDay julianDayNumber =
     (let a = julianDayNumber + 32044;
          b = cdiv (4 * a + 3) 146097;
          c = a - cdiv (b * 146097) 4;
          d = cdiv (4 * c + 3) 1461;
          e = c - cdiv (1461 * d) 4;
          m = cdiv (5 * e + 2) 153
      in \<lparr>ymd_year = b * 100 + d - 4800 + cdiv m 10, ymd_month = m + 3 - 12 * cdiv m 10,
          ymd_day = e - cdiv (153 * m + 2) 5 + 1\<rparr>)"

definition kJulianDayOf1970_01_01 :: int where
  "kJulianDayOf1970_01_01 = getJulianDayNumber 1970 1 1"

type_synonym Date = int

definition Date_new :: "int \<Rightarrow> int \<Rightarrow> int \<Rightarrow> Date" where
  "Date_new year month day = getJulianDayNumber year month day"

definition Date_yearMonthDay :: "Date \<Rightarrow> YearMonthDay" where
  "Date_yearMonthDay d = getYearMonthDay d"

definition Date_vaild :: "Date \<Rightarrow> bool" where
  "Date_vaild d \<longleftrightarrow> d > 0"

definition Date_weekDay :: "Date \<Rightarrow> int" where
  "Date_weekDay d = cmod (d + 1) kDaysPerWeek"

text \<open>\<open>%4d\<close> pads with blanks on the left, \<open>%02d\<close> and \<open>%06d\<close> with zeros (behind the sign).\<close>

definition pad_blank :: "nat \<Rightarrow> int \<Rightarrow> string" where
  "pad_blank w i = replicate (w - length (int_dec i)) (CHR '' '') @ int_dec i"

definition pad_zero :: "nat \<Rightarrow> int \<Rightarrow> string" where
  "pad_zero w i = (if i < 0 then CHR ''-'' # replicate (w - length (int_dec i)) (CHR ''0'') @ nat_dec (nat (- i))
     else replicate (w - length (int_dec i)) (CHR ''0'') @ int_dec i)"

definition Date_toString :: "Date \<Rightarrow> string" where
  "Date_toString d =
     (let ymd = Date_yearMonthDay d
      in snprintf 32 (pad_blank 4 (ymd_year ymd) @ ''-'' @ pad_zero 2 (ymd_month ymd) @ ''-'' @ pad_zero 2 (ymd_day ymd)))"

section \<open>Printing timestamps\<close>

definition Timestamp_toString :: "Timestamp \<Rightarrow> string" where
  "Timestamp_toString t =
     (let seconds = cdiv t kMicrosecondsPerSecond; microseconds = cmod t kMicrosecondsPerSecond
      in snprintf 31 (int_dec seconds @ ''.'' @ pad_zero 6 microseconds))"

section \<open>The Gregorian calendar\<close>

definition leap_year :: "int \<Rightarrow> bool" where
  "leap_year y \<longleftrightarrow> y mod 4 = 0 \<and> (y mod 100 \<noteq> 0 \<or> y mod 400 = 0)"

definition month_days :: "int \<Rightarrow> int \<Rightarrow> int" where
  "month_days y m = (if m = 2 then (if leap_year y then 29 else 28) else if m \<in> {4, 6, 9, 11} then 30 else 31)"

definition valid_date :: "int \<Rightarrow> int \<Rightarrow> int \<Rightarrow> bool" where
  "valid_date y m d \<longleftrightarrow> 1 \<le> m \<and> m \<le> 12 \<and> 1 \<le> d \<and> d \<le> month_days y m"

definition next_day :: "int \<times> int \<times> int \<Rightarrow> int \<times> int \<times> int" where
  "next_day = (\<lambda>(y, m, d). if d < month_days y m then (y, m, d + 1) else if m < 12 then (y, m + 1, 1) else (y + 1, 1, 1))"

text \<open>
  The formulas count years from March 4801 BC: \<open>Y\<close> such years, \<open>M\<close> months and \<open>E\<close> days of the current one.
\<close>

definition march_days :: "int \<Rightarrow> int" where
  "march_days Y = 365 * Y + Y div 4 - Y div 100 + Y div 400"

definition month_start :: "int \<Rightarrow> int" where
  "month_start M = (153 * M + 2) div 5"

lemma march_days_century:
  assumes "0 \<le> D" "D < 100"
  shows "march_days (100 * C + D) = 36524 * C + C div 4 + 365 * D + D div 4"
proof -
  have c: "(100 * C + D) div 100 = C" using assms by (intro int_div_pos_eq [where r = D]) simp_all
  have "(100 * C + D) div 400 = (100 * C + D) div 100 div 4" using zdiv_zmult2_eq [of 4 "100 * C + D" 100] by simp
  moreover have "(100 * C + D) div 4 = 25 * C + D div 4"
  proof -
    have "100 * C + D = D + 25 * C * 4" by simp
    then show ?thesis by (simp only: div_mult_self1 zero_neq_numeral not_False_eq_True)
  qed
  ultimately show ?thesis using c by (simp add: march_days_def)
qed

lemma quarter: "4 * (x div 4) = x - x mod (4 :: int)" "0 \<le> x mod (4 :: int)" "x mod 4 \<le> (3 :: int)"
  using mult_div_mod_eq [of 4 x] pos_mod_bound [of 4 x] by (simp_all add: algebra_simps)

text \<open>Recovering year and day of the year from the number of days.\<close>

lemma split_days:
  assumes Y: "Y = 100 * C + D" "0 \<le> C" "0 \<le> D" "D < 100" and E: "0 \<le> E" "E \<le> 365" "E = 365 \<longrightarrow> leap_year (Y + 1)"
  defines "a \<equiv> march_days Y + E"
  shows "(4 * a + 3) div 146097 = C"
    and "(4 * (a - (C * 146097) div 4) + 3) div 1461 = D"
    and "a - (C * 146097) div 4 - (1461 * D) div 4 = E"
proof -
  define c where "c = 365 * D + D div 4 + E"
  have a: "a = 36524 * C + C div 4 + c" using march_days_century [OF Y(3,4)] by (simp add: a_def c_def Y(1))
  have cd: "(C * 146097) div 4 = 36524 * C + C div 4" "(1461 * D) div 4 = 365 * D + D div 4"
    using div_mult_self1 [of 4 C "36524 * C"] div_mult_self1 [of 4 D "365 * D"] by (simp_all add: algebra_simps)
  have leap: "D mod 4 = 3" "D = 99 \<longrightarrow> C mod 4 = 3" if "E = 365"
  proof -
    have l: "(100 * C + D + 1) mod 4 = 0" "(100 * C + D + 1) mod 100 \<noteq> 0 \<or> (100 * C + D + 1) mod 400 = 0"
      using E(3) that by (simp_all add: leap_year_def Y(1))
    show "D mod 4 = 3" using l(1) by presburger
    show "D = 99 \<longrightarrow> C mod 4 = 3"
    proof
      assume "D = 99"
      then have "(100 * (C + 1)) mod 400 = 0" using l(2) by (simp add: algebra_simps)
      then have "(C + 1) mod 4 = 0" using mod_mult_mult1 [of 100 "C + 1" 4] by simp
      then show "C mod 4 = 3" by presburger
    qed
  qed
  have c_small: "0 \<le> 4 * c + 3 - C mod 4" "4 * c + 3 - C mod 4 < 146097"
  proof -
    have "0 \<le> c" using Y E by (simp add: c_def)
    then show "0 \<le> 4 * c + 3 - C mod 4" using quarter [of C] by linarith
    have "4 * (D div 4) \<le> 99" using quarter [of D] Y(4) by linarith
    then have "c \<le> 36159 + E" "D < 99 \<longrightarrow> c \<le> 35794 + E" using Y(4) unfolding c_def by linarith+
    then show "4 * c + 3 - C mod 4 < 146097"
      using E(2) leap(2) Y(4) quarter [of C] by (cases "E = 365"; cases "D = 99") linarith+
  qed
  show "(4 * a + 3) div 146097 = C"
    by (rule int_div_pos_eq [where r = "4 * c + 3 - C mod 4"])
      (use a c_small quarter [of C] in \<open>linarith+\<close>)
  have ac: "a - (C * 146097) div 4 = c" using a cd by simp
  have "(4 * c + 3) div 1461 = D"
  proof (rule int_div_pos_eq [where r = "4 * E + 3 - D mod 4"])
    show "4 * c + 3 = 1461 * D + (4 * E + 3 - D mod 4)" using quarter(1) [of D] by (simp add: c_def algebra_simps)
    show "0 \<le> 4 * E + 3 - D mod 4" using quarter [of D] E(1) by linarith
    show "4 * E + 3 - D mod 4 < 1461" using quarter [of D] E(2) leap(1) by (cases "E = 365") linarith+
  qed
  then show "(4 * (a - (C * 146097) div 4) + 3) div 1461 = D" using ac by simp
  show "a - (C * 146097) div 4 - (1461 * D) div 4 = E" using ac cd by (simp add: c_def)
qed

text \<open>Recovering the month.\<close>

definition march_month_days :: "int \<Rightarrow> int" where
  "march_month_days M = (if M = 11 then 29 else month_start (M + 1) - month_start M)"

lemma split_month:
  assumes "0 \<le> M" "M \<le> 11" "0 \<le> k" "k < march_month_days M"
  shows "(5 * (month_start M + k) + 2) div 153 = M" "month_start M + k \<le> 365" "0 \<le> month_start M"
proof -
  have "M = 0 \<or> M = 1 \<or> M = 2 \<or> M = 3 \<or> M = 4 \<or> M = 5 \<or> M = 6 \<or> M = 7 \<or> M = 8 \<or> M = 9 \<or> M = 10 \<or> M = 11"
    using assms(1,2) by arith
  then have "(5 * (month_start M + k) + 2) div 153 = M \<and> month_start M + k \<le> 365 \<and> 0 \<le> month_start M"
    using assms(3,4) by (elim disjE) (simp_all add: month_start_def march_month_days_def)
  then show "(5 * (month_start M + k) + 2) div 153 = M" "month_start M + k \<le> 365" "0 \<le> month_start M" by simp_all
qed

section \<open>Dates and day numbers\<close>

lemma twelve:
  assumes "1 \<le> m" "m \<le> (12 :: int)"
  obtains "m = 1" | "m = 2" | "m = 3" | "m = 4" | "m = 5" | "m = 6" | "m = 7" | "m = 8" | "m = 9" | "m = 10" | "m = 11" | "m = 12"
proof -
  have "m = 1 \<or> m = 2 \<or> m = 3 \<or> m = 4 \<or> m = 5 \<or> m = 6 \<or> m = 7 \<or> m = 8 \<or> m = 9 \<or> m = 10 \<or> m = 11 \<or> m = 12"
    using assms by arith
  then show thesis using that by blast
qed

text \<open>A date in years from March: the year, the month and the day of the month from 0.\<close>

definition march_year :: "int \<Rightarrow> int \<Rightarrow> int" where
  "march_year y m = (if m \<le> 2 then y + 4799 else y + 4800)"

definition march_month :: "int \<Rightarrow> int" where
  "march_month m = (if m \<le> 2 then m + 9 else m - 3)"

lemma getJulianDayNumber_march:
  assumes "valid_date y m d" "- 4800 < y"
  shows "getJulianDayNumber y m d = march_days (march_year y m) + (month_start (march_month m) + (d - 1)) - 32044"
    and "0 \<le> march_year y m" "0 \<le> march_month m" "march_month m \<le> 11" "d - 1 < march_month_days (march_month m)"
    and "month_start (march_month m) + (d - 1) = 365 \<longrightarrow> leap_year (march_year y m + 1)"
proof -
  have m: "1 \<le> m" "m \<le> 12" and d: "1 \<le> d" "d \<le> month_days y m" using assms(1) by (simp_all add: valid_date_def)
  have leap: "leap_year (y + 4800) = leap_year y"
    using mod_mult_self1 [of y 1200 4] mod_mult_self1 [of y 48 100] mod_mult_self1 [of y 12 400] by (simp add: leap_year_def)
  show y0: "0 \<le> march_year y m" using assms(2) by (simp add: march_year_def)
  have "getJulianDayNumber y m d = march_days (march_year y m) + (month_start (march_month m) + (d - 1)) - 32044"
    using m y0 by (cases m rule: twelve) (simp_all add: getJulianDayNumber_def Let_def march_year_def march_month_def march_days_def
        month_start_def cdiv_nonneg add.commute [of 4799 y])
  moreover have "0 \<le> march_month m" "march_month m \<le> 11" using m by (simp_all add: march_month_def)
  moreover have "d - 1 < march_month_days (march_month m)"
    using m d by (cases m rule: twelve) (simp_all add: march_month_def march_month_days_def month_start_def month_days_def split: if_splits)
  moreover have "month_start (march_month m) + (d - 1) = 365 \<longrightarrow> leap_year (march_year y m + 1)"
    using m d leap by (cases m rule: twelve) (auto simp: march_month_def march_year_def month_start_def month_days_def add.commute split: if_splits)
  ultimately show "getJulianDayNumber y m d = march_days (march_year y m) + (month_start (march_month m) + (d - 1)) - 32044"
    "0 \<le> march_month m" "march_month m \<le> 11" "d - 1 < march_month_days (march_month m)"
    "month_start (march_month m) + (d - 1) = 365 \<longrightarrow> leap_year (march_year y m + 1)" by simp_all
qed

lemma getYearMonthDay_march:
  assumes "0 \<le> Y" "0 \<le> M" "M \<le> 11" "0 \<le> k" "k < march_month_days M" "month_start M + k = 365 \<longrightarrow> leap_year (Y + 1)"
  shows "getYearMonthDay (march_days Y + (month_start M + k) - 32044) =
    \<lparr>ymd_year = Y - 4800 + M div 10, ymd_month = M + 3 - 12 * (M div 10), ymd_day = k + 1\<rparr>"
proof -
  let ?C = "Y div 100" and ?D = "Y mod 100" and ?E = "month_start M + k"
  let ?a = "march_days Y + ?E"
  note mon = split_month [OF assms(2-5)]
  have e0: "0 \<le> ?E" using mon(3) assms(4) by simp
  have Y: "Y = 100 * ?C + ?D" "0 \<le> ?C" "0 \<le> ?D" "?D < 100" using assms(1) by simp_all
  note sp = split_days [OF Y e0 mon(2) assms(6)]
  have a0: "0 \<le> ?a"
  proof -
    have "march_days Y = 36524 * ?C + ?C div 4 + 365 * ?D + ?D div 4" using march_days_century [OF Y(3,4), of ?C] Y(1) by simp
    then show ?thesis using Y(2,3) e0 by simp
  qed
  have b: "cdiv (4 * ?a + 3) 146097 = ?C" using sp(1) a0 by (simp add: cdiv_nonneg)
  let ?c = "?a - (?C * 146097) div 4"
  have c: "cdiv (?C * 146097) 4 = (?C * 146097) div 4" using Y(2) by (simp add: cdiv_nonneg)
  have c0: "0 \<le> ?c" using sp(3) e0 Y(3) by (simp add: pos_imp_zdiv_nonneg_iff algebra_simps)
  have d: "cdiv (4 * ?c + 3) 1461 = ?D" using sp(2) c0 by (simp add: cdiv_nonneg)
  have e: "?c - cdiv (1461 * ?D) 4 = ?E" using sp(3) Y(3) by (simp add: cdiv_nonneg)
  have m: "cdiv (5 * ?E + 2) 153 = M" using mon(1) e0 by (simp add: cdiv_nonneg)
  have k: "?E - cdiv (153 * M + 2) 5 + 1 = k + 1" using assms(2) by (simp add: cdiv_nonneg month_start_def)
  have "?C * 100 + ?D = Y" using Y(1) by simp
  then show ?thesis
    unfolding getYearMonthDay_def Let_def diff_add_cancel b c d e m k using assms(2) by (simp add: cdiv_nonneg)
qed

lemma date_trip:
  assumes "valid_date y m d" "- 4800 < y"
  shows "getYearMonthDay (getJulianDayNumber y m d) = \<lparr>ymd_year = y, ymd_month = m, ymd_day = d\<rparr>"
proof -
  note j = getJulianDayNumber_march [OF assms]
  have m: "1 \<le> m" "m \<le> 12" and "0 \<le> d - 1" using assms(1) by (simp_all add: valid_date_def)
  then have g: "getYearMonthDay (getJulianDayNumber y m d) = \<lparr>ymd_year = march_year y m - 4800 + march_month m div 10,
      ymd_month = march_month m + 3 - 12 * (march_month m div 10), ymd_day = d\<rparr>"
    unfolding j(1) using getYearMonthDay_march [OF j(2-4) _ j(5,6)] by simp
  show ?thesis
    using m g by (cases m rule: twelve) (simp_all add: march_year_def march_month_def)
qed

text \<open>
  Dates survive the trip through the day number: for every date of the Gregorian calendar after the year
  4800 BC, \<open>getYearMonthDay\<close> returns the year, month and day \<open>getJulianDayNumber\<close> was given.
\<close>

theorem Date_roundtrip:
  assumes "valid_date y m d" "- 4800 < y"
  shows "Date_yearMonthDay (Date_new y m d) = \<lparr>ymd_year = y, ymd_month = m, ymd_day = d\<rparr>"
  using date_trip [OF assms] by (simp add: Date_yearMonthDay_def Date_new_def)

theorem Date_roundtrip_witness:
  "Date_yearMonthDay (Date_new 2000 2 29) = \<lparr>ymd_year = 2000, ymd_month = 2, ymd_day = 29\<rparr>"
  by (rule Date_roundtrip) (simp_all add: valid_date_def month_days_def leap_year_def)

lemma march_days_Suc: "0 \<le> Y \<Longrightarrow> march_days (Y + 1) = march_days Y + (if leap_year (Y + 1) then 366 else 365)"
proof -
  have step: "(Y + 1) div n = Y div n + (if (Y + 1) mod n = 0 then 1 else 0)" if "1 < n" for n :: int
  proof (cases "(Y + 1) mod n = 0")
    case True
    then obtain q where "Y + 1 = n * q" by (auto simp: mod_eq_0_iff_dvd dvd_def)
    then have "Y = n * (q - 1) + (n - 1)" by (simp add: algebra_simps)
    then have "Y div n = q - 1" using that by (intro int_div_pos_eq [where r = "n - 1"]) simp_all
    then show ?thesis using True \<open>Y + 1 = n * q\<close> that by simp
  next
    case False
    have "Y + 1 = n * (Y div n) + (Y mod n + 1)" by simp
    moreover have "Y mod n + 1 \<noteq> n"
    proof
      assume "Y mod n + 1 = n"
      then have "(Y + 1) mod n = 0" by (metis mod_add_left_eq mod_self)
      then show False using False by simp
    qed
    moreover have "0 \<le> Y mod n" "Y mod n < n" using that by simp_all
    ultimately have "(Y + 1) div n = Y div n" by (intro int_div_pos_eq [where r = "Y mod n + 1"]) simp_all
    then show ?thesis using False by simp
  qed
  have div: "(Y + 1) mod 400 = 0 \<Longrightarrow> (Y + 1) mod 100 = 0" "(Y + 1) mod 100 = 0 \<Longrightarrow> (Y + 1) mod 4 = 0"
    using mod_mod_cancel [of 100 400 "Y + 1"] mod_mod_cancel [of 4 100 "Y + 1"] by simp_all
  have s: "(Y + 1) div 4 = Y div 4 + (if (Y + 1) mod 4 = 0 then 1 else 0)"
    "(Y + 1) div 100 = Y div 100 + (if (Y + 1) mod 100 = 0 then 1 else 0)"
    "(Y + 1) div 400 = Y div 400 + (if (Y + 1) mod 400 = 0 then 1 else 0)" by (rule step, simp)+
  show ?thesis
    unfolding march_days_def s leap_year_def using div
    by (cases "(Y + 1) mod 400 = 0"; cases "(Y + 1) mod 100 = 0"; cases "(Y + 1) mod 4 = 0") simp_all
qed

lemma next_day_number:
  assumes v: "valid_date y m d" "- 4800 < y" and n: "next_day (y, m, d) = (y', m', d')"
  shows "valid_date y' m' d'" "y \<le> y'" "getJulianDayNumber y' m' d' = getJulianDayNumber y m d + 1"
proof -
  have m: "1 \<le> m" "m \<le> 12" and d: "1 \<le> d" "d \<le> month_days y m" using v(1) by (simp_all add: valid_date_def)
  have l: "28 \<le> month_days a b" for a b by (simp add: month_days_def)
  show v': "valid_date y' m' d'" and y: "y \<le> y'"
    using n m d l [of y "m + 1"] l [of "y + 1" 1] by (auto simp: next_day_def valid_date_def split: if_splits)
  have y0: "- 4800 < y'" using y v(2) by simp
  note j = getJulianDayNumber_march [OF v] and j' = getJulianDayNumber_march [OF v' y0]
  show "getJulianDayNumber y' m' d' = getJulianDayNumber y m d + 1"
  proof (cases "d < month_days y m")
    case True
    then show ?thesis using n j(1) j'(1) by (simp add: next_day_def)
  next
    case False
    then have final: "d = month_days y m" using d by simp
    have leap: "leap_year (y + 4800) = leap_year y"
      using mod_mult_self1 [of y 1200 4] mod_mult_self1 [of y 48 100] mod_mult_self1 [of y 12 400] by (simp add: leap_year_def)
    have feb: "march_days (y + 4800) = march_days (y + 4799) + (if leap_year y then 366 else 365)"
      using march_days_Suc [of "y + 4799"] v(2) leap by (simp add: add.assoc)
    show ?thesis unfolding j(1) j'(1)
      using m n False final feb by (cases m rule: twelve)
        (auto simp: next_day_def march_year_def march_month_def month_start_def month_days_def add.commute [of 4800 y])
  qed
qed

lemma days_after_number:
  assumes "valid_date y0 m0 d0" "- 4800 < y0"
  shows "\<exists>y m d. (next_day ^^ n) (y0, m0, d0) = (y, m, d) \<and> valid_date y m d \<and> y0 \<le> y \<and>
    getJulianDayNumber y m d = getJulianDayNumber y0 m0 d0 + int n"
proof (induction n)
  case 0
  show ?case using assms by simp
next
  case (Suc n)
  then obtain y m d where i: "(next_day ^^ n) (y0, m0, d0) = (y, m, d)" "valid_date y m d" "y0 \<le> y"
      "getJulianDayNumber y m d = getJulianDayNumber y0 m0 d0 + int n" by blast
  obtain y' m' d' where n: "next_day (y, m, d) = (y', m', d')" by (cases "next_day (y, m, d)")
  have "- 4800 < y" using i(3) assms(2) by simp
  note s = next_day_number [OF i(2) this n]
  have "(next_day ^^ Suc n) (y0, m0, d0) = (y', m', d')" using i(1) n by simp
  then show ?case using s i(3,4) by (intro exI [of _ y'] exI [of _ m'] exI [of _ d']) simp
qed

text \<open>Every day number from January of the year 4800 BC on is the number of a date.\<close>

lemma day_number_date:
  assumes "- 31738 \<le> j"
  obtains y m d where "valid_date y m d" "- 4800 < y" "getJulianDayNumber y m d = j"
    "getYearMonthDay j = \<lparr>ymd_year = y, ymd_month = m, ymd_day = d\<rparr>"
proof -
  have "valid_date (- 4799) 1 1" by (simp add: valid_date_def month_days_def)
  moreover have "getJulianDayNumber (- 4799) 1 1 = - 31738" by code_simp
  ultimately obtain y m d where d: "valid_date y m d" "- 4799 \<le> y" "getJulianDayNumber y m d = - 31738 + int (nat (j + 31738))"
    using days_after_number [of "- 4799" 1 1 "nat (j + 31738)"] by auto
  then have "getJulianDayNumber y m d = j" "- 4800 < y" using assms by simp_all
  then show thesis using that [OF d(1)] date_trip [OF d(1)] by simp
qed

definition nth_day :: "nat \<Rightarrow> int \<times> int \<times> int" where
  "nth_day n = (next_day ^^ n) (1970, 1, 1)"

lemma nth_day_number:
  "\<exists>y m d. nth_day n = (y, m, d) \<and> valid_date y m d \<and> 1970 \<le> y \<and> getJulianDayNumber y m d = 2440588 + int n"
proof -
  have "valid_date 1970 1 1" by (simp add: valid_date_def month_days_def)
  moreover have "getJulianDayNumber 1970 1 1 = 2440588" by code_simp
  ultimately show ?thesis using days_after_number [of 1970 1 1 n] unfolding nth_day_def by auto
qed


end
