(* ===== verification/Endian.thy ===== *)
theory Endian
  imports Prelude
begin

text \<open>
  Byte order (\<open>ideal/net/Endian.h\<close>). The host is little endian: the object representation of
  an \<open>n\<close>-byte integer is \<open>le_bytes n\<close>, least significant byte first, and reading an object back
  is \<open>le_value\<close>. \<open>htobe16/32/64\<close> and \<open>be16/32/64toh\<close> of \<open><endian.h>\<close> then reverse the bytes
  (\<open>byte_swap\<close>). Bytes are values of \<open>char\<close>, the element type of the network buffer.
\<close>

primrec le_bytes :: "nat \<Rightarrow> nat \<Rightarrow> char list" where
  "le_bytes 0 x = []"
| "le_bytes (Suc n) x = char_of x # le_bytes n (x div 256)"

primrec le_value :: "char list \<Rightarrow> nat" where
  "le_value [] = 0"
| "le_value (c # cs) = of_char c + 256 * le_value cs"

definition byte_swap :: "nat \<Rightarrow> nat \<Rightarrow> nat" where
  "byte_swap n x = le_value (rev (le_bytes n x))"

definition hostToNetwork64 :: "64 word \<Rightarrow> 64 word" where
  "hostToNetwork64 host64 = of_nat (byte_swap 8 (unat host64))"

definition hostToNetwork32 :: "32 word \<Rightarrow> 32 word" where
  "hostToNetwork32 host32 = of_nat (byte_swap 4 (unat host32))"

definition hostToNetwork16 :: "16 word \<Rightarrow> 16 word" where
  "hostToNetwork16 host16 = of_nat (byte_swap 2 (unat host16))"

definition networkToHost64 :: "64 word \<Rightarrow> 64 word" where
  "networkToHost64 net64 = of_nat (byte_swap 8 (unat net64))"

definition networkToHost32 :: "32 word \<Rightarrow> 32 word" where
  "networkToHost32 net32 = of_nat (byte_swap 4 (unat net32))"

definition networkToHost16 :: "16 word \<Rightarrow> 16 word" where
  "networkToHost16 net16 = of_nat (byte_swap 2 (unat net16))"

section \<open>Object representations\<close>

lemma length_le_bytes [simp]: "length (le_bytes n x) = n"
  by (induction n arbitrary: x) auto

lemma of_char_less [simp]: "of_char c < (256 :: nat)"
proof -
  have "of_char c mod (256 :: nat) = of_char c" by simp
  then show ?thesis by (metis mod_less_divisor zero_less_numeral)
qed

lemma le_value_bound: "le_value cs < 256 ^ length cs"
proof (induction cs)
  case Nil
  then show ?case by simp
next
  case (Cons c cs)
  have "of_char c + 256 * le_value cs < 256 + 256 * le_value cs" by simp
  also have "\<dots> = 256 * Suc (le_value cs)" by simp
  also have "\<dots> \<le> 256 * 256 ^ length cs" using Cons by (intro mult_le_mono2) simp
  finally show ?case by simp
qed

lemma le_value_le_bytes: "le_value (le_bytes n x) = x mod 256 ^ n"
proof (induction n arbitrary: x)
  case 0
  then show ?case by simp
next
  case (Suc n)
  then show ?case by (simp add: mod_mult2_eq add.commute)
qed

lemma le_bytes_le_value [simp]: "le_bytes (length cs) (le_value cs) = cs"
proof (induction cs)
  case Nil
  then show ?case by simp
next
  case (Cons c cs)
  have "(of_char c + 256 * le_value cs) div 256 = le_value cs" by simp
  moreover have "char_of (of_char c + 256 * le_value cs :: nat) = c"
    by (subst char_of_mod_256 [symmetric]) simp
  ultimately show ?case using Cons by simp
qed

lemma le_value_append: "le_value (cs @ ds) = le_value cs + 256 ^ length cs * le_value ds"
  by (induction cs) (auto simp: algebra_simps)

lemma le_bytes_mod: "n \<le> k \<Longrightarrow> le_bytes n (x mod 256 ^ k) = le_bytes n x"
proof (induction n arbitrary: x k)
  case 0
  then show ?case by simp
next
  case (Suc n)
  then obtain m where m: "k = Suc m" "n \<le> m" by (cases k) auto
  have "x mod 256 ^ k mod 256 = x mod 256"
    using m by (simp add: mod_mod_cancel)
  then have "char_of (x mod 256 ^ k) = (char_of x :: char)"
    by (metis char_of_mod_256)
  moreover have "x mod 256 ^ k div 256 = x div 256 mod 256 ^ m"
    using m by (simp add: mod_mult2_eq)
  ultimately show ?case using Suc.IH [OF m(2), of "x div 256"] by simp
qed

lemma le_bytes_0: "le_bytes n 0 = replicate n (CHR 0x00)"
proof (induction n)
  case 0
  then show ?case by simp
next
  case (Suc n)
  have "char_of (0 :: nat) = CHR 0x00" by (simp add: char_of_def)
  with Suc show ?case by simp
qed

text \<open>Widening an unsigned integer adds zero bytes at the high end.\<close>

lemma le_bytes_zero_extend:
  "x < 256 ^ n \<Longrightarrow> le_bytes (n + k) x = le_bytes n x @ replicate k (CHR 0x00)"
proof (induction n arbitrary: x)
  case 0
  then show ?case by (simp add: le_bytes_0)
next
  case (Suc n)
  then have "x div 256 < 256 ^ n" by (simp add: less_mult_imp_div_less mult.commute)
  with Suc.IH show ?case by simp
qed

section \<open>Byte swapping\<close>

lemma byte_swap_bound: "byte_swap n x < 256 ^ n"
  using le_value_bound [of "rev (le_bytes n x)"] by (simp add: byte_swap_def)

lemma le_bytes_byte_swap: "le_bytes n (byte_swap n x) = rev (le_bytes n x)"
  using le_bytes_le_value [of "rev (le_bytes n x)"] by (simp add: byte_swap_def)

lemma byte_swap_byte_swap: "byte_swap n (byte_swap n x) = x mod 256 ^ n"
proof -
  have "byte_swap n (byte_swap n x) = le_value (rev (le_bytes n (byte_swap n x)))"
    by (rule byte_swap_def)
  also have "\<dots> = le_value (le_bytes n x)" by (simp add: le_bytes_byte_swap)
  finally show ?thesis by (simp add: le_value_le_bytes)
qed

lemma unat_hostToNetwork16: "unat (hostToNetwork16 x) = byte_swap 2 (unat x)"
  using byte_swap_bound [of 2 "unat x"]
  by (simp add: hostToNetwork16_def unat_of_nat)

lemma unat_hostToNetwork32: "unat (hostToNetwork32 x) = byte_swap 4 (unat x)"
  using byte_swap_bound [of 4 "unat x"]
  by (simp add: hostToNetwork32_def unat_of_nat)

lemma unat_hostToNetwork64: "unat (hostToNetwork64 x) = byte_swap 8 (unat x)"
  using byte_swap_bound [of 8 "unat x"]
  by (simp add: hostToNetwork64_def unat_of_nat)

lemmas unat_hostToNetwork =
  unat_hostToNetwork16 unat_hostToNetwork32 unat_hostToNetwork64

text \<open>The object representation of a converted integer is the big-endian byte sequence.\<close>

lemma le_bytes_hostToNetwork16: "le_bytes 2 (unat (hostToNetwork16 x)) = rev (le_bytes 2 (unat x))"
  by (simp add: unat_hostToNetwork le_bytes_byte_swap)

lemma le_bytes_hostToNetwork32: "le_bytes 4 (unat (hostToNetwork32 x)) = rev (le_bytes 4 (unat x))"
  by (simp add: unat_hostToNetwork le_bytes_byte_swap)

lemma le_bytes_hostToNetwork64: "le_bytes 8 (unat (hostToNetwork64 x)) = rev (le_bytes 8 (unat x))"
  by (simp add: unat_hostToNetwork le_bytes_byte_swap)

lemmas le_bytes_hostToNetwork =
  le_bytes_hostToNetwork16 le_bytes_hostToNetwork32 le_bytes_hostToNetwork64

lemma networkToHost16_hostToNetwork16 [simp]: "networkToHost16 (hostToNetwork16 x) = x"
  using unsigned_less [of x, where ?'a = nat]
  by (simp add: networkToHost16_def unat_hostToNetwork byte_swap_byte_swap)

lemma networkToHost32_hostToNetwork32 [simp]: "networkToHost32 (hostToNetwork32 x) = x"
  using unsigned_less [of x, where ?'a = nat]
  by (simp add: networkToHost32_def unat_hostToNetwork byte_swap_byte_swap)

lemma networkToHost64_hostToNetwork64 [simp]: "networkToHost64 (hostToNetwork64 x) = x"
  using unsigned_less [of x, where ?'a = nat]
  by (simp add: networkToHost64_def unat_hostToNetwork byte_swap_byte_swap)

end
