(* ===== verification/Base_TimeZone.thy ===== *)
theory Base_TimeZone
  imports Base_Date Endian
begin

text \<open>
  Time zones: \<open>TimeZone.h\<close> and \<open>TimeZone.cc\<close> of \<open>ideal/base\<close>, and the formatted printing of \<open>Timestamp.cc\<close>.

  A file is its content, or \<open>None\<close> when it cannot be opened. Reading is a function from a state (the
  rest of the file, the zone data filled so far) to a state; its value is \<open>None\<close> when a
  \<open>std::logic_error\<close> was thrown, which \<open>readTimeZoneFile\<close> catches. \<open>std::lower_bound\<close> is the binary search
  of the library. \<open>gmtime_r\<close> and \<open>timegm\<close> of the C library are parameters.
\<close>

section \<open>Data\<close>

definition kSecondsPerDay :: int where
  "kSecondsPerDay = 24 * 60 * 60"

record Transition =
  tr_gmttime :: int
  tr_localtime :: int
  tr_localtimeIdx :: nat

record Localtime =
  lt_gmtOffset :: int
  lt_isDst :: bool
  lt_arrbIdx :: nat

record zone_data =
  zd_transitions :: "Transition list"
  zd_localtimes :: "Localtime list"
  zd_abbreviation :: string

record tm =
  tm_sec :: int
  tm_min :: int
  tm_hour :: int
  tm_mday :: int
  tm_mon :: int
  tm_year :: int
  tm_wday :: int
  tm_yday :: int
  tm_isdst :: bool
  tm_gmtoff :: int
  tm_zone :: string

text \<open>The comparison object: by UTC or by local time.\<close>

definition Comp_key :: "bool \<Rightarrow> Transition \<Rightarrow> int" where
  "Comp_key compareGmt t = (if compareGmt then tr_gmttime t else tr_localtime t)"

definition Comp_less :: "bool \<Rightarrow> Transition \<Rightarrow> Transition \<Rightarrow> bool" where
  "Comp_less compareGmt lhs rhs \<longleftrightarrow> Comp_key compareGmt lhs < Comp_key compareGmt rhs"

definition Comp_equal :: "bool \<Rightarrow> Transition \<Rightarrow> Transition \<Rightarrow> bool" where
  "Comp_equal compareGmt lhs rhs \<longleftrightarrow> Comp_key compareGmt lhs = Comp_key compareGmt rhs"

section \<open>Reading a zone file\<close>

record zone_reader =
  zr_rest :: "char list"
  zr_data :: zone_data

type_synonym 'a reading = "zone_reader \<Rightarrow> ('a option \<times> zone_reader) result"

definition then_read :: "'a reading \<Rightarrow> ('a \<Rightarrow> 'b reading) \<Rightarrow> 'b reading" where
  "then_read m f s = bindR (m s) (\<lambda>(x, s). case x of None \<Rightarrow> Inr (None, s) | Some x \<Rightarrow> f x s)"

definition done_read :: "'a \<Rightarrow> 'a reading" where
  "done_read x s = Inr (Some x, s)"

definition throw_read :: "'a reading" where
  "throw_read s = Inr (None, s)"

fun repeat_read :: "nat \<Rightarrow> 'a reading \<Rightarrow> 'a list reading" where
  "repeat_read 0 m = done_read []"
| "repeat_read (Suc n) m = then_read m (\<lambda>x. then_read (repeat_read n m) (\<lambda>xs. done_read (x # xs)))"

text \<open>\<open>fread\<close> of \<open>n\<close> bytes; too short a file is an exception. A negative size of the array has no meaning.\<close>

definition File_readBytes :: "int \<Rightarrow> string reading" where
  "File_readBytes n s =
     (if n < 0 then Inl OutOfRange
      else if length (zr_rest s) < nat n then Inr (None, s\<lparr>zr_rest := []\<rparr>)
      else Inr (Some (take (nat n) (zr_rest s)), s\<lparr>zr_rest := drop (nat n) (zr_rest s)\<rparr>))"

definition File_readInt32 :: "int reading" where
  "File_readInt32 = then_read (File_readBytes 4) (\<lambda>cs. done_read (sint (of_nat (le_value (rev cs)) :: 32 word)))"

definition File_readUint8 :: "nat reading" where
  "File_readUint8 = then_read (File_readBytes 1) (\<lambda>cs. done_read (le_value cs))"

definition read_localtime :: "unit reading" where
  "read_localtime =
     then_read File_readInt32 (\<lambda>gmtoff.
     then_read File_readUint8 (\<lambda>isdst.
     then_read File_readUint8 (\<lambda>abbrind s.
     done_read () (s\<lparr>zr_data := (zr_data s)\<lparr>zd_localtimes := zd_localtimes (zr_data s) @
       [\<lparr>lt_gmtOffset = gmtoff, lt_isDst = (isdst \<noteq> 0), lt_arrbIdx = abbrind\<rparr>]\<rparr>\<rparr>))))"

definition add_transition :: "int \<times> nat \<Rightarrow> zone_reader \<Rightarrow> zone_reader result" where
  "add_transition ti s =
     (let (t, localIdx) = ti; d = zr_data s in
      if localIdx < length (zd_localtimes d)
      then Inr (s\<lparr>zr_data := d\<lparr>zd_transitions := zd_transitions d @
             [\<lparr>tr_gmttime = t, tr_localtime = t + lt_gmtOffset (zd_localtimes d ! localIdx), tr_localtimeIdx = localIdx\<rparr>]\<rparr>\<rparr>)
      else Inl OutOfRange)"

text \<open>The body of the \<open>try\<close>. \<open>reserve\<close> of a negative count throws \<open>std::length_error\<close>, a \<open>logic_error\<close>.\<close>

definition read_zone :: "unit reading" where
  "read_zone =
     then_read (File_readBytes 4) (\<lambda>header.
     if header \<noteq> ''TZif'' then throw_read
     else
       then_read (File_readBytes 1) (\<lambda>version.
       then_read (File_readBytes 15) (\<lambda>_.
       then_read File_readInt32 (\<lambda>isgmtcnt.
       then_read File_readInt32 (\<lambda>isstdcnt.
       then_read File_readInt32 (\<lambda>leapcnt.
       then_read File_readInt32 (\<lambda>timecnt.
       then_read File_readInt32 (\<lambda>typecnt.
       then_read File_readInt32 (\<lambda>charcnt.
       if timecnt < 0 then throw_read
       else
         then_read (repeat_read (nat timecnt) File_readInt32) (\<lambda>trans.
         then_read (repeat_read (nat timecnt) File_readUint8) (\<lambda>localtimes.
         then_read (repeat_read (nat typecnt) read_localtime) (\<lambda>_ s.
         bindR (foldR add_transition (zip trans localtimes) s)
           (then_read (File_readBytes charcnt) (\<lambda>abbr s.
            done_read () (s\<lparr>zr_data := (zr_data s)\<lparr>zd_abbreviation := abbr\<rparr>\<rparr>)))))))))))))))"

definition readTimeZoneFile :: "char list option \<Rightarrow> zone_data \<Rightarrow> (bool \<times> zone_data) result" where
  "readTimeZoneFile zonefile data =
     (case zonefile of
        None \<Rightarrow> Inr (True, data)
      | Some contents \<Rightarrow>
          bindR (read_zone \<lparr>zr_rest = contents, zr_data = data\<rparr>) (\<lambda>(_, s). Inr (True, zr_data s)))"

section \<open>Finding the local time\<close>

text \<open>The binary search of \<open>std::lower_bound\<close>: \<open>below x\<close> is the comparison of an element with the value.\<close>

function lower_bound_loop :: "('a \<Rightarrow> bool) \<Rightarrow> 'a list \<Rightarrow> nat \<Rightarrow> nat \<Rightarrow> nat" where
  "lower_bound_loop below xs first len =
     (if len = 0 then first
      else
        (let half = len div 2; middle = first + half
         in if below (xs ! middle) then lower_bound_loop below xs (middle + 1) (len - half - 1)
            else lower_bound_loop below xs first half))"
  by pat_completeness auto
termination lower_bound_loop
  by (relation "measure (\<lambda>(_, _, _, len). len)") auto

declare lower_bound_loop.simps [simp del]

definition lower_bound :: "('a \<Rightarrow> bool) \<Rightarrow> 'a list \<Rightarrow> nat" where
  "lower_bound below xs = lower_bound_loop below xs 0 (length xs)"

definition vec_at :: "'a list \<Rightarrow> nat \<Rightarrow> 'a result" where
  "vec_at xs i = (if i < length xs then Inr (xs ! i) else Inl OutOfRange)"

definition findLocaltime :: "zone_data \<Rightarrow> Transition \<Rightarrow> bool \<Rightarrow> Localtime result" where
  "findLocaltime data entry gmt =
     (let ts = zd_transitions data in
      if ts = [] \<or> Comp_less gmt entry (hd ts) then vec_at (zd_localtimes data) 0
      else
        (let iter = lower_bound (\<lambda>t. Comp_less gmt t entry) ts
         in if iter \<noteq> length ts
            then if \<not> Comp_equal gmt entry (ts ! iter)
                 then bindR (assertR (iter \<noteq> 0)) (\<lambda>_. vec_at (zd_localtimes data) (tr_localtimeIdx (ts ! (iter - 1))))
                 else vec_at (zd_localtimes data) (tr_localtimeIdx (ts ! iter))
            else vec_at (zd_localtimes data) (tr_localtimeIdx (last ts))))"

section \<open>TimeZone\<close>

type_synonym TimeZone = "zone_data option"

definition empty_zone :: zone_data where
  "empty_zone = \<lparr>zd_transitions = [], zd_localtimes = [], zd_abbreviation = ''''\<rparr>"

definition TimeZone_new_file :: "char list option \<Rightarrow> TimeZone result" where
  "TimeZone_new_file zonefile =
     bindR (readTimeZoneFile zonefile empty_zone) (\<lambda>(ok, data). Inr (if \<not> ok then None else Some data))"

definition TimeZone_new_offset :: "int \<Rightarrow> string \<Rightarrow> TimeZone" where
  "TimeZone_new_offset eastOfUtc name =
     Some (empty_zone\<lparr>zd_localtimes := [\<lparr>lt_gmtOffset = eastOfUtc, lt_isDst = False, lt_arrbIdx = 0\<rparr>], zd_abbreviation := name\<rparr>)"

definition TimeZone_valid :: "TimeZone \<Rightarrow> bool" where
  "TimeZone_valid tz \<longleftrightarrow> tz \<noteq> None"

definition the_data :: "TimeZone \<Rightarrow> zone_data result" where
  "the_data tz = (case tz of None \<Rightarrow> Inl AssertionFailed | Some data \<Rightarrow> Inr data)"

text \<open>\<open>&data.abbreviation[idx]\<close> is a C string; the index may be the length, not more.\<close>

definition zone_name :: "zone_data \<Rightarrow> nat \<Rightarrow> string result" where
  "zone_name data idx =
     (if idx \<le> length (zd_abbreviation data)
      then Inr (takeWhile (\<lambda>c. c \<noteq> CHR 0x00) (drop idx (zd_abbreviation data))) else Inl OutOfRange)"

definition TimeZone_toLocalTime :: "(int \<Rightarrow> tm) \<Rightarrow> TimeZone \<Rightarrow> int \<Rightarrow> tm result" where
  "TimeZone_toLocalTime gmtime_r tz seconds =
     bindR (the_data tz) (\<lambda>data.
     bindR (findLocaltime data \<lparr>tr_gmttime = seconds, tr_localtime = 0, tr_localtimeIdx = 0\<rparr> True) (\<lambda>local.
     bindR (zone_name data (lt_arrbIdx local)) (\<lambda>zone.
     Inr ((gmtime_r (seconds + lt_gmtOffset local))\<lparr>tm_isdst := lt_isDst local, tm_gmtoff := lt_gmtOffset local,
            tm_zone := zone\<rparr>))))"

definition TimeZone_fromLocalTime :: "(int \<Rightarrow> tm) \<Rightarrow> (tm \<Rightarrow> int) \<Rightarrow> TimeZone \<Rightarrow> tm \<Rightarrow> int result" where
  "TimeZone_fromLocalTime gmtime_r timegm tz localtm =
     bindR (the_data tz) (\<lambda>data.
     (let seconds = timegm localtm in
      bindR (findLocaltime data \<lparr>tr_gmttime = 0, tr_localtime = seconds, tr_localtimeIdx = 0\<rparr> False) (\<lambda>local.
      bindR (if tm_isdst localtm
             then bindR (TimeZone_toLocalTime gmtime_r tz (seconds - lt_gmtOffset local)) (\<lambda>trytm.
                  Inr (if \<not> tm_isdst trytm \<and> tm_hour trytm = tm_hour localtm \<and> tm_min trytm = tm_min localtm
                       then seconds - 3600 else seconds))
             else Inr seconds) (\<lambda>seconds.
      Inr (seconds - lt_gmtOffset local)))))"

text \<open>\<open>static_cast<int>\<close> is \<open>to_int32\<close>.\<close>

definition fillHMS :: "int \<Rightarrow> tm \<Rightarrow> tm" where
  "fillHMS seconds utc =
     (let minutes = seconds div 60
      in utc\<lparr>tm_sec := seconds mod 60, tm_min := minutes mod 60, tm_hour := minutes div 60\<rparr>)"

definition zero_tm :: tm where
  "zero_tm = \<lparr>tm_sec = 0, tm_min = 0, tm_hour = 0, tm_mday = 0, tm_mon = 0, tm_year = 0, tm_wday = 0, tm_yday = 0,
     tm_isdst = False, tm_gmtoff = 0, tm_zone = ''''\<rparr>"

definition TimeZone_toUtcTime :: "int \<Rightarrow> bool \<Rightarrow> tm" where
  "TimeZone_toUtcTime secondsSinceEpoch yday =
     (let utc = zero_tm\<lparr>tm_zone := ''GMT''\<rparr>;
          seconds = to_int32 (cmod secondsSinceEpoch kSecondsPerDay);
          days = to_int32 (cdiv secondsSinceEpoch kSecondsPerDay);
          (seconds, days) = (if seconds < 0 then (seconds + kSecondsPerDay, days - 1) else (seconds, days));
          utc = fillHMS seconds utc;
          date = days + kJulianDayOf1970_01_01;
          ymd = Date_yearMonthDay date;
          utc = utc\<lparr>tm_year := ymd_year ymd - 1900, tm_mon := ymd_month ymd - 1, tm_mday := ymd_day ymd,
                    tm_wday := Date_weekDay date\<rparr>
      in if yday then utc\<lparr>tm_yday := date - Date_new (ymd_year ymd) 1 1\<rparr> else utc)"

definition TimeZone_fromUtcTime :: "int \<Rightarrow> int \<Rightarrow> int \<Rightarrow> int \<Rightarrow> int \<Rightarrow> int \<Rightarrow> int" where
  "TimeZone_fromUtcTime year month day hour minute second =
     (let date = Date_new year month day;
          secondsInDay = hour * 3600 + minute * 60 + second;
          days = date - kJulianDayOf1970_01_01
      in days * kSecondsPerDay + secondsInDay)"

definition TimeZone_fromUtcTime_tm :: "tm \<Rightarrow> int" where
  "TimeZone_fromUtcTime_tm utc =
     TimeZone_fromUtcTime (tm_year utc + 1900) (tm_mon utc + 1) (tm_mday utc) (tm_hour utc) (tm_min utc) (tm_sec utc)"

text \<open>\<open>Timestamp::toFormattedString\<close>.\<close>

definition Timestamp_toFormattedString :: "(int \<Rightarrow> tm) \<Rightarrow> bool \<Rightarrow> Timestamp \<Rightarrow> string" where
  "Timestamp_toFormattedString gmtime_r showMicroseconds t =
     (let microseconds = t + 8 * 60 * 60 * 1000;
          tm_time = gmtime_r (cdiv microseconds kMicrosecondsPerSecond);
          date = pad_blank 4 (tm_year tm_time + 1900) @ pad_zero 2 (tm_mon tm_time + 1) @ pad_zero 2 (tm_mday tm_time) @ '' '' @
            pad_zero 2 (tm_hour tm_time) @ '':'' @ pad_zero 2 (tm_min tm_time) @ '':'' @ pad_zero 2 (tm_sec tm_time)
      in if showMicroseconds
         then snprintf 63 (date @ ''.'' @ pad_zero 6 (cmod t kMicrosecondsPerSecond))
         else snprintf 63 date)"

section \<open>The search finds the transition in force\<close>

lemma lower_bound_loop_spec:
  assumes mono: "\<And>i j. i \<le> j \<Longrightarrow> j < length xs \<Longrightarrow> below (xs ! j) \<Longrightarrow> below (xs ! i)"
  shows "first + len \<le> length xs \<Longrightarrow> (\<And>k. k < first \<Longrightarrow> below (xs ! k)) \<Longrightarrow>
    (\<And>k. first + len \<le> k \<Longrightarrow> k < length xs \<Longrightarrow> \<not> below (xs ! k)) \<Longrightarrow>
    lower_bound_loop below xs first len \<le> length xs \<and>
    (\<forall>k < lower_bound_loop below xs first len. below (xs ! k)) \<and>
    (\<forall>k. lower_bound_loop below xs first len \<le> k \<longrightarrow> k < length xs \<longrightarrow> \<not> below (xs ! k))"
proof (induction len arbitrary: first rule: less_induct)
  case (less len)
  let ?half = "len div 2"
  let ?middle = "first + ?half"
  show ?case
  proof (cases "len = 0")
    case True
    then show ?thesis using less.prems by (simp add: lower_bound_loop.simps)
  next
    case False
    then have mid: "?middle < length xs" "?half < len" "len - ?half - 1 < len" using less.prems(1) by auto
    show ?thesis
    proof (cases "below (xs ! ?middle)")
      case True
      have run: "lower_bound_loop below xs first len = lower_bound_loop below xs (?middle + 1) (len - ?half - 1)"
        using False True by (subst lower_bound_loop.simps) (simp add: Let_def)
      have lo: "below (xs ! k)" if "k < ?middle + 1" for k using mono [of k ?middle] mid(1) True that by simp
      have hi: "\<not> below (xs ! k)" if "?middle + 1 + (len - ?half - 1) \<le> k" "k < length xs" for k
        using less.prems(3) [of k] that mid(2) by simp
      have "?middle + 1 + (len - ?half - 1) \<le> length xs" using less.prems(1) mid(2) by simp
      from less.IH [OF mid(3) this lo hi] show ?thesis unfolding run .
    next
      case below: False
      have run: "lower_bound_loop below xs first len = lower_bound_loop below xs first ?half"
        using False below by (subst lower_bound_loop.simps) (simp add: Let_def)
      have hi: "\<not> below (xs ! k)" if "?middle \<le> k" "k < length xs" for k using mono [OF that] below by blast
      have "?middle \<le> length xs" using mid(1) by simp
      from less.IH [OF mid(2) this less.prems(2) hi] show ?thesis unfolding run .
    qed
  qed
qed

lemma lower_bound_spec:
  assumes "\<forall>i j. i \<le> j \<longrightarrow> j < length xs \<longrightarrow> below (xs ! j) \<longrightarrow> below (xs ! i)"
  shows "lower_bound below xs \<le> length xs" "\<And>k. k < lower_bound below xs \<Longrightarrow> below (xs ! k)"
    "\<And>k. lower_bound below xs \<le> k \<Longrightarrow> k < length xs \<Longrightarrow> \<not> below (xs ! k)"
proof -
  have "lower_bound below xs \<le> length xs \<and> (\<forall>k < lower_bound below xs. below (xs ! k)) \<and>
    (\<forall>k. lower_bound below xs \<le> k \<longrightarrow> k < length xs \<longrightarrow> \<not> below (xs ! k))"
    unfolding lower_bound_def by (rule lower_bound_loop_spec) (use assms in \<open>auto\<close>)
  then show "lower_bound below xs \<le> length xs" "\<And>k. k < lower_bound below xs \<Longrightarrow> below (xs ! k)"
    "\<And>k. lower_bound below xs \<le> k \<Longrightarrow> k < length xs \<Longrightarrow> \<not> below (xs ! k)" by blast+
qed

text \<open>The transitions are in order and refer to local times of the zone.\<close>

definition zone_ok :: "bool \<Rightarrow> zone_data \<Rightarrow> bool" where
  "zone_ok gmt data \<longleftrightarrow> sorted_wrt (\<lambda>a b. Comp_key gmt a < Comp_key gmt b) (zd_transitions data) \<and>
     zd_localtimes data \<noteq> [] \<and> (\<forall>t\<in>set (zd_transitions data). tr_localtimeIdx t < length (zd_localtimes data))"

text \<open>Reference: the local time of the last transition that is not after the moment.\<close>

definition in_force :: "bool \<Rightarrow> zone_data \<Rightarrow> int \<Rightarrow> Localtime" where
  "in_force gmt data time =
     (let past = filter (\<lambda>t. Comp_key gmt t \<le> time) (zd_transitions data)
      in if past = [] then hd (zd_localtimes data) else zd_localtimes data ! tr_localtimeIdx (last past))"

lemma filter_prefix:
  assumes "n \<le> length xs" "\<And>k. k < n \<Longrightarrow> P (xs ! k)" "\<And>k. n \<le> k \<Longrightarrow> k < length xs \<Longrightarrow> \<not> P (xs ! k)"
  shows "filter P xs = take n xs"
proof -
  have "filter P (take n xs) = take n xs" using assms(1,2) by (intro filter_True) (auto simp: in_set_conv_nth)
  moreover have "filter P (drop n xs) = []" using assms(1,3) by (intro filter_False) (auto simp: in_set_conv_nth)
  ultimately show ?thesis by (metis append_Nil2 append_take_drop_id filter_append)
qed

lemma find_in_force:
  assumes ok: "zone_ok gmt data"
  shows "findLocaltime data entry gmt = Inr (in_force gmt data (Comp_key gmt entry))"
proof -
  let ?ts = "zd_transitions data" and ?e = "Comp_key gmt entry"
  let ?P = "\<lambda>t. Comp_key gmt t \<le> ?e"
  let ?i = "lower_bound (\<lambda>t. Comp_less gmt t entry) ?ts"
  have ord: "Comp_key gmt (?ts ! i) < Comp_key gmt (?ts ! j)" if "i < j" "j < length ?ts" for i j
    using ok sorted_wrt_nth_less [of "\<lambda>a b. Comp_key gmt a < Comp_key gmt b" ?ts i j] that by (simp add: zone_ok_def)
  have lts: "zd_localtimes data \<noteq> []" "vec_at (zd_localtimes data) 0 = Inr (hd (zd_localtimes data))"
    using ok by (auto simp: zone_ok_def vec_at_def hd_conv_nth)
  have at: "vec_at (zd_localtimes data) (tr_localtimeIdx t) = Inr (zd_localtimes data ! tr_localtimeIdx t)" if "t \<in> set ?ts" for t
    using ok that by (simp add: zone_ok_def vec_at_def)
  have mono: "Comp_less gmt (?ts ! i) entry" if "i \<le> j" "j < length ?ts" "Comp_less gmt (?ts ! j) entry" for i j
    using ord [of i j] that by (cases "i = j") (auto simp: Comp_less_def)
  then have "\<forall>i j. i \<le> j \<longrightarrow> j < length ?ts \<longrightarrow> Comp_less gmt (?ts ! j) entry \<longrightarrow> Comp_less gmt (?ts ! i) entry" by blast
  note lb = lower_bound_spec [of ?ts "\<lambda>t. Comp_less gmt t entry", OF this]
  show ?thesis
  proof (cases "?ts = [] \<or> Comp_less gmt entry (hd ?ts)")
    case True
    have "?e < Comp_key gmt t" if t: "t \<in> set ?ts" for t
    proof -
      obtain k where k: "k < length ?ts" "t = ?ts ! k" using t by (auto simp: in_set_conv_nth)
      then have "hd ?ts = ?ts ! 0" by (cases ?ts) simp_all
      with k show ?thesis using True ord [of 0 k] t by (cases "k = 0") (auto simp: Comp_less_def)
    qed
    then have "filter ?P ?ts = []" by (intro filter_False ballI) (simp add: not_le)
    then show ?thesis using True lts(2) by (simp add: findLocaltime_def in_force_def Let_def)
  next
    case False
    then have ne: "?ts \<noteq> []" and first: "Comp_key gmt (?ts ! 0) \<le> ?e" by (auto simp: Comp_less_def hd_conv_nth)
    have force: "in_force gmt data ?e = zd_localtimes data ! tr_localtimeIdx (?ts ! (n - 1))"
      if "0 < n" "n \<le> length ?ts" "\<And>k. k < n \<Longrightarrow> ?P (?ts ! k)" "\<And>k. n \<le> k \<Longrightarrow> k < length ?ts \<Longrightarrow> \<not> ?P (?ts ! k)" for n
    proof -
      have "filter ?P ?ts = take n ?ts" using filter_prefix [of n ?ts ?P] that by blast
      moreover have "take n ?ts \<noteq> []" "last (take n ?ts) = ?ts ! (n - 1)" using that(1,2) ne
        by (simp_all add: last_conv_nth)
      ultimately show ?thesis by (simp add: in_force_def)
    qed
    have below: "?P (?ts ! k)" if "k < ?i" for k using lb(2) [OF that] by (simp add: Comp_less_def)
    have above: "?e \<le> Comp_key gmt (?ts ! k)" if "?i \<le> k" "k < length ?ts" for k using lb(3) [OF that] by (simp add: Comp_less_def)
    show ?thesis
    proof (cases "?i = length ?ts")
      case True
      then have "in_force gmt data ?e = zd_localtimes data ! tr_localtimeIdx (last ?ts)"
        using force [of ?i] ne below by (simp add: last_conv_nth)
      then show ?thesis using False True at [of "last ?ts"] ne by (simp add: findLocaltime_def Let_def)
    next
      case inside: False
      then have i: "?i < length ?ts" using lb(1) by simp
      show ?thesis
      proof (cases "Comp_equal gmt entry (?ts ! ?i)")
        case True
        then have eq: "Comp_key gmt (?ts ! ?i) = ?e" by (simp add: Comp_equal_def)
        have "\<not> ?P (?ts ! k)" if "Suc ?i \<le> k" "k < length ?ts" for k using ord [of ?i k] that eq by simp
        moreover have "?P (?ts ! k)" if "k < Suc ?i" for k using that below eq by (cases "k = ?i") simp_all
        ultimately have "in_force gmt data ?e = zd_localtimes data ! tr_localtimeIdx (?ts ! ?i)"
          using force [of "Suc ?i"] i by simp
        then show ?thesis using False True inside at [of "?ts ! ?i"] i by (simp add: findLocaltime_def Let_def)
      next
        case ne_i: False
        have "\<not> ?P (?ts ! k)" if "?i \<le> k" "k < length ?ts" for k
          using above [OF that] ord [of ?i k] above [OF order_refl i] ne_i that by (cases "k = ?i") (auto simp: Comp_equal_def)
        moreover have i0: "0 < ?i"
        proof (rule ccontr)
          assume "\<not> 0 < ?i"
          then show False using first above [OF order_refl i] ne_i by (simp add: Comp_equal_def)
        qed
        ultimately have "in_force gmt data ?e = zd_localtimes data ! tr_localtimeIdx (?ts ! (?i - 1))"
          using force [of ?i] below i by simp
        then show ?thesis using False ne_i inside i0 at [of "?ts ! (?i - 1)"] i by (simp add: findLocaltime_def Let_def)
      qed
    qed
  qed
qed

text \<open>
  C24. The search for the local time in force, a binary search with a step back, is the obvious one: in a zone
  whose transitions are in order, it returns the local time of the last transition that is not after the
  moment, and the first local time of the zone before all transitions. So \<open>toLocalTime\<close> shifts the time by
  the offset in force.
\<close>

theorem TimeZone_toLocalTime_in_force:
  assumes "zone_ok True data" "lt_arrbIdx (in_force True data seconds) \<le> length (zd_abbreviation data)"
  shows "\<exists>zone. TimeZone_toLocalTime gmtime_r (Some data) seconds =
    Inr ((gmtime_r (seconds + lt_gmtOffset (in_force True data seconds)))\<lparr>tm_isdst := lt_isDst (in_force True data seconds),
      tm_gmtoff := lt_gmtOffset (in_force True data seconds), tm_zone := zone\<rparr>)"
  using find_in_force [OF assms(1)] assms(2)
  by (auto simp: TimeZone_toLocalTime_def the_data_def zone_name_def Comp_key_def)

definition demo_zone :: zone_data where
  "demo_zone = \<lparr>zd_transitions = [\<lparr>tr_gmttime = 0, tr_localtime = 3600, tr_localtimeIdx = 1\<rparr>,
       \<lparr>tr_gmttime = 100000, tr_localtime = 100000, tr_localtimeIdx = 0\<rparr>],
     zd_localtimes = [\<lparr>lt_gmtOffset = 0, lt_isDst = False, lt_arrbIdx = 0\<rparr>, \<lparr>lt_gmtOffset = 3600, lt_isDst = True, lt_arrbIdx = 0\<rparr>],
     zd_abbreviation = ''X''\<rparr>"

theorem TimeZone_toLocalTime_in_force_witness:
  "\<exists>zone. TimeZone_toLocalTime (\<lambda>s. TimeZone_toUtcTime s True) (Some demo_zone) 50000 =
    Inr ((TimeZone_toUtcTime (50000 + 3600) True)\<lparr>tm_isdst := True, tm_gmtoff := 3600, tm_zone := zone\<rparr>)"
proof -
  have "zone_ok True demo_zone" by (simp add: zone_ok_def demo_zone_def Comp_key_def)
  moreover have "in_force True demo_zone 50000 = \<lparr>lt_gmtOffset = 3600, lt_isDst = True, lt_arrbIdx = 0\<rparr>"
    by (simp add: in_force_def demo_zone_def Comp_key_def)
  ultimately show ?thesis
    using TimeZone_toLocalTime_in_force [of demo_zone 50000 "\<lambda>s. TimeZone_toUtcTime s True"] by simp
qed

text \<open>
  A zone file that cannot be read. When the file does not exist, or its content is too short or does not
  begin with \<open>TZif\<close>, the constructor still makes a valid zone; it has no local time, and converting any time
  with it reads the first element of an empty vector.
\<close>

theorem TimeZone_unreadable_file:
  assumes "case zonefile of None \<Rightarrow> True | Some contents \<Rightarrow> take 4 contents \<noteq> ''TZif''"
  shows "\<exists>tz. TimeZone_new_file zonefile = Inr tz \<and> TimeZone_valid tz \<and> TimeZone_toLocalTime gmtime_r tz seconds = Inl OutOfRange"
proof -
  have empty: "TimeZone_toLocalTime gmtime_r (Some empty_zone) seconds = Inl OutOfRange"
    by (simp add: TimeZone_toLocalTime_def the_data_def findLocaltime_def empty_zone_def vec_at_def)
  have "TimeZone_new_file zonefile = Inr (Some empty_zone)"
    using assms by (cases zonefile) (auto simp: TimeZone_new_file_def readTimeZoneFile_def read_zone_def then_read_def File_readBytes_def
        throw_read_def)
  then show ?thesis using empty by (simp add: TimeZone_valid_def)
qed

theorem TimeZone_unreadable_file_witness:
  "\<exists>tz. TimeZone_new_file (Some ''none'') = Inr tz \<and> TimeZone_valid tz \<and>
     TimeZone_toLocalTime (\<lambda>s. TimeZone_toUtcTime s True) tz 0 = Inl OutOfRange"
  by (rule TimeZone_unreadable_file) simp

section \<open>Coordinated universal time\<close>

definition tm_ok :: "tm \<Rightarrow> bool" where
  "tm_ok t \<longleftrightarrow> 0 \<le> tm_sec t \<and> tm_sec t < 60 \<and> 0 \<le> tm_min t \<and> tm_min t < 60 \<and> 0 \<le> tm_hour t \<and> tm_hour t < 24 \<and>
     valid_date (tm_year t + 1900) (tm_mon t + 1) (tm_mday t) \<and> 0 \<le> tm_wday t \<and> tm_wday t < 7"

text \<open>The seconds and the day, as floor and remainder.\<close>

lemma day_and_seconds:
  assumes "- 210866803200 \<le> t" "t < 10 ^ 13"
  shows "(let s = to_int32 (cmod t kSecondsPerDay); d = to_int32 (cdiv t kSecondsPerDay)
    in if s < 0 then (s + kSecondsPerDay, d - 1) else (s, d)) = (t mod 86400, t div 86400)"
proof (cases "0 \<le> t")
  case True
  then have "cmod t kSecondsPerDay = t mod 86400" "cdiv t kSecondsPerDay = t div 86400"
    by (simp_all add: kSecondsPerDay_def cmod_nonneg cdiv_nonneg)
  moreover have "0 \<le> t mod 86400" "t mod 86400 < 86400" by simp_all
  moreover have "0 \<le> t div 86400" "t div 86400 < 2 ^ 31" using True assms(2) by simp_all
  ultimately show ?thesis by (simp add: to_int32_small Let_def)
next
  case False
  let ?u = "- t"
  have c: "cmod t kSecondsPerDay = - (?u mod 86400)" "cdiv t kSecondsPerDay = - (?u div 86400)"
    using False by (simp_all add: kSecondsPerDay_def cmod_neg cdiv_neg)
  have b: "0 \<le> ?u mod 86400" "?u mod 86400 < 86400" "0 \<le> ?u div 86400" "?u div 86400 < 2 ^ 31" using False assms(1) by simp_all
  have k: "to_int32 (- (?u mod 86400)) = - (?u mod 86400)" "to_int32 (- (?u div 86400)) = - (?u div 86400)"
    using b by (intro to_int32_small; simp)+
  have u: "t = 86400 * (- (?u div 86400)) - ?u mod 86400" using mult_div_mod_eq [of 86400 ?u] by linarith
  show ?thesis
  proof (cases "?u mod 86400 = 0")
    case True
    then have "t = 86400 * (- (?u div 86400)) + 0" using u by simp
    then have "t div 86400 = - (?u div 86400)" "t mod 86400 = 0" by (metis add.right_neutral nonzero_mult_div_cancel_left zero_neq_numeral, metis add.right_neutral mod_mult_self1_is_0)
    then show ?thesis unfolding c k using True by simp
  next
    case rest: False
    then have "t = 86400 * (- (?u div 86400) - 1) + (86400 - ?u mod 86400)" using u by simp
    then have "t div 86400 = - (?u div 86400) - 1" "t mod 86400 = 86400 - ?u mod 86400"
      using b rest by (metis int_div_pos_eq diff_gt_0_iff_gt diff_less_eq less_add_same_cancel1 order_less_le zero_less_numeral,
          metis int_mod_pos_eq diff_gt_0_iff_gt diff_less_eq less_add_same_cancel1 order_less_le zero_less_numeral)
    moreover have "0 < ?u mod 86400" using b(1) rest by linarith
    ultimately show ?thesis unfolding c k by (simp add: kSecondsPerDay_def Let_def)
  qed
qed

text \<open>
  UTC conversion is a round trip: for every time from the day number 0 (in the year 4714 BC) to the year
  318000, before the epoch as well as after it, \<open>fromUtcTime\<close> of \<open>toUtcTime\<close> is the time again, and the
  fields are a time of day, a weekday and a date of the Gregorian calendar; with the day of the year asked
  for, it counts from the first of January.
\<close>

theorem TimeZone_utc_roundtrip:
  assumes "- 210866803200 \<le> t" "t < 10 ^ 13"
  shows "TimeZone_fromUtcTime_tm (TimeZone_toUtcTime t yday) = t \<and> tm_ok (TimeZone_toUtcTime t yday) \<and>
    (yday \<longrightarrow> Date_new (tm_year (TimeZone_toUtcTime t yday) + 1900) 1 1 + tm_yday (TimeZone_toUtcTime t yday) =
      kJulianDayOf1970_01_01 + t div 86400)"
proof -
  let ?s = "t mod 86400" and ?d = "t div 86400"
  have k: "kJulianDayOf1970_01_01 = 2440588" by code_simp
  have "- 210866803200 div 86400 \<le> ?d" using assms(1) by (rule zdiv_mono1) simp
  then have d0: "0 \<le> ?d + 2440588" by simp
  then have "- 31738 \<le> ?d + 2440588" by simp
  then obtain y m d where date: "valid_date y m d" "getJulianDayNumber y m d = ?d + 2440588"
      "getYearMonthDay (?d + 2440588) = \<lparr>ymd_year = y, ymd_month = m, ymd_day = d\<rparr>" by (rule day_number_date)
  let ?u = "(fillHMS ?s (zero_tm\<lparr>tm_zone := ''GMT''\<rparr>))\<lparr>tm_year := y - 1900, tm_mon := m - 1, tm_mday := d,
     tm_wday := Date_weekDay (?d + 2440588)\<rparr>"
  have utc: "TimeZone_toUtcTime t yday = (if yday then ?u\<lparr>tm_yday := ?d + 2440588 - Date_new y 1 1\<rparr> else ?u)"
    unfolding TimeZone_toUtcTime_def Let_def k day_and_seconds [OF assms, unfolded Let_def] prod.case Date_yearMonthDay_def date(3)
    by simp
  have hms: "?s div 60 div 60 * 3600 + ?s div 60 mod 60 * 60 + ?s mod 60 = ?s"
    using mult_div_mod_eq [of 60 ?s] mult_div_mod_eq [of 60 "?s div 60"] by linarith
  have hour: "?s div 60 div 60 < 24" "0 \<le> ?s div 60 div 60"
    using pos_mod_bound [of 86400 t] by (auto simp: zdiv_zmult2_eq [symmetric] div_less_iff_less_mult pos_imp_zdiv_nonneg_iff)
  have wday: "0 \<le> Date_weekDay (?d + 2440588)" "Date_weekDay (?d + 2440588) < 7"
    using d0 by (simp_all add: Date_weekDay_def cmod_nonneg kDaysPerWeek_def)
  let ?U = "TimeZone_toUtcTime t yday"
  have f: "tm_year ?U = y - 1900" "tm_mon ?U = m - 1" "tm_mday ?U = d" "tm_hour ?U = ?s div 60 div 60"
    "tm_min ?U = ?s div 60 mod 60" "tm_sec ?U = ?s mod 60" "tm_wday ?U = Date_weekDay (?d + 2440588)"
    unfolding utc fillHMS_def Let_def by (cases yday; simp)+
  have "TimeZone_fromUtcTime_tm ?U = (?d + 2440588 - 2440588) * kSecondsPerDay + ?s"
    unfolding TimeZone_fromUtcTime_tm_def TimeZone_fromUtcTime_def Let_def f Date_new_def k diff_add_cancel date(2) hms ..
  then have "TimeZone_fromUtcTime_tm ?U = t"
    unfolding kSecondsPerDay_def add_diff_cancel_right' using mult_div_mod_eq [of 86400 t] by (simp add: mult.commute)
  moreover have "tm_ok ?U"
    unfolding tm_ok_def f diff_add_cancel using date(1) hour wday by simp
  moreover have "yday \<longrightarrow> Date_new (tm_year (TimeZone_toUtcTime t yday) + 1900) 1 1 + tm_yday (TimeZone_toUtcTime t yday) =
      kJulianDayOf1970_01_01 + ?d"
    unfolding utc k by (cases yday) simp_all
  ultimately show ?thesis by blast
qed

theorem TimeZone_utc_roundtrip_witness:
  "TimeZone_fromUtcTime_tm (TimeZone_toUtcTime (- 1) True) = - 1 \<and> tm_ok (TimeZone_toUtcTime (- 1) True) \<and>
    (True \<longrightarrow> Date_new (tm_year (TimeZone_toUtcTime (- 1) True) + 1900) 1 1 + tm_yday (TimeZone_toUtcTime (- 1) True) =
      kJulianDayOf1970_01_01 + (- 1) div 86400)"
  by (rule TimeZone_utc_roundtrip) simp_all

end
