(* ===== verification/Net_Buffer.thy ===== *)
theory Net_Buffer
  imports Endian
begin

text \<open>
  The application-level network buffer, class \<open>Buffer\<close> of \<open>ideal/net/Buffer.h\<close> and
  \<open>Buffer.cc\<close>: a \<open>std::vector<char>\<close> with a reader and a writer index. A pointer into the
  vector is modelled by its offset from \<open>begin()\<close>; \<open>size_t\<close> values are naturals (the indices
  never exceed the length of a vector). Operations that assert, or that may read outside the
  vector, return a \<open>result\<close>. The vector's storage is the whole list \<open>b_buffer\<close>: an access past
  its length is \<open>OutOfRange\<close>.

  The locale \<open>byte_queue\<close> is the contract the connection code relies on: a buffer is a FIFO of
  bytes. It is interpreted on the buffer's own operations at the end of the theory.
\<close>

record Buffer =
  b_buffer :: "char list"
  b_readerIndex :: nat
  b_writerIndex :: nat

definition kCheapPrepend :: nat where
  "kCheapPrepend = 8"

definition kInitialSize :: nat where
  "kInitialSize = 1024"

definition kCRLF :: "char list" where
  "kCRLF = [CHR 0x0D, CHR 0x0A]"

section \<open>Observers\<close>

definition Buffer_readableBytes :: "Buffer \<Rightarrow> nat" where
  "Buffer_readableBytes b = b_writerIndex b - b_readerIndex b"

definition Buffer_writableBytes :: "Buffer \<Rightarrow> nat" where
  "Buffer_writableBytes b = length (b_buffer b) - b_writerIndex b"

definition Buffer_prependableBytes :: "Buffer \<Rightarrow> nat" where
  "Buffer_prependableBytes b = b_readerIndex b"

definition Buffer_peek :: "Buffer \<Rightarrow> nat" where
  "Buffer_peek b = b_readerIndex b"

definition Buffer_beginWrite :: "Buffer \<Rightarrow> nat" where
  "Buffer_beginWrite b = b_writerIndex b"

definition Buffer_init :: Buffer where
  "Buffer_init = \<lparr>b_buffer = replicate (kCheapPrepend + kInitialSize) (CHR 0x00),
                  b_readerIndex = kCheapPrepend, b_writerIndex = kCheapPrepend\<rparr>"

text \<open>The constructor ignores its argument \<open>initialSize\<close>: it always allocates \<open>kInitialSize\<close>.\<close>

definition Buffer_new :: "nat \<Rightarrow> Buffer result" where
  "Buffer_new initialSize =
     (let b = Buffer_init in
      bindR (assertR (Buffer_readableBytes b = 0)) (\<lambda>_.
      bindR (assertR (Buffer_writableBytes b = kInitialSize)) (\<lambda>_.
      bindR (assertR (Buffer_prependableBytes b = kCheapPrepend)) (\<lambda>_.
      Inr b))))"

text \<open>\<open>std::search\<close>, \<open>std::find_end\<close> and \<open>memchr\<close>; \<open>None\<close> is the null pointer.\<close>

definition Buffer_findCRLF :: "Buffer \<Rightarrow> nat option" where
  "Buffer_findCRLF b =
     map_option (\<lambda>i. Buffer_peek b + i)
       (find_sub kCRLF (slice (Buffer_peek b) (Buffer_beginWrite b) (b_buffer b)))"

definition Buffer_findLastCRLF :: "Buffer \<Rightarrow> nat option" where
  "Buffer_findLastCRLF b =
     map_option (\<lambda>i. Buffer_peek b + i)
       (rfind_sub kCRLF (slice (Buffer_peek b) (Buffer_beginWrite b) (b_buffer b)))"

definition Buffer_findCRLF_from :: "Buffer \<Rightarrow> nat \<Rightarrow> nat option result" where
  "Buffer_findCRLF_from b start =
     bindR (assertR (Buffer_peek b \<le> start)) (\<lambda>_.
     bindR (assertR (start \<le> Buffer_beginWrite b)) (\<lambda>_.
     Inr (map_option (\<lambda>i. start + i)
            (find_sub kCRLF (slice start (Buffer_beginWrite b) (b_buffer b))))))"

definition Buffer_findEOL :: "Buffer \<Rightarrow> nat option" where
  "Buffer_findEOL b =
     map_option (\<lambda>i. Buffer_peek b + i)
       (find_char (CHR 0x0A) (slice (Buffer_peek b) (Buffer_peek b + Buffer_readableBytes b) (b_buffer b)))"

definition Buffer_findEOL_from :: "Buffer \<Rightarrow> nat \<Rightarrow> nat option result" where
  "Buffer_findEOL_from b start =
     bindR (assertR (Buffer_peek b \<le> start)) (\<lambda>_.
     bindR (assertR (start \<le> Buffer_beginWrite b)) (\<lambda>_.
     Inr (map_option (\<lambda>i. start + i)
            (find_char (CHR 0x0A) (slice start (Buffer_beginWrite b) (b_buffer b))))))"

section \<open>Retrieving\<close>

definition Buffer_retrieveAll :: "Buffer \<Rightarrow> Buffer" where
  "Buffer_retrieveAll b = b\<lparr>b_readerIndex := kCheapPrepend, b_writerIndex := kCheapPrepend\<rparr>"

definition Buffer_retrieve :: "Buffer \<Rightarrow> nat \<Rightarrow> Buffer result" where
  "Buffer_retrieve b len =
     bindR (assertR (len \<le> Buffer_readableBytes b)) (\<lambda>_.
     Inr (if len < Buffer_readableBytes b then b\<lparr>b_readerIndex := b_readerIndex b + len\<rparr>
          else Buffer_retrieveAll b))"

definition Buffer_retrieveUntil :: "Buffer \<Rightarrow> nat \<Rightarrow> Buffer result" where
  "Buffer_retrieveUntil b end' =
     bindR (assertR (Buffer_peek b \<le> end')) (\<lambda>_.
     bindR (assertR (end' \<le> Buffer_beginWrite b)) (\<lambda>_.
     Buffer_retrieve b (end' - Buffer_peek b)))"

definition Buffer_retrieveInt64 :: "Buffer \<Rightarrow> Buffer result" where
  "Buffer_retrieveInt64 b = Buffer_retrieve b 8"

definition Buffer_retrieveInt32 :: "Buffer \<Rightarrow> Buffer result" where
  "Buffer_retrieveInt32 b = Buffer_retrieve b 4"

definition Buffer_retrieveInt16 :: "Buffer \<Rightarrow> Buffer result" where
  "Buffer_retrieveInt16 b = Buffer_retrieve b 2"

definition Buffer_retrieveInt8 :: "Buffer \<Rightarrow> Buffer result" where
  "Buffer_retrieveInt8 b = Buffer_retrieve b 1"

definition Buffer_retrieveAsString :: "Buffer \<Rightarrow> nat \<Rightarrow> (string \<times> Buffer) result" where
  "Buffer_retrieveAsString b len =
     bindR (assertR (len \<le> Buffer_readableBytes b)) (\<lambda>_.
     bindR (Buffer_retrieve b len) (\<lambda>b'.
     Inr (slice (Buffer_peek b) (Buffer_peek b + len) (b_buffer b), b')))"

definition Buffer_retrieveAllAsString :: "Buffer \<Rightarrow> (string \<times> Buffer) result" where
  "Buffer_retrieveAllAsString b = Buffer_retrieveAsString b (Buffer_readableBytes b)"

section \<open>Appending\<close>

definition Buffer_makeSpace :: "Buffer \<Rightarrow> nat \<Rightarrow> Buffer result" where
  "Buffer_makeSpace b len =
     (if Buffer_writableBytes b + Buffer_prependableBytes b < len + kCheapPrepend
      then Inr (b\<lparr>b_buffer := vec_resize (CHR 0x00) (b_writerIndex b + len) (b_buffer b)\<rparr>)
      else
        bindR (assertR (kCheapPrepend < b_readerIndex b)) (\<lambda>_.
        (let readable = Buffer_readableBytes b;
             b' = b\<lparr>b_buffer := splice kCheapPrepend
                        (slice (b_readerIndex b) (b_writerIndex b) (b_buffer b)) (b_buffer b),
                    b_readerIndex := kCheapPrepend,
                    b_writerIndex := kCheapPrepend + readable\<rparr>
         in bindR (assertR (readable = Buffer_readableBytes b')) (\<lambda>_. Inr b'))))"

definition Buffer_ensureWritableBytes :: "Buffer \<Rightarrow> nat \<Rightarrow> Buffer result" where
  "Buffer_ensureWritableBytes b len =
     bindR (if len > Buffer_writableBytes b then Buffer_makeSpace b len else Inr b) (\<lambda>b'.
     bindR (assertR (len \<le> Buffer_writableBytes b')) (\<lambda>_. Inr b'))"

definition Buffer_hasWritten :: "Buffer \<Rightarrow> nat \<Rightarrow> Buffer result" where
  "Buffer_hasWritten b len =
     bindR (assertR (len \<le> Buffer_writableBytes b)) (\<lambda>_.
     Inr (b\<lparr>b_writerIndex := b_writerIndex b + len\<rparr>))"

definition Buffer_append :: "Buffer \<Rightarrow> char list \<Rightarrow> Buffer result" where
  "Buffer_append b data =
     bindR (Buffer_ensureWritableBytes b (length data)) (\<lambda>b1.
     bindR (guardR OutOfRange (Buffer_beginWrite b1 + length data \<le> length (b_buffer b1))) (\<lambda>_.
     Buffer_hasWritten (b1\<lparr>b_buffer := splice (Buffer_beginWrite b1) data (b_buffer b1)\<rparr>)
       (length data)))"

definition Buffer_appendInt64 :: "Buffer \<Rightarrow> 64 word \<Rightarrow> Buffer result" where
  "Buffer_appendInt64 b x = Buffer_append b (le_bytes 8 (unat (hostToNetwork64 x)))"

definition Buffer_appendInt32 :: "Buffer \<Rightarrow> 32 word \<Rightarrow> Buffer result" where
  "Buffer_appendInt32 b x = Buffer_append b (le_bytes 4 (unat (hostToNetwork32 x)))"

definition Buffer_appendInt16 :: "Buffer \<Rightarrow> 16 word \<Rightarrow> Buffer result" where
  "Buffer_appendInt16 b x = Buffer_append b (le_bytes 2 (unat (hostToNetwork16 x)))"

definition Buffer_appendInt8 :: "Buffer \<Rightarrow> 8 word \<Rightarrow> Buffer result" where
  "Buffer_appendInt8 b x = Buffer_append b (le_bytes 1 (unat x))"

section \<open>Integers at the front\<close>

text \<open>
  \<open>memcpy(&v, peek(), sizeof v)\<close> for a local variable \<open>v\<close> of \<open>n\<close> bytes. In \<open>peekInt32\<close> and
  \<open>peekInt16\<close> the local variable is an \<open>int64_t\<close>, so eight bytes are copied although only four
  (two) are asserted to be readable; the argument of \<open>networkToHost32\<close> (\<open>networkToHost16\<close>) is
  then truncated to the low-order bytes.
\<close>

definition Buffer_load :: "Buffer \<Rightarrow> nat \<Rightarrow> nat result" where
  "Buffer_load b n =
     bindR (guardR OutOfRange (Buffer_peek b + n \<le> length (b_buffer b))) (\<lambda>_.
     Inr (le_value (slice (Buffer_peek b) (Buffer_peek b + n) (b_buffer b))))"

definition Buffer_peekInt64 :: "Buffer \<Rightarrow> 64 word result" where
  "Buffer_peekInt64 b =
     bindR (assertR (8 \<le> Buffer_readableBytes b)) (\<lambda>_.
     bindR (Buffer_load b 8) (\<lambda>be64. Inr (networkToHost64 (of_nat be64))))"

definition Buffer_peekInt32 :: "Buffer \<Rightarrow> 32 word result" where
  "Buffer_peekInt32 b =
     bindR (assertR (4 \<le> Buffer_readableBytes b)) (\<lambda>_.
     bindR (Buffer_load b 8) (\<lambda>be32. Inr (networkToHost32 (of_nat be32))))"

definition Buffer_peekInt16 :: "Buffer \<Rightarrow> 16 word result" where
  "Buffer_peekInt16 b =
     bindR (assertR (2 \<le> Buffer_readableBytes b)) (\<lambda>_.
     bindR (Buffer_load b 8) (\<lambda>be16. Inr (networkToHost16 (of_nat be16))))"

definition Buffer_peekInt8 :: "Buffer \<Rightarrow> 8 word result" where
  "Buffer_peekInt8 b =
     bindR (assertR (1 \<le> Buffer_readableBytes b)) (\<lambda>_.
     bindR (Buffer_load b 1) (\<lambda>x. Inr (of_nat x)))"

definition Buffer_readInt64 :: "Buffer \<Rightarrow> (64 word \<times> Buffer) result" where
  "Buffer_readInt64 b =
     bindR (Buffer_peekInt64 b) (\<lambda>result. bindR (Buffer_retrieveInt64 b) (\<lambda>b'. Inr (result, b')))"

definition Buffer_readInt32 :: "Buffer \<Rightarrow> (32 word \<times> Buffer) result" where
  "Buffer_readInt32 b =
     bindR (Buffer_peekInt32 b) (\<lambda>result. bindR (Buffer_retrieveInt32 b) (\<lambda>b'. Inr (result, b')))"

definition Buffer_readInt16 :: "Buffer \<Rightarrow> (16 word \<times> Buffer) result" where
  "Buffer_readInt16 b =
     bindR (Buffer_peekInt16 b) (\<lambda>result. bindR (Buffer_retrieveInt16 b) (\<lambda>b'. Inr (result, b')))"

definition Buffer_readInt8 :: "Buffer \<Rightarrow> (8 word \<times> Buffer) result" where
  "Buffer_readInt8 b =
     bindR (Buffer_peekInt8 b) (\<lambda>result. bindR (Buffer_retrieveInt8 b) (\<lambda>b'. Inr (result, b')))"

section \<open>Prepending\<close>

definition Buffer_prepend :: "Buffer \<Rightarrow> char list \<Rightarrow> Buffer result" where
  "Buffer_prepend b data =
     bindR (assertR (length data \<le> Buffer_prependableBytes b)) (\<lambda>_.
     (let r = b_readerIndex b - length data in
      bindR (guardR OutOfRange (r + length data \<le> length (b_buffer b))) (\<lambda>_.
      Inr (b\<lparr>b_readerIndex := r, b_buffer := splice r data (b_buffer b)\<rparr>))))"

definition Buffer_prependInt64 :: "Buffer \<Rightarrow> 64 word \<Rightarrow> Buffer result" where
  "Buffer_prependInt64 b x = Buffer_prepend b (le_bytes 8 (unat (hostToNetwork64 x)))"

text \<open>\<open>int64_t be32 = hostToNetwork32(x); prepend(&be32, sizeof be32)\<close>: eight bytes.\<close>

definition Buffer_prependInt32 :: "Buffer \<Rightarrow> 32 word \<Rightarrow> Buffer result" where
  "Buffer_prependInt32 b x = Buffer_prepend b (le_bytes 8 (unat (hostToNetwork32 x)))"

definition Buffer_prependInt16 :: "Buffer \<Rightarrow> 16 word \<Rightarrow> Buffer result" where
  "Buffer_prependInt16 b x = Buffer_prepend b (le_bytes 8 (unat (hostToNetwork16 x)))"

definition Buffer_prependInt8 :: "Buffer \<Rightarrow> 8 word \<Rightarrow> Buffer result" where
  "Buffer_prependInt8 b x = Buffer_prepend b (le_bytes 1 (unat x))"

section \<open>Swap, shrink and reading from a descriptor\<close>

definition Buffer_swap :: "Buffer \<Rightarrow> Buffer \<Rightarrow> Buffer \<times> Buffer" where
  "Buffer_swap b rhs = (rhs, b)"

text \<open>The length of a \<open>StringPiece\<close> is an \<open>int\<close>.\<close>

definition Buffer_toStringPiece :: "Buffer \<Rightarrow> char list result" where
  "Buffer_toStringPiece b =
     bindR (guardR OutOfRange (Buffer_readableBytes b < 2 ^ 31)) (\<lambda>_.
     Inr (slice (Buffer_peek b) (Buffer_peek b + Buffer_readableBytes b) (b_buffer b)))"

definition Buffer_shrink :: "Buffer \<Rightarrow> nat \<Rightarrow> Buffer result" where
  "Buffer_shrink b reserve =
     bindR (Buffer_new kInitialSize) (\<lambda>other.
     bindR (Buffer_ensureWritableBytes other (Buffer_readableBytes b + reserve)) (\<lambda>other1.
     bindR (Buffer_toStringPiece b) (\<lambda>piece.
     bindR (Buffer_append other1 piece) (\<lambda>other2.
     Inr (fst (Buffer_swap b other2))))))"

text \<open>
  \<open>sockets::readv\<close> is the kernel's: a function of the total length of the two \<open>iovec\<close>s that
  returns \<open>errno\<close> or the bytes it stored, in order, into the first and then the second vector.
\<close>

type_synonym readv_call = "nat \<Rightarrow> int + char list"

definition readv_contract :: "readv_call \<Rightarrow> bool" where
  "readv_contract readv \<longleftrightarrow> (\<forall>cap bs. readv cap = Inr bs \<longrightarrow> length bs \<le> cap)"

definition extrabuf_size :: nat where
  "extrabuf_size = 65536"

definition Buffer_readFd :: "readv_call \<Rightarrow> Buffer \<Rightarrow> ((int + nat) \<times> Buffer) result" where
  "Buffer_readFd readv b =
     (let writable = Buffer_writableBytes b;
          cap = (if writable < extrabuf_size then writable + extrabuf_size else writable)
      in case readv cap of
           Inl errno \<Rightarrow> Inr (Inl errno, b)
         | Inr bs \<Rightarrow>
             bindR (guardR OutOfRange (length bs \<le> cap)) (\<lambda>_.
             (if length bs \<le> writable
              then Inr (Inr (length bs),
                        b\<lparr>b_buffer := splice (b_writerIndex b) bs (b_buffer b),
                          b_writerIndex := b_writerIndex b + length bs\<rparr>)
              else
                (let b' = b\<lparr>b_buffer := splice (b_writerIndex b) (take writable bs) (b_buffer b),
                            b_writerIndex := length (b_buffer b)\<rparr>
                 in bindR (Buffer_append b' (drop writable bs)) (\<lambda>b''.
                    Inr (Inr (length bs), b''))))))"

section \<open>Representation invariant and abstraction\<close>

text \<open>
  \<open>0 <= readerIndex <= writerIndex <= size\<close>, as the comment of the class draws it, and the
  vector never gets shorter than the cheap-prepend area. The content is the readable range.
\<close>

definition buffer_ok :: "Buffer \<Rightarrow> bool" where
  "buffer_ok b \<longleftrightarrow> b_readerIndex b \<le> b_writerIndex b \<and> b_writerIndex b \<le> length (b_buffer b)
                 \<and> kCheapPrepend \<le> length (b_buffer b)"

definition content :: "Buffer \<Rightarrow> char list" where
  "content b = slice (b_readerIndex b) (b_writerIndex b) (b_buffer b)"

lemmas buffer_observers =
  Buffer_readableBytes_def Buffer_writableBytes_def Buffer_prependableBytes_def
  Buffer_peek_def Buffer_beginWrite_def

lemma buffer_okD:
  "buffer_ok b \<Longrightarrow> b_readerIndex b \<le> b_writerIndex b"
  "buffer_ok b \<Longrightarrow> b_writerIndex b \<le> length (b_buffer b)"
  "buffer_ok b \<Longrightarrow> kCheapPrepend \<le> length (b_buffer b)"
  by (simp_all add: buffer_ok_def)

lemma length_content [simp]: "buffer_ok b \<Longrightarrow> length (content b) = Buffer_readableBytes b"
  by (simp add: buffer_ok_def content_def buffer_observers)

lemma Buffer_new_eq: "Buffer_new n = Inr Buffer_init"
  by (simp add: Buffer_new_def Buffer_init_def buffer_observers)

lemma Buffer_init_ok [simp]: "buffer_ok Buffer_init"
  by (simp add: buffer_ok_def Buffer_init_def)

lemma content_init [simp]: "content Buffer_init = []"
  by (simp add: content_def Buffer_init_def)

lemma retrieveAll_ok [simp]: "buffer_ok b \<Longrightarrow> buffer_ok (Buffer_retrieveAll b)"
  by (simp add: buffer_ok_def Buffer_retrieveAll_def)

lemma content_retrieveAll [simp]: "content (Buffer_retrieveAll b) = []"
  by (simp add: content_def Buffer_retrieveAll_def)

lemma Buffer_retrieve_spec:
  assumes "buffer_ok b" and "n \<le> length (content b)"
  shows "\<exists>b'. Buffer_retrieve b n = Inr b' \<and> buffer_ok b' \<and> content b' = drop n (content b)"
proof (cases "n < Buffer_readableBytes b")
  case True
  with assms show ?thesis
    by (auto simp: Buffer_retrieve_def buffer_ok_def content_def drop_slice buffer_observers)
next
  case False
  with assms have "drop n (content b) = []" by simp
  with False assms show ?thesis by (simp add: Buffer_retrieve_def)
qed

lemma Buffer_retrieve_fault:
  "buffer_ok b \<Longrightarrow> length (content b) < n \<Longrightarrow> Buffer_retrieve b n = Inl AssertionFailed"
  by (simp add: Buffer_retrieve_def)

text \<open>\<open>makeSpace\<close> either grows the vector or moves the content to the front.\<close>

lemma Buffer_makeSpace_spec:
  assumes ok: "buffer_ok b" and len: "Buffer_writableBytes b < len"
  shows "\<exists>b'. Buffer_makeSpace b len = Inr b' \<and> buffer_ok b' \<and> content b' = content b
            \<and> len \<le> Buffer_writableBytes b'
            \<and> (if Buffer_writableBytes b + Buffer_prependableBytes b < len + kCheapPrepend
               then length (b_buffer b') = b_writerIndex b + len
               else length (b_buffer b') = length (b_buffer b))"
proof (cases "Buffer_writableBytes b + Buffer_prependableBytes b < len + kCheapPrepend")
  case True
  with ok len show ?thesis
    by (auto simp: Buffer_makeSpace_def buffer_ok_def content_def buffer_observers slice_vec_resize)
next
  case False
  let ?c = "slice (b_readerIndex b) (b_writerIndex b) (b_buffer b)"
  have len_c: "length ?c = Buffer_readableBytes b"
    using ok by (simp add: buffer_ok_def buffer_observers)
  have fits: "kCheapPrepend + length ?c \<le> length (b_buffer b)"
    using ok False len by (auto simp: buffer_ok_def buffer_observers)
  have "slice kCheapPrepend (kCheapPrepend + Buffer_readableBytes b)
          (splice kCheapPrepend ?c (b_buffer b)) = ?c"
    using slice_splice_same [OF fits] by (simp add: len_c)
  moreover have "length (splice kCheapPrepend ?c (b_buffer b)) = length (b_buffer b)"
    using fits by simp
  ultimately show ?thesis using False fits ok len len_c
    by (auto simp: Buffer_makeSpace_def buffer_ok_def content_def buffer_observers)
qed

lemma Buffer_ensureWritableBytes_spec:
  assumes "buffer_ok b"
  shows "\<exists>b'. Buffer_ensureWritableBytes b len = Inr b' \<and> buffer_ok b' \<and> content b' = content b
            \<and> len \<le> Buffer_writableBytes b'"
proof (cases "len > Buffer_writableBytes b")
  case True
  with Buffer_makeSpace_spec [OF assms True] show ?thesis
    by (auto simp: Buffer_ensureWritableBytes_def)
next
  case False
  with assms show ?thesis by (simp add: Buffer_ensureWritableBytes_def)
qed

lemma content_write:
  assumes ok: "buffer_ok b" and fits: "length d \<le> Buffer_writableBytes b"
  shows "content (b\<lparr>b_buffer := splice (b_writerIndex b) d (b_buffer b),
                    b_writerIndex := b_writerIndex b + length d\<rparr>) = content b @ d"
proof -
  let ?v = "splice (b_writerIndex b) d (b_buffer b)"
  have le: "b_writerIndex b + length d \<le> length (b_buffer b)"
    using ok fits by (auto simp: buffer_ok_def buffer_observers)
  have "slice (b_readerIndex b) (b_writerIndex b + length d) ?v =
        slice (b_readerIndex b) (b_writerIndex b) ?v @
        slice (b_writerIndex b) (b_writerIndex b + length d) ?v"
    using ok le by (simp add: slice_append_slice buffer_ok_def)
  with le show ?thesis
    by (simp add: content_def slice_splice_before slice_splice_same)
qed

lemma buffer_ok_write:
  "buffer_ok b \<Longrightarrow> length d \<le> Buffer_writableBytes b \<Longrightarrow>
   buffer_ok (b\<lparr>b_buffer := splice (b_writerIndex b) d (b_buffer b),
               b_writerIndex := b_writerIndex b + length d\<rparr>)"
  by (auto simp: buffer_ok_def buffer_observers)

lemma Buffer_append_spec:
  assumes "buffer_ok b"
  shows "\<exists>b'. Buffer_append b d = Inr b' \<and> buffer_ok b' \<and> content b' = content b @ d"
proof -
  obtain b1 where b1: "Buffer_ensureWritableBytes b (length d) = Inr b1" "buffer_ok b1"
      "content b1 = content b" "length d \<le> Buffer_writableBytes b1"
    using Buffer_ensureWritableBytes_spec [OF assms] by blast
  have le: "b_writerIndex b1 + length d \<le> length (b_buffer b1)"
    using b1(2,4) by (auto simp: buffer_ok_def buffer_observers)
  then have "Buffer_append b d =
      Inr (b1\<lparr>b_buffer := splice (b_writerIndex b1) d (b_buffer b1),
              b_writerIndex := b_writerIndex b1 + length d\<rparr>)"
    using b1 by (simp add: Buffer_append_def Buffer_hasWritten_def Buffer_beginWrite_def
        Buffer_writableBytes_def)
  then show ?thesis
    using content_write [OF b1(2,4)] buffer_ok_write [OF b1(2,4)] b1(3) by simp
qed

lemma Buffer_prepend_spec:
  assumes ok: "buffer_ok b" and fits: "length d \<le> Buffer_prependableBytes b"
  shows "\<exists>b'. Buffer_prepend b d = Inr b' \<and> buffer_ok b' \<and> content b' = d @ content b"
proof -
  let ?r = "b_readerIndex b - length d"
  let ?v = "splice ?r d (b_buffer b)"
  have r: "?r + length d = b_readerIndex b"
    using fits by (simp add: buffer_observers)
  have le: "?r + length d \<le> length (b_buffer b)"
    using ok r by (simp add: buffer_ok_def)
  have "slice ?r (b_writerIndex b) ?v =
        slice ?r (b_readerIndex b) ?v @ slice (b_readerIndex b) (b_writerIndex b) ?v"
    using ok le by (simp add: slice_append_slice buffer_ok_def)
  also have "slice ?r (b_readerIndex b) ?v = d"
    using slice_splice_same [OF le] r by simp
  also have "slice (b_readerIndex b) (b_writerIndex b) ?v = content b"
    using r le by (simp add: content_def slice_splice_after)
  finally show ?thesis
    using ok le r fits
    by (auto simp: Buffer_prepend_def Let_def content_def buffer_ok_def buffer_observers)
qed

section \<open>The contract: a FIFO of bytes\<close>

locale byte_queue =
  fixes invar :: "'b \<Rightarrow> bool"
    and bytes :: "'b \<Rightarrow> char list"
    and enqueue :: "'b \<Rightarrow> char list \<Rightarrow> 'b result"
    and dequeue :: "'b \<Rightarrow> nat \<Rightarrow> 'b result"
  assumes enqueue_law:
      "invar b \<Longrightarrow> \<exists>b'. enqueue b d = Inr b' \<and> invar b' \<and> bytes b' = bytes b @ d"
    and dequeue_law:
      "invar b \<Longrightarrow> n \<le> length (bytes b) \<Longrightarrow>
       \<exists>b'. dequeue b n = Inr b' \<and> invar b' \<and> bytes b' = drop n (bytes b)"
    and dequeue_fault:
      "invar b \<Longrightarrow> length (bytes b) < n \<Longrightarrow> dequeue b n = Inl AssertionFailed"
begin

lemma enqueue_all:
  "invar b \<Longrightarrow> \<exists>b'. foldR (\<lambda>d b. enqueue b d) ds b = Inr b' \<and> invar b' \<and> bytes b' = bytes b @ concat ds"
proof (induction ds arbitrary: b)
  case Nil
  then show ?case by simp
next
  case (Cons d ds)
  obtain b1 where b1: "enqueue b d = Inr b1" "invar b1" "bytes b1 = bytes b @ d"
    using enqueue_law [OF Cons.prems] by blast
  then show ?case using Cons.IH [OF b1(2)] by auto
qed

lemma enqueue_dequeue:
  assumes "invar b"
  shows "\<exists>b1 b2. enqueue b d = Inr b1 \<and> dequeue b1 (length (bytes b)) = Inr b2
           \<and> invar b2 \<and> bytes b2 = d"
proof -
  obtain b1 where b1: "enqueue b d = Inr b1" "invar b1" "bytes b1 = bytes b @ d"
    using enqueue_law [OF assms] by blast
  then show ?thesis using dequeue_law [OF b1(2), of "length (bytes b)"] by auto
qed

end

interpretation bq: byte_queue buffer_ok content Buffer_append Buffer_retrieve
  by unfold_locales (fact Buffer_append_spec Buffer_retrieve_spec Buffer_retrieve_fault)+

section \<open>Derived operations\<close>

lemma Buffer_toStringPiece_eq:
  "buffer_ok b \<Longrightarrow> length (content b) < 2 ^ 31 \<Longrightarrow> Buffer_toStringPiece b = Inr (content b)"
  by (simp add: Buffer_toStringPiece_def content_def buffer_observers buffer_ok_def)

lemma Buffer_toStringPiece_fault:
  "buffer_ok b \<Longrightarrow> 2 ^ 31 \<le> length (content b) \<Longrightarrow> Buffer_toStringPiece b = Inl OutOfRange"
  by (simp add: Buffer_toStringPiece_def)

lemma Buffer_shrink_spec:
  assumes ok: "buffer_ok b"
  shows "if length (content b) < 2 ^ 31
         then \<exists>b'. Buffer_shrink b n = Inr b' \<and> buffer_ok b' \<and> content b' = content b
         else Buffer_shrink b n = Inl OutOfRange"
proof -
  obtain o1 where o1: "Buffer_ensureWritableBytes Buffer_init (Buffer_readableBytes b + n) = Inr o1"
      "buffer_ok o1" "content o1 = []"
    using Buffer_ensureWritableBytes_spec [OF Buffer_init_ok] by auto
  show ?thesis
  proof (cases "length (content b) < 2 ^ 31")
    case True
    obtain o2 where "Buffer_append o1 (content b) = Inr o2" "buffer_ok o2" "content o2 = content b"
      using bq.enqueue_law [OF o1(2), of "content b"] o1(3) by auto
    with True o1 ok show ?thesis
      by (simp add: Buffer_shrink_def Buffer_new_eq Buffer_toStringPiece_eq Buffer_swap_def)
  next
    case False
    with o1 ok show ?thesis
      by (simp add: Buffer_shrink_def Buffer_new_eq Buffer_toStringPiece_def)
  qed
qed

lemma Buffer_load_eq:
  assumes "buffer_ok b" and "n \<le> length (content b)"
  shows "Buffer_load b n = Inr (le_value (take n (content b)))"
proof -
  have "b_readerIndex b + n \<le> b_writerIndex b"
    using assms by (auto simp: buffer_ok_def buffer_observers)
  then show ?thesis using assms
    by (simp add: Buffer_load_def content_def take_slice buffer_ok_def buffer_observers)
qed

text \<open>The low-order \<open>n\<close> bytes of a longer load are the first \<open>n\<close> bytes in memory.\<close>

lemma Buffer_load_low:
  assumes "buffer_ok b" and "n \<le> length (content b)" and "n \<le> m"
    and "b_readerIndex b + m \<le> length (b_buffer b)"
  shows "\<exists>v. Buffer_load b m = Inr v \<and> v mod 256 ^ n = le_value (take n (content b))"
proof -
  let ?s = "slice (b_readerIndex b) (b_readerIndex b + m) (b_buffer b)"
  have "b_readerIndex b + n \<le> b_writerIndex b"
    using assms(1,2) by (auto simp: buffer_ok_def buffer_observers)
  then have "take n ?s = take n (content b)"
    using assms by (simp add: content_def take_slice)
  moreover have "le_value ?s mod 256 ^ n = le_value (take n ?s)"
  proof -
    have len: "length (take n ?s) = n" using assms(3,4) by simp
    have "le_value ?s = le_value (take n ?s) + 256 ^ n * le_value (drop n ?s)"
      using le_value_append [of "take n ?s" "drop n ?s"] len by (simp del: length_take)
    moreover have "le_value (take n ?s) < 256 ^ n"
      using le_value_bound [of "take n ?s"] len by (simp del: length_take)
    ultimately show ?thesis by simp
  qed
  ultimately show ?thesis
    using assms(4) by (simp add: Buffer_load_def Buffer_peek_def)
qed

lemma Buffer_load_integer:
  assumes "buffer_ok b" and "content b = le_bytes n k @ rest" and "n \<le> 8" and "k < 256 ^ n"
    and "b_readerIndex b + 8 \<le> length (b_buffer b)"
  shows "\<exists>v. Buffer_load b 8 = Inr v \<and> v mod 256 ^ n = k"
  using Buffer_load_low [OF assms(1) _ assms(3,5)] assms(2,4) by (simp add: le_value_le_bytes)

lemma Buffer_readInt64_spec:
  assumes ok: "buffer_ok b" and front: "content b = le_bytes 8 (unat (hostToNetwork64 x)) @ rest"
  shows "\<exists>b'. Buffer_readInt64 b = Inr (x, b') \<and> buffer_ok b' \<and> content b' = rest"
proof -
  have "Buffer_load b 8 = Inr (unat (hostToNetwork64 x))"
    using Buffer_load_eq [OF ok, of 8] front unsigned_less [of "hostToNetwork64 x", where ?'a = nat]
    by (simp add: le_value_le_bytes)
  moreover have "8 \<le> Buffer_readableBytes b"
    using length_content [OF ok] front by simp
  ultimately have "Buffer_peekInt64 b = Inr x" by (simp add: Buffer_peekInt64_def)
  moreover obtain b' where "Buffer_retrieve b 8 = Inr b'" "buffer_ok b'" "content b' = rest"
    using bq.dequeue_law [OF ok, of 8] front by auto
  ultimately show ?thesis by (simp add: Buffer_readInt64_def Buffer_retrieveInt64_def)
qed

section \<open>Traces\<close>

text \<open>A client of the buffer, and what it may expect of a queue of bytes.\<close>

datatype buffer_op =
    OpAppend "char list"
  | OpRetrieve nat
  | OpRetrieveAll
  | OpEnsureWritable nat
  | OpShrink nat

fun Buffer_step :: "buffer_op \<Rightarrow> Buffer \<Rightarrow> Buffer result" where
  "Buffer_step (OpAppend d) b = Buffer_append b d"
| "Buffer_step (OpRetrieve n) b = Buffer_retrieve b n"
| "Buffer_step OpRetrieveAll b = Inr (Buffer_retrieveAll b)"
| "Buffer_step (OpEnsureWritable n) b = Buffer_ensureWritableBytes b n"
| "Buffer_step (OpShrink n) b = Buffer_shrink b n"

fun queue_step :: "buffer_op \<Rightarrow> char list \<Rightarrow> char list result" where
  "queue_step (OpAppend d) cs = Inr (cs @ d)"
| "queue_step (OpRetrieve n) cs = (if n \<le> length cs then Inr (drop n cs) else Inl AssertionFailed)"
| "queue_step OpRetrieveAll cs = Inr []"
| "queue_step (OpEnsureWritable n) cs = Inr cs"
| "queue_step (OpShrink n) cs = (if length cs < 2 ^ 31 then Inr cs else Inl OutOfRange)"

definition simulates :: "Buffer result \<Rightarrow> char list result \<Rightarrow> bool" where
  "simulates r q = (case r of Inl e \<Rightarrow> q = Inl e | Inr b \<Rightarrow> buffer_ok b \<and> q = Inr (content b))"

lemma Buffer_step_simulates:
  assumes ok: "buffer_ok b"
  shows "simulates (Buffer_step op b) (queue_step op (content b))"
proof (cases op)
  case (OpAppend d)
  then show ?thesis using bq.enqueue_law [OF ok, of d] by (auto simp: simulates_def)
next
  case (OpRetrieve n)
  then show ?thesis
    using bq.dequeue_law [OF ok, of n] bq.dequeue_fault [OF ok, of n]
    by (cases "n \<le> length (content b)") (auto simp: simulates_def)
next
  case OpRetrieveAll
  then show ?thesis using ok by (simp add: simulates_def)
next
  case (OpEnsureWritable n)
  then show ?thesis
    using Buffer_ensureWritableBytes_spec [OF ok, of n] by (auto simp: simulates_def)
next
  case (OpShrink n)
  then show ?thesis
    using Buffer_shrink_spec [OF ok, of n] by (auto simp: simulates_def split: if_splits)
qed

section \<open>Properties\<close>



text \<open>
  Storage is reallocated only when it has to be: an append of \<open>n\<close> bytes keeps the vector's
  length whenever \<open>n\<close> fits behind the writer index or the gap in front of the reader index can
  be reclaimed while keeping the cheap-prepend area; otherwise the vector grows to exactly
  \<open>writerIndex + n\<close> bytes.
\<close>

theorem Buffer_append_capacity:
  assumes ok: "buffer_ok b"
  shows "\<exists>b'. Buffer_append b d = Inr b' \<and> content b' = content b @ d \<and>
     length (b_buffer b') =
       (if length d \<le> Buffer_writableBytes b
         \<or> length d + kCheapPrepend \<le> Buffer_writableBytes b + Buffer_prependableBytes b
        then length (b_buffer b) else b_writerIndex b + length d)"
proof -
  obtain b' where b': "Buffer_append b d = Inr b'" "content b' = content b @ d"
    using bq.enqueue_law [OF ok] by blast
  then obtain b1 where b1: "Buffer_ensureWritableBytes b (length d) = Inr b1"
      "length (b_buffer b') = length (b_buffer b1)"
    by (auto simp: Buffer_append_def Buffer_hasWritten_def Buffer_beginWrite_def)
  show ?thesis
  proof (cases "length d \<le> Buffer_writableBytes b")
    case True
    with b1 b' show ?thesis by (auto simp: Buffer_ensureWritableBytes_def)
  next
    case False
    then have "Buffer_makeSpace b (length d) = Inr b1"
      using b1(1) by (auto simp: Buffer_ensureWritableBytes_def)
    with Buffer_makeSpace_spec [OF ok, of "length d"] False b1 b' show ?thesis
      by (auto simp: not_less split: if_splits)
  qed
qed

theorem Buffer_append_capacity_witness:
  "\<exists>b'. Buffer_append Buffer_init ''HTTP'' = Inr b' \<and> content b' = ''HTTP'' \<and>
        length (b_buffer b') = 1032"
  using Buffer_append_capacity [OF Buffer_init_ok, of "''HTTP''"]
  by (simp add: Buffer_init_def buffer_observers kCheapPrepend_def kInitialSize_def content_def)

lemma Buffer_readFd_spec:
  assumes kernel: "readv_contract readv" and ok: "buffer_ok b"
  shows "\<exists>r b' cap. Buffer_readFd readv b = Inr (r, b') \<and> buffer_ok b' \<and>
     Buffer_writableBytes b \<le> cap \<and>
     (case readv cap of Inl e \<Rightarrow> r = Inl e \<and> b' = b
                      | Inr bs \<Rightarrow> r = Inr (length bs) \<and> content b' = content b @ bs)"
proof -
  let ?w = "Buffer_writableBytes b"
  define cap where "cap = (if ?w < extrabuf_size then ?w + extrabuf_size else ?w)"
  have "?w \<le> cap" by (simp add: cap_def)
  moreover have "\<exists>r b'. Buffer_readFd readv b = Inr (r, b') \<and> buffer_ok b' \<and>
     (case readv cap of Inl e \<Rightarrow> r = Inl e \<and> b' = b
                      | Inr bs \<Rightarrow> r = Inr (length bs) \<and> content b' = content b @ bs)"
  proof (cases "readv cap")
    case (Inl e)
    then show ?thesis using ok by (simp add: Buffer_readFd_def cap_def Let_def)
  next
    case (Inr bs)
    then have le: "length bs \<le> cap" using kernel by (simp add: readv_contract_def)
    show ?thesis
    proof (cases "length bs \<le> ?w")
      case True
      with Inr le ok show ?thesis
        using content_write [OF ok True] buffer_ok_write [OF ok True]
        by (simp add: Buffer_readFd_def cap_def [symmetric] Let_def)
    next
      case False
      let ?b1 = "b\<lparr>b_buffer := splice (b_writerIndex b) (take ?w bs) (b_buffer b),
                   b_writerIndex := length (b_buffer b)\<rparr>"
      have fits: "length (take ?w bs) \<le> ?w" by simp
      have w: "b_writerIndex b + length (take ?w bs) = length (b_buffer b)"
        using False ok by (simp add: buffer_ok_def buffer_observers)
      have "buffer_ok ?b1" "content ?b1 = content b @ take ?w bs"
        using content_write [OF ok fits] buffer_ok_write [OF ok fits] unfolding w by simp_all
      then obtain b2 where "Buffer_append ?b1 (drop ?w bs) = Inr b2" "buffer_ok b2"
          "content b2 = content b @ bs"
        using bq.enqueue_law [of ?b1 "drop ?w bs"] by auto
      with Inr le False show ?thesis
        by (simp add: Buffer_readFd_def cap_def [symmetric] Let_def)
    qed
  qed
  ultimately show ?thesis by blast
qed

text \<open>
  Reading from a descriptor: whatever number of bytes the kernel returns (none, as many as fit
  behind the writer index, or more, which spill into the 64 KiB stack buffer), exactly these
  bytes are appended to the content and their number is returned; a failing \<open>readv\<close> leaves the
  buffer alone. No byte is lost at the boundary between the two vectors.
\<close>

theorem Buffer_readFd_appends:
  assumes kernel: "readv_contract readv" and ok: "buffer_ok b"
  shows "\<exists>r b' cap. Buffer_readFd readv b = Inr (r, b') \<and> buffer_ok b' \<and>
     Buffer_writableBytes b \<le> cap \<and>
     (case readv cap of Inl e \<Rightarrow> r = Inl e \<and> b' = b
                      | Inr bs \<Rightarrow> r = Inr (length bs) \<and> content b' = content b @ bs)"
  by (rule Buffer_readFd_spec [OF assms])

theorem Buffer_readFd_appends_witness:
  "\<exists>r b' cap. Buffer_readFd (\<lambda>cap. Inr (take cap ''PLAY'')) Buffer_init = Inr (r, b') \<and> buffer_ok b' \<and>
     Buffer_writableBytes Buffer_init \<le> cap \<and>
     (case Inr (take cap ''PLAY'') :: int + char list of Inl e \<Rightarrow> r = Inl e \<and> b' = Buffer_init
        | Inr bs \<Rightarrow> r = Inr (length bs) \<and> content b' = content Buffer_init @ bs)"
proof -
  have "readv_contract (\<lambda>cap. Inr (take cap ''PLAY''))"
    by (auto simp: readv_contract_def)
  from Buffer_readFd_appends [OF this Buffer_init_ok] show ?thesis .
qed

text \<open>
  Line framing: when \<open>findCRLF\<close> returns a position, \<open>retrieveUntil\<close> just behind it succeeds
  and splits the content at the first CRLF, which no earlier position of the content holds; when
  it returns null, there is no CRLF in the content.
\<close>

theorem Buffer_findCRLF_frames_line:
  assumes ok: "buffer_ok b"
  shows "case Buffer_findCRLF b of
           None \<Rightarrow> (\<forall>i. \<not> occurs_at kCRLF (content b) i)
         | Some p \<Rightarrow> (\<exists>b' line. Buffer_retrieveUntil b (p + 2) = Inr b' \<and> buffer_ok b' \<and>
             content b = line @ kCRLF @ content b' \<and> length line = p - Buffer_peek b \<and>
             (\<forall>i<length line. \<not> occurs_at kCRLF (content b) i))"
proof (cases "find_sub kCRLF (content b)")
  case None
  then have "Buffer_findCRLF b = None"
    by (simp add: Buffer_findCRLF_def content_def buffer_observers)
  with None show ?thesis by (simp add: find_sub_None)
next
  case (Some i)
  let ?p = "b_readerIndex b + i"
  have p: "Buffer_findCRLF b = Some ?p"
    using Some by (simp add: Buffer_findCRLF_def content_def buffer_observers)
  have occ: "occurs_at kCRLF (content b) i" and first: "\<forall>j<i. \<not> occurs_at kCRLF (content b) j"
    using Some by (simp_all add: find_sub_Some)
  have i2: "i + 2 \<le> length (content b)"
    using occ by (simp add: occurs_at_def kCRLF_def)
  obtain b' where b': "Buffer_retrieve b (i + 2) = Inr b'" "buffer_ok b'"
      "content b' = drop (i + 2) (content b)"
    using bq.dequeue_law [OF ok i2] by blast
  have until: "Buffer_retrieveUntil b (?p + 2) = Inr b'"
    using b'(1) i2 ok by (auto simp: Buffer_retrieveUntil_def buffer_observers add.assoc buffer_ok_def)
  have "take 2 (drop i (content b)) = kCRLF"
    using occ by (simp add: occurs_at_def kCRLF_def numeral_2_eq_2)
  moreover have "content b = take i (content b) @ take 2 (drop i (content b)) @ drop (i + 2) (content b)"
    by (metis add.commute append_take_drop_id drop_drop)
  ultimately have split: "content b = take i (content b) @ kCRLF @ content b'"
    using b'(3) by metis
  have len: "length (take i (content b)) = i" using i2 by simp
  have "\<exists>line. content b = line @ kCRLF @ content b' \<and> length line = ?p - Buffer_peek b \<and>
          (\<forall>j<length line. \<not> occurs_at kCRLF (content b) j)"
    using split len first by (intro exI [of _ "take i (content b)"]) (simp add: Buffer_peek_def)
  with until b'(2) p show ?thesis by auto
qed

theorem Buffer_findCRLF_frames_line_witness:
  "\<exists>b. buffer_ok b \<and> content b = ''a'' @ kCRLF @ ''b'' \<and>
     (case Buffer_findCRLF b of
           None \<Rightarrow> (\<forall>i. \<not> occurs_at kCRLF (content b) i)
         | Some p \<Rightarrow> (\<exists>b' line. Buffer_retrieveUntil b (p + 2) = Inr b' \<and> buffer_ok b' \<and>
             content b = line @ kCRLF @ content b' \<and> length line = p - Buffer_peek b \<and>
             (\<forall>i<length line. \<not> occurs_at kCRLF (content b) i)))"
proof -
  obtain b where "buffer_ok b" "content b = ''a'' @ kCRLF @ ''b''"
    using bq.enqueue_law [OF Buffer_init_ok, of "''a'' @ kCRLF @ ''b''"] by auto
  then show ?thesis using Buffer_findCRLF_frames_line [of b] by blast
qed

text \<open>
  Integers survive the round trip through the network byte order: a 64-bit integer appended
  behind any content is what \<open>readInt64\<close> returns once that content has been retrieved.
\<close>

theorem Buffer_int64_roundtrip:
  assumes ok: "buffer_ok b"
  shows "\<exists>b1 b2 b3. Buffer_appendInt64 b x = Inr b1 \<and>
     Buffer_retrieve b1 (length (content b)) = Inr b2 \<and>
     Buffer_readInt64 b2 = Inr (x, b3) \<and> buffer_ok b3 \<and> content b3 = []"
proof -
  obtain b1 b2 where b: "Buffer_appendInt64 b x = Inr b1"
      "Buffer_retrieve b1 (length (content b)) = Inr b2" "buffer_ok b2"
      "content b2 = le_bytes 8 (unat (hostToNetwork64 x)) @ []"
    using bq.enqueue_dequeue [OF ok, of "le_bytes 8 (unat (hostToNetwork64 x))"]
    by (auto simp: Buffer_appendInt64_def)
  with Buffer_readInt64_spec [OF b(3,4)] show ?thesis by blast
qed

theorem Buffer_int64_roundtrip_witness:
  "\<exists>b1 b2 b3. Buffer_appendInt64 Buffer_init (- 2) = Inr b1 \<and>
     Buffer_retrieve b1 0 = Inr b2 \<and>
     Buffer_readInt64 b2 = Inr (- 2, b3) \<and> buffer_ok b3 \<and> content b3 = []"
  using Buffer_int64_roundtrip [OF Buffer_init_ok, of "- 2"] by simp

text \<open>
  \<open>peekInt32\<close> and \<open>peekInt16\<close> return the integer at the front of the content exactly when
  eight bytes of storage remain behind the reader index; otherwise their eight-byte \<open>memcpy\<close>
  reads past the end of the vector, although the assertion on the readable bytes holds.
\<close>

theorem Buffer_peekInt32_16_exact:
  assumes ok: "buffer_ok b"
  shows "(content b = le_bytes 4 (unat (hostToNetwork32 x)) @ rest \<longrightarrow>
           Buffer_peekInt32 b = (if b_readerIndex b + 8 \<le> length (b_buffer b)
                                 then Inr x else Inl OutOfRange)) \<and>
         (content b = le_bytes 2 (unat (hostToNetwork16 y)) @ rest \<longrightarrow>
           Buffer_peekInt16 b = (if b_readerIndex b + 8 \<le> length (b_buffer b)
                                 then Inr y else Inl OutOfRange))"
proof (intro conjI impI)
  assume c: "content b = le_bytes 4 (unat (hostToNetwork32 x)) @ rest"
  then have r: "4 \<le> Buffer_readableBytes b" using length_content [OF ok] by simp
  have "\<exists>v. Buffer_load b 8 = Inr v \<and> of_nat v = hostToNetwork32 x"
    if le: "b_readerIndex b + 8 \<le> length (b_buffer b)"
    using Buffer_load_integer [OF ok c _ _ le] unsigned_less [of "hostToNetwork32 x", where ?'a = nat]
    by (auto simp: word_unat_eq_iff unat_of_nat)
  with r show "Buffer_peekInt32 b = (if b_readerIndex b + 8 \<le> length (b_buffer b)
                                 then Inr x else Inl OutOfRange)"
    by (auto simp: Buffer_peekInt32_def Buffer_load_def Buffer_peek_def)
next
  assume c: "content b = le_bytes 2 (unat (hostToNetwork16 y)) @ rest"
  then have r: "2 \<le> Buffer_readableBytes b" using length_content [OF ok] by simp
  have "\<exists>v. Buffer_load b 8 = Inr v \<and> of_nat v = hostToNetwork16 y"
    if le: "b_readerIndex b + 8 \<le> length (b_buffer b)"
    using Buffer_load_integer [OF ok c _ _ le] unsigned_less [of "hostToNetwork16 y", where ?'a = nat]
    by (auto simp: word_unat_eq_iff unat_of_nat)
  with r show "Buffer_peekInt16 b = (if b_readerIndex b + 8 \<le> length (b_buffer b)
                                 then Inr y else Inl OutOfRange)"
    by (auto simp: Buffer_peekInt16_def Buffer_load_def Buffer_peek_def)
qed

theorem Buffer_peekInt32_16_exact_witness:
  "Buffer_peekInt32 \<lparr>b_buffer = replicate 8 (CHR 0x00) @ le_bytes 4 (unat (hostToNetwork32 7)),
                     b_readerIndex = 8, b_writerIndex = 12\<rparr> = Inl OutOfRange"
proof -
  let ?b = "\<lparr>b_buffer = replicate 8 (CHR 0x00) @ le_bytes 4 (unat (hostToNetwork32 7)),
             b_readerIndex = 8, b_writerIndex = 12\<rparr>"
  have ok: "buffer_ok ?b" by (simp add: buffer_ok_def kCheapPrepend_def)
  have "content ?b = le_bytes 4 (unat (hostToNetwork32 7)) @ []"
    by (simp add: content_def slice_def)
  with Buffer_peekInt32_16_exact [OF ok, of 7 "[]" 0] show ?thesis by simp
qed

text \<open>
  The out-of-range read of \<open>peekInt32\<close> happens on a buffer a program can build: append the
  1024 bytes that fit the initial storage, retrieve all but four, and peek.
\<close>

theorem Buffer_peekInt32_overread:
  "\<exists>b. foldR Buffer_step [OpAppend (replicate 1024 CHR ''x''), OpRetrieve 1020] Buffer_init = Inr b
     \<and> buffer_ok b \<and> Buffer_readableBytes b = 4 \<and> Buffer_peekInt32 b = Inl OutOfRange"
  by (simp add: Buffer_append_def Buffer_ensureWritableBytes_def Buffer_hasWritten_def
      Buffer_retrieve_def Buffer_peekInt32_def Buffer_load_def Buffer_init_def buffer_ok_def
      buffer_observers kCheapPrepend_def kInitialSize_def)

text \<open>
  \<open>prependInt32\<close> and \<open>prependInt16\<close> put eight bytes in front of the content: the integer in
  network byte order and then zero bytes (four, six), because the local variable whose bytes are
  prepended is an \<open>int64_t\<close>. A reader that removes the integer again is left with the padding.
\<close>

theorem Buffer_prependInt_padding:
  assumes ok: "buffer_ok b" and room: "8 \<le> Buffer_prependableBytes b"
  shows "\<exists>b1 b2. Buffer_prependInt32 b x = Inr b1 \<and>
           content b1 = rev (le_bytes 4 (unat x)) @ replicate 4 (CHR 0x00) @ content b \<and>
         Buffer_prependInt16 b y = Inr b2 \<and>
           content b2 = rev (le_bytes 2 (unat y)) @ replicate 6 (CHR 0x00) @ content b"
proof -
  have bytes: "le_bytes 8 (unat (hostToNetwork32 x)) = rev (le_bytes 4 (unat x)) @ replicate 4 (CHR 0x00)"
    "le_bytes 8 (unat (hostToNetwork16 y)) = rev (le_bytes 2 (unat y)) @ replicate 6 (CHR 0x00)"
    using le_bytes_zero_extend [of "unat (hostToNetwork32 x)" 4 4]
      le_bytes_zero_extend [of "unat (hostToNetwork16 y)" 2 6]
      unsigned_less [of "hostToNetwork32 x", where ?'a = nat]
      unsigned_less [of "hostToNetwork16 y", where ?'a = nat]
    by (simp_all add: le_bytes_hostToNetwork)
  have "length (le_bytes 8 v) \<le> Buffer_prependableBytes b" for v using room by simp
  from Buffer_prepend_spec [OF ok this] bytes show ?thesis
    by (metis Buffer_prependInt32_def Buffer_prependInt16_def append_assoc)
qed

theorem Buffer_prependInt_padding_witness:
  "\<exists>b1 b2. Buffer_prependInt32 Buffer_init 5 = Inr b1 \<and>
     content b1 = rev (le_bytes 4 (unat (5 :: 32 word))) @ replicate 4 (CHR 0x00) @ content Buffer_init \<and>
     Buffer_prependInt16 Buffer_init 6 = Inr b2 \<and>
     content b2 = rev (le_bytes 2 (unat (6 :: 16 word))) @ replicate 6 (CHR 0x00) @ content Buffer_init"
proof -
  have "8 \<le> Buffer_prependableBytes Buffer_init"
    by (simp add: Buffer_init_def buffer_observers kCheapPrepend_def)
  from Buffer_prependInt_padding [OF Buffer_init_ok this] show ?thesis .
qed

end
