(* ===== verification/Net_Channel.thy ===== *)
theory Net_Channel
  imports Base_Time
begin

unbundle bit_operations_syntax

text \<open>
  Channels and the poller: \<open>Channel.h\<close>, \<open>Channel.cc\<close>, \<open>Poller.h\<close>, \<open>Poller.cc\<close>,
  \<open>poller/EpollPoller.h\<close>, \<open>poller/EpollPoller.cc\<close> of \<open>ideal/net\<close>, and the channel part of
  \<open>EventLoop.cc\<close> (\<open>updateChannel\<close>, \<open>removeChannel\<close>, \<open>hasChannel\<close>).

  Channels are objects: they live in a store from addresses (\<open>cid\<close>) to records, since the poller
  keeps pointers to them and writes their label and returned events. The epoll instance of the
  kernel is its interest set, a map from descriptors to the registered events and pointer, with the
  documented errors of \<open>epoll_ctl\<close> (\<open>EEXIST\<close> for an addition of a known descriptor, \<open>ENOENT\<close> for a
  change of an unknown one). \<open>epoll_wait\<close> is a parameter.

  User callbacks may do anything to the store; a channel holds their names and \<open>call\<close> interprets them.
\<close>

type_synonym cid = nat
type_synonym events = "32 word"

definition POLLIN :: events where "POLLIN = 0x001"
definition POLLPRI :: events where "POLLPRI = 0x002"
definition POLLOUT :: events where "POLLOUT = 0x004"
definition POLLERR :: events where "POLLERR = 0x008"
definition POLLHUP :: events where "POLLHUP = 0x010"
definition POLLNVAL :: events where "POLLNVAL = 0x020"
definition POLLRDHUP :: events where "POLLRDHUP = 0x2000"

lemmas poll_bits = POLLIN_def POLLPRI_def POLLOUT_def POLLERR_def POLLHUP_def POLLNVAL_def POLLRDHUP_def

section \<open>State\<close>

record 'cb Channel =
  ch_loop :: nat
  ch_fd :: int
  ch_events :: events
  ch_revents :: events
  ch_label :: int
  ch_logHup :: bool
  ch_tie :: "nat option"
  ch_tied :: bool
  ch_eventHandling :: bool
  ch_addedToLoop :: bool
  ch_readCallback :: "'cb option"
  ch_writeCallback :: "'cb option"
  ch_closeCallback :: "'cb option"
  ch_errorCallback :: "'cb option"

text \<open>
  The loop as its channels see it: the store, \<open>EpollPoller\<close> (\<open>_channels\<close> and the size of \<open>_events\<close>),
  the kernel's interest set, the loop's identity and thread, the fields of \<open>EventLoop\<close> that
  \<open>removeChannel\<close> reads, and the objects that are alive (for \<open>tie\<close>).
\<close>

record 'cb poll_state =
  ps_store :: "cid \<rightharpoonup> 'cb Channel"
  ps_channels :: "int \<rightharpoonup> cid"
  ps_nevents :: nat
  ps_interest :: "int \<rightharpoonup> events \<times> cid"
  ps_loop :: nat
  ps_threadId :: int
  ps_eventHandling :: bool
  ps_activeChannels :: "cid list"
  ps_currentActiveChannel :: "cid option"
  ps_alive :: "nat set"

definition kNoneEvent :: events where "kNoneEvent = 0"
definition kReadEvent :: events where "kReadEvent = POLLIN OR POLLPRI"
definition kWriteEvent :: events where "kWriteEvent = POLLOUT"

definition kNew :: int where "kNew = -1"
definition kAdded :: int where "kAdded = 1"
definition kDeleted :: int where "kDeleted = 2"

definition kInitEventListSize :: nat where "kInitEventListSize = 16"

definition Channel_new :: "nat \<Rightarrow> int \<Rightarrow> 'cb Channel" where
  "Channel_new loop fd =
     \<lparr>ch_loop = loop, ch_fd = fd, ch_events = 0, ch_revents = 0, ch_label = -1, ch_logHup = True,
      ch_tie = None, ch_tied = False, ch_eventHandling = False, ch_addedToLoop = False,
      ch_readCallback = None, ch_writeCallback = None, ch_closeCallback = None,
      ch_errorCallback = None\<rparr>"

definition EpollPoller_new :: "nat \<Rightarrow> int \<Rightarrow> 'cb poll_state" where
  "EpollPoller_new loop tid =
     \<lparr>ps_store = Map.empty, ps_channels = Map.empty, ps_nevents = kInitEventListSize,
      ps_interest = Map.empty, ps_loop = loop, ps_threadId = tid, ps_eventHandling = False,
      ps_activeChannels = [], ps_currentActiveChannel = None, ps_alive = {}\<rparr>"

definition channel_at :: "cid \<Rightarrow> 'cb poll_state \<Rightarrow> 'cb Channel result" where
  "channel_at c s = (case ps_store s c of None \<Rightarrow> Inl UseAfterFree | Some ch \<Rightarrow> Inr ch)"

definition upd_channel ::
  "cid \<Rightarrow> ('cb Channel \<Rightarrow> 'cb Channel) \<Rightarrow> 'cb poll_state \<Rightarrow> 'cb poll_state result" where
  "upd_channel c f s = bindR (channel_at c s) (\<lambda>ch. Inr (s\<lparr>ps_store := (ps_store s)(c \<mapsto> f ch)\<rparr>))"

definition isNoneEvent :: "'cb Channel \<Rightarrow> bool" where
  "isNoneEvent ch \<longleftrightarrow> ch_events ch = kNoneEvent"

definition isWriting :: "'cb Channel \<Rightarrow> bool" where
  "isWriting ch \<longleftrightarrow> ch_events ch AND kWriteEvent \<noteq> 0"

definition isReading :: "'cb Channel \<Rightarrow> bool" where
  "isReading ch \<longleftrightarrow> ch_events ch AND kReadEvent \<noteq> 0"

section \<open>EpollPoller\<close>

datatype epoll_op = EPOLL_CTL_ADD | EPOLL_CTL_MOD | EPOLL_CTL_DEL

fun epoll_ctl :: "epoll_op \<Rightarrow> int \<Rightarrow> events \<times> cid \<Rightarrow> (int \<rightharpoonup> events \<times> cid) \<Rightarrow> (int \<rightharpoonup> events \<times> cid) option" where
  "epoll_ctl EPOLL_CTL_ADD fd ev k = (if fd \<in> dom k then None else Some (k(fd \<mapsto> ev)))"
| "epoll_ctl EPOLL_CTL_MOD fd ev k = (if fd \<in> dom k then Some (k(fd \<mapsto> ev)) else None)"
| "epoll_ctl EPOLL_CTL_DEL fd ev k = (if fd \<in> dom k then Some (k(fd := None)) else None)"

definition EpollPoller_update :: "epoll_op \<Rightarrow> cid \<Rightarrow> 'cb poll_state \<Rightarrow> 'cb poll_state result" where
  "EpollPoller_update operation channel s =
     bindR (channel_at channel s) (\<lambda>ch.
     case epoll_ctl operation (ch_fd ch) (ch_events ch, channel) (ps_interest s) of
       Some k \<Rightarrow> Inr (s\<lparr>ps_interest := k\<rparr>)
     | None \<Rightarrow> if operation = EPOLL_CTL_DEL then Inr s else Inl Fatal)"

definition setLabel :: "int \<Rightarrow> 'cb Channel \<Rightarrow> 'cb Channel" where
  "setLabel l ch = ch\<lparr>ch_label := l\<rparr>"

text \<open>\<open>tid\<close> is the calling thread; \<open>assertInLoopThread\<close> aborts when it is not the loop's.\<close>

definition assertInLoopThread :: "int \<Rightarrow> 'cb poll_state \<Rightarrow> unit result" where
  "assertInLoopThread tid s = guardR Fatal (ps_threadId s = tid)"

definition EpollPoller_updateChannel :: "int \<Rightarrow> cid \<Rightarrow> 'cb poll_state \<Rightarrow> 'cb poll_state result" where
  "EpollPoller_updateChannel tid channel s =
     bindR (assertInLoopThread tid s) (\<lambda>_.
     bindR (channel_at channel s) (\<lambda>ch.
     (let label = ch_label ch; fd = ch_fd ch
      in if label = kNew \<or> label = kDeleted
         then bindR (if label = kNew
                     then bindR (assertR (fd \<notin> dom (ps_channels s))) (\<lambda>_.
                          Inr (s\<lparr>ps_channels := (ps_channels s)(fd \<mapsto> channel)\<rparr>))
                     else bindR (assertR (fd \<in> dom (ps_channels s))) (\<lambda>_.
                          bindR (assertR (ps_channels s fd = Some channel)) (\<lambda>_. Inr s))) (\<lambda>s.
              bindR (upd_channel channel (setLabel kAdded) s) (\<lambda>s.
              EpollPoller_update EPOLL_CTL_ADD channel s))
         else bindR (assertR (fd \<in> dom (ps_channels s))) (\<lambda>_.
              bindR (assertR (ps_channels s fd = Some channel)) (\<lambda>_.
              bindR (assertR (label = kAdded)) (\<lambda>_.
              if isNoneEvent ch
              then bindR (EpollPoller_update EPOLL_CTL_DEL channel s) (\<lambda>s.
                   upd_channel channel (setLabel kDeleted) s)
              else EpollPoller_update EPOLL_CTL_MOD channel s))))))"

definition EpollPoller_removeChannel :: "int \<Rightarrow> cid \<Rightarrow> 'cb poll_state \<Rightarrow> 'cb poll_state result" where
  "EpollPoller_removeChannel tid channel s =
     bindR (assertInLoopThread tid s) (\<lambda>_.
     bindR (channel_at channel s) (\<lambda>ch.
     (let fd = ch_fd ch; label = ch_label ch
      in bindR (assertR (fd \<in> dom (ps_channels s))) (\<lambda>_.
         bindR (assertR (ps_channels s fd = Some channel)) (\<lambda>_.
         bindR (assertR (isNoneEvent ch)) (\<lambda>_.
         bindR (assertR (label = kAdded \<or> label = kDeleted)) (\<lambda>_.
         (let s = s\<lparr>ps_channels := (ps_channels s)(fd := None)\<rparr>
          in bindR (if label = kAdded then EpollPoller_update EPOLL_CTL_DEL channel s else Inr s) (\<lambda>s.
             upd_channel channel (setLabel kNew) s))))))))) "

definition Poller_hasChannel :: "int \<Rightarrow> cid \<Rightarrow> 'cb poll_state \<Rightarrow> bool result" where
  "Poller_hasChannel tid channel s =
     bindR (assertInLoopThread tid s) (\<lambda>_.
     bindR (channel_at channel s) (\<lambda>ch. Inr (ps_channels s (ch_fd ch) = Some channel)))"

definition set_revents :: "events \<Rightarrow> 'cb Channel \<Rightarrow> 'cb Channel" where
  "set_revents e ch = ch\<lparr>ch_revents := e\<rparr>"

fun fill_one :: "events \<times> cid \<Rightarrow> 'cb poll_state \<Rightarrow> 'cb poll_state result" where
  "fill_one (e, c) s =
     bindR (upd_channel c (set_revents e) s) (\<lambda>s.
     Inr (s\<lparr>ps_activeChannels := ps_activeChannels s @ [c]\<rparr>))"

definition EpollPoller_fillActiveChannels ::
  "(events \<times> cid) list \<Rightarrow> 'cb poll_state \<Rightarrow> 'cb poll_state result" where
  "EpollPoller_fillActiveChannels evs s =
     bindR (assertR (length evs \<le> ps_nevents s)) (\<lambda>_. foldR fill_one evs s)"

text \<open>
  \<open>epoll_wait\<close> returns an error number or the events it stored, at most as many as the array holds.
  The second component of the result of \<open>poll\<close> is what \<open>LOG_SYSERR\<close> reports, if it does.
\<close>

type_synonym epoll_wait_call = "(int \<rightharpoonup> events \<times> cid) \<Rightarrow> nat \<Rightarrow> int + (events \<times> cid) list"

definition EINTR :: int where "EINTR = 4"

definition EpollPoller_poll :: "epoll_wait_call \<Rightarrow> 'cb poll_state \<Rightarrow> (int option \<times> 'cb poll_state) result" where
  "EpollPoller_poll epoll_wait s =
     (case epoll_wait (ps_interest s) (ps_nevents s) of
        Inr evs \<Rightarrow>
          if evs \<noteq> []
          then bindR (EpollPoller_fillActiveChannels evs s) (\<lambda>s.
               Inr (None, if length evs = ps_nevents s then s\<lparr>ps_nevents := ps_nevents s * 2\<rparr> else s))
          else Inr (None, s)
      | Inl savedErrno \<Rightarrow> Inr (if savedErrno \<noteq> EINTR then Some savedErrno else None, s))"

section \<open>EventLoop: channels\<close>

definition EventLoop_updateChannel :: "int \<Rightarrow> cid \<Rightarrow> 'cb poll_state \<Rightarrow> 'cb poll_state result" where
  "EventLoop_updateChannel tid channel s =
     bindR (channel_at channel s) (\<lambda>ch.
     bindR (assertR (ch_loop ch = ps_loop s)) (\<lambda>_.
     bindR (assertInLoopThread tid s) (\<lambda>_.
     EpollPoller_updateChannel tid channel s)))"

definition EventLoop_removeChannel :: "int \<Rightarrow> cid \<Rightarrow> 'cb poll_state \<Rightarrow> 'cb poll_state result" where
  "EventLoop_removeChannel tid channel s =
     bindR (channel_at channel s) (\<lambda>ch.
     bindR (assertR (ch_loop ch = ps_loop s)) (\<lambda>_.
     bindR (assertInLoopThread tid s) (\<lambda>_.
     bindR (if ps_eventHandling s
            then assertR (ps_currentActiveChannel s = Some channel \<or>
                          channel \<notin> set (ps_activeChannels s))
            else Inr ()) (\<lambda>_.
     EpollPoller_removeChannel tid channel s))))"

definition EventLoop_hasChannel :: "int \<Rightarrow> cid \<Rightarrow> 'cb poll_state \<Rightarrow> bool result" where
  "EventLoop_hasChannel tid channel s =
     bindR (channel_at channel s) (\<lambda>ch.
     bindR (assertR (ch_loop ch = ps_loop s)) (\<lambda>_.
     bindR (assertInLoopThread tid s) (\<lambda>_. Poller_hasChannel tid channel s)))"

section \<open>Channel\<close>

definition Channel_update :: "int \<Rightarrow> cid \<Rightarrow> 'cb poll_state \<Rightarrow> 'cb poll_state result" where
  "Channel_update tid c s =
     bindR (upd_channel c (\<lambda>ch. ch\<lparr>ch_addedToLoop := True\<rparr>) s) (EventLoop_updateChannel tid c)"

definition set_events :: "(events \<Rightarrow> events) \<Rightarrow> int \<Rightarrow> cid \<Rightarrow> 'cb poll_state \<Rightarrow> 'cb poll_state result" where
  "set_events f tid c s =
     bindR (upd_channel c (\<lambda>ch. ch\<lparr>ch_events := f (ch_events ch)\<rparr>) s) (Channel_update tid c)"

definition enableReading :: "int \<Rightarrow> cid \<Rightarrow> 'cb poll_state \<Rightarrow> 'cb poll_state result" where
  "enableReading = set_events (\<lambda>e. e OR kReadEvent)"

definition disableReading :: "int \<Rightarrow> cid \<Rightarrow> 'cb poll_state \<Rightarrow> 'cb poll_state result" where
  "disableReading = set_events (\<lambda>e. e AND NOT kReadEvent)"

definition enableWriting :: "int \<Rightarrow> cid \<Rightarrow> 'cb poll_state \<Rightarrow> 'cb poll_state result" where
  "enableWriting = set_events (\<lambda>e. e OR kWriteEvent)"

definition disableWriting :: "int \<Rightarrow> cid \<Rightarrow> 'cb poll_state \<Rightarrow> 'cb poll_state result" where
  "disableWriting = set_events (\<lambda>e. e AND NOT kWriteEvent)"

definition disableAll :: "int \<Rightarrow> cid \<Rightarrow> 'cb poll_state \<Rightarrow> 'cb poll_state result" where
  "disableAll = set_events (\<lambda>_. kNoneEvent)"

definition Channel_remove :: "int \<Rightarrow> cid \<Rightarrow> 'cb poll_state \<Rightarrow> 'cb poll_state result" where
  "Channel_remove tid c s =
     bindR (channel_at c s) (\<lambda>ch.
     bindR (assertR (isNoneEvent ch)) (\<lambda>_.
     bindR (upd_channel c (\<lambda>ch. ch\<lparr>ch_addedToLoop := False\<rparr>) s) (EventLoop_removeChannel tid c)))"

definition Channel_tie :: "nat \<Rightarrow> cid \<Rightarrow> 'cb poll_state \<Rightarrow> 'cb poll_state result" where
  "Channel_tie obj c s = upd_channel c (\<lambda>ch. ch\<lparr>ch_tie := Some obj, ch_tied := True\<rparr>) s"

text \<open>The destructor: its assertions, then the object is gone.\<close>

definition Channel_destroy :: "int \<Rightarrow> cid \<Rightarrow> 'cb poll_state \<Rightarrow> 'cb poll_state result" where
  "Channel_destroy tid c s =
     bindR (channel_at c s) (\<lambda>ch.
     bindR (assertR (\<not> ch_eventHandling ch)) (\<lambda>_.
     bindR (assertR (\<not> ch_addedToLoop ch)) (\<lambda>_.
     bindR (if ps_threadId s = tid
            then bindR (EventLoop_hasChannel tid c s) (\<lambda>b. assertR (\<not> b))
            else Inr ()) (\<lambda>_.
     Inr (s\<lparr>ps_store := (ps_store s)(c := None)\<rparr>)))))"

text \<open>
  \<open>call cb receiveTime s\<close> runs a user callback. Conditions are read from the store again before
  each test, as the code reads its members.
\<close>

definition when_revents ::
  "('cb \<Rightarrow> Timestamp \<Rightarrow> 'cb poll_state \<Rightarrow> 'cb poll_state result) \<Rightarrow> Timestamp \<Rightarrow> cid \<Rightarrow>
   (events \<Rightarrow> bool) \<Rightarrow> ('cb Channel \<Rightarrow> 'cb option) \<Rightarrow> 'cb poll_state \<Rightarrow> 'cb poll_state result" where
  "when_revents call receiveTime c test callback s =
     bindR (channel_at c s) (\<lambda>ch.
     if test (ch_revents ch)
     then (case callback ch of Some cb \<Rightarrow> call cb receiveTime s | None \<Rightarrow> Inr s)
     else Inr s)"

definition handleEventWithGuard ::
  "('cb \<Rightarrow> Timestamp \<Rightarrow> 'cb poll_state \<Rightarrow> 'cb poll_state result) \<Rightarrow> Timestamp \<Rightarrow> cid \<Rightarrow>
   'cb poll_state \<Rightarrow> 'cb poll_state result" where
  "handleEventWithGuard call receiveTime c s =
     bindR (upd_channel c (\<lambda>ch. ch\<lparr>ch_eventHandling := True\<rparr>) s) (\<lambda>s.
     bindR (when_revents call receiveTime c
              (\<lambda>r. r AND POLLHUP \<noteq> 0 \<and> \<not> r AND POLLIN \<noteq> 0) ch_closeCallback s) (\<lambda>s.
     bindR (when_revents call receiveTime c
              (\<lambda>r. r AND (POLLERR OR POLLNVAL) \<noteq> 0) ch_errorCallback s) (\<lambda>s.
     bindR (when_revents call receiveTime c
              (\<lambda>r. r AND (POLLIN OR POLLPRI OR POLLRDHUP) \<noteq> 0) ch_readCallback s) (\<lambda>s.
     bindR (when_revents call receiveTime c
              (\<lambda>r. r AND POLLOUT \<noteq> 0) ch_writeCallback s) (\<lambda>s.
     upd_channel c (\<lambda>ch. ch\<lparr>ch_eventHandling := False\<rparr>) s)))))"

definition Channel_handleEvent ::
  "('cb \<Rightarrow> Timestamp \<Rightarrow> 'cb poll_state \<Rightarrow> 'cb poll_state result) \<Rightarrow> Timestamp \<Rightarrow> cid \<Rightarrow>
   'cb poll_state \<Rightarrow> 'cb poll_state result" where
  "Channel_handleEvent call receiveTime c s =
     bindR (channel_at c s) (\<lambda>ch.
     if ch_tied ch
     then (case ch_tie ch of
             Some obj \<Rightarrow> if obj \<in> ps_alive s then handleEventWithGuard call receiveTime c s else Inr s
           | None \<Rightarrow> Inr s)
     else handleEventWithGuard call receiveTime c s)"

definition eventsToString :: "string \<Rightarrow> events \<Rightarrow> string" where
  "eventsToString fd ev =
     fd @ '': '' @
     (if ev AND POLLIN \<noteq> 0 then ''IN '' else []) @
     (if ev AND POLLPRI \<noteq> 0 then ''PRI '' else []) @
     (if ev AND POLLOUT \<noteq> 0 then ''OUT '' else []) @
     (if ev AND POLLHUP \<noteq> 0 then ''HUP '' else []) @
     (if ev AND POLLRDHUP \<noteq> 0 then ''RDHUP '' else []) @
     (if ev AND POLLERR \<noteq> 0 then ''ERR '' else []) @
     (if ev AND POLLNVAL \<noteq> 0 then ''NVAL '' else [])"

section \<open>Invariant of the poller\<close>

text \<open>
  \<open>poller_ok\<close>: the registered channels are exactly the channels whose label is not \<open>kNew\<close>, under
  their descriptor, and the kernel watches exactly those labelled \<open>kAdded\<close>, for the events they ask for.
\<close>

definition kernel_view :: "'cb poll_state \<Rightarrow> int \<rightharpoonup> events \<times> cid" where
  "kernel_view s fd = (case ps_channels s fd of
     None \<Rightarrow> None
   | Some c \<Rightarrow> (case ps_store s c of
       None \<Rightarrow> None
     | Some ch \<Rightarrow> if ch_label ch = kAdded then Some (ch_events ch, c) else None))"

definition poller_ok :: "'cb poll_state \<Rightarrow> bool" where
  "poller_ok s \<longleftrightarrow>
     (\<forall>fd c. ps_channels s fd = Some c \<longrightarrow>
        (\<exists>ch. ps_store s c = Some ch \<and> ch_fd ch = fd \<and> ch_label ch \<noteq> kNew)) \<and>
     (\<forall>c ch. ps_store s c = Some ch \<longrightarrow> ch_label ch \<in> {kNew, kAdded, kDeleted} \<and>
        ch_loop ch = ps_loop s \<and>
        (ch_label ch \<noteq> kNew \<longrightarrow> ps_channels s (ch_fd ch) = Some c)) \<and>
     (\<forall>c d ch dh. ps_store s c = Some ch \<longrightarrow> ps_store s d = Some dh \<longrightarrow> ch_fd ch = ch_fd dh \<longrightarrow> c = d) \<and>
     ps_interest s = kernel_view s \<and> 0 < ps_nevents s"

definition watched :: "'cb poll_state \<Rightarrow> cid \<Rightarrow> events" where
  "watched s c = (case ps_store s c of
     None \<Rightarrow> 0
   | Some ch \<Rightarrow> (case ps_interest s (ch_fd ch) of Some (e, d) \<Rightarrow> if d = c then e else 0 | None \<Rightarrow> 0))"

definition events_of :: "'cb poll_state \<Rightarrow> cid \<Rightarrow> events" where
  "events_of s c = (case ps_store s c of None \<Rightarrow> 0 | Some ch \<Rightarrow> ch_events ch)"

definition registered :: "'cb poll_state \<Rightarrow> cid \<Rightarrow> bool" where
  "registered s c \<longleftrightarrow> (\<exists>ch. ps_store s c = Some ch \<and> ch_label ch \<noteq> kNew)"

definition relabel :: "int \<Rightarrow> events \<Rightarrow> bool \<Rightarrow> cid \<Rightarrow> 'cb poll_state \<Rightarrow> 'cb poll_state" where
  "relabel l e added c s = s\<lparr>ps_store := (ps_store s)(c :=
     map_option (\<lambda>ch. ch\<lparr>ch_label := l, ch_events := e, ch_addedToLoop := added\<rparr>) (ps_store s c))\<rparr>"

lemmas label_defs = kNew_def kAdded_def kDeleted_def

text \<open>
  Giving the channel \<open>c\<close> the label \<open>l\<close> and the events \<open>e\<close>, with the map of the poller and the
  interest set of the kernel as that label asks for, keeps the invariant.
\<close>

definition commit :: "int \<Rightarrow> events \<Rightarrow> bool \<Rightarrow> cid \<Rightarrow> int \<Rightarrow> 'cb poll_state \<Rightarrow> 'cb poll_state" where
  "commit l e added c fd s = (relabel l e added c s)\<lparr>
     ps_channels := (ps_channels s)(fd := if l = kNew then None else Some c),
     ps_interest := (ps_interest s)(fd := if l = kAdded then Some (e, c) else None)\<rparr>"

lemma ok_fd_inj:
  "poller_ok s \<Longrightarrow> ps_store s c = Some ch \<Longrightarrow> ps_store s d = Some dh \<Longrightarrow> ch_fd ch = ch_fd dh \<Longrightarrow> c = d"
  by (simp add: poller_ok_def)

lemma ok_registered:
  "poller_ok s \<Longrightarrow> ps_channels s fd = Some d \<Longrightarrow>
   \<exists>dh. ps_store s d = Some dh \<and> ch_fd dh = fd \<and> ch_label dh \<noteq> kNew"
  by (simp add: poller_ok_def)

lemma commit_ok:
  assumes ok: "poller_ok s" and c: "ps_store s c = Some ch" and l: "l \<in> {kNew, kAdded, kDeleted}"
  shows "poller_ok (commit l e added c (ch_fd ch) s)"
proof -
  let ?t = "commit l e added c (ch_fd ch) s"
  have uniq: "d = c" if "ps_store s d = Some dh" "ch_fd dh = ch_fd ch" for d dh
    using ok_fd_inj [OF ok] c that by metis
  have reg: "\<exists>dh. ps_store s d = Some dh \<and> ch_fd dh = fd \<and> ch_label dh \<noteq> kNew"
    if "ps_channels s fd = Some d" for fd d
    using ok_registered [OF ok that] .
  have "ps_interest ?t = kernel_view ?t"
  proof
    fix fd
    show "ps_interest ?t fd = kernel_view ?t fd"
    proof (cases "fd = ch_fd ch")
      case True
      then show ?thesis using c l by (auto simp: kernel_view_def commit_def relabel_def label_defs)
    next
      case False
      then have "ps_channels s fd = Some d \<Longrightarrow> d \<noteq> c" for d
        using reg [of fd d] c by auto
      moreover have "ps_interest s fd = kernel_view s fd" using ok by (simp add: poller_ok_def)
      ultimately show ?thesis
        using False by (auto simp: kernel_view_def commit_def relabel_def split: option.splits)
    qed
  qed
  moreover have "\<exists>dh. ps_store ?t d = Some dh \<and> ch_fd dh = fd \<and> ch_label dh \<noteq> kNew"
    if "ps_channels ?t fd = Some d" for fd d
    using that reg [of fd d] c l by (auto simp: commit_def relabel_def split: if_splits)
  moreover have "ch_label dh \<in> {kNew, kAdded, kDeleted} \<and> ch_loop dh = ps_loop ?t \<and>
      (ch_label dh \<noteq> kNew \<longrightarrow> ps_channels ?t (ch_fd dh) = Some d)" if "ps_store ?t d = Some dh" for d dh
  proof (cases "d = c")
    case True
    then show ?thesis using that ok c l by (auto simp: commit_def relabel_def poller_ok_def)
  next
    case False
    then have "ps_store s d = Some dh" using that by (simp add: commit_def relabel_def)
    then show ?thesis using False uniq [of d dh] ok by (auto simp: commit_def relabel_def poller_ok_def)
  qed
  moreover have "d = d'" if "ps_store ?t d = Some dh" "ps_store ?t d' = Some dh'" "ch_fd dh = ch_fd dh'" for d d' dh dh'
  proof -
    have "\<exists>x0. ps_store s y = Some x0 \<and> ch_fd x0 = ch_fd x" if "ps_store ?t y = Some x" for x y
      using that c by (auto simp: commit_def relabel_def split: if_splits)
    then show ?thesis using that ok_fd_inj [OF ok] by metis
  qed
  moreover have "0 < ps_nevents ?t"
    using ok by (simp add: poller_ok_def commit_def relabel_def)
  ultimately show ?thesis unfolding poller_ok_def by blast
qed

text \<open>The invariant depends only on descriptor, label, loop and events of the channels.\<close>

definition core :: "'cb Channel \<Rightarrow> int \<times> int \<times> nat \<times> events" where
  "core ch = (ch_fd ch, ch_label ch, ch_loop ch, ch_events ch)"

lemma ok_same:
  assumes ok: "poller_ok s" and eq: "ps_channels t = ps_channels s" "ps_interest t = ps_interest s"
    "ps_loop t = ps_loop s" "0 < ps_nevents t"
    "\<And>c. map_option core (ps_store t c) = map_option core (ps_store s c)"
  shows "poller_ok t"
proof -
  have old: "\<exists>ch0. ps_store s c = Some ch0 \<and> core ch0 = core ch" if "ps_store t c = Some ch" for c ch
    using eq(5) [of c] that by (cases "ps_store s c") auto
  have new: "\<exists>ch. ps_store t c = Some ch \<and> core ch = core ch0" if "ps_store s c = Some ch0" for c ch0
    using eq(5) [of c] that by (cases "ps_store t c") auto
  have "kernel_view t fd = kernel_view s fd" for fd
  proof (cases "ps_channels s fd")
    case (Some c)
    then obtain ch0 where "ps_store s c = Some ch0"
      using ok_registered [OF ok Some] by blast
    then show ?thesis using Some new [of c ch0] eq(1) by (auto simp: kernel_view_def core_def)
  qed (simp add: kernel_view_def eq(1))
  then have "ps_interest t = kernel_view t"
    using ok eq(2) by (simp add: poller_ok_def fun_eq_iff)
  moreover have "\<exists>dh. ps_store t d = Some dh \<and> ch_fd dh = fd \<and> ch_label dh \<noteq> kNew"
    if d: "ps_channels t fd = Some d" for fd d
  proof -
    obtain dh where "ps_store s d = Some dh" "ch_fd dh = fd" "ch_label dh \<noteq> kNew"
      using ok_registered [OF ok, of fd d] d eq(1) by auto
    then show ?thesis using new [of d dh] by (auto simp: core_def)
  qed
  moreover have "ch_label dh \<in> {kNew, kAdded, kDeleted} \<and> ch_loop dh = ps_loop t \<and>
      (ch_label dh \<noteq> kNew \<longrightarrow> ps_channels t (ch_fd dh) = Some d)" if d: "ps_store t d = Some dh" for d dh
  proof -
    obtain d0 where "ps_store s d = Some d0" "core d0 = core dh" using old [OF d] by blast
    moreover have "ch_label d0 \<in> {kNew, kAdded, kDeleted} \<and> ch_loop d0 = ps_loop s \<and>
        (ch_label d0 \<noteq> kNew \<longrightarrow> ps_channels s (ch_fd d0) = Some d)"
      using ok calculation(1) unfolding poller_ok_def by blast
    ultimately show ?thesis using eq(1,3) by (simp add: core_def)
  qed
  moreover have "d = d'" if "ps_store t d = Some dh" "ps_store t d' = Some dh'" "ch_fd dh = ch_fd dh'" for d d' dh dh'
    using ok_fd_inj [OF ok] old [OF that(1)] old [OF that(2)] that(3) unfolding core_def by auto
  ultimately show ?thesis using eq(4) unfolding poller_ok_def by blast
qed

lemma okD:
  assumes "poller_ok s" "ps_store s c = Some ch"
  shows "ch_label ch \<in> {kNew, kAdded, kDeleted}" "ch_loop ch = ps_loop s"
    "ps_channels s (ch_fd ch) = (if ch_label ch = kNew then None else Some c)"
    "ps_interest s (ch_fd ch) = (if ch_label ch = kAdded then Some (ch_events ch, c) else None)"
proof -
  show l: "ch_label ch \<in> {kNew, kAdded, kDeleted}" "ch_loop ch = ps_loop s"
    using assms by (auto simp: poller_ok_def)
  show reg: "ps_channels s (ch_fd ch) = (if ch_label ch = kNew then None else Some c)"
  proof (cases "ps_channels s (ch_fd ch)")
    case None
    then show ?thesis using assms unfolding poller_ok_def by force
  next
    case (Some d)
    then obtain dh where "ps_store s d = Some dh" "ch_fd dh = ch_fd ch" "ch_label dh \<noteq> kNew"
      using ok_registered [OF assms(1)] by blast
    then show ?thesis using Some assms(2) ok_fd_inj [OF assms(1), of c ch d dh] by auto
  qed
  have "ps_interest s = kernel_view s" using assms(1) by (simp add: poller_ok_def)
  then show "ps_interest s (ch_fd ch) = (if ch_label ch = kAdded then Some (ch_events ch, c) else None)"
    using reg l(1) assms(2) by (auto simp: kernel_view_def label_defs)
qed

lemma delete_ok:
  assumes ok: "poller_ok s" and c: "ps_store s c = Some ch" "ch_label ch = kNew"
  shows "poller_ok (s\<lparr>ps_store := (ps_store s)(c := None)\<rparr>)"
proof -
  let ?t = "s\<lparr>ps_store := (ps_store s)(c := None)\<rparr>"
  have free: "ps_channels s fd \<noteq> Some c" for fd
    using ok_registered [OF ok, of fd c] c by auto
  then have "kernel_view ?t = kernel_view s"
    by (auto simp: kernel_view_def fun_eq_iff split: option.splits)
  then have "ps_interest ?t = kernel_view ?t" "0 < ps_nevents ?t"
    using ok by (simp_all add: poller_ok_def)
  moreover have "\<exists>dh. ps_store ?t d = Some dh \<and> ch_fd dh = fd \<and> ch_label dh \<noteq> kNew"
    if "ps_channels ?t fd = Some d" for fd d
    using ok_registered [OF ok, of fd d] free [of fd] that by auto
  moreover have "ch_label dh \<in> {kNew, kAdded, kDeleted} \<and> ch_loop dh = ps_loop ?t \<and>
      (ch_label dh \<noteq> kNew \<longrightarrow> ps_channels ?t (ch_fd dh) = Some d)" if "ps_store ?t d = Some dh" for d dh
    using okD [OF ok, of d dh] that by (auto split: if_splits)
  moreover have "d = d'" if "ps_store ?t d = Some dh" "ps_store ?t d' = Some dh'" "ch_fd dh = ch_fd dh'" for d d' dh dh'
    using ok_fd_inj [OF ok, of d dh d' dh'] that by (auto split: if_splits)
  ultimately show ?thesis unfolding poller_ok_def by blast
qed

lemmas poller_ops = upd_channel_def channel_at_def setLabel_def EpollPoller_update_def
  EpollPoller_updateChannel_def EpollPoller_removeChannel_def assertInLoopThread_def Let_def

lemma state_eq:
  "s = t \<longleftrightarrow> ps_store s = ps_store t \<and> ps_channels s = ps_channels t \<and> ps_nevents s = ps_nevents t \<and>
     ps_interest s = ps_interest t \<and> ps_loop s = ps_loop t \<and> ps_threadId s = ps_threadId t \<and>
     ps_eventHandling s = ps_eventHandling t \<and> ps_activeChannels s = ps_activeChannels t \<and>
     ps_currentActiveChannel s = ps_currentActiveChannel t \<and> ps_alive s = ps_alive t"
  for s t :: "'cb poll_state"
  by (cases s; cases t) simp

lemma channel_upd_eq:
  "ch\<lparr>ch_events := e, ch_addedToLoop := b, ch_label := l\<rparr> = ch\<lparr>ch_label := l, ch_events := e, ch_addedToLoop := b\<rparr>"
  for ch :: "'cb Channel"
  by (cases ch) simp

text \<open>One call of \<open>enableReading\<close>, ..., \<open>disableAll\<close>: it succeeds, and its effect is a \<open>commit\<close>.\<close>

lemma set_events_commit:
  assumes ok: "poller_ok s" and c: "ps_store s c = Some ch" and tid: "ps_threadId s = tid"
  shows "set_events f tid c s =
    Inr (commit (if ch_label ch = kAdded \<and> f (ch_events ch) = kNoneEvent then kDeleted else kAdded)
           (f (ch_events ch)) True c (ch_fd ch) s)"
proof -
  note d = okD [OF ok c]
  note unf = set_events_def Channel_update_def EventLoop_updateChannel_def
    poller_ops commit_def relabel_def label_defs dom_def isNoneEvent_def fun_upd_idem state_eq
  consider "ch_label ch = kNew" | "ch_label ch = kDeleted" | "ch_label ch = kAdded"
    using d(1) by auto
  then show ?thesis
  proof cases
    case 1
    then show ?thesis using c tid d by (cases ch) (simp add: unf)
  next
    case 2
    then show ?thesis using c tid d by (cases ch) (simp add: unf)
  next
    case 3
    then show ?thesis using c tid d by (cases ch) (simp add: unf)
  qed
qed

text \<open>
  What the same calls do to the channel object itself; the components that own a channel use these,
  the poller's side being settled above.
\<close>

definition channel_set_events :: "(events \<Rightarrow> events) \<Rightarrow> 'cb Channel \<Rightarrow> 'cb Channel" where
  "channel_set_events f ch = ch\<lparr>
     ch_label := if ch_label ch = kAdded \<and> f (ch_events ch) = kNoneEvent then kDeleted else kAdded,
     ch_events := f (ch_events ch), ch_addedToLoop := True\<rparr>"

lemma set_events_channel:
  assumes "poller_ok s" "ps_store s c = Some ch" "ps_threadId s = tid"
  shows "\<exists>s'. set_events f tid c s = Inr s' \<and> ps_store s' c = Some (channel_set_events f ch)"
  using set_events_commit [OF assms] assms(2) by (simp add: commit_def relabel_def channel_set_events_def)

lemma remove_commit:
  assumes ok: "poller_ok s" and c: "ps_store s c = Some ch" and tid: "ps_threadId s = tid"
    and none: "ch_events ch = 0" and reg: "ch_label ch \<noteq> kNew"
    and act: "ps_eventHandling s \<longrightarrow> ps_currentActiveChannel s = Some c \<or> c \<notin> set (ps_activeChannels s)"
  shows "Channel_remove tid c s = Inr (commit kNew 0 False c (ch_fd ch) s)"
proof -
  note d = okD [OF ok c]
  note unf = Channel_remove_def EventLoop_removeChannel_def poller_ops commit_def relabel_def label_defs
    dom_def isNoneEvent_def kNoneEvent_def fun_upd_idem state_eq
  consider "ch_label ch = kAdded" | "ch_label ch = kDeleted" using d(1) reg by auto
  then show ?thesis
  proof cases
    case 1
    then show ?thesis using c tid d none act by (cases ch; cases "ps_eventHandling s"; simp add: unf)
  next
    case 2
    then show ?thesis using c tid d none act by (cases ch; cases "ps_eventHandling s"; simp add: unf)
  qed
qed

lemma commit_views:
  assumes ok: "poller_ok s" and c: "ps_store s c = Some ch"
  shows "watched (commit l e added c (ch_fd ch) s) = (watched s)(c := if l = kAdded then e else 0)"
    "events_of (commit l e added c (ch_fd ch) s) = (events_of s)(c := e)"
    "dom (ps_store (commit l e added c (ch_fd ch) s)) = dom (ps_store s)"
proof -
  show "watched (commit l e added c (ch_fd ch) s) = (watched s)(c := if l = kAdded then e else 0)"
  proof
    fix d
    show "watched (commit l e added c (ch_fd ch) s) d = ((watched s)(c := if l = kAdded then e else 0)) d"
    proof (cases "ps_store s d")
      case None
      then show ?thesis using c by (auto simp: watched_def commit_def relabel_def)
    next
      case (Some dh)
      then have "d \<noteq> c \<Longrightarrow> ch_fd dh \<noteq> ch_fd ch"
        using ok c unfolding poller_ok_def by metis
      then show ?thesis using c Some by (auto simp: watched_def commit_def relabel_def)
    qed
  qed
qed (use c in \<open>auto simp: events_of_def commit_def relabel_def\<close>)

lemma watched_eq:
  assumes "poller_ok s" "ps_store s c = Some ch"
  shows "watched s c = (if ch_label ch = kAdded then ch_events ch else 0)"
  using okD(4) [OF assms] assms(2) by (simp add: watched_def)

section \<open>The interface the loop's clients rely on\<close>

text \<open>
  A registry of interests: \<open>update\<close> changes the events a client waits for, \<open>asked\<close> is what it asked
  for and \<open>seen\<close> what the kernel reports on. The law is that the two never drift apart.
\<close>

locale interest_registry =
  fixes ok :: "'s \<Rightarrow> bool"
    and usable :: "'s \<Rightarrow> 'c \<Rightarrow> bool"
    and update :: "('e \<Rightarrow> 'e) \<Rightarrow> 'c \<Rightarrow> 's \<Rightarrow> 's result"
    and asked :: "'s \<Rightarrow> 'c \<Rightarrow> 'e"
    and seen :: "'s \<Rightarrow> 'c \<Rightarrow> 'e"
  assumes update_law: "ok s \<Longrightarrow> usable s c \<Longrightarrow>
      \<exists>s'. update f c s = Inr s' \<and> ok s' \<and> usable s' = usable s \<and>
           asked s' = (asked s)(c := f (asked s c)) \<and> seen s' = (seen s)(c := f (asked s c))"
begin

text \<open>Any sequence of updates of usable clients succeeds and leaves what is asked equal to what is seen.\<close>

lemma updates_mirror:
  "ok s \<Longrightarrow> \<forall>(c, f) \<in> set us. usable s c \<Longrightarrow>
   \<exists>s'. foldR (\<lambda>(c, f). update f c) us s = Inr s' \<and> ok s' \<and> usable s' = usable s \<and>
     asked s' = fold (\<lambda>(c, f) a. a(c := f (a c))) us (asked s) \<and>
     (\<forall>c. seen s c = asked s c \<or> c \<in> fst ` set us \<longrightarrow> seen s' c = asked s' c)"
proof (induction us arbitrary: s)
  case Nil
  then show ?case by simp
next
  case (Cons u us)
  obtain c f where u: "u = (c, f)" by force
  obtain t where t: "update f c s = Inr t" "ok t" "usable t = usable s"
      "asked t = (asked s)(c := f (asked s c))" "seen t = (seen s)(c := f (asked s c))"
    using update_law [OF Cons.prems(1), of c f] Cons.prems(2) u by auto
  have use: "\<forall>(c, f) \<in> set us. usable t c"
    using Cons.prems(2) t(3) by simp
  obtain s' where s': "foldR (\<lambda>(c, f). update f c) us t = Inr s'" "ok s'" "usable s' = usable t"
      "asked s' = fold (\<lambda>(c, f) a. a(c := f (a c))) us (asked t)"
      "\<forall>d. seen t d = asked t d \<or> d \<in> fst ` set us \<longrightarrow> seen s' d = asked s' d"
    using Cons.IH [OF t(2) use] by blast
  have "seen s' d = asked s' d" if "seen s d = asked s d \<or> d \<in> fst ` set (u # us)" for d
    using s'(5) t(4,5) that u by (cases "d = c") auto
  then have "\<forall>d. seen s d = asked s d \<or> d \<in> fst ` set (u # us) \<longrightarrow> seen s' d = asked s' d"
    by blast
  with s'(1-4) t(1,3,4) u show ?case by (intro exI [of _ s']) (simp del: fun_upd_apply)
qed

end

definition poll_usable :: "int \<Rightarrow> 'cb poll_state \<Rightarrow> cid \<Rightarrow> bool" where
  "poll_usable tid s c \<longleftrightarrow> c \<in> dom (ps_store s) \<and> ps_threadId s = tid"

interpretation epoll: interest_registry poller_ok "poll_usable tid" "\<lambda>f. set_events f tid" events_of watched
  for tid
proof
  fix s :: "'cb poll_state" and c f
  assume ok: "poller_ok s" and use: "poll_usable tid s c"
  then obtain ch where c: "ps_store s c = Some ch" and tid: "ps_threadId s = tid"
    by (auto simp: poll_usable_def)
  let ?l = "if ch_label ch = kAdded \<and> f (ch_events ch) = kNoneEvent then kDeleted else kAdded"
  let ?t = "commit ?l (f (ch_events ch)) True c (ch_fd ch) s"
  have "poller_ok ?t"
    using commit_ok [OF ok c] by simp
  moreover have "poll_usable tid ?t = poll_usable tid s"
    using commit_views(3) [OF ok c] by (auto simp: fun_eq_iff poll_usable_def commit_def relabel_def)
  moreover have "(if ?l = kAdded then f (ch_events ch) else 0) = f (ch_events ch)" "events_of s c = ch_events ch"
    using c by (simp_all add: events_of_def label_defs kNoneEvent_def)
  ultimately show "\<exists>s'. set_events f tid c s = Inr s' \<and> poller_ok s' \<and> poll_usable tid s' = poll_usable tid s \<and>
      events_of s' = (events_of s)(c := f (events_of s c)) \<and> watched s' = (watched s)(c := f (events_of s c))"
    using set_events_commit [OF ok c tid, of f] commit_views [OF ok c] by simp
qed

section \<open>Properties of channels and poller\<close>

datatype chan_op = EnableReading cid | DisableReading cid | EnableWriting cid | DisableWriting cid | DisableAll cid

fun chan_of :: "chan_op \<Rightarrow> cid" where
  "chan_of (EnableReading c) = c"
| "chan_of (DisableReading c) = c"
| "chan_of (EnableWriting c) = c"
| "chan_of (DisableWriting c) = c"
| "chan_of (DisableAll c) = c"

fun chan_run :: "int \<Rightarrow> chan_op \<Rightarrow> 'cb poll_state \<Rightarrow> 'cb poll_state result" where
  "chan_run tid (EnableReading c) = enableReading tid c"
| "chan_run tid (DisableReading c) = disableReading tid c"
| "chan_run tid (EnableWriting c) = enableWriting tid c"
| "chan_run tid (DisableWriting c) = disableWriting tid c"
| "chan_run tid (DisableAll c) = disableAll tid c"

fun chan_spec :: "chan_op \<Rightarrow> (cid \<Rightarrow> events) \<Rightarrow> cid \<Rightarrow> events" where
  "chan_spec (EnableReading c) a = a(c := a c OR (POLLIN OR POLLPRI))"
| "chan_spec (DisableReading c) a = a(c := a c AND NOT (POLLIN OR POLLPRI))"
| "chan_spec (EnableWriting c) a = a(c := a c OR POLLOUT)"
| "chan_spec (DisableWriting c) a = a(c := a c AND NOT POLLOUT)"
| "chan_spec (DisableAll c) a = a(c := 0)"

fun chan_mask :: "chan_op \<Rightarrow> events \<Rightarrow> events" where
  "chan_mask (EnableReading c) = (\<lambda>e. e OR kReadEvent)"
| "chan_mask (DisableReading c) = (\<lambda>e. e AND NOT kReadEvent)"
| "chan_mask (EnableWriting c) = (\<lambda>e. e OR kWriteEvent)"
| "chan_mask (DisableWriting c) = (\<lambda>e. e AND NOT kWriteEvent)"
| "chan_mask (DisableAll c) = (\<lambda>_. kNoneEvent)"

lemma chan_run_set_events: "chan_run tid op = set_events (chan_mask op) tid (chan_of op)"
  by (cases op) (simp_all add: enableReading_def disableReading_def enableWriting_def disableWriting_def disableAll_def)

lemma chan_spec_mask: "chan_spec op a = a(chan_of op := chan_mask op (a (chan_of op)))"
  by (cases op) (simp_all add: kReadEvent_def kWriteEvent_def kNoneEvent_def)

lemma foldR_map: "foldR f (map g xs) s = foldR (f \<circ> g) xs s"
  by (induction xs arbitrary: s) (auto intro!: bindR_cong)

text \<open>A loop with one channel, for the concrete runs: not registered, and waiting to read.\<close>

definition demo_channel :: "string Channel" where
  "demo_channel = (Channel_new 0 5)\<lparr>ch_readCallback := Some ''read'', ch_revents := POLLIN\<rparr>"

definition demo_ps :: "string poll_state" where
  "demo_ps = (EpollPoller_new 0 7)\<lparr>ps_store := [1 \<mapsto> demo_channel]\<rparr>"

definition demo_ps_reading :: "string poll_state" where
  "demo_ps_reading = commit kAdded 3 True 1 5 demo_ps"

lemma demo_ps_fields:
  "ps_store demo_ps 1 = Some demo_channel" "ps_threadId demo_ps = 7" "events_of demo_ps 1 = 0"
  "ps_eventHandling demo_ps = False" "ch_eventHandling demo_channel = False" "ch_fd demo_channel = 5"
  "ps_nevents demo_ps_reading = 16" "ps_interest demo_ps_reading = [5 \<mapsto> (3, 1)]"
  "ps_activeChannels demo_ps_reading = []"
  by (simp_all add: demo_ps_def demo_channel_def Channel_new_def EpollPoller_new_def events_of_def
      demo_ps_reading_def commit_def relabel_def kInitEventListSize_def)

lemma demo_ps_ok: "poller_ok demo_ps"
  by (auto simp: poller_ok_def demo_ps_def demo_channel_def Channel_new_def EpollPoller_new_def kNew_def
      kernel_view_def kInitEventListSize_def fun_eq_iff split: if_splits)

lemma demo_ps_reading_ok: "poller_ok demo_ps_reading"
  unfolding demo_ps_reading_def
  using commit_ok [OF demo_ps_ok demo_ps_fields(1), of kAdded 3 True] demo_ps_fields(6) by simp

text \<open>
  C18. The kernel watches what the channels ask for: any sequence of \<open>enableReading\<close>,
  \<open>disableReading\<close>, \<open>enableWriting\<close>, \<open>disableWriting\<close> and \<open>disableAll\<close> on channels of the loop, in the
  loop's thread, runs without a failing assertion or an error of \<open>epoll_ctl\<close>; afterwards every
  channel's events are as requested and the kernel reports on exactly these for every touched channel.
\<close>

theorem Channel_interest_mirrors:
  assumes "poller_ok s" "ps_threadId s = tid" "\<forall>op\<in>set ops. chan_of op \<in> dom (ps_store s)"
  shows "\<exists>s'. foldR (chan_run tid) ops s = Inr s' \<and> poller_ok s' \<and>
    events_of s' = fold chan_spec ops (events_of s) \<and>
    (\<forall>c. c \<in> chan_of ` set ops \<or> watched s c = events_of s c \<longrightarrow> watched s' c = events_of s' c)"
proof -
  let ?us = "map (\<lambda>op. (chan_of op, chan_mask op)) ops"
  have "\<forall>(c, f) \<in> set ?us. poll_usable tid s c"
    using assms by (auto simp: poll_usable_def)
  from epoll.updates_mirror [OF assms(1) this] obtain s' where s':
    "foldR (\<lambda>(c, f). set_events f tid c) ?us s = Inr s'" "poller_ok s'"
    "events_of s' = fold (\<lambda>(c, f) a. a(c := f (a c))) ?us (events_of s)"
    "\<forall>c. watched s c = events_of s c \<or> c \<in> fst ` set ?us \<longrightarrow> watched s' c = events_of s' c"
    by blast
  have "foldR (\<lambda>(c, f). set_events f tid c) ?us s = foldR (chan_run tid) ops s"
    unfolding foldR_map by (rule arg_cong [of _ _ "\<lambda>f. foldR f ops s"]) (simp add: fun_eq_iff chan_run_set_events)
  moreover have "fold (\<lambda>(c, f) a. a(c := f (a c))) ?us (events_of s) = fold chan_spec ops (events_of s)"
    unfolding fold_map by (rule fold_cong) (simp_all add: fun_eq_iff chan_spec_mask)
  ultimately show ?thesis using s' by (intro exI [of _ s']) (simp add: image_image)
qed

theorem Channel_interest_mirrors_witness:
  "\<exists>s'. foldR (chan_run 7) [EnableReading 1, EnableWriting 1, DisableReading 1] demo_ps = Inr s' \<and>
     poller_ok s' \<and> watched s' 1 = POLLOUT"
proof -
  have "1 \<in> dom (ps_store demo_ps)" using demo_ps_fields(1) by auto
  moreover have "fold chan_spec [EnableReading 1, EnableWriting 1, DisableReading 1] (events_of demo_ps) 1 = POLLOUT"
    by (simp add: demo_ps_fields(3) poll_bits del: One_nat_def)
  ultimately show ?thesis
    using Channel_interest_mirrors [OF demo_ps_ok demo_ps_fields(2),
        of "[EnableReading 1, EnableWriting 1, DisableReading 1]"] by fastforce
qed

text \<open>
  Tearing a channel down: for a registered channel that the running iteration has not still to
  handle, \<open>disableAll\<close>, \<open>remove\<close> and the destructor succeed; afterwards neither the poller nor the
  kernel knows the descriptor, so no event can reach the deleted channel, and every other channel
  is watched as before.
\<close>

theorem Channel_teardown:
  assumes ok: "poller_ok s" and c: "ps_store s c = Some ch" and tid: "ps_threadId s = tid"
    and act: "ps_eventHandling s \<longrightarrow> ps_currentActiveChannel s = Some c \<or> c \<notin> set (ps_activeChannels s)"
    and idle: "\<not> ch_eventHandling ch"
  shows "\<exists>s'. bindR (bindR (disableAll tid c s) (Channel_remove tid c)) (Channel_destroy tid c) = Inr s' \<and>
    poller_ok s' \<and> ps_store s' = (ps_store s)(c := None) \<and> ps_channels s' (ch_fd ch) = None \<and>
    ps_interest s' = (ps_interest s)(ch_fd ch := None)"
proof -
  let ?l = "if ch_label ch = kAdded then kDeleted else kAdded"
  let ?a = "commit ?l 0 True c (ch_fd ch) s"
  let ?ch = "ch\<lparr>ch_label := ?l, ch_events := 0, ch_addedToLoop := True\<rparr>"
  have a: "disableAll tid c s = Inr ?a" "poller_ok ?a" "ps_store ?a c = Some ?ch"
    using set_events_commit [OF ok c tid, of "\<lambda>_. kNoneEvent"] commit_ok [OF ok c] c
    by (simp_all add: disableAll_def kNoneEvent_def commit_def relabel_def)
  let ?b = "commit kNew 0 False c (ch_fd ch) ?a"
  have "ps_threadId ?a = tid" "ps_eventHandling ?a = ps_eventHandling s"
    "ps_currentActiveChannel ?a = ps_currentActiveChannel s" "ps_activeChannels ?a = ps_activeChannels s"
    using tid by (simp_all add: commit_def relabel_def)
  then have b: "Channel_remove tid c ?a = Inr ?b"
    using remove_commit [OF a(2,3)] act by (simp add: label_defs)
  have okb: "poller_ok ?b"
    using commit_ok [OF a(2,3), of kNew] by simp
  let ?d = "?b\<lparr>ps_store := (ps_store ?b)(c := None)\<rparr>"
  have stb: "ps_store ?b = (ps_store s)(c \<mapsto> ch\<lparr>ch_label := kNew, ch_events := 0, ch_addedToLoop := False\<rparr>)"
    "ps_channels ?b = (ps_channels s)(ch_fd ch := None)" "ps_interest ?b = (ps_interest s)(ch_fd ch := None)"
    "ps_threadId ?b = tid" "ps_loop ?b = ps_loop s"
    using c tid by (cases ch; simp add: commit_def relabel_def label_defs)+
  have d: "Channel_destroy tid c ?b = Inr ?d"
    using idle okD(2) [OF ok c]
    by (simp add: Channel_destroy_def channel_at_def stb EventLoop_hasChannel_def Poller_hasChannel_def
        assertInLoopThread_def)
  have "poller_ok ?d"
    by (rule delete_ok [OF okb, of _ "ch\<lparr>ch_label := kNew, ch_events := 0, ch_addedToLoop := False\<rparr>"])
      (use stb(1) in \<open>cases ch; simp\<close>)+
  with a b d stb show ?thesis by (intro exI [of _ ?d]) simp
qed

theorem Channel_teardown_witness:
  "\<exists>s'. bindR (bindR (disableAll 7 1 demo_ps) (Channel_remove 7 1)) (Channel_destroy 7 1) = Inr s' \<and>
     poller_ok s' \<and> ps_channels s' 5 = None"
  using Channel_teardown [OF demo_ps_ok demo_ps_fields(1,2)] demo_ps_fields(4-6) by auto

text \<open>
  What \<open>epoll_wait\<close> promises: at most as many events as asked for, each with the pointer registered
  for a descriptor of the interest set, at most one per descriptor, and, besides errors and hang-ups,
  only events that were registered.
\<close>

definition epoll_wait_contract :: "epoll_wait_call \<Rightarrow> bool" where
  "epoll_wait_contract epoll_wait \<longleftrightarrow>
     (\<forall>k n evs. epoll_wait k n = Inr evs \<longrightarrow>
        length evs \<le> n \<and> distinct (map snd evs) \<and>
        (\<forall>(e, c) \<in> set evs. \<exists>fd e0. k fd = Some (e0, c) \<and> e AND NOT (e0 OR POLLERR OR POLLHUP) = 0))"

definition revents_upd :: "(events \<times> cid) list \<Rightarrow> 'cb poll_state \<Rightarrow> cid \<rightharpoonup> 'cb Channel" where
  "revents_upd evs s c = (case map_of (map prod.swap evs) c of
     None \<Rightarrow> ps_store s c
   | Some e \<Rightarrow> map_option (set_revents e) (ps_store s c))"

lemma fill_fold:
  assumes "\<forall>(e, c) \<in> set evs. c \<in> dom (ps_store s)" "distinct (map snd evs)"
  shows "foldR fill_one evs s = Inr (s\<lparr>ps_store := revents_upd evs s,
    ps_activeChannels := ps_activeChannels s @ map snd evs\<rparr>)"
  using assms
proof (induction evs arbitrary: s)
  case Nil
  have "revents_upd [] s = ps_store s" by (simp add: fun_eq_iff revents_upd_def)
  then show ?case by simp
next
  case (Cons ev evs)
  obtain e c where ev: "ev = (e, c)" by force
  then obtain ch where c: "ps_store s c = Some ch" using Cons.prems(1) by auto
  let ?t = "s\<lparr>ps_store := (ps_store s)(c \<mapsto> set_revents e ch), ps_activeChannels := ps_activeChannels s @ [c]\<rparr>"
  have one: "fill_one ev s = Inr ?t"
    using c by (simp add: ev upd_channel_def channel_at_def)
  have "c \<notin> snd ` set evs" using Cons.prems(2) ev by simp
  then have "map_of (map prod.swap evs) c = None"
    by (auto simp: map_of_eq_None_iff image_iff)
  then have "revents_upd evs ?t = revents_upd (ev # evs) s"
    using c by (auto simp: fun_eq_iff revents_upd_def ev split: option.splits)
  moreover have "\<forall>(e, d) \<in> set evs. d \<in> dom (ps_store ?t)"
    using Cons.prems(1) by auto
  from Cons.IH [OF this] have "foldR fill_one evs ?t = Inr (?t\<lparr>ps_store := revents_upd evs ?t,
      ps_activeChannels := ps_activeChannels ?t @ map snd evs\<rparr>)"
    using Cons.prems(2) by simp
  ultimately show ?case using one by (simp add: ev del: fill_one.simps)
qed

lemma revents_upd_ok:
  assumes ok: "poller_ok s"
  shows "poller_ok (s\<lparr>ps_store := revents_upd evs s, ps_activeChannels := cs\<rparr>)"
proof (rule ok_same [OF ok])
  fix c
  show "map_option core (ps_store (s\<lparr>ps_store := revents_upd evs s, ps_activeChannels := cs\<rparr>) c) =
      map_option core (ps_store s c)"
    by (cases "ps_store s c") (auto simp: revents_upd_def set_revents_def core_def split: option.splits)
qed (use ok in \<open>simp_all add: poller_ok_def\<close>)

lemma interest_live:
  assumes ok: "poller_ok s" and k: "ps_interest s fd = Some (e0, c)"
  shows "\<exists>ch. ps_store s c = Some ch \<and> ch_label ch = kAdded \<and> ch_fd ch = fd \<and> ch_events ch = e0"
proof -
  have "kernel_view s fd = Some (e0, c)" using ok k by (simp add: poller_ok_def)
  then show ?thesis
    using ok_registered [OF ok, of fd c] by (auto simp: kernel_view_def split: option.splits if_splits)
qed

text \<open>
  \<open>poll\<close> reports only live, registered channels: whatever \<open>epoll_wait\<close> returns within its
  contract, \<open>poll\<close> does not fault, appends exactly the reported channels to the active list, each with
  the reported events in \<open>_revents\<close> (of the events it asked for, plus error and hang-up), keeps the
  invariant, and doubles the event array exactly when it was filled.
\<close>

theorem EpollPoller_poll_exact:
  assumes ok: "poller_ok s" and wait: "epoll_wait_contract epoll_wait"
    and evs: "epoll_wait (ps_interest s) (ps_nevents s) = Inr evs"
  shows "\<exists>s'. EpollPoller_poll epoll_wait s = Inr (None, s') \<and> poller_ok s' \<and>
    ps_activeChannels s' = ps_activeChannels s @ map snd evs \<and>
    (\<forall>(e, c) \<in> set evs. \<exists>ch. ps_store s' c = Some ch \<and> ch_label ch = kAdded \<and> ch_revents ch = e \<and>
       e AND NOT (ch_events ch OR POLLERR OR POLLHUP) = 0) \<and>
    ps_nevents s' = (if length evs = ps_nevents s then 2 * ps_nevents s else ps_nevents s)"
proof -
  have len: "length evs \<le> ps_nevents s" and dist: "distinct (map snd evs)"
    and src: "\<And>e c. (e, c) \<in> set evs \<Longrightarrow>
      \<exists>fd e0. ps_interest s fd = Some (e0, c) \<and> e AND NOT (e0 OR POLLERR OR POLLHUP) = 0"
    using wait evs unfolding epoll_wait_contract_def by blast+
  have live: "\<exists>ch. ps_store s c = Some ch \<and> ch_label ch = kAdded \<and> e AND NOT (ch_events ch OR POLLERR OR POLLHUP) = 0"
    if "(e, c) \<in> set evs" for e c
    using src [OF that] interest_live [OF ok] by blast
  let ?t = "s\<lparr>ps_store := revents_upd evs s, ps_activeChannels := ps_activeChannels s @ map snd evs\<rparr>"
  have fill: "EpollPoller_fillActiveChannels evs s = Inr ?t"
    using fill_fold [OF _ dist, of s] live len by (force simp: EpollPoller_fillActiveChannels_def)
  have okt: "poller_ok ?t" by (rule revents_upd_ok [OF ok])
  let ?u = "if length evs = ps_nevents s then ?t\<lparr>ps_nevents := ps_nevents s * 2\<rparr> else ?t"
  have run: "EpollPoller_poll epoll_wait s = Inr (None, if evs = [] then s else ?u)"
    using evs fill by (simp add: EpollPoller_poll_def)
  have "0 < ps_nevents s" using ok by (simp add: poller_ok_def)
  then have nil: "evs = [] \<Longrightarrow> s = ?u" by (simp add: state_eq fun_eq_iff revents_upd_def)
  have "poller_ok (?t\<lparr>ps_nevents := ps_nevents s * 2\<rparr>)"
    by (rule ok_same [OF okt]) (use \<open>0 < ps_nevents s\<close> in simp_all)
  then have "poller_ok ?u" using okt by simp
  moreover have "\<exists>ch. ps_store ?u c = Some ch \<and> ch_label ch = kAdded \<and> ch_revents ch = e \<and>
      e AND NOT (ch_events ch OR POLLERR OR POLLHUP) = 0" if "(e, c) \<in> set evs" for e c
  proof -
    have "distinct (map fst (map prod.swap evs))" using dist by (simp add: comp_def)
    moreover have "(c, e) \<in> set (map prod.swap evs)" using that by force
    ultimately have "map_of (map prod.swap evs) c = Some e" by (rule map_of_is_SomeI)
    then show ?thesis using live [OF that] by (auto simp: revents_upd_def set_revents_def)
  qed
  ultimately have "poller_ok ?u \<and> (\<forall>(e, c) \<in> set evs. \<exists>ch. ps_store ?u c = Some ch \<and> ch_label ch = kAdded \<and>
      ch_revents ch = e \<and> e AND NOT (ch_events ch OR POLLERR OR POLLHUP) = 0)" by blast
  moreover have "(if evs = [] then s else ?u) = ?u" using nil by metis
  ultimately show ?thesis
    using run by (intro exI [of _ ?u]) simp
qed

theorem EpollPoller_poll_exact_witness:
  "\<exists>s'. EpollPoller_poll (\<lambda>k n. Inr (case k 5 of Some ev \<Rightarrow> if 0 < n then [ev] else [] | None \<Rightarrow> []))
       demo_ps_reading = Inr (None, s') \<and> ps_activeChannels s' = [1] \<and> ps_nevents s' = 16"
proof -
  let ?w = "\<lambda>k n. Inr (case k 5 of Some ev \<Rightarrow> if 0 < n then [ev] else [] | None \<Rightarrow> []) :: int + (events \<times> cid) list"
  have "e AND NOT (e OR POLLERR OR POLLHUP) = 0" for e :: events
    by (rule bit_eqI) (simp add: bit_simps)
  then have "epoll_wait_contract ?w"
    by (fastforce simp: epoll_wait_contract_def split: option.splits if_splits)
  from EpollPoller_poll_exact [OF demo_ps_reading_ok this, of "[(3, 1)]"] show ?thesis
    by (auto simp: demo_ps_fields)
qed

text \<open>The callbacks a set of returned events asks for, in the order they are called.\<close>

definition due_callbacks :: "'cb Channel \<Rightarrow> 'cb list" where
  "due_callbacks ch =
     (let r = ch_revents ch; opt = (\<lambda>b x. if b then (case x of Some cb \<Rightarrow> [cb] | None \<Rightarrow> []) else [])
      in opt (r AND POLLHUP \<noteq> 0 \<and> r AND POLLIN = 0) (ch_closeCallback ch) @
         opt (r AND POLLERR \<noteq> 0 \<or> r AND POLLNVAL \<noteq> 0) (ch_errorCallback ch) @
         opt (r AND POLLIN \<noteq> 0 \<or> r AND POLLPRI \<noteq> 0 \<or> r AND POLLRDHUP \<noteq> 0) (ch_readCallback ch) @
         opt (r AND POLLOUT \<noteq> 0) (ch_writeCallback ch))"

definition mark_handling :: "bool \<Rightarrow> cid \<Rightarrow> 'cb poll_state \<Rightarrow> 'cb poll_state result" where
  "mark_handling b c s = upd_channel c (\<lambda>ch. ch\<lparr>ch_eventHandling := b\<rparr>) s"

text \<open>Callbacks that keep the channel alive, its returned events and its callbacks.\<close>

definition keeps_channel ::
  "('cb \<Rightarrow> Timestamp \<Rightarrow> 'cb poll_state \<Rightarrow> 'cb poll_state result) \<Rightarrow> cid \<Rightarrow> bool" where
  "keeps_channel call c \<longleftrightarrow> (\<forall>cb now s s' ch. call cb now s = Inr s' \<longrightarrow> ps_store s c = Some ch \<longrightarrow>
     (\<exists>ch'. ps_store s' c = Some ch' \<and> ch_revents ch' = ch_revents ch \<and>
        ch_closeCallback ch' = ch_closeCallback ch \<and> ch_errorCallback ch' = ch_errorCallback ch \<and>
        ch_readCallback ch' = ch_readCallback ch \<and> ch_writeCallback ch' = ch_writeCallback ch))"

definition same_calls :: "cid \<Rightarrow> 'cb Channel \<Rightarrow> 'cb poll_state \<Rightarrow> bool" where
  "same_calls c ch s \<longleftrightarrow> (\<exists>ch'. ps_store s c = Some ch' \<and> ch_revents ch' = ch_revents ch \<and>
     ch_closeCallback ch' = ch_closeCallback ch \<and> ch_errorCallback ch' = ch_errorCallback ch \<and>
     ch_readCallback ch' = ch_readCallback ch \<and> ch_writeCallback ch' = ch_writeCallback ch)"

lemma same_calls_call:
  "keeps_channel call c \<Longrightarrow> same_calls c ch s \<Longrightarrow> call cb now s = Inr s' \<Longrightarrow> same_calls c ch s'"
  unfolding same_calls_def keeps_channel_def by metis

lemma when_revents_fold:
  assumes keep: "keeps_channel call c" and same: "same_calls c ch s"
    and cb: "\<And>ch'. same_calls c ch' s \<Longrightarrow> ch_revents ch' = ch_revents ch \<and> callback ch' = callback ch"
  shows "when_revents call now c test callback s =
      foldR (\<lambda>cb. call cb now) (if test (ch_revents ch) then (case callback ch of Some cb \<Rightarrow> [cb] | None \<Rightarrow> []) else []) s"
proof -
  obtain ch' where ch': "ps_store s c = Some ch'" "ch_revents ch' = ch_revents ch" "callback ch' = callback ch"
    using same cb unfolding same_calls_def by metis
  then show ?thesis
    by (auto simp: when_revents_def channel_at_def bindR_def split: option.splits sum.splits)
qed

lemma bindR_foldR_append:
  assumes "\<And>t. foldR f xs s = Inr t \<Longrightarrow> g t = bindR (foldR f ys t) h"
  shows "bindR (foldR f xs s) g = bindR (foldR f (xs @ ys) s) h"
  using assms by (simp add: foldR_append bindR_assoc cong: bindR_cong)

lemma same_calls_fold:
  "keeps_channel call c \<Longrightarrow> same_calls c ch s \<Longrightarrow> foldR (\<lambda>cb. call cb now) cbs s = Inr t \<Longrightarrow> same_calls c ch t"
  by (induction cbs arbitrary: s) (auto dest: same_calls_call)

text \<open>
  Event dispatch: for a channel whose owner is alive or that is not tied, \<open>handleEvent\<close> calls
  exactly the callbacks its returned events ask for, once each, in the order close, error, read,
  write, between the two updates of \<open>_eventHandling\<close>; if the owner is gone it calls nothing.
\<close>

theorem Channel_dispatch:
  assumes c: "ps_store s c = Some ch" and keep: "keeps_channel call c"
  shows "Channel_handleEvent call now c s =
    (if ch_tied ch \<and> (\<forall>obj. ch_tie ch = Some obj \<longrightarrow> obj \<notin> ps_alive s) then Inr s
     else bindR (mark_handling True c s) (\<lambda>s1.
          bindR (foldR (\<lambda>cb. call cb now) (due_callbacks ch) s1) (mark_handling False c)))"
proof -
  have bits: "r AND (POLLERR OR POLLNVAL) \<noteq> 0 \<longleftrightarrow> r AND POLLERR \<noteq> 0 \<or> r AND POLLNVAL \<noteq> 0"
    "r AND (POLLIN OR POLLPRI OR POLLRDHUP) \<noteq> 0 \<longleftrightarrow>
       r AND POLLIN \<noteq> 0 \<or> r AND POLLPRI \<noteq> 0 \<or> r AND POLLRDHUP \<noteq> 0" for r :: events
    by (simp_all add: bit.conj_disj_distrib or_eq_0_iff)
  let ?f = "\<lambda>cb. call cb now"
  obtain s1 where s1: "mark_handling True c s = Inr s1" "same_calls c ch s1"
    using c by (auto simp: mark_handling_def upd_channel_def channel_at_def same_calls_def)
  have step: "when_revents call now c test callback t = foldR ?f (if test (ch_revents ch) then (case callback ch of Some cb \<Rightarrow> [cb] | None \<Rightarrow> []) else []) t"
    if "same_calls c ch t" "callback \<in> {ch_closeCallback, ch_errorCallback, ch_readCallback, ch_writeCallback}"
    for t test callback
    using that by (intro when_revents_fold [OF keep]) (auto simp: same_calls_def)
  let ?x = "\<lambda>test callback. if test (ch_revents ch) then (case callback ch of Some cb \<Rightarrow> [cb] | None \<Rightarrow> []) else []"
  have chain: "bindR (when_revents call now c test callback t) g = bindR (foldR ?f (?x test callback @ ys) t) h"
    if "same_calls c ch t" "callback \<in> {ch_closeCallback, ch_errorCallback, ch_readCallback, ch_writeCallback}"
      "\<And>u. same_calls c ch u \<Longrightarrow> g u = bindR (foldR ?f ys u) h" for t test callback g ys h
    unfolding step [OF that(1,2)]
    by (intro bindR_foldR_append that(3)) (rule same_calls_fold [OF keep that(1)])
  let ?h = "mark_handling False c"
  let ?w = "?x (\<lambda>r. r AND POLLOUT \<noteq> 0) ch_writeCallback"
  let ?r = "?x (\<lambda>r. r AND (POLLIN OR POLLPRI OR POLLRDHUP) \<noteq> 0) ch_readCallback"
  let ?e = "?x (\<lambda>r. r AND (POLLERR OR POLLNVAL) \<noteq> 0) ch_errorCallback"
  let ?cl = "?x (\<lambda>r. r AND POLLHUP \<noteq> 0 \<and> \<not> r AND POLLIN \<noteq> 0) ch_closeCallback"
  note pieces = handleEventWithGuard_def [of call now c s, folded mark_handling_def, unfolded s1(1) bindR_Inr]
  have w: "bindR (when_revents call now c (\<lambda>r. r AND POLLOUT \<noteq> 0) ch_writeCallback u) ?h =
      bindR (foldR ?f (?w @ []) u) ?h" if "same_calls c ch u" for u
    using that by (intro chain) simp_all
  note r = chain [of _ ch_readCallback, OF _ _ w, of _ "\<lambda>r. r AND (POLLIN OR POLLPRI OR POLLRDHUP) \<noteq> 0"]
  note e = chain [of _ ch_errorCallback, OF _ _ r, of _ "\<lambda>r. r AND (POLLERR OR POLLNVAL) \<noteq> 0"]
  note cl = chain [of _ ch_closeCallback, OF _ _ e, of _ "\<lambda>r. r AND POLLHUP \<noteq> 0 \<and> \<not> r AND POLLIN \<noteq> 0"]
  have "handleEventWithGuard call now c s = bindR (foldR ?f (?cl @ ?e @ ?r @ ?w @ []) s1) ?h"
    unfolding pieces by (rule cl) (simp_all add: s1(2))
  moreover have "?cl @ ?e @ ?r @ ?w @ [] = due_callbacks ch"
    by (simp add: due_callbacks_def Let_def bits)
  ultimately have "handleEventWithGuard call now c s = bindR (foldR ?f (due_callbacks ch) s1) ?h"
    by simp
  then have "handleEventWithGuard call now c s = bindR (mark_handling True c s) (\<lambda>s1.
      bindR (foldR ?f (due_callbacks ch) s1) (mark_handling False c))"
    using s1(1) by simp
  then show ?thesis
    using c by (auto simp: Channel_handleEvent_def channel_at_def split: option.splits)
qed

theorem Channel_dispatch_witness:
  "Channel_handleEvent (\<lambda>cb now s. Inr s) 9 1 demo_ps =
     bindR (mark_handling True 1 demo_ps) (\<lambda>s1.
     bindR (foldR (\<lambda>cb. Inr) [''read''] s1) (mark_handling False 1))"
proof -
  have "keeps_channel (\<lambda>cb now s. Inr s) 1" by (simp add: keeps_channel_def)
  moreover have "due_callbacks demo_channel = [''read'']" "\<not> ch_tied demo_channel"
    by (simp_all add: due_callbacks_def demo_channel_def Channel_new_def poll_bits)
  ultimately show ?thesis
    using Channel_dispatch [OF demo_ps_fields(1), of "\<lambda>cb now s. Inr s" 9] by simp
qed

end
