(* ===== verification/Net_TcpConnection.thy ===== *)
theory Net_TcpConnection
  imports Net_Buffer Net_Channel
begin

unbundle bit_operations_syntax

text \<open>
  Connections: \<open>TcpConnection.h\<close> and \<open>TcpConnection.cc\<close> of \<open>ideal/net\<close>.

  A connection is a record of its members; its channel is the record of the theory of channels, changed
  as \<open>enableReading\<close> etc. change it. The kernel is a parameter: \<open>write\<close> takes the bytes and returns an
  error number or how many it accepted, \<open>readv\<close> is that of the buffer. Calls of user callbacks,
  \<open>shutdown(2)\<close> and functors queued for callbacks are events of a trace.

  \<open>runInLoop\<close> of another thread queues a functor; the queued calls of \<open>sendInLoop\<close>, \<open>shutdownInLoop\<close> and
  \<open>forceCloseInLoop\<close> are fields. The ghost \<open>tc_accepted\<close> is the concatenation of the messages
  \<open>sendInLoop\<close> took responsibility for, \<open>tc_wire\<close> the bytes the kernel accepted.
\<close>

datatype ConnState = kDisconnected | kConnecting | kConnected | kDisconnecting

datatype conn_event =
    ConnectionUp           \<comment> \<open>\<open>_connectionCallback\<close>, connected\<close>
  | ConnectionDown         \<comment> \<open>\<open>_connectionCallback\<close>, disconnected\<close>
  | MessageCallback        \<comment> \<open>\<open>_messageCallback\<close> on the input buffer\<close>
  | CloseCallback          \<comment> \<open>\<open>_closeCallback\<close>\<close>
  | WriteCompleteQueued    \<comment> \<open>\<open>_writeCompleteCallback\<close> queued in the loop\<close>
  | HighWaterQueued nat    \<comment> \<open>\<open>_highWaterMarkCallback\<close> queued in the loop\<close>
  | ShutdownWrite          \<comment> \<open>\<open>shutdown(fd, SHUT_WR)\<close>\<close>
  | ErrorLogged            \<comment> \<open>\<open>LOG_ERROR\<close> or \<open>LOG_SYSERR\<close>\<close>

record TcpConnection =
  tc_threadId :: int
  tc_name :: string
  tc_state :: ConnState
  tc_reading :: bool
  tc_channel :: "unit Channel"
  tc_writeComplete :: bool
  tc_highWater :: bool
  tc_highWaterMark :: nat
  tc_inputBuffer :: Buffer
  tc_outputBuffer :: Buffer
  tc_sendQueue :: "char list list"
  tc_shutdowns :: nat
  tc_forceCloses :: nat
  tc_delayed :: nat
  tc_forced :: bool
  tc_shut :: bool
  tc_wire :: "char list"
  tc_accepted :: "char list"
  tc_trace :: "conn_event list"

type_synonym write_call = "char list \<Rightarrow> int + nat"

definition EWOULDBLOCK :: int where "EWOULDBLOCK = 11"
definition EPIPE :: int where "EPIPE = 32"
definition ECONNRESET :: int where "ECONNRESET = 104"

definition TcpConnection_new :: "int \<Rightarrow> string \<Rightarrow> nat \<Rightarrow> int \<Rightarrow> TcpConnection" where
  "TcpConnection_new tid name loop sockfd =
     \<lparr>tc_threadId = tid, tc_name = name, tc_state = kConnecting, tc_reading = True,
      tc_channel = (Channel_new loop sockfd)\<lparr>ch_readCallback := Some (), ch_writeCallback := Some (),
        ch_closeCallback := Some (), ch_errorCallback := Some ()\<rparr>,
      tc_writeComplete = False, tc_highWater = False, tc_highWaterMark = 64 * 1024 * 1024,
      tc_inputBuffer = Buffer_init, tc_outputBuffer = Buffer_init, tc_sendQueue = [], tc_shutdowns = 0,
      tc_forceCloses = 0, tc_delayed = 0, tc_forced = False, tc_shut = False, tc_wire = [],
      tc_accepted = [], tc_trace = []\<rparr>"

section \<open>Operations\<close>

definition tc_assertInLoopThread :: "int \<Rightarrow> TcpConnection \<Rightarrow> unit result" where
  "tc_assertInLoopThread tid c = guardR Fatal (tc_threadId c = tid)"

definition tc_emit :: "conn_event list \<Rightarrow> TcpConnection \<Rightarrow> TcpConnection" where
  "tc_emit es c = c\<lparr>tc_trace := tc_trace c @ es\<rparr>"

definition tc_events :: "(events \<Rightarrow> events) \<Rightarrow> TcpConnection \<Rightarrow> TcpConnection" where
  "tc_events f c = c\<lparr>tc_channel := channel_set_events f (tc_channel c)\<rparr>"

definition tc_isWriting :: "TcpConnection \<Rightarrow> bool" where
  "tc_isWriting c \<longleftrightarrow> isWriting (tc_channel c)"

definition tc_isReading :: "TcpConnection \<Rightarrow> bool" where
  "tc_isReading c \<longleftrightarrow> isReading (tc_channel c)"

text \<open>\<open>_channel->remove()\<close>: the assertions of channel and poller, then the channel is unknown to the loop.\<close>

definition tc_removeChannel :: "TcpConnection \<Rightarrow> TcpConnection result" where
  "tc_removeChannel c =
     bindR (assertR (isNoneEvent (tc_channel c))) (\<lambda>_.
     bindR (assertR (ch_label (tc_channel c) \<noteq> kNew)) (\<lambda>_.
     Inr (c\<lparr>tc_channel := (tc_channel c)\<lparr>ch_label := kNew, ch_addedToLoop := False\<rparr>\<rparr>)))"

definition TcpConnection_shutdownInLoop :: "int \<Rightarrow> TcpConnection \<Rightarrow> TcpConnection result" where
  "TcpConnection_shutdownInLoop tid c =
     bindR (tc_assertInLoopThread tid c) (\<lambda>_.
     Inr (if \<not> tc_isWriting c then tc_emit [ShutdownWrite] (c\<lparr>tc_shut := True\<rparr>) else c))"

definition TcpConnection_shutdown :: "int \<Rightarrow> TcpConnection \<Rightarrow> TcpConnection result" where
  "TcpConnection_shutdown tid c =
     (if tc_state c = kConnected
      then (let c = c\<lparr>tc_state := kDisconnecting\<rparr>
            in if tc_threadId c = tid then TcpConnection_shutdownInLoop tid c
               else Inr (c\<lparr>tc_shutdowns := tc_shutdowns c + 1\<rparr>))
      else Inr c)"

definition TcpConnection_handleClose :: "int \<Rightarrow> TcpConnection \<Rightarrow> TcpConnection result" where
  "TcpConnection_handleClose tid c =
     bindR (tc_assertInLoopThread tid c) (\<lambda>_.
     bindR (assertR (tc_state c = kConnected \<or> tc_state c = kDisconnecting)) (\<lambda>_.
     Inr (tc_emit [ConnectionDown, CloseCallback]
            (tc_events (\<lambda>_. kNoneEvent) (c\<lparr>tc_state := kDisconnected\<rparr>)))))"

definition TcpConnection_handleError :: "TcpConnection \<Rightarrow> TcpConnection" where
  "TcpConnection_handleError c = tc_emit [ErrorLogged] c"

definition TcpConnection_handleRead :: "readv_call \<Rightarrow> int \<Rightarrow> TcpConnection \<Rightarrow> TcpConnection result" where
  "TcpConnection_handleRead readv tid c =
     bindR (tc_assertInLoopThread tid c) (\<lambda>_.
     bindR (Buffer_readFd readv (tc_inputBuffer c)) (\<lambda>(r, b).
     (let c = c\<lparr>tc_inputBuffer := b\<rparr>
      in case r of
           Inr n \<Rightarrow> if n > 0 then Inr (tc_emit [MessageCallback] c) else TcpConnection_handleClose tid c
         | Inl savedErrno \<Rightarrow> Inr (TcpConnection_handleError (tc_emit [ErrorLogged] c)))))"

definition TcpConnection_handleWrite :: "write_call \<Rightarrow> int \<Rightarrow> TcpConnection \<Rightarrow> TcpConnection result" where
  "TcpConnection_handleWrite write tid c =
     bindR (tc_assertInLoopThread tid c) (\<lambda>_.
     if tc_isWriting c
     then (case write (content (tc_outputBuffer c)) of
             Inr n \<Rightarrow>
               if n > 0
               then (let sent = take n (content (tc_outputBuffer c))
                     in bindR (Buffer_retrieve (tc_outputBuffer c) n) (\<lambda>b.
                        (let c = c\<lparr>tc_outputBuffer := b, tc_wire := tc_wire c @ sent\<rparr>
                         in if Buffer_readableBytes (tc_outputBuffer c) = 0
                            then (let c = tc_events (\<lambda>e. e AND NOT kWriteEvent) c;
                                      c = (if tc_writeComplete c then tc_emit [WriteCompleteQueued] c else c)
                                  in if tc_state c = kDisconnecting
                                     then TcpConnection_shutdownInLoop tid c else Inr c)
                            else Inr c)))
               else Inr (tc_emit [ErrorLogged] c)
           | Inl e \<Rightarrow> Inr (tc_emit [ErrorLogged] c))
     else Inr c)"

text \<open>
  \<open>sendInLoop\<close>. The first part computes \<open>nwrote\<close> and \<open>faultError\<close> (\<open>remaining\<close> is always
  \<open>len - nwrote\<close>), the second puts the rest of the message into the output buffer.
\<close>

definition sendInLoop_try :: "write_call \<Rightarrow> char list \<Rightarrow> TcpConnection \<Rightarrow> nat \<times> bool \<times> TcpConnection" where
  "sendInLoop_try write message c =
     (if \<not> tc_isWriting c \<and> Buffer_readableBytes (tc_outputBuffer c) = 0
      then (case write message of
              Inr nwrote \<Rightarrow>
                (let c = c\<lparr>tc_wire := tc_wire c @ take nwrote message\<rparr>
                 in (nwrote, False,
                     if length message - nwrote = 0 \<and> tc_writeComplete c
                     then tc_emit [WriteCompleteQueued] c else c))
            | Inl errno \<Rightarrow>
                if errno \<noteq> EWOULDBLOCK
                then (0, errno = EPIPE \<or> errno = ECONNRESET, tc_emit [ErrorLogged] c)
                else (0, False, c))
      else (0, False, c))"

definition sendInLoop_queue :: "char list \<Rightarrow> TcpConnection \<Rightarrow> TcpConnection result" where
  "sendInLoop_queue rest c =
     (let remaining = length rest;
          oldlen = Buffer_readableBytes (tc_outputBuffer c);
          c = (if oldlen + remaining \<ge> tc_highWaterMark c \<and> oldlen < tc_highWaterMark c \<and> tc_highWater c
               then tc_emit [HighWaterQueued (oldlen + remaining)] c else c)
      in bindR (Buffer_append (tc_outputBuffer c) rest) (\<lambda>b.
         (let c = c\<lparr>tc_outputBuffer := b\<rparr>
          in Inr (if \<not> tc_isWriting c then tc_events (\<lambda>e. e OR kWriteEvent) c else c))))"

definition TcpConnection_sendInLoop :: "write_call \<Rightarrow> int \<Rightarrow> char list \<Rightarrow> TcpConnection \<Rightarrow> TcpConnection result" where
  "TcpConnection_sendInLoop write tid message c =
     bindR (tc_assertInLoopThread tid c) (\<lambda>_.
     if tc_state c = kDisconnected then Inr c
     else (let (nwrote, faultError, c) = sendInLoop_try write message c;
               remaining = length message - nwrote;
               c = (if faultError then c else c\<lparr>tc_accepted := tc_accepted c @ message\<rparr>)
           in bindR (assertR (remaining \<le> length message)) (\<lambda>_.
              if \<not> faultError \<and> remaining > 0 then sendInLoop_queue (drop nwrote message) c else Inr c)))"

definition TcpConnection_send :: "write_call \<Rightarrow> int \<Rightarrow> char list \<Rightarrow> TcpConnection \<Rightarrow> TcpConnection result" where
  "TcpConnection_send write tid message c =
     (if tc_state c = kConnected
      then if tc_threadId c = tid then TcpConnection_sendInLoop write tid message c
           else Inr (c\<lparr>tc_sendQueue := tc_sendQueue c @ [message]\<rparr>)
      else Inr c)"

definition TcpConnection_send_Buffer ::
  "write_call \<Rightarrow> int \<Rightarrow> Buffer \<Rightarrow> TcpConnection \<Rightarrow> (TcpConnection \<times> Buffer) result" where
  "TcpConnection_send_Buffer write tid message c =
     (if tc_state c = kConnected
      then if tc_threadId c = tid
           then bindR (TcpConnection_sendInLoop write tid (content message) c) (\<lambda>c.
                Inr (c, Buffer_retrieveAll message))
           else bindR (Buffer_retrieveAllAsString message) (\<lambda>(str, message).
                Inr (c\<lparr>tc_sendQueue := tc_sendQueue c @ [str]\<rparr>, message))
      else Inr (c, message))"

definition TcpConnection_startReadInLoop :: "int \<Rightarrow> TcpConnection \<Rightarrow> TcpConnection result" where
  "TcpConnection_startReadInLoop tid c =
     bindR (tc_assertInLoopThread tid c) (\<lambda>_.
     Inr (if \<not> tc_reading c \<or> \<not> tc_isReading c
          then (tc_events (\<lambda>e. e OR kReadEvent) c)\<lparr>tc_reading := True\<rparr> else c))"

definition TcpConnection_stopReadInLoop :: "int \<Rightarrow> TcpConnection \<Rightarrow> TcpConnection result" where
  "TcpConnection_stopReadInLoop tid c =
     bindR (tc_assertInLoopThread tid c) (\<lambda>_.
     Inr (if tc_reading c \<or> tc_isReading c
          then (tc_events (\<lambda>e. e AND NOT kReadEvent) c)\<lparr>tc_reading := False\<rparr> else c))"

definition TcpConnection_forceCloseInLoop :: "int \<Rightarrow> TcpConnection \<Rightarrow> TcpConnection result" where
  "TcpConnection_forceCloseInLoop tid c =
     bindR (tc_assertInLoopThread tid c) (\<lambda>_.
     if tc_state c = kConnected \<or> tc_state c = kDisconnecting then TcpConnection_handleClose tid c else Inr c)"

definition TcpConnection_forceClose :: "int \<Rightarrow> TcpConnection \<Rightarrow> TcpConnection result" where
  "TcpConnection_forceClose tid c =
     (if tc_state c = kConnected \<or> tc_state c = kDisconnecting
      then (let c = c\<lparr>tc_state := kDisconnecting, tc_forced := True\<rparr>
            in if tc_threadId c = tid then TcpConnection_forceCloseInLoop tid c
               else Inr (c\<lparr>tc_forceCloses := tc_forceCloses c + 1\<rparr>))
      else Inr c)"

definition TcpConnection_forceCloseWithDelay :: "TcpConnection \<Rightarrow> TcpConnection" where
  "TcpConnection_forceCloseWithDelay c =
     (if tc_state c = kConnected \<or> tc_state c = kDisconnecting
      then c\<lparr>tc_state := kDisconnecting, tc_forced := True, tc_delayed := tc_delayed c + 1\<rparr> else c)"

definition TcpConnection_connectEstablished :: "int \<Rightarrow> TcpConnection \<Rightarrow> TcpConnection result" where
  "TcpConnection_connectEstablished tid c =
     bindR (tc_assertInLoopThread tid c) (\<lambda>_.
     bindR (assertR (tc_state c = kConnecting)) (\<lambda>_.
     (let c = c\<lparr>tc_state := kConnected, tc_channel := (tc_channel c)\<lparr>ch_tie := Some 0, ch_tied := True\<rparr>\<rparr>
      in Inr (tc_emit [ConnectionUp] (tc_events (\<lambda>e. e OR kReadEvent) c)))))"

definition TcpConnection_connectDestroyed :: "int \<Rightarrow> TcpConnection \<Rightarrow> TcpConnection result" where
  "TcpConnection_connectDestroyed tid c =
     bindR (tc_assertInLoopThread tid c) (\<lambda>_.
     tc_removeChannel
       (if tc_state c = kConnected
        then tc_emit [ConnectionDown] (tc_events (\<lambda>_. kNoneEvent) (c\<lparr>tc_state := kDisconnected\<rparr>))
        else c))"

definition TcpConnection_stateToString :: "ConnState \<Rightarrow> string" where
  "TcpConnection_stateToString s = (case s of
     kDisconnected \<Rightarrow> ''kDisconnected'' | kConnecting \<Rightarrow> ''kConnecting''
   | kConnected \<Rightarrow> ''kConnected'' | kDisconnecting \<Rightarrow> ''kDisconnecting'')"

section \<open>Interleavings\<close>

text \<open>
  What \<open>write\<close> promises: it accepts at most what it was given, and after \<open>shutdown(SHUT_WR)\<close> it fails
  with \<open>EPIPE\<close>.
\<close>

definition write_ok :: "TcpConnection \<Rightarrow> write_call \<Rightarrow> bool" where
  "write_ok c write \<longleftrightarrow> (\<forall>d n. write d = Inr n \<longrightarrow> n \<le> length d) \<and> (tc_shut c \<longrightarrow> (\<forall>d. write d = Inl EPIPE))"

definition tc_open :: "TcpConnection \<Rightarrow> bool" where
  "tc_open c \<longleftrightarrow> tc_state c = kConnected \<or> tc_state c = kDisconnecting"

text \<open>
  The life of a connection: calls of the interface by any thread, queued functors, and the events of the
  channel, which arrive only while it waits for them. \<open>startRead\<close> and \<open>stopRead\<close> are called on open
  connections. A call that faults leads to no state.
\<close>

inductive cn_step :: "TcpConnection \<Rightarrow> TcpConnection \<Rightarrow> bool" where
  cn_established: "TcpConnection_connectEstablished (tc_threadId c) c = Inr c' \<Longrightarrow> cn_step c c'"
| cn_send: "write_ok c write \<Longrightarrow> TcpConnection_send write tid message c = Inr c' \<Longrightarrow> cn_step c c'"
| cn_run_send: "tc_sendQueue c = message # rest \<Longrightarrow> write_ok c write \<Longrightarrow>
     TcpConnection_sendInLoop write (tc_threadId c) message (c\<lparr>tc_sendQueue := rest\<rparr>) = Inr c' \<Longrightarrow> cn_step c c'"
| cn_write: "tc_isWriting c \<Longrightarrow> write_ok c write \<Longrightarrow>
     TcpConnection_handleWrite write (tc_threadId c) c = Inr c' \<Longrightarrow> cn_step c c'"
| cn_read: "tc_isReading c \<Longrightarrow> readv_contract readv \<Longrightarrow>
     TcpConnection_handleRead readv (tc_threadId c) c = Inr c' \<Longrightarrow> cn_step c c'"
| cn_close: "tc_open c \<Longrightarrow> TcpConnection_handleClose (tc_threadId c) c = Inr c' \<Longrightarrow> cn_step c c'"
| cn_error: "cn_step c (TcpConnection_handleError c)"
| cn_consume: "Buffer_retrieve (tc_inputBuffer c) n = Inr b \<Longrightarrow> cn_step c (c\<lparr>tc_inputBuffer := b\<rparr>)"
| cn_shutdown: "TcpConnection_shutdown tid c = Inr c' \<Longrightarrow> cn_step c c'"
| cn_run_shutdown: "0 < tc_shutdowns c \<Longrightarrow>
     TcpConnection_shutdownInLoop (tc_threadId c) (c\<lparr>tc_shutdowns := tc_shutdowns c - 1\<rparr>) = Inr c' \<Longrightarrow> cn_step c c'"
| cn_force: "TcpConnection_forceClose tid c = Inr c' \<Longrightarrow> cn_step c c'"
| cn_run_force: "0 < tc_forceCloses c \<Longrightarrow>
     TcpConnection_forceCloseInLoop (tc_threadId c) (c\<lparr>tc_forceCloses := tc_forceCloses c - 1\<rparr>) = Inr c' \<Longrightarrow> cn_step c c'"
| cn_delay: "cn_step c (TcpConnection_forceCloseWithDelay c)"
| cn_delayed: "0 < tc_delayed c \<Longrightarrow>
     TcpConnection_forceClose (tc_threadId c) (c\<lparr>tc_delayed := tc_delayed c - 1\<rparr>) = Inr c' \<Longrightarrow> cn_step c c'"
| cn_startRead: "tc_open c \<Longrightarrow> TcpConnection_startReadInLoop (tc_threadId c) c = Inr c' \<Longrightarrow> cn_step c c'"
| cn_stopRead: "tc_open c \<Longrightarrow> TcpConnection_stopReadInLoop (tc_threadId c) c = Inr c' \<Longrightarrow> cn_step c c'"
| cn_destroyed: "tc_state c \<in> {kConnected, kDisconnected} \<Longrightarrow>
     TcpConnection_connectDestroyed (tc_threadId c) c = Inr c' \<Longrightarrow> cn_step c c'"
| cn_setWriteComplete: "cn_step c (c\<lparr>tc_writeComplete := wc\<rparr>)"
| cn_setHighWater: "cn_step c (c\<lparr>tc_highWater := True, tc_highWaterMark := m\<rparr>)"

inductive cn_reachable :: "TcpConnection \<Rightarrow> bool" where
  cn_new: "cn_reachable (TcpConnection_new tid name loop sockfd)"
| cn_next: "cn_reachable c \<Longrightarrow> cn_step c c' \<Longrightarrow> cn_reachable c'"

section \<open>Event masks\<close>

lemma mask_defs: "kWriteEvent = 4" "kReadEvent = 3" "kNoneEvent = 0"
  by (simp_all add: kWriteEvent_def kReadEvent_def kNoneEvent_def poll_bits)

lemma isWriting_bit: "isWriting ch \<longleftrightarrow> bit (ch_events ch) 2"
proof -
  have "bit (ch_events ch) 2 \<longleftrightarrow> ch_events ch AND push_bit 2 1 \<noteq> 0"
    by (rule bit_iff_and_push_bit_not_eq_0)
  then show ?thesis by (simp add: isWriting_def mask_defs)
qed

lemma writing_masks [simp]:
  "bit ((e :: events) OR kWriteEvent) 2" "\<not> bit (e AND NOT kWriteEvent) 2" "\<not> bit kNoneEvent 2"
  "bit (e OR kReadEvent) 2 = bit e 2" "bit (e AND NOT kReadEvent) 2 = bit e 2"
  by (simp_all add: mask_defs bit_simps)

section \<open>Invariant\<close>

definition tc_count :: "conn_event \<Rightarrow> TcpConnection \<Rightarrow> nat" where
  "tc_count e c = length (filter ((=) e) (tc_trace c))"

definition open_ok :: "TcpConnection \<Rightarrow> bool" where
  "open_ok c \<longleftrightarrow>
     (bit (ch_events (tc_channel c)) 2 \<longleftrightarrow> content (tc_outputBuffer c) \<noteq> []) \<and>
     ch_label (tc_channel c) \<noteq> kNew \<and>
     tc_count ConnectionUp c = 1 \<and> tc_count ConnectionDown c = 0 \<and> tc_count CloseCallback c = 0"

definition state_ok :: "TcpConnection \<Rightarrow> bool" where
  "state_ok c = (case tc_state c of
     kConnecting \<Rightarrow> content (tc_outputBuffer c) = [] \<and> ch_events (tc_channel c) = 0 \<and>
        tc_sendQueue c = [] \<and> \<not> tc_shut c \<and> tc_shutdowns c = 0 \<and> tc_forceCloses c = 0 \<and> tc_delayed c = 0 \<and>
        tc_count ConnectionUp c = 0 \<and> tc_count ConnectionDown c = 0 \<and> tc_count CloseCallback c = 0
   | kConnected \<Rightarrow> open_ok c \<and> \<not> tc_shut c \<and> tc_shutdowns c = 0
   | kDisconnecting \<Rightarrow> open_ok c \<and> (tc_shut c \<longrightarrow> content (tc_outputBuffer c) = []) \<and>
        (tc_shutdowns c = 0 \<and> \<not> tc_forced c \<longrightarrow> tc_shut c \<or> content (tc_outputBuffer c) \<noteq> [])
   | kDisconnected \<Rightarrow> ch_events (tc_channel c) = 0 \<and>
        tc_count ConnectionUp c = 1 \<and> tc_count ConnectionDown c = 1 \<and> tc_count CloseCallback c \<le> 1)"

definition tc_inv :: "TcpConnection \<Rightarrow> bool" where
  "tc_inv c \<longleftrightarrow> buffer_ok (tc_inputBuffer c) \<and> buffer_ok (tc_outputBuffer c) \<and>
     tc_wire c @ content (tc_outputBuffer c) = tc_accepted c \<and> state_ok c"

lemmas tc_ops = tc_emit_def tc_events_def channel_set_events_def tc_assertInLoopThread_def
  tc_isWriting_def tc_isReading_def isWriting_bit tc_open_def label_defs
lemmas inv_unf = tc_inv_def state_ok_def open_ok_def tc_count_def

lemma readable_content: "buffer_ok b \<Longrightarrow> Buffer_readableBytes b = 0 \<longleftrightarrow> content b = []"
  using length_content [of b] by (metis length_0_conv)

lemma shutdownInLoop_inv:
  assumes "tc_inv c" "tc_state c \<noteq> kConnected" "tc_state c \<noteq> kConnecting"
  shows "\<exists>c'. TcpConnection_shutdownInLoop (tc_threadId c) c = Inr c' \<and> tc_inv c'"
  using assms by (cases "tc_state c") (auto simp: TcpConnection_shutdownInLoop_def tc_ops inv_unf)

lemma handleClose_inv:
  assumes "tc_inv c" "tc_open c"
  shows "\<exists>c'. TcpConnection_handleClose (tc_threadId c) c = Inr c' \<and> tc_inv c'"
  using assms by (cases "tc_state c") (simp_all add: TcpConnection_handleClose_def tc_ops inv_unf mask_defs)

lemma shutdown_inv:
  assumes "tc_inv c"
  shows "\<exists>c'. TcpConnection_shutdown tid c = Inr c' \<and> tc_inv c'"
  using assms by (cases "tc_state c"; cases "tc_threadId c = tid")
    (auto simp: TcpConnection_shutdown_def TcpConnection_shutdownInLoop_def tc_ops inv_unf Let_def)

lemma forceClose_inv:
  assumes "tc_inv c"
  shows "\<exists>c'. TcpConnection_forceClose tid c = Inr c' \<and> tc_inv c'"
  using assms by (cases "tc_state c"; cases "tc_threadId c = tid")
    (auto simp: TcpConnection_forceClose_def TcpConnection_forceCloseInLoop_def TcpConnection_handleClose_def
      tc_ops inv_unf mask_defs Let_def)

lemma inv_cong:
  assumes inv: "tc_inv c" and ok: "buffer_ok (tc_inputBuffer c')"
    and eq: "tc_outputBuffer c' = tc_outputBuffer c" "tc_wire c' = tc_wire c" "tc_accepted c' = tc_accepted c"
      "tc_channel c' = tc_channel c" "tc_state c' = tc_state c" "tc_shut c' = tc_shut c"
      "tc_shutdowns c' = tc_shutdowns c" "tc_forced c' = tc_forced c"
      "\<And>e. e \<in> {ConnectionUp, ConnectionDown, CloseCallback} \<Longrightarrow> tc_count e c' = tc_count e c"
    and fresh: "tc_state c = kConnecting \<Longrightarrow>
      tc_sendQueue c' = [] \<and> tc_forceCloses c' = 0 \<and> tc_delayed c' = 0"
  shows "tc_inv c'"
proof -
  have counts: "tc_count ConnectionUp c' = tc_count ConnectionUp c" "tc_count ConnectionDown c' = tc_count ConnectionDown c"
    "tc_count CloseCallback c' = tc_count CloseCallback c"
    using eq(9) by auto
  then have "open_ok c' = open_ok c" by (simp add: open_ok_def eq)
  with counts inv ok fresh show ?thesis
    by (cases "tc_state c") (auto simp: tc_inv_def state_ok_def eq)
qed

lemma emit_inv:
  "tc_inv c \<Longrightarrow> e \<notin> {ConnectionUp, ConnectionDown, CloseCallback} \<Longrightarrow> tc_inv (tc_emit [e] c)"
  by (rule inv_cong [of c]) (auto simp: tc_emit_def tc_count_def tc_inv_def state_ok_def)

lemma inputBuffer_inv: "tc_inv c \<Longrightarrow> buffer_ok b \<Longrightarrow> tc_inv (c\<lparr>tc_inputBuffer := b\<rparr>)"
  by (rule inv_cong [of c]) (simp_all add: tc_count_def tc_inv_def state_ok_def)

lemma handleRead_inv:
  assumes inv: "tc_inv c" and "tc_open c" "readv_contract readv"
  shows "\<exists>c'. TcpConnection_handleRead readv (tc_threadId c) c = Inr c' \<and> tc_inv c'"
proof -
  have "buffer_ok (tc_inputBuffer c)" using inv by (simp add: tc_inv_def)
  then obtain r b where r: "Buffer_readFd readv (tc_inputBuffer c) = Inr (r, b)" "buffer_ok b"
    using Buffer_readFd_spec [OF assms(3)] by blast
  let ?c = "c\<lparr>tc_inputBuffer := b\<rparr>"
  have inv': "tc_inv ?c" "tc_open ?c"
    using inputBuffer_inv [OF inv r(2)] assms(2) by (auto simp: tc_open_def)
  have ev: "tc_inv (tc_emit [MessageCallback] ?c)" "tc_inv (TcpConnection_handleError (tc_emit [ErrorLogged] ?c))"
    unfolding TcpConnection_handleError_def by (intro emit_inv inv'; simp)+
  show ?thesis
  proof (cases r)
    case (Inl e)
    then show ?thesis using r ev by (simp add: TcpConnection_handleRead_def tc_assertInLoopThread_def)
  next
    case (Inr n)
    then show ?thesis
      using r ev handleClose_inv [OF inv'] by (cases "n > 0") (simp_all add: TcpConnection_handleRead_def tc_assertInLoopThread_def)
  qed
qed

lemma handleWrite_inv:
  assumes inv: "tc_inv c" and op: "tc_open c" and w: "write_ok c write"
  shows "\<exists>c'. TcpConnection_handleWrite write (tc_threadId c) c = Inr c' \<and> tc_inv c'"
proof -
  let ?out = "content (tc_outputBuffer c)"
  have err: "tc_inv (tc_emit [ErrorLogged] c)"
    using emit_inv [OF inv] by simp
  show ?thesis
  proof (cases "tc_isWriting c \<and> (\<exists>n. n > 0 \<and> write ?out = Inr n)")
    case False
    then have "TcpConnection_handleWrite write (tc_threadId c) c = Inr (if tc_isWriting c then tc_emit [ErrorLogged] c else c)"
      by (cases "write ?out") (auto simp: TcpConnection_handleWrite_def tc_assertInLoopThread_def)
    then show ?thesis using inv err by simp
  next
    case True
    then obtain n where n: "tc_isWriting c" "write ?out = Inr n" "0 < n" by blast
    then have le: "n \<le> length ?out" and notshut: "\<not> tc_shut c"
      using w by (auto simp: write_ok_def)
    have ok: "buffer_ok (tc_outputBuffer c)" using inv by (simp add: tc_inv_def)
    obtain b where b: "Buffer_retrieve (tc_outputBuffer c) n = Inr b" "buffer_ok b" "content b = drop n ?out"
      using bq.dequeue_law [OF ok le] by blast
    let ?c1 = "c\<lparr>tc_outputBuffer := b, tc_wire := tc_wire c @ take n ?out\<rparr>"
    have stream: "tc_wire ?c1 @ content b = tc_accepted c"
      using inv b(3) by (simp add: tc_inv_def)
    have wr: "bit (ch_events (tc_channel c)) 2" using n(1) by (simp add: tc_ops)
    show ?thesis
    proof (cases "content b = []")
      case False
      then have "tc_inv ?c1"
        using inv b(2) stream wr notshut op by (cases "tc_state c") (simp_all add: inv_unf tc_open_def)
      then show ?thesis
        using n b False readable_content [OF b(2)]
        by (simp add: TcpConnection_handleWrite_def tc_assertInLoopThread_def)
    next
      case True
      let ?c2 = "tc_events (\<lambda>e. e AND NOT kWriteEvent) ?c1"
      let ?c3 = "if tc_writeComplete ?c2 then tc_emit [WriteCompleteQueued] ?c2 else ?c2"
      let ?c4 = "if tc_state ?c3 = kDisconnecting then tc_emit [ShutdownWrite] (?c3\<lparr>tc_shut := True\<rparr>) else ?c3"
      have "tc_inv ?c4"
        using inv b(2) stream notshut op True
        by (cases "tc_state c"; cases "tc_writeComplete c") (simp_all add: inv_unf tc_ops)
      moreover have "TcpConnection_handleWrite write (tc_threadId c) c = Inr ?c4"
        using n b True readable_content [OF b(2)]
        by (simp add: TcpConnection_handleWrite_def TcpConnection_shutdownInLoop_def tc_ops Let_def)
      ultimately show ?thesis by blast
    qed
  qed
qed

lemma queue_inv:
  assumes inv: "tc_inv (c\<lparr>tc_accepted := a\<rparr>)" and acc: "tc_accepted c = a @ rest" and op: "tc_open c"
    and rest: "rest \<noteq> []" and shut: "\<not> tc_shut c"
  shows "\<exists>c'. sendInLoop_queue rest c = Inr c' \<and> tc_inv c'"
proof -
  let ?out = "content (tc_outputBuffer c)"
  have ok: "buffer_ok (tc_outputBuffer c)" using inv by (simp add: tc_inv_def)
  obtain b where b: "Buffer_append (tc_outputBuffer c) rest = Inr b" "buffer_ok b" "content b = ?out @ rest"
    using bq.enqueue_law [OF ok] by blast
  let ?d = "if Buffer_readableBytes (tc_outputBuffer c) + length rest \<ge> tc_highWaterMark c \<and>
      Buffer_readableBytes (tc_outputBuffer c) < tc_highWaterMark c \<and> tc_highWater c
    then tc_emit [HighWaterQueued (Buffer_readableBytes (tc_outputBuffer c) + length rest)] c else c"
  let ?e = "?d\<lparr>tc_outputBuffer := b\<rparr>"
  let ?f = "if \<not> tc_isWriting ?e then tc_events (\<lambda>e. e OR kWriteEvent) ?e else ?e"
  have inv': "tc_inv (?d\<lparr>tc_accepted := a\<rparr>)"
    by (rule inv_cong [OF inv]) (use inv in \<open>auto simp: tc_emit_def tc_count_def tc_inv_def state_ok_def\<close>)
  have d: "tc_accepted ?d = a @ rest" "tc_open ?d" "\<not> tc_shut ?d" "tc_outputBuffer ?d = tc_outputBuffer c"
    using acc op shut by (simp_all add: tc_emit_def tc_open_def)
  have "tc_inv ?f"
    using inv' d b(2,3) rest
    by (cases "tc_state ?d"; cases "bit (ch_events (tc_channel ?d)) 2"; simp del: if_split add: inv_unf tc_ops)
  moreover have "sendInLoop_queue rest c = Inr ?f"
    using b(1) by (simp add: sendInLoop_queue_def Let_def tc_emit_def)
  ultimately show ?thesis by blast
qed

lemma sendInLoop_inv:
  assumes inv: "tc_inv c" and st: "tc_state c \<noteq> kConnecting" and w: "write_ok c write"
  shows "\<exists>c'. TcpConnection_sendInLoop write (tc_threadId c) message c = Inr c' \<and> tc_inv c'"
proof (cases "tc_state c = kDisconnected")
  case True
  then show ?thesis using inv by (simp add: TcpConnection_sendInLoop_def tc_assertInLoopThread_def)
next
  case False
  with st have op: "tc_open c" by (cases "tc_state c") (auto simp: tc_open_def)
  let ?out = "content (tc_outputBuffer c)" and ?send = "TcpConnection_sendInLoop write (tc_threadId c) message c"
  have ok: "buffer_ok (tc_outputBuffer c)" using inv by (simp add: tc_inv_def)
  have busy: "tc_isWriting c \<longleftrightarrow> ?out \<noteq> []"
    using inv op by (auto simp: tc_inv_def state_ok_def open_ok_def tc_ops)
  note unf = TcpConnection_sendInLoop_def sendInLoop_try_def tc_assertInLoopThread_def readable_content [OF ok] False
  have finish: "\<exists>c'. (if rest = [] then Inr d else sendInLoop_queue rest d) = Inr c' \<and> tc_inv c'"
    if "tc_inv (d\<lparr>tc_accepted := a\<rparr>)" "tc_accepted d = a @ rest" "tc_open d" "\<not> tc_shut d" for d a rest
  proof (cases "rest = []")
    case True
    then have "d\<lparr>tc_accepted := a\<rparr> = d" using that(2) by (cases d) simp
    then show ?thesis using that(1) True by simp
  next
    case False
    then show ?thesis using queue_inv [OF that(1-3) False that(4)] by simp
  qed
  show ?thesis
  proof (cases "?out = []")
    case False
    have "?send = (if message = [] then Inr (c\<lparr>tc_accepted := tc_accepted c @ message\<rparr>)
        else sendInLoop_queue message (c\<lparr>tc_accepted := tc_accepted c @ message\<rparr>))"
      using busy False by (simp add: unf)
    moreover have "\<not> tc_shut c" using inv op False by (auto simp: tc_inv_def state_ok_def tc_open_def)
    ultimately show ?thesis
      using finish [where d = "c\<lparr>tc_accepted := tc_accepted c @ message\<rparr>" and a = "tc_accepted c" and rest = message] inv op
      by (simp add: tc_open_def)
  next
    case idle: True
    have stream: "tc_wire c = tc_accepted c" using inv idle by (simp add: tc_inv_def)
    show ?thesis
    proof (cases "write message")
      case (Inl e)
      let ?d = "if e \<noteq> EWOULDBLOCK then tc_emit [ErrorLogged] c else c"
      let ?fault = "e \<noteq> EWOULDBLOCK \<and> (e = EPIPE \<or> e = ECONNRESET)"
      have d: "tc_inv ?d" "tc_accepted ?d = tc_accepted c" "tc_open ?d" "tc_shut ?d = tc_shut c"
        using inv op emit_inv [OF inv, of ErrorLogged] by (auto simp: tc_emit_def tc_open_def)
      show ?thesis
      proof (cases ?fault)
        case True
        then have "?send = Inr ?d" using Inl busy idle by (simp add: unf)
        then show ?thesis using d by simp
      next
        case nofault: False
        let ?f = "?d\<lparr>tc_accepted := tc_accepted c @ message\<rparr>"
        have "?send = (if message = [] then Inr ?f else sendInLoop_queue message ?f)"
          using Inl busy idle nofault by (auto simp: unf tc_emit_def)
        moreover have "\<not> tc_shut c"
          using w Inl nofault by (auto simp: write_ok_def EPIPE_def EWOULDBLOCK_def)
        moreover have "tc_inv (?f\<lparr>tc_accepted := tc_accepted c\<rparr>)"
          by (rule inv_cong [OF d(1)]) (use d in \<open>auto simp: tc_count_def tc_inv_def state_ok_def\<close>)
        ultimately show ?thesis
          using finish [where d = ?f and a = "tc_accepted c" and rest = message] d by (simp add: tc_open_def)
      qed
    next
      case (Inr n)
      then have n: "n \<le> length message" and shut: "\<not> tc_shut c"
        using w by (auto simp: write_ok_def)
      let ?a = "tc_accepted c @ take n message"
      let ?d = "c\<lparr>tc_wire := tc_wire c @ take n message\<rparr>"
      let ?e = "if length message - n = 0 \<and> tc_writeComplete ?d then tc_emit [WriteCompleteQueued] ?d else ?d"
      let ?f = "?e\<lparr>tc_accepted := tc_accepted c @ message\<rparr>"
      have "?send = (if drop n message = [] then Inr ?f else sendInLoop_queue (drop n message) ?f)"
        using Inr busy idle n by (auto simp: unf Let_def tc_emit_def)
      moreover have "tc_inv (?d\<lparr>tc_accepted := ?a\<rparr>)"
        using inv stream idle by (cases "tc_state c") (auto simp: inv_unf)
      then have "tc_inv (?f\<lparr>tc_accepted := ?a\<rparr>)"
        by (rule inv_cong) (use inv in \<open>auto simp: tc_emit_def tc_count_def tc_inv_def state_ok_def\<close>)
      ultimately show ?thesis
        using finish [where d = ?f and a = ?a and rest = "drop n message"] op shut by (simp add: tc_emit_def tc_open_def)
    qed
  qed
qed

lemma established_inv:
  assumes "tc_inv c" "TcpConnection_connectEstablished (tc_threadId c) c = Inr c'"
  shows "tc_inv c'"
  using assms by (cases "tc_state c") (auto simp: TcpConnection_connectEstablished_def tc_ops inv_unf mask_defs bit_simps)

lemma destroyed_inv:
  assumes "tc_inv c" "tc_state c = kConnected \<or> tc_state c = kDisconnected \<and> ch_label (tc_channel c) \<noteq> kNew"
  shows "\<exists>c'. TcpConnection_connectDestroyed (tc_threadId c) c = Inr c' \<and> tc_inv c' \<and> tc_state c' = kDisconnected"
  using assms by (cases "tc_state c")
    (auto simp: TcpConnection_connectDestroyed_def tc_removeChannel_def isNoneEvent_def tc_ops inv_unf mask_defs)

lemma reading_open: "tc_inv c \<Longrightarrow> tc_isReading c \<Longrightarrow> tc_open c"
  by (cases "tc_state c") (auto simp: tc_inv_def state_ok_def tc_isReading_def isReading_def tc_open_def)

lemma writing_open: "tc_inv c \<Longrightarrow> tc_isWriting c \<Longrightarrow> tc_open c"
  by (cases "tc_state c") (auto simp: tc_inv_def state_ok_def tc_ops)

lemma send_inv:
  assumes inv: "tc_inv c" and w: "write_ok c write"
  shows "\<exists>c'. TcpConnection_send write tid message c = Inr c' \<and> tc_inv c'"
proof -
  have "tc_state c = kConnected \<Longrightarrow> tc_inv (c\<lparr>tc_sendQueue := q\<rparr>)" for q
    using inv by (auto simp: inv_unf)
  then show ?thesis
    using sendInLoop_inv [OF inv _ w, of message] inv by (auto simp: TcpConnection_send_def)
qed

lemma read_toggle_inv:
  assumes "tc_inv c" "tc_open c"
  shows "\<exists>c'. TcpConnection_startReadInLoop (tc_threadId c) c = Inr c' \<and> tc_inv c'"
    and "\<exists>c'. TcpConnection_stopReadInLoop (tc_threadId c) c = Inr c' \<and> tc_inv c'"
  using assms by (cases "tc_state c"; auto simp: TcpConnection_startReadInLoop_def TcpConnection_stopReadInLoop_def
      tc_ops inv_unf)+

lemma delay_inv: "tc_inv c \<Longrightarrow> tc_inv (TcpConnection_forceCloseWithDelay c)"
  by (cases "tc_state c") (auto simp: TcpConnection_forceCloseWithDelay_def inv_unf)

lemma counters_inv:
  assumes "tc_inv c"
  shows "tc_sendQueue c = q # qs \<Longrightarrow> tc_inv (c\<lparr>tc_sendQueue := qs\<rparr>) \<and> tc_state c \<noteq> kConnecting"
    "0 < tc_delayed c \<Longrightarrow> tc_inv (c\<lparr>tc_delayed := n\<rparr>)"
    "0 < tc_forceCloses c \<Longrightarrow> tc_inv (c\<lparr>tc_forceCloses := n\<rparr>) \<and> tc_state c \<noteq> kConnecting"
  using assms by (cases "tc_state c"; auto simp: inv_unf)+

lemma run_shutdown_inv:
  assumes "tc_inv c" "0 < tc_shutdowns c"
  shows "\<exists>c'. TcpConnection_shutdownInLoop (tc_threadId c) (c\<lparr>tc_shutdowns := tc_shutdowns c - 1\<rparr>) = Inr c' \<and> tc_inv c'"
  using assms by (cases "tc_state c") (auto simp: TcpConnection_shutdownInLoop_def tc_ops inv_unf)

lemma run_force_inv:
  assumes inv: "tc_inv c" and pos: "0 < tc_forceCloses c"
  shows "\<exists>c'. TcpConnection_forceCloseInLoop (tc_threadId c) (c\<lparr>tc_forceCloses := n\<rparr>) = Inr c' \<and> tc_inv c'"
proof -
  let ?c = "c\<lparr>tc_forceCloses := n\<rparr>"
  have "tc_inv ?c" using counters_inv(3) [OF inv pos] by simp
  then show ?thesis
    using handleClose_inv [of ?c] by (auto simp: TcpConnection_forceCloseInLoop_def tc_assertInLoopThread_def tc_open_def)
qed

lemma cn_step_inv:
  assumes "cn_step c c'" "tc_inv c"
  shows "tc_inv c'"
  using assms
proof (induction rule: cn_step.induct)
  case (cn_run_send c message rest w c')
  have "write_ok (c\<lparr>tc_sendQueue := rest\<rparr>) w" using cn_run_send(2) by (simp add: write_ok_def)
  then show ?case
    using sendInLoop_inv [of "c\<lparr>tc_sendQueue := rest\<rparr>" w message] counters_inv(1) [OF cn_run_send(4,1)]
      cn_run_send(3) by auto
next
  case (cn_delayed c c')
  then show ?case
    using forceClose_inv [OF counters_inv(2) [OF cn_delayed(3,1), of "tc_delayed c - 1"], of "tc_threadId c"] by auto
next
  case (cn_consume c n b)
  then show ?case
    using Buffer_retrieve_spec [of "tc_inputBuffer c" n] Buffer_retrieve_fault [of "tc_inputBuffer c" n]
    by (intro inputBuffer_inv) (auto simp: tc_inv_def not_le [symmetric])
next
  case (cn_destroyed c c')
  then have "ch_label (tc_channel c) \<noteq> kNew \<or> tc_state c = kConnected"
    by (auto simp: TcpConnection_connectDestroyed_def tc_removeChannel_def)
  then show ?case using destroyed_inv [OF cn_destroyed(3)] cn_destroyed(1,2) by auto
next
  case (cn_error c)
  then show ?case by (simp add: TcpConnection_handleError_def emit_inv)
next
  case (cn_setWriteComplete c wc)
  then show ?case by (intro inv_cong [OF cn_setWriteComplete]) (auto simp: tc_count_def tc_inv_def state_ok_def)
next
  case (cn_setHighWater c m)
  then show ?case by (intro inv_cong [OF cn_setHighWater]) (auto simp: tc_count_def tc_inv_def state_ok_def)
next
  case (cn_established c c')
  then show ?case by (blast intro: established_inv)
next
  case (cn_send c w tid message c')
  then show ?case using send_inv [of c w tid message] by auto
next
  case (cn_write c w c')
  then show ?case using handleWrite_inv [OF _ writing_open] by fastforce
next
  case (cn_read c readv c')
  then show ?case using handleRead_inv [OF _ reading_open] by fastforce
next
  case (cn_close c c')
  then show ?case using handleClose_inv by fastforce
next
  case (cn_shutdown tid c c')
  then show ?case using shutdown_inv [of c tid] by auto
next
  case (cn_run_shutdown c c')
  then show ?case using run_shutdown_inv by fastforce
next
  case (cn_force tid c c')
  then show ?case using forceClose_inv [of c tid] by auto
next
  case (cn_run_force c c')
  then show ?case using run_force_inv [of c "tc_forceCloses c - 1"] by auto
next
  case (cn_delay c)
  then show ?case by (rule delay_inv)
next
  case (cn_startRead c c')
  then show ?case using read_toggle_inv(1) by fastforce
next
  case (cn_stopRead c c')
  then show ?case using read_toggle_inv(2) by fastforce
qed

lemma cn_new_inv: "tc_inv (TcpConnection_new tid name loop sockfd)"
  by (simp add: inv_unf TcpConnection_new_def Channel_new_def)

lemma cn_reachable_inv: "cn_reachable c \<Longrightarrow> tc_inv c"
  by (induction rule: cn_reachable.induct) (auto intro: cn_new_inv cn_step_inv)

section \<open>Concrete connections\<close>

text \<open>An established connection, and one that has been asked to send five bytes of which the kernel took two.\<close>

definition demo_conn :: TcpConnection where
  "demo_conn = tc_emit [ConnectionUp] (tc_events (\<lambda>e. e OR kReadEvent)
     ((TcpConnection_new 7 ''c'' 0 5)\<lparr>tc_state := kConnected,
       tc_channel := (tc_channel (TcpConnection_new 7 ''c'' 0 5))\<lparr>ch_tie := Some 0, ch_tied := True\<rparr>\<rparr>))"

lemma demo_conn_reachable: "cn_reachable demo_conn"
proof -
  have "TcpConnection_connectEstablished 7 (TcpConnection_new 7 ''c'' 0 5) = Inr demo_conn"
    by (simp add: TcpConnection_connectEstablished_def demo_conn_def tc_assertInLoopThread_def
        TcpConnection_new_def Let_def)
  moreover have "tc_threadId (TcpConnection_new 7 ''c'' 0 5) = 7" by (simp add: TcpConnection_new_def)
  ultimately have "cn_step (TcpConnection_new 7 ''c'' 0 5) demo_conn"
    by (intro cn_established) simp
  then show ?thesis by (rule cn_next [OF cn_new])
qed

lemma demo_conn_fields:
  "tc_state demo_conn = kConnected" "tc_threadId demo_conn = 7" "tc_outputBuffer demo_conn = Buffer_init"
  "ch_events (tc_channel demo_conn) = kReadEvent" "ch_label (tc_channel demo_conn) = kAdded"
  "tc_shut demo_conn = False" "tc_wire demo_conn = []" "tc_accepted demo_conn = []"
  by (simp_all add: demo_conn_def TcpConnection_new_def Channel_new_def tc_ops mask_defs)

definition demo_write :: write_call where
  "demo_write d = Inr (min 2 (length d))"

lemma demo_sending:
  "\<exists>c. TcpConnection_send demo_write 7 ''hello'' demo_conn = Inr c \<and> cn_reachable c \<and> tc_accepted c = ''hello''
     \<and> tc_wire c = ''he'' \<and> tc_state c = kConnected"
proof -
  have w: "write_ok demo_conn demo_write" by (simp add: write_ok_def demo_write_def demo_conn_fields)
  obtain c where c: "TcpConnection_send demo_write 7 ''hello'' demo_conn = Inr c"
    using send_inv [OF cn_reachable_inv [OF demo_conn_reachable] w] by blast
  have idle: "\<not> tc_isWriting demo_conn" "Buffer_readableBytes (tc_outputBuffer demo_conn) = 0"
    by (simp_all add: tc_ops demo_conn_fields mask_defs Buffer_init_def Buffer_readableBytes_def)
  have "tc_accepted c = ''hello'' \<and> tc_wire c = ''he'' \<and> tc_state c = kConnected"
    using c idle
    by (auto simp: TcpConnection_send_def demo_conn_fields TcpConnection_sendInLoop_def sendInLoop_try_def
        demo_write_def Let_def tc_assertInLoopThread_def sendInLoop_queue_def tc_emit_def tc_events_def split: if_splits)
  then show ?thesis using c cn_next [OF demo_conn_reachable cn_send [OF w c]] by blast
qed

section \<open>Properties of connections\<close>







text \<open>
  The user sees every connection come up and go down once: the connection callback has been called
  once with the connection up when it has been established, once with it down when it is
  disconnected, and the close callback at most once and only then.
\<close>

theorem TcpConnection_callbacks_once:
  assumes "cn_reachable c"
  shows "length (filter ((=) ConnectionUp) (tc_trace c)) = (if tc_state c = kConnecting then 0 else 1) \<and>
    length (filter ((=) ConnectionDown) (tc_trace c)) = (if tc_state c = kDisconnected then 1 else 0) \<and>
    length (filter ((=) CloseCallback) (tc_trace c)) \<le> (if tc_state c = kDisconnected then 1 else 0)"
  using cn_reachable_inv [OF assms]
  by (cases "tc_state c") (simp_all add: tc_inv_def state_ok_def open_ok_def tc_count_def)

theorem TcpConnection_callbacks_once_witness:
  "length (filter ((=) ConnectionUp) (tc_trace demo_conn)) = 1 \<and>
   length (filter ((=) ConnectionDown) (tc_trace demo_conn)) = 0"
  using TcpConnection_callbacks_once [OF demo_conn_reachable] demo_conn_fields(1) by simp

text \<open>
  A connection that is shutting down cannot be destroyed by its server: \<open>connectDestroyed\<close> treats
  only connected connections, so on one in state \<open>kDisconnecting\<close> that still waits for events the
  assertion of \<open>Channel::remove\<close> fails.
\<close>

theorem TcpConnection_destroy_disconnecting_faults:
  assumes "cn_reachable c" "tc_state c = kDisconnecting" "tc_isReading c \<or> tc_isWriting c"
  shows "TcpConnection_connectDestroyed (tc_threadId c) c = Inl AssertionFailed"
proof -
  have "ch_events (tc_channel c) \<noteq> 0"
    using assms(3) by (auto simp: tc_isReading_def tc_isWriting_def isReading_def isWriting_def)
  then show ?thesis
    using assms(2) by (simp add: TcpConnection_connectDestroyed_def tc_removeChannel_def isNoneEvent_def
        tc_assertInLoopThread_def mask_defs)
qed

theorem TcpConnection_destroy_disconnecting_faults_witness:
  "\<exists>c. cn_reachable c \<and> TcpConnection_connectDestroyed (tc_threadId c) c = Inl AssertionFailed"
proof -
  let ?c = "tc_emit [ShutdownWrite] (demo_conn\<lparr>tc_state := kDisconnecting, tc_shut := True\<rparr>)"
  have "TcpConnection_shutdown 7 demo_conn = Inr ?c"
    by (simp add: TcpConnection_shutdown_def TcpConnection_shutdownInLoop_def demo_conn_fields tc_ops mask_defs Let_def)
  then have r: "cn_reachable ?c" by (rule cn_next [OF demo_conn_reachable cn_shutdown])
  moreover have "tc_isReading ?c"
    by (simp add: tc_emit_def tc_isReading_def isReading_def demo_conn_fields mask_defs)
  ultimately show ?thesis
    using TcpConnection_destroy_disconnecting_faults [OF r] by (auto simp: tc_emit_def)
qed

text \<open>
  Closing a connection whose reading is stopped leaves it registered: \<open>stopRead\<close> takes the channel
  out of the poller, so the \<open>disableAll\<close> of \<open>handleClose\<close> adds it again, with no events. The kernel
  then still reports hang-ups, and the close handler they call fails its assertion.
\<close>

theorem TcpConnection_stopped_close_rearms:
  assumes "cn_reachable c" "tc_state c = kConnected" "ch_label (tc_channel c) = kAdded"
    "ch_events (tc_channel c) = kReadEvent"
  shows "\<exists>c1 c2. TcpConnection_stopReadInLoop (tc_threadId c) c = Inr c1 \<and>
    TcpConnection_forceClose (tc_threadId c) c1 = Inr c2 \<and> tc_state c2 = kDisconnected \<and>
    ch_label (tc_channel c2) = kAdded \<and>
    TcpConnection_handleClose (tc_threadId c) c2 = Inl AssertionFailed"
  using assms(2-4)
  by (simp add: TcpConnection_stopReadInLoop_def TcpConnection_forceClose_def TcpConnection_forceCloseInLoop_def
      TcpConnection_handleClose_def tc_ops isReading_def Let_def mask_defs)

theorem TcpConnection_stopped_close_rearms_witness:
  "\<exists>c1 c2. TcpConnection_stopReadInLoop 7 demo_conn = Inr c1 \<and> TcpConnection_forceClose 7 c1 = Inr c2 \<and>
     ch_label (tc_channel c2) = kAdded \<and> TcpConnection_handleClose 7 c2 = Inl AssertionFailed"
  using TcpConnection_stopped_close_rearms [OF demo_conn_reachable] demo_conn_fields by auto

section \<open>Sending on a connection that is up\<close>

text \<open>A peer that keeps the connection open: \<open>write\<close> may take any part of the data, or would block.\<close>

definition steady :: "write_call \<Rightarrow> bool" where
  "steady write \<longleftrightarrow> (\<forall>d. (\<forall>n. write d = Inr n \<longrightarrow> n \<le> length d) \<and> (\<forall>e. write d = Inl e \<longrightarrow> e = EWOULDBLOCK))"

definition live :: "int \<Rightarrow> TcpConnection \<Rightarrow> bool" where
  "live tid c \<longleftrightarrow> tc_inv c \<and> tc_state c = kConnected \<and> tc_threadId c = tid"

lemma send_accepts:
  assumes "live tid c" "steady write"
  shows "\<exists>c'. TcpConnection_send write tid message c = Inr c' \<and> live tid c' \<and>
    tc_accepted c' = tc_accepted c @ message"
proof -
  have c: "tc_inv c" "tc_state c = kConnected" "tc_threadId c = tid" using assms(1) by (simp_all add: live_def)
  have "\<not> tc_shut c" using c(1,2) by (simp add: tc_inv_def state_ok_def)
  then have "write_ok c write" using assms(2) by (auto simp: write_ok_def steady_def)
  then obtain c' where c': "TcpConnection_send write tid message c = Inr c'" "tc_inv c'"
    using send_inv [OF c(1)] by blast
  have w: "write d = Inl e \<Longrightarrow> e = EWOULDBLOCK" for d e using assms(2) by (simp add: steady_def)
  have "tc_state c' = kConnected \<and> tc_threadId c' = tid \<and> tc_accepted c' = tc_accepted c @ message"
    using c'(1) c(2,3) w
    by (auto simp: TcpConnection_send_def TcpConnection_sendInLoop_def sendInLoop_try_def sendInLoop_queue_def
        tc_emit_def tc_events_def tc_assertInLoopThread_def Let_def split: if_splits sum.splits prod.splits)
  with c' show ?thesis by (simp add: live_def)
qed

lemma send_keeps_name: "TcpConnection_send write tid message c = Inr c' \<Longrightarrow> tc_name c' = tc_name c"
  by (auto simp: TcpConnection_send_def TcpConnection_sendInLoop_def sendInLoop_try_def sendInLoop_queue_def
      tc_emit_def tc_events_def tc_assertInLoopThread_def Let_def split: if_splits sum.splits prod.splits)

lemma set_events_fd [simp]: "ch_fd (channel_set_events f ch) = ch_fd ch"
  by (simp add: channel_set_events_def)

lemma send_keeps_fd: "TcpConnection_send write tid message c = Inr c' \<Longrightarrow> ch_fd (tc_channel c') = ch_fd (tc_channel c)"
  by (auto simp: TcpConnection_send_def TcpConnection_sendInLoop_def sendInLoop_try_def sendInLoop_queue_def
      tc_emit_def tc_events_def tc_assertInLoopThread_def Let_def split: if_splits sum.splits prod.splits)

lemma demo_live: "live 7 demo_conn" "steady demo_write"
  using cn_reachable_inv [OF demo_conn_reachable]
  by (simp_all add: live_def demo_conn_fields steady_def demo_write_def)

end
