(* ===== verification/Net_TimerQueue.thy ===== *)
theory Net_TimerQueue
  imports Base_Time "HOL-Library.Product_Lexorder" "HOL-Library.Multiset" "HOL-Library.Sublist"
begin

text \<open>
  Timers: \<open>Timer.h\<close>, \<open>Timer.cc\<close>, \<open>TimerId.h\<close>, \<open>TimerQueue.h\<close> and \<open>TimerQueue.cc\<close> of
  \<open>ideal/net\<close>.

  Timer objects live on a heap, a map from addresses to timers; \<open>new\<close> picks any free address, so
  the address of a deleted timer can be reused. \<open>std::set\<close> is a sorted list without duplicates;
  pairs are ordered lexicographically, as \<open>std::pair\<close> is. \<open>tq_clock\<close> is the time
  \<open>Timestamp::now()\<close> returns; \<open>tq_armed\<close> is the time at which the \<open>timerfd\<close>, as last programmed,
  becomes readable, \<open>None\<close> once it has been read.

  The loop of \<open>handleRead\<close> runs user callbacks, which may call \<open>addTimer\<close> and \<open>cancel\<close> any number
  of times. The handler is therefore three atomic pieces: \<open>handleRead_begin\<close> (up to the loop),
  \<open>handleRead_run\<close> (one iteration, the call of the callback) and \<open>handleRead_end\<close> (the rest); its
  local variables \<open>expired\<close> and \<open>now\<close> and the rest of the loop are fields of the state. The step
  relation \<open>tq_step\<close> interleaves these pieces with additions and cancellations.
\<close>

type_synonym addr = nat
type_synonym Entry = "Timestamp \<times> addr"
type_synonym ActiveTimer = "addr \<times> int"

definition UINTPTR_MAX :: addr where
  "UINTPTR_MAX = 2 ^ 64 - 1"

section \<open>Timer\<close>

record 'cb Timer =
  t_callback :: 'cb
  t_expiration :: Timestamp
  t_interval :: duration
  t_repeat :: bool
  t_sequence :: int

definition Timer_new :: "'cb \<Rightarrow> Timestamp \<Rightarrow> duration \<Rightarrow> int \<Rightarrow> 'cb Timer" where
  "Timer_new cb when' interval sequence =
     \<lparr>t_callback = cb, t_expiration = when', t_interval = interval,
      t_repeat = dur_positive interval, t_sequence = sequence\<rparr>"

definition Timer_restart :: "'cb Timer \<Rightarrow> Timestamp \<Rightarrow> 'cb Timer" where
  "Timer_restart t now =
     (if t_repeat t then t\<lparr>t_expiration := addTime now (t_interval t)\<rparr>
      else t\<lparr>t_expiration := Timestamp_invalid\<rparr>)"

section \<open>TimerQueue\<close>

record 'cb TimerQueue =
  tq_heap :: "addr \<rightharpoonup> 'cb Timer"
  tq_numCreated :: int
  tq_timers :: "Entry list"
  tq_activeTimers :: "ActiveTimer list"
  tq_callingExpiredTimers :: bool
  tq_cancelingTimers :: "ActiveTimer list"
  tq_armed :: "Timestamp option"
  tq_clock :: Timestamp
  tq_pending :: "addr set"   \<comment> \<open>created by \<open>addTimer\<close>, the functor \<open>addTimerInLoop\<close> not yet run\<close>
  tq_expired :: "Entry list" \<comment> \<open>local variable of \<open>handleRead\<close>\<close>
  tq_running :: "Entry list" \<comment> \<open>the entries of \<open>expired\<close> the loop has not run yet\<close>
  tq_now :: Timestamp        \<comment> \<open>local variable of \<open>handleRead\<close>\<close>
  tq_runs :: "'cb Timer list" \<comment> \<open>ghost: the timers whose callback has run so far\<close>

definition TimerQueue_new :: "Timestamp \<Rightarrow> 'cb TimerQueue" where
  "TimerQueue_new clock =
     \<lparr>tq_heap = Map.empty, tq_numCreated = 0, tq_timers = [], tq_activeTimers = [],
      tq_callingExpiredTimers = False, tq_cancelingTimers = [], tq_armed = None, tq_clock = clock,
      tq_pending = {}, tq_expired = [], tq_running = [], tq_now = 0, tq_runs = []\<rparr>"

definition timer_at :: "'cb TimerQueue \<Rightarrow> addr \<Rightarrow> 'cb Timer result" where
  "timer_at q a = (case tq_heap q a of None \<Rightarrow> Inl UseAfterFree | Some t \<Rightarrow> Inr t)"

text \<open>
  The relative time given to \<open>timerfd_settime\<close>, as (seconds, nanoseconds): at least 100
  microseconds, so the timer is never disarmed by a zero value.
\<close>

definition howmuchTimeFromNow :: "Timestamp \<Rightarrow> Timestamp \<Rightarrow> int \<times> int" where
  "howmuchTimeFromNow now when' =
     (let microseconds = when' - now;
          microseconds = (if microseconds < 100 then 100 else microseconds)
      in (cdiv microseconds kMicrosecondsPerSecond, cmod microseconds kMicrosecondsPerSecond * 1000))"

definition resetTimerfd :: "Timestamp \<Rightarrow> 'cb TimerQueue \<Rightarrow> 'cb TimerQueue" where
  "resetTimerfd expiration q =
     (let (tv_sec, tv_nsec) = howmuchTimeFromNow (tq_clock q) expiration
      in q\<lparr>tq_armed := Some (tq_clock q + tv_sec * kMicrosecondsPerSecond + cdiv tv_nsec 1000)\<rparr>)"

definition readTimerfd :: "'cb TimerQueue \<Rightarrow> 'cb TimerQueue" where
  "readTimerfd q = q\<lparr>tq_armed := None\<rparr>"

definition TimerQueue_insert :: "addr \<Rightarrow> 'cb TimerQueue \<Rightarrow> (bool \<times> 'cb TimerQueue) result" where
  "TimerQueue_insert timer q =
     bindR (assertR (length (tq_timers q) = length (tq_activeTimers q))) (\<lambda>_.
     bindR (timer_at q timer) (\<lambda>t.
     (let when' = t_expiration t;
          earliestChanged = (case tq_timers q of [] \<Rightarrow> True | (first, _) # _ \<Rightarrow> when' < first)
      in
      bindR (assertR ((when', timer) \<notin> set (tq_timers q))) (\<lambda>_.
      bindR (assertR ((timer, t_sequence t) \<notin> set (tq_activeTimers q))) (\<lambda>_.
      (let q' = q\<lparr>tq_timers := oset_insert (when', timer) (tq_timers q),
                  tq_activeTimers := oset_insert (timer, t_sequence t) (tq_activeTimers q)\<rparr>
       in bindR (assertR (length (tq_timers q') = length (tq_activeTimers q'))) (\<lambda>_.
          Inr (earliestChanged, q'))))))))"

text \<open>\<open>addTimer\<close>: \<open>new Timer\<close> at address \<open>a\<close>; the functor \<open>addTimerInLoop\<close> is pending.\<close>

definition TimerQueue_addTimer ::
  "addr \<Rightarrow> 'cb \<Rightarrow> Timestamp \<Rightarrow> duration \<Rightarrow> 'cb TimerQueue \<Rightarrow> ActiveTimer \<times> 'cb TimerQueue" where
  "TimerQueue_addTimer a cb when' interval q =
     (let sequence = tq_numCreated q + 1
      in ((a, sequence),
          q\<lparr>tq_numCreated := sequence,
            tq_heap := (tq_heap q)(a \<mapsto> Timer_new cb when' interval sequence),
            tq_pending := insert a (tq_pending q)\<rparr>))"

definition TimerQueue_addTimerInLoop :: "addr \<Rightarrow> 'cb TimerQueue \<Rightarrow> 'cb TimerQueue result" where
  "TimerQueue_addTimerInLoop timer q =
     bindR (TimerQueue_insert timer (q\<lparr>tq_pending := tq_pending q - {timer}\<rparr>)) (\<lambda>(earliestChanged, q').
     if earliestChanged
     then bindR (timer_at q' timer) (\<lambda>t. Inr (resetTimerfd (t_expiration t) q'))
     else Inr q')"

definition TimerQueue_cancelInLoop :: "ActiveTimer \<Rightarrow> 'cb TimerQueue \<Rightarrow> 'cb TimerQueue result" where
  "TimerQueue_cancelInLoop timer q =
     bindR (assertR (length (tq_timers q) = length (tq_activeTimers q))) (\<lambda>_.
     bindR
       (if timer \<in> set (tq_activeTimers q)
        then bindR (timer_at q (fst timer)) (\<lambda>t.
             bindR (assertR ((t_expiration t, fst timer) \<in> set (tq_timers q))) (\<lambda>_.
             Inr (q\<lparr>tq_timers := oset_erase (t_expiration t, fst timer) (tq_timers q),
                    tq_heap := (tq_heap q)(fst timer := None),
                    tq_activeTimers := oset_erase timer (tq_activeTimers q)\<rparr>)))
        else if tq_callingExpiredTimers q
        then Inr (q\<lparr>tq_cancelingTimers := oset_insert timer (tq_cancelingTimers q)\<rparr>)
        else Inr q) (\<lambda>q'.
     bindR (assertR (length (tq_timers q') = length (tq_activeTimers q'))) (\<lambda>_. Inr q')))"

fun erase_active :: "Entry \<Rightarrow> 'cb TimerQueue \<Rightarrow> 'cb TimerQueue result" where
  "erase_active (w, a) q =
     bindR (timer_at q a) (\<lambda>t.
     bindR (assertR ((a, t_sequence t) \<in> set (tq_activeTimers q))) (\<lambda>_.
     Inr (q\<lparr>tq_activeTimers := oset_erase (a, t_sequence t) (tq_activeTimers q)\<rparr>)))"

definition TimerQueue_getExpired ::
  "Timestamp \<Rightarrow> 'cb TimerQueue \<Rightarrow> (Entry list \<times> 'cb TimerQueue) result" where
  "TimerQueue_getExpired now q =
     bindR (assertR (length (tq_timers q) = length (tq_activeTimers q))) (\<lambda>_.
     (let sentry = (now, UINTPTR_MAX);
          expired = takeWhile (\<lambda>e. \<not> sentry < e) (tq_timers q);
          rest = dropWhile (\<lambda>e. \<not> sentry < e) (tq_timers q)
      in
      bindR (assertR (rest = [] \<or> now < fst (hd rest))) (\<lambda>_.
      bindR (foldR erase_active expired (q\<lparr>tq_timers := rest\<rparr>)) (\<lambda>q'.
      bindR (assertR (length (tq_timers q') = length (tq_activeTimers q'))) (\<lambda>_.
      Inr (expired, q'))))))"

fun reset_entry :: "Timestamp \<Rightarrow> Entry \<Rightarrow> 'cb TimerQueue \<Rightarrow> 'cb TimerQueue result" where
  "reset_entry now (w, a) q =
     bindR (timer_at q a) (\<lambda>t.
     if t_repeat t \<and> (a, t_sequence t) \<notin> set (tq_cancelingTimers q)
     then bindR (TimerQueue_insert a (q\<lparr>tq_heap := (tq_heap q)(a \<mapsto> Timer_restart t now)\<rparr>)) (\<lambda>(_, q').
          Inr q')
     else Inr (q\<lparr>tq_heap := (tq_heap q)(a := None)\<rparr>))"

definition TimerQueue_reset ::
  "Entry list \<Rightarrow> Timestamp \<Rightarrow> 'cb TimerQueue \<Rightarrow> 'cb TimerQueue result" where
  "TimerQueue_reset expired now q =
     bindR (foldR (reset_entry now) expired q) (\<lambda>q'.
     bindR (case tq_timers q' of
              [] \<Rightarrow> Inr Timestamp_invalid
            | (_, a) # _ \<Rightarrow> bindR (timer_at q' a) (\<lambda>t. Inr (t_expiration t))) (\<lambda>nextExpire.
     Inr (if Timestamp_valid nextExpire then resetTimerfd nextExpire q' else q')))"

definition TimerQueue_handleRead_begin :: "'cb TimerQueue \<Rightarrow> 'cb TimerQueue result" where
  "TimerQueue_handleRead_begin q =
     (let now = tq_clock q in
     bindR (TimerQueue_getExpired now (readTimerfd q)) (\<lambda>(expired, q').
     Inr (q'\<lparr>tq_callingExpiredTimers := True, tq_cancelingTimers := [],
             tq_expired := expired, tq_running := expired, tq_now := now\<rparr>)))"

definition TimerQueue_handleRead_run :: "'cb TimerQueue \<Rightarrow> 'cb TimerQueue result" where
  "TimerQueue_handleRead_run q =
     (case tq_running q of
        [] \<Rightarrow> Inr q
      | (w, a) # rest \<Rightarrow>
          bindR (timer_at q a) (\<lambda>t.
          Inr (q\<lparr>tq_running := rest, tq_runs := tq_runs q @ [t]\<rparr>)))"

definition TimerQueue_handleRead_end :: "'cb TimerQueue \<Rightarrow> 'cb TimerQueue result" where
  "TimerQueue_handleRead_end q =
     bindR (TimerQueue_reset (tq_expired q) (tq_now q) (q\<lparr>tq_callingExpiredTimers := False\<rparr>)) (\<lambda>q'.
     Inr (q'\<lparr>tq_expired := []\<rparr>))"

section \<open>Interleavings\<close>

text \<open>
  Rules \<open>create\<close>, \<open>add\<close> and \<open>cancel\<close> may fire at any time, also between two callbacks; \<open>fire\<close> is
  the readable event of the \<open>timerfd\<close>; \<open>tick\<close> lets time pass. A step whose code faults leads to no state.
\<close>

inductive tq_step :: "'cb TimerQueue \<Rightarrow> 'cb TimerQueue \<Rightarrow> bool" where
  tick: "tq_clock q \<le> c \<Longrightarrow> tq_step q (q\<lparr>tq_clock := c\<rparr>)"
| create: "a \<notin> dom (tq_heap q) \<Longrightarrow> a < UINTPTR_MAX \<Longrightarrow> duration_ok interval \<Longrightarrow>
     tq_step q (snd (TimerQueue_addTimer a cb when' interval q))"
| add: "a \<in> tq_pending q \<Longrightarrow> TimerQueue_addTimerInLoop a q = Inr q' \<Longrightarrow> tq_step q q'"
| cancel: "TimerQueue_cancelInLoop timer q = Inr q' \<Longrightarrow> tq_step q q'"
| fire: "\<not> tq_callingExpiredTimers q \<Longrightarrow> TimerQueue_handleRead_begin q = Inr q' \<Longrightarrow> tq_step q q'"
| run: "tq_callingExpiredTimers q \<Longrightarrow> tq_running q \<noteq> [] \<Longrightarrow>
     TimerQueue_handleRead_run q = Inr q' \<Longrightarrow> tq_step q q'"
| finish: "tq_callingExpiredTimers q \<Longrightarrow> tq_running q = [] \<Longrightarrow>
     TimerQueue_handleRead_end q = Inr q' \<Longrightarrow> tq_step q q'"

inductive tq_reachable :: "'cb TimerQueue \<Rightarrow> bool" where
  start: "0 < c \<Longrightarrow> tq_reachable (TimerQueue_new c)"
| step: "tq_reachable q \<Longrightarrow> tq_step q q' \<Longrightarrow> tq_reachable q'"

inductive_cases tq_stepE: "tq_step q q'"

section \<open>Invariant\<close>

text \<open>
  \<open>tq_wf es q\<close>: the two sets index the same timers, every pointer in them and in the in-flight list
  \<open>es\<close> is live, keys are up to date, and every live timer is owned by exactly one of the queue, the
  in-flight list and a pending functor.
\<close>

definition seq_of :: "'cb TimerQueue \<Rightarrow> addr \<Rightarrow> int" where
  "seq_of q a = (case tq_heap q a of Some t \<Rightarrow> t_sequence t | None \<Rightarrow> 0)"

definition active_of :: "'cb TimerQueue \<Rightarrow> Entry \<Rightarrow> ActiveTimer" where
  "active_of q e = (snd e, seq_of q (snd e))"

definition timer_ok :: "'cb TimerQueue \<Rightarrow> addr \<Rightarrow> bool" where
  "timer_ok q a \<longleftrightarrow> a < UINTPTR_MAX \<and>
     (\<forall>t. tq_heap q a = Some t \<longrightarrow> t_sequence t \<le> tq_numCreated q \<and> duration_ok (t_interval t) \<and>
        t_repeat t = dur_positive (t_interval t))"

definition entry_ok :: "'cb TimerQueue \<Rightarrow> Entry \<Rightarrow> bool" where
  "entry_ok q e \<longleftrightarrow> (\<exists>t. tq_heap q (snd e) = Some t \<and> t_expiration t = fst e)"

definition owned :: "Entry list \<Rightarrow> 'cb TimerQueue \<Rightarrow> addr list" where
  "owned es q = map snd (tq_timers q) @ map snd es"

definition tq_wf :: "Entry list \<Rightarrow> 'cb TimerQueue \<Rightarrow> bool" where
  "tq_wf es q \<longleftrightarrow>
     sorted (tq_timers q) \<and> distinct (owned es q) \<and>
     sorted (tq_activeTimers q) \<and> distinct (tq_activeTimers q) \<and>
     set (tq_activeTimers q) = active_of q ` set (tq_timers q) \<and>
     (\<forall>e\<in>set (tq_timers q @ es). entry_ok q e) \<and>
     tq_pending q \<inter> set (owned es q) = {} \<and>
     dom (tq_heap q) = tq_pending q \<union> set (owned es q) \<and>
     (\<forall>a\<in>dom (tq_heap q). timer_ok q a) \<and>
     inj_on (seq_of q) (dom (tq_heap q))"

lemmas tq_views = seq_of_def active_of_def entry_ok_def timer_ok_def owned_def

lemma active_length:
  assumes "distinct (owned es q)" "distinct (tq_activeTimers q)"
    "set (tq_activeTimers q) = active_of q ` set (tq_timers q)"
  shows "length (tq_timers q) = length (tq_activeTimers q)"
proof -
  have "inj_on snd (set (tq_timers q))" "distinct (tq_timers q)"
    using assms(1) by (auto simp: owned_def distinct_map)
  then have "inj_on (active_of q) (set (tq_timers q))"
    by (auto simp: active_of_def inj_on_def)
  with assms(2,3) \<open>distinct (tq_timers q)\<close> show ?thesis
    by (metis card_image distinct_card)
qed

lemma wf_length: "tq_wf es q \<Longrightarrow> length (tq_timers q) = length (tq_activeTimers q)"
  by (rule active_length [of es]) (simp_all add: tq_wf_def)

lemma wf_entry: "tq_wf es q \<Longrightarrow> e \<in> set (tq_timers q) \<union> set es \<Longrightarrow> entry_ok q e"
  by (simp add: tq_wf_def)

lemma wf_owned: "tq_wf es q \<Longrightarrow> distinct (owned es q)"
  by (simp add: tq_wf_def)

lemma wf_active: "tq_wf es q \<Longrightarrow> set (tq_activeTimers q) = active_of q ` set (tq_timers q)"
  by (simp add: tq_wf_def)

lemma wf_dom: "tq_wf es q \<Longrightarrow> dom (tq_heap q) = tq_pending q \<union> set (owned es q)"
  by (simp add: tq_wf_def)

lemma wf_disjoint: "tq_wf es q \<Longrightarrow> tq_pending q \<inter> set (owned es q) = {}"
  by (simp add: tq_wf_def)

lemma wf_timer: "tq_wf es q \<Longrightarrow> tq_heap q a = Some t \<Longrightarrow>
    a < UINTPTR_MAX \<and> t_sequence t \<le> tq_numCreated q \<and> duration_ok (t_interval t) \<and>
    t_repeat t = dur_positive (t_interval t)"
  using domI [of "tq_heap q" a t] by (auto simp: tq_wf_def timer_ok_def)

lemma wf_inj: "tq_wf es q \<Longrightarrow> inj_on (seq_of q) (dom (tq_heap q))"
  unfolding tq_wf_def by blast

lemma wf_live:
  assumes "tq_wf es q" "e \<in> set (tq_timers q) \<union> set es"
  obtains t where "timer_at q (snd e) = Inr t" "tq_heap q (snd e) = Some t" "t_expiration t = fst e"
  using wf_entry [OF assms] that by (auto simp: entry_ok_def timer_at_def)

text \<open>The invariant does not depend on the other fields.\<close>

lemma wf_cong:
  assumes "tq_heap q' = tq_heap q" "tq_numCreated q' = tq_numCreated q" "tq_timers q' = tq_timers q"
    "tq_activeTimers q' = tq_activeTimers q" "tq_pending q' = tq_pending q"
  shows "tq_wf es q' = tq_wf es q"
proof -
  have "active_of q' = active_of q" "entry_ok q' = entry_ok q" "timer_ok q' = timer_ok q"
    "seq_of q' = seq_of q" "owned es q' = owned es q"
    using assms by (simp_all add: fun_eq_iff tq_views)
  then show ?thesis using assms by (simp only: tq_wf_def)
qed

lemma wf_frame [simp]:
  "tq_wf es (q\<lparr>tq_armed := f\<rparr>) = tq_wf es q"
  "tq_wf es (q\<lparr>tq_clock := c\<rparr>) = tq_wf es q"
  "tq_wf es (q\<lparr>tq_cancelingTimers := cs\<rparr>) = tq_wf es q"
  "tq_wf es (q\<lparr>tq_callingExpiredTimers := b\<rparr>) = tq_wf es q"
  "tq_wf es (q\<lparr>tq_expired := xs\<rparr>) = tq_wf es q"
  "tq_wf es (q\<lparr>tq_running := xs\<rparr>) = tq_wf es q"
  "tq_wf es (q\<lparr>tq_now := c\<rparr>) = tq_wf es q"
  "tq_wf es (q\<lparr>tq_runs := rs\<rparr>) = tq_wf es q"
  by (rule wf_cong; simp)+

text \<open>Inserting the first in-flight timer keeps the invariant and cannot fail.\<close>

definition link :: "Entry \<Rightarrow> 'cb Timer \<Rightarrow> 'cb TimerQueue \<Rightarrow> 'cb TimerQueue" where
  "link e t q = q\<lparr>tq_timers := oset_insert e (tq_timers q),
                  tq_activeTimers := oset_insert (snd e, t_sequence t) (tq_activeTimers q)\<rparr>"

lemma link_wf:
  assumes wf: "tq_wf (e # es) q" and t: "tq_heap q (snd e) = Some t"
  shows "e \<notin> set (tq_timers q)" "(snd e, t_sequence t) \<notin> set (tq_activeTimers q)"
    "tq_wf es (link e t q)"
proof -
  have fresh: "snd e \<notin> snd ` set (tq_timers q)"
    using wf_owned [OF wf] by (auto simp: owned_def)
  then show new: "e \<notin> set (tq_timers q)" by auto
  show "(snd e, t_sequence t) \<notin> set (tq_activeTimers q)"
    using fresh wf_active [OF wf] by (force simp: active_of_def)
  have upd: "active_of (link e t q) = active_of q" "entry_ok (link e t q) = entry_ok q"
    "timer_ok (link e t q) = timer_ok q" "seq_of (link e t q) = seq_of q"
    by (simp_all add: fun_eq_iff tq_views link_def)
  have "mset (owned es (link e t q)) = mset (owned (e # es) q)"
    using new by (simp add: owned_def link_def oset_insert_def mset_insort)
  then have own: "distinct (owned es (link e t q))" "set (owned es (link e t q)) = set (owned (e # es) q)"
    using wf_owned [OF wf] by (metis mset_eq_imp_distinct_iff, metis set_mset_mset)
  have act: "(snd e, t_sequence t) = active_of q e"
    using t by (simp add: active_of_def seq_of_def)
  show "tq_wf es (link e t q)"
    using wf own unfolding tq_wf_def upd act by (auto simp: link_def act)
qed

lemma insert_ok:
  assumes wf: "tq_wf ((w, a) # es) q" and t: "tq_heap q a = Some t"
  shows "TimerQueue_insert a q =
    Inr (tq_timers q = [] \<or> w < fst (hd (tq_timers q)), link (w, a) t q)"
proof -
  have w: "t_expiration t = w" "timer_at q a = Inr t"
    using wf_live [OF wf, of "(w, a)"] t by auto
  have "length (tq_timers (link (w, a) t q)) = length (tq_activeTimers (link (w, a) t q))"
    using link_wf(3) [OF wf] t by (intro wf_length) auto
  then show ?thesis
    using link_wf [OF wf] t w wf_length [OF wf]
    by (auto simp: TimerQueue_insert_def link_def Let_def split: list.splits)
qed

text \<open>Dropping a timer from the two sets, and deleting an in-flight timer.\<close>

definition unlink :: "Entry \<Rightarrow> 'cb Timer \<Rightarrow> 'cb TimerQueue \<Rightarrow> 'cb TimerQueue" where
  "unlink e t q = q\<lparr>tq_timers := oset_erase e (tq_timers q),
                    tq_activeTimers := oset_erase (snd e, t_sequence t) (tq_activeTimers q)\<rparr>"

lemma unlink_wf:
  assumes wf: "tq_wf es q" and e: "e \<in> set (tq_timers q)" and t: "tq_heap q (snd e) = Some t"
  shows "tq_wf (e # es) (unlink e t q)"
proof -
  have upd: "active_of (unlink e t q) = active_of q" "entry_ok (unlink e t q) = entry_ok q"
    "timer_ok (unlink e t q) = timer_ok q" "seq_of (unlink e t q) = seq_of q"
    by (simp_all add: fun_eq_iff tq_views unlink_def)
  have "mset (owned (e # es) (unlink e t q)) = mset (owned es q)"
    using e by (simp add: owned_def unlink_def oset_erase_def image_mset_Diff)
  then have own: "distinct (owned (e # es) (unlink e t q))"
      "set (owned (e # es) (unlink e t q)) = set (owned es q)"
    using wf_owned [OF wf] by (metis mset_eq_imp_distinct_iff, metis set_mset_mset)
  have dist: "distinct (tq_timers q)" "inj_on snd (set (tq_timers q))"
    using wf_owned [OF wf] by (auto simp: owned_def distinct_map)
  then have inj: "inj_on (active_of q) (set (tq_timers q))"
    by (auto simp: active_of_def inj_on_def)
  have act: "(snd e, t_sequence t) = active_of q e"
    using t by (simp add: active_of_def seq_of_def)
  have "active_of q ` set (tq_timers q) - {active_of q e} = active_of q ` (set (tq_timers q) - {e})"
    using inj e by (simp add: inj_on_image_set_diff [where C = "set (tq_timers q)"])
  then show ?thesis
    using wf own dist e unfolding tq_wf_def upd act by (auto simp: unlink_def act)
qed

definition free_timer :: "addr \<Rightarrow> 'cb TimerQueue \<Rightarrow> 'cb TimerQueue" where
  "free_timer a q = q\<lparr>tq_heap := (tq_heap q)(a := None)\<rparr>"

lemma free_wf:
  assumes wf: "tq_wf (e # es) q"
  shows "tq_wf es (free_timer (snd e) q)"
proof -
  let ?a = "snd e" and ?q = "free_timer (snd e) q"
  have own: "?a \<notin> set (owned es q)" "distinct (owned es q)" "?a \<notin> tq_pending q"
    using wf unfolding tq_wf_def owned_def by auto
  have same: "owned es ?q = owned es q"
    by (simp add: owned_def free_timer_def)
  have act: "active_of ?q ` set (tq_timers q) = active_of q ` set (tq_timers q)"
    using own by (intro image_cong) (auto simp: tq_views free_timer_def image_iff)
  have ent: "\<forall>d \<in> set (tq_timers q @ es). entry_ok ?q d"
    using own wf_entry [OF wf] by (auto simp: entry_ok_def free_timer_def owned_def image_iff)
  have dom: "dom (tq_heap ?q) = dom (tq_heap q) - {?a}"
    by (auto simp: free_timer_def)
  have ok: "\<forall>a \<in> dom (tq_heap ?q). timer_ok ?q a"
    using wf by (auto simp: tq_wf_def timer_ok_def free_timer_def)
  have inj: "inj_on (seq_of ?q) (dom (tq_heap ?q))"
    using wf_inj [OF wf] by (auto simp: dom inj_on_def seq_of_def free_timer_def)
  have part: "dom (tq_heap ?q) = tq_pending q \<union> set (owned es q)"
    unfolding dom wf_dom [OF wf] using own by (auto simp: owned_def)
  have "tq_pending q \<inter> set (owned es q) = {}"
    using wf_disjoint [OF wf] by (auto simp: owned_def)
  moreover have "tq_timers ?q = tq_timers q" "tq_pending ?q = tq_pending q"
    "tq_activeTimers ?q = tq_activeTimers q"
    by (simp_all add: free_timer_def)
  ultimately show ?thesis
    using wf own act ent ok inj part unfolding tq_wf_def same by simp
qed

text \<open>Restarting an in-flight timer only changes its key.\<close>

definition restart_at :: "addr \<Rightarrow> 'cb Timer \<Rightarrow> Timestamp \<Rightarrow> 'cb TimerQueue \<Rightarrow> 'cb TimerQueue" where
  "restart_at a t now q = q\<lparr>tq_heap := (tq_heap q)(a \<mapsto> Timer_restart t now)\<rparr>"

lemma restart_wf:
  assumes wf: "tq_wf (e # es) q" and t: "tq_heap q (snd e) = Some t" "t_repeat t"
  shows "tq_wf ((addTime now (t_interval t), snd e) # es) (restart_at (snd e) t now q)"
proof -
  let ?a = "snd e" and ?q = "restart_at (snd e) t now q" and ?e = "(addTime now (t_interval t), snd e)"
  have own: "?a \<notin> snd ` set (tq_timers q)" "?a \<notin> snd ` set es"
    using wf_owned [OF wf] by (auto simp: owned_def)
  have same: "owned (?e # es) ?q = owned (e # es) q" "dom (tq_heap ?q) = dom (tq_heap q)"
    "seq_of ?q = seq_of q" "active_of ?q = active_of q"
    using t by (auto simp: owned_def restart_at_def seq_of_def active_of_def Timer_restart_def fun_eq_iff)
  have ent: "\<forall>d \<in> set (tq_timers q @ ?e # es). entry_ok ?q d"
    using own wf_entry [OF wf] t by (auto simp: entry_ok_def restart_at_def image_iff Timer_restart_def)
  have ok: "\<forall>a \<in> dom (tq_heap q). timer_ok ?q a"
    using wf t by (auto simp: tq_wf_def timer_ok_def restart_at_def Timer_restart_def)
  show ?thesis
    using wf ent ok unfolding tq_wf_def same by (auto simp: restart_at_def)
qed

section \<open>Every operation keeps the invariant and passes its assertions\<close>

lemma addTimer_wf:
  assumes wf: "tq_wf es q" and a: "a \<notin> dom (tq_heap q)" "a < UINTPTR_MAX" "duration_ok interval"
  shows "tq_wf es (snd (TimerQueue_addTimer a cb when' interval q))"
proof -
  let ?q = "snd (TimerQueue_addTimer a cb when' interval q)"
  note new = TimerQueue_addTimer_def Let_def Timer_new_def
  have own: "a \<notin> set (owned es q)" "a \<notin> tq_pending q"
    using wf a by (auto simp: tq_wf_def)
  have same: "owned es ?q = owned es q" "dom (tq_heap ?q) = insert a (dom (tq_heap q))"
    by (simp_all add: owned_def new)
  have seq: "seq_of ?q b = (if b = a then tq_numCreated q + 1 else seq_of q b)" for b
    by (simp add: seq_of_def new)
  have "seq_of q b \<le> tq_numCreated q" if "b \<in> dom (tq_heap q)" for b
    using wf_timer [OF wf] that by (auto simp: seq_of_def)
  then have inj: "inj_on (seq_of ?q) (insert a (dom (tq_heap q)))"
    using wf_inj [OF wf] a(1) by (force simp: seq inj_on_def)
  have act: "active_of ?q ` set (tq_timers q) = active_of q ` set (tq_timers q)"
    using own by (intro image_cong) (auto simp: active_of_def seq owned_def image_iff)
  have ent: "\<forall>d \<in> set (tq_timers q @ es). entry_ok ?q d"
    using own wf_entry [OF wf] by (auto simp: entry_ok_def new owned_def image_iff)
  have ok: "\<forall>b \<in> insert a (dom (tq_heap q)). timer_ok ?q b"
    using wf_timer [OF wf] a by (auto simp: timer_ok_def new) fastforce+
  have "tq_pending ?q = insert a (tq_pending q)" "tq_timers ?q = tq_timers q"
    "tq_activeTimers ?q = tq_activeTimers q"
    by (simp_all add: new)
  then show ?thesis
    using wf own inj act ent ok unfolding tq_wf_def same by simp
qed

lemma addTimerInLoop_wf:
  assumes wf: "tq_wf es q" and a: "a \<in> tq_pending q"
  obtains t q' where "tq_heap q a = Some t"
    "q' = link (t_expiration t, a) t (q\<lparr>tq_pending := tq_pending q - {a}\<rparr>)"
    "TimerQueue_addTimerInLoop a q =
       Inr (if tq_timers q = [] \<or> t_expiration t < fst (hd (tq_timers q))
            then resetTimerfd (t_expiration t) q' else q')"
    "tq_wf es q'"
proof -
  obtain t where t: "tq_heap q a = Some t"
    using wf_dom [OF wf] a by blast
  let ?q = "q\<lparr>tq_pending := tq_pending q - {a}\<rparr>" and ?e = "(t_expiration t, a)"
  have own: "owned (?e # es) ?q = map snd (tq_timers q) @ a # map snd es"
    by (simp add: owned_def)
  have same: "active_of ?q = active_of q" "entry_ok ?q = entry_ok q" "timer_ok ?q = timer_ok q"
    "seq_of ?q = seq_of q"
    by (simp_all add: fun_eq_iff tq_views)
  have "entry_ok q ?e" using t by (simp add: entry_ok_def)
  then have wf': "tq_wf (?e # es) ?q"
    using wf a unfolding tq_wf_def same own by (auto simp: owned_def)
  have "TimerQueue_insert a ?q =
      Inr (tq_timers q = [] \<or> t_expiration t < fst (hd (tq_timers q)), link ?e t ?q)"
    using insert_ok [OF wf'] t by simp
  moreover have "timer_at (link ?e t ?q) a = Inr t"
    using t by (simp add: timer_at_def link_def)
  ultimately have "TimerQueue_addTimerInLoop a q =
      Inr (if tq_timers q = [] \<or> t_expiration t < fst (hd (tq_timers q))
           then resetTimerfd (t_expiration t) (link ?e t ?q) else link ?e t ?q)"
    by (simp add: TimerQueue_addTimerInLoop_def)
  with t link_wf(3) [OF wf'] show thesis by (intro that) auto
qed

lemma wf_active_entry:
  assumes "tq_wf es q" "timer \<in> set (tq_activeTimers q)"
  obtains t where "tq_heap q (fst timer) = Some t" "t_sequence t = snd timer"
    "(t_expiration t, fst timer) \<in> set (tq_timers q)"
proof -
  obtain e where e: "e \<in> set (tq_timers q)" "timer = active_of q e"
    using assms wf_active by fastforce
  obtain t where "tq_heap q (snd e) = Some t" "t_expiration t = fst e"
    using wf_live [OF assms(1), of e] e(1) by auto
  with e show thesis by (intro that) (auto simp: active_of_def seq_of_def)
qed

lemma cancelInLoop_wf:
  assumes wf: "tq_wf es q"
  shows "timer \<in> set (tq_activeTimers q) \<Longrightarrow> \<exists>t. tq_heap q (fst timer) = Some t \<and> t_sequence t = snd timer \<and>
      TimerQueue_cancelInLoop timer q =
        Inr (free_timer (fst timer) (unlink (t_expiration t, fst timer) t q)) \<and>
      tq_wf es (free_timer (fst timer) (unlink (t_expiration t, fst timer) t q))"
    and "timer \<notin> set (tq_activeTimers q) \<Longrightarrow> TimerQueue_cancelInLoop timer q =
      Inr (if tq_callingExpiredTimers q
           then q\<lparr>tq_cancelingTimers := oset_insert timer (tq_cancelingTimers q)\<rparr> else q)"
proof -
  assume "timer \<in> set (tq_activeTimers q)"
  then obtain t where t: "tq_heap q (fst timer) = Some t" "t_sequence t = snd timer"
      "(t_expiration t, fst timer) \<in> set (tq_timers q)"
    using wf_active_entry [OF wf] by blast
  let ?e = "(t_expiration t, fst timer)" and ?q = "free_timer (fst timer) (unlink (t_expiration t, fst timer) t q)"
  have wf': "tq_wf es ?q"
    using free_wf [OF unlink_wf [OF wf t(3)]] t by simp
  then have "TimerQueue_cancelInLoop timer q = Inr ?q"
    using t wf_length [OF wf] wf_length [OF wf'] \<open>timer \<in> _\<close>
    by (cases timer) (simp add: TimerQueue_cancelInLoop_def timer_at_def free_timer_def unlink_def)
  with t wf' show "\<exists>t. tq_heap q (fst timer) = Some t \<and> t_sequence t = snd timer \<and>
      TimerQueue_cancelInLoop timer q =
        Inr (free_timer (fst timer) (unlink (t_expiration t, fst timer) t q)) \<and>
      tq_wf es (free_timer (fst timer) (unlink (t_expiration t, fst timer) t q))" by auto
qed (use wf_length [OF wf] in \<open>simp add: TimerQueue_cancelInLoop_def\<close>)

lemma sentry_less: "a < UINTPTR_MAX \<Longrightarrow> (now, UINTPTR_MAX) < (w, a) \<longleftrightarrow> now < w"
  by (auto simp: less_prod_def)

lemma takeWhile_sorted_filter:
  assumes "sorted es" "\<And>d e. d \<le> e \<Longrightarrow> P e \<Longrightarrow> P d"
  shows "takeWhile P es = filter P es \<and> dropWhile P es = filter (\<lambda>e. \<not> P e) es"
  using assms(1)
proof (induction es)
  case (Cons e es)
  then have "\<not> P e \<Longrightarrow> filter P es = [] \<and> filter (\<lambda>d. \<not> P d) es = es"
    using assms(2) by (auto simp: filter_empty_conv filter_id_conv)
  with Cons show ?case by auto
qed simp

lemma takeWhile_expired:
  assumes "sorted es" "\<forall>e\<in>set es. snd e < UINTPTR_MAX"
  shows "takeWhile (\<lambda>e. \<not> (now, UINTPTR_MAX) < e) es = filter (\<lambda>e. fst e \<le> now) es"
    and "dropWhile (\<lambda>e. \<not> (now, UINTPTR_MAX) < e) es = filter (\<lambda>e. now < fst e) es"
proof -
  have "(now, UINTPTR_MAX) < e \<longleftrightarrow> now < fst e" if "e \<in> set es" for e
    using assms(2) that sentry_less [of "snd e"] by (cases e) auto
  then have "filter (\<lambda>e. \<not> (now, UINTPTR_MAX) < e) es = filter (\<lambda>e. fst e \<le> now) es"
    "filter (\<lambda>e. \<not> \<not> (now, UINTPTR_MAX) < e) es = filter (\<lambda>e. now < fst e) es"
    by (auto intro!: filter_cong simp del: less_prod_simp)
  then show "takeWhile (\<lambda>e. \<not> (now, UINTPTR_MAX) < e) es = filter (\<lambda>e. fst e \<le> now) es"
    "dropWhile (\<lambda>e. \<not> (now, UINTPTR_MAX) < e) es = filter (\<lambda>e. now < fst e) es"
    using takeWhile_sorted_filter [OF assms(1), of "\<lambda>e. \<not> (now, UINTPTR_MAX) < e"]
    by (metis (no_types, lifting) order_less_le_trans)+
qed

lemma erase_active_fold:
  assumes "\<forall>e\<in>set xs. \<exists>t. tq_heap q (snd e) = Some t" "distinct (map snd xs)"
    "active_of q ` set xs \<subseteq> set (tq_activeTimers q)"
    "distinct (tq_activeTimers q)" "sorted (tq_activeTimers q)"
  shows "\<exists>as. foldR erase_active xs q = Inr (q\<lparr>tq_activeTimers := as\<rparr>) \<and>
    set as = set (tq_activeTimers q) - active_of q ` set xs \<and> distinct as \<and> sorted as"
  using assms
proof (induction xs arbitrary: q)
  case Nil
  then show ?case by (intro exI [of _ "tq_activeTimers q"]) simp
next
  case (Cons e xs)
  obtain w a where e: "e = (w, a)" by force
  obtain t where t: "tq_heap q a = Some t" using Cons.prems(1) e by auto
  let ?q = "q\<lparr>tq_activeTimers := oset_erase (a, t_sequence t) (tq_activeTimers q)\<rparr>"
  have act: "active_of ?q = active_of q" "active_of q e = (a, t_sequence t)"
    using t e by (simp_all add: fun_eq_iff active_of_def seq_of_def)
  have one: "erase_active e q = Inr ?q"
    using Cons.prems(3) t by (simp add: e timer_at_def active_of_def seq_of_def)
  have "(a, t_sequence t) \<notin> active_of q ` set xs"
    using Cons.prems(2) by (auto simp: e active_of_def)
  then have "\<exists>as. foldR erase_active xs ?q = Inr (?q\<lparr>tq_activeTimers := as\<rparr>) \<and>
      set as = set (tq_activeTimers ?q) - active_of ?q ` set xs \<and> distinct as \<and> sorted as"
    using Cons.prems by (intro Cons.IH) (auto simp: act)
  then show ?case
    using Cons.prems(4) by (auto simp: one act)
qed

definition split_expired :: "Timestamp \<Rightarrow> 'cb TimerQueue \<Rightarrow> 'cb TimerQueue \<Rightarrow> bool" where
  "split_expired now q q' \<longleftrightarrow>
     (\<exists>as. q' = q\<lparr>tq_timers := filter (\<lambda>e. now < fst e) (tq_timers q), tq_activeTimers := as\<rparr>)"

lemma getExpired_wf:
  assumes wf: "tq_wf [] q"
  obtains q' where
    "TimerQueue_getExpired now q = Inr (filter (\<lambda>e. fst e \<le> now) (tq_timers q), q')"
    "split_expired now q q'" "tq_wf (filter (\<lambda>e. fst e \<le> now) (tq_timers q)) q'"
proof -
  let ?x = "filter (\<lambda>e. fst e \<le> now) (tq_timers q)" and ?r = "filter (\<lambda>e. now < fst e) (tq_timers q)"
  have srt: "sorted (tq_timers q)" "sorted (tq_activeTimers q)" "distinct (tq_activeTimers q)"
    using wf by (auto simp: tq_wf_def)
  have live: "\<exists>t. tq_heap q (snd e) = Some t" if "e \<in> set (tq_timers q)" for e
    using wf_live [OF wf, of e] that by auto
  then have "\<forall>e\<in>set (tq_timers q). snd e < UINTPTR_MAX"
    using wf_timer [OF wf] by blast
  note tw = takeWhile_expired [OF srt(1) this, of now]
  have dist: "distinct (map snd (tq_timers q))"
    using wf_owned [OF wf] by (simp add: owned_def)
  then have inj: "inj_on (active_of q) (set (tq_timers q))"
    by (auto simp: active_of_def inj_on_def distinct_map)
  let ?q0 = "q\<lparr>tq_timers := ?r\<rparr>"
  have act0: "active_of ?q0 = active_of q"
    by (simp add: fun_eq_iff active_of_def seq_of_def)
  obtain as where as: "foldR erase_active ?x ?q0 = Inr (?q0\<lparr>tq_activeTimers := as\<rparr>)"
      "set as = set (tq_activeTimers q) - active_of q ` set ?x" "distinct as" "sorted as"
    using erase_active_fold [of ?x ?q0] live srt dist wf_active [OF wf]
    by (auto simp: act0 distinct_map_filter image_iff)
  let ?q = "q\<lparr>tq_timers := ?r, tq_activeTimers := as\<rparr>"
  have same: "active_of ?q = active_of q" "entry_ok ?q = entry_ok q" "timer_ok ?q = timer_ok q"
    "seq_of ?q = seq_of q"
    by (simp_all add: fun_eq_iff tq_views)
  have "set as = active_of q ` set ?r"
  proof -
    have "set (tq_timers q) - set ?x = set ?r" by auto
    moreover have "active_of q ` (set (tq_timers q) - set ?x) =
        active_of q ` set (tq_timers q) - active_of q ` set ?x"
      using inj by (rule inj_on_image_set_diff) auto
    ultimately show ?thesis using as(2) wf_active [OF wf] by simp
  qed
  moreover have "mset (?r @ ?x) = mset (tq_timers q)"
    by (auto simp: not_le intro!: union_filter_mset_complement)
  then have "mset (owned ?x ?q) = mset (owned [] q)"
    by (simp add: owned_def flip: image_mset_union)
  then have "distinct (owned ?x ?q)" "set (owned ?x ?q) = set (owned [] q)"
    using wf_owned [OF wf] by (metis mset_eq_imp_distinct_iff, metis set_mset_mset)
  moreover have "sorted ?r" using srt(1) by (rule sorted_wrt_filter)
  ultimately have wf': "tq_wf ?x ?q"
    using as(3,4) wf unfolding tq_wf_def same by auto
  have "dropWhile (\<lambda>e. \<not> (now, UINTPTR_MAX) < e) (tq_timers q) = [] \<or> now < fst (hd ?r)"
    unfolding tw using hd_in_set [of ?r] by (auto simp del: filter_empty_conv)
  then have "TimerQueue_getExpired now q = Inr (?x, ?q)"
    using as(1) wf_length [OF wf] wf_length [OF wf'] unfolding TimerQueue_getExpired_def Let_def tw by simp
  with wf' show thesis by (intro that) (auto simp: split_expired_def)
qed

text \<open>
  The timers \<open>reset\<close> puts back: the repeating ones that were not cancelled while the callbacks ran,
  each at its new expiration.
\<close>

definition rearmed :: "Timestamp \<Rightarrow> 'cb TimerQueue \<Rightarrow> Entry list \<Rightarrow> Entry set" where
  "rearmed now q es = {(addTime now (t_interval t), a) | w a t.
     (w, a) \<in> set es \<and> tq_heap q a = Some t \<and> t_repeat t \<and> (a, t_sequence t) \<notin> set (tq_cancelingTimers q)}"

definition same_frame :: "'cb TimerQueue \<Rightarrow> 'cb TimerQueue \<Rightarrow> bool" where
  "same_frame q q' \<longleftrightarrow>
     q'\<lparr>tq_heap := Map.empty, tq_timers := [], tq_activeTimers := []\<rparr> =
     q\<lparr>tq_heap := Map.empty, tq_timers := [], tq_activeTimers := []\<rparr>"

lemma same_frame_simps:
  assumes "same_frame q q'"
  shows "tq_numCreated q' = tq_numCreated q" "tq_pending q' = tq_pending q"
    "tq_callingExpiredTimers q' = tq_callingExpiredTimers q"
    "tq_cancelingTimers q' = tq_cancelingTimers q" "tq_armed q' = tq_armed q" "tq_clock q' = tq_clock q"
    "tq_now q' = tq_now q" "tq_runs q' = tq_runs q" "tq_expired q' = tq_expired q" "tq_running q' = tq_running q"
  using assms by (cases q; cases q'; simp add: same_frame_def)+

lemma same_frame_trans: "same_frame p q \<Longrightarrow> same_frame q r \<Longrightarrow> same_frame p r"
  by (auto simp: same_frame_def)

lemma reset_entry_wf:
  assumes wf: "tq_wf (e # es) q"
  obtains q' where "reset_entry now e q = Inr q'" "tq_wf es q'" "same_frame q q'"
    "set (tq_timers q') = set (tq_timers q) \<union> rearmed now q [e]"
    "\<And>b. b \<noteq> snd e \<Longrightarrow> tq_heap q' b = tq_heap q b"
    "\<And>t. tq_heap q' (snd e) = Some t \<Longrightarrow> t_repeat t"
proof -
  obtain w a where e: "e = (w, a)" by force
  obtain t where t: "timer_at q a = Inr t" "tq_heap q a = Some t"
    using wf_live [OF wf, of e] e by auto
  show thesis
  proof (cases "t_repeat t \<and> (a, t_sequence t) \<notin> set (tq_cancelingTimers q)")
    case True
    let ?e = "(addTime now (t_interval t), a)" and ?q = "restart_at a t now q"
    have wf': "tq_wf (?e # es) ?q"
      using restart_wf [OF wf] t True by (simp add: e)
    have h: "tq_heap ?q a = Some (Timer_restart t now)"
      by (simp add: restart_at_def)
    have "reset_entry now e q = Inr (link ?e (Timer_restart t now) ?q)"
      using t True insert_ok [OF wf' h] by (simp add: e restart_at_def)
    moreover have "same_frame q (link ?e (Timer_restart t now) ?q)"
      by (simp add: same_frame_def link_def restart_at_def)
    moreover have "set (tq_timers (link ?e (Timer_restart t now) ?q)) = set (tq_timers q) \<union> rearmed now q [e]"
      using t True by (auto simp: link_def restart_at_def rearmed_def e)
    moreover have "b \<noteq> snd e \<Longrightarrow> tq_heap (link ?e (Timer_restart t now) ?q) b = tq_heap q b" for b
      by (simp add: e link_def restart_at_def)
    moreover have "tq_wf es (link ?e (Timer_restart t now) ?q)"
      using link_wf(3) [OF wf'] h by simp
    moreover have "tq_heap (link ?e (Timer_restart t now) ?q) (snd e) = Some u \<Longrightarrow> t_repeat u" for u
      using True by (auto simp: e link_def restart_at_def Timer_restart_def)
    ultimately show thesis by (metis that)
  next
    case False
    have "reset_entry now e q = Inr (free_timer a q)"
      using t False by (auto simp: e free_timer_def)
    moreover have "same_frame q (free_timer a q)"
      by (simp add: same_frame_def free_timer_def)
    moreover have "set (tq_timers (free_timer a q)) = set (tq_timers q) \<union> rearmed now q [e]"
      using t False by (auto simp: free_timer_def rearmed_def e)
    moreover have "b \<noteq> snd e \<Longrightarrow> tq_heap (free_timer a q) b = tq_heap q b" for b
      by (simp add: e free_timer_def)
    moreover have "tq_wf es (free_timer a q)"
      using free_wf [OF wf] by (simp add: e)
    moreover have "tq_heap (free_timer a q) (snd e) = Some u \<Longrightarrow> t_repeat u" for u
      by (simp add: e free_timer_def)
    ultimately show thesis by (metis that)
  qed
qed

lemma reset_fold_wf:
  assumes "tq_wf es q"
  shows "\<exists>q'. foldR (reset_entry now) es q = Inr q' \<and> tq_wf [] q' \<and> same_frame q q' \<and>
    set (tq_timers q') = set (tq_timers q) \<union> rearmed now q es \<and>
    (\<forall>b t. tq_heap q' b = Some t \<longrightarrow> tq_heap q b = Some t \<or> t_repeat t)"
  using assms
proof (induction es arbitrary: q)
  case Nil
  then show ?case by (intro exI [of _ q]) (simp add: rearmed_def same_frame_def)
next
  case (Cons e es)
  obtain q1 where q1: "reset_entry now e q = Inr q1" "tq_wf es q1" "same_frame q q1"
      "set (tq_timers q1) = set (tq_timers q) \<union> rearmed now q [e]"
      "\<And>b. b \<noteq> snd e \<Longrightarrow> tq_heap q1 b = tq_heap q b"
      "\<And>t. tq_heap q1 (snd e) = Some t \<Longrightarrow> t_repeat t"
    using Cons.prems by (rule reset_entry_wf) blast
  obtain q2 where q2: "foldR (reset_entry now) es q1 = Inr q2" "tq_wf [] q2" "same_frame q1 q2"
      "set (tq_timers q2) = set (tq_timers q1) \<union> rearmed now q1 es"
      "\<forall>b t. tq_heap q2 b = Some t \<longrightarrow> tq_heap q1 b = Some t \<or> t_repeat t"
    using Cons.IH [OF q1(2)] by blast
  have "snd e \<notin> snd ` set es"
    using wf_owned [OF Cons.prems] by (auto simp: owned_def)
  then have "rearmed now q1 es = rearmed now q es"
    using q1(5) same_frame_simps(4) [OF q1(3)] by (fastforce simp: rearmed_def image_iff)
  moreover have "rearmed now q (e # es) = rearmed now q [e] \<union> rearmed now q es"
    by (auto simp: rearmed_def)
  moreover have "tq_heap q b = Some t \<or> t_repeat t" if "tq_heap q2 b = Some t" for b t
    using q1(5,6) q2(5) that by metis
  ultimately show ?case
    using q1 q2 same_frame_trans [OF q1(3) q2(3)] by auto
qed

section \<open>The timerfd\<close>

lemma howmuchTimeFromNow_exact:
  assumes "howmuchTimeFromNow now when' = (tv_sec, tv_nsec)"
  shows "now + tv_sec * kMicrosecondsPerSecond + cdiv tv_nsec 1000 = max when' (now + 100)"
    "0 \<le> tv_sec" "0 \<le> tv_nsec" "tv_nsec < 1000000000" "0 < tv_sec \<or> 0 < tv_nsec"
proof -
  let ?m = "max 100 (when' - now)"
  have eq: "tv_sec = ?m div 1000000" "tv_nsec = ?m mod 1000000 * 1000"
    using assms by (auto simp: howmuchTimeFromNow_def kMicrosecondsPerSecond_def Let_def cdiv_nonneg cmod_nonneg max_def
        split: if_splits)
  then have "cdiv tv_nsec 1000 = ?m mod 1000000"
    by (simp add: cdiv_nonneg)
  then show "now + tv_sec * kMicrosecondsPerSecond + cdiv tv_nsec 1000 = max when' (now + 100)"
    using eq div_mult_mod_eq [of ?m 1000000] by (simp add: kMicrosecondsPerSecond_def max_def)
  show "0 \<le> tv_sec" "0 \<le> tv_nsec" "tv_nsec < 1000000000"
    using eq by (auto simp: pos_imp_zdiv_nonneg_iff)
  show "0 < tv_sec \<or> 0 < tv_nsec"
    using eq div_mult_mod_eq [of ?m 1000000] \<open>0 \<le> tv_sec\<close> \<open>0 \<le> tv_nsec\<close> by (auto simp: order_le_less)
qed

lemma resetTimerfd_eq: "resetTimerfd w q = q\<lparr>tq_armed := Some (max w (tq_clock q + 100))\<rparr>"
  using howmuchTimeFromNow_exact(1) [of "tq_clock q" w]
  by (auto simp: resetTimerfd_def split: prod.splits)

definition armed_ok :: "'cb TimerQueue \<Rightarrow> bool" where
  "armed_ok q \<longleftrightarrow> tq_timers q = [] \<or>
     (\<exists>f. tq_armed q = Some f \<and> (f \<le> fst (hd (tq_timers q)) \<or> f \<le> tq_clock q + 100)) \<or>
     tq_callingExpiredTimers q \<and> tq_now q < fst (hd (tq_timers q))"

lemma hd_le: "sorted xs \<Longrightarrow> e \<in> set xs \<Longrightarrow> fst (hd xs) \<le> (fst e :: int)"
  by (cases xs) (auto simp: less_eq_prod_def)

lemma hd_oset_insert:
  assumes "sorted ts"
  shows "fst (hd (oset_insert e ts)) =
    (if ts = [] \<or> fst e < fst (hd ts) then (fst e :: int) else fst (hd ts))"
proof -
  have s: "sorted (oset_insert e ts)" "oset_insert e ts \<noteq> []"
    using assms by (simp, auto simp: oset_insert_def)
  then have "hd (oset_insert e ts) \<in> insert e (set ts)"
    using hd_in_set [OF s(2)] by simp
  moreover have "fst (hd (oset_insert e ts)) \<le> fst d" if "d \<in> insert e (set ts)" for d
    using hd_le [OF s(1), of d] that by simp
  ultimately show ?thesis
    using hd_le [OF assms] hd_in_set [of ts] by (cases "ts = []") (force, smt (verit) insertE insertCI)
qed

lemma sorted_map_fst: "sorted (xs :: (int \<times> addr) list) \<Longrightarrow> sorted (map fst xs)"
  by (induction xs) (auto simp: less_eq_prod_def)

definition runs_ok :: "'cb TimerQueue \<Rightarrow> bool" where
  "runs_ok q \<longleftrightarrow>
     (\<forall>r\<in>set (tq_runs q). t_sequence r \<le> tq_numCreated q) \<and>
     distinct (map t_sequence (filter (\<lambda>r. \<not> t_repeat r) (tq_runs q))) \<and>
     (\<forall>a\<in>tq_pending q \<union> snd ` set (tq_timers q) \<union> snd ` set (tq_running q). \<forall>t.
        tq_heap q a = Some t \<longrightarrow> \<not> t_repeat t \<longrightarrow>
        t_sequence t \<notin> t_sequence ` set (filter (\<lambda>r. \<not> t_repeat r) (tq_runs q)))"

definition tq_inv :: "'cb TimerQueue \<Rightarrow> bool" where
  "tq_inv q \<longleftrightarrow> tq_wf (tq_expired q) q \<and>
     suffix (tq_running q) (tq_expired q) \<and>
     (\<not> tq_callingExpiredTimers q \<longrightarrow> tq_expired q = []) \<and>
     (tq_callingExpiredTimers q \<longrightarrow> 0 < tq_now q) \<and>
     0 < tq_clock q \<and> armed_ok q \<and> runs_ok q"

lemmas tq_inv_parts = tq_inv_def armed_ok_def runs_ok_def

lemma inv_wf: "tq_inv q \<Longrightarrow> tq_wf (tq_expired q) q"
  by (simp add: tq_inv_def)

lemma tick_inv: "tq_inv q \<Longrightarrow> tq_clock q \<le> c \<Longrightarrow> tq_inv (q\<lparr>tq_clock := c\<rparr>)"
  by (auto simp: tq_inv_parts)

lemma create_inv:
  assumes q: "tq_inv q" and a: "a \<notin> dom (tq_heap q)" "a < UINTPTR_MAX" "duration_ok interval"
  shows "tq_inv (snd (TimerQueue_addTimer a cb when' interval q))"
proof -
  have "tq_wf (tq_expired q) (snd (TimerQueue_addTimer a cb when' interval q))"
    using addTimer_wf [OF inv_wf [OF q] a] by simp
  moreover have "runs_ok (snd (TimerQueue_addTimer a cb when' interval q))"
    using q by (fastforce simp: TimerQueue_addTimer_def Let_def tq_inv_parts Timer_new_def)
  ultimately show ?thesis
    using q by (simp add: TimerQueue_addTimer_def Let_def tq_inv_def armed_ok_def)
qed

lemma add_inv:
  assumes q: "tq_inv q" and a: "a \<in> tq_pending q"
  obtains q' where "TimerQueue_addTimerInLoop a q = Inr q'" "tq_inv q'"
proof -
  note wf = inv_wf [OF q]
  have srt: "sorted (tq_timers q)" using wf by (simp add: tq_wf_def)
  obtain t q1 where t: "tq_heap q a = Some t"
      "q1 = link (t_expiration t, a) t (q\<lparr>tq_pending := tq_pending q - {a}\<rparr>)"
      "TimerQueue_addTimerInLoop a q =
         Inr (if tq_timers q = [] \<or> t_expiration t < fst (hd (tq_timers q))
              then resetTimerfd (t_expiration t) q1 else q1)"
      "tq_wf (tq_expired q) q1"
    using wf a by (rule addTimerInLoop_wf)
  let ?q = "if tq_timers q = [] \<or> t_expiration t < fst (hd (tq_timers q))
            then resetTimerfd (t_expiration t) q1 else q1"
  have hd: "fst (hd (tq_timers q1)) = (if tq_timers q = [] \<or> t_expiration t < fst (hd (tq_timers q))
      then t_expiration t else fst (hd (tq_timers q)))"
    using hd_oset_insert [OF srt, of "(t_expiration t, a)"] by (simp add: t(2) link_def)
  have "tq_wf (tq_expired q) ?q"
    using t(4) by (simp add: resetTimerfd_eq)
  moreover have "armed_ok ?q"
    using q hd by (auto simp: armed_ok_def resetTimerfd_eq tq_inv_def) (auto simp: t(2) link_def)
  moreover have "runs_ok ?q"
    using q a by (auto simp: tq_inv_def runs_ok_def resetTimerfd_eq t(2) link_def)
  ultimately have "tq_inv ?q"
    using q by (auto simp: tq_inv_def resetTimerfd_eq t(2) link_def)
  with t(3) that show thesis by blast
qed

lemma armed_ok_mono:
  assumes "armed_ok q" "tq_timers q' = [] \<or> tq_timers q \<noteq> [] \<and> fst (hd (tq_timers q)) \<le> fst (hd (tq_timers q'))"
    "tq_armed q' = tq_armed q" "tq_clock q' = tq_clock q" "tq_now q' = tq_now q"
    "tq_callingExpiredTimers q' = tq_callingExpiredTimers q"
  shows "armed_ok q'"
proof (cases "tq_timers q' = []")
  case False
  with assms(2) have le: "tq_timers q \<noteq> []" "fst (hd (tq_timers q)) \<le> fst (hd (tq_timers q'))" by auto
  then consider f where "tq_armed q = Some f" "f \<le> fst (hd (tq_timers q)) \<or> f \<le> tq_clock q + 100"
    | "tq_callingExpiredTimers q" "tq_now q < fst (hd (tq_timers q))"
    using assms(1) by (auto simp: armed_ok_def)
  then show ?thesis
    using le assms(3-6) unfolding armed_ok_def by cases (simp, linarith, simp)
qed (simp add: armed_ok_def)

lemma runs_ok_mono:
  assumes "runs_ok q" "set (tq_timers q') \<subseteq> set (tq_timers q)" "tq_heap q' \<subseteq>\<^sub>m tq_heap q"
    "tq_runs q' = tq_runs q" "tq_pending q' = tq_pending q" "tq_running q' = tq_running q"
    "tq_numCreated q' = tq_numCreated q"
  shows "runs_ok q'"
proof -
  have "tq_heap q a = Some t" if "tq_heap q' a = Some t" for a t
    using assms(3) that by (auto simp: map_le_def dom_def)
  then show ?thesis using assms(1,2,4-7) unfolding runs_ok_def by simp blast
qed

lemma cancel_inv:
  assumes q: "tq_inv q"
  obtains q' where "TimerQueue_cancelInLoop timer q = Inr q'" "tq_inv q'"
proof (cases "timer \<in> set (tq_activeTimers q)")
  case True
  note wf = inv_wf [OF q]
  obtain t where t: "TimerQueue_cancelInLoop timer q =
        Inr (free_timer (fst timer) (unlink (t_expiration t, fst timer) t q))"
      "tq_wf (tq_expired q) (free_timer (fst timer) (unlink (t_expiration t, fst timer) t q))"
    using cancelInLoop_wf(1) [OF wf True] by blast
  let ?q = "free_timer (fst timer) (unlink (t_expiration t, fst timer) t q)"
  have srt: "sorted (tq_timers q)" using wf by (simp add: tq_wf_def)
  have sub: "set (tq_timers ?q) \<subseteq> set (tq_timers q)"
    by (simp add: free_timer_def unlink_def oset_erase_def set_remove1_subset)
  then have "fst (hd (tq_timers q)) \<le> fst (hd (tq_timers ?q))" if "tq_timers ?q \<noteq> []"
    using hd_le [OF srt] hd_in_set [OF that] by blast
  moreover have "tq_timers q = [] \<Longrightarrow> tq_timers ?q = []"
    using sub by simp
  ultimately have le: "tq_timers ?q = [] \<or> tq_timers q \<noteq> [] \<and> fst (hd (tq_timers q)) \<le> fst (hd (tq_timers ?q))"
    by blast
  have ok: "armed_ok q" "runs_ok q"
    using q by (simp_all add: tq_inv_def)
  have "armed_ok ?q"
    by (rule armed_ok_mono [OF ok(1) le]) (simp_all add: free_timer_def unlink_def)
  moreover have "runs_ok ?q"
    by (rule runs_ok_mono [OF ok(2) sub]) (simp_all add: free_timer_def unlink_def map_le_def)
  ultimately have "tq_inv ?q"
    using q t(2) by (simp add: tq_inv_def free_timer_def unlink_def)
  with t that show thesis by blast
next
  case False
  have "tq_inv (if tq_callingExpiredTimers q
      then q\<lparr>tq_cancelingTimers := oset_insert timer (tq_cancelingTimers q)\<rparr> else q)"
    using q by (auto simp: tq_inv_parts)
  then show thesis using cancelInLoop_wf(2) [OF inv_wf [OF q] False] that by blast
qed

lemma fire_inv:
  assumes q: "tq_inv q" and idle: "\<not> tq_callingExpiredTimers q"
  obtains q' where "TimerQueue_handleRead_begin q = Inr q'" "tq_inv q'"
    "tq_expired q' = filter (\<lambda>e. fst e \<le> tq_clock q) (tq_timers q)" "tq_running q' = tq_expired q'"
    "tq_timers q' = filter (\<lambda>e. tq_clock q < fst e) (tq_timers q)"
    "tq_callingExpiredTimers q'" "tq_now q' = tq_clock q"
proof -
  let ?now = "tq_clock q" and ?x = "filter (\<lambda>e. fst e \<le> tq_clock q) (tq_timers q)"
  have es: "tq_expired q = []" "tq_running q = []"
    using q idle by (auto simp: tq_inv_def)
  then have "tq_wf [] (readTimerfd q)"
    using inv_wf [OF q] by (simp add: readTimerfd_def)
  then obtain q1 where q1: "TimerQueue_getExpired ?now (readTimerfd q) = Inr (?x, q1)"
      "split_expired ?now (readTimerfd q) q1" "tq_wf ?x q1"
    using getExpired_wf [of "readTimerfd q" ?now] by (auto simp: readTimerfd_def)
  let ?q = "q1\<lparr>tq_callingExpiredTimers := True, tq_cancelingTimers := [],
               tq_expired := ?x, tq_running := ?x, tq_now := ?now\<rparr>"
  obtain as where as: "q1 = (readTimerfd q)\<lparr>tq_timers := filter (\<lambda>e. ?now < fst e) (tq_timers q),
      tq_activeTimers := as\<rparr>"
    using q1(2) by (auto simp: split_expired_def readTimerfd_def)
  have run: "TimerQueue_handleRead_begin q = Inr ?q"
    using q1(1) by (simp add: TimerQueue_handleRead_begin_def Let_def)
  have "armed_ok ?q"
    using hd_in_set [of "filter (\<lambda>e. ?now < fst e) (tq_timers q)"]
    by (auto simp: armed_ok_def as simp del: filter_empty_conv)
  moreover have "runs_ok ?q"
    using q es by (fastforce simp: tq_inv_def runs_ok_def as readTimerfd_def)
  ultimately have "tq_inv ?q"
    using q q1(3) by (simp add: tq_inv_def as readTimerfd_def)
  then show thesis using run by (intro that [of ?q]) (simp_all add: as)
qed

lemma run_inv:
  assumes q: "tq_inv q" and run: "tq_running q = e # rest"
  obtains q' where "TimerQueue_handleRead_run q = Inr q'" "tq_inv q'"
proof -
  have suf: "suffix (e # rest) (tq_expired q)" and wf: "tq_wf (tq_expired q) q"
    using q run by (auto simp: tq_inv_def)
  then have mem: "e \<in> set (tq_expired q)"
    by (auto simp: suffix_def)
  then obtain t where t: "timer_at q (snd e) = Inr t" "tq_heap q (snd e) = Some t"
    using wf_live [OF wf, of e] by auto
  let ?q = "q\<lparr>tq_running := rest, tq_runs := tq_runs q @ [t]\<rparr>"
  obtain zs where "tq_expired q = zs @ e # rest"
    using suf by (auto simp: suffix_def)
  then have "distinct (map snd (e # rest))"
    using wf_owned [OF wf] by (simp add: owned_def)
  moreover have "snd e \<notin> snd ` set (tq_timers q)" "snd e \<notin> tq_pending q"
    using wf_owned [OF wf] wf_disjoint [OF wf] mem by (auto simp: owned_def)
  ultimately have other: "snd e \<notin> tq_pending q \<union> snd ` set (tq_timers q) \<union> snd ` set rest" by auto
  have seq: "t_sequence u \<noteq> t_sequence t" if "tq_heap q a = Some u" "a \<noteq> snd e" for a u
    using inj_onD [OF wf_inj [OF wf], of a "snd e"] that t(2) by (auto simp: seq_of_def)
  have "runs_ok ?q"
    unfolding runs_ok_def
  proof (intro conjI ballI allI impI)
    show "distinct (map t_sequence (filter (\<lambda>r. \<not> t_repeat r) (tq_runs ?q)))"
      using q t(2) run by (auto simp: tq_inv_def runs_ok_def)
    show "t_sequence r \<le> tq_numCreated ?q" if "r \<in> set (tq_runs ?q)" for r
      using q that wf_timer [OF wf t(2)] by (auto simp: tq_inv_def runs_ok_def)
  next
    fix a u
    assume a: "a \<in> tq_pending ?q \<union> snd ` set (tq_timers ?q) \<union> snd ` set (tq_running ?q)"
      and u: "tq_heap ?q a = Some u" "\<not> t_repeat u"
    with other have "a \<noteq> snd e" by auto
    then show "t_sequence u \<notin> t_sequence ` set (filter (\<lambda>r. \<not> t_repeat r) (tq_runs ?q))"
      using q a u seq [of a u] run by (auto simp: tq_inv_def runs_ok_def)
  qed
  moreover have "suffix rest (tq_expired q)"
    using suf by (auto intro: suffix_ConsD)
  ultimately have "tq_inv ?q"
    using q by (simp add: tq_inv_def armed_ok_def)
  moreover have "TimerQueue_handleRead_run q = Inr ?q"
    using t run by (cases e) (simp add: TimerQueue_handleRead_run_def)
  ultimately show thesis using that by blast
qed

lemma rearmed_later:
  assumes "tq_wf es q" "e \<in> rearmed now q es"
  shows "now \<le> fst e"
  using assms wf_timer [OF assms(1)] by (fastforce simp: rearmed_def addTime_def duration_ok_def)

lemma reset_wf:
  assumes wf: "tq_wf es q"
  obtains q1 where "tq_wf [] q1" "same_frame q q1"
    "set (tq_timers q1) = set (tq_timers q) \<union> rearmed now q es"
    "\<And>b t. tq_heap q1 b = Some t \<Longrightarrow> tq_heap q b = Some t \<or> t_repeat t"
    "TimerQueue_reset es now q =
       Inr (if tq_timers q1 \<noteq> [] \<and> 0 < fst (hd (tq_timers q1))
            then resetTimerfd (fst (hd (tq_timers q1))) q1 else q1)"
proof -
  obtain q1 where q1: "foldR (reset_entry now) es q = Inr q1" "tq_wf [] q1" "same_frame q q1"
      "set (tq_timers q1) = set (tq_timers q) \<union> rearmed now q es"
      "\<And>b t. tq_heap q1 b = Some t \<Longrightarrow> tq_heap q b = Some t \<or> t_repeat t"
    using reset_fold_wf [OF wf] by blast
  have "TimerQueue_reset es now q =
      Inr (if tq_timers q1 \<noteq> [] \<and> 0 < fst (hd (tq_timers q1))
           then resetTimerfd (fst (hd (tq_timers q1))) q1 else q1)"
  proof (cases "tq_timers q1")
    case Nil
    then show ?thesis
      using q1(1) by (simp add: TimerQueue_reset_def Timestamp_valid_def Timestamp_invalid_def)
  next
    case (Cons e es')
    then obtain t where "timer_at q1 (snd e) = Inr t" "t_expiration t = fst e"
      using wf_live [OF q1(2), of e] by auto
    then show ?thesis
      using q1(1) Cons by (cases e) (simp add: TimerQueue_reset_def Timestamp_valid_def)
  qed
  with q1 that show thesis by blast
qed

lemma finish_inv:
  assumes q: "tq_inv q" and call: "tq_callingExpiredTimers q" and ran: "tq_running q = []"
  obtains q' where "TimerQueue_handleRead_end q = Inr q'" "tq_inv q'"
    "set (tq_timers q') = set (tq_timers q) \<union> rearmed (tq_now q) q (tq_expired q)"
    "\<not> tq_callingExpiredTimers q'" "tq_pending q' = tq_pending q"
proof -
  let ?es = "tq_expired q" and ?p = "q\<lparr>tq_callingExpiredTimers := False\<rparr>"
  have wf: "tq_wf ?es ?p" using inv_wf [OF q] by simp
  obtain q1 where q1: "tq_wf [] q1" "same_frame ?p q1"
      "set (tq_timers q1) = set (tq_timers ?p) \<union> rearmed (tq_now q) ?p ?es"
      "\<And>b t. tq_heap q1 b = Some t \<Longrightarrow> tq_heap ?p b = Some t \<or> t_repeat t"
      "TimerQueue_reset ?es (tq_now q) ?p =
         Inr (if tq_timers q1 \<noteq> [] \<and> 0 < fst (hd (tq_timers q1))
              then resetTimerfd (fst (hd (tq_timers q1))) q1 else q1)"
    using wf by (rule reset_wf [where now = "tq_now q"]) blast
  note frame = same_frame_simps [OF q1(2)]
  have re: "rearmed (tq_now q) ?p ?es = rearmed (tq_now q) q ?es"
    by (simp add: rearmed_def)
  let ?q = "(if tq_timers q1 \<noteq> [] \<and> 0 < fst (hd (tq_timers q1))
             then resetTimerfd (fst (hd (tq_timers q1))) q1 else q1)\<lparr>tq_expired := []\<rparr>"
  have eq: "TimerQueue_handleRead_end q = Inr ?q"
    using q1(5) by (simp add: TimerQueue_handleRead_end_def)
  have "armed_ok ?q"
  proof (cases "tq_timers q1 = [] \<or> 0 < fst (hd (tq_timers q1))")
    case False
    have srt: "sorted (tq_timers q)" "sorted (tq_timers q1)"
      using inv_wf [OF q] q1(1) by (auto simp: tq_wf_def)
    have "hd (tq_timers q1) \<in> set (tq_timers q1)" using False by simp
    moreover have "hd (tq_timers q1) \<notin> rearmed (tq_now q) ?p ?es"
      using rearmed_later [OF wf, of "hd (tq_timers q1)" "tq_now q"] False q call
      by (auto simp: tq_inv_def)
    ultimately have old: "hd (tq_timers q1) \<in> set (tq_timers q)" using q1(3) by auto
    then have "fst (hd (tq_timers q)) \<le> fst (hd (tq_timers q1))"
      using hd_le [OF srt(1)] by simp
    moreover obtain f where "tq_armed q = Some f" "f \<le> fst (hd (tq_timers q)) \<or> f \<le> tq_clock q + 100"
      using q call old calculation False by (auto simp: tq_inv_def armed_ok_def)
    ultimately show ?thesis using False frame by (auto simp: armed_ok_def)
  qed (auto simp: armed_ok_def resetTimerfd_eq)
  moreover have "runs_ok q1"
    unfolding runs_ok_def frame
  proof (intro conjI ballI allI impI)
    fix a u
    assume a: "a \<in> tq_pending ?p \<union> snd ` set (tq_timers q1) \<union> snd ` set (tq_running ?p)"
      and u: "tq_heap q1 a = Some u" "\<not> t_repeat u"
    then have old: "tq_heap q a = Some u" using q1(4) by fastforce
    then have "a \<in> tq_pending q \<union> snd ` set (tq_timers q)"
      using a u(2) q1(3) ran by (auto simp: rearmed_def)
    then show "t_sequence u \<notin> t_sequence ` set (filter (\<lambda>r. \<not> t_repeat r) (tq_runs ?p))"
      using q old u(2) by (auto simp: tq_inv_def runs_ok_def)
  qed (use q in \<open>simp_all add: tq_inv_def runs_ok_def\<close>)
  then have "runs_ok ?q" by (simp add: runs_ok_def resetTimerfd_eq)
  moreover have "tq_wf [] ?q" using q1(1) by (simp add: resetTimerfd_eq)
  ultimately have "tq_inv ?q"
    using q frame ran by (auto simp: tq_inv_def resetTimerfd_eq)
  then show thesis
    using eq q1(3) frame by (intro that [of ?q]) (auto simp: re resetTimerfd_eq)
qed

lemma new_inv: "0 < c \<Longrightarrow> tq_inv (TimerQueue_new c)"
  by (simp add: TimerQueue_new_def tq_inv_parts tq_wf_def owned_def)

lemma step_inv:
  assumes q: "tq_inv q" and s: "tq_step q q'"
  shows "tq_inv q'"
  using s
proof (cases rule: tq_step.cases)
  case (tick c)
  then show ?thesis using tick_inv [OF q] by simp
next
  case (create a interval cb when')
  then show ?thesis using create_inv [OF q] by simp
next
  case (add a)
  then show ?thesis using add_inv [OF q] by (metis sum.inject(2))
next
  case (cancel timer)
  then show ?thesis using cancel_inv [OF q] by (metis sum.inject(2))
next
  case fire
  then show ?thesis using fire_inv [OF q] by (metis sum.inject(2))
next
  case run
  then show ?thesis using run_inv [OF q] by (metis sum.inject(2) neq_Nil_conv)
next
  case finish
  then show ?thesis using finish_inv [OF q] by (metis sum.inject(2))
qed

lemma reachable_inv: "tq_reachable q \<Longrightarrow> tq_inv q"
  by (induction rule: tq_reachable.induct) (auto intro: new_inv step_inv)

lemma distinct_map_filter_le_1: "distinct (map f xs) \<Longrightarrow> length (filter (\<lambda>x. f x = y) xs) \<le> 1"
  by (induction xs) (auto simp: filter_empty_conv image_iff)

section \<open>Concrete runs\<close>

text \<open>A repeating timer created at address 1, queued, and then run by \<open>handleRead\<close>.\<close>

definition demo_timer :: "unit Timer" where
  "demo_timer = Timer_new () 3 \<lparr>dur_positive = True, dur_micros = 10\<rparr> 1"

definition demo_created :: "unit TimerQueue" where
  "demo_created = (TimerQueue_new 5)\<lparr>tq_heap := [1 \<mapsto> demo_timer], tq_numCreated := 1, tq_pending := {1}\<rparr>"

definition demo_queued :: "unit TimerQueue" where
  "demo_queued = (TimerQueue_new 5)\<lparr>tq_heap := [1 \<mapsto> demo_timer], tq_numCreated := 1,
     tq_timers := [(3, 1)], tq_activeTimers := [(1, 1)], tq_armed := Some 105\<rparr>"

definition demo_fired :: "unit TimerQueue" where
  "demo_fired = (TimerQueue_new 5)\<lparr>tq_heap := [1 \<mapsto> demo_timer], tq_numCreated := 1,
     tq_callingExpiredTimers := True, tq_expired := [(3, 1)], tq_running := [(3, 1)], tq_now := 5\<rparr>"

definition demo_ran :: "unit TimerQueue" where
  "demo_ran = demo_fired\<lparr>tq_running := [], tq_runs := [demo_timer]\<rparr>"

lemmas demo_defs = demo_created_def demo_queued_def demo_fired_def demo_ran_def demo_timer_def
  Timer_new_def TimerQueue_new_def timer_at_def oset_insert_def oset_erase_def UINTPTR_MAX_def

lemma demo_created_reachable: "tq_reachable demo_created"
proof -
  have "tq_step (TimerQueue_new 5) (snd (TimerQueue_addTimer 1 ()
      3 \<lparr>dur_positive = True, dur_micros = 10\<rparr> (TimerQueue_new 5)))"
    by (rule tq_step.create) (simp_all add: TimerQueue_new_def UINTPTR_MAX_def duration_ok_def)
  moreover have "snd (TimerQueue_addTimer 1 () 3 \<lparr>dur_positive = True, dur_micros = 10\<rparr>
      (TimerQueue_new 5)) = demo_created"
    by (simp add: TimerQueue_addTimer_def demo_defs)
  ultimately show ?thesis
    using tq_reachable.step [OF tq_reachable.start [of 5]] by simp
qed

lemma demo_queued_reachable: "tq_reachable demo_queued"
proof -
  have "TimerQueue_addTimerInLoop 1 demo_created = Inr demo_queued"
    by (simp add: TimerQueue_addTimerInLoop_def TimerQueue_insert_def resetTimerfd_eq demo_defs)
  then have "tq_step demo_created demo_queued"
    by (intro tq_step.add [of 1]) (simp_all add: demo_defs)
  then show ?thesis by (rule tq_reachable.step [OF demo_created_reachable])
qed

lemma demo_ran_reachable: "tq_reachable demo_ran"
proof -
  have "TimerQueue_handleRead_begin demo_queued = Inr demo_fired"
    by (simp add: TimerQueue_handleRead_begin_def TimerQueue_getExpired_def readTimerfd_def Let_def demo_defs)
  then have "tq_step demo_queued demo_fired"
    by (intro tq_step.fire) (simp_all add: demo_defs)
  moreover have "TimerQueue_handleRead_run demo_fired = Inr demo_ran"
    by (simp add: TimerQueue_handleRead_run_def demo_defs)
  then have "tq_step demo_fired demo_ran"
    by (intro tq_step.run) (simp_all add: demo_defs)
  ultimately show ?thesis
    by (blast intro: tq_reachable.step demo_queued_reachable)
qed

lemma demo_fields:
  "tq_timers demo_queued = [(3, 1)]" "tq_activeTimers demo_queued = [(1, 1)]" "tq_clock demo_queued = 5"
  "tq_callingExpiredTimers demo_queued = False"
  "tq_callingExpiredTimers demo_ran = True" "tq_running demo_ran = []" "tq_timers demo_ran = []"
  "tq_expired demo_ran = [(3, 1)]" "tq_now demo_ran = 5" "tq_cancelingTimers demo_ran = []"
  "tq_heap demo_ran = [1 \<mapsto> demo_timer]"
  by (simp_all add: demo_defs)

section \<open>Properties of the timer queue\<close>





text \<open>
  No timer is forgotten: outside \<open>handleRead\<close>, whenever a timer is queued the \<open>timerfd\<close> is
  armed to fire no later than the earliest expiration, or within 100 microseconds from now.
\<close>

theorem TimerQueue_armed:
  assumes "tq_reachable q" "\<not> tq_callingExpiredTimers q" "e \<in> set (tq_timers q)"
  shows "\<exists>f. tq_armed q = Some f \<and> f \<le> max (fst e) (tq_clock q + 100)"
proof -
  note q = reachable_inv [OF assms(1)]
  have "sorted (tq_timers q)" using inv_wf [OF q] by (simp add: tq_wf_def)
  then have "fst (hd (tq_timers q)) \<le> fst e" using assms(3) by (rule hd_le)
  with q assms(2,3) show ?thesis by (auto simp: tq_inv_def armed_ok_def)
qed

theorem TimerQueue_armed_witness: "\<exists>f. tq_armed demo_queued = Some f \<and> f \<le> max 3 (5 + 100)"
  using TimerQueue_armed [OF demo_queued_reachable, of "(3, 1)"] by (simp add: demo_fields)

text \<open>
  C17. \<open>cancel\<close> removes exactly the timer its id names. If the id is active, its timer and no other
  leaves the queue and is deleted; an id that is not active, also one whose address now belongs to
  another timer, leaves the queue and the heap as they are.
\<close>

theorem TimerQueue_cancel_exact:
  assumes "tq_reachable q"
  shows "\<exists>q'. TimerQueue_cancelInLoop (a, sequence) q = Inr q' \<and>
    (if (a, sequence) \<in> set (tq_activeTimers q)
     then set (tq_timers q') = {e \<in> set (tq_timers q). snd e \<noteq> a} \<and>
          tq_heap q' = (tq_heap q)(a := None) \<and> (\<exists>t. tq_heap q a = Some t \<and> t_sequence t = sequence)
     else tq_timers q' = tq_timers q \<and> tq_heap q' = tq_heap q)"
proof (cases "(a, sequence) \<in> set (tq_activeTimers q)")
  case True
  note wf = inv_wf [OF reachable_inv [OF assms]]
  obtain t where t: "tq_heap q a = Some t" "t_sequence t = sequence"
      "(t_expiration t, a) \<in> set (tq_timers q)"
    using wf_active_entry [OF wf True] by auto
  have "inj_on snd (set (tq_timers q))" "distinct (tq_timers q)"
    using wf_owned [OF wf] by (auto simp: owned_def distinct_map)
  then have "set (tq_timers q) - {(t_expiration t, a)} = {e \<in> set (tq_timers q). snd e \<noteq> a}"
    using t(3) by (auto dest: inj_onD [of snd _ "(_, a)" "(_, a)", simplified])
  then show ?thesis
    using cancelInLoop_wf(1) [OF wf True] t True \<open>distinct (tq_timers q)\<close>
    by (auto simp: free_timer_def unlink_def)
next
  case False
  then show ?thesis
    using cancelInLoop_wf(2) [OF inv_wf [OF reachable_inv [OF assms]] False] by auto
qed

theorem TimerQueue_cancel_exact_witness:
  "(\<exists>q'. TimerQueue_cancelInLoop (1, 1) demo_queued = Inr q' \<and> set (tq_timers q') = {}) \<and>
   (\<exists>q'. TimerQueue_cancelInLoop (1, 0) demo_queued = Inr q' \<and> tq_timers q' = [(3, 1)])"
  using TimerQueue_cancel_exact [OF demo_queued_reachable, of 1 1]
    TimerQueue_cancel_exact [OF demo_queued_reachable, of 1 0]
  by (auto simp: demo_fields simp flip: set_empty2)

text \<open>
  The end of \<open>handleRead\<close>: exactly the expired timers that repeat and were not cancelled from a
  callback are queued again, each at now plus its interval; every other expired timer is deleted.
\<close>

theorem TimerQueue_reset_exact:
  assumes "tq_reachable q" "tq_callingExpiredTimers q" "tq_running q = []"
  shows "\<exists>q'. TimerQueue_handleRead_end q = Inr q' \<and>
    set (tq_timers q') = set (tq_timers q) \<union>
      {(addTime (tq_now q) (t_interval t), a) | w a t.
         (w, a) \<in> set (tq_expired q) \<and> tq_heap q a = Some t \<and> t_repeat t \<and>
         (a, t_sequence t) \<notin> set (tq_cancelingTimers q)} \<and>
    dom (tq_heap q') = tq_pending q \<union> snd ` set (tq_timers q')"
proof -
  obtain q' where q': "TimerQueue_handleRead_end q = Inr q'" "tq_inv q'"
    "set (tq_timers q') = set (tq_timers q) \<union> rearmed (tq_now q) q (tq_expired q)"
    "\<not> tq_callingExpiredTimers q'" "tq_pending q' = tq_pending q"
    using finish_inv [OF reachable_inv [OF assms(1)] assms(2,3)] by blast
  then have "dom (tq_heap q') = tq_pending q \<union> snd ` set (tq_timers q')"
    using wf_dom [OF inv_wf [OF q'(2)]] by (simp add: tq_inv_def owned_def)
  with q' show ?thesis unfolding rearmed_def by blast
qed

theorem TimerQueue_reset_exact_witness:
  "\<exists>q'. TimerQueue_handleRead_end demo_ran = Inr q' \<and> set (tq_timers q') = {(15, 1)}"
  using TimerQueue_reset_exact [OF demo_ran_reachable]
  by (auto simp: demo_fields demo_timer_def Timer_new_def addTime_def)

text \<open>
  A timer that does not repeat runs its callback at most once, over every interleaving.
\<close>

theorem TimerQueue_oneshot_once:
  assumes "tq_reachable q"
  shows "length (filter (\<lambda>r. t_sequence r = s \<and> \<not> t_repeat r) (tq_runs q)) \<le> 1"
proof -
  have "distinct (map t_sequence (filter (\<lambda>r. \<not> t_repeat r) (tq_runs q)))"
    using reachable_inv [OF assms] by (simp add: tq_inv_def runs_ok_def)
  from distinct_map_filter_le_1 [OF this, of s] show ?thesis by (simp add: conj_commute)
qed

theorem TimerQueue_oneshot_once_witness:
  "tq_reachable demo_ran \<and>
   length (filter (\<lambda>r. t_sequence r = 1 \<and> \<not> t_repeat r) (tq_runs demo_ran)) \<le> 1"
  using TimerQueue_oneshot_once [OF demo_ran_reachable] demo_ran_reachable by blast

text \<open>
  \<open>howmuchTimeFromNow\<close> is a valid relative time that cannot disarm the \<open>timerfd\<close>: it is
  positive, normalised, and reaches exactly the expiration, or 100 microseconds from now if that
  is later.
\<close>

theorem howmuchTimeFromNow_valid:
  "case howmuchTimeFromNow now when' of (tv_sec, tv_nsec) \<Rightarrow>
     0 \<le> tv_sec \<and> 0 \<le> tv_nsec \<and> tv_nsec < 10 ^ 9 \<and> (tv_sec, tv_nsec) \<noteq> (0, 0) \<and>
     (now + tv_sec * kMicrosecondsPerSecond) * 1000 + tv_nsec = max when' (now + 100) * 1000"
proof -
  obtain s n where sn: "howmuchTimeFromNow now when' = (s, n)" by force
  note h = howmuchTimeFromNow_exact [OF sn]
  have "n = 1000 * cdiv n 1000"
    using sn by (auto simp: howmuchTimeFromNow_def Let_def kMicrosecondsPerSecond_def cdiv_nonneg cmod_nonneg
        split: if_splits)
  with h show ?thesis by (auto simp: sn algebra_simps)
qed

end
