(* ===== verification/Net_EventLoop.thy ===== *)
theory Net_EventLoop
  imports Net_TimerQueue
begin

text \<open>
  The event loop: \<open>EventLoop.h\<close>, \<open>EventLoop.cc\<close>, \<open>EventLoopThreadPool.h\<close>, \<open>EventLoopThreadPool.cc\<close> of
  \<open>ideal/net\<close> (the channel operations of \<open>EventLoop\<close> are in the theory of channels and poller).

  \<open>el_pc\<close> is the place of the loop thread in \<open>loop()\<close>: not in it, blocked in \<open>poll\<close>, calling the
  handlers of the active channels, or running the functors it took from the queue. \<open>el_wakeup\<close> is
  the counter of the \<open>eventfd\<close>: \<open>wakeup\<close> adds one, \<open>handleRead\<close> resets it, and a positive counter makes
  \<open>poll\<close> return at once. Other threads run between any two steps of the loop thread: \<open>queueInLoop\<close>
  pushes under the lock and writes the \<open>eventfd\<close> later, so the two are separate steps
  (\<open>el_waking\<close> counts the threads in between), and so are the two statements of \<open>quit\<close>
  (\<open>el_quitting\<close>). Functors and handlers run in the loop thread and may themselves queue functors
  and quit; these are steps of the loop thread that are possible while it runs user code.
\<close>

section \<open>State and operations\<close>

datatype loop_pc = NotLooping | Polling | Handling | Draining

record 'f EventLoop =
  el_looping :: bool
  el_callingPendingFunctors :: bool
  el_quit :: bool
  el_iteration :: int
  el_threadId :: int
  el_pendingFunctors :: "'f list"
  el_wakeup :: nat
  el_pc :: loop_pc
  el_functors :: "'f list"  \<comment> \<open>local of \<open>doPendingFunctors\<close>: what is left to run\<close>
  el_waking :: nat
  el_quitting :: nat
  el_early :: bool          \<comment> \<open>ghost: queued by the loop thread before \<open>loop()\<close>, not yet taken\<close>
  el_ran :: "'f list"       \<comment> \<open>ghost: functors run so far\<close>
  el_queued :: "'f list"    \<comment> \<open>ghost: functors queued so far\<close>

definition EventLoop_new :: "int \<Rightarrow> 'f EventLoop" where
  "EventLoop_new tid =
     \<lparr>el_looping = False, el_callingPendingFunctors = False, el_quit = False, el_iteration = 0,
      el_threadId = tid, el_pendingFunctors = [], el_wakeup = 0, el_pc = NotLooping, el_functors = [],
      el_waking = 0, el_quitting = 0, el_early = False, el_ran = [], el_queued = []\<rparr>"

definition EventLoop_isInLoopThread :: "int \<Rightarrow> 'f EventLoop \<Rightarrow> bool" where
  "EventLoop_isInLoopThread tid s \<longleftrightarrow> el_threadId s = tid"

definition EventLoop_wakeup :: "'f EventLoop \<Rightarrow> 'f EventLoop" where
  "EventLoop_wakeup s = s\<lparr>el_wakeup := el_wakeup s + 1\<rparr>"

definition EventLoop_handleRead :: "'f EventLoop \<Rightarrow> 'f EventLoop" where
  "EventLoop_handleRead s = s\<lparr>el_wakeup := 0\<rparr>"

text \<open>The block of \<open>queueInLoop\<close> under the lock.\<close>

definition queueInLoop_push :: "'f \<Rightarrow> 'f EventLoop \<Rightarrow> 'f EventLoop" where
  "queueInLoop_push cb s = s\<lparr>el_pendingFunctors := el_pendingFunctors s @ [cb], el_queued := el_queued s @ [cb]\<rparr>"

definition EventLoop_queueInLoop :: "int \<Rightarrow> 'f \<Rightarrow> 'f EventLoop \<Rightarrow> 'f EventLoop" where
  "EventLoop_queueInLoop tid cb s =
     (let s = queueInLoop_push cb s
      in if \<not> EventLoop_isInLoopThread tid s \<or> el_callingPendingFunctors s then EventLoop_wakeup s else s)"

definition EventLoop_runInLoop ::
  "('f \<Rightarrow> 'f EventLoop \<Rightarrow> 'f EventLoop) \<Rightarrow> int \<Rightarrow> 'f \<Rightarrow> 'f EventLoop \<Rightarrow> 'f EventLoop" where
  "EventLoop_runInLoop call tid cb s =
     (if EventLoop_isInLoopThread tid s then call cb s else EventLoop_queueInLoop tid cb s)"

definition EventLoop_queueSize :: "'f EventLoop \<Rightarrow> nat" where
  "EventLoop_queueSize s = length (el_pendingFunctors s)"

definition quit_set :: "'f EventLoop \<Rightarrow> 'f EventLoop" where
  "quit_set s = s\<lparr>el_quit := True\<rparr>"

definition EventLoop_quit :: "int \<Rightarrow> 'f EventLoop \<Rightarrow> 'f EventLoop" where
  "EventLoop_quit tid s =
     (let s = quit_set s in if \<not> EventLoop_isInLoopThread tid s then EventLoop_wakeup s else s)"

text \<open>\<open>loop()\<close>: the statements before the loop, and its condition, which decides where to go next.\<close>

definition loop_test :: "'f EventLoop \<Rightarrow> 'f EventLoop" where
  "loop_test s = (if el_quit s then s\<lparr>el_looping := False, el_pc := NotLooping\<rparr> else s\<lparr>el_pc := Polling\<rparr>)"

definition loop_begin :: "int \<Rightarrow> 'f EventLoop \<Rightarrow> 'f EventLoop result" where
  "loop_begin tid s =
     bindR (assertR (\<not> el_looping s)) (\<lambda>_.
     bindR (guardR Fatal (EventLoop_isInLoopThread tid s)) (\<lambda>_.
     Inr (loop_test (s\<lparr>el_looping := True, el_quit := False\<rparr>))))"

definition loop_poll_return :: "'f EventLoop \<Rightarrow> 'f EventLoop" where
  "loop_poll_return s = s\<lparr>el_iteration := el_iteration s + 1, el_pc := Handling\<rparr>"

text \<open>\<open>doPendingFunctors\<close>: up to the loop over the functors, one of them, and the rest.\<close>

definition doPendingFunctors_begin :: "'f EventLoop \<Rightarrow> 'f EventLoop" where
  "doPendingFunctors_begin s =
     s\<lparr>el_callingPendingFunctors := True, el_functors := el_pendingFunctors s, el_pendingFunctors := [],
       el_pc := Draining, el_early := False\<rparr>"

definition doPendingFunctors_run :: "'f EventLoop \<Rightarrow> 'f EventLoop" where
  "doPendingFunctors_run s =
     (case el_functors s of
        [] \<Rightarrow> s
      | f # fs \<Rightarrow> s\<lparr>el_functors := fs, el_ran := el_ran s @ [f]\<rparr>)"

definition doPendingFunctors_end :: "'f EventLoop \<Rightarrow> 'f EventLoop" where
  "doPendingFunctors_end s = loop_test (s\<lparr>el_callingPendingFunctors := False\<rparr>)"

section \<open>Interleavings\<close>

text \<open>
  The step \<open>queue_self\<close> is \<open>queueInLoop\<close> called in the loop thread: before \<open>loop()\<close>, from a handler or
  from a functor. \<open>push_other\<close> and \<open>wake_other\<close> are \<open>queueInLoop\<close> of another thread, \<open>quit_other\<close> and
  \<open>quit_wake\<close> its \<open>quit\<close>. \<open>poll_return\<close> is always possible, since \<open>poll\<close> also returns for other
  events and after \<open>kPollTimeMs\<close>.
\<close>

inductive el_step :: "'f EventLoop \<Rightarrow> 'f EventLoop \<Rightarrow> bool" where
  begin_loop: "el_pc s = NotLooping \<Longrightarrow> loop_begin (el_threadId s) s = Inr s' \<Longrightarrow> el_step s s'"
| poll_return: "el_pc s = Polling \<Longrightarrow> el_step s (loop_poll_return s)"
| wakeup_read: "el_pc s = Handling \<Longrightarrow> 0 < el_wakeup s \<Longrightarrow> el_step s (EventLoop_handleRead s)"
| drain_begin: "el_pc s = Handling \<Longrightarrow> el_step s (doPendingFunctors_begin s)"
| drain_run: "el_pc s = Draining \<Longrightarrow> el_functors s \<noteq> [] \<Longrightarrow> el_step s (doPendingFunctors_run s)"
| drain_end: "el_pc s = Draining \<Longrightarrow> el_functors s = [] \<Longrightarrow> el_step s (doPendingFunctors_end s)"
| queue_self: "el_pc s \<noteq> Polling \<Longrightarrow>
     el_step s ((EventLoop_queueInLoop (el_threadId s) cb s)\<lparr>el_early := el_early s \<or> el_pc s = NotLooping\<rparr>)"
| quit_self: "el_pc s \<noteq> Polling \<Longrightarrow> el_step s (EventLoop_quit (el_threadId s) s)"
| push_other: "el_step s ((queueInLoop_push cb s)\<lparr>el_waking := el_waking s + 1\<rparr>)"
| wake_other: "0 < el_waking s \<Longrightarrow> el_step s ((EventLoop_wakeup s)\<lparr>el_waking := el_waking s - 1\<rparr>)"
| quit_other: "el_step s ((quit_set s)\<lparr>el_quitting := el_quitting s + 1\<rparr>)"
| quit_wake: "0 < el_quitting s \<Longrightarrow> el_step s ((EventLoop_wakeup s)\<lparr>el_quitting := el_quitting s - 1\<rparr>)"

inductive el_reachable :: "'f EventLoop \<Rightarrow> bool" where
  el_start: "el_reachable (EventLoop_new tid)"
| el_next: "el_reachable s \<Longrightarrow> el_step s s' \<Longrightarrow> el_reachable s'"

section \<open>Timers of the loop\<close>

definition EventLoop_runAt :: "addr \<Rightarrow> Timestamp \<Rightarrow> 'cb \<Rightarrow> 'cb TimerQueue \<Rightarrow> ActiveTimer \<times> 'cb TimerQueue" where
  "EventLoop_runAt a time cb q = TimerQueue_addTimer a cb time \<lparr>dur_positive = False, dur_micros = 0\<rparr> q"

definition EventLoop_runAfter :: "addr \<Rightarrow> duration \<Rightarrow> 'cb \<Rightarrow> 'cb TimerQueue \<Rightarrow> ActiveTimer \<times> 'cb TimerQueue" where
  "EventLoop_runAfter a delay cb q = EventLoop_runAt a (addTime (tq_clock q) delay) cb q"

definition EventLoop_runEvery :: "addr \<Rightarrow> duration \<Rightarrow> 'cb \<Rightarrow> 'cb TimerQueue \<Rightarrow> ActiveTimer \<times> 'cb TimerQueue" where
  "EventLoop_runEvery a interval cb q = TimerQueue_addTimer a cb (addTime (tq_clock q) interval) interval q"

definition EventLoop_cancel :: "ActiveTimer \<Rightarrow> 'cb TimerQueue \<Rightarrow> 'cb TimerQueue result" where
  "EventLoop_cancel timerId q = TimerQueue_cancelInLoop timerId q"

section \<open>EventLoopThreadPool\<close>

text \<open>
  Loops are named by numbers. \<open>mk i\<close> is the loop the \<open>i\<close>-th \<open>EventLoopThread\<close> returns from \<open>startLoop\<close>;
  the list \<open>lp_inits\<close> records the loops the initialisation callback was called with.
\<close>

record LoopPool =
  lp_baseLoop :: nat
  lp_baseThread :: int
  lp_started :: bool
  lp_numThreads :: int
  lp_next :: nat
  lp_loops :: "nat list"
  lp_inits :: "nat list"

definition LoopPool_new :: "nat \<Rightarrow> int \<Rightarrow> LoopPool" where
  "LoopPool_new baseLoop tid = \<lparr>lp_baseLoop = baseLoop, lp_baseThread = tid, lp_started = False,
     lp_numThreads = 0, lp_next = 0, lp_loops = [], lp_inits = []\<rparr>"

definition LoopPool_setThreadNum :: "int \<Rightarrow> LoopPool \<Rightarrow> LoopPool" where
  "LoopPool_setThreadNum n p = p\<lparr>lp_numThreads := n\<rparr>"

definition LoopPool_start :: "int \<Rightarrow> (nat \<Rightarrow> nat) \<Rightarrow> bool \<Rightarrow> LoopPool \<Rightarrow> LoopPool result" where
  "LoopPool_start tid mk cb p =
     bindR (assertR (\<not> lp_started p)) (\<lambda>_.
     bindR (guardR Fatal (lp_baseThread p = tid)) (\<lambda>_.
     (let new = map mk [0 ..< nat (lp_numThreads p)];
          p = p\<lparr>lp_started := True, lp_loops := lp_loops p @ new,
                lp_inits := lp_inits p @ (if cb then new else [])\<rparr>
      in Inr (if lp_numThreads p = 0 \<and> cb then p\<lparr>lp_inits := lp_inits p @ [lp_baseLoop p]\<rparr> else p))))"

definition LoopPool_getNextLoop :: "int \<Rightarrow> LoopPool \<Rightarrow> (nat \<times> LoopPool) result" where
  "LoopPool_getNextLoop tid p =
     bindR (guardR Fatal (lp_baseThread p = tid)) (\<lambda>_.
     bindR (assertR (lp_started p)) (\<lambda>_.
     if lp_loops p \<noteq> []
     then bindR (guardR OutOfRange (lp_next p < length (lp_loops p))) (\<lambda>_.
          (let loop = lp_loops p ! lp_next p; nxt = lp_next p + 1
           in Inr (loop, p\<lparr>lp_next := if nxt = length (lp_loops p) then 0 else nxt\<rparr>)))
     else Inr (lp_baseLoop p, p)))"

definition LoopPool_getLoopForHash :: "int \<Rightarrow> nat \<Rightarrow> LoopPool \<Rightarrow> nat result" where
  "LoopPool_getLoopForHash tid hashCode p =
     bindR (guardR Fatal (lp_baseThread p = tid)) (\<lambda>_.
     bindR (assertR (lp_started p)) (\<lambda>_.
     Inr (if lp_loops p \<noteq> [] then lp_loops p ! (hashCode mod length (lp_loops p)) else lp_baseLoop p)))"

definition LoopPool_getAllLoops :: "int \<Rightarrow> LoopPool \<Rightarrow> nat list result" where
  "LoopPool_getAllLoops tid p =
     bindR (guardR Fatal (lp_baseThread p = tid)) (\<lambda>_.
     bindR (assertR (lp_started p)) (\<lambda>_.
     Inr (if lp_loops p = [] then [lp_baseLoop p] else lp_loops p)))"

section \<open>Invariant of the loop\<close>

definition el_inv :: "'f EventLoop \<Rightarrow> bool" where
  "el_inv s \<longleftrightarrow>
     el_queued s = el_ran s @ el_functors s @ el_pendingFunctors s \<and>
     (el_pc s \<noteq> Draining \<longrightarrow> el_functors s = []) \<and>
     el_looping s = (el_pc s \<noteq> NotLooping) \<and>
     el_callingPendingFunctors s = (el_pc s = Draining) \<and>
     (el_pc s = Draining \<longrightarrow> \<not> el_early s) \<and>
     (el_pc s \<noteq> Handling \<and> el_pendingFunctors s \<noteq> [] \<longrightarrow>
        0 < el_wakeup s \<or> 0 < el_waking s \<or> el_early s) \<and>
     (el_pc s = Polling \<and> el_quit s \<longrightarrow> 0 < el_wakeup s \<or> 0 < el_quitting s)"

lemmas el_defs = EventLoop_wakeup_def EventLoop_handleRead_def queueInLoop_push_def EventLoop_queueInLoop_def
  quit_set_def EventLoop_quit_def loop_test_def loop_begin_def loop_poll_return_def doPendingFunctors_begin_def
  doPendingFunctors_run_def doPendingFunctors_end_def EventLoop_isInLoopThread_def

lemma el_step_inv:
  assumes "el_step s s'" "el_inv s"
  shows "el_inv s'"
  using assms
proof (induction rule: el_step.induct)
  case (begin_loop s s')
  then show ?case by (auto simp: el_inv_def el_defs)
next
  case (drain_run s)
  then show ?case by (auto simp: el_inv_def el_defs split: list.splits)
next
  case (queue_self s cb)
  then show ?case by (cases "el_pc s") (auto simp: el_inv_def el_defs Let_def)
next
  case (quit_self s)
  then show ?case by (auto simp: el_inv_def el_defs Let_def)
qed (auto simp: el_inv_def el_defs)

lemma el_reachable_inv: "el_reachable s \<Longrightarrow> el_inv s"
proof (induction rule: el_reachable.induct)
  case (el_start tid)
  then show ?case by (simp add: el_inv_def EventLoop_new_def)
next
  case (el_next s s')
  then show ?case by (blast intro: el_step_inv)
qed

section \<open>Properties of the loop\<close>

text \<open>A loop that has run functor 1 while another thread queued functor 2.\<close>

definition demo_loop :: "nat EventLoop" where
  "demo_loop = \<lparr>el_looping = True, el_callingPendingFunctors = False, el_quit = False, el_iteration = 1,
     el_threadId = 7, el_pendingFunctors = [2], el_wakeup = 1, el_pc = Polling, el_functors = [],
     el_waking = 1, el_quitting = 0, el_early = False, el_ran = [1], el_queued = [1, 2]\<rparr>"

lemma demo_loop_reachable: "el_reachable demo_loop"
proof -
  define s1 where "s1 = (loop_test ((EventLoop_new 7)\<lparr>el_looping := True\<rparr>) :: nat EventLoop)"
  define s2 where "s2 = (queueInLoop_push 1 s1)\<lparr>el_waking := 1\<rparr>"
  define s3 where "s3 = (EventLoop_wakeup s2)\<lparr>el_waking := 0\<rparr>"
  define s4 where "s4 = doPendingFunctors_begin (loop_poll_return s3)"
  define s5 where "s5 = (queueInLoop_push 2 (doPendingFunctors_run s4))\<lparr>el_waking := 1\<rparr>"
  note ss = s1_def s2_def s3_def s4_def s5_def el_defs EventLoop_new_def
  have "el_reachable (EventLoop_new 7 :: nat EventLoop)" by (rule el_start)
  then have "el_reachable s1"
    by (rule el_next) (rule begin_loop, simp_all add: ss)
  then have "el_reachable s2"
    by (rule el_next) (use push_other [of s1 1] in \<open>simp add: ss\<close>)
  then have "el_reachable s3"
    by (rule el_next) (use wake_other [of s2] in \<open>simp add: ss\<close>)
  then have "el_reachable (loop_poll_return s3)"
    by (rule el_next) (rule poll_return, simp add: ss)
  then have "el_reachable s4"
    by (rule el_next) (use drain_begin [of "loop_poll_return s3"] in \<open>simp add: s4_def loop_poll_return_def\<close>)
  then have "el_reachable (doPendingFunctors_run s4)"
    by (rule el_next) (rule drain_run, simp_all add: ss)
  then have "el_reachable s5"
    by (rule el_next) (use push_other [of "doPendingFunctors_run s4" 2] in \<open>simp add: ss\<close>)
  then have "el_reachable (doPendingFunctors_end s5)"
    by (rule el_next) (rule drain_end, simp_all add: ss)
  then show ?thesis by (simp add: ss demo_loop_def)
qed

text \<open>
  C19. Functors run exactly once, in the order they were queued: in every reachable state the
  functors queued so far are those already run, followed by those the loop has taken and those
  still pending.
\<close>

theorem EventLoop_fifo:
  assumes "el_reachable s"
  shows "el_queued s = el_ran s @ el_functors s @ el_pendingFunctors s"
  using el_reachable_inv [OF assms] by (simp add: el_inv_def)

theorem EventLoop_fifo_witness:
  "el_reachable demo_loop \<and> el_queued demo_loop = el_ran demo_loop @ el_functors demo_loop @ el_pendingFunctors demo_loop"
  using EventLoop_fifo [OF demo_loop_reachable] demo_loop_reachable by blast

text \<open>
  C7. No lost wake-up: whenever the loop is blocked in \<open>poll\<close> while a functor is pending, the
  \<open>eventfd\<close> is readable, so that \<open>poll\<close> returns at once, or the thread that queued it is about to
  write to it; the only exception is a functor the loop thread itself queued before it called
  \<open>loop()\<close>, which waits for the first return of \<open>poll\<close>. Likewise for a \<open>quit\<close> of another thread.
\<close>

theorem EventLoop_no_lost_wakeup:
  assumes "el_reachable s" "el_pc s = Polling"
  shows "(el_pendingFunctors s \<noteq> [] \<longrightarrow> 0 < el_wakeup s \<or> 0 < el_waking s \<or> el_early s) \<and>
    (el_quit s \<longrightarrow> 0 < el_wakeup s \<or> 0 < el_quitting s)"
  using el_reachable_inv [OF assms(1)] assms(2) by (simp add: el_inv_def)

theorem EventLoop_no_lost_wakeup_witness:
  "el_pc demo_loop = Polling \<and> el_pendingFunctors demo_loop \<noteq> [] \<and> (0 < el_wakeup demo_loop \<or> 0 < el_waking demo_loop)"
  using EventLoop_no_lost_wakeup [OF demo_loop_reachable] by (simp add: demo_loop_def)

text \<open>
  One iteration empties the queue it found: from a return of \<open>poll\<close>, if no other thread
  interferes, running \<open>doPendingFunctors\<close> to its end runs every pending functor in order, and the
  loop ends exactly if \<open>quit\<close> was called.
\<close>

definition run_pending :: "'f EventLoop \<Rightarrow> 'f EventLoop" where
  "run_pending s =
     doPendingFunctors_end ((doPendingFunctors_run ^^ length (el_pendingFunctors s)) (doPendingFunctors_begin s))"

lemma doPendingFunctors_run_all:
  "(doPendingFunctors_run ^^ length (el_functors s)) s =
   s\<lparr>el_functors := [], el_ran := el_ran s @ el_functors s\<rparr>"
proof (induction "el_functors s" arbitrary: s)
  case Nil
  then show ?case by simp
next
  case (Cons f fs)
  let ?t = "doPendingFunctors_run s"
  have t: "?t = s\<lparr>el_functors := fs, el_ran := el_ran s @ [f]\<rparr>"
    using Cons.hyps(2) [symmetric] by (simp add: doPendingFunctors_run_def)
  then have "(doPendingFunctors_run ^^ length fs) ?t = ?t\<lparr>el_functors := [], el_ran := el_ran ?t @ fs\<rparr>"
    using Cons.hyps(1) [of ?t] by simp
  then show ?case
    using Cons.hyps(2) [symmetric] by (simp add: t funpow_Suc_right del: funpow.simps)
qed

theorem EventLoop_iteration_drains:
  "run_pending (loop_poll_return s) =
     (loop_test (s\<lparr>el_iteration := el_iteration s + 1, el_callingPendingFunctors := False,
        el_functors := [], el_pendingFunctors := [], el_ran := el_ran s @ el_pendingFunctors s,
        el_early := False, el_pc := Draining\<rparr>))"
proof -
  let ?d = "doPendingFunctors_begin (loop_poll_return s)"
  have "length (el_pendingFunctors (loop_poll_return s)) = length (el_functors ?d)"
    by (simp add: el_defs)
  then show ?thesis
    unfolding run_pending_def using doPendingFunctors_run_all [of ?d] by (simp add: el_defs)
qed

text \<open>
  A \<open>quit\<close> before \<open>loop\<close> is lost: \<open>loop()\<close> clears the flag, so it enters \<open>poll\<close> and keeps running.
\<close>

theorem EventLoop_quit_before_loop_lost:
  assumes "\<not> el_looping s"
  shows "\<exists>s'. loop_begin (el_threadId s) (EventLoop_quit tid s) = Inr s' \<and> el_pc s' = Polling \<and> \<not> el_quit s'"
  using assms by (auto simp: el_defs Let_def)

theorem EventLoop_quit_before_loop_lost_witness:
  "\<exists>s'. loop_begin 7 (EventLoop_quit 8 (EventLoop_new 7 :: nat EventLoop)) = Inr s' \<and>
     el_pc s' = Polling \<and> \<not> el_quit s'"
  using EventLoop_quit_before_loop_lost [of "EventLoop_new 7 :: nat EventLoop" 8] by (simp add: EventLoop_new_def)

section \<open>Properties of the pool of loops\<close>

definition pool_ok :: "LoopPool \<Rightarrow> bool" where
  "pool_ok p \<longleftrightarrow> lp_next p < length (lp_loops p) \<or> lp_loops p = [] \<and> lp_next p = 0"

fun nextLoops :: "int \<Rightarrow> nat \<Rightarrow> LoopPool \<Rightarrow> (nat list \<times> LoopPool) result" where
  "nextLoops tid 0 p = Inr ([], p)"
| "nextLoops tid (Suc n) p =
     bindR (LoopPool_getNextLoop tid p) (\<lambda>(l, p). bindR (nextLoops tid n p) (\<lambda>(ls, p). Inr (l # ls, p)))"

lemma getNextLoop_ok:
  assumes "pool_ok p" "lp_started p" "lp_baseThread p = tid"
  shows "LoopPool_getNextLoop tid p =
    Inr (if lp_loops p = [] then lp_baseLoop p else lp_loops p ! lp_next p,
         p\<lparr>lp_next := if lp_loops p = [] then 0 else (lp_next p + 1) mod length (lp_loops p)\<rparr>)"
proof -
  have "lp_next p < length (lp_loops p) \<Longrightarrow>
      (if lp_next p + 1 = length (lp_loops p) then 0 else lp_next p + 1) = (lp_next p + 1) mod length (lp_loops p)"
    by (auto simp: mod_less)
  then show ?thesis
    using assms by (cases p) (auto simp: LoopPool_getNextLoop_def pool_ok_def Let_def)
qed

text \<open>
  Round robin: after \<open>start\<close> with \<open>n > 0\<close> threads, \<open>k\<close> calls of \<open>getNextLoop\<close> return the loops
  \<open>0, 1, ..., n - 1, 0, ...\<close> in turn, without a fault; with no threads they return the base loop.
\<close>

theorem LoopPool_round_robin:
  assumes "lp_started p" "lp_baseThread p = tid" "pool_ok p"
  shows "\<exists>p'. nextLoops tid k p =
    Inr (map (\<lambda>i. if lp_loops p = [] then lp_baseLoop p else lp_loops p ! ((lp_next p + i) mod length (lp_loops p))) [0 ..< k], p') \<and>
    pool_ok p'"
  using assms
proof (induction k arbitrary: p)
  case 0
  then show ?case by simp
next
  case (Suc k)
  let ?q = "p\<lparr>lp_next := if lp_loops p = [] then 0 else (lp_next p + 1) mod length (lp_loops p)\<rparr>"
  let ?f = "\<lambda>p i. if lp_loops p = [] then lp_baseLoop p else lp_loops p ! ((lp_next p + i) mod length (lp_loops p))"
  have "\<exists>p'. nextLoops tid k ?q = Inr (map (?f ?q) [0 ..< k], p') \<and> pool_ok p'"
    by (rule Suc.IH) (use Suc.prems in \<open>simp_all add: pool_ok_def\<close>)
  then obtain p' where p': "nextLoops tid k ?q = Inr (map (?f ?q) [0 ..< k], p')" "pool_ok p'"
    by blast
  have "map (?f ?q) [0 ..< k] = map (?f p) (map Suc [0 ..< k])"
    by (auto simp: mod_add_left_eq)
  also have "map Suc [0 ..< k] = [1 ..< Suc k]"
    by (simp only: map_Suc_upt One_nat_def)
  finally have "map (?f ?q) [0 ..< k] = map (?f p) [1 ..< Suc k]" .
  moreover have "?f p 0 = (if lp_loops p = [] then lp_baseLoop p else lp_loops p ! lp_next p)"
    using Suc.prems(3) by (auto simp: pool_ok_def)
  moreover have "[0 ..< Suc k] = 0 # [1 ..< Suc k]"
    by (simp add: upt_conv_Cons)
  ultimately have "map (?f p) [0 ..< Suc k] =
      (if lp_loops p = [] then lp_baseLoop p else lp_loops p ! lp_next p) # map (?f ?q) [0 ..< k]"
    by (simp del: upt_Suc)
  moreover have "nextLoops tid (Suc k) p =
      Inr ((if lp_loops p = [] then lp_baseLoop p else lp_loops p ! lp_next p) # map (?f ?q) [0 ..< k], p')"
    using p'(1) getNextLoop_ok [OF Suc.prems(3,1,2)] by simp
  ultimately show ?case using p'(2) by (simp del: upt_Suc nextLoops.simps)
qed

theorem LoopPool_round_robin_witness:
  "\<exists>p'. bindR (LoopPool_start 7 (\<lambda>i. i + 10) False (LoopPool_setThreadNum 2 (LoopPool_new 5 7))) (nextLoops 7 3) =
     Inr ([10, 11, 10], p')"
proof -
  let ?p = "\<lparr>lp_baseLoop = 5, lp_baseThread = 7, lp_started = True, lp_numThreads = 2, lp_next = 0,
     lp_loops = [10, 11], lp_inits = []\<rparr>"
  have "LoopPool_start 7 (\<lambda>i. i + 10) False (LoopPool_setThreadNum 2 (LoopPool_new 5 7)) = Inr ?p"
    by (simp add: LoopPool_start_def LoopPool_setThreadNum_def LoopPool_new_def upt_rec)
  then show ?thesis
    using LoopPool_round_robin [of ?p 7 3] by (auto simp: pool_ok_def upt_rec)
qed

end
