(* ===== verification/Net_TcpServer.thy ===== *)
theory Net_TcpServer
  imports Net_TcpConnection Net_EventLoop
begin

unbundle bit_operations_syntax

text \<open>
  Servers: \<open>Acceptor.h\<close>, \<open>Acceptor.cc\<close>, \<open>TcpServer.h\<close> and \<open>TcpServer.cc\<close> of \<open>ideal/net\<close>.

  A server owns the acceptor, the pool of loops and the map of its connections. \<open>ts_objects\<close> holds
  every connection object, by name; functors keep them alive beyond their removal from the map.
  \<open>ts_removals\<close> and \<open>ts_destroys\<close> are the queued calls of \<open>removeConnectionInLoop\<close> and
  \<open>connectDestroyed\<close>. The connections take their own steps; the step that calls the close callback
  queues the removal, since the callback is \<open>TcpServer::removeConnection\<close>.
\<close>

section \<open>Acceptor\<close>

text \<open>
  \<open>accept\<close> is the kernel's: an error number or a descriptor with its peer. Descriptors that are given
  to the callback or closed are recorded in \<open>ac_trace\<close>.
\<close>

datatype acceptor_event = NewConnection int string | ClosedFd int | AcceptError int

record Acceptor =
  ac_threadId :: int
  ac_channel :: "unit Channel"
  ac_callback :: bool
  ac_listening :: bool
  ac_idleFd :: int
  ac_trace :: "acceptor_event list"

type_synonym accept_call = "int + int \<times> string"

definition EMFILE :: int where "EMFILE = 24"

definition Acceptor_new :: "int \<Rightarrow> nat \<Rightarrow> int \<Rightarrow> int \<Rightarrow> Acceptor result" where
  "Acceptor_new tid loop acceptFd idleFd =
     bindR (assertR (idleFd \<ge> 0)) (\<lambda>_.
     Inr \<lparr>ac_threadId = tid, ac_channel = (Channel_new loop acceptFd)\<lparr>ch_readCallback := Some ()\<rparr>,
          ac_callback = False, ac_listening = False, ac_idleFd = idleFd, ac_trace = []\<rparr>)"

definition Acceptor_listen :: "int \<Rightarrow> Acceptor \<Rightarrow> Acceptor result" where
  "Acceptor_listen tid a =
     bindR (guardR Fatal (ac_threadId a = tid)) (\<lambda>_.
     Inr (a\<lparr>ac_listening := True, ac_channel := channel_set_events (\<lambda>e. e OR kReadEvent) (ac_channel a)\<rparr>))"

text \<open>
  On \<open>EMFILE\<close> the reserve descriptor is given up, the pending connection is accepted with it and closed
  (\<open>second\<close>, if there still is one; otherwise \<open>accept\<close> and \<open>close\<close> fail on -1), and the reserve is opened
  again (\<open>reopened\<close>).
\<close>

definition Acceptor_handleRead ::
  "accept_call \<Rightarrow> accept_call \<Rightarrow> int \<Rightarrow> int \<Rightarrow> Acceptor \<Rightarrow> Acceptor result" where
  "Acceptor_handleRead first second reopened tid a =
     bindR (guardR Fatal (ac_threadId a = tid)) (\<lambda>_.
     case first of
       Inr (connfd, peerAddr) \<Rightarrow>
         Inr (a\<lparr>ac_trace := ac_trace a @ [if ac_callback a then NewConnection connfd peerAddr else ClosedFd connfd]\<rparr>)
     | Inl errno \<Rightarrow>
         (let a = a\<lparr>ac_trace := ac_trace a @ [AcceptError errno]\<rparr>
          in if errno = EMFILE
             then (let idle = (case second of Inr (fd, _) \<Rightarrow> fd | Inl _ \<Rightarrow> -1)
                   in Inr (a\<lparr>ac_trace := ac_trace a @ [ClosedFd (ac_idleFd a), ClosedFd idle], ac_idleFd := reopened\<rparr>))
             else Inr a))"

section \<open>TcpServer\<close>

record TcpServer =
  ts_threadId :: int
  ts_ipPort :: string
  ts_name :: string
  ts_acceptor :: Acceptor
  ts_threadPool :: LoopPool
  ts_writeComplete :: bool
  ts_started :: bool
  ts_nextConnId :: nat
  ts_connections :: "string set"
  ts_objects :: "string \<rightharpoonup> TcpConnection"
  ts_removals :: "string list"
  ts_destroys :: "string list"

definition TcpServer_new :: "int \<Rightarrow> string \<Rightarrow> string \<Rightarrow> Acceptor \<Rightarrow> nat \<Rightarrow> TcpServer" where
  "TcpServer_new tid ipPort name acceptor loop =
     \<lparr>ts_threadId = tid, ts_ipPort = ipPort, ts_name = name, ts_acceptor = acceptor\<lparr>ac_callback := True\<rparr>,
      ts_threadPool = LoopPool_new loop tid, ts_writeComplete = False, ts_started = False, ts_nextConnId = 1,
      ts_connections = {}, ts_objects = Map.empty, ts_removals = [], ts_destroys = []\<rparr>"

definition TcpServer_setThreadNum :: "int \<Rightarrow> TcpServer \<Rightarrow> TcpServer result" where
  "TcpServer_setThreadNum n s =
     bindR (assertR (n \<ge> 0)) (\<lambda>_. Inr (s\<lparr>ts_threadPool := LoopPool_setThreadNum n (ts_threadPool s)\<rparr>))"

definition TcpServer_start :: "(nat \<Rightarrow> nat) \<Rightarrow> bool \<Rightarrow> TcpServer \<Rightarrow> TcpServer result" where
  "TcpServer_start mk cb s =
     (if \<not> ts_started s
      then bindR (LoopPool_start (ts_threadId s) mk cb (ts_threadPool s)) (\<lambda>p.
           bindR (assertR (\<not> ac_listening (ts_acceptor s))) (\<lambda>_.
           bindR (Acceptor_listen (ts_threadId s) (ts_acceptor s)) (\<lambda>a.
           Inr (s\<lparr>ts_started := True, ts_threadPool := p, ts_acceptor := a\<rparr>))))
      else Inr s)"

definition connName :: "TcpServer \<Rightarrow> string" where
  "connName s = ts_name s @ snprintf 64 (''-'' @ ts_ipPort s @ ''#'' @ nat_dec (ts_nextConnId s))"

text \<open>\<open>thread\<close> gives the thread of a loop; the connection starts in \<open>kConnecting\<close>.\<close>

definition TcpServer_newConnection :: "(nat \<Rightarrow> int) \<Rightarrow> int \<Rightarrow> int \<Rightarrow> TcpServer \<Rightarrow> TcpServer result" where
  "TcpServer_newConnection thread tid sockfd s =
     bindR (guardR Fatal (ts_threadId s = tid)) (\<lambda>_.
     bindR (LoopPool_getNextLoop tid (ts_threadPool s)) (\<lambda>(ioLoop, p).
     (let name = connName s;
          conn = (TcpConnection_new (thread ioLoop) name ioLoop sockfd)\<lparr>tc_writeComplete := ts_writeComplete s\<rparr>
      in Inr (s\<lparr>ts_threadPool := p, ts_nextConnId := ts_nextConnId s + 1,
                ts_connections := insert name (ts_connections s),
                ts_objects := (ts_objects s)(name \<mapsto> conn)\<rparr>))))"

definition TcpServer_removeConnection :: "string \<Rightarrow> TcpServer \<Rightarrow> TcpServer" where
  "TcpServer_removeConnection name s = s\<lparr>ts_removals := ts_removals s @ [name]\<rparr>"

definition TcpServer_removeConnectionInLoop :: "int \<Rightarrow> string \<Rightarrow> TcpServer \<Rightarrow> TcpServer result" where
  "TcpServer_removeConnectionInLoop tid name s =
     bindR (guardR Fatal (ts_threadId s = tid)) (\<lambda>_.
     bindR (assertR (name \<in> ts_connections s)) (\<lambda>_.
     Inr (s\<lparr>ts_connections := ts_connections s - {name}, ts_destroys := ts_destroys s @ [name]\<rparr>)))"

text \<open>The destructor queues \<open>connectDestroyed\<close> for every connection of the map.\<close>

definition TcpServer_destroy :: "int \<Rightarrow> string list \<Rightarrow> TcpServer \<Rightarrow> TcpServer result" where
  "TcpServer_destroy tid names s =
     bindR (guardR Fatal (ts_threadId s = tid)) (\<lambda>_.
     Inr (s\<lparr>ts_destroys := ts_destroys s @ names\<rparr>))"

section \<open>Interleavings\<close>

text \<open>
  \<open>sv_conn\<close>: a connection takes a step of its own other than its destruction, which only the queued
  \<open>connectDestroyed\<close> performs. If the step called the close callback, the removal is queued.
\<close>

definition close_calls :: "TcpConnection \<Rightarrow> nat" where
  "close_calls c = tc_count CloseCallback c"

inductive sv_step :: "TcpServer \<Rightarrow> TcpServer \<Rightarrow> bool" where
  sv_accept: "TcpServer_newConnection thread (ts_threadId s) sockfd s = Inr s' \<Longrightarrow> sv_step s s'"
| sv_conn: "ts_objects s name = Some c \<Longrightarrow> cn_step c c' \<Longrightarrow>
     (ch_label (tc_channel c') = kNew \<longrightarrow> ch_label (tc_channel c) = kNew) \<Longrightarrow>
     sv_step s ((if close_calls c < close_calls c' then TcpServer_removeConnection name s else s)
                  \<lparr>ts_objects := (ts_objects s)(name \<mapsto> c')\<rparr>)"
| sv_remove: "ts_removals s = name # rest \<Longrightarrow>
     TcpServer_removeConnectionInLoop (ts_threadId s) name (s\<lparr>ts_removals := rest\<rparr>) = Inr s' \<Longrightarrow> sv_step s s'"
| sv_destroy: "ts_destroys s = name # rest \<Longrightarrow> ts_objects s name = Some c \<Longrightarrow>
     TcpConnection_connectDestroyed (tc_threadId c) c = Inr c' \<Longrightarrow>
     sv_step s (s\<lparr>ts_destroys := rest, ts_objects := (ts_objects s)(name \<mapsto> c')\<rparr>)"

inductive sv_reachable :: "TcpServer \<Rightarrow> bool" where
  sv_start: "length ipPort \<le> 31 \<Longrightarrow> sv_reachable (TcpServer_new tid ipPort name acceptor loop)"
| sv_started: "sv_reachable s \<Longrightarrow> TcpServer_start mk cb s = Inr s' \<Longrightarrow> sv_reachable s'"
| sv_next: "sv_reachable s \<Longrightarrow> sv_step s s' \<Longrightarrow> ts_nextConnId s' < 2 ^ 31 \<Longrightarrow> sv_reachable s'"

section \<open>Steps of a connection, as its server sees them\<close>

definition grows :: "TcpConnection \<Rightarrow> TcpConnection \<Rightarrow> bool" where
  "grows c c' \<longleftrightarrow> (\<exists>es. tc_trace c' = tc_trace c @ es)"

lemma grows_trans: "grows a b \<Longrightarrow> grows b c \<Longrightarrow> grows a c"
  by (auto simp: grows_def)

lemma grows_emit [simp]: "grows c (tc_emit es d) = (\<exists>fs. tc_trace d @ es = tc_trace c @ fs)"
  by (simp add: grows_def tc_emit_def)

lemma sendInLoop_grows:
  assumes "TcpConnection_sendInLoop w tid message c = Inr c'"
  shows "grows c c' \<and> (tc_state c' = tc_state c)"
proof -
  obtain n f d where t: "sendInLoop_try w message c = (n, f, d)" by (cases "sendInLoop_try w message c") auto
  have try1: "grows c d \<and> tc_state d = tc_state c"
    using t by (auto simp: sendInLoop_try_def grows_def tc_emit_def Let_def split: if_splits sum.splits)
  have q: "sendInLoop_queue r x = Inr y \<Longrightarrow> grows x y \<and> tc_state y = tc_state x" for r x y
    by (auto simp: sendInLoop_queue_def Let_def grows_def tc_emit_def tc_events_def split: if_splits)
  have "grows d (d\<lparr>tc_accepted := a\<rparr>)" for a by (simp add: grows_def)
  then show ?thesis
    using assms try1 t q [of "drop n message" "d\<lparr>tc_accepted := tc_accepted d @ message\<rparr>" c']
    by (auto simp: TcpConnection_sendInLoop_def Let_def intro: grows_trans split: if_splits)
      (auto simp: grows_def)
qed

lemmas handler_defs = TcpConnection_connectEstablished_def TcpConnection_handleWrite_def TcpConnection_handleRead_def
  TcpConnection_handleClose_def TcpConnection_handleError_def TcpConnection_shutdown_def TcpConnection_shutdownInLoop_def
  TcpConnection_forceClose_def TcpConnection_forceCloseInLoop_def TcpConnection_forceCloseWithDelay_def
  TcpConnection_startReadInLoop_def TcpConnection_stopReadInLoop_def TcpConnection_connectDestroyed_def
  tc_removeChannel_def

lemma cn_step_grows: "cn_step c c' \<Longrightarrow> grows c c'"
proof (induction rule: cn_step.induct)
  case (cn_send c w tid message c')
  then show ?case using sendInLoop_grows by (auto simp: TcpConnection_send_def grows_def split: if_splits)
next
  case (cn_run_send c message rest w c')
  then show ?case using sendInLoop_grows [OF cn_run_send(3)] by (simp add: grows_def)
next
  case (cn_read c readv c')
  obtain r b where "Buffer_readFd readv (tc_inputBuffer c) = Inr (r, b)"
    using cn_read(3) by (auto simp: TcpConnection_handleRead_def)
  then show ?case
    using cn_read(3) by (cases r) (auto simp: handler_defs Let_def grows_def tc_emit_def tc_events_def split: if_splits)
qed (auto simp: handler_defs grows_def tc_emit_def tc_events_def Let_def split: if_splits sum.splits)

lemma cn_step_connecting:
  "cn_step c c' \<Longrightarrow> tc_inv c \<Longrightarrow> tc_state c = kConnecting \<Longrightarrow> tc_state c' \<in> {kConnecting, kConnected}"
proof (induction rule: cn_step.induct)
  case (cn_send c w tid message c')
  then show ?case by (auto simp: TcpConnection_send_def)
next
  case (cn_run_send c message rest w c')
  then show ?case using sendInLoop_grows [OF cn_run_send(3)] by simp
next
  case (cn_read c readv c')
  then show ?case using reading_open [of c] by (simp add: tc_open_def)
next
  case (cn_write c w c')
  then show ?case using writing_open [of c] by (simp add: tc_open_def)
qed (auto simp: handler_defs tc_emit_def tc_events_def tc_open_def Let_def split: if_splits)

lemma close_calls_mono: "grows c c' \<Longrightarrow> close_calls c \<le> close_calls c'"
  by (auto simp: grows_def close_calls_def tc_count_def)

lemma close_calls_inv:
  assumes "tc_inv c"
  shows "close_calls c \<le> 1" "close_calls c = 1 \<Longrightarrow> tc_state c = kDisconnected"
  using assms by (cases "tc_state c"; simp add: inv_unf close_calls_def)+

definition labelled :: "TcpConnection \<Rightarrow> bool" where
  "labelled c \<longleftrightarrow> (tc_state c \<noteq> kConnecting \<longrightarrow> ch_label (tc_channel c) \<noteq> kNew)"

lemma cn_step_labelled:
  assumes "tc_inv c" "cn_step c c'" "labelled c" "ch_label (tc_channel c') = kNew \<longrightarrow> ch_label (tc_channel c) = kNew"
  shows "labelled c'"
proof (cases "ch_label (tc_channel c') = kNew")
  case True
  then have "tc_state c = kConnecting" using assms(3,4) by (auto simp: labelled_def)
  then consider "tc_state c' = kConnecting" | "tc_state c' = kConnected"
    using cn_step_connecting [OF assms(2,1)] by auto
  then show ?thesis
    using cn_step_inv [OF assms(2,1)] by cases (auto simp: labelled_def tc_inv_def state_ok_def open_ok_def)
qed (simp add: labelled_def)

section \<open>Invariant of a server\<close>

definition nameOf :: "string \<Rightarrow> string \<Rightarrow> nat \<Rightarrow> string" where
  "nameOf name ipPort i = name @ snprintf 64 (''-'' @ ipPort @ ''#'' @ nat_dec i)"

lemma nameOf_inject:
  assumes "length ipPort \<le> 31" "i < 2 ^ 31" "j < 2 ^ 31" "nameOf name ipPort i = nameOf name ipPort j"
  shows "i = j"
proof -
  have "length (nat_dec k) \<le> 10" if "k < 2 ^ 31" for k
    using length_nat_dec [of k 10] that by simp
  then have "snprintf 64 (''-'' @ ipPort @ ''#'' @ nat_dec k) = ''-'' @ ipPort @ ''#'' @ nat_dec k" if "k < 2 ^ 31" for k
    using that assms(1) unfolding snprintf_def by (intro take_all) fastforce
  then show ?thesis using assms(2-4) by (simp add: nameOf_def)
qed

definition objects_ok :: "TcpServer \<Rightarrow> bool" where
  "objects_ok s \<longleftrightarrow> (\<forall>name c. ts_objects s name = Some c \<longrightarrow>
     tc_inv c \<and> (\<exists>i < ts_nextConnId s. name = nameOf (ts_name s) (ts_ipPort s) i) \<and>
     (name \<in> ts_connections s \<longrightarrow> labelled c \<and> (name \<in> set (ts_removals s) \<longleftrightarrow> close_calls c = 1)) \<and>
     (name \<notin> ts_connections s \<longrightarrow> close_calls c = 1 \<and> name \<notin> set (ts_removals s)) \<and>
     (name \<in> set (ts_destroys s) \<longrightarrow> labelled c \<and> name \<notin> ts_connections s))"

definition sv_inv :: "TcpServer \<Rightarrow> bool" where
  "sv_inv s \<longleftrightarrow> objects_ok s \<and> length (ts_ipPort s) \<le> 31 \<and> ts_nextConnId s < 2 ^ 31 \<and>
     ts_connections s \<union> set (ts_removals s) \<union> set (ts_destroys s) \<subseteq> dom (ts_objects s) \<and>
     distinct (ts_removals s) \<and> distinct (ts_destroys s) \<and>
     lp_baseThread (ts_threadPool s) = ts_threadId s \<and> pool_ok (ts_threadPool s) \<and>
     lp_started (ts_threadPool s) = ts_started s \<and> (\<not> ts_started s \<longrightarrow> lp_loops (ts_threadPool s) = [] \<and> lp_next (ts_threadPool s) = 0)"

lemma connName_fresh:
  assumes "sv_inv s"
  shows "connName s \<notin> dom (ts_objects s)"
proof
  assume "connName s \<in> dom (ts_objects s)"
  then obtain i where "i < ts_nextConnId s" "connName s = nameOf (ts_name s) (ts_ipPort s) i"
    using assms unfolding sv_inv_def objects_ok_def by blast
  moreover have "connName s = nameOf (ts_name s) (ts_ipPort s) (ts_nextConnId s)"
    by (simp add: connName_def nameOf_def)
  ultimately show False
    using nameOf_inject [of "ts_ipPort s" i "ts_nextConnId s" "ts_name s"] assms by (simp add: sv_inv_def)
qed

lemma newConnection_ok:
  assumes inv: "sv_inv s" and st: "ts_started s" and id: "ts_nextConnId s + 1 < 2 ^ 31"
  obtains s' where "TcpServer_newConnection thread (ts_threadId s) sockfd s = Inr s'" "sv_inv s'"
    "ts_connections s' = insert (connName s) (ts_connections s)"
    "dom (ts_objects s') = insert (connName s) (dom (ts_objects s))"
proof -
  let ?name = "connName s" and ?p = "ts_threadPool s"
  obtain l p where p: "LoopPool_getNextLoop (ts_threadId s) ?p = Inr (l, p)" "pool_ok p" "lp_baseThread p = ts_threadId s"
      "lp_started p"
    using getNextLoop_ok [of ?p "ts_threadId s"] inv st by (auto simp: sv_inv_def pool_ok_def)
  let ?c = "(TcpConnection_new (thread l) ?name l sockfd)\<lparr>tc_writeComplete := ts_writeComplete s\<rparr>"
  let ?s = "s\<lparr>ts_threadPool := p, ts_nextConnId := ts_nextConnId s + 1,
      ts_connections := insert ?name (ts_connections s), ts_objects := (ts_objects s)(?name \<mapsto> ?c)\<rparr>"
  have c: "tc_inv ?c" "labelled ?c" "close_calls ?c = 0"
    by (simp_all add: inv_unf TcpConnection_new_def Channel_new_def labelled_def close_calls_def)
  have fresh: "?name \<notin> dom (ts_objects s)" by (rule connName_fresh [OF inv])
  then have "?name \<notin> ts_connections s \<union> set (ts_removals s) \<union> set (ts_destroys s)"
    using inv by (auto simp: sv_inv_def)
  moreover have "?name = nameOf (ts_name s) (ts_ipPort s) (ts_nextConnId s)"
    by (simp add: connName_def nameOf_def)
  moreover have "objects_ok s" using inv by (simp add: sv_inv_def)
  ultimately have "objects_ok ?s"
    using c unfolding objects_ok_def by (auto simp: less_Suc_eq)
  then have "sv_inv ?s"
    using inv p st id by (auto simp: sv_inv_def)
  moreover have "TcpServer_newConnection thread (ts_threadId s) sockfd s = Inr ?s"
    using p by (simp add: TcpServer_newConnection_def Let_def)
  ultimately show thesis by (intro that [of ?s]) auto
qed

lemma removeConnection_ok:
  assumes inv: "sv_inv s" and q: "ts_removals s = name # rest"
  obtains s' where "TcpServer_removeConnectionInLoop (ts_threadId s) name (s\<lparr>ts_removals := rest\<rparr>) = Inr s'" "sv_inv s'"
proof -
  obtain c where c: "ts_objects s name = Some c" using inv q by (auto simp: sv_inv_def)
  then have mem: "name \<in> ts_connections s" "close_calls c = 1" "labelled c"
    using inv q unfolding sv_inv_def objects_ok_def by (metis list.set_intros(1))+
  let ?s = "s\<lparr>ts_removals := rest, ts_connections := ts_connections s - {name}, ts_destroys := ts_destroys s @ [name]\<rparr>"
  have new: "name \<notin> set (ts_destroys s)" "name \<notin> set rest"
    using inv mem(1) c q unfolding sv_inv_def objects_ok_def by auto
  have "objects_ok ?s"
    using inv mem c q new unfolding sv_inv_def objects_ok_def by auto
  then have "sv_inv ?s"
    using inv q new c by (auto simp: sv_inv_def)
  moreover have "TcpServer_removeConnectionInLoop (ts_threadId s) name (s\<lparr>ts_removals := rest\<rparr>) = Inr ?s"
    using mem(1) by (simp add: TcpServer_removeConnectionInLoop_def)
  ultimately show thesis using that by blast
qed

lemma destroyConnection_ok:
  assumes inv: "sv_inv s" and q: "ts_destroys s = name # rest"
  obtains c c' where "ts_objects s name = Some c" "TcpConnection_connectDestroyed (tc_threadId c) c = Inr c'"
    "sv_inv (s\<lparr>ts_destroys := rest, ts_objects := (ts_objects s)(name \<mapsto> c')\<rparr>)"
proof -
  obtain c where c: "ts_objects s name = Some c" using inv q by (auto simp: sv_inv_def)
  then have mem: "name \<notin> ts_connections s" "close_calls c = 1" "labelled c" "tc_inv c" "name \<notin> set (ts_removals s)"
    using inv q unfolding sv_inv_def objects_ok_def by (metis list.set_intros(1))+
  have st: "tc_state c = kDisconnected" using close_calls_inv(2) [OF mem(4,2)] .
  then obtain c' where c': "TcpConnection_connectDestroyed (tc_threadId c) c = Inr c'" "tc_inv c'"
    using destroyed_inv [OF mem(4)] mem(3) by (auto simp: labelled_def)
  have "grows c c'" using cn_step_grows [OF cn_destroyed [OF _ c'(1)]] st by simp
  then have close: "close_calls c' = 1"
    using close_calls_mono close_calls_inv(1) [OF c'(2)] mem(2) by fastforce
  let ?s = "s\<lparr>ts_destroys := rest, ts_objects := (ts_objects s)(name \<mapsto> c')\<rparr>"
  have "objects_ok ?s"
    using inv c c'(2) close mem q unfolding sv_inv_def objects_ok_def by auto
  then have "sv_inv ?s"
    using inv q c by (auto simp: sv_inv_def)
  with c c' that show thesis by blast
qed

lemma conn_step_ok:
  assumes inv: "sv_inv s" and c: "ts_objects s name = Some c" "cn_step c c'"
    and l: "ch_label (tc_channel c') = kNew \<longrightarrow> ch_label (tc_channel c) = kNew"
  shows "sv_inv ((if close_calls c < close_calls c' then TcpServer_removeConnection name s else s)
      \<lparr>ts_objects := (ts_objects s)(name \<mapsto> c')\<rparr>)"
proof -
  have obj: "objects_ok s" using inv by (simp add: sv_inv_def)
  then have tc: "tc_inv c" unfolding objects_ok_def using c(1) by blast
  then have inv': "tc_inv c'" by (rule cn_step_inv [OF c(2)])
  have lab: "labelled c \<Longrightarrow> labelled c'" using cn_step_labelled [OF tc c(2) _ l] .
  have le: "close_calls c \<le> close_calls c'" "close_calls c' \<le> 1"
    using close_calls_mono [OF cn_step_grows [OF c(2)]] close_calls_inv(1) [OF inv'] by auto
  show ?thesis
  proof (cases "close_calls c < close_calls c'")
    case True
    then have z: "close_calls c = 0" "close_calls c' = 1" using le by auto
    then have mem: "name \<in> ts_connections s" "name \<notin> set (ts_removals s)" "labelled c"
      using obj c(1) unfolding objects_ok_def by (metis zero_neq_one)+
    let ?s = "(TcpServer_removeConnection name s)\<lparr>ts_objects := (ts_objects s)(name \<mapsto> c')\<rparr>"
    have "objects_ok ?s"
      using obj inv' z lab mem c(1) unfolding objects_ok_def TcpServer_removeConnection_def by auto
    then show ?thesis
      using True inv mem c(1) by (auto simp: sv_inv_def TcpServer_removeConnection_def)
  next
    case False
    then have eq: "close_calls c' = close_calls c" using le by simp
    have "objects_ok (s\<lparr>ts_objects := (ts_objects s)(name \<mapsto> c')\<rparr>)"
      using obj inv' eq lab c(1) unfolding objects_ok_def by auto
    then show ?thesis using False inv c(1) by (auto simp: sv_inv_def)
  qed
qed

lemma sv_step_inv:
  assumes "sv_step s s'" "sv_inv s" "ts_nextConnId s' < 2 ^ 31"
  shows "sv_inv s'"
  using assms
proof (cases rule: sv_step.cases)
  case (sv_accept thread sockfd)
  have st: "ts_started s" using sv_accept assms(2)
    by (auto simp: TcpServer_newConnection_def LoopPool_getNextLoop_def sv_inv_def)
  have id: "ts_nextConnId s + 1 < 2 ^ 31" using sv_accept assms(3)
    by (auto simp: TcpServer_newConnection_def Let_def)
  show ?thesis using newConnection_ok [OF assms(2) st id, of thread sockfd] sv_accept by auto
next
  case (sv_conn name c c')
  then show ?thesis using conn_step_ok [OF assms(2)] by blast
next
  case (sv_remove name rest)
  then show ?thesis using removeConnection_ok [OF assms(2) sv_remove(1)] by auto
next
  case (sv_destroy name rest c c')
  then show ?thesis using destroyConnection_ok [OF assms(2) sv_destroy(2)] by (metis option.inject sum.inject(2))
qed

lemma start_inv:
  assumes inv: "sv_inv s" and st: "TcpServer_start mk cb s = Inr s'"
  shows "sv_inv s'"
proof (cases "ts_started s")
  case True
  then show ?thesis using inv st by (simp add: TcpServer_start_def)
next
  case False
  then obtain p a where p: "LoopPool_start (ts_threadId s) mk cb (ts_threadPool s) = Inr p"
      "s' = s\<lparr>ts_started := True, ts_threadPool := p, ts_acceptor := a\<rparr>"
    using st by (auto simp: TcpServer_start_def)
  then have "lp_started p \<and> pool_ok p \<and> lp_baseThread p = ts_threadId s"
    using inv False by (auto simp: LoopPool_start_def Let_def sv_inv_def pool_ok_def split: if_splits)
  moreover have "objects_ok s'" using inv p(2) by (simp add: sv_inv_def objects_ok_def)
  ultimately show ?thesis using inv p(2) by (auto simp: sv_inv_def)
qed

lemma sv_reachable_inv: "sv_reachable s \<Longrightarrow> sv_inv s"
proof (induction rule: sv_reachable.induct)
  case (sv_start ipPort tid name acceptor loop)
  then show ?case
    by (simp add: sv_inv_def objects_ok_def TcpServer_new_def LoopPool_new_def pool_ok_def)
next
  case (sv_started s mk cb s')
  then show ?case by (blast intro: start_inv)
next
  case (sv_next s s')
  then show ?case by (blast intro: sv_step_inv)
qed

section \<open>Properties of servers\<close>


definition demo_server :: TcpServer where
  "demo_server = TcpServer_new 7 ''1.2.3.4:80'' ''web''
     \<lparr>ac_threadId = 7, ac_channel = Channel_new 0 3, ac_callback = False, ac_listening = False,
      ac_idleFd = 9, ac_trace = []\<rparr> 0"


end
