(* ===== verification/Net_Connector.thy ===== *)
theory Net_Connector
  imports "HOL-Library.Multiset" Net_TcpConnection
begin

text \<open>
  The client side: \<open>Connector\<close> and \<open>TcpClient\<close> of \<open>ideal/net\<close>.

  A connector is a record of its members, with the functors it has queued in its loop, in order, and the
  delays of the retry timers it has set, all of which call \<open>startInLoop\<close>. The kernel is a parameter: what
  \<open>socket\<close> returns, the error number of \<open>connect\<close> (0 for success), the pending error of a socket and
  whether it is connected to itself. Sockets opened, closed and handed to \<open>_newConnectionCallback\<close> are a trace.
\<close>

section \<open>Connector\<close>

datatype ConnectorState = Connector_kDisconnected | Connector_kConnecting | Connector_kConnected

datatype connector_call = StartInLoop | StopInLoop | ResetChannel

datatype socket_event = SocketOpened int | SocketClosed int | NewConnection int

record Connector =
  cr_threadId :: int
  cr_loop :: nat
  cr_connect :: bool
  cr_state :: ConnectorState
  cr_channel :: "unit Channel option"
  cr_retryDelayMs :: int
  cr_functors :: "connector_call list"
  cr_timers :: "int list"
  cr_trace :: "socket_event list"

definition kMaxRetryDelayMs :: int where "kMaxRetryDelayMs = 30 * 1000"
definition kInitRetryDelayMs :: int where "kInitRetryDelayMs = 500"

definition ENETUNREACH :: int where "ENETUNREACH = 101"
definition ECONNREFUSED :: int where "ECONNREFUSED = 111"
definition EINPROGRESS :: int where "EINPROGRESS = 115"
definition EACCES :: int where "EACCES = 13"

text \<open>The cases of the \<open>switch\<close>: \<open>0, EINPROGRESS, EINTR, EISCONN\<close>, then \<open>EAGAIN, EADDRINUSE, EADDRNOTAVAIL, ECONNREFUSED, ENETUNREACH\<close>.\<close>

definition connect_proceeds :: "int \<Rightarrow> bool" where
  "connect_proceeds err \<longleftrightarrow> err \<in> {0, EINPROGRESS, 4, 106}"

definition connect_retries :: "int \<Rightarrow> bool" where
  "connect_retries err \<longleftrightarrow> err \<in> {11, 98, 99, ECONNREFUSED, ENETUNREACH}"

definition Connector_new :: "int \<Rightarrow> nat \<Rightarrow> Connector" where
  "Connector_new tid loop = \<lparr>cr_threadId = tid, cr_loop = loop, cr_connect = False, cr_state = Connector_kDisconnected,
     cr_channel = None, cr_retryDelayMs = kInitRetryDelayMs, cr_functors = [], cr_timers = [], cr_trace = []\<rparr>"

definition Connector_destroy :: "Connector \<Rightarrow> unit result" where
  "Connector_destroy c = assertR (cr_channel c = None)"

definition cr_assertInLoopThread :: "int \<Rightarrow> Connector \<Rightarrow> unit result" where
  "cr_assertInLoopThread tid c = guardR Fatal (cr_threadId c = tid)"

definition cr_emit :: "socket_event \<Rightarrow> Connector \<Rightarrow> Connector" where
  "cr_emit e c = c\<lparr>cr_trace := cr_trace c @ [e]\<rparr>"

definition Connector_retry :: "int \<Rightarrow> Connector \<Rightarrow> Connector" where
  "Connector_retry sockfd c =
     (let c = (cr_emit (SocketClosed sockfd) c)\<lparr>cr_state := Connector_kDisconnected\<rparr>
      in if cr_connect c
         then c\<lparr>cr_timers := cr_timers c @ [cr_retryDelayMs c],
                cr_retryDelayMs := min (cr_retryDelayMs c * 2) kMaxRetryDelayMs\<rparr>
         else c)"

definition Connector_connecting :: "int \<Rightarrow> Connector \<Rightarrow> Connector result" where
  "Connector_connecting sockfd c =
     (let c = c\<lparr>cr_state := Connector_kConnecting\<rparr> in
      bindR (assertR (cr_channel c = None)) (\<lambda>_.
      (let channel = (Channel_new (cr_loop c) sockfd)\<lparr>ch_writeCallback := Some (), ch_errorCallback := Some ()\<rparr>
       in Inr (c\<lparr>cr_channel := Some (channel_set_events (\<lambda>e. e OR kWriteEvent) channel)\<rparr>))))"

definition Connector_connect :: "int \<Rightarrow> int \<Rightarrow> Connector \<Rightarrow> Connector result" where
  "Connector_connect sockfd savedErrno c =
     bindR (guardR Fatal (0 \<le> sockfd)) (\<lambda>_.
     (let c = cr_emit (SocketOpened sockfd) c
      in if connect_proceeds savedErrno then Connector_connecting sockfd c
         else if connect_retries savedErrno then Inr (Connector_retry sockfd c)
         else Inr (cr_emit (SocketClosed sockfd) c)))"

definition Connector_startInLoop :: "int \<Rightarrow> int \<Rightarrow> int \<Rightarrow> Connector \<Rightarrow> Connector result" where
  "Connector_startInLoop sockfd savedErrno tid c =
     bindR (cr_assertInLoopThread tid c) (\<lambda>_.
     bindR (assertR (cr_state c = Connector_kDisconnected)) (\<lambda>_.
     if cr_connect c then Connector_connect sockfd savedErrno c else Inr c))"

definition Connector_start :: "int \<Rightarrow> int \<Rightarrow> int \<Rightarrow> Connector \<Rightarrow> Connector result" where
  "Connector_start sockfd savedErrno tid c =
     (let c = c\<lparr>cr_connect := True\<rparr>
      in if cr_threadId c = tid then Connector_startInLoop sockfd savedErrno tid c
         else Inr (c\<lparr>cr_functors := cr_functors c @ [StartInLoop]\<rparr>))"

definition Connector_removeAndResetChannel :: "Connector \<Rightarrow> (int \<times> Connector) result" where
  "Connector_removeAndResetChannel c =
     (case cr_channel c of
        None \<Rightarrow> Inl NullPointer
      | Some channel \<Rightarrow>
          (let channel = channel_set_events (\<lambda>_. kNoneEvent) channel in
           bindR (assertR (isNoneEvent channel)) (\<lambda>_.
           bindR (assertR (ch_label channel \<noteq> kNew)) (\<lambda>_.
           Inr (ch_fd channel, c\<lparr>cr_channel := Some (channel\<lparr>ch_label := kNew, ch_addedToLoop := False\<rparr>),
                                 cr_functors := cr_functors c @ [ResetChannel]\<rparr>)))))"

definition Connector_resetChannel :: "Connector \<Rightarrow> Connector" where
  "Connector_resetChannel c = c\<lparr>cr_channel := None\<rparr>"

text \<open>The second component is the socket the callback gets, the last thing \<open>handleWrite\<close> does with it.\<close>

definition Connector_handleWrite :: "int \<Rightarrow> bool \<Rightarrow> Connector \<Rightarrow> (Connector \<times> int option) result" where
  "Connector_handleWrite err selfConnect c =
     (if cr_state c = Connector_kConnecting
      then bindR (Connector_removeAndResetChannel c) (\<lambda>(sockfd, c).
           Inr (if err \<noteq> 0 then (Connector_retry sockfd c, None)
                else if selfConnect then (Connector_retry sockfd c, None)
                else (let c = c\<lparr>cr_state := Connector_kConnected\<rparr>
                      in if cr_connect c then (cr_emit (NewConnection sockfd) c, Some sockfd)
                         else (cr_emit (SocketClosed sockfd) c, None))))
      else bindR (assertR (cr_state c = Connector_kDisconnected)) (\<lambda>_. Inr (c, None)))"

definition Connector_handleError :: "Connector \<Rightarrow> Connector result" where
  "Connector_handleError c =
     (if cr_state c = Connector_kConnecting
      then bindR (Connector_removeAndResetChannel c) (\<lambda>(sockfd, c). Inr (Connector_retry sockfd c))
      else Inr c)"

definition Connector_restart :: "int \<Rightarrow> int \<Rightarrow> int \<Rightarrow> Connector \<Rightarrow> Connector result" where
  "Connector_restart sockfd savedErrno tid c =
     bindR (cr_assertInLoopThread tid c) (\<lambda>_.
     Connector_startInLoop sockfd savedErrno tid
       (c\<lparr>cr_state := Connector_kDisconnected, cr_retryDelayMs := kInitRetryDelayMs, cr_connect := True\<rparr>))"

definition Connector_stop :: "Connector \<Rightarrow> Connector" where
  "Connector_stop c = c\<lparr>cr_connect := False, cr_functors := cr_functors c @ [StopInLoop]\<rparr>"

definition Connector_stopInLoop :: "int \<Rightarrow> Connector \<Rightarrow> Connector result" where
  "Connector_stopInLoop tid c =
     bindR (cr_assertInLoopThread tid c) (\<lambda>_.
     if cr_state c = Connector_kConnecting
     then bindR (Connector_removeAndResetChannel (c\<lparr>cr_state := Connector_kDisconnected\<rparr>)) (\<lambda>(sockfd, c).
          Inr (Connector_retry sockfd c))
     else Inr c)"

text \<open>What the loop does for a connector: the next of its functors, and a timer that is due.\<close>

definition run_call :: "int \<Rightarrow> int \<Rightarrow> connector_call \<Rightarrow> Connector \<Rightarrow> Connector result" where
  "run_call sockfd savedErrno call c =
     (case call of
        StartInLoop \<Rightarrow> Connector_startInLoop sockfd savedErrno (cr_threadId c) c
      | StopInLoop \<Rightarrow> Connector_stopInLoop (cr_threadId c) c
      | ResetChannel \<Rightarrow> Inr (Connector_resetChannel c))"

definition run_functor :: "int \<Rightarrow> int \<Rightarrow> Connector \<Rightarrow> Connector result" where
  "run_functor sockfd savedErrno c =
     (case cr_functors c of [] \<Rightarrow> Inr c
      | call # rest \<Rightarrow> run_call sockfd savedErrno call (c\<lparr>cr_functors := rest\<rparr>))"

definition run_timer :: "nat \<Rightarrow> int \<Rightarrow> int \<Rightarrow> Connector \<Rightarrow> Connector result" where
  "run_timer i sockfd savedErrno c =
     Connector_startInLoop sockfd savedErrno (cr_threadId c)
       (c\<lparr>cr_timers := take i (cr_timers c) @ drop (Suc i) (cr_timers c)\<rparr>)"

section \<open>TcpClient\<close>

record TcpClient =
  tl_threadId :: int
  tl_loop :: nat
  tl_connector :: Connector
  tl_name :: string
  tl_writeComplete :: bool
  tl_retry :: bool
  tl_connect :: bool
  tl_nextConnId :: nat
  tl_connection :: "TcpConnection option"
  tl_destroys :: "TcpConnection list"

definition TcpClient_new :: "int \<Rightarrow> nat \<Rightarrow> string \<Rightarrow> TcpClient" where
  "TcpClient_new tid loop name = \<lparr>tl_threadId = tid, tl_loop = loop, tl_connector = Connector_new tid loop, tl_name = name,
     tl_writeComplete = False, tl_retry = False, tl_connect = True, tl_nextConnId = 1, tl_connection = None, tl_destroys = []\<rparr>"

definition TcpClient_setWriteCompleteCallback :: "TcpClient \<Rightarrow> TcpClient" where
  "TcpClient_setWriteCompleteCallback cl = cl\<lparr>tl_writeComplete := True\<rparr>"

definition TcpClient_connect :: "int \<Rightarrow> int \<Rightarrow> int \<Rightarrow> TcpClient \<Rightarrow> TcpClient result" where
  "TcpClient_connect sockfd savedErrno tid cl =
     (let cl = cl\<lparr>tl_connect := True\<rparr> in
      bindR (Connector_start sockfd savedErrno tid (tl_connector cl)) (\<lambda>c. Inr (cl\<lparr>tl_connector := c\<rparr>)))"

definition TcpClient_disconnect :: "int \<Rightarrow> TcpClient \<Rightarrow> TcpClient result" where
  "TcpClient_disconnect tid cl =
     (let cl = cl\<lparr>tl_connect := False\<rparr> in
      case tl_connection cl of
        None \<Rightarrow> Inr cl
      | Some conn \<Rightarrow> bindR (TcpConnection_shutdown tid conn) (\<lambda>conn. Inr (cl\<lparr>tl_connection := Some conn\<rparr>)))"

definition TcpClient_stop :: "TcpClient \<Rightarrow> TcpClient" where
  "TcpClient_stop cl = cl\<lparr>tl_connect := False, tl_connector := Connector_stop (tl_connector cl)\<rparr>"

definition client_connName :: "string \<Rightarrow> TcpClient \<Rightarrow> string" where
  "client_connName peer cl = tl_name cl @ snprintf 32 ('':'' @ peer @ ''#'' @ nat_dec (tl_nextConnId cl))"

definition TcpClient_newConnection :: "string \<Rightarrow> int \<Rightarrow> int \<Rightarrow> TcpClient \<Rightarrow> TcpClient result" where
  "TcpClient_newConnection peer tid sockfd cl =
     bindR (guardR Fatal (tl_threadId cl = tid)) (\<lambda>_.
     (let connName = client_connName peer cl;
          cl = cl\<lparr>tl_nextConnId := tl_nextConnId cl + 1\<rparr>;
          conn = (TcpConnection_new (tl_threadId cl) connName (tl_loop cl) sockfd)\<lparr>tc_writeComplete := tl_writeComplete cl\<rparr>
      in bindR (TcpConnection_connectEstablished tid conn) (\<lambda>conn. Inr (cl\<lparr>tl_connection := Some conn\<rparr>))))"

text \<open>The connection is the client's when it has its name: names are numbered.\<close>

definition TcpClient_removeConnection :: "int \<Rightarrow> int \<Rightarrow> int \<Rightarrow> TcpConnection \<Rightarrow> TcpClient \<Rightarrow> TcpClient result" where
  "TcpClient_removeConnection sockfd savedErrno tid conn cl =
     bindR (guardR Fatal (tl_threadId cl = tid)) (\<lambda>_.
     bindR (assertR (tl_threadId cl = tc_threadId conn)) (\<lambda>_.
     bindR (assertR (map_option tc_name (tl_connection cl) = Some (tc_name conn))) (\<lambda>_.
     (let cl = cl\<lparr>tl_connection := None, tl_destroys := tl_destroys cl @ [conn]\<rparr>
      in if tl_retry cl \<and> tl_connect cl
         then bindR (Connector_restart sockfd savedErrno tid (tl_connector cl)) (\<lambda>c. Inr (cl\<lparr>tl_connector := c\<rparr>))
         else Inr cl))))"

text \<open>
  The destructor: with a connection its close callback is replaced and it is closed when no one else holds
  it; without one the connector is stopped. Its result is the connection that stays and the connector.
\<close>

definition TcpClient_destroy :: "int \<Rightarrow> bool \<Rightarrow> TcpClient \<Rightarrow> (TcpConnection option \<times> Connector) result" where
  "TcpClient_destroy tid unique cl =
     (case tl_connection cl of
        Some conn \<Rightarrow>
          bindR (assertR (tl_threadId cl = tc_threadId conn)) (\<lambda>_.
          bindR (if unique then TcpConnection_forceClose tid conn else Inr conn) (\<lambda>conn.
          Inr (Some conn, tl_connector cl)))
      | None \<Rightarrow> Inr (None, Connector_stop (tl_connector cl)))"

text \<open>The write event of the connector's channel, with the callback \<open>newConnection\<close>.\<close>

definition TcpClient_handleWrite :: "string \<Rightarrow> int \<Rightarrow> bool \<Rightarrow> TcpClient \<Rightarrow> TcpClient result" where
  "TcpClient_handleWrite peer err selfConnect cl =
     bindR (Connector_handleWrite err selfConnect (tl_connector cl)) (\<lambda>(c, sockfd).
     (let cl = cl\<lparr>tl_connector := c\<rparr> in
      case sockfd of
        Some fd \<Rightarrow> TcpClient_newConnection peer (cr_threadId c) fd cl
      | None \<Rightarrow> Inr cl))"

section \<open>Runs of a connector\<close>

inductive cr_step :: "Connector \<Rightarrow> Connector \<Rightarrow> bool" where
  cr_started: "Connector_start sockfd err tid c = Inr c' \<Longrightarrow> cr_step c c'"
| cr_stopped: "cr_step c (Connector_stop c)"
| cr_functor: "run_functor sockfd err c = Inr c' \<Longrightarrow> cr_step c c'"
| cr_timer: "i < length (cr_timers c) \<Longrightarrow> run_timer i sockfd err c = Inr c' \<Longrightarrow> cr_step c c'"
| cr_write: "cr_channel c \<noteq> None \<Longrightarrow> Connector_handleWrite err self c = Inr (c', fd) \<Longrightarrow> cr_step c c'"
| cr_error: "cr_channel c \<noteq> None \<Longrightarrow> Connector_handleError c = Inr c' \<Longrightarrow> cr_step c c'"
| cr_restarted: "cr_state c = Connector_kConnected \<Longrightarrow> Connector_restart sockfd err tid c = Inr c' \<Longrightarrow> cr_step c c'"

inductive cr_reachable :: "Connector \<Rightarrow> bool" where
  cr_new: "cr_reachable (Connector_new tid loop)"
| cr_next: "cr_reachable c \<Longrightarrow> cr_step c c' \<Longrightarrow> cr_reachable c'"

fun opened :: "socket_event \<Rightarrow> int list" where
  "opened (SocketOpened fd) = [fd]" | "opened _ = []"

fun closed :: "socket_event \<Rightarrow> int list" where
  "closed (SocketClosed fd) = [fd]" | "closed _ = []"

fun handed :: "socket_event \<Rightarrow> int list" where
  "handed (NewConnection fd) = [fd]" | "handed _ = []"

definition sockets :: "(socket_event \<Rightarrow> int list) \<Rightarrow> Connector \<Rightarrow> int multiset" where
  "sockets f c = mset (concat (map f (cr_trace c)))"

definition pending_socket :: "Connector \<Rightarrow> int multiset" where
  "pending_socket c = (if cr_state c = Connector_kConnecting
     then case cr_channel c of Some ch \<Rightarrow> {#ch_fd ch#} | None \<Rightarrow> {#} else {#})"

definition balanced :: "Connector \<Rightarrow> bool" where
  "balanced c \<longleftrightarrow> sockets opened c = sockets closed c + sockets handed c + pending_socket c"

definition waiting :: "unit Channel \<Rightarrow> bool" where
  "waiting ch \<longleftrightarrow> ch_label ch = kAdded \<and> ch_events ch = kWriteEvent"

definition channel_ok :: "Connector \<Rightarrow> bool" where
  "channel_ok c \<longleftrightarrow>
     (cr_state c = Connector_kConnecting \<longrightarrow> (\<exists>ch. cr_channel c = Some ch \<and> waiting ch)) \<and>
     count_list (cr_functors c) ResetChannel = (if cr_channel c \<noteq> None \<and> cr_state c \<noteq> Connector_kConnecting then 1 else 0)"

definition delay_ok :: "int \<Rightarrow> bool" where
  "delay_ok d \<longleftrightarrow> kInitRetryDelayMs \<le> d \<and> d \<le> kMaxRetryDelayMs"

definition cr_inv :: "Connector \<Rightarrow> bool" where
  "cr_inv c \<longleftrightarrow> balanced c \<and> channel_ok c \<and> delay_ok (cr_retryDelayMs c) \<and> (\<forall>d\<in>set (cr_timers c). delay_ok d)"

lemmas cr_unf = cr_inv_def balanced_def channel_ok_def sockets_def pending_socket_def cr_emit_def

lemma count_list_append [simp]: "count_list (xs @ ys) x = count_list xs x + count_list ys x"
  by (induction xs) simp_all

definition connect_channel :: "nat \<Rightarrow> int \<Rightarrow> unit Channel" where
  "connect_channel loop sockfd = channel_set_events (\<lambda>e. e OR kWriteEvent)
     ((Channel_new loop sockfd)\<lparr>ch_writeCallback := Some (), ch_errorCallback := Some ()\<rparr>)"

lemma connect_channel_waiting: "waiting (connect_channel loop sockfd)" "ch_fd (connect_channel loop sockfd) = sockfd"
  by (simp_all add: connect_channel_def waiting_def channel_set_events_def Channel_new_def kNoneEvent_def kWriteEvent_def
      POLLOUT_def)

lemma startInLoop_cases:
  assumes "Connector_startInLoop sockfd err tid c = Inr c'"
  obtains "c' = c"
  | "cr_state c = Connector_kDisconnected" "cr_channel c = None"
    "c' = (cr_emit (SocketOpened sockfd) c)\<lparr>cr_state := Connector_kConnecting, cr_channel := Some (connect_channel (cr_loop c) sockfd)\<rparr>"
  | "cr_state c = Connector_kDisconnected" "c' = Connector_retry sockfd (cr_emit (SocketOpened sockfd) c)"
  | "cr_state c = Connector_kDisconnected" "c' = cr_emit (SocketClosed sockfd) (cr_emit (SocketOpened sockfd) c)"
proof -
  have st: "cr_state c = Connector_kDisconnected"
    using assms by (simp add: Connector_startInLoop_def bindR_eq_Inr_iff)
  show thesis
  proof (cases "cr_connect c")
    case False
    then show thesis using assms by (intro that(1)) (simp add: Connector_startInLoop_def bindR_eq_Inr_iff)
  next
    case True
    then have run: "Connector_connect sockfd err c = Inr c'"
      using assms by (simp add: Connector_startInLoop_def bindR_eq_Inr_iff)
    consider "connect_proceeds err" | "\<not> connect_proceeds err" "connect_retries err"
      | "\<not> connect_proceeds err" "\<not> connect_retries err" by blast
    then show thesis
    proof cases
      case 1
      then show thesis using run st
        by (intro that(2)) (simp_all add: Connector_connect_def Connector_connecting_def Let_def connect_channel_def
            bindR_eq_Inr_iff cr_emit_def)
    next
      case 2
      then show thesis using run st by (intro that(3)) (simp_all add: Connector_connect_def Let_def bindR_eq_Inr_iff)
    next
      case 3
      then show thesis using run st by (intro that(4)) (simp_all add: Connector_connect_def Let_def bindR_eq_Inr_iff)
    qed
  qed
qed

lemma retry_delay: "delay_ok d \<Longrightarrow> delay_ok (min (d * 2) kMaxRetryDelayMs)"
  by (simp add: delay_ok_def kInitRetryDelayMs_def kMaxRetryDelayMs_def)

lemma startInLoop_inv:
  assumes "Connector_startInLoop sockfd err tid c = Inr c'" and inv: "cr_inv c"
  shows "cr_inv c'"
  using assms(1)
proof (cases rule: startInLoop_cases)
  case 1
  then show ?thesis using inv by simp
next
  case 2
  then show ?thesis using inv connect_channel_waiting by (simp add: cr_unf)
next
  case 3
  then show ?thesis using inv retry_delay by (auto simp: cr_unf Connector_retry_def Let_def)
next
  case 4
  then show ?thesis using inv by (simp add: cr_unf)
qed

lemma connector_start_inv: "Connector_start sockfd err tid c = Inr c' \<Longrightarrow> cr_inv c \<Longrightarrow> cr_inv c'"
proof -
  assume run: "Connector_start sockfd err tid c = Inr c'" and inv: "cr_inv c"
  have "cr_inv (c\<lparr>cr_connect := True\<rparr>)" using inv by (simp add: cr_unf)
  then show "cr_inv c'"
    using run startInLoop_inv by (auto simp: Connector_start_def Let_def split: if_splits) (simp add: cr_unf)
qed

lemma stop_inv: "cr_inv c \<Longrightarrow> cr_inv (Connector_stop c)"
  by (simp add: Connector_stop_def cr_unf)

text \<open>Taking the channel down, and then retrying, closing or handing over, restores the invariant.\<close>

definition taken_down :: "unit Channel \<Rightarrow> ConnectorState \<Rightarrow> Connector \<Rightarrow> Connector" where
  "taken_down ch st c = c\<lparr>cr_state := st, cr_channel := Some (ch\<lparr>ch_label := kNew, ch_events := 0, ch_addedToLoop := False\<rparr>),
     cr_functors := cr_functors c @ [ResetChannel]\<rparr>"

lemma remove_taken_down:
  assumes "cr_inv c" "cr_state c = Connector_kConnecting"
  obtains ch where "cr_channel c = Some ch" "waiting ch"
    "\<And>st. Connector_removeAndResetChannel (c\<lparr>cr_state := st\<rparr>) = Inr (ch_fd ch, taken_down ch st c)"
    "Connector_removeAndResetChannel c = Inr (ch_fd ch, taken_down ch Connector_kConnecting c)"
proof -
  obtain ch where ch: "cr_channel c = Some ch" "waiting ch" using assms by (auto simp: cr_unf)
  then have "Connector_removeAndResetChannel (c\<lparr>cr_state := st\<rparr>) = Inr (ch_fd ch, taken_down ch st c)" for st
    by (simp add: Connector_removeAndResetChannel_def channel_set_events_def waiting_def isNoneEvent_def kNoneEvent_def
        kNew_def kAdded_def kDeleted_def Let_def taken_down_def)
  moreover have "c\<lparr>cr_state := Connector_kConnecting\<rparr> = c" using assms(2) by (cases c) simp
  ultimately show thesis using that [OF ch] by metis
qed

lemma settled_inv:
  assumes "cr_inv c" "cr_state c = Connector_kConnecting" "cr_channel c = Some ch"
  shows retried_inv: "cr_inv (Connector_retry (ch_fd ch) (taken_down ch st c))"
    and closed_inv: "cr_inv (cr_emit (SocketClosed (ch_fd ch)) ((taken_down ch st c)\<lparr>cr_state := Connector_kConnected\<rparr>))"
    and handed_inv: "cr_inv (cr_emit (NewConnection (ch_fd ch)) ((taken_down ch st c)\<lparr>cr_state := Connector_kConnected\<rparr>))"
  using assms retry_delay by (auto simp: cr_unf Connector_retry_def Let_def taken_down_def)

lemma connector_write_inv:
  assumes "cr_inv c" "Connector_handleWrite err self c = Inr (c', fd)"
  shows "cr_inv c'"
proof (cases "cr_state c = Connector_kConnecting")
  case True
  obtain ch where ch: "cr_channel c = Some ch"
    "Connector_removeAndResetChannel c = Inr (ch_fd ch, taken_down ch Connector_kConnecting c)"
    using remove_taken_down [OF assms(1) True] by blast
  then show ?thesis
    using assms(2) True settled_inv [OF assms(1) True ch(1)]
    by (auto simp: Connector_handleWrite_def Let_def split: if_splits)
next
  case False
  then show ?thesis using assms by (simp add: Connector_handleWrite_def bindR_eq_Inr_iff)
qed

lemma handleError_inv:
  assumes "cr_inv c" "Connector_handleError c = Inr c'"
  shows "cr_inv c'"
proof (cases "cr_state c = Connector_kConnecting")
  case True
  obtain ch where ch: "cr_channel c = Some ch"
    "Connector_removeAndResetChannel c = Inr (ch_fd ch, taken_down ch Connector_kConnecting c)"
    using remove_taken_down [OF assms(1) True] by blast
  then show ?thesis
    using assms(2) True retried_inv [OF assms(1) True ch(1)] by (auto simp: Connector_handleError_def)
next
  case False
  then show ?thesis using assms by (simp add: Connector_handleError_def)
qed

lemma stopInLoop_inv:
  assumes "cr_inv c" "Connector_stopInLoop tid c = Inr c'"
  shows "cr_inv c'"
proof (cases "cr_state c = Connector_kConnecting")
  case True
  obtain ch where ch: "cr_channel c = Some ch"
    "\<And>st. Connector_removeAndResetChannel (c\<lparr>cr_state := st\<rparr>) = Inr (ch_fd ch, taken_down ch st c)"
    using remove_taken_down [OF assms(1) True] by blast
  then show ?thesis
    using assms(2) True retried_inv [OF assms(1) True ch(1)] by (auto simp: Connector_stopInLoop_def bindR_eq_Inr_iff)
next
  case False
  then show ?thesis using assms by (simp add: Connector_stopInLoop_def bindR_eq_Inr_iff)
qed

lemma run_functor_inv:
  assumes "cr_inv c" "run_functor sockfd err c = Inr c'"
  shows "cr_inv c'"
proof (cases "cr_functors c")
  case (Cons call rest)
  let ?c = "c\<lparr>cr_functors := rest\<rparr>"
  have run: "run_call sockfd err call ?c = Inr c'" using assms(2) Cons by (simp add: run_functor_def)
  show ?thesis
  proof (cases call)
    case ResetChannel
    then show ?thesis using run assms(1) Cons
      by (auto simp: run_call_def Connector_resetChannel_def cr_unf split: if_splits)
  next
    case StartInLoop
    then have "cr_inv ?c" using assms(1) Cons by (simp add: cr_unf)
    then show ?thesis using run StartInLoop startInLoop_inv by (auto simp: run_call_def)
  next
    case StopInLoop
    then have "cr_inv ?c" using assms(1) Cons by (simp add: cr_unf)
    then show ?thesis using run StopInLoop stopInLoop_inv by (auto simp: run_call_def)
  qed
qed (use assms in \<open>simp add: run_functor_def\<close>)

lemma run_timer_inv: "cr_inv c \<Longrightarrow> run_timer i sockfd err c = Inr c' \<Longrightarrow> cr_inv c'"
  unfolding run_timer_def
  by (erule startInLoop_inv) (auto simp add: cr_unf dest: in_set_takeD in_set_dropD)

lemma restart_inv:
  assumes "cr_inv c" "cr_state c = Connector_kConnected" "Connector_restart sockfd err tid c = Inr c'"
  shows "cr_inv c'"
proof (rule startInLoop_inv)
  let ?c = "c\<lparr>cr_state := Connector_kDisconnected, cr_retryDelayMs := kInitRetryDelayMs, cr_connect := True\<rparr>"
  show "Connector_startInLoop sockfd err tid ?c = Inr c'" using assms(3) by (simp add: Connector_restart_def bindR_eq_Inr_iff)
  show "cr_inv ?c" using assms(1,2) by (simp add: cr_unf delay_ok_def kInitRetryDelayMs_def kMaxRetryDelayMs_def)
qed

lemma cr_reachable_inv: "cr_reachable c \<Longrightarrow> cr_inv c"
proof (induction rule: cr_reachable.induct)
  case (cr_new tid loop)
  show ?case by (simp add: Connector_new_def cr_unf delay_ok_def kInitRetryDelayMs_def kMaxRetryDelayMs_def)
next
  case (cr_next c c')
  from cr_next(2,3) show ?case
    by (cases rule: cr_step.cases) (blast intro: connector_start_inv stop_inv run_functor_inv run_timer_inv connector_write_inv handleError_inv restart_inv)+
qed

section \<open>Sockets, faults and delays\<close>

text \<open>
  C13. A connector never loses a socket. In every state that calls of \<open>start\<close>, \<open>stop\<close> and \<open>restart\<close>, functors, timers
  and events of the channel lead to, every socket it opened has been closed once, or handed to the
  client once, or is the one it is connecting, which its registered channel watches for writing.
\<close>

theorem Connector_sockets_accounted:
  assumes "cr_reachable c"
  shows "sockets opened c = sockets closed c + sockets handed c + pending_socket c \<and>
    (cr_state c = Connector_kConnecting \<longrightarrow> (\<exists>ch. cr_channel c = Some ch \<and> waiting ch \<and> pending_socket c = {#ch_fd ch#}))"
  using cr_reachable_inv [OF assms] by (auto simp: cr_unf)

definition demo_connecting :: Connector where
  "demo_connecting = \<lparr>cr_threadId = 1, cr_loop = 0, cr_connect = True, cr_state = Connector_kConnecting,
     cr_channel = Some (connect_channel 0 5), cr_retryDelayMs = 500, cr_functors = [], cr_timers = [],
     cr_trace = [SocketOpened 5]\<rparr>"

lemma demo_connecting_start: "Connector_start 5 EINPROGRESS 1 (Connector_new 1 0) = Inr demo_connecting"
  by (simp add: Connector_start_def Connector_startInLoop_def Connector_connect_def Connector_connecting_def Let_def
      Connector_new_def cr_assertInLoopThread_def connect_proceeds_def demo_connecting_def cr_emit_def
      connect_channel_def kInitRetryDelayMs_def)

lemma demo_connecting_reachable: "cr_reachable demo_connecting"
  by (rule cr_next [OF cr_new cr_started [OF demo_connecting_start]])

theorem Connector_sockets_accounted_witness:
  "sockets opened demo_connecting = sockets closed demo_connecting + sockets handed demo_connecting + pending_socket demo_connecting"
  using Connector_sockets_accounted [OF demo_connecting_reachable] by simp

text \<open>
  What can fail. In every reachable state the loop can run the functors \<open>stopInLoop\<close> and \<open>resetChannel\<close>
  and the events of the channel that is being watched without a fault. A call of \<open>startInLoop\<close>, from \<open>start\<close>
  or from a retry timer, returns just when nothing is under way: it stops the program when the
  connector is not disconnected, or when it has to watch a new socket while the channel
  of the last one has not been reset yet.
\<close>

theorem Connector_safe:
  assumes "cr_reachable c" "0 \<le> sockfd"
  shows "(\<exists>c'. Connector_stopInLoop (cr_threadId c) c = Inr c') \<and>
    (cr_state c = Connector_kConnecting \<longrightarrow>
      (\<exists>r. Connector_handleWrite err self c = Inr r) \<and> (\<exists>c'. Connector_handleError c = Inr c')) \<and>
    Connector_startInLoop sockfd err (cr_threadId c) c =
      (if cr_state c \<noteq> Connector_kDisconnected then Inl AssertionFailed
       else if \<not> cr_connect c then Inr c
       else if connect_proceeds err then
         (if cr_channel c \<noteq> None then Inl AssertionFailed
          else Inr ((cr_emit (SocketOpened sockfd) c)\<lparr>cr_state := Connector_kConnecting, cr_channel := Some (connect_channel (cr_loop c) sockfd)\<rparr>))
       else Inr (if connect_retries err then Connector_retry sockfd (cr_emit (SocketOpened sockfd) c)
                 else cr_emit (SocketClosed sockfd) (cr_emit (SocketOpened sockfd) c)))"
proof -
  note inv = cr_reachable_inv [OF assms(1)]
  have events: "(\<exists>r. Connector_handleWrite err self c = Inr r) \<and> (\<exists>c'. Connector_handleError c = Inr c') \<and>
      (\<exists>c'. Connector_stopInLoop (cr_threadId c) c = Inr c')" if st: "cr_state c = Connector_kConnecting"
  proof -
    obtain ch where "\<And>st. Connector_removeAndResetChannel (c\<lparr>cr_state := st\<rparr>) = Inr (ch_fd ch, taken_down ch st c)"
        "Connector_removeAndResetChannel c = Inr (ch_fd ch, taken_down ch Connector_kConnecting c)"
      using remove_taken_down [OF inv st] by blast
    then show ?thesis
      using st by (simp add: Connector_handleWrite_def Connector_handleError_def Connector_stopInLoop_def Let_def
          cr_assertInLoopThread_def)
  qed
  have "\<exists>c'. Connector_stopInLoop (cr_threadId c) c = Inr c'"
    using events by (cases "cr_state c = Connector_kConnecting") (auto simp: Connector_stopInLoop_def cr_assertInLoopThread_def)
  moreover have "Connector_connecting sockfd (cr_emit (SocketOpened sockfd) c) = (if cr_channel c \<noteq> None then Inl AssertionFailed
      else Inr ((cr_emit (SocketOpened sockfd) c)\<lparr>cr_state := Connector_kConnecting, cr_channel := Some (connect_channel (cr_loop c) sockfd)\<rparr>))"
    by (cases "cr_channel c") (simp_all add: Connector_connecting_def Let_def cr_emit_def connect_channel_def)
  ultimately show ?thesis
    using events assms(2) by (simp add: Connector_startInLoop_def cr_assertInLoopThread_def Connector_connect_def Let_def)
qed

theorem Connector_safe_witness:
  "Connector_startInLoop 6 0 1 demo_connecting = Inl AssertionFailed \<and> (\<exists>c'. Connector_handleError demo_connecting = Inr c')"
  using Connector_safe [OF demo_connecting_reachable, of 6 0 False] by (simp add: demo_connecting_def)

text \<open>
  Stopping and starting again from another thread aborts. When another thread calls \<open>stop\<close> and then \<open>start\<close>
  while the connector is connecting, and the new attempt is under way at once or in progress, the loop runs \<open>stopInLoop\<close>,
  which queues the reset of the channel behind \<open>startInLoop\<close>, and \<open>startInLoop\<close> finds the old channel:
  its assertion stops the program.
\<close>

theorem Connector_stop_start_aborts:
  assumes "cr_reachable c" "cr_state c = Connector_kConnecting" "cr_functors c = []"
    and "tid \<noteq> cr_threadId c" "0 \<le> sockfd" "connect_proceeds err"
  shows "bindR (Connector_start sockfd err tid (Connector_stop c)) (\<lambda>c.
         bindR (run_functor sockfd err c) (run_functor sockfd err)) = Inl AssertionFailed"
proof -
  let ?c = "c\<lparr>cr_connect := True, cr_functors := [StartInLoop]\<rparr>"
  have inv: "cr_inv ?c" "cr_state ?c = Connector_kConnecting"
    using cr_reachable_inv [OF assms(1)] assms(2,3) by (simp_all add: cr_unf)
  obtain ch where ch: "\<And>st. Connector_removeAndResetChannel (?c\<lparr>cr_state := st\<rparr>) = Inr (ch_fd ch, taken_down ch st ?c)"
    using remove_taken_down [OF inv] by blast
  have start: "Connector_start sockfd err tid (Connector_stop c) = Inr (c\<lparr>cr_connect := True, cr_functors := [StopInLoop, StartInLoop]\<rparr>)"
    using assms(3,4) by (simp add: Connector_start_def Connector_stop_def)
  have stop: "run_functor sockfd err (c\<lparr>cr_connect := True, cr_functors := [StopInLoop, StartInLoop]\<rparr>) =
      Inr (Connector_retry (ch_fd ch) (taken_down ch Connector_kDisconnected ?c))"
    using assms(2) ch [of Connector_kDisconnected]
    by (simp add: run_functor_def run_call_def Connector_stopInLoop_def cr_assertInLoopThread_def)
  show ?thesis unfolding start stop bindR_Inr
    using assms(5,6)
    by (simp add: run_functor_def run_call_def Connector_startInLoop_def cr_assertInLoopThread_def Connector_retry_def Let_def
        taken_down_def cr_emit_def Connector_connect_def Connector_connecting_def)
qed

theorem Connector_stop_start_aborts_witness:
  "bindR (Connector_start 6 EINPROGRESS 2 (Connector_stop demo_connecting)) (\<lambda>c.
   bindR (run_functor 6 EINPROGRESS c) (run_functor 6 EINPROGRESS)) = Inl AssertionFailed"
  by (rule Connector_stop_start_aborts [OF demo_connecting_reachable]) (simp_all add: demo_connecting_def connect_proceeds_def)

text \<open>Refused \<open>n + 1\<close> times in a row.\<close>

fun refused :: "int \<Rightarrow> nat \<Rightarrow> Connector \<Rightarrow> Connector result" where
  "refused sockfd 0 c = Connector_startInLoop sockfd ECONNREFUSED (cr_threadId c) c"
| "refused sockfd (Suc n) c = bindR (refused sockfd n c) (run_timer 0 sockfd ECONNREFUSED)"

lemma backoff_step: "min (min (500 * 2 ^ n) 30000 * 2) 30000 = min (500 * 2 ^ Suc n) (30000::int)"
  by (cases "500 * 2 ^ n \<le> (30000::int)") (simp_all add: min_def)

lemma refused_delay:
  assumes "cr_state c = Connector_kDisconnected" "cr_connect c" "cr_retryDelayMs c = kInitRetryDelayMs" "cr_timers c = []" "0 \<le> sockfd"
  shows "\<exists>c'. refused sockfd n c = Inr c' \<and> cr_state c' = Connector_kDisconnected \<and> cr_connect c' \<and>
    cr_timers c' = [min (500 * 2 ^ n) 30000] \<and> cr_retryDelayMs c' = min (500 * 2 ^ Suc n) 30000"
proof -
  have r: "\<not> connect_proceeds ECONNREFUSED" "connect_retries ECONNREFUSED"
    by (simp_all add: connect_proceeds_def connect_retries_def ECONNREFUSED_def EINPROGRESS_def)
  show ?thesis
  proof (induction n)
    case 0
    show ?case
      using assms r by (simp add: Connector_startInLoop_def cr_assertInLoopThread_def Connector_connect_def Let_def
          Connector_retry_def cr_emit_def kInitRetryDelayMs_def kMaxRetryDelayMs_def)
  next
    case (Suc n)
    then obtain c' where c': "refused sockfd n c = Inr c'" "cr_state c' = Connector_kDisconnected" "cr_connect c'"
        "cr_timers c' = [min (500 * 2 ^ n) 30000]" "cr_retryDelayMs c' = min (500 * 2 ^ Suc n) 30000" by blast
    show ?case unfolding refused.simps c'(1) bindR_Inr
      using c'(2-) assms(5) r backoff_step [of "Suc n"]
      by (simp add: run_timer_def Connector_startInLoop_def cr_assertInLoopThread_def Connector_connect_def Let_def
          Connector_retry_def cr_emit_def kMaxRetryDelayMs_def)
  qed
qed

text \<open>
  Exponential back-off. When the peer refuses every attempt, attempt \<open>n\<close> (from 0) leaves exactly one retry
  timer, of \<open>500 * 2 ^ n\<close> milliseconds but never more than 30 seconds.
\<close>

theorem Connector_backoff:
  assumes "0 \<le> sockfd"
  shows "\<exists>c'. refused sockfd n ((Connector_new tid loop)\<lparr>cr_connect := True\<rparr>) = Inr c' \<and> cr_timers c' = [min (500 * 2 ^ n) 30000]"
proof -
  have "cr_state ((Connector_new tid loop)\<lparr>cr_connect := True\<rparr>) = Connector_kDisconnected" "cr_connect ((Connector_new tid loop)\<lparr>cr_connect := True\<rparr>)"
    "cr_retryDelayMs ((Connector_new tid loop)\<lparr>cr_connect := True\<rparr>) = kInitRetryDelayMs" "cr_timers ((Connector_new tid loop)\<lparr>cr_connect := True\<rparr>) = []"
    by (simp_all add: Connector_new_def)
  from refused_delay [OF this assms, of n] show ?thesis by blast
qed

theorem Connector_backoff_witness:
  "\<exists>c'. refused 5 10 ((Connector_new 1 0)\<lparr>cr_connect := True\<rparr>) = Inr c' \<and> cr_timers c' = [30000]"
  using Connector_backoff [of 5 10 1 0] by simp

section \<open>Runs of a client\<close>

inductive cl_step :: "TcpClient \<Rightarrow> TcpClient \<Rightarrow> bool" where
  cl_connect: "TcpClient_connect sockfd err tid cl = Inr cl' \<Longrightarrow> cl_step cl cl'"
| cl_disconnect: "TcpClient_disconnect tid cl = Inr cl' \<Longrightarrow> cl_step cl cl'"
| cl_stop: "cl_step cl (TcpClient_stop cl)"
| cl_functor: "run_functor sockfd err (tl_connector cl) = Inr c \<Longrightarrow> cl_step cl (cl\<lparr>tl_connector := c\<rparr>)"
| cl_timer: "i < length (cr_timers (tl_connector cl)) \<Longrightarrow> run_timer i sockfd err (tl_connector cl) = Inr c \<Longrightarrow>
     cl_step cl (cl\<lparr>tl_connector := c\<rparr>)"
| cl_write: "cr_channel (tl_connector cl) \<noteq> None \<Longrightarrow> TcpClient_handleWrite peer err self cl = Inr cl' \<Longrightarrow> cl_step cl cl'"
| cl_error: "cr_channel (tl_connector cl) \<noteq> None \<Longrightarrow> Connector_handleError (tl_connector cl) = Inr c \<Longrightarrow>
     cl_step cl (cl\<lparr>tl_connector := c\<rparr>)"
| cl_conn: "tl_connection cl = Some conn \<Longrightarrow> cn_step conn conn' \<Longrightarrow> cl_step cl (cl\<lparr>tl_connection := Some conn'\<rparr>)"
| cl_remove: "TcpClient_removeConnection sockfd err tid conn cl = Inr cl' \<Longrightarrow> cl_step cl cl'"
| cl_destroyed: "tl_destroys cl = conn # rest \<Longrightarrow> cl_step cl (cl\<lparr>tl_destroys := rest\<rparr>)"

inductive cl_reachable :: "TcpClient \<Rightarrow> bool" where
  cl_new: "cl_reachable (TcpClient_new tid loop name)"
| cl_next: "cl_reachable cl \<Longrightarrow> cl_step cl cl' \<Longrightarrow> cl_reachable cl'"

text \<open>Nothing was handed over, or one socket was and the connector stays connected.\<close>

definition handover_ok :: "Connector \<Rightarrow> bool" where
  "handover_ok c \<longleftrightarrow> cr_reachable c \<and> (sockets handed c = {#} \<or> size (sockets handed c) = 1 \<and> cr_state c = Connector_kConnected)"

definition cl_inv :: "TcpClient \<Rightarrow> bool" where
  "cl_inv cl \<longleftrightarrow> \<not> tl_retry cl \<and> cr_threadId (tl_connector cl) = tl_threadId cl \<and> handover_ok (tl_connector cl)"

lemma startInLoop_handover:
  assumes "Connector_startInLoop sockfd err tid c = Inr c'"
  shows "cr_threadId c' = cr_threadId c \<and> sockets handed c' = sockets handed c \<and>
    (cr_state c' = cr_state c \<or> cr_state c = Connector_kDisconnected)"
  using assms
  by (cases rule: startInLoop_cases) (auto simp: sockets_def cr_emit_def Connector_retry_def Let_def)

lemma run_functor_handover:
  assumes "run_functor sockfd err c = Inr c'"
  shows "cr_threadId c' = cr_threadId c \<and> sockets handed c' = sockets handed c \<and>
    (cr_state c = Connector_kConnected \<longrightarrow> cr_state c' = Connector_kConnected)"
proof (cases "cr_functors c")
  case (Cons call rest)
  then have run: "run_call sockfd err call (c\<lparr>cr_functors := rest\<rparr>) = Inr c'" using assms by (simp add: run_functor_def)
  show ?thesis
  proof (cases call)
    case StartInLoop
    then show ?thesis using run startInLoop_handover [of sockfd err "cr_threadId c" "c\<lparr>cr_functors := rest\<rparr>" c']
      by (auto simp: run_call_def sockets_def)
  next
    case StopInLoop
    then show ?thesis using run
      by (auto simp: run_call_def Connector_stopInLoop_def Connector_removeAndResetChannel_def Connector_retry_def Let_def
          cr_emit_def sockets_def bindR_eq_Inr_iff split: if_splits option.splits)
  qed (use run in \<open>auto simp: run_call_def Connector_resetChannel_def sockets_def\<close>)
qed (use assms in \<open>simp add: run_functor_def\<close>)

lemma run_timer_handover:
  assumes "run_timer i sockfd err c = Inr c'"
  shows "cr_threadId c' = cr_threadId c \<and> sockets handed c' = sockets handed c \<and>
    (cr_state c = Connector_kConnected \<longrightarrow> cr_state c' = Connector_kConnected)"
  using startInLoop_handover [OF assms [unfolded run_timer_def]] by (auto simp: sockets_def)

lemma start_handover:
  assumes "Connector_start sockfd err tid c = Inr c'"
  shows "cr_threadId c' = cr_threadId c \<and> sockets handed c' = sockets handed c \<and>
    (cr_state c = Connector_kConnected \<longrightarrow> cr_state c' = Connector_kConnected)"
proof (cases "cr_threadId c = tid")
  case True
  then have "Connector_startInLoop sockfd err tid (c\<lparr>cr_connect := True\<rparr>) = Inr c'" using assms by (simp add: Connector_start_def)
  from startInLoop_handover [OF this] show ?thesis by (auto simp: sockets_def)
next
  case False
  then show ?thesis using assms by (auto simp: Connector_start_def sockets_def)
qed

lemma handleWrite_handover:
  assumes "Connector_handleWrite err self c = Inr (c', fd)"
  shows "cr_threadId c' = cr_threadId c \<and> cr_state c \<noteq> Connector_kConnected \<and>
    sockets handed c' = sockets handed c + (case fd of Some s \<Rightarrow> {#s#} | None \<Rightarrow> {#}) \<and>
    (fd \<noteq> None \<longrightarrow> cr_state c' = Connector_kConnected)"
  using assms
  by (auto simp: Connector_handleWrite_def Connector_removeAndResetChannel_def Connector_retry_def Let_def cr_emit_def
      sockets_def bindR_eq_Inr_iff split: if_splits option.splits)

lemma handleError_handover:
  assumes "Connector_handleError c = Inr c'"
  shows "cr_threadId c' = cr_threadId c \<and> sockets handed c' = sockets handed c \<and>
    (cr_state c = Connector_kConnected \<longrightarrow> cr_state c' = Connector_kConnected)"
  using assms
  by (auto simp: Connector_handleError_def Connector_removeAndResetChannel_def Connector_retry_def Let_def cr_emit_def
      sockets_def bindR_eq_Inr_iff split: if_splits option.splits)

lemma handover_next:
  assumes "handover_ok c" "cr_step c c'" "sockets handed c' = sockets handed c"
    "cr_state c = Connector_kConnected \<longrightarrow> cr_state c' = Connector_kConnected"
  shows "handover_ok c'"
  using assms cr_next [of c c'] by (auto simp: handover_ok_def)

lemma newConnection_keeps:
  assumes "TcpClient_newConnection peer tid fd cl = Inr cl'"
  shows "tl_retry cl' = tl_retry cl \<and> tl_threadId cl' = tl_threadId cl \<and> tl_connector cl' = tl_connector cl"
  using assms by (auto simp: TcpClient_newConnection_def Let_def bindR_eq_Inr_iff)

lemma client_write_inv:
  assumes inv: "cl_inv cl" and ch: "cr_channel (tl_connector cl) \<noteq> None" and run: "TcpClient_handleWrite peer err self cl = Inr cl'"
  shows "cl_inv cl'"
proof -
  obtain c fd where c: "Connector_handleWrite err self (tl_connector cl) = Inr (c, fd)"
    using run by (auto simp: TcpClient_handleWrite_def bindR_eq_Inr_iff)
  have cl': "tl_retry cl' = tl_retry cl \<and> tl_threadId cl' = tl_threadId cl \<and> tl_connector cl' = c"
    using run c newConnection_keeps [where cl = "cl\<lparr>tl_connector := c\<rparr>" and cl' = cl']
    by (cases fd) (auto simp: TcpClient_handleWrite_def Let_def)
  note h = handleWrite_handover [OF c]
  have "cr_reachable c" using inv cr_next [OF _ cr_write [OF ch c]] by (simp add: cl_inv_def handover_ok_def)
  moreover have "sockets handed (tl_connector cl) = {#}" using inv h by (auto simp: cl_inv_def handover_ok_def)
  ultimately have "handover_ok c" using h by (cases fd) (auto simp: handover_ok_def)
  then show ?thesis using inv h cl' by (simp add: cl_inv_def)
qed

lemma cl_step_inv:
  assumes "cl_step cl cl'" "cl_inv cl"
  shows "cl_inv cl'"
  using assms(1)
proof cases
  case (cl_connect sockfd err tid)
  then obtain c where c: "Connector_start sockfd err tid (tl_connector cl) = Inr c" "cl' = cl\<lparr>tl_connect := True, tl_connector := c\<rparr>"
    by (auto simp: TcpClient_connect_def Let_def bindR_eq_Inr_iff)
  then show ?thesis using assms(2) start_handover [OF c(1)] handover_next [OF _ cr_started [OF c(1)]] by (simp add: cl_inv_def)
next
  case cl_disconnect
  then show ?thesis using assms(2) by (auto simp: TcpClient_disconnect_def Let_def cl_inv_def bindR_eq_Inr_iff split: option.splits)
next
  case cl_stop
  then show ?thesis
    using assms(2) handover_next [OF _ cr_stopped, of "tl_connector cl"]
    by (simp add: cl_inv_def TcpClient_stop_def) (simp add: Connector_stop_def sockets_def)
next
  case (cl_functor sockfd err c)
  then show ?thesis using assms(2) run_functor_handover handover_next [OF _ cr_functor] by (fastforce simp: cl_inv_def)
next
  case (cl_timer i sockfd err c)
  then show ?thesis using assms(2) run_timer_handover handover_next [OF _ cr_timer] by (fastforce simp: cl_inv_def)
next
  case cl_write
  then show ?thesis using client_write_inv assms(2) by blast
next
  case (cl_error c)
  then show ?thesis using assms(2) handleError_handover handover_next [OF _ cr_error] by (fastforce simp: cl_inv_def)
next
  case cl_conn
  then show ?thesis using assms(2) by (simp add: cl_inv_def)
next
  case cl_remove
  then show ?thesis using assms(2) by (auto simp: TcpClient_removeConnection_def Let_def cl_inv_def bindR_eq_Inr_iff)
next
  case cl_destroyed
  then show ?thesis using assms(2) by (simp add: cl_inv_def)
qed

lemma cl_reachable_inv: "cl_reachable cl \<Longrightarrow> cl_inv cl"
proof (induction rule: cl_reachable.induct)
  case (cl_new tid loop name)
  show ?case using cr_reachable.cr_new
    by (auto simp: cl_inv_def handover_ok_def TcpClient_new_def) (auto simp: Connector_new_def sockets_def)
qed (rule cl_step_inv)

text \<open>
  A connect that succeeds delivers the connection. When the socket a client is connecting becomes writable with no
  pending error, and is not connected to itself, the client holds a connection that is up and consistent, on
  that socket and with the next number in its name, and the connector has handed over exactly this socket.
\<close>

theorem TcpClient_delivers_connection:
  assumes "cl_reachable cl" "cr_state (tl_connector cl) = Connector_kConnecting" "cr_connect (tl_connector cl)"
  shows "\<exists>ch cl' conn. cr_channel (tl_connector cl) = Some ch \<and> TcpClient_handleWrite peer 0 False cl = Inr cl' \<and>
    tl_connection cl' = Some conn \<and> live (tl_threadId cl) conn \<and> ch_fd (tc_channel conn) = ch_fd ch \<and>
    tc_name conn = client_connName peer cl \<and> tl_nextConnId cl' = tl_nextConnId cl + 1 \<and>
    sockets handed (tl_connector cl') = {#ch_fd ch#} \<and> cr_state (tl_connector cl') = Connector_kConnected"
proof -
  have inv: "cl_inv cl" by (rule cl_reachable_inv [OF assms(1)])
  let ?c = "tl_connector cl"
  have c: "cr_inv ?c" "sockets handed ?c = {#}" "cr_threadId ?c = tl_threadId cl"
    using inv assms(2) cr_reachable_inv by (auto simp: cl_inv_def handover_ok_def)
  obtain ch where ch: "cr_channel ?c = Some ch"
    "Connector_removeAndResetChannel ?c = Inr (ch_fd ch, taken_down ch Connector_kConnecting ?c)"
    using remove_taken_down [OF c(1) assms(2)] by blast
  let ?c' = "cr_emit (NewConnection (ch_fd ch)) ((taken_down ch Connector_kConnecting ?c)\<lparr>cr_state := Connector_kConnected\<rparr>)"
  let ?conn = "(TcpConnection_new (tl_threadId cl) (client_connName peer cl) (tl_loop cl) (ch_fd ch))\<lparr>tc_writeComplete := tl_writeComplete cl\<rparr>"
  have w: "Connector_handleWrite 0 False ?c = Inr (?c', Some (ch_fd ch))"
    using assms(2,3) ch(2) by (simp add: Connector_handleWrite_def Let_def taken_down_def)
  obtain conn where conn: "TcpConnection_connectEstablished (tl_threadId cl) ?conn = Inr conn"
      "tc_state conn = kConnected" "tc_threadId conn = tl_threadId cl" "ch_fd (tc_channel conn) = ch_fd ch"
      "tc_name conn = client_connName peer cl"
    by (simp add: TcpConnection_connectEstablished_def TcpConnection_new_def tc_ops Let_def Channel_new_def)
  have "cn_reachable ?conn" by (rule cn_next [OF cn_new cn_setWriteComplete])
  moreover have "tc_threadId ?conn = tl_threadId cl" by (simp add: TcpConnection_new_def)
  then have "cn_step ?conn conn" using conn(1) by (intro cn_established) simp
  ultimately have "cn_reachable conn" by (rule cn_next)
  then have "tc_inv conn" by (rule cn_reachable_inv)
  moreover have "sockets handed ?c' = {#ch_fd ch#}" "cr_state ?c' = Connector_kConnected" "cr_threadId ?c' = tl_threadId cl"
    using c(2,3) by (simp_all add: sockets_def cr_emit_def taken_down_def)
  moreover have "client_connName peer (cl\<lparr>tl_connector := ?c'\<rparr>) = client_connName peer cl" by (simp add: client_connName_def)
  ultimately show ?thesis
    using ch(1) w conn by (simp add: TcpClient_handleWrite_def TcpClient_newConnection_def Let_def live_def)
qed

text \<open>
  C26. A client connects once. As soon as a connection was handed to it, in every reachable state and even after
  the connection has closed and been removed, calling \<open>connect\<close> again stops the program: the state of the
  connector is \<open>kConnected\<close> for ever and \<open>startInLoop\<close> asserts it is not, at once in the thread of the loop
  and when the queued functor runs otherwise. It was handed exactly one.
\<close>

theorem TcpClient_connects_once:
  assumes "cl_reachable cl" "sockets handed (tl_connector cl) \<noteq> {#}"
  shows "size (sockets handed (tl_connector cl)) = 1 \<and>
    TcpClient_connect sockfd err (tl_threadId cl) cl = Inl AssertionFailed \<and>
    run_call sockfd err StartInLoop (tl_connector cl) = Inl AssertionFailed"
  using cl_reachable_inv [OF assms(1)] assms(2)
  by (simp add: cl_inv_def handover_ok_def TcpClient_connect_def Connector_start_def Connector_startInLoop_def
      cr_assertInLoopThread_def run_call_def Let_def)

definition demo_client_connecting :: TcpClient where
  "demo_client_connecting = (TcpClient_new 1 0 ''cl'')\<lparr>tl_connector := demo_connecting\<rparr>"

lemma demo_client_reachable: "cl_reachable demo_client_connecting"
proof -
  have "TcpClient_connect 5 EINPROGRESS 1 (TcpClient_new 1 0 ''cl'') = Inr demo_client_connecting"
    using demo_connecting_start by (simp add: TcpClient_connect_def TcpClient_new_def demo_client_connecting_def Let_def)
  then show ?thesis by (rule cl_next [OF cl_new cl_connect])
qed

theorem TcpClient_delivers_connection_witness:
  "\<exists>cl' conn. TcpClient_handleWrite ''1.2.3.4:5'' 0 False demo_client_connecting = Inr cl' \<and>
    tl_connection cl' = Some conn \<and> live 1 conn \<and> ch_fd (tc_channel conn) = 5 \<and> tc_name conn = ''cl:1.2.3.4:5#1'' \<and>
    sockets handed (tl_connector cl') = {#5#}"
proof -
  have "nat_dec 1 = ''1''" by code_simp
  then show ?thesis
    using TcpClient_delivers_connection [OF demo_client_reachable, of "''1.2.3.4:5''"]
    by (simp add: demo_client_connecting_def demo_connecting_def TcpClient_new_def client_connName_def snprintf_def
        connect_channel_waiting) blast
qed

theorem TcpClient_connects_once_witness:
  "\<exists>cl. TcpClient_handleWrite ''1.2.3.4:5'' 0 False demo_client_connecting = Inr cl \<and>
    TcpClient_connect 6 EINPROGRESS 1 cl = Inl AssertionFailed"
proof -
  let ?c = "cr_emit (NewConnection 5) ((taken_down (connect_channel 0 5) Connector_kConnecting demo_connecting)\<lparr>cr_state := Connector_kConnected\<rparr>)"
  have "Connector_handleWrite 0 False demo_connecting = Inr (?c, Some 5)"
    by (simp add: Connector_handleWrite_def Connector_removeAndResetChannel_def demo_connecting_def Let_def
        channel_set_events_def isNoneEvent_def kNew_def kAdded_def kDeleted_def connect_channel_def taken_down_def
        cr_emit_def Channel_new_def kNoneEvent_def kWriteEvent_def POLLOUT_def)
  then obtain cl where cl: "TcpClient_handleWrite ''1.2.3.4:5'' 0 False demo_client_connecting = Inr cl"
      "tl_connector cl = ?c" "tl_threadId cl = 1"
    by (simp add: TcpClient_handleWrite_def demo_client_connecting_def TcpClient_newConnection_def TcpClient_new_def Let_def
        TcpConnection_connectEstablished_def TcpConnection_new_def tc_ops cr_emit_def taken_down_def demo_connecting_def)
  have "cl_reachable cl"
    by (rule cl_next [OF demo_client_reachable cl_write [OF _ cl(1)]]) (simp add: demo_client_connecting_def demo_connecting_def)
  moreover have "sockets handed (tl_connector cl) \<noteq> {#}" using cl(2) by (simp add: sockets_def cr_emit_def taken_down_def)
  ultimately show ?thesis using TcpClient_connects_once [of cl 6 EINPROGRESS] cl(1,3) by auto
qed

end
