(* ===== verification/Base_Scanf.thy ===== *)
theory Base_Scanf
  imports Prelude
begin

text \<open>
  What the code uses of the C library to take text apart: \<open>sscanf\<close> with the conversions \<open>%s\<close>, \<open>%[^c]\<close>,
  \<open>%*[^c]\<close>, \<open>%hu\<close> and \<open>%u\<close>. A format is a list of directives; the two conversions that store text carry
  the size of the array they store into, and a text that does not fit there with its terminating
  NUL is \<open>OutOfRange\<close>, since none of the formats of the code limits the width. The result is the list
  of the values assigned before the first directive that does not match; its length is what \<open>sscanf\<close>
  returns, except that the code does not tell 0 from \<open>EOF\<close>. The input is a C string: it ends at the
  first NUL.
\<close>

definition cstr :: "string \<Rightarrow> string" where
  "cstr s = takeWhile (\<lambda>c. c \<noteq> CHR 0x00) s"

definition isspace :: "char \<Rightarrow> bool" where
  "isspace c \<longleftrightarrow> c \<in> {CHR 0x20, CHR 0x09, CHR 0x0A, CHR 0x0B, CHR 0x0C, CHR 0x0D}"

definition isdigit :: "char \<Rightarrow> bool" where
  "isdigit c \<longleftrightarrow> (48 :: nat) \<le> of_char c \<and> (of_char c :: nat) \<le> 57"

datatype directive =
    Blank               \<comment> \<open>white space in the format\<close>
  | Lit char            \<comment> \<open>an ordinary character\<close>
  | Str nat             \<comment> \<open>\<open>%s\<close> into an array of this size\<close>
  | NotSet nat char     \<comment> \<open>\<open>%[^c]\<close> into an array of this size\<close>
  | SkipNotSet char     \<comment> \<open>\<open>%*[^c]\<close>\<close>
  | UShort              \<comment> \<open>\<open>%hu\<close>\<close>
  | UInt                \<comment> \<open>\<open>%u\<close>\<close>

datatype scanned = Text string | Num nat

text \<open>\<open>strtoul\<close> in base ten: a sign, digits; too large a number is \<open>ULONG_MAX\<close>.\<close>

definition unsigned_scan :: "string \<Rightarrow> (nat \<times> string) option" where
  "unsigned_scan s =
     (let t = dropWhile isspace s;
          (neg, u) = (case t of c # cs \<Rightarrow> if c = CHR ''-'' then (True, cs) else if c = CHR ''+'' then (False, cs) else (False, t)
                             | [] \<Rightarrow> (False, []));
          ds = takeWhile isdigit u
      in if ds = [] then None
         else let v = dec_val ds;
                  w = (if v < 2 ^ 64 then (if neg then (2 ^ 64 - v) mod 2 ^ 64 else v) else 2 ^ 64 - 1)
              in Some (w, drop (length ds) u))"

fun sscanf :: "directive list \<Rightarrow> string \<Rightarrow> scanned list result" where
  "sscanf [] s = Inr []"
| "sscanf (Blank # ds) s = sscanf ds (dropWhile isspace s)"
| "sscanf (Lit c # ds) s = (case s of x # xs \<Rightarrow> if x = c then sscanf ds xs else Inr [] | [] \<Rightarrow> Inr [])"
| "sscanf (Str n # ds) s =
     (let t = dropWhile isspace s; w = takeWhile (\<lambda>c. \<not> isspace c) t in
      if w = [] then Inr []
      else if n \<le> length w then Inl OutOfRange
      else bindR (sscanf ds (drop (length w) t)) (\<lambda>vs. Inr (Text w # vs)))"
| "sscanf (NotSet n c # ds) s =
     (let w = takeWhile (\<lambda>x. x \<noteq> c) s in
      if w = [] then Inr []
      else if n \<le> length w then Inl OutOfRange
      else bindR (sscanf ds (drop (length w) s)) (\<lambda>vs. Inr (Text w # vs)))"
| "sscanf (SkipNotSet c # ds) s =
     (let w = takeWhile (\<lambda>x. x \<noteq> c) s in if w = [] then Inr [] else sscanf ds (drop (length w) s))"
| "sscanf (UShort # ds) s =
     (case unsigned_scan s of
        None \<Rightarrow> Inr []
      | Some (v, t) \<Rightarrow> bindR (sscanf ds t) (\<lambda>vs. Inr (Num (v mod 2 ^ 16) # vs)))"
| "sscanf (UInt # ds) s =
     (case unsigned_scan s of
        None \<Rightarrow> Inr []
      | Some (v, t) \<Rightarrow> bindR (sscanf ds t) (\<lambda>vs. Inr (Num (v mod 2 ^ 32) # vs)))"

text \<open>\<open>atoi\<close>, for a number that fits.\<close>

definition atoi :: "string \<Rightarrow> int" where
  "atoi s =
     (let t = dropWhile isspace s;
          (neg, u) = (case t of c # cs \<Rightarrow> if c = CHR ''-'' then (True, cs) else if c = CHR ''+'' then (False, cs) else (False, t)
                             | [] \<Rightarrow> (False, []));
          v = int (dec_val (takeWhile isdigit u))
      in if neg then - v else v)"

section \<open>Scanning a text with known parts\<close>

named_theorems scan_simps \<open>scanning a text that starts with a known token\<close>

definition word_ok :: "string \<Rightarrow> bool" where
  "word_ok w \<longleftrightarrow> w \<noteq> [] \<and> (\<forall>c\<in>set w. \<not> isspace c)"

definition stops :: "(char \<Rightarrow> bool) \<Rightarrow> string \<Rightarrow> bool" where
  "stops P s \<longleftrightarrow> (case s of [] \<Rightarrow> True | c # _ \<Rightarrow> \<not> P c)"

lemma takeWhile_stops: "\<forall>c\<in>set w. P c \<Longrightarrow> stops P s \<Longrightarrow> takeWhile P (w @ s) = w"
  by (cases s) (simp_all add: stops_def takeWhile_append2)

lemma word_dropWhile: "word_ok w \<Longrightarrow> dropWhile isspace (w @ s) = w @ s"
  by (cases w) (simp_all add: word_ok_def)

lemma scan_Str [scan_simps]:
  assumes "word_ok w" "stops (\<lambda>c. \<not> isspace c) s"
  shows "sscanf (Str n # ds) (w @ s) =
    (if n \<le> length w then Inl OutOfRange else bindR (sscanf ds s) (\<lambda>vs. Inr (Text w # vs)))"
proof -
  have "dropWhile isspace (w @ s) = w @ s" "takeWhile (\<lambda>c. \<not> isspace c) (w @ s) = w"
    using assms word_dropWhile takeWhile_stops [of w "\<lambda>c. \<not> isspace c"] by (auto simp: word_ok_def)
  then show ?thesis using assms(1) by (simp add: word_ok_def)
qed

lemma scan_NotSet [scan_simps]:
  assumes "w \<noteq> []" "c \<notin> set w" "stops (\<lambda>x. x \<noteq> c) s"
  shows "sscanf (NotSet n c # ds) (w @ s) =
    (if n \<le> length w then Inl OutOfRange else bindR (sscanf ds s) (\<lambda>vs. Inr (Text w # vs)))"
proof -
  have "takeWhile (\<lambda>x. x \<noteq> c) (w @ s) = w" using assms by (intro takeWhile_stops) auto
  then show ?thesis using assms(1) by simp
qed

lemma scan_SkipNotSet [scan_simps]:
  assumes "w \<noteq> []" "c \<notin> set w" "stops (\<lambda>x. x \<noteq> c) s"
  shows "sscanf (SkipNotSet c # ds) (w @ s) = sscanf ds s"
proof -
  have "takeWhile (\<lambda>x. x \<noteq> c) (w @ s) = w" using assms by (intro takeWhile_stops) auto
  then show ?thesis using assms(1) by simp
qed

lemma scan_Blank [scan_simps]: "stops isspace s \<Longrightarrow> sscanf (Blank # ds) (CHR 0x20 # s) = sscanf ds s"
  by (cases s) (simp_all add: stops_def isspace_def)

lemma isdigit_digit [simp]: "d < 10 \<Longrightarrow> isdigit (digit d)"
  by (simp add: isdigit_def)

lemma digit_not [simp]: "d < 10 \<Longrightarrow> \<not> isspace (digit d)" "d < 10 \<Longrightarrow> digit d \<noteq> CHR ''-''" "d < 10 \<Longrightarrow> digit d \<noteq> CHR ''+''"
  "d < 10 \<Longrightarrow> digit d \<noteq> CHR 0x00"
proof -
  assume "d < 10"
  then have "(of_char (digit d) :: nat) = 48 + d" by simp
  then show "\<not> isspace (digit d)" "digit d \<noteq> CHR ''-''" "digit d \<noteq> CHR ''+''" "digit d \<noteq> CHR 0x00"
    by (auto simp: isspace_def)
qed

lemma nat_dec_word: "word_ok (nat_dec n)" "\<forall>c\<in>set (nat_dec n). isdigit c"
  by (auto simp: word_ok_def dest!: nat_dec_digits)

lemma unsigned_scan_dec:
  assumes "n < 2 ^ 64" "stops isdigit s"
  shows "unsigned_scan (nat_dec n @ s) = Some (n, s)"
proof -
  obtain c cs where c: "nat_dec n = c # cs" by (cases "nat_dec n") auto
  then have "\<exists>d<10. c = digit d" using nat_dec_digits [of c n] by simp
  then have "c \<noteq> CHR ''-''" "c \<noteq> CHR ''+''" by auto
  then have "(case nat_dec n @ s of c # cs \<Rightarrow> if c = CHR ''-'' then (True, cs) else if c = CHR ''+'' then (False, cs)
      else (False, nat_dec n @ s) | [] \<Rightarrow> (False, [])) = (False, nat_dec n @ s)"
    using c by simp
  then show ?thesis
    using assms takeWhile_stops [OF nat_dec_word(2) assms(2), of n] word_dropWhile [OF nat_dec_word(1)]
    by (simp add: unsigned_scan_def Let_def)
qed

lemma scan_UShort [scan_simps]:
  assumes "n < 2 ^ 16" "stops isdigit s"
  shows "sscanf (UShort # ds) (nat_dec n @ s) = bindR (sscanf ds s) (\<lambda>vs. Inr (Num n # vs))"
  using unsigned_scan_dec [OF _ assms(2), of n] assms(1) by simp

lemma scan_UInt [scan_simps]:
  assumes "n < 2 ^ 32" "stops isdigit s"
  shows "sscanf (UInt # ds) (nat_dec n @ s) = bindR (sscanf ds s) (\<lambda>vs. Inr (Num n # vs))"
  using unsigned_scan_dec [OF _ assms(2), of n] assms(1) by simp

declare sscanf.simps(2,4,5,6,7,8) [simp del]

lemma find_sub_first:
  assumes "hd p \<notin> set a" "p \<noteq> []"
  shows "find_sub p (a @ p @ b) = Some (length a)"
proof -
  have "\<not> occurs_at p (a @ p @ b) j" if "j < length a" for j
  proof
    assume "occurs_at p (a @ p @ b) j"
    then have "take (length p) (drop j (a @ p @ b)) = p" by (simp add: occurs_at_def)
    then have "hd p = hd (drop j (a @ p @ b))" using assms(2) by (metis hd_take length_greater_0_conv)
    also have "\<dots> = a ! j" using that by (simp add: hd_drop_conv_nth nth_append)
    finally show False using assms(1) that by simp
  qed
  moreover have "occurs_at p (a @ p @ b) (length a)" by (simp add: occurs_at_def)
  ultimately show ?thesis by (simp add: find_sub_Some)
qed

lemma cstr_noop: "CHR 0x00 \<notin> set s \<Longrightarrow> cstr s = s"
  by (auto simp: cstr_def takeWhile_eq_all_conv)

end
