(* ===== verification/Net_Lines.thy ===== *)
theory Net_Lines
  imports Net_Buffer Base_Scanf
begin

text \<open>
  Text lines at the front of a network buffer: how \<open>findCRLF\<close>, \<open>findLastCRLF\<close> and \<open>retrieveUntil\<close> work together,
  stated on the content of the buffer. Shared by the parsers of RTSP and HTTP messages.
\<close>

lemma findCRLF_content: "Buffer_findCRLF b = map_option (\<lambda>i. Buffer_peek b + i) (find_sub kCRLF (content b))"
  by (simp add: Buffer_findCRLF_def content_def buffer_observers)

lemma findLastCRLF_content: "Buffer_findLastCRLF b = map_option (\<lambda>i. Buffer_peek b + i) (rfind_sub kCRLF (content b))"
  by (simp add: Buffer_findLastCRLF_def content_def buffer_observers)

lemma slice_content:
  assumes "buffer_ok b" "i \<le> length (content b)"
  shows "slice (Buffer_peek b) (Buffer_peek b + i) (b_buffer b) = take i (content b)"
proof -
  have "b_readerIndex b + i \<le> b_writerIndex b" using assms by (auto simp: buffer_ok_def buffer_observers)
  then show ?thesis by (simp add: content_def Buffer_peek_def take_slice)
qed

lemma retrieveUntil_content:
  assumes "buffer_ok b" "i \<le> length (content b)"
  shows "\<exists>b'. Buffer_retrieveUntil b (Buffer_peek b + i) = Inr b' \<and> buffer_ok b' \<and> content b' = drop i (content b)"
proof -
  have "Buffer_peek b + i \<le> Buffer_beginWrite b" using assms by (auto simp: buffer_ok_def buffer_observers)
  then show ?thesis using Buffer_retrieve_spec [OF assms] by (simp add: Buffer_retrieveUntil_def)
qed

text \<open>The first line of a content, and what is left after it.\<close>

lemma first_line:
  assumes "buffer_ok b" "content b = line @ kCRLF @ rest" "CHR 0x0D \<notin> set line"
  shows "Buffer_findCRLF b = Some (Buffer_peek b + length line)"
    and "slice (Buffer_peek b) (Buffer_peek b + length line) (b_buffer b) = line"
    and "\<exists>b'. Buffer_retrieveUntil b (Buffer_peek b + length line + 2) = Inr b' \<and> buffer_ok b' \<and> content b' = rest"
proof -
  have "find_sub kCRLF (content b) = Some (length line)"
    unfolding assms(2) by (rule find_sub_first) (use assms(3) in \<open>simp_all add: kCRLF_def\<close>)
  then show "Buffer_findCRLF b = Some (Buffer_peek b + length line)" by (simp add: findCRLF_content)
  have len: "length line + 2 \<le> length (content b)" unfolding assms(2) by (simp add: kCRLF_def)
  then show "slice (Buffer_peek b) (Buffer_peek b + length line) (b_buffer b) = line"
    using slice_content [OF assms(1), of "length line"] by (simp add: assms(2))
  show "\<exists>b'. Buffer_retrieveUntil b (Buffer_peek b + length line + 2) = Inr b' \<and> buffer_ok b' \<and> content b' = rest"
    using retrieveUntil_content [OF assms(1) len] by (simp add: assms(2) kCRLF_def add.assoc)
qed

text \<open>A content that ends in a line end: everything up to it.\<close>

lemma rfind_at_end: "rfind_sub kCRLF (hs @ kCRLF) = Some (length hs)"
  by (auto simp: rfind_sub_Some occurs_at_def kCRLF_def)

lemma all_lines:
  assumes "buffer_ok b" "content b = hs @ kCRLF"
  shows "Buffer_findLastCRLF b = Some (Buffer_peek b + length hs)"
    and "slice (Buffer_peek b) (Buffer_peek b + length hs) (b_buffer b) = hs"
    and "\<exists>b'. Buffer_retrieveUntil b (Buffer_peek b + length hs + 2) = Inr b' \<and> buffer_ok b' \<and> content b' = []"
proof -
  show "Buffer_findLastCRLF b = Some (Buffer_peek b + length hs)"
    by (simp add: findLastCRLF_content assms(2) rfind_at_end)
  have len: "length hs + 2 \<le> length (content b)" unfolding assms(2) by (simp add: kCRLF_def)
  then show "slice (Buffer_peek b) (Buffer_peek b + length hs) (b_buffer b) = hs"
    using slice_content [OF assms(1), of "length hs"] by (simp add: assms(2))
  show "\<exists>b'. Buffer_retrieveUntil b (Buffer_peek b + length hs + 2) = Inr b' \<and> buffer_ok b' \<and> content b' = []"
    using retrieveUntil_content [OF assms(1) len] by (simp add: assms(2) kCRLF_def add.assoc)
qed

lemma no_line: "\<forall>i. \<not> occurs_at kCRLF (content b) i \<Longrightarrow> Buffer_findCRLF b = None \<and> Buffer_findLastCRLF b = None"
  by (simp add: findCRLF_content findLastCRLF_content find_sub_None rfind_sub_None)

lemma peek_first:
  assumes "buffer_ok b" "content b = c # cs"
  shows "slice (Buffer_peek b) (Buffer_peek b + 1) (b_buffer b) = [c]" "Buffer_peek b + 1 \<le> length (b_buffer b)"
  using slice_content [OF assms(1), of 1] assms length_content [OF assms(1)]
  by (auto simp: buffer_ok_def buffer_observers)

lemma find_sub_prefix: "find_sub p (p @ s) = Some 0"
  by (cases p; cases "p @ s") auto

lemma rfind_sub_occurs: "rfind_sub p (a @ p @ b) \<noteq> None"
proof -
  have "occurs_at p (a @ p @ b) (length a)" by (simp add: occurs_at_def)
  then show ?thesis by (simp only: rfind_sub_None) blast
qed

text \<open>A buffer that holds a given text, for concrete inputs.\<close>

definition buffer_of :: "string \<Rightarrow> Buffer" where
  "buffer_of s = \<lparr>b_buffer = replicate 8 (CHR 0x00) @ s @ replicate 1024 (CHR 0x00), b_readerIndex = 8, b_writerIndex = 8 + length s\<rparr>"

lemma buffer_of_ok: "buffer_ok (buffer_of s)" "content (buffer_of s) = s"
  by (simp_all add: buffer_of_def buffer_ok_def content_def slice_def kCheapPrepend_def)

end
