(* ===== verification/Net_Http.thy ===== *)
theory Net_Http
  imports Net_Lines Net_TcpConnection Base_Time
begin

text \<open>
  The HTTP server of \<open>example/http\<close>: \<open>HttpRequest.h\<close>, \<open>HttpContext\<close>, \<open>HttpResponse\<close> and \<open>HttpServer\<close>.

  \<open>parseRequest\<close> loops until it runs out of lines; called in a state other than the first two it would
  loop for ever, so the loop is a \<open>partial_function\<close> whose value \<open>None\<close> is not returning. \<open>parse_text\<close> is
  the same parser on a string, which the buffer version is shown to refine. The headers of a response
  are kept in the order of \<open>std::map\<close>.
\<close>

section \<open>Requests\<close>

datatype http_method = kInvalid | kGet | kPost | kHead | kPut | kDelete

datatype http_version = kUnknown | kHttp10 | kHttp11

record HttpRequest =
  hr_method :: http_method
  hr_version :: http_version
  hr_path :: string
  hr_query :: string
  hr_receiveTime :: Timestamp
  hr_headers :: "string \<rightharpoonup> string"

definition HttpRequest_new :: HttpRequest where
  "HttpRequest_new = \<lparr>hr_method = kInvalid, hr_version = kUnknown, hr_path = '''', hr_query = '''',
     hr_receiveTime = 0, hr_headers = Map.empty\<rparr>"

definition http_method_of :: "string \<Rightarrow> http_method" where
  "http_method_of s =
     (if s = ''GET'' then kGet else if s = ''POST'' then kPost else if s = ''HEAD'' then kHead
      else if s = ''PUT'' then kPut else if s = ''DELETE'' then kDelete else kInvalid)"

definition HttpRequest_setMethod :: "string \<Rightarrow> HttpRequest \<Rightarrow> (bool \<times> HttpRequest) result" where
  "HttpRequest_setMethod s r =
     bindR (assertR (hr_method r = kInvalid)) (\<lambda>_.
     Inr (http_method_of s \<noteq> kInvalid, r\<lparr>hr_method := http_method_of s\<rparr>))"

definition HttpRequest_methodToString :: "HttpRequest \<Rightarrow> string" where
  "HttpRequest_methodToString r =
     (case hr_method r of kGet \<Rightarrow> ''GET'' | kPost \<Rightarrow> ''POST'' | kHead \<Rightarrow> ''HEAD'' | kPut \<Rightarrow> ''PUT''
      | kDelete \<Rightarrow> ''DELETE'' | kInvalid \<Rightarrow> ''UNKNOWN'')"

text \<open>The line behind the colon is trimmed on both sides.\<close>

definition trim_right :: "string \<Rightarrow> string" where
  "trim_right s = rev (dropWhile isspace (rev s))"

definition HttpRequest_addHeader :: "string \<Rightarrow> nat \<Rightarrow> HttpRequest \<Rightarrow> HttpRequest" where
  "HttpRequest_addHeader line colon r =
     (let field = take colon line;
          val = trim_right (dropWhile isspace (drop (colon + 1) line))
      in r\<lparr>hr_headers := (hr_headers r)(field \<mapsto> val)\<rparr>)"

definition HttpRequest_getHeader :: "string \<Rightarrow> HttpRequest \<Rightarrow> string" where
  "HttpRequest_getHeader field r = (case hr_headers r field of Some v \<Rightarrow> v | None \<Rightarrow> '''')"

definition HttpRequest_swap :: "HttpRequest \<Rightarrow> HttpRequest \<Rightarrow> HttpRequest \<times> HttpRequest" where
  "HttpRequest_swap this that = (that, this)"

section \<open>Parsing\<close>

datatype HttpRequestParseState = kExpectRequestLine | kExpectHeaders | kExpectBody | kGotAll

record HttpContext =
  hc_state :: HttpRequestParseState
  hc_request :: HttpRequest

definition HttpContext_new :: HttpContext where
  "HttpContext_new = \<lparr>hc_state = kExpectRequestLine, hc_request = HttpRequest_new\<rparr>"

definition HttpContext_gotAll :: "HttpContext \<Rightarrow> bool" where
  "HttpContext_gotAll c \<longleftrightarrow> hc_state c = kGotAll"

definition HttpContext_reset :: "HttpContext \<Rightarrow> HttpContext" where
  "HttpContext_reset c =
     \<lparr>hc_state = kExpectRequestLine, hc_request = fst (HttpRequest_swap (hc_request c) HttpRequest_new)\<rparr>"

text \<open>\<open>std::find(start, end, c)\<close> is \<open>end\<close> when there is no such character.\<close>

definition find_or_end :: "char \<Rightarrow> string \<Rightarrow> nat" where
  "find_or_end c s = (case find_char c s of Some i \<Rightarrow> i | None \<Rightarrow> length s)"

definition HttpContext_processRequestLine :: "string \<Rightarrow> HttpRequest \<Rightarrow> (bool \<times> HttpRequest) result" where
  "HttpContext_processRequestLine line r =
     (let space = find_or_end (CHR '' '') line in
      if space = length line then Inr (False, r)
      else
        bindR (HttpRequest_setMethod (take space line) r) (\<lambda>(known, r).
        if \<not> known then Inr (False, r)
        else
          (let start = drop (space + 1) line;
               space = find_or_end (CHR '' '') start in
           if space = length start then Inr (False, r)
           else
             (let target = take space start;
                  question = find_or_end (CHR ''?'') target;
                  r = (if question \<noteq> length target
                       then r\<lparr>hr_path := take question target, hr_query := drop question target\<rparr>
                       else r\<lparr>hr_path := target\<rparr>);
                  version = drop (space + 1) start
              in if length version = 8 \<and> take 7 version = ''HTTP/1.''
                 then if last version = CHR ''1'' then Inr (True, r\<lparr>hr_version := kHttp11\<rparr>)
                      else if last version = CHR ''0'' then Inr (True, r\<lparr>hr_version := kHttp10\<rparr>)
                      else Inr (False, r)
                 else Inr (False, r)))))"

text \<open>One pass of the loop: whether there is more to do, \<open>ok\<close>, the buffer and the context.\<close>

definition HttpContext_parse_step ::
  "Timestamp \<Rightarrow> bool \<Rightarrow> Buffer \<Rightarrow> HttpContext \<Rightarrow> (bool \<times> bool \<times> Buffer \<times> HttpContext) result" where
  "HttpContext_parse_step receiveTime ok buf c =
     (case hc_state c of
        kExpectRequestLine \<Rightarrow>
          (case Buffer_findCRLF buf of
             None \<Rightarrow> Inr (False, ok, buf, c)
           | Some crlf \<Rightarrow>
               bindR (HttpContext_processRequestLine (slice (Buffer_peek buf) crlf (b_buffer buf)) (hc_request c)) (\<lambda>(ok, r).
               if ok
               then bindR (Buffer_retrieveUntil buf (crlf + 2)) (\<lambda>buf.
                    Inr (True, ok, buf, c\<lparr>hc_request := r\<lparr>hr_receiveTime := receiveTime\<rparr>, hc_state := kExpectHeaders\<rparr>))
               else Inr (False, ok, buf, c\<lparr>hc_request := r\<rparr>)))
      | kExpectHeaders \<Rightarrow>
          (case Buffer_findCRLF buf of
             None \<Rightarrow> Inr (False, ok, buf, c)
           | Some crlf \<Rightarrow>
               (let line = slice (Buffer_peek buf) crlf (b_buffer buf);
                    colon = find_or_end (CHR '':'') line;
                    (hasMore, c) = (if colon \<noteq> length line
                                    then (True, c\<lparr>hc_request := HttpRequest_addHeader line colon (hc_request c)\<rparr>)
                                    else (False, c\<lparr>hc_state := kGotAll\<rparr>))
                in bindR (Buffer_retrieveUntil buf (crlf + 2)) (\<lambda>buf. Inr (hasMore, ok, buf, c))))
      | _ \<Rightarrow> Inr (True, ok, buf, c))"

partial_function (option) HttpContext_parse_loop ::
  "Timestamp \<Rightarrow> bool \<Rightarrow> Buffer \<Rightarrow> HttpContext \<Rightarrow> (bool \<times> Buffer \<times> HttpContext) result option" where
  "HttpContext_parse_loop receiveTime ok buf c =
     (case HttpContext_parse_step receiveTime ok buf c of
        Inl e \<Rightarrow> Some (Inl e)
      | Inr (hasMore, ok, buf, c) \<Rightarrow>
          if hasMore then HttpContext_parse_loop receiveTime ok buf c else Some (Inr (ok, buf, c)))"

definition HttpContext_parseRequest ::
  "Buffer \<Rightarrow> Timestamp \<Rightarrow> HttpContext \<Rightarrow> (bool \<times> Buffer \<times> HttpContext) result option" where
  "HttpContext_parseRequest buf receiveTime c = HttpContext_parse_loop receiveTime True buf c"

section \<open>Responses\<close>

datatype HttpStatusCode = kUnknownStatus | k200Ok | k301MovedPermanently | k400BadRequest | k404NotFound

definition status_number :: "HttpStatusCode \<Rightarrow> nat" where
  "status_number code = (case code of kUnknownStatus \<Rightarrow> 0 | k200Ok \<Rightarrow> 200 | k301MovedPermanently \<Rightarrow> 301
     | k400BadRequest \<Rightarrow> 400 | k404NotFound \<Rightarrow> 404)"

record HttpResponse =
  hp_headers :: "(string \<times> string) list"
  hp_statusCode :: HttpStatusCode
  hp_statusMessage :: string
  hp_closeConnection :: bool
  hp_body :: string

definition HttpResponse_new :: "bool \<Rightarrow> HttpResponse" where
  "HttpResponse_new close = \<lparr>hp_headers = [], hp_statusCode = kUnknownStatus, hp_statusMessage = '''',
     hp_closeConnection = close, hp_body = ''''\<rparr>"

fun string_less :: "string \<Rightarrow> string \<Rightarrow> bool" where
  "string_less _ [] = False"
| "string_less [] (_ # _) = True"
| "string_less (c # cs) (d # ds) = (if c = d then string_less cs ds else (of_char c :: nat) < of_char d)"

fun header_insert :: "string \<Rightarrow> string \<Rightarrow> (string \<times> string) list \<Rightarrow> (string \<times> string) list" where
  "header_insert key val [] = [(key, val)]"
| "header_insert key val ((k, v) # kvs) =
     (if key = k then (key, val) # kvs else if string_less key k then (key, val) # (k, v) # kvs
      else (k, v) # header_insert key val kvs)"

definition HttpResponse_addHeader :: "string \<Rightarrow> string \<Rightarrow> HttpResponse \<Rightarrow> HttpResponse" where
  "HttpResponse_addHeader key val p = p\<lparr>hp_headers := header_insert key val (hp_headers p)\<rparr>"

definition HttpResponse_setContentType :: "string \<Rightarrow> HttpResponse \<Rightarrow> HttpResponse" where
  "HttpResponse_setContentType contentType p = HttpResponse_addHeader ''Content-Type'' contentType p"

definition append_header :: "string \<times> string \<Rightarrow> Buffer \<Rightarrow> Buffer result" where
  "append_header header output =
     bindR (Buffer_append output (fst header)) (\<lambda>output.
     bindR (Buffer_append output '': '') (\<lambda>output.
     bindR (Buffer_append output (snd header)) (\<lambda>output.
     Buffer_append output kCRLF)))"

definition HttpResponse_appendToBuffer :: "HttpResponse \<Rightarrow> Buffer \<Rightarrow> Buffer result" where
  "HttpResponse_appendToBuffer p output =
     bindR (Buffer_append output (snprintf 32 (''HTTP/1.1 '' @ nat_dec (status_number (hp_statusCode p)) @ '' ''))) (\<lambda>output.
     bindR (Buffer_append output (hp_statusMessage p)) (\<lambda>output.
     bindR (Buffer_append output kCRLF) (\<lambda>output.
     bindR (if hp_closeConnection p then Buffer_append output (''Connection: close'' @ kCRLF)
            else bindR (Buffer_append output (snprintf 32 (''Content-Length: '' @ nat_dec (length (hp_body p)) @ kCRLF))) (\<lambda>output.
                 Buffer_append output (''Connection: kepp-Alive'' @ kCRLF))) (\<lambda>output.
     bindR (foldR append_header (hp_headers p) output) (\<lambda>output.
     bindR (Buffer_append output kCRLF) (\<lambda>output.
     Buffer_append output (hp_body p)))))))"

section \<open>The server\<close>

text \<open>A connection with its context; \<open>any_cast\<close> of an empty context throws \<open>std::bad_cast\<close>, which nothing catches.\<close>

type_synonym http_connection = "TcpConnection \<times> HttpContext option"

definition defaultHttpCallback :: "HttpRequest \<Rightarrow> HttpResponse \<Rightarrow> HttpResponse" where
  "defaultHttpCallback req resp =
     resp\<lparr>hp_statusCode := k404NotFound, hp_statusMessage := ''Not Found'', hp_closeConnection := True\<rparr>"

definition HttpServer_onConnection :: "http_connection \<Rightarrow> http_connection" where
  "HttpServer_onConnection st =
     (let (conn, context) = st in
      if tc_state conn = kConnected then (conn, Some HttpContext_new) else st)"

definition HttpServer_onRequest ::
  "write_call \<Rightarrow> int \<Rightarrow> (HttpRequest \<Rightarrow> HttpResponse \<Rightarrow> HttpResponse) \<Rightarrow> HttpRequest \<Rightarrow> TcpConnection \<Rightarrow> TcpConnection result" where
  "HttpServer_onRequest write tid httpCallback req conn =
     (let connection = HttpRequest_getHeader ''Connection'' req;
          close = (connection = ''close'' \<or> hr_version req = kHttp10 \<and> connection \<noteq> ''Keep-Alive'');
          response = httpCallback req (HttpResponse_new close) in
      bindR (Buffer_new kInitialSize) (\<lambda>buf.
      bindR (HttpResponse_appendToBuffer response buf) (\<lambda>buf.
      bindR (TcpConnection_send_Buffer write tid buf conn) (\<lambda>(conn, buf).
      if hp_closeConnection response then TcpConnection_shutdown tid conn else Inr conn))))"

text \<open>Not returning from the parser is not returning here.\<close>

definition HttpServer_onMessage ::
  "write_call \<Rightarrow> int \<Rightarrow> (HttpRequest \<Rightarrow> HttpResponse \<Rightarrow> HttpResponse) \<Rightarrow> Timestamp \<Rightarrow> Buffer \<Rightarrow> http_connection \<Rightarrow>
   (Buffer \<times> http_connection) result option" where
  "HttpServer_onMessage write tid httpCallback receiveTime buf st =
     (let (conn, context) = st in
      case context of
        None \<Rightarrow> Some (Inl Fatal)
      | Some context \<Rightarrow>
          map_option (\<lambda>res.
            bindR res (\<lambda>(ok, buf, context).
            bindR (if \<not> ok
                   then bindR (TcpConnection_send write tid (''HTTP/1.1 400 Bad Request'' @ kCRLF @ kCRLF) conn) (\<lambda>conn.
                        TcpConnection_shutdown tid conn)
                   else Inr conn) (\<lambda>conn.
            if HttpContext_gotAll context
            then bindR (HttpServer_onRequest write tid httpCallback (hc_request context) conn) (\<lambda>conn.
                 Inr (buf, conn, Some (HttpContext_reset context)))
            else Inr (buf, conn, Some context))))
          (HttpContext_parseRequest buf receiveTime context))"

section \<open>The parser on text\<close>

function parse_text :: "Timestamp \<Rightarrow> bool \<Rightarrow> string \<Rightarrow> HttpContext \<Rightarrow> (bool \<times> string \<times> HttpContext) result" where
  "parse_text t ok s c =
     (case find_sub kCRLF s of
        None \<Rightarrow> Inr (ok, s, c)
      | Some i \<Rightarrow>
          (case hc_state c of
             kExpectRequestLine \<Rightarrow>
               bindR (HttpContext_processRequestLine (take i s) (hc_request c)) (\<lambda>(good, r).
               if good
               then parse_text t True (drop (i + 2) s)
                      (c\<lparr>hc_request := r\<lparr>hr_receiveTime := t\<rparr>, hc_state := kExpectHeaders\<rparr>)
               else Inr (False, s, c\<lparr>hc_request := r\<rparr>))
           | kExpectHeaders \<Rightarrow>
               (let colon = find_or_end (CHR '':'') (take i s) in
                if colon \<noteq> length (take i s)
                then parse_text t ok (drop (i + 2) s) (c\<lparr>hc_request := HttpRequest_addHeader (take i s) colon (hc_request c)\<rparr>)
                else Inr (ok, drop (i + 2) s, c\<lparr>hc_state := kGotAll\<rparr>))
           | _ \<Rightarrow> Inr (ok, s, c)))"
  by pat_completeness auto

lemma find_crlf_length: "find_sub kCRLF s = Some i \<Longrightarrow> i + 2 \<le> length s"
  by (simp add: find_sub_Some occurs_at_def kCRLF_def)

termination parse_text
proof (relation "measure (\<lambda>(_, _, s, _). length s)")
qed (auto dest!: find_crlf_length)

declare parse_text.simps [simp del]

definition parsing :: "HttpContext \<Rightarrow> bool" where
  "parsing c \<longleftrightarrow> hc_state c = kExpectRequestLine \<or> hc_state c = kExpectHeaders"

text \<open>What the buffer version returns, for a value of the text version.\<close>

definition parsed :: "(bool \<times> string \<times> HttpContext) result \<Rightarrow> (bool \<times> Buffer \<times> HttpContext) result option \<Rightarrow> bool" where
  "parsed spec res \<longleftrightarrow> (case spec of
      Inl e \<Rightarrow> res = Some (Inl e)
    | Inr (ok, s, c) \<Rightarrow> \<exists>b. res = Some (Inr (ok, b, c)) \<and> buffer_ok b \<and> content b = s)"

lemma parse_loop_text:
  assumes "buffer_ok b" "parsing c"
  shows "parsed (parse_text t ok (content b) c) (HttpContext_parse_loop t ok b c)"
  using assms
proof (induction "length (content b)" arbitrary: b ok c rule: less_induct)
  case less
  let ?s = "content b"
  show ?case
  proof (cases "find_sub kCRLF ?s")
    case None
    then have "Buffer_findCRLF b = None" by (simp add: findCRLF_content)
    then have "HttpContext_parse_step t ok b c = Inr (False, ok, b, c)"
      using less.prems(2) by (auto simp: HttpContext_parse_step_def parsing_def)
    then show ?thesis
      using None less.prems(1) by (subst HttpContext_parse_loop.simps, subst parse_text.simps) (simp add: parsed_def)
  next
    case (Some i)
    have i: "i + 2 \<le> length ?s" "i \<le> length ?s" using find_crlf_length [OF Some] by simp_all
    have crlf: "Buffer_findCRLF b = Some (Buffer_peek b + i)" using Some by (simp add: findCRLF_content)
    have line: "slice (Buffer_peek b) (Buffer_peek b + i) (b_buffer b) = take i ?s" by (rule slice_content [OF less.prems(1) i(2)])
    obtain b' where b': "Buffer_retrieveUntil b (Buffer_peek b + i + 2) = Inr b'" "buffer_ok b'" "content b' = drop (i + 2) ?s"
      using retrieveUntil_content [OF less.prems(1) i(1)] by (auto simp: add.assoc)
    have shorter: "length (content b') < length ?s" using b'(3) i(1) by simp
    show ?thesis
    proof (cases "hc_state c = kExpectRequestLine")
      case True
      show ?thesis
      proof (cases "HttpContext_processRequestLine (take i ?s) (hc_request c)")
        case (Inl e)
        then have "HttpContext_parse_step t ok b c = Inl e" using True crlf line by (simp add: HttpContext_parse_step_def)
        then show ?thesis using Inl True Some
          by (subst HttpContext_parse_loop.simps, subst parse_text.simps) (simp add: parsed_def)
      next
        case (Inr p)
        obtain good r where p: "p = (good, r)" by (cases p)
        let ?c = "c\<lparr>hc_request := r\<lparr>hr_receiveTime := t\<rparr>, hc_state := kExpectHeaders\<rparr>"
        show ?thesis
        proof (cases good)
          case g: True
          have "HttpContext_parse_step t ok b c = Inr (True, True, b', ?c)"
            using True crlf line Inr p g b'(1) by (simp add: HttpContext_parse_step_def)
          moreover have "parsed (parse_text t True (content b') ?c) (HttpContext_parse_loop t True b' ?c)"
            by (rule less.hyps [OF shorter b'(2)]) (simp add: parsing_def)
          ultimately show ?thesis using True Some Inr p g b'(3)
            by (subst HttpContext_parse_loop.simps, subst parse_text.simps) simp
        next
          case False
          then have "HttpContext_parse_step t ok b c = Inr (False, False, b, c\<lparr>hc_request := r\<rparr>)"
            using True crlf line Inr p by (simp add: HttpContext_parse_step_def)
          then show ?thesis using True Some Inr p False less.prems(1)
            by (subst HttpContext_parse_loop.simps, subst parse_text.simps) (simp add: parsed_def)
        qed
      qed
    next
      case False
      then have st: "hc_state c = kExpectHeaders" using less.prems(2) by (simp add: parsing_def)
      let ?colon = "find_or_end (CHR '':'') (take i ?s)"
      let ?c = "c\<lparr>hc_request := HttpRequest_addHeader (take i ?s) ?colon (hc_request c)\<rparr>"
      show ?thesis
      proof (cases "?colon = length (take i ?s)")
        case True
        then have "HttpContext_parse_step t ok b c = Inr (False, ok, b', c\<lparr>hc_state := kGotAll\<rparr>)"
          using st crlf line b'(1) by (simp add: HttpContext_parse_step_def Let_def)
        then show ?thesis using True Some st b'(2,3)
          by (subst HttpContext_parse_loop.simps, subst parse_text.simps) (simp add: parsed_def Let_def)
      next
        case colon: False
        have "HttpContext_parse_step t ok b c = Inr (True, ok, b', ?c)"
          using st crlf line b'(1) colon by (simp add: HttpContext_parse_step_def Let_def)
        moreover have "parsed (parse_text t ok (content b') ?c) (HttpContext_parse_loop t ok b' ?c)"
          by (rule less.hyps [OF shorter b'(2)]) (simp add: parsing_def st)
        ultimately show ?thesis using colon Some st b'(3)
          by (subst HttpContext_parse_loop.simps, subst parse_text.simps) (simp add: Let_def)
      qed
    qed
  qed
qed



section \<open>Requests in pieces\<close>

lemma find_sub_append: "find_sub p xs = Some i \<Longrightarrow> find_sub p (xs @ ys) = Some i"
proof -
  assume f: "find_sub p xs = Some i"
  then have o: "occurs_at p xs i" "\<forall>j<i. \<not> occurs_at p xs j" by (simp_all add: find_sub_Some)
  have le: "i + length p \<le> length xs" using o(1) by (simp add: occurs_at_def)
  have "occurs_at p (xs @ ys) j = occurs_at p xs j" if "j \<le> i" for j
    using that le by (auto simp: occurs_at_def)
  then show ?thesis using o by (simp add: find_sub_Some)
qed

lemma parse_text_pieces:
  "parse_text t ok x c = Inr (True, s, c1) \<Longrightarrow> parsing c \<Longrightarrow> parsing c1 \<Longrightarrow> ok \<Longrightarrow>
    parse_text t ok (x @ y) c = parse_text t True (s @ y) c1"
proof (induction t ok x c rule: parse_text.induct)
  case (1 t ok x c)
  show ?case
  proof (cases "find_sub kCRLF x")
    case None
    then show ?thesis using 1(3,6) by (subst (asm) parse_text.simps) simp
  next
    case (Some i)
    have i: "i + 2 \<le> length x" by (rule find_crlf_length [OF Some])
    note app = find_sub_append [OF Some, of y]
    have tk: "take i (x @ y) = take i x" "drop (i + 2) (x @ y) = drop (i + 2) x @ y" using i by simp_all
    show ?thesis
    proof (cases "hc_state c = kExpectRequestLine")
      case True
      then obtain good r where p: "HttpContext_processRequestLine (take i x) (hc_request c) = Inr (good, r)"
        using 1(3) Some by (subst (asm) parse_text.simps) (auto simp: bindR_eq_Inr_iff)
      let ?c = "c\<lparr>hc_request := r\<lparr>hr_receiveTime := t\<rparr>, hc_state := kExpectHeaders\<rparr>"
      have good using 1(3) Some True p by (subst (asm) parse_text.simps) (auto split: if_splits)
      then have "parse_text t True (drop (i + 2) x) ?c = Inr (True, s, c1)"
        using 1(3) Some True p by (subst (asm) parse_text.simps) simp
      moreover have "parse_text t ok (x @ y) c = parse_text t True (drop (i + 2) x @ y) ?c"
        unfolding parse_text.simps [of t ok "x @ y" c] app tk option.case True p using \<open>good\<close> by simp
      ultimately show ?thesis
        using 1(1) [OF Some True, of "(good, r)" good r] p \<open>good\<close> 1(5) by (simp add: parsing_def)
    next
      case False
      then have st: "hc_state c = kExpectHeaders" using 1(4) by (simp add: parsing_def)
      let ?colon = "find_or_end (CHR '':'') (take i x)"
      let ?c = "c\<lparr>hc_request := HttpRequest_addHeader (take i x) ?colon (hc_request c)\<rparr>"
      have "?colon \<noteq> length (take i x)"
      proof
        assume "?colon = length (take i x)"
        then have "c1 = c\<lparr>hc_state := kGotAll\<rparr>" using 1(3) Some st by (subst (asm) parse_text.simps) (simp add: Let_def)
        then show False using 1(5) by (simp add: parsing_def)
      qed
      moreover from this have "parse_text t ok (drop (i + 2) x) ?c = Inr (True, s, c1)"
        using 1(3) Some st by (subst (asm) parse_text.simps) (simp add: Let_def)
      moreover have "parse_text t ok (x @ y) c = parse_text t ok (drop (i + 2) x @ y) ?c"
        unfolding parse_text.simps [of t ok "x @ y" c] app tk option.case st Let_def using calculation(1) by simp
      ultimately show ?thesis
        using 1(2) [OF Some st refl] 1(5,6) by (simp add: parsing_def st)
    qed
  qed
qed

lemma parse_text_state:
  "parse_text t ok s c = Inr (good, s', c') \<Longrightarrow> hc_state c \<noteq> kExpectBody \<Longrightarrow> hc_state c' \<noteq> kExpectBody"
proof (induction t ok s c rule: parse_text.induct)
  case (1 t ok s c)
  show ?case
  proof (cases "find_sub kCRLF s")
    case None
    then show ?thesis using 1(3,4) by (subst (asm) parse_text.simps) simp
  next
    case (Some i)
    note run = 1(3) [unfolded parse_text.simps [of t ok s c] Some option.case]
    show ?thesis
    proof (cases "hc_state c")
      case kExpectRequestLine
      then show ?thesis
        using 1(1) [OF Some kExpectRequestLine] run by (auto simp: bindR_eq_Inr_iff split: if_splits)
    next
      case kExpectHeaders
      then show ?thesis
        using 1(2) [OF Some kExpectHeaders refl] run by (auto simp: Let_def split: if_splits)
    next
      case kExpectBody
      then show ?thesis using 1(4) by simp
    next
      case kGotAll
      then show ?thesis using 1(3) Some by (subst (asm) parse_text.simps) simp
    qed
  qed
qed

text \<open>
  C12. It does not matter how a request is cut into pieces. When a part of the bytes was parsed without error and
  the request is not yet complete, parsing what is left with the rest of the bytes appended has the same
  outcome (success or fault, the rest of the buffer, the context) as parsing all the bytes at once.
\<close>

theorem HttpContext_parse_in_pieces:
  assumes "buffer_ok b" "parsing c" "HttpContext_parseRequest b t c = Some (Inr (True, b1, c1))" "\<not> HttpContext_gotAll c1"
    and "buffer_ok b2" "content b2 = content b1 @ y" "buffer_ok b3" "content b3 = content b @ y"
  shows "\<exists>outcome. parsed outcome (HttpContext_parseRequest b2 t c1) \<and> parsed outcome (HttpContext_parseRequest b3 t c)"
proof -
  have p: "parsed (parse_text t True (content b) c) (Some (Inr (True, b1, c1)))"
    using parse_loop_text [OF assms(1,2), of t True] assms(3) by (simp add: HttpContext_parseRequest_def)
  then have x: "parse_text t True (content b) c = Inr (True, content b1, c1)"
    by (auto simp: parsed_def split: sum.splits prod.splits)
  have "hc_state c1 \<noteq> kExpectBody"
    by (rule parse_text_state [OF x]) (use assms(2) in \<open>auto simp: parsing_def\<close>)
  then have c1: "parsing c1" using assms(4) by (cases "hc_state c1") (auto simp: parsing_def HttpContext_gotAll_def)
  have "parse_text t True (content b3) c = parse_text t True (content b2) c1"
    unfolding assms(6,8) by (rule parse_text_pieces [OF x assms(2) c1]) simp
  then show ?thesis
    using parse_loop_text [OF assms(5) c1, of t True] parse_loop_text [OF assms(7,2), of t True]
    by (auto simp: HttpContext_parseRequest_def)
qed

theorem HttpContext_parse_in_pieces_witness:
  "\<exists>b2 b3 c1 outcome. content b2 = ''GET / HTTP/1.0'' @ kCRLF \<and> content b3 = ''GET / HTTP/1.0'' @ kCRLF \<and>
    parsed outcome (HttpContext_parseRequest b2 0 c1) \<and> parsed outcome (HttpContext_parseRequest b3 0 HttpContext_new)"
proof -
  obtain b where b: "buffer_ok b" "content b = ''GET / HT''"
    using Buffer_append_spec [OF Buffer_init_ok, of "''GET / HT''"] by auto
  obtain b2 where b2: "buffer_ok b2" "content b2 = ''GET / HTTP/1.0'' @ kCRLF"
    using Buffer_append_spec [OF Buffer_init_ok, of "''GET / HTTP/1.0'' @ kCRLF"] by auto
  have "find_sub kCRLF ''GET / HT'' = None" by code_simp
  then have "parse_text 0 True (content b) HttpContext_new = Inr (True, content b, HttpContext_new)"
    by (subst parse_text.simps) (simp add: b(2))
  moreover have new: "parsing HttpContext_new" by (simp add: parsing_def HttpContext_new_def)
  ultimately obtain b1 where b1: "HttpContext_parseRequest b 0 HttpContext_new = Some (Inr (True, b1, HttpContext_new))"
      "content b1 = content b"
    using parse_loop_text [OF b(1) new, of 0 True] by (auto simp: parsed_def HttpContext_parseRequest_def)
  have "content b2 = content b1 @ (''TP/1.0'' @ kCRLF)" "content b2 = content b @ (''TP/1.0'' @ kCRLF)"
    using b(2) b1(2) b2(2) by simp_all
  moreover have "\<not> HttpContext_gotAll HttpContext_new" by (simp add: HttpContext_gotAll_def HttpContext_new_def)
  ultimately show ?thesis
    using HttpContext_parse_in_pieces [OF b(1) new b1(1) _ b2(1) _ b2(1), of "''TP/1.0'' @ kCRLF"] b2(2) by blast
qed

section \<open>Whole requests\<close>

definition header_line :: "string \<times> string \<Rightarrow> string" where
  "header_line h = fst h @ '': '' @ snd h @ kCRLF"

definition header_ok :: "string \<times> string \<Rightarrow> bool" where
  "header_ok h \<longleftrightarrow> CHR '':'' \<notin> set (fst h) \<and> CHR 0x0D \<notin> set (fst h) \<and> CHR 0x0D \<notin> set (snd h) \<and>
     (snd h \<noteq> [] \<longrightarrow> \<not> isspace (hd (snd h)) \<and> \<not> isspace (last (snd h)))"

definition request_text :: "string \<Rightarrow> string \<Rightarrow> string \<Rightarrow> bool \<Rightarrow> (string \<times> string) list \<Rightarrow> string" where
  "request_text meth path query http11 headers =
     meth @ '' '' @ path @ query @ '' HTTP/1.'' @ (if http11 then ''1'' else ''0'') @ kCRLF @
     concat (map header_line headers) @ kCRLF"

definition target_ok :: "string \<Rightarrow> string \<Rightarrow> bool" where
  "target_ok path query \<longleftrightarrow> (\<forall>c\<in>set path. c \<noteq> CHR '' '' \<and> c \<noteq> CHR ''?'' \<and> c \<noteq> CHR 0x0D) \<and>
     (\<forall>c\<in>set query. c \<noteq> CHR '' '' \<and> c \<noteq> CHR 0x0D) \<and> (query = [] \<or> hd query = CHR ''?'')"

lemma find_or_end_first: "c \<notin> set a \<Longrightarrow> find_or_end c (a @ c # b) = length a"
  by (induction a) (auto simp: find_or_end_def split: option.splits)

lemma find_or_end_none: "c \<notin> set a \<Longrightarrow> find_or_end c a = length a"
  by (simp add: find_or_end_def find_char_None [THEN iffD2])

lemma trim_value: "s \<noteq> [] \<longrightarrow> \<not> isspace (hd s) \<and> \<not> isspace (last s) \<Longrightarrow> trim_right (dropWhile isspace (CHR 0x20 # s)) = s"
proof (cases "s = []")
  case False
  assume "s \<noteq> [] \<longrightarrow> \<not> isspace (hd s) \<and> \<not> isspace (last s)"
  then have ends: "\<not> isspace (hd s)" "\<not> isspace (hd (rev s))" using False by (simp_all add: hd_rev)
  have "isspace (CHR 0x20)" by (simp add: isspace_def)
  then have "dropWhile isspace (CHR 0x20 # s) = s" using ends(1) False by (cases s) simp_all
  moreover have "dropWhile isspace (rev s) = rev s" using ends(2) False by (cases "rev s") simp_all
  ultimately show ?thesis by (simp add: trim_right_def)
qed (simp add: trim_right_def isspace_def)

lemma addHeader_line: "header_ok h \<Longrightarrow>
  HttpRequest_addHeader (fst h @ '': '' @ snd h) (length (fst h)) r = r\<lparr>hr_headers := (hr_headers r)(fst h \<mapsto> snd h)\<rparr>"
  using trim_value [of "snd h"] by (simp add: HttpRequest_addHeader_def header_ok_def)

lemma drop_line: "drop (length line + 2) (line @ kCRLF @ rest) = rest"
  by (simp add: kCRLF_def)

lemma parse_text_headers:
  assumes "\<forall>h\<in>set hs. header_ok h" "hc_state c = kExpectHeaders"
  shows "parse_text t ok (concat (map header_line hs) @ kCRLF @ rest) c =
    Inr (ok, rest, c\<lparr>hc_request := (hc_request c)\<lparr>hr_headers := (hr_headers (hc_request c)) ++ map_of (rev hs)\<rparr>, hc_state := kGotAll\<rparr>)"
  using assms
proof (induction hs arbitrary: c)
  case Nil
  have "find_sub kCRLF (kCRLF @ rest) = Some 0" by (rule find_sub_prefix)
  then show ?case using Nil by (subst parse_text.simps) (simp add: find_or_end_def kCRLF_def)
next
  case (Cons h hs)
  let ?line = "fst h @ '': '' @ snd h"
  let ?rest = "concat (map header_line hs) @ kCRLF @ rest"
  have ok: "header_ok h" using Cons.prems(1) by simp
  then have "CHR 0x0D \<notin> set ?line" by (simp add: header_ok_def)
  then have f: "find_sub kCRLF (?line @ kCRLF @ ?rest) = Some (length ?line)"
    by (intro find_sub_first) (simp_all add: kCRLF_def)
  have colon: "find_or_end (CHR '':'') ?line = length (fst h)"
    using ok find_or_end_first [of "CHR '':''" "fst h" "CHR 0x20 # snd h"] by (simp add: header_ok_def)
  let ?c = "c\<lparr>hc_request := (hc_request c)\<lparr>hr_headers := (hr_headers (hc_request c))(fst h \<mapsto> snd h)\<rparr>\<rparr>"
  have tk: "take (length ?line) (?line @ kCRLF @ ?rest) = ?line" "drop (length ?line + 2) (?line @ kCRLF @ ?rest) = ?rest"
    by (simp, rule drop_line)
  have "parse_text t ok (?line @ kCRLF @ ?rest) c = parse_text t ok ?rest ?c"
    unfolding parse_text.simps [of t ok "?line @ kCRLF @ ?rest" c] f option.case tk Cons.prems(2) Let_def colon
    using addHeader_line [OF ok] by simp
  also have "\<dots> = Inr (ok, rest, ?c\<lparr>hc_request := (hc_request ?c)\<lparr>hr_headers := (hr_headers (hc_request ?c)) ++ map_of (rev hs)\<rparr>,
      hc_state := kGotAll\<rparr>)"
    using Cons.prems by (intro Cons.IH) simp_all
  finally show ?case by (simp add: header_line_def [of h] map_add_upd_left)
qed

lemma method_chars:
  "http_method_of s \<noteq> kInvalid \<Longrightarrow> CHR 0x20 \<notin> set s \<and> CHR 0x0D \<notin> set s"
  by (auto simp: http_method_of_def split: if_splits)

lemma question_split:
  assumes "target_ok path query"
  shows "find_or_end (CHR ''?'') (path @ query) = length path"
proof (cases query)
  case Nil
  then show ?thesis using assms find_or_end_none [of "CHR ''?''" path] by (auto simp: target_ok_def)
next
  case (Cons q qs)
  then show ?thesis using assms find_or_end_first [of "CHR ''?''" path qs] by (auto simp: target_ok_def)
qed

lemma processRequestLine_text:
  assumes "hr_method r = kInvalid" "http_method_of meth \<noteq> kInvalid" "target_ok path query" "v \<in> {CHR ''0'', CHR ''1''}"
  shows "HttpContext_processRequestLine (meth @ CHR 0x20 # (path @ query) @ CHR 0x20 # ''HTTP/1.'' @ [v]) r =
    Inr (True, r\<lparr>hr_method := http_method_of meth, hr_path := path,
      hr_query := (if query = [] then hr_query r else query), hr_version := (if v = CHR ''1'' then kHttp11 else kHttp10)\<rparr>)"
proof -
  let ?target = "path @ query" and ?version = "''HTTP/1.'' @ [v]"
  let ?line = "meth @ CHR 0x20 # ?target @ CHR 0x20 # ?version"
  have sp: "find_or_end (CHR 0x20) ?line = length meth"
    using find_or_end_first method_chars [OF assms(2)] by blast
  have "CHR 0x20 \<notin> set ?target" using assms(3) by (auto simp: target_ok_def)
  then have sp2: "find_or_end (CHR 0x20) (?target @ CHR 0x20 # ?version) = length ?target"
    by (rule find_or_end_first)
  have start: "take (length meth) ?line = meth" "drop (length meth + 1) ?line = ?target @ CHR 0x20 # ?version"
      "length meth \<noteq> length ?line"
    by simp_all
  have target: "take (length ?target) (?target @ CHR 0x20 # ?version) = ?target"
      "drop (length ?target + 1) (?target @ CHR 0x20 # ?version) = ?version"
      "length ?target \<noteq> length (?target @ CHR 0x20 # ?version)"
    by simp_all
  have m: "HttpRequest_setMethod meth r = Inr (True, r\<lparr>hr_method := http_method_of meth\<rparr>)"
    using assms(1,2) by (simp add: HttpRequest_setMethod_def)
  have v: "length ?version = 8 \<and> take 7 ?version = ''HTTP/1.''" "last ?version = v" by simp_all
  have tk: "take (length path) ?target = path" "drop (length path) ?target = query" by simp_all
  show ?thesis
    unfolding HttpContext_processRequestLine_def Let_def sp start sp2 target question_split [OF assms(3)] v m tk
    using assms(4) by (cases "query = []") auto
qed

definition request_of :: "Timestamp \<Rightarrow> string \<Rightarrow> string \<Rightarrow> string \<Rightarrow> bool \<Rightarrow> (string \<times> string) list \<Rightarrow> HttpRequest" where
  "request_of t meth path query http11 headers =
     \<lparr>hr_method = http_method_of meth, hr_version = (if http11 then kHttp11 else kHttp10), hr_path = path,
      hr_query = query, hr_receiveTime = t, hr_headers = map_of (rev headers)\<rparr>"

lemma take_prefix: "take (length xs) (xs @ ys) = xs"
  by simp

lemma request_line_eq: "request_text meth path query http11 hs @ rest =
    (meth @ CHR 0x20 # (path @ query) @ CHR 0x20 # ''HTTP/1.'' @ [if http11 then CHR ''1'' else CHR ''0'']) @ kCRLF @
    concat (map header_line hs) @ kCRLF @ rest"
  by (simp add: request_text_def)

lemma parse_text_request:
  assumes "http_method_of meth \<noteq> kInvalid" "target_ok path query" "\<forall>h\<in>set hs. header_ok h"
  shows "parse_text t True (request_text meth path query http11 hs @ rest) HttpContext_new =
    Inr (True, rest, \<lparr>hc_state = kGotAll, hc_request = request_of t meth path query http11 hs\<rparr>)"
proof -
  let ?line = "meth @ CHR 0x20 # (path @ query) @ CHR 0x20 # ''HTTP/1.'' @ [if http11 then CHR ''1'' else CHR ''0'']"
  let ?rest = "concat (map header_line hs) @ kCRLF @ rest"
  let ?r = "request_of t meth path query http11 []"
  have "CHR 0x0D \<notin> set ?line" using method_chars [OF assms(1)] assms(2) by (auto simp: target_ok_def)
  then have f: "find_sub kCRLF (?line @ kCRLF @ ?rest) = Some (length ?line)"
    by (intro find_sub_first) (simp_all add: kCRLF_def)
  have p: "HttpContext_processRequestLine ?line HttpRequest_new =
      Inr (True, ?r\<lparr>hr_receiveTime := hr_receiveTime HttpRequest_new\<rparr>)"
    using processRequestLine_text [of HttpRequest_new meth path query "if http11 then CHR ''1'' else CHR ''0''"] assms(1,2)
    by (simp add: HttpRequest_new_def request_of_def)
  have tk: "take (length ?line) (?line @ kCRLF @ ?rest) = ?line" by (rule take_prefix)
  have "parse_text t True (?line @ kCRLF @ ?rest) HttpContext_new =
      parse_text t True ?rest \<lparr>hc_state = kExpectHeaders, hc_request = ?r\<rparr>"
    unfolding parse_text.simps [of t True "?line @ kCRLF @ ?rest"] f option.case tk drop_line HttpContext_new_def
    using p by (simp add: request_of_def)
  also have "\<dots> = Inr (True, rest, \<lparr>hc_state = kGotAll, hc_request = request_of t meth path query http11 hs\<rparr>)"
    using parse_text_headers [OF assms(3), of "\<lparr>hc_state = kExpectHeaders, hc_request = ?r\<rparr>" t True rest]
    by (simp add: request_of_def)
  finally show ?thesis by (simp only: request_line_eq)
qed

text \<open>
  A well-formed request is understood. When the buffer holds the text of a request (a known method, a target
  with or without a query, version 1.0 or 1.1, any list of headers) followed by anything, \<open>parseRequest\<close>
  on a new context reports success and a complete request with exactly those fields, where a later
  header of the same name wins, and leaves what follows in the buffer.
\<close>

theorem HttpContext_parses_request_text:
  assumes "buffer_ok b" "content b = request_text meth path query http11 hs @ rest"
    and "http_method_of meth \<noteq> kInvalid" "target_ok path query" "\<forall>h\<in>set hs. header_ok h"
  shows "\<exists>b'. HttpContext_parseRequest b t HttpContext_new =
      Some (Inr (True, b', \<lparr>hc_state = kGotAll, hc_request = request_of t meth path query http11 hs\<rparr>)) \<and>
    buffer_ok b' \<and> content b' = rest"
  using parse_loop_text [OF assms(1), of HttpContext_new t True] parse_text_request [OF assms(3-5), of t http11 rest]
  by (simp add: assms(2) parsed_def HttpContext_parseRequest_def parsing_def HttpContext_new_def)

definition demo_headers :: "(string \<times> string) list" where
  "demo_headers = [(''Host'', ''a b:1''), (''Connection'', ''close'')]"

lemma demo_headers_ok: "\<forall>h\<in>set demo_headers. header_ok h" "target_ok ''/x'' ''?y=1''"
  by (simp_all add: demo_headers_def header_ok_def target_ok_def isspace_def)

theorem HttpContext_parses_request_text_witness:
  "\<exists>b'. HttpContext_parseRequest (buffer_of (request_text ''GET'' ''/x'' ''?y=1'' True demo_headers @ ''GET /z'')) 3 HttpContext_new =
      Some (Inr (True, b', \<lparr>hc_state = kGotAll, hc_request = request_of 3 ''GET'' ''/x'' ''?y=1'' True demo_headers\<rparr>)) \<and>
    buffer_ok b' \<and> content b' = ''GET /z''"
  by (rule HttpContext_parses_request_text [OF buffer_of_ok _ demo_headers_ok(2,1)]) (simp add: http_method_of_def)

section \<open>Bad requests\<close>

lemma parse_text_headers_ok:
  "parse_text t ok s c = Inr (good, s', c') \<Longrightarrow> hc_state c = kExpectHeaders \<Longrightarrow> good = ok"
proof (induction t ok s c rule: parse_text.induct)
  case (1 t ok s c)
  show ?case
  proof (cases "find_sub kCRLF s")
    case None
    then show ?thesis using 1(3) by (subst (asm) parse_text.simps) simp
  next
    case (Some i)
    note run = 1(3) [unfolded parse_text.simps [of t ok s c] Some option.case]
    show ?thesis using 1(2) [OF Some 1(4) refl] run 1(4) by (auto simp: Let_def split: if_splits)
  qed
qed

lemma bad_line_again:
  assumes "HttpContext_processRequestLine line HttpRequest_new = Inr (False, r)"
  shows "HttpContext_processRequestLine line r =
    (if hr_method r = kInvalid then Inr (False, r) else Inl AssertionFailed)"
proof -
  let ?space = "find_or_end (CHR 0x20) line"
  consider "?space = length line" | "?space \<noteq> length line" "http_method_of (take ?space line) = kInvalid"
    | "?space \<noteq> length line" "http_method_of (take ?space line) \<noteq> kInvalid" by blast
  then show ?thesis
  proof cases
    case 1
    then show ?thesis using assms by (auto simp: HttpContext_processRequestLine_def HttpRequest_new_def)
  next
    case 2
    have "r = HttpRequest_new"
      using assms 2 by (simp add: HttpContext_processRequestLine_def HttpRequest_setMethod_def HttpRequest_new_def)
    then show ?thesis using assms by (simp add: HttpRequest_new_def)
  next
    case 3
    have "hr_method r = http_method_of (take ?space line)"
      using assms 3 unfolding HttpContext_processRequestLine_def HttpRequest_setMethod_def HttpRequest_new_def
      by (auto simp: Let_def split: if_splits)
    then show ?thesis using 3 by (simp add: HttpContext_processRequestLine_def HttpRequest_setMethod_def)
  qed
qed

lemma parse_text_bad:
  assumes "parse_text t True s HttpContext_new = Inr (False, s', c')"
  shows "s' = s \<and> hc_state c' = kExpectRequestLine \<and> parse_text t' True (s @ y) c' =
    (if hr_method (hc_request c') = kInvalid then Inr (False, s @ y, c') else Inl AssertionFailed)"
proof -
  have st: "hc_state HttpContext_new = kExpectRequestLine" "hc_request HttpContext_new = HttpRequest_new"
    by (simp_all add: HttpContext_new_def)
  obtain i where i: "find_sub kCRLF s = Some i"
    using assms by (cases "find_sub kCRLF s") (simp_all add: parse_text.simps [of t])
  note run = assms [unfolded parse_text.simps [of t True s] i option.case st HttpRequestParseState.case]
  from run obtain good r where p: "HttpContext_processRequestLine (take i s) HttpRequest_new = Inr (good, r)"
    by (auto simp: bindR_eq_Inr_iff)
  have "\<not> good"
  proof
    assume good
    then have "parse_text t True (drop (i + 2) s) (HttpContext_new\<lparr>hc_request := r\<lparr>hr_receiveTime := t\<rparr>, hc_state := kExpectHeaders\<rparr>)
        = Inr (False, s', c')" using run p by simp
    from parse_text_headers_ok [OF this] show False by simp
  qed
  then have c': "s' = s" "c' = HttpContext_new\<lparr>hc_request := r\<rparr>" using run p by simp_all
  have tk: "take i (s @ y) = take i s" using find_crlf_length [OF i] by simp
  have "HttpContext_processRequestLine (take i s) r = (if hr_method r = kInvalid then Inr (False, r) else Inl AssertionFailed)"
    using bad_line_again p \<open>\<not> good\<close> by simp
  moreover have "hc_state c' = kExpectRequestLine" "hc_request c' = r" using c'(2) st(1) by simp_all
  ultimately show ?thesis
    unfolding parse_text.simps [of t' True "s @ y"] find_sub_append [OF i] option.case tk
    using c'(1) by simp
qed

text \<open>
  A bad request line is never left behind. When \<open>parseRequest\<close> on a new context reports a fault it has consumed
  nothing, and every later call on the connection, with whatever data was appended, reads the same line again:
  if its method was known the assertion of \<open>setMethod\<close> stops the program, otherwise the call fails again.
\<close>

theorem HttpContext_bad_request_again:
  assumes "buffer_ok b" "HttpContext_parseRequest b t HttpContext_new = Some (Inr (False, b1, c1))"
    and "buffer_ok b2" "content b2 = content b1 @ y"
  shows "content b1 = content b \<and>
    (if hr_method (hc_request c1) = kInvalid
     then \<exists>b3. HttpContext_parseRequest b2 t' c1 = Some (Inr (False, b3, c1)) \<and> content b3 = content b2
     else HttpContext_parseRequest b2 t' c1 = Some (Inl AssertionFailed))"
proof -
  have "parsing HttpContext_new" by (simp add: parsing_def HttpContext_new_def)
  then have "parse_text t True (content b) HttpContext_new = Inr (False, content b1, c1)"
    using parse_loop_text [OF assms(1), of HttpContext_new t True] assms(2)
    by (auto simp: parsed_def HttpContext_parseRequest_def split: sum.splits prod.splits)
  note bad = parse_text_bad [OF this, of t' y]
  have "parsed (parse_text t' True (content b2) c1) (HttpContext_parseRequest b2 t' c1)"
    unfolding HttpContext_parseRequest_def by (rule parse_loop_text [OF assms(3)]) (use bad in \<open>simp add: parsing_def\<close>)
  then show ?thesis using bad assms(4) by (auto simp: parsed_def split: if_splits)
qed

theorem HttpContext_bad_request_again_witness:
  "\<exists>b1 c1. HttpContext_parseRequest (buffer_of (''GET / FTP/1.0'' @ kCRLF)) 0 HttpContext_new = Some (Inr (False, b1, c1)) \<and>
    HttpContext_parseRequest (buffer_of (''GET / FTP/1.0'' @ kCRLF @ kCRLF)) 1 c1 = Some (Inl AssertionFailed)"
proof -
  let ?line = "''GET / FTP/1.0''"
  have new: "parsing HttpContext_new" by (simp add: parsing_def HttpContext_new_def)
  have code: "case HttpContext_processRequestLine ?line HttpRequest_new of Inr x \<Rightarrow> \<not> fst x \<and> hr_method (snd x) = kGet | _ \<Rightarrow> False"
    by code_simp
  obtain r where r: "HttpContext_processRequestLine ?line HttpRequest_new = Inr (False, r)" "hr_method r = kGet"
  proof (cases "HttpContext_processRequestLine ?line HttpRequest_new")
    case (Inr x)
    show ?thesis by (rule that [of "snd x"]) (use code Inr in \<open>simp_all add: prod_eq_iff\<close>)
  qed (use code in simp)
  moreover have "find_sub kCRLF (?line @ kCRLF) = Some 13" by code_simp
  moreover have "take 13 (?line @ kCRLF) = ?line" by simp
  ultimately have "parse_text 0 True (?line @ kCRLF) HttpContext_new =
      Inr (False, ?line @ kCRLF, HttpContext_new\<lparr>hc_request := r\<rparr>)"
    unfolding parse_text.simps [of 0 True "?line @ kCRLF"] by (simp add: HttpContext_new_def)
  then obtain b1 where b1: "HttpContext_parseRequest (buffer_of (?line @ kCRLF)) 0 HttpContext_new =
      Some (Inr (False, b1, HttpContext_new\<lparr>hc_request := r\<rparr>))" "content b1 = ?line @ kCRLF"
    using parse_loop_text [OF buffer_of_ok(1) new, of 0 True "?line @ kCRLF"]
    by (auto simp: parsed_def HttpContext_parseRequest_def buffer_of_ok)
  have "content (buffer_of (?line @ kCRLF @ kCRLF)) = content b1 @ kCRLF" using b1(2) by (simp add: buffer_of_ok)
  from HttpContext_bad_request_again [OF buffer_of_ok(1) b1(1) buffer_of_ok(1) this, of 1] b1(1) r(2) show ?thesis by auto
qed

section \<open>Answers\<close>

definition response_text :: "HttpResponse \<Rightarrow> string" where
  "response_text p = ''HTTP/1.1 '' @ nat_dec (status_number (hp_statusCode p)) @ '' '' @ hp_statusMessage p @ kCRLF @
     (if hp_closeConnection p then ''Connection: close'' @ kCRLF
      else ''Content-Length: '' @ nat_dec (length (hp_body p)) @ kCRLF @ ''Connection: kepp-Alive'' @ kCRLF) @
     concat (map header_line (hp_headers p)) @ kCRLF @ hp_body p"

definition appended :: "Buffer result \<Rightarrow> string \<Rightarrow> bool" where
  "appended res s \<longleftrightarrow> (\<exists>b. res = Inr b \<and> buffer_ok b \<and> content b = s)"

lemma appended_append: "appended res s \<Longrightarrow> appended (bindR res (\<lambda>b. Buffer_append b d)) (s @ d)"
  using Buffer_append_spec by (fastforce simp: appended_def)

lemma appended_then: "appended res s \<Longrightarrow> (\<And>b. buffer_ok b \<Longrightarrow> content b = s \<Longrightarrow> appended (f b) s') \<Longrightarrow> appended (bindR res f) s'"
  by (auto simp: appended_def)

lemma append_appended: "buffer_ok b \<Longrightarrow> appended (Buffer_append b d) (content b @ d)"
  using Buffer_append_spec by (fastforce simp: appended_def)

lemma append_header_text: "buffer_ok b \<Longrightarrow> appended (append_header h b) (content b @ header_line h)"
  unfolding append_header_def
  by (rule appended_then [OF append_appended], assumption)+
    (use append_appended in \<open>fastforce simp: header_line_def\<close>)

lemma append_headers_text: "buffer_ok b \<Longrightarrow> appended (foldR append_header hs b) (content b @ concat (map header_line hs))"
proof (induction hs arbitrary: b)
  case Nil
  then show ?case by (simp add: appended_def)
next
  case (Cons h hs)
  show ?case unfolding foldR.simps
    by (rule appended_then [OF append_header_text [OF Cons.prems]]) (use Cons.IH in fastforce)
qed

lemma status_text: "snprintf 32 (''HTTP/1.1 '' @ nat_dec (status_number code) @ '' '') = ''HTTP/1.1 '' @ nat_dec (status_number code) @ '' ''"
proof -
  have "length (nat_dec (status_number code)) \<le> 3" by (rule length_nat_dec) (simp_all add: status_number_def split: HttpStatusCode.splits)
  then show ?thesis by (simp add: snprintf_def)
qed

lemma length_text: "n < 10 ^ 13 \<Longrightarrow> snprintf 32 (''Content-Length: '' @ nat_dec n @ kCRLF) = ''Content-Length: '' @ nat_dec n @ kCRLF"
proof -
  assume "n < 10 ^ 13"
  then have "length (nat_dec n) \<le> 13" by (intro length_nat_dec) simp_all
  then show ?thesis by (simp add: snprintf_def kCRLF_def)
qed

lemma appendToBuffer_text:
  assumes "buffer_ok b" "length (hp_body p) < 10 ^ 13"
  shows "appended (HttpResponse_appendToBuffer p b) (content b @ response_text p)"
proof -
  note step = appended_then [OF append_appended]
  have head: "appended (if hp_closeConnection p then Buffer_append b (''Connection: close'' @ kCRLF)
      else bindR (Buffer_append b (''Content-Length: '' @ nat_dec (length (hp_body p)) @ kCRLF)) (\<lambda>output.
           Buffer_append output (''Connection: kepp-Alive'' @ kCRLF)))
    (content b @ (if hp_closeConnection p then ''Connection: close'' @ kCRLF
      else ''Content-Length: '' @ nat_dec (length (hp_body p)) @ kCRLF @ ''Connection: kepp-Alive'' @ kCRLF))" if "buffer_ok b" for b
    using append_appended [OF that, of "''Connection: close'' @ kCRLF"] appended_append [OF append_appended [OF that],
        of "''Content-Length: '' @ nat_dec (length (hp_body p)) @ kCRLF" "''Connection: kepp-Alive'' @ kCRLF"] by simp
  show ?thesis
    unfolding HttpResponse_appendToBuffer_def status_text length_text [OF assms(2)]
    apply (rule step [OF assms(1)])
    apply (rule step, assumption)+
    apply (rule appended_then [OF head], assumption)
    apply (rule appended_then [OF append_headers_text], assumption)
    apply (rule step, assumption)
    using append_appended by (fastforce simp: response_text_def)
qed

text \<open>The response a complete request gets.\<close>

definition response_to :: "(HttpRequest \<Rightarrow> HttpResponse \<Rightarrow> HttpResponse) \<Rightarrow> HttpRequest \<Rightarrow> HttpResponse" where
  "response_to httpCallback req =
     httpCallback req (HttpResponse_new (HttpRequest_getHeader ''Connection'' req = ''close'' \<or>
       hr_version req = kHttp10 \<and> HttpRequest_getHeader ''Connection'' req \<noteq> ''Keep-Alive''))"

lemma shutdown_keeps:
  assumes "live tid c"
  shows "\<exists>c'. TcpConnection_shutdown tid c = Inr c' \<and> tc_inv c' \<and> tc_state c' = kDisconnecting \<and> tc_accepted c' = tc_accepted c"
proof -
  have c: "tc_inv c" "tc_state c = kConnected" "tc_threadId c = tid" using assms by (simp_all add: live_def)
  obtain c' where c': "TcpConnection_shutdown tid c = Inr c'" "tc_inv c'" using shutdown_inv [OF c(1)] by blast
  then show ?thesis using c(2,3)
    by (auto simp: TcpConnection_shutdown_def TcpConnection_shutdownInLoop_def tc_emit_def tc_assertInLoopThread_def
        Let_def split: if_splits)
qed

lemma onRequest_answers:
  assumes "live tid conn" "steady write" "length (hp_body (response_to callback req)) < 10 ^ 13"
  shows "\<exists>conn'. HttpServer_onRequest write tid callback req conn = Inr conn' \<and> tc_inv conn' \<and>
    tc_accepted conn' = tc_accepted conn @ response_text (response_to callback req) \<and>
    tc_state conn' = (if hp_closeConnection (response_to callback req) then kDisconnecting else kConnected)"
proof -
  let ?p = "response_to callback req"
  obtain b where b: "HttpResponse_appendToBuffer ?p Buffer_init = Inr b" "content b = response_text ?p"
    using appendToBuffer_text [OF Buffer_init_ok assms(3)] by (auto simp: appended_def)
  obtain c where c: "TcpConnection_send write tid (content b) conn = Inr c" "live tid c"
      "tc_accepted c = tc_accepted conn @ content b" using send_accepts [OF assms(1,2)] by blast
  have "TcpConnection_send_Buffer write tid b conn = Inr (c, Buffer_retrieveAll b)"
    using c(1) assms(1) by (simp add: TcpConnection_send_def TcpConnection_send_Buffer_def live_def)
  then have "HttpServer_onRequest write tid callback req conn =
      (if hp_closeConnection ?p then TcpConnection_shutdown tid c else Inr c)"
    using b(1) by (simp add: HttpServer_onRequest_def Let_def response_to_def Buffer_new_eq)
  then show ?thesis using shutdown_keeps [OF c(2)] c(2,3) b(2) by (auto simp: live_def)
qed



end
