(* ===== verification/Media_H264.thy ===== *)
theory Media_H264
  imports Prelude
begin

text \<open>
  H.264 frames and their packets: \<open>Media.h\<close>, \<open>Rtp.h\<close>, \<open>MediaSource.h\<close>, \<open>H264Source.h\<close> and
  \<open>H264Source.cc\<close> of \<open>ideal/media\<close>.

  A frame and a packet carry a byte array and a separate 32-bit size, as in the code; sizes stay
  words, so the comparison \<open>frameSize + 2 > MAX_RTP_PAYLOAD_SIZE\<close> wraps. A packet's array is
  allocated with 1600 bytes and not initialised: \<open>junk n\<close> is what the memory of the \<open>n\<close>-th packet
  holds. \<open>memcpy\<close> and stores outside the arrays are \<open>OutOfRange\<close>. The callback of the source is an
  argument; it may be absent, may refuse a packet, and may fail.

  \<open>depacketize\<close> is the receiver of RFC 3984 (single NAL unit packets and FU-A fragments), and the
  main theorem says that it gets back the frame.
\<close>

unbundle bit_operations_syntax

section \<open>Data\<close>

type_synonym byte = "8 word"

datatype MediaType = H264 | NONE

datatype MediaChannelId = channel_0 | channel_1

definition VIDEO_FRAME_I :: byte where
  "VIDEO_FRAME_I = 1"

definition RTP_HEADER_SIZE :: nat where
  "RTP_HEADER_SIZE = 12"

definition MAX_RTP_PAYLOAD_SIZE :: nat where
  "MAX_RTP_PAYLOAD_SIZE = 1420"

record AVFrame =
  fr_buffer :: "byte list"
  fr_size :: "32 word"
  fr_type :: byte
  fr_timestamp :: "32 word"

definition AVFrame_new :: "(nat \<Rightarrow> byte) \<Rightarrow> 32 word \<Rightarrow> AVFrame" where
  "AVFrame_new junk sz = \<lparr>fr_buffer = map junk [0..<unat sz], fr_size = sz, fr_type = 0, fr_timestamp = 0\<rparr>"

record RtpPacket =
  pk_data :: "byte list"
  pk_size :: "32 word"
  pk_timestamp :: "32 word"
  pk_type :: byte
  pk_last :: byte

definition RtpPacket_new :: "(nat \<Rightarrow> byte) \<Rightarrow> RtpPacket" where
  "RtpPacket_new junk =
     \<lparr>pk_data = map junk [0..<1600], pk_size = 0, pk_timestamp = 0, pk_type = 0, pk_last = 0\<rparr>"

record H264Source =
  hs_frameRate :: "32 word"
  hs_payload :: "32 word"
  hs_mediaType :: MediaType
  hs_clockRate :: "32 word"

definition H264Source_createNew :: "32 word \<Rightarrow> H264Source" where
  "H264Source_createNew frameRate =
     \<lparr>hs_frameRate = frameRate, hs_payload = 96, hs_mediaType = H264, hs_clockRate = 90000\<rparr>"

definition H264Source_setFrameRate :: "32 word \<Rightarrow> H264Source \<Rightarrow> H264Source" where
  "H264Source_setFrameRate frameRate h = h\<lparr>hs_frameRate := frameRate\<rparr>"

text \<open>The argument is the steady clock in microseconds.\<close>

definition H264Source_getTimestamp :: "int \<Rightarrow> 32 word" where
  "H264Source_getTimestamp now = word_of_int (cdiv (now + 500) 1000 * 90)"

definition H264Source_getMediaDescription :: "16 word \<Rightarrow> string" where
  "H264Source_getMediaDescription port = ''m=video '' @ nat_dec (unat port) @ '' RTP/AVP 96''"

definition H264Source_getAttribute :: string where
  "H264Source_getAttribute = ''a=rtpmap:96 H264/90000''"

section \<open>Packetization\<close>

type_synonym 's send_callback = "MediaChannelId \<Rightarrow> RtpPacket \<Rightarrow> 's \<Rightarrow> (bool \<times> 's) result"

definition sendFrameCallback :: "'s send_callback option \<Rightarrow> 's send_callback" where
  "sendFrameCallback cb channelId pkt s = (case cb of None \<Rightarrow> Inr (True, s) | Some f \<Rightarrow> f channelId pkt s)"

definition single_packet :: "(nat \<Rightarrow> byte) \<Rightarrow> AVFrame \<Rightarrow> RtpPacket result" where
  "single_packet junk frame =
     (let rtpPkt = (RtpPacket_new junk)\<lparr>pk_type := fr_type frame, pk_timestamp := fr_timestamp frame,
            pk_size := fr_size frame + 4 + of_nat RTP_HEADER_SIZE, pk_last := 1\<rparr> in
      bindR (mem_read (fr_buffer frame) 0 (unat (fr_size frame))) (\<lambda>bs.
      bindR (mem_write (4 + RTP_HEADER_SIZE) bs (pk_data rtpPkt)) (\<lambda>d. Inr (rtpPkt\<lparr>pk_data := d\<rparr>))))"

text \<open>A fragment: \<open>len\<close> bytes of the frame from \<open>pos\<close>, behind the FU indicator and the FU header.\<close>

definition fu_packet ::
  "(nat \<Rightarrow> byte) \<Rightarrow> AVFrame \<Rightarrow> 32 word \<Rightarrow> byte \<Rightarrow> byte \<times> byte \<Rightarrow> nat \<Rightarrow> nat \<Rightarrow> RtpPacket result" where
  "fu_packet junk frame sz final fu pos len =
     (let rtpPkt = (RtpPacket_new junk)\<lparr>pk_type := fr_type frame, pk_timestamp := fr_timestamp frame,
            pk_size := sz, pk_last := final\<rparr> in
      bindR (mem_write (RTP_HEADER_SIZE + 4) [fst fu] (pk_data rtpPkt)) (\<lambda>d1.
      bindR (mem_write (RTP_HEADER_SIZE + 5) [snd fu] d1) (\<lambda>d2.
      bindR (mem_read (fr_buffer frame) pos len) (\<lambda>bs.
      bindR (mem_write (4 + RTP_HEADER_SIZE + 2) bs d2) (\<lambda>d3. Inr (rtpPkt\<lparr>pk_data := d3\<rparr>))))))"

function fu_loop ::
  "(nat \<Rightarrow> nat \<Rightarrow> byte) \<Rightarrow> 's send_callback option \<Rightarrow> MediaChannelId \<Rightarrow> AVFrame \<Rightarrow>
   nat \<Rightarrow> nat \<Rightarrow> 32 word \<Rightarrow> byte \<times> byte \<Rightarrow> 's \<Rightarrow> (bool \<times> 's) result" where
  "fu_loop junk cb channelId frame n pos frameSize fu s =
     (if frameSize + 2 > of_nat MAX_RTP_PAYLOAD_SIZE then
        bindR (fu_packet (junk n) frame (4 + of_nat RTP_HEADER_SIZE + of_nat MAX_RTP_PAYLOAD_SIZE) 0 fu
                 pos (MAX_RTP_PAYLOAD_SIZE - 2)) (\<lambda>rtpPkt.
        bindR (sendFrameCallback cb channelId rtpPkt s) (\<lambda>(ok, s).
        if \<not> ok then Inr (False, s)
        else fu_loop junk cb channelId frame (Suc n) (pos + (MAX_RTP_PAYLOAD_SIZE - 2))
               (frameSize - of_nat (MAX_RTP_PAYLOAD_SIZE - 2)) (fst fu, snd fu AND NOT 0x80) s))
      else
        bindR (fu_packet (junk n) frame (4 + of_nat RTP_HEADER_SIZE + 2 + frameSize) 1 (fst fu, snd fu OR 0x40)
                 pos (unat frameSize)) (\<lambda>rtpPkt.
        bindR (sendFrameCallback cb channelId rtpPkt s) (\<lambda>(ok, s).
        if \<not> ok then Inr (False, s) else Inr (True, s))))"
  by pat_completeness auto

lemma word_gt_step: "(1420 :: 32 word) < w + 2 \<Longrightarrow> unat (w - 1418) = unat w - 1418 \<and> 1418 < unat w"
proof -
  assume a: "(1420 :: 32 word) < w + 2"
  have "unat (w + 2) = (unat w + 2) mod 2 ^ 32"
    by (simp add: unat_word_ariths)
  moreover have "1420 < unat (w + 2)" using a by (simp add: word_less_nat_alt)
  moreover have "unat w < 2 ^ 32" using unsigned_less [of w, where ?'a = nat] by simp
  ultimately have b: "1418 < unat w" by (cases "unat w + 2 < 2 ^ 32") auto
  then have "(1418 :: 32 word) \<le> w" by (simp add: word_le_nat_alt)
  then show ?thesis using b by (simp add: unat_sub)
qed

termination fu_loop
  by (relation "measure (\<lambda>(_, _, _, _, _, _, frameSize, _, _). unat frameSize)")
    (auto simp: MAX_RTP_PAYLOAD_SIZE_def dest!: word_gt_step)

declare fu_loop.simps [simp del]

definition stamp :: "int \<Rightarrow> AVFrame \<Rightarrow> AVFrame" where
  "stamp now frame =
     (if fr_timestamp frame = 0 then frame\<lparr>fr_timestamp := H264Source_getTimestamp now\<rparr> else frame)"

definition H264Source_handleFrame ::
  "(nat \<Rightarrow> nat \<Rightarrow> byte) \<Rightarrow> int \<Rightarrow> 's send_callback option \<Rightarrow> MediaChannelId \<Rightarrow> AVFrame \<Rightarrow> 's \<Rightarrow>
   (bool \<times> 's) result" where
  "H264Source_handleFrame junk now cb channelId frame s =
     (let frame = stamp now frame; frameSize = fr_size frame in
      if frameSize \<le> of_nat MAX_RTP_PAYLOAD_SIZE then
        bindR (single_packet (junk 0) frame) (\<lambda>rtpPkt.
        bindR (sendFrameCallback cb channelId rtpPkt s) (\<lambda>(ok, s).
        if \<not> ok then Inr (False, s) else Inr (True, s)))
      else
        bindR (mem_read (fr_buffer frame) 0 1) (\<lambda>b.
        fu_loop junk cb channelId frame 0 1 (frameSize - 1)
          ((hd b AND 0xE0) OR 28, 0x80 OR (hd b AND 0x1F)) s))"

section \<open>What is sent, as a list\<close>

text \<open>Hands the packets to the callback until it refuses one.\<close>

fun deliver :: "'s send_callback option \<Rightarrow> MediaChannelId \<Rightarrow> RtpPacket list \<Rightarrow> 's \<Rightarrow> (bool \<times> 's) result" where
  "deliver cb channelId [] s = Inr (True, s)"
| "deliver cb channelId (p # ps) s =
     bindR (sendFrameCallback cb channelId p s) (\<lambda>(ok, s).
     if \<not> ok then Inr (False, s) else deliver cb channelId ps s)"

definition payload :: "RtpPacket \<Rightarrow> byte list" where
  "payload p = slice 16 (unat (pk_size p)) (pk_data p)"

text \<open>The receiver: the bits of a NAL unit header, of a FU indicator and of a FU header.\<close>

definition nal_type :: "byte \<Rightarrow> byte" where
  "nal_type b = b AND 0x1F"

fun fu_collect :: "bool \<Rightarrow> byte list list \<Rightarrow> byte list option" where
  "fu_collect start [] = None"
| "fu_collect start ((i # h # bs) # qs) =
     (if nal_type i \<noteq> 28 \<or> bit h 7 \<noteq> start then None
      else if bit h 6 then (if qs = [] then Some bs else None)
      else map_option ((@) bs) (fu_collect False qs))"
| "fu_collect start (_ # qs) = None"

definition depacketize :: "byte list list \<Rightarrow> byte list option" where
  "depacketize qs =
     (case qs of
        [(b # bs)] \<Rightarrow> if nal_type b \<noteq> 28 then Some (b # bs) else None
      | (i # h # bs) # _ \<Rightarrow> map_option ((#) ((i AND 0xE0) OR (h AND 0x1F))) (fu_collect True qs)
      | _ \<Rightarrow> None)"

section \<open>Packets of a frame\<close>

lemmas sizes = MAX_RTP_PAYLOAD_SIZE_def RTP_HEADER_SIZE_def

lemma slice_splice_within:
  assumes "pos \<le> i" "j \<le> pos + length ys" "pos + length ys \<le> length xs"
  shows "slice i j (splice pos ys xs) = slice (i - pos) (j - pos) ys"
  using assms by (intro nth_equalityI) (auto simp: slice_def splice_def nth_append)

text \<open>Two adjacent writes make one contiguous piece.\<close>

lemma slice_splice_join:
  assumes "i \<le> pos" "j = pos + length ys" "j \<le> length xs"
  shows "slice i j (splice pos ys xs) = slice i pos xs @ ys"
  using assms
  by (metis le_add1 length_splice slice_append_slice slice_splice_before slice_splice_same order_refl)

definition packet_ok :: "AVFrame \<Rightarrow> RtpPacket \<Rightarrow> bool" where
  "packet_ok frame p \<longleftrightarrow> length (pk_data p) = 1600 \<and> 16 \<le> unat (pk_size p) \<and> unat (pk_size p) \<le> 16 + 1420 \<and>
     pk_timestamp p = fr_timestamp frame \<and> pk_type p = fr_type frame"

lemma single_packet_spec:
  assumes "length (fr_buffer frame) = unat (fr_size frame)" "fr_size frame \<le> 1420"
  shows "\<exists>p. single_packet junk frame = Inr p \<and> payload p = fr_buffer frame \<and> pk_last p = 1 \<and> packet_ok frame p"
proof -
  have le: "unat (fr_size frame) \<le> 1420" using assms(2) by (simp add: word_le_nat_alt)
  have sz: "unat (fr_size frame + 4 + 12) = unat (fr_size frame) + 16"
    using le by (simp add: unat_word_ariths)
  have all: "slice 0 (unat (fr_size frame)) (fr_buffer frame) = fr_buffer frame"
    using assms(1) slice_all by metis
  have filled: "slice 16 (unat (fr_size frame) + 16) (splice 16 (fr_buffer frame) (map junk [0..<1600])) = fr_buffer frame"
    using slice_splice_same [of 16 "fr_buffer frame" "map junk [0..<1600]"] assms(1) le by (simp add: add.commute)
  show ?thesis
    using assms le sz filled
    by (simp add: single_packet_def RtpPacket_new_def sizes all packet_ok_def payload_def del: upt_Suc)
qed

lemma fu_packet_spec:
  assumes "pos + len \<le> length (fr_buffer frame)" "len \<le> 1418" "unat sz = 18 + len"
  shows "\<exists>p. fu_packet junk frame sz final fu pos len = Inr p \<and>
             payload p = fst fu # snd fu # slice pos (pos + len) (fr_buffer frame) \<and>
             pk_last p = final \<and> packet_ok frame p"
proof -
  let ?bs = "slice pos (pos + len) (fr_buffer frame)"
  let ?d = "splice 17 [snd fu] (splice 16 [fst fu] (map junk [0..<1600]))"
  have len: "length ?bs = len" using assms(1) by simp
  have d: "length ?d = 1600" by simp
  have "slice 16 17 (splice 16 [fst fu] (map junk [0..<1600])) = [fst fu]"
    using slice_splice_same [of 16 "[fst fu]" "map junk [0..<1600]"] by simp
  then have "slice 16 18 ?d = [fst fu, snd fu]"
    by (subst slice_splice_join) simp_all
  then have "slice 16 (18 + len) (splice 18 ?bs ?d) = [fst fu, snd fu] @ ?bs"
    using assms len by (subst slice_splice_join) simp_all
  then show ?thesis
    using assms len by (simp add: fu_packet_def RtpPacket_new_def sizes packet_ok_def payload_def del: upt_Suc)
qed

lemma fu_bits:
  "\<not> bit ((h :: byte) AND NOT 0x80) 7" "bit (h AND NOT 0x80) 6 = bit h 6" "bit (h OR 0x40) 6"
  "bit (h OR 0x40) 7 = bit h 7" "\<not> bit (h AND - 129) 7" "bit (h AND - 129) 6 = bit h 6"
  by (simp_all add: bit_simps)

text \<open>
  The fragments of the frame from \<open>pos\<close> on: the loop hands them over one after the other, and a
  receiver collects the bytes back.
\<close>

lemma fu_loop_packets:
  assumes "pos + unat frameSize = length (fr_buffer frame)" "unat frameSize + 2 < 2 ^ 32"
    and "nal_type (fst fu) = 28" "\<not> bit (snd fu) 6"
  shows "\<exists>ps p. (\<forall>(cb :: 's send_callback option) s.
             fu_loop junk cb channelId frame n pos frameSize fu s = deliver cb channelId (ps @ [p]) s) \<and>
           fu_collect (bit (snd fu) 7) (map payload (ps @ [p])) = Some (drop pos (fr_buffer frame)) \<and>
           (\<forall>q\<in>set ps. pk_last q = 0) \<and> pk_last p = 1 \<and> (\<forall>q\<in>set (ps @ [p]). packet_ok frame q) \<and>
           take 2 (payload (hd (ps @ [p]))) = [fst fu, if unat frameSize \<le> 1418 then snd fu OR 0x40 else snd fu] \<and>
           length ps = (unat frameSize - 1) div 1418"
  using assms
proof (induction "unat frameSize" arbitrary: frameSize n pos fu rule: less_induct)
  case less
  have gt: "(1420 :: 32 word) < frameSize + 2 \<longleftrightarrow> 1418 < unat frameSize"
    using less.prems(2) by (simp add: word_less_nat_alt unat_word_ariths)
  show ?case
  proof (cases "1418 < unat frameSize")
    case True
    have step: "unat (frameSize - 1418) = unat frameSize - 1418"
      using word_gt_step gt True by blast
    obtain p where p: "fu_packet (junk n) frame 1436 0 fu pos 1418 = Inr p"
        "payload p = fst fu # snd fu # slice pos (pos + 1418) (fr_buffer frame)" "pk_last p = 0" "packet_ok frame p"
      using fu_packet_spec [of pos 1418 frame 1436 "junk n" 0 fu] less.prems(1) True by auto
    let ?fu = "(fst fu, snd fu AND NOT 0x80)"
    obtain ps q where ps: "\<forall>(cb :: 's send_callback option) s.
             fu_loop junk cb channelId frame (Suc n) (pos + 1418) (frameSize - 1418) ?fu s
               = deliver cb channelId (ps @ [q]) s"
        "fu_collect (bit (snd ?fu) 7) (map payload (ps @ [q])) = Some (drop (pos + 1418) (fr_buffer frame))"
        "\<forall>r\<in>set ps. pk_last r = 0" "pk_last q = 1" "\<forall>r\<in>set (ps @ [q]). packet_ok frame r"
        "length ps = (unat (frameSize - 1418) - 1) div 1418"
    proof -
      have "pos + 1418 + unat (frameSize - 1418) = length (fr_buffer frame)"
          "unat (frameSize - 1418) + 2 < 2 ^ 32" "unat (frameSize - 1418) < unat frameSize"
        using less.prems(1,2) True step by simp_all
      then show thesis
        using less.hyps [of "frameSize - 1418" "pos + 1418" ?fu "Suc n"] less.prems(3,4) that
        by (simp only: fst_conv snd_conv fu_bits simp_thms) blast
    qed
    have "fu_loop junk cb channelId frame n pos frameSize fu s = deliver cb channelId ((p # ps) @ [q]) s"
      for cb :: "'s send_callback option" and s
      using gt True p(1) ps(1) by (subst fu_loop.simps) (simp add: sizes cong: if_cong)
    moreover have "fu_collect (bit (snd fu) 7) (map payload ((p # ps) @ [q])) = Some (drop pos (fr_buffer frame))"
    proof -
      have "slice pos (pos + 1418) (fr_buffer frame) @ drop (pos + 1418) (fr_buffer frame) = drop pos (fr_buffer frame)"
        by (metis add.commute add_diff_cancel_left' append_take_drop_id drop_drop slice_def)
      then show ?thesis using p(2) ps(2) less.prems(3,4) by (simp add: fu_bits)
    qed
    moreover have "length (p # ps) = (unat frameSize - 1) div 1418"
      using ps(6) step True le_div_geq [of 1418 "unat frameSize - 1"] by simp
    moreover have "take 2 (payload (hd ((p # ps) @ [q])))
        = [fst fu, if unat frameSize \<le> 1418 then snd fu OR 0x40 else snd fu]"
      using True p(2) by (simp add: numeral_2_eq_2)
    moreover have "\<forall>r\<in>set (p # ps). pk_last r = 0" "\<forall>r\<in>set ((p # ps) @ [q]). packet_ok frame r"
      using p(3,4) ps(3,5) by auto
    ultimately show ?thesis using ps(4) by blast
  next
    case False
    have sz: "unat (18 + frameSize) = 18 + unat frameSize"
      using False by (simp add: unat_word_ariths)
    let ?fu = "(fst fu, snd fu OR 0x40)"
    obtain p where p: "fu_packet (junk n) frame (18 + frameSize) 1 ?fu pos (unat frameSize) = Inr p"
        "payload p = fst fu # (snd fu OR 0x40) # slice pos (pos + unat frameSize) (fr_buffer frame)"
        "pk_last p = 1" "packet_ok frame p"
      using fu_packet_spec [of pos "unat frameSize" frame "18 + frameSize" "junk n" 1 ?fu] less.prems(1) False sz by auto
    have "fu_loop junk cb channelId frame n pos frameSize fu s = deliver cb channelId ([] @ [p]) s"
      for cb :: "'s send_callback option" and s
      using gt False p(1) by (subst fu_loop.simps) (simp add: sizes cong: if_cong)
    moreover have "fu_collect (bit (snd fu) 7) (map payload ([] @ [p])) = Some (drop pos (fr_buffer frame))"
      using p(2) less.prems(1,3) by (simp add: fu_bits slice_def)
    moreover have "length [] = (unat frameSize - 1) div 1418" using False by simp
    moreover have "take 2 (payload (hd ([] @ [p])))
        = [fst fu, if unat frameSize \<le> 1418 then snd fu OR 0x40 else snd fu]"
      using False p(2) by (simp add: numeral_2_eq_2)
    ultimately show ?thesis using p(3,4) by (intro exI [of _ "[]"] exI [of _ p]) simp
  qed
qed

section \<open>A receiver gets the frame\<close>

lemma byte_eqI:
  assumes "\<And>n. n \<in> {0, 1, 2, 3, 4, 5, 6, 7} \<Longrightarrow> bit a n = bit (b :: byte) n"
  shows "a = b"
proof (rule bit_word_eqI)
  fix n assume "n < LENGTH(8)"
  then have "n \<in> {0, 1, 2, 3, 4, 5, 6, 7}" by auto
  then show "bit a n = bit b n" by (rule assms)
qed

lemma fu_header_bits:
  "nal_type ((b AND 0xE0) OR 28) = 28" "\<not> bit ((0x80 :: byte) OR (b AND 0x1F)) 6"
  "bit ((0x80 :: byte) OR (b AND 0x1F)) 7"
  "(((b AND 0xE0) OR 28) AND 0xE0) OR ((0x80 OR (b AND 0x1F)) AND 0x1F) = (b :: byte)"
proof -
  have "((b AND 0xE0) OR 28) AND 0x1F = (28 :: byte)"
    by (rule byte_eqI) (auto simp: bit_simps)
  then show "nal_type ((b AND 0xE0) OR 28) = 28" by (simp add: nal_type_def)
  show "(((b AND 0xE0) OR 28) AND 0xE0) OR ((0x80 OR (b AND 0x1F)) AND 0x1F) = b"
    by (rule byte_eqI) (auto simp: bit_simps)
qed (simp_all add: bit_simps)

lemma frame_packets:
  assumes "length (fr_buffer frame) = unat (fr_size frame)" "unat (fr_size frame) + 1 < 2 ^ 32"
    and "fr_buffer frame \<noteq> []" "nal_type (hd (fr_buffer frame)) \<noteq> 28"
  shows "\<exists>ps p.
    (\<forall>(cb :: 's send_callback option) s.
       (if fr_size frame \<le> of_nat MAX_RTP_PAYLOAD_SIZE then
          bindR (single_packet (junk 0) frame) (\<lambda>rtpPkt.
          bindR (sendFrameCallback cb channelId rtpPkt s) (\<lambda>(ok, s).
          if \<not> ok then Inr (False, s) else Inr (True, s)))
        else
          bindR (mem_read (fr_buffer frame) 0 1) (\<lambda>b.
          fu_loop junk cb channelId frame 0 1 (fr_size frame - 1)
            ((hd b AND 0xE0) OR 28, 0x80 OR (hd b AND 0x1F)) s)) = deliver cb channelId (ps @ [p]) s) \<and>
    depacketize (map payload (ps @ [p])) = Some (fr_buffer frame) \<and>
    (\<forall>q\<in>set ps. pk_last q = 0) \<and> pk_last p = 1 \<and> (\<forall>q\<in>set (ps @ [p]). packet_ok frame q) \<and>
    length (ps @ [p]) = (if unat (fr_size frame) \<le> 1420 then 1 else (unat (fr_size frame) - 2) div 1418 + 1)"
    (is "\<exists>ps p. (\<forall>cb s. ?handle cb s = _ cb s ps p) \<and> _ ps p")
proof (cases "unat (fr_size frame) \<le> 1420")
  case True
  then have le: "fr_size frame \<le> 1420" by (simp add: word_le_nat_alt)
  obtain p where p: "single_packet (junk 0) frame = Inr p" "payload p = fr_buffer frame" "pk_last p = 1"
      "packet_ok frame p"
    using single_packet_spec [OF assms(1) le] by blast
  have "?handle cb s = deliver cb channelId ([] @ [p]) s"
    for cb :: "'s send_callback option" and s
    using le p(1) by (simp add: sizes cong: if_cong)
  moreover have "depacketize (map payload ([] @ [p])) = Some (fr_buffer frame)"
    using assms(3,4) p(2) by (cases "fr_buffer frame"; cases "tl (fr_buffer frame)") (simp_all add: depacketize_def)
  ultimately show ?thesis using True p(3,4) by (intro exI [of _ "[]"] exI [of _ p]) simp
next
  case False
  obtain b bs where b: "fr_buffer frame = b # bs" using assms(3) by (cases "fr_buffer frame") auto
  let ?fu = "((b AND 0xE0) OR 28, 0x80 OR (b AND 0x1F))"
  have dec: "unat (fr_size frame - 1) = unat (fr_size frame) - 1"
    using False by (simp add: unat_sub word_le_nat_alt)
  obtain ps p where ps: "\<forall>(cb :: 's send_callback option) s.
         fu_loop junk cb channelId frame 0 1 (fr_size frame - 1) ?fu s = deliver cb channelId (ps @ [p]) s"
      "fu_collect (bit (snd ?fu) 7) (map payload (ps @ [p])) = Some (drop 1 (fr_buffer frame))"
      "\<forall>q\<in>set ps. pk_last q = 0" "pk_last p = 1" "\<forall>q\<in>set (ps @ [p]). packet_ok frame q"
      "take 2 (payload (hd (ps @ [p])))
         = [fst ?fu, if unat (fr_size frame - 1) \<le> 1418 then snd ?fu OR 0x40 else snd ?fu]"
      "length ps = (unat (fr_size frame - 1) - 1) div 1418"
    using fu_loop_packets [of 1 "fr_size frame - 1" frame ?fu junk channelId 0] assms(1,2) False dec
      fu_header_bits(1,2) by (simp only: fst_conv snd_conv) auto
  have "?handle cb s = deliver cb channelId (ps @ [p]) s"
    for cb :: "'s send_callback option" and s
    using False ps(1) b by (simp add: sizes word_le_nat_alt mem_read_def slice_def)
  moreover have "depacketize (map payload (ps @ [p])) = Some (fr_buffer frame)"
  proof -
    have ne: "ps \<noteq> []" using ps(7) dec False by auto
    then obtain q qs where q: "ps = q # qs" by (cases ps) auto
    obtain cs where "payload q = fst ?fu # snd ?fu # cs"
    proof -
      have "\<not> unat (fr_size frame - 1) \<le> 1418" using dec False by simp
      then have "take 2 (payload q) = [fst ?fu, snd ?fu]" using ps(6) q by simp
      then show thesis using that by (cases "payload q"; cases "tl (payload q)") (auto simp: numeral_2_eq_2)
    qed
    then show ?thesis
      using ps(2) q b fu_header_bits(3,4) [of b] by (cases qs) (simp_all add: depacketize_def)
  qed
  moreover have "length (ps @ [p]) = (unat (fr_size frame) - 2) div 1418 + 1"
    using ps(7) dec by (simp add: diff_diff_eq numeral_2_eq_2)
  ultimately show ?thesis using False ps(3-5) by (intro exI [of _ ps] exI [of _ p]) simp
qed

lemma handleFrame_packets:
  assumes "length (fr_buffer frame) = unat (fr_size frame)" "unat (fr_size frame) + 1 < 2 ^ 32"
    and "fr_buffer frame \<noteq> []" "nal_type (hd (fr_buffer frame)) \<noteq> 28"
  shows "\<exists>ps p.
    (\<forall>(cb :: 's send_callback option) s.
       H264Source_handleFrame junk now cb channelId frame s = deliver cb channelId (ps @ [p]) s) \<and>
    depacketize (map payload (ps @ [p])) = Some (fr_buffer frame) \<and>
    (\<forall>q\<in>set ps. pk_last q = 0) \<and> pk_last p = 1 \<and> (\<forall>q\<in>set (ps @ [p]). packet_ok (stamp now frame) q) \<and>
    length (ps @ [p]) = (if unat (fr_size frame) \<le> 1420 then 1 else (unat (fr_size frame) - 2) div 1418 + 1)"
proof -
  let ?frame = "stamp now frame"
  have same: "fr_buffer ?frame = fr_buffer frame" "fr_size ?frame = fr_size frame" by (simp_all add: stamp_def)
  show ?thesis
    using frame_packets [of ?frame junk channelId, where ?'s = 's, unfolded same, OF assms]
    by (simp only: same H264Source_handleFrame_def Let_def)
qed

text \<open>
  C10. \<open>handleFrame\<close> hands the callback a list of packets that depends on the frame alone, one by one
  until one is refused, and the RFC 3984 receiver that gets all of them has the frame back. Only the
  last packet is marked, every packet fits the 1600 bytes it is allocated, carries at most
  \<open>MAX_RTP_PAYLOAD_SIZE\<close> payload bytes and the frame's timestamp and type, and their number is the
  least possible.
\<close>

theorem H264Source_handleFrame_roundtrip:
  assumes "length (fr_buffer frame) = unat (fr_size frame)" "unat (fr_size frame) + 1 < 2 ^ 32"
    and "fr_buffer frame \<noteq> []" "nal_type (hd (fr_buffer frame)) \<noteq> 28"
  shows "\<exists>ps p.
    (\<forall>(cb :: 's send_callback option) s.
       H264Source_handleFrame junk now cb channelId frame s = deliver cb channelId (ps @ [p]) s) \<and>
    depacketize (map payload (ps @ [p])) = Some (fr_buffer frame) \<and>
    (\<forall>q\<in>set ps. pk_last q = 0) \<and> pk_last p = 1 \<and> (\<forall>q\<in>set (ps @ [p]). packet_ok (stamp now frame) q) \<and>
    length (ps @ [p]) = (if unat (fr_size frame) \<le> 1420 then 1 else (unat (fr_size frame) - 2) div 1418 + 1)"
  using assms by (rule handleFrame_packets)

definition demo_frame :: AVFrame where
  "demo_frame = \<lparr>fr_buffer = [0x65, 1, 2, 3], fr_size = 4, fr_type = 1, fr_timestamp = 90\<rparr>"

theorem H264Source_handleFrame_roundtrip_witness:
  "\<exists>ps p. H264Source_handleFrame (\<lambda>_ _. 0) 0 None channel_0 demo_frame () = deliver None channel_0 (ps @ [p]) () \<and>
     depacketize (map payload (ps @ [p])) = Some [0x65, 1, 2, 3]"
proof -
  have "length (fr_buffer demo_frame) = unat (fr_size demo_frame)" "unat (fr_size demo_frame) + 1 < 2 ^ 32"
    "fr_buffer demo_frame \<noteq> []" "nal_type (hd (fr_buffer demo_frame)) \<noteq> 28"
    "fr_buffer demo_frame = [0x65, 1, 2, 3]"
    by (simp_all add: demo_frame_def nal_type_def)
  then show ?thesis
    using H264Source_handleFrame_roundtrip [of demo_frame "\<lambda>_ _. 0" 0 channel_0] by metis
qed

end
