(* ===== verification/Media_Rtp.thy ===== *)
theory Media_Rtp
  imports Media_H264 Net_TcpConnection
begin

text \<open>
  RTP packets and their transport: \<open>Rtp.h\<close>, \<open>RtpConnection.h\<close> and \<open>RtpConnection.cc\<close> of \<open>ideal/media\<close>.

  Arrays indexed by \<open>MediaChannelId\<close> are functions on that type. The bit fields of \<open>RtpHeader\<close> are
  words of their widths, laid out as the ABI does (first field in the low bits); multi-byte fields
  hold network byte order, and \<open>header_bytes\<close> is the object representation that \<open>memcpy\<close> copies into
  the packet. The weak pointer to the TCP connection is an optional connection: \<open>None\<close> when the
  object is gone. \<open>sendRtpPacket\<close> runs its work in the connection's loop: at once in that thread,
  through \<open>rc_pending\<close> from another one. \<open>sendto\<close> and \<open>bind\<close> are arguments; \<open>rc_datagrams\<close> and
  \<open>rc_closed\<close> record what was sent over UDP and which descriptors were closed. The constructor leaves
  the members it does not initialise as they are in the memory \<open>junk\<close>.
\<close>

unbundle bit_operations_syntax

section \<open>Headers\<close>

datatype TransportMode = RTP_OVER_TCP | RTP_OVER_UDP | RTP_OVER_MULTICAST

record RtpHeader =
  rh_cc :: "4 word"
  rh_extension :: "1 word"
  rh_padding :: "1 word"
  rh_version :: "2 word"
  rh_payload :: "7 word"
  rh_marker :: "1 word"
  rh_seq :: "16 word"
  rh_ts :: "32 word"
  rh_ssrc :: "32 word"

definition obj_bytes :: "nat \<Rightarrow> nat \<Rightarrow> byte list" where
  "obj_bytes n x = map (\<lambda>c. of_nat (of_char c)) (le_bytes n x)"

definition header_bytes :: "RtpHeader \<Rightarrow> byte list" where
  "header_bytes h =
     [ucast (rh_cc h) OR push_bit 4 (ucast (rh_extension h)) OR push_bit 5 (ucast (rh_padding h))
        OR push_bit 6 (ucast (rh_version h)),
      ucast (rh_payload h) OR push_bit 7 (ucast (rh_marker h))] @
     obj_bytes 2 (unat (rh_seq h)) @ obj_bytes 4 (unat (rh_ts h)) @ obj_bytes 4 (unat (rh_ssrc h))"

record MediaChannelInfo =
  mi_rtpHeader :: RtpHeader
  mi_rtpChannel :: "16 word"
  mi_rtcpChannel :: "16 word"
  mi_rtpPort :: "16 word"
  mi_rtcpPort :: "16 word"
  mi_packetSeq :: "16 word"
  mi_clockRate :: "32 word"
  mi_isSetup :: bool
  mi_isPlay :: bool
  mi_isRecord :: bool

section \<open>Connection\<close>

type_synonym sockaddr = "32 word \<times> 16 word"  \<comment> \<open>\<open>sin_addr.s_addr\<close> and \<open>sin_port\<close>, in network order\<close>

record RtpConnection =
  rc_this :: "64 word"
  rc_isClosed :: bool
  rc_hasIDRFrame :: bool
  rc_transportMode :: TransportMode
  rc_frameType :: byte
  rc_localRtpPort :: "MediaChannelId \<Rightarrow> 16 word"
  rc_localRtcpPort :: "MediaChannelId \<Rightarrow> 16 word"
  rc_rtpfd :: "MediaChannelId \<Rightarrow> int"
  rc_rtcpfd :: "MediaChannelId \<Rightarrow> int"
  rc_peerRtpAddr :: "MediaChannelId \<Rightarrow> sockaddr"
  rc_peerRtcpAddr :: "MediaChannelId \<Rightarrow> sockaddr"
  rc_info :: "MediaChannelId \<Rightarrow> MediaChannelInfo"
  rc_pending :: "(MediaChannelId \<times> RtpPacket) list"
  rc_datagrams :: "(sockaddr \<times> byte list) list"
  rc_closed :: "int list"

definition upd_info :: "MediaChannelId \<Rightarrow> (MediaChannelInfo \<Rightarrow> MediaChannelInfo) \<Rightarrow> RtpConnection \<Rightarrow> RtpConnection" where
  "upd_info ch f r = r\<lparr>rc_info := (rc_info r)(ch := f (rc_info r ch))\<rparr>"

definition upd_all :: "(MediaChannelInfo \<Rightarrow> MediaChannelInfo) \<Rightarrow> RtpConnection \<Rightarrow> RtpConnection" where
  "upd_all f r = upd_info channel_1 f (upd_info channel_0 f r)"

text \<open>\<open>memset(&info, 0, sizeof info)\<close> and the assignments after it; \<open>rd\<close> yields the random numbers.\<close>

definition init_info :: "32 word \<Rightarrow> 32 word \<Rightarrow> 32 word \<Rightarrow> MediaChannelInfo" where
  "init_info r1 r2 r3 =
     \<lparr>mi_rtpHeader = \<lparr>rh_cc = 0, rh_extension = 0, rh_padding = 0, rh_version = 2, rh_payload = 0,
        rh_marker = 0, rh_seq = 0, rh_ts = hostToNetwork32 r2, rh_ssrc = hostToNetwork32 r3\<rparr>,
      mi_rtpChannel = 0, mi_rtcpChannel = 0, mi_rtpPort = 0, mi_rtcpPort = 0,
      mi_packetSeq = ucast (r1 mod 0xFFFF), mi_clockRate = 0,
      mi_isSetup = False, mi_isPlay = False, mi_isRecord = False\<rparr>"

definition RtpConnection_new :: "(nat \<Rightarrow> 32 word) \<Rightarrow> RtpConnection \<Rightarrow> RtpConnection" where
  "RtpConnection_new rd junk =
     junk\<lparr>rc_isClosed := False, rc_hasIDRFrame := False, rc_frameType := 0,
          rc_rtpfd := (\<lambda>_. 0), rc_rtcpfd := (\<lambda>_. 0),
          rc_info := (\<lambda>chn. case chn of channel_0 \<Rightarrow> init_info (rd 0) (rd 1) (rd 2)
                                      | channel_1 \<Rightarrow> init_info (rd 3) (rd 4) (rd 5)),
          rc_pending := [], rc_datagrams := [], rc_closed := []\<rparr>"

definition close_positive :: "int \<Rightarrow> RtpConnection \<Rightarrow> RtpConnection" where
  "close_positive fd r = (if fd > 0 then r\<lparr>rc_closed := rc_closed r @ [fd]\<rparr> else r)"

definition RtpConnection_destroy :: "RtpConnection \<Rightarrow> RtpConnection" where
  "RtpConnection_destroy r =
     fold (\<lambda>chn r. close_positive (rc_rtcpfd r chn) (close_positive (rc_rtpfd r chn) r)) [channel_0, channel_1] r"

definition RtpConnection_setClockRate :: "MediaChannelId \<Rightarrow> 32 word \<Rightarrow> RtpConnection \<Rightarrow> RtpConnection" where
  "RtpConnection_setClockRate ch rate = upd_info ch (\<lambda>i. i\<lparr>mi_clockRate := rate\<rparr>)"

definition RtpConnection_setPayloadType :: "MediaChannelId \<Rightarrow> 32 word \<Rightarrow> RtpConnection \<Rightarrow> RtpConnection" where
  "RtpConnection_setPayloadType ch pt =
     upd_info ch (\<lambda>i. i\<lparr>mi_rtpHeader := (mi_rtpHeader i)\<lparr>rh_payload := ucast pt\<rparr>\<rparr>)"

definition RtpConnection_getRtpSessionId :: "RtpConnection \<Rightarrow> 32 word" where
  "RtpConnection_getRtpSessionId r = ucast (rc_this r)"

definition RtpConnection_getRtpPort :: "MediaChannelId \<Rightarrow> RtpConnection \<Rightarrow> 16 word" where
  "RtpConnection_getRtpPort ch r = rc_localRtpPort r ch"

definition RtpConnection_getRtcpPort :: "MediaChannelId \<Rightarrow> RtpConnection \<Rightarrow> 16 word" where
  "RtpConnection_getRtcpPort ch r = rc_localRtcpPort r ch"

definition RtpConnection_setupRtpOverTcp ::
  "TcpConnection option \<Rightarrow> MediaChannelId \<Rightarrow> 16 word \<Rightarrow> 16 word \<Rightarrow> RtpConnection \<Rightarrow> bool \<times> RtpConnection" where
  "RtpConnection_setupRtpOverTcp tcpConn ch rtpChannel rtcpChannel r =
     (case tcpConn of
        None \<Rightarrow> (False, r)
      | Some c \<Rightarrow>
          (True, upd_info ch (\<lambda>i. i\<lparr>mi_rtpChannel := rtpChannel, mi_rtcpChannel := rtcpChannel, mi_isSetup := True\<rparr>)
             (r\<lparr>rc_rtpfd := (rc_rtpfd r)(ch := ch_fd (tc_channel c)),
                rc_rtcpfd := (rc_rtcpfd r)(ch := ch_fd (tc_channel c)), rc_transportMode := RTP_OVER_TCP\<rparr>)))"

text \<open>
  The loop that looks for two free ports: attempt \<open>n\<close> draws the port \<open>rd n\<close>, the sockets it opens are
  \<open>fst (sock n)\<close> and \<open>snd (sock n)\<close>, and \<open>bind_ok n port\<close> tells whether \<open>bind\<close> succeeds.
\<close>

function bind_loop ::
  "(nat \<Rightarrow> 32 word) \<Rightarrow> (nat \<Rightarrow> int \<times> int) \<Rightarrow> (nat \<Rightarrow> 16 word \<Rightarrow> bool) \<Rightarrow> MediaChannelId \<Rightarrow> nat \<Rightarrow>
   RtpConnection \<Rightarrow> bool \<times> RtpConnection" where
  "bind_loop rd sock bind_ok ch n r =
     (if n \<ge> 10 then (False, r)
      else
        (let port = ucast (rd n AND 0xFFFE);
             r = r\<lparr>rc_localRtpPort := (rc_localRtpPort r)(ch := port),
                   rc_localRtcpPort := (rc_localRtcpPort r)(ch := port + 1),
                   rc_rtpfd := (rc_rtpfd r)(ch := fst (sock n))\<rparr>
         in if \<not> bind_ok n port
            then bind_loop rd sock bind_ok ch (Suc n) (r\<lparr>rc_closed := rc_closed r @ [fst (sock n)]\<rparr>)
            else
              (let r = r\<lparr>rc_rtcpfd := (rc_rtcpfd r)(ch := snd (sock n))\<rparr>
               in if \<not> bind_ok n (port + 1)
                  then bind_loop rd sock bind_ok ch (Suc n)
                         (r\<lparr>rc_closed := rc_closed r @ [snd (sock n), fst (sock n)]\<rparr>)
                  else (True, r))))"
  by pat_completeness auto
termination
  by (relation "measure (\<lambda>(_, _, _, _, n, _). 10 - n)") auto

declare bind_loop.simps [simp del]

definition RtpConnection_setupRtpOverUdp ::
  "(nat \<Rightarrow> 32 word) \<Rightarrow> (nat \<Rightarrow> int \<times> int) \<Rightarrow> (nat \<Rightarrow> 16 word \<Rightarrow> bool) \<Rightarrow> 32 word \<Rightarrow> TcpConnection option \<Rightarrow>
   MediaChannelId \<Rightarrow> 16 word \<Rightarrow> 16 word \<Rightarrow> RtpConnection \<Rightarrow> bool \<times> RtpConnection" where
  "RtpConnection_setupRtpOverUdp rd sock bind_ok peer tcpConn ch rtpPort rtcpPort r =
     (case tcpConn of
        None \<Rightarrow> (False, r)
      | Some _ \<Rightarrow>
          (let r = upd_info ch (\<lambda>i. i\<lparr>mi_rtpPort := rtpPort, mi_rtcpPort := rtcpPort\<rparr>) r;
               (ok, r) = bind_loop rd sock bind_ok ch 0 r
           in if \<not> ok then (False, r)
              else (True, upd_info ch (\<lambda>i. i\<lparr>mi_isSetup := True\<rparr>)
                (r\<lparr>rc_peerRtpAddr := (rc_peerRtpAddr r)(ch := (peer, hostToNetwork16 (mi_rtcpPort (rc_info r ch)))),
                   rc_peerRtcpAddr := (rc_peerRtcpAddr r)(ch := (peer, hostToNetwork16 (mi_rtcpPort (rc_info r ch)))),
                   rc_transportMode := RTP_OVER_UDP\<rparr>))))"

definition RtpConnection_play :: "RtpConnection \<Rightarrow> RtpConnection" where
  "RtpConnection_play = upd_all (\<lambda>i. if mi_isSetup i then i\<lparr>mi_isPlay := True\<rparr> else i)"

definition RtpConnection_record :: "RtpConnection \<Rightarrow> RtpConnection" where
  "RtpConnection_record = upd_all (\<lambda>i. if mi_isSetup i then i\<lparr>mi_isRecord := True, mi_isPlay := True\<rparr> else i)"

definition RtpConnection_teardown :: "RtpConnection \<Rightarrow> RtpConnection" where
  "RtpConnection_teardown r =
     (if \<not> rc_isClosed r
      then upd_all (\<lambda>i. i\<lparr>mi_isRecord := False, mi_isPlay := False\<rparr>) (r\<lparr>rc_isClosed := True\<rparr>) else r)"

text \<open>\<open>snprintf(buf + strlen(buf), sizeof buf - strlen(buf), ...)\<close> on a buffer of 1024 bytes; \<open>ts\<close> is the clock in milliseconds.\<close>

definition bprintf :: "nat \<Rightarrow> string \<Rightarrow> string \<Rightarrow> string" where
  "bprintf n buf str = buf @ snprintf (n - length buf) str"

definition rtpinfo_entry :: "string \<Rightarrow> int \<Rightarrow> MediaChannelId \<times> nat \<Rightarrow> RtpConnection \<Rightarrow> string \<times> nat \<Rightarrow> string \<times> nat" where
  "rtpinfo_entry rtspUrl ts chn r st =
     (let (buf, numChannel) = st;
          rtpTime = (word_of_int (cdiv (ts * uint (mi_clockRate (rc_info r (fst chn)))) 1000) :: 32 word)
      in if mi_isSetup (rc_info r (fst chn))
         then (bprintf 1024 (if numChannel \<noteq> 0 then bprintf 1024 buf '','' else buf)
                 (''url='' @ rtspUrl @ ''/track'' @ nat_dec (snd chn) @ '';seq=0;rtptime='' @ nat_dec (unat rtpTime)),
               numChannel + 1)
         else (buf, numChannel))"

definition RtpConnection_getRtpInfo :: "string \<Rightarrow> int \<Rightarrow> RtpConnection \<Rightarrow> string" where
  "RtpConnection_getRtpInfo rtspUrl ts r =
     fst (rtpinfo_entry rtspUrl ts (channel_1, 1) r (rtpinfo_entry rtspUrl ts (channel_0, 0) r
       (snprintf 1024 ''RTP-Info: '', 0)))"

definition RtpConnection_getId :: "TcpConnection option \<Rightarrow> string" where
  "RtpConnection_getId tcpConn = (case tcpConn of None \<Rightarrow> '''' | Some c \<Rightarrow> tc_name c)"

section \<open>Sending\<close>

definition RtpConnection_setFrameType :: "byte \<Rightarrow> RtpConnection \<Rightarrow> RtpConnection" where
  "RtpConnection_setFrameType frameType r =
     (let r = r\<lparr>rc_frameType := frameType\<rparr>
      in if \<not> rc_hasIDRFrame r \<and> (rc_frameType r = 0 \<or> rc_frameType r = VIDEO_FRAME_I)
         then r\<lparr>rc_hasIDRFrame := True\<rparr> else r)"

definition sending :: "MediaChannelId \<Rightarrow> RtpConnection \<Rightarrow> bool" where
  "sending ch r \<longleftrightarrow> (mi_isPlay (rc_info r ch) \<or> mi_isRecord (rc_info r ch)) \<and> rc_hasIDRFrame r"

definition RtpConnection_setRtpHeader ::
  "MediaChannelId \<Rightarrow> RtpPacket \<Rightarrow> RtpConnection \<Rightarrow> (RtpPacket \<times> RtpConnection) result" where
  "RtpConnection_setRtpHeader ch pkt r =
     (if sending ch r then
        (let i = rc_info r ch;
             h = (mi_rtpHeader i)\<lparr>rh_marker := ucast (pk_last pkt), rh_ts := hostToNetwork32 (pk_timestamp pkt),
                                  rh_seq := hostToNetwork16 (mi_packetSeq i)\<rparr>;
             r = upd_info ch (\<lambda>i. i\<lparr>mi_rtpHeader := h, mi_packetSeq := mi_packetSeq i + 1\<rparr>) r
         in bindR (mem_write 4 (take RTP_HEADER_SIZE (header_bytes h)) (pk_data pkt)) (\<lambda>d.
            Inr (pkt\<lparr>pk_data := d\<rparr>, r)))
      else Inr (pkt, r))"

definition to_chars :: "byte list \<Rightarrow> char list" where
  "to_chars = map (\<lambda>b. char_of (unat b))"

definition RtpConnection_sendRtpOverTcp ::
  "write_call \<Rightarrow> int \<Rightarrow> MediaChannelId \<Rightarrow> RtpPacket \<Rightarrow> RtpConnection \<Rightarrow> TcpConnection option \<Rightarrow>
   (int \<times> TcpConnection option) result" where
  "RtpConnection_sendRtpOverTcp write tid ch pkt r tcpConn =
     (case tcpConn of
        None \<Rightarrow> Inr (-1, None)
      | Some c \<Rightarrow>
          bindR (mem_write 0 [0x24, ucast (mi_rtpChannel (rc_info r ch)),
                              ucast (drop_bit 8 ((pk_size pkt - 4) AND 0xFF00)), ucast ((pk_size pkt - 4) AND 0xFF)]
                   (pk_data pkt)) (\<lambda>d.
          bindR (mem_read d 0 (unat (pk_size pkt))) (\<lambda>message.
          bindR (TcpConnection_send write tid (to_chars message) c) (\<lambda>c.
          Inr (uint (pk_size pkt), Some c)))))"

definition RtpConnection_sendRtpOverUdp ::
  "(byte list \<Rightarrow> int) \<Rightarrow> MediaChannelId \<Rightarrow> RtpPacket \<Rightarrow> RtpConnection \<Rightarrow> (int \<times> RtpConnection) result" where
  "RtpConnection_sendRtpOverUdp sendto ch pkt r =
     bindR (mem_read (pk_data pkt) 4 (unat (pk_size pkt - 4))) (\<lambda>message.
     (let ret = sendto message
      in if ret < 0 then Inr (-1, RtpConnection_teardown r)
         else Inr (ret, r\<lparr>rc_datagrams := rc_datagrams r @ [(rc_peerRtpAddr r ch, message)]\<rparr>)))"

text \<open>The function object that \<open>sendRtpPacket\<close> runs in the loop.\<close>

definition sendRtpPacket_run ::
  "write_call \<Rightarrow> (byte list \<Rightarrow> int) \<Rightarrow> int \<Rightarrow> MediaChannelId \<Rightarrow> RtpPacket \<Rightarrow>
   RtpConnection \<times> TcpConnection option \<Rightarrow> (RtpConnection \<times> TcpConnection option) result" where
  "sendRtpPacket_run write sendto tid ch pkt st =
     (let (r, tcpConn) = st; r = RtpConnection_setFrameType (pk_type pkt) r in
      bindR (RtpConnection_setRtpHeader ch pkt r) (\<lambda>(pkt, r).
      if sending ch r
      then if rc_transportMode r = RTP_OVER_TCP
           then bindR (RtpConnection_sendRtpOverTcp write tid ch pkt r tcpConn) (\<lambda>(_, tcpConn). Inr (r, tcpConn))
           else bindR (RtpConnection_sendRtpOverUdp sendto ch pkt r) (\<lambda>(_, r). Inr (r, tcpConn))
      else Inr (r, tcpConn)))"

definition RtpConnection_sendRtpPacket ::
  "write_call \<Rightarrow> (byte list \<Rightarrow> int) \<Rightarrow> int \<Rightarrow> MediaChannelId \<Rightarrow> RtpPacket \<Rightarrow>
   RtpConnection \<times> TcpConnection option \<Rightarrow> (int \<times> RtpConnection \<times> TcpConnection option) result" where
  "RtpConnection_sendRtpPacket write sendto tid ch pkt st =
     (let (r, tcpConn) = st in
      if rc_isClosed r then Inr (-1, st)
      else case tcpConn of
        None \<Rightarrow> Inr (-1, st)
      | Some c \<Rightarrow>
          if tc_threadId c = tid
          then bindR (sendRtpPacket_run write sendto tid ch pkt st) (\<lambda>st. Inr (1, st))
          else Inr (1, r\<lparr>rc_pending := rc_pending r @ [(ch, pkt)]\<rparr>, tcpConn))"

section \<open>The receiver\<close>

text \<open>
  An interleaved frame of RFC 2326: \<open>$\<close>, the channel, the length in network order, the data; and the
  fixed header of RFC 3550. \<open>rtp_parse\<close> returns the marker, the payload type, the sequence number,
  the timestamp, the synchronisation source and the payload.
\<close>

definition be_value :: "byte list \<Rightarrow> nat" where
  "be_value bs = foldl (\<lambda>a b. 256 * a + unat b) 0 bs"

fun interleaved_parse :: "byte list \<Rightarrow> (byte \<times> byte list \<times> byte list) option" where
  "interleaved_parse (d # c # h # l # rest) =
     (let n = be_value [h, l] in if d = 0x24 \<and> n \<le> length rest then Some (c, take n rest, drop n rest) else None)"
| "interleaved_parse _ = None"

type_synonym rtp_view = "bool \<times> byte \<times> nat \<times> nat \<times> nat \<times> byte list"

definition rtp_parse :: "byte list \<Rightarrow> rtp_view option" where
  "rtp_parse bs =
     (if length bs < 12 \<or> drop_bit 6 (bs ! 0) \<noteq> 2 \<or> bs ! 0 AND 0x3F \<noteq> 0 then None
      else Some (bit (bs ! 1) 7, bs ! 1 AND 0x7F, be_value (slice 2 4 bs), be_value (slice 4 8 bs),
                 be_value (slice 8 12 bs), drop 12 bs))"

lemma length_obj_bytes [simp]: "length (obj_bytes n x) = n"
  by (simp add: obj_bytes_def)

lemma length_header_bytes [simp]: "length (header_bytes h) = 12"
  by (simp add: header_bytes_def)

lemma unat_of_char [simp]: "unat (of_nat (of_char c) :: byte) = of_char c"
  by (simp add: unat_of_nat)

lemma be_value_rev: "be_value (map (\<lambda>c. of_nat (of_char c)) (rev cs)) = le_value cs"
  unfolding be_value_def by (induction cs) simp_all

lemma be_value_hton16: "be_value (obj_bytes 2 (unat (hostToNetwork16 x))) = unat x"
  using unsigned_less [of x, where ?'a = nat]
  by (simp add: obj_bytes_def le_bytes_hostToNetwork be_value_rev le_value_le_bytes del: le_bytes.simps)

lemma be_value_hton32: "be_value (obj_bytes 4 (unat (hostToNetwork32 x))) = unat x"
  using unsigned_less [of x, where ?'a = nat]
  by (simp add: obj_bytes_def le_bytes_hostToNetwork be_value_rev le_value_le_bytes del: le_bytes.simps)

text \<open>The header as the receiver reads it.\<close>

lemma first_byte: "((ucast (0 :: 4 word) :: byte) OR push_bit 4 (ucast (0 :: 1 word)) OR push_bit 5 (ucast (0 :: 1 word))
    OR push_bit 6 (ucast (2 :: 2 word))) = 0x80"
  by simp

lemma bit1_eq: "(m :: 1 word) = 1 \<longleftrightarrow> bit m 0"
proof
  assume "bit m 0"
  then show "m = 1" by (intro bit_word_eqI) (auto simp: bit_simps)
qed simp

text \<open>The two bytes of the length field.\<close>

lemma split16:
  assumes "unat (w :: 32 word) < 65536"
  shows "be_value [ucast (drop_bit 8 (w AND 0xFF00)), ucast (w AND 0xFF)] = unat w"
proof -
  have a: "ucast (w AND 0xFF) = (ucast w :: byte)" "ucast (drop_bit 8 (w AND 0xFF00)) = (ucast (drop_bit 8 w) :: byte)"
    by (rule byte_eqI, auto simp: bit_simps)+
  have "unat (ucast w :: byte) = unat w mod 256" "unat (ucast (drop_bit 8 w) :: byte) = unat w div 256 mod 256"
    by (simp_all add: unsigned_ucast_eq take_bit_eq_mod drop_bit_eq_div unat_div)
  then show ?thesis unfolding a using assms by (simp add: be_value_def)
qed

lemma second_byte:
  "bit (ucast (pt :: 7 word) OR push_bit 7 (ucast (m :: 1 word)) :: byte) 7 = (m = 1)"
  "(ucast (pt :: 7 word) OR push_bit 7 (ucast (m :: 1 word)) :: byte) AND 0x7F = ucast pt"
proof -
  show "bit (ucast pt OR push_bit 7 (ucast m) :: byte) 7 = (m = 1)"
    using bit_imp_le_length [of pt 7] by (auto simp: bit_simps bit1_eq)
  show "(ucast pt OR push_bit 7 (ucast m) :: byte) AND 0x7F = ucast pt"
    using bit_imp_le_length [of pt 7] by (intro byte_eqI) (auto simp: bit_simps)
qed

lemma rtp_parse_header:
  assumes "rh_cc h = 0" "rh_extension h = 0" "rh_padding h = 0" "rh_version h = 2"
  shows "rtp_parse (header_bytes (h\<lparr>rh_marker := m, rh_ts := hostToNetwork32 ts, rh_seq := hostToNetwork16 seq,
             rh_ssrc := hostToNetwork32 ssrc\<rparr>) @ bs)
           = Some (m = 1, ucast (rh_payload h), unat seq, unat ts, unat ssrc, bs)"
proof -
  let ?h = "h\<lparr>rh_marker := m, rh_ts := hostToNetwork32 ts, rh_seq := hostToNetwork16 seq,
             rh_ssrc := hostToNetwork32 ssrc\<rparr>"
  let ?a = "obj_bytes 2 (unat (hostToNetwork16 seq))" and ?b = "obj_bytes 4 (unat (hostToNetwork32 ts))"
    and ?c = "obj_bytes 4 (unat (hostToNetwork32 ssrc))"
  let ?s = "(ucast (rh_payload h) :: byte) OR push_bit 7 (ucast m)"
  have eq: "header_bytes ?h @ bs = [0x80, ?s] @ ?a @ ?b @ ?c @ bs"
    using assms by (simp add: header_bytes_def first_byte)
  have "slice 2 4 ([0x80, ?s] @ ?a @ ?b @ ?c @ bs) = ?a" "slice 4 8 ([0x80, ?s] @ ?a @ ?b @ ?c @ bs) = ?b"
    "slice 8 12 ([0x80, ?s] @ ?a @ ?b @ ?c @ bs) = ?c" "drop 12 ([0x80, ?s] @ ?a @ ?b @ ?c @ bs) = bs"
    by (simp_all add: slice_def)
  moreover have "([0x80, ?s] @ ?a @ ?b @ ?c @ bs) ! 0 = 0x80" "([0x80, ?s] @ ?a @ ?b @ ?c @ bs) ! 1 = ?s"
    "\<not> length ([0x80, ?s] @ ?a @ ?b @ ?c @ bs) < 12"
    by simp_all
  moreover have "drop_bit 6 (0x80 :: byte) = 2" "(0x80 :: byte) AND 0x3F = 0" by simp_all
  ultimately show ?thesis
    unfolding eq rtp_parse_def by (simp only: second_byte be_value_hton16 be_value_hton32 simp_thms if_False)
qed

section \<open>What goes out over TCP\<close>

definition header_ok :: "RtpHeader \<Rightarrow> bool" where
  "header_ok h \<longleftrightarrow> rh_cc h = 0 \<and> rh_extension h = 0 \<and> rh_padding h = 0 \<and> rh_version h = 2"

definition rc_ok :: "RtpConnection \<Rightarrow> bool" where
  "rc_ok r \<longleftrightarrow> (\<forall>ch. header_ok (mi_rtpHeader (rc_info r ch)))"

definition ssrc_of :: "MediaChannelId \<Rightarrow> RtpConnection \<Rightarrow> 32 word" where
  "ssrc_of ch r = networkToHost32 (rh_ssrc (mi_rtpHeader (rc_info r ch)))"

lemma hton32_ntoh32: "hostToNetwork32 (networkToHost32 x) = x"
  using networkToHost32_hostToNetwork32 [of x] by (simp add: networkToHost32_def hostToNetwork32_def)

text \<open>The bytes \<open>sendRtpOverTcp\<close> passes to the connection, and the state after them.\<close>

definition header_of :: "MediaChannelId \<Rightarrow> RtpPacket \<Rightarrow> RtpConnection \<Rightarrow> RtpHeader" where
  "header_of ch pkt r = (mi_rtpHeader (rc_info r ch))\<lparr>rh_marker := ucast (pk_last pkt),
     rh_ts := hostToNetwork32 (pk_timestamp pkt), rh_seq := hostToNetwork16 (mi_packetSeq (rc_info r ch))\<rparr>"

definition tcp_frame :: "MediaChannelId \<Rightarrow> RtpPacket \<Rightarrow> RtpConnection \<Rightarrow> byte list" where
  "tcp_frame ch pkt r =
     [0x24, ucast (mi_rtpChannel (rc_info r ch)), ucast (drop_bit 8 ((pk_size pkt - 4) AND 0xFF00)),
      ucast ((pk_size pkt - 4) AND 0xFF)] @ header_bytes (header_of ch pkt r) @ payload pkt"

definition after_packet :: "MediaChannelId \<Rightarrow> RtpPacket \<Rightarrow> RtpConnection \<Rightarrow> RtpConnection" where
  "after_packet ch pkt r = upd_info ch (\<lambda>i. i\<lparr>mi_rtpHeader := header_of ch pkt r, mi_packetSeq := mi_packetSeq i + 1\<rparr>) r"

definition packet_fits :: "RtpPacket \<Rightarrow> bool" where
  "packet_fits p \<longleftrightarrow> length (pk_data p) = 1600 \<and> 16 \<le> unat (pk_size p) \<and> unat (pk_size p) \<le> 1600"

lemma frame_memory:
  assumes "length h = 12" "length a = 4" "16 \<le> n" "n \<le> length d"
  shows "slice 0 n (splice 0 a (splice 4 h d)) = a @ h @ slice 16 n d"
proof -
  have "slice 0 n (splice 0 a (splice 4 h d)) = take n (a @ h @ drop 16 d)"
    using assms by (simp add: slice_def splice_def)
  also have "\<dots> = a @ h @ slice 16 n d" using assms by (simp add: slice_def)
  finally show ?thesis .
qed

lemma run_over_tcp:
  assumes "packet_fits pkt" "rc_transportMode r = RTP_OVER_TCP"
    and "sending ch (RtpConnection_setFrameType (pk_type pkt) r)"
  shows "sendRtpPacket_run write sendto tid ch pkt (r, Some c) =
    (let r = RtpConnection_setFrameType (pk_type pkt) r in
     bindR (TcpConnection_send write tid (to_chars (tcp_frame ch pkt r)) c) (\<lambda>c.
     Inr (after_packet ch pkt r, Some c)))"
proof -
  let ?r = "RtpConnection_setFrameType (pk_type pkt) r"
  let ?q = "after_packet ch pkt ?r"
  let ?a = "[0x24, ucast (mi_rtpChannel (rc_info ?r ch)), ucast (drop_bit 8 ((pk_size pkt - 4) AND 0xFF00)),
      ucast ((pk_size pkt - 4) AND 0xFF)] :: byte list"
  let ?d = "splice 4 (header_bytes (header_of ch pkt ?r)) (pk_data pkt)"
  have fits: "length (pk_data pkt) = 1600" "16 \<le> unat (pk_size pkt)" "unat (pk_size pkt) \<le> 1600"
    using assms(1) by (simp_all add: packet_fits_def)
  have hdr: "RtpConnection_setRtpHeader ch pkt ?r = Inr (pkt\<lparr>pk_data := ?d\<rparr>, ?q)"
    using assms(3) fits
    by (simp add: RtpConnection_setRtpHeader_def header_of_def after_packet_def Let_def sizes mem_write_def)
  have q: "sending ch ?q" "rc_transportMode ?q = RTP_OVER_TCP" "mi_rtpChannel (rc_info ?q ch) = mi_rtpChannel (rc_info ?r ch)"
    using assms(2,3) by (simp_all add: sending_def after_packet_def upd_info_def RtpConnection_setFrameType_def Let_def)
  have "slice 0 (unat (pk_size pkt)) (splice 0 ?a ?d) = tcp_frame ch pkt ?r"
    using fits frame_memory [of "header_bytes (header_of ch pkt ?r)" ?a "unat (pk_size pkt)" "pk_data pkt"]
    by (simp add: tcp_frame_def payload_def)
  then have tcp: "RtpConnection_sendRtpOverTcp write tid ch (pkt\<lparr>pk_data := ?d\<rparr>) ?q (Some c) =
      bindR (TcpConnection_send write tid (to_chars (tcp_frame ch pkt ?r)) c) (\<lambda>c. Inr (uint (pk_size pkt), Some c))"
    using fits by (simp add: RtpConnection_sendRtpOverTcp_def q(3) mem_write_def mem_read_def)
  show ?thesis
    by (simp add: sendRtpPacket_run_def hdr q(1,2) tcp Let_def bindR_assoc)
qed

lemma tcp_frame_parses:
  assumes "packet_fits pkt" "rc_ok r"
  shows "interleaved_parse (tcp_frame ch pkt r @ rest) =
      Some (ucast (mi_rtpChannel (rc_info r ch)), header_bytes (header_of ch pkt r) @ payload pkt, rest)"
    and "rtp_parse (header_bytes (header_of ch pkt r) @ payload pkt) =
      Some (bit (pk_last pkt) 0, ucast (rh_payload (mi_rtpHeader (rc_info r ch))), unat (mi_packetSeq (rc_info r ch)),
            unat (pk_timestamp pkt), unat (ssrc_of ch r), payload pkt)"
proof -
  have fits: "length (pk_data pkt) = 1600" "16 \<le> unat (pk_size pkt)" "unat (pk_size pkt) \<le> 1600"
    using assms(1) by (simp_all add: packet_fits_def)
  have sub: "unat (pk_size pkt - 4) = unat (pk_size pkt) - 4"
    using fits by (simp add: unat_sub word_le_nat_alt)
  have len: "length (header_bytes (header_of ch pkt r) @ payload pkt) = unat (pk_size pkt) - 4"
    using fits by (simp add: payload_def)
  have "be_value [ucast (drop_bit 8 ((pk_size pkt - 4) AND 0xFF00)), ucast ((pk_size pkt - 4) AND 0xFF)]
      = unat (pk_size pkt) - 4"
    using split16 [of "pk_size pkt - 4"] sub fits by simp
  then show "interleaved_parse (tcp_frame ch pkt r @ rest) =
      Some (ucast (mi_rtpChannel (rc_info r ch)), header_bytes (header_of ch pkt r) @ payload pkt, rest)"
    using len by (simp add: tcp_frame_def)
  let ?h = "mi_rtpHeader (rc_info r ch)"
  have "header_of ch pkt r = ?h\<lparr>rh_marker := ucast (pk_last pkt), rh_ts := hostToNetwork32 (pk_timestamp pkt),
      rh_seq := hostToNetwork16 (mi_packetSeq (rc_info r ch)), rh_ssrc := hostToNetwork32 (ssrc_of ch r)\<rparr>"
    by (simp add: header_of_def ssrc_of_def hton32_ntoh32)
  moreover have "(ucast (pk_last pkt) = (1 :: 1 word)) = bit (pk_last pkt) 0"
    using bit1_eq [of "ucast (pk_last pkt)"] by (simp add: bit_simps)
  ultimately show "rtp_parse (header_bytes (header_of ch pkt r) @ payload pkt) =
      Some (bit (pk_last pkt) 0, ucast (rh_payload ?h), unat (mi_packetSeq (rc_info r ch)),
            unat (pk_timestamp pkt), unat (ssrc_of ch r), payload pkt)"
    using assms(2) rtp_parse_header [of ?h] by (simp add: rc_ok_def header_ok_def)
qed

section \<open>Streams of packets\<close>

text \<open>A receiver of the interleaved stream, and what it is to see.\<close>

function receive :: "byte list \<Rightarrow> (byte \<times> rtp_view) list option" where
  "receive bs =
     (if bs = [] then Some []
      else case interleaved_parse bs of
        None \<Rightarrow> None
      | Some (c, d, rest) \<Rightarrow>
          (case rtp_parse d of None \<Rightarrow> None | Some v \<Rightarrow> map_option ((#) (c, v)) (receive rest)))"
  by pat_completeness auto

lemma interleaved_parse_shorter: "interleaved_parse bs = Some (c, d, rest) \<Longrightarrow> length rest < length bs"
  by (induction bs rule: interleaved_parse.induct) (auto simp: Let_def split: if_splits)

termination receive
  by (relation "measure length") (auto dest: interleaved_parse_shorter)

declare receive.simps [simp del]

fun views :: "byte \<Rightarrow> byte \<Rightarrow> 32 word \<Rightarrow> 16 word \<Rightarrow> RtpPacket list \<Rightarrow> (byte \<times> rtp_view) list" where
  "views c pt ssrc seq [] = []"
| "views c pt ssrc seq (p # ps) =
     (c, bit (pk_last p) 0, pt, unat seq, unat (pk_timestamp p), unat ssrc, payload p) # views c pt ssrc (seq + 1) ps"

definition view_of :: "MediaChannelId \<Rightarrow> RtpConnection \<Rightarrow> RtpPacket list \<Rightarrow> (byte \<times> rtp_view) list" where
  "view_of ch r = views (ucast (mi_rtpChannel (rc_info r ch))) (ucast (rh_payload (mi_rtpHeader (rc_info r ch))))
     (ssrc_of ch r) (mi_packetSeq (rc_info r ch))"

definition sendRtpPackets ::
  "write_call \<Rightarrow> (byte list \<Rightarrow> int) \<Rightarrow> int \<Rightarrow> MediaChannelId \<Rightarrow> RtpPacket list \<Rightarrow>
   RtpConnection \<times> TcpConnection option \<Rightarrow> (RtpConnection \<times> TcpConnection option) result" where
  "sendRtpPackets write sendto tid ch =
     foldR (\<lambda>p st. bindR (RtpConnection_sendRtpPacket write sendto tid ch p st) (\<lambda>(_, st). Inr st))"

definition playing :: "MediaChannelId \<Rightarrow> RtpConnection \<Rightarrow> bool" where
  "playing ch r \<longleftrightarrow> \<not> rc_isClosed r \<and> rc_transportMode r = RTP_OVER_TCP \<and>
     (mi_isPlay (rc_info r ch) \<or> mi_isRecord (rc_info r ch)) \<and> rc_ok r"

definition key_frame :: "byte \<Rightarrow> bool" where
  "key_frame t \<longleftrightarrow> t = 0 \<or> t = VIDEO_FRAME_I"

lemma receive_frame:
  assumes "packet_fits p" "rc_ok r" "receive rest = Some vs"
  shows "receive (tcp_frame ch p r @ rest) =
    Some ((ucast (mi_rtpChannel (rc_info r ch)), bit (pk_last p) 0, ucast (rh_payload (mi_rtpHeader (rc_info r ch))),
           unat (mi_packetSeq (rc_info r ch)), unat (pk_timestamp p), unat (ssrc_of ch r), payload p) # vs)"
proof -
  have "tcp_frame ch p r @ rest \<noteq> []" by (simp add: tcp_frame_def)
  then show ?thesis
    using tcp_frame_parses [OF assms(1,2)] assms(3) by (subst receive.simps) (simp del: append_is_Nil_conv)
qed

lemma setFrameType_fields [simp]:
  "rc_info (RtpConnection_setFrameType t r) = rc_info r" "rc_ok (RtpConnection_setFrameType t r) = rc_ok r"
  "rc_hasIDRFrame (RtpConnection_setFrameType t r) = (rc_hasIDRFrame r \<or> key_frame t)"
  "rc_isClosed (RtpConnection_setFrameType t r) = rc_isClosed r"
  "rc_transportMode (RtpConnection_setFrameType t r) = rc_transportMode r"
  "ssrc_of ch (RtpConnection_setFrameType t r) = ssrc_of ch r"
  by (auto simp: RtpConnection_setFrameType_def rc_ok_def key_frame_def ssrc_of_def Let_def)

lemma after_packet_fields:
  "mi_packetSeq (rc_info (after_packet ch p r) ch) = mi_packetSeq (rc_info r ch) + 1"
  "mi_rtpChannel (rc_info (after_packet ch p r) ch) = mi_rtpChannel (rc_info r ch)"
  "rh_payload (mi_rtpHeader (rc_info (after_packet ch p r) ch)) = rh_payload (mi_rtpHeader (rc_info r ch))"
  "ssrc_of ch (after_packet ch p r) = ssrc_of ch r"
  "rc_hasIDRFrame (after_packet ch p r) = rc_hasIDRFrame r"
  "playing ch r \<Longrightarrow> playing ch (after_packet ch p r)"
  by (simp_all add: after_packet_def upd_info_def header_of_def ssrc_of_def playing_def rc_ok_def header_ok_def)

text \<open>One packet on a playing connection.\<close>

lemma send_one:
  assumes "playing ch r" "rc_hasIDRFrame r \<or> key_frame (pk_type p)" "packet_fits p" "live tid c" "steady write"
  shows "\<exists>c'. RtpConnection_sendRtpPacket write sendto tid ch p (r, Some c) =
       Inr (1, after_packet ch p (RtpConnection_setFrameType (pk_type p) r), Some c') \<and> live tid c' \<and>
     tc_accepted c' = tc_accepted c @ to_chars (tcp_frame ch p (RtpConnection_setFrameType (pk_type p) r))"
proof -
  have s: "sending ch (RtpConnection_setFrameType (pk_type p) r)" "rc_transportMode r = RTP_OVER_TCP" "\<not> rc_isClosed r"
    using assms(1,2) by (auto simp: sending_def playing_def)
  show ?thesis
    using run_over_tcp [OF assms(3) s(2,1)] s(3) assms(4)
      send_accepts [OF assms(4,5), of "to_chars (tcp_frame ch p (RtpConnection_setFrameType (pk_type p) r))"]
    by (auto simp: RtpConnection_sendRtpPacket_def live_def Let_def)
qed

lemma send_stream:
  assumes "playing ch r" "rc_hasIDRFrame r \<or> (ps \<noteq> [] \<longrightarrow> key_frame (pk_type (hd ps)))"
    and "\<forall>p\<in>set ps. packet_fits p" "live tid c" "steady write"
  shows "\<exists>r' c' bs. sendRtpPackets write sendto tid ch ps (r, Some c) = Inr (r', Some c') \<and> live tid c' \<and>
     playing ch r' \<and> tc_accepted c' = tc_accepted c @ to_chars bs \<and> receive bs = Some (view_of ch r ps) \<and>
     mi_packetSeq (rc_info r' ch) = mi_packetSeq (rc_info r ch) + of_nat (length ps)"
  using assms(1-4)
proof (induction ps arbitrary: r c)
  case Nil
  have "receive [] = Some []" by (simp add: receive.simps)
  then show ?case
    using Nil by (intro exI [of _ r] exI [of _ c] exI [of _ "[]"]) (simp add: sendRtpPackets_def view_of_def to_chars_def)
next
  case (Cons p ps)
  let ?r = "RtpConnection_setFrameType (pk_type p) r"
  let ?q = "after_packet ch p ?r"
  have idr: "rc_hasIDRFrame r \<or> key_frame (pk_type p)" "packet_fits p" using Cons.prems(2,3) by auto
  obtain c1 where c1: "RtpConnection_sendRtpPacket write sendto tid ch p (r, Some c) = Inr (1, ?q, Some c1)"
      "live tid c1" "tc_accepted c1 = tc_accepted c @ to_chars (tcp_frame ch p ?r)"
    using send_one [OF Cons.prems(1) idr Cons.prems(4) assms(5)] by blast
  have r: "playing ch ?r" "rc_hasIDRFrame ?r" using Cons.prems(1) idr by (auto simp: playing_def)
  then have q: "playing ch ?q" "rc_hasIDRFrame ?q" by (simp_all add: after_packet_fields)
  obtain r' c' bs where rest: "sendRtpPackets write sendto tid ch ps (?q, Some c1) = Inr (r', Some c')" "live tid c'"
      "playing ch r'" "tc_accepted c' = tc_accepted c1 @ to_chars bs" "receive bs = Some (view_of ch ?q ps)"
      "mi_packetSeq (rc_info r' ch) = mi_packetSeq (rc_info ?q ch) + of_nat (length ps)"
    using Cons.IH [OF q(1) _ _ c1(2)] q(2) Cons.prems(3) by auto
  have "receive (tcp_frame ch p ?r @ bs) = Some (view_of ch r (p # ps))"
    using receive_frame [OF idr(2) _ rest(5)] Cons.prems(1)
    by (simp add: view_of_def after_packet_fields playing_def)
  moreover have "sendRtpPackets write sendto tid ch (p # ps) (r, Some c) = Inr (r', Some c')"
    using c1(1) rest(1) by (simp add: sendRtpPackets_def)
  moreover have "tc_accepted c' = tc_accepted c @ to_chars (tcp_frame ch p ?r @ bs)"
    using c1(3) rest(4) by (simp add: to_chars_def)
  moreover have "mi_packetSeq (rc_info r' ch) = mi_packetSeq (rc_info r ch) + of_nat (length (p # ps))"
    using rest(6) by (simp add: after_packet_fields)
  ultimately show ?case using rest(2,3) by blast
qed

section \<open>Properties\<close>

definition junk_connection :: RtpConnection where
  "junk_connection =
     \<lparr>rc_this = 0, rc_isClosed = True, rc_hasIDRFrame = True, rc_transportMode = RTP_OVER_MULTICAST, rc_frameType = 9,
      rc_localRtpPort = (\<lambda>_. 0), rc_localRtcpPort = (\<lambda>_. 0), rc_rtpfd = (\<lambda>_. 7), rc_rtcpfd = (\<lambda>_. 7),
      rc_peerRtpAddr = (\<lambda>_. (0, 0)), rc_peerRtcpAddr = (\<lambda>_. (0, 0)), rc_info = (\<lambda>_. init_info 0 0 0),
      rc_pending = [], rc_datagrams = [], rc_closed = []\<rparr>"

definition demo_rtp :: RtpConnection where
  "demo_rtp = RtpConnection_play (snd (RtpConnection_setupRtpOverTcp (Some demo_conn) channel_0 0 1
     (RtpConnection_setPayloadType channel_0 96 (RtpConnection_new (\<lambda>n. of_nat n + 1) junk_connection))))"

definition demo_packet :: RtpPacket where
  "demo_packet = (RtpPacket_new (\<lambda>_. 5))\<lparr>pk_size := 20, pk_timestamp := 90, pk_type := 1, pk_last := 1\<rparr>"

lemma demo_rtp_playing: "playing channel_0 demo_rtp" "mi_packetSeq (rc_info demo_rtp channel_0) = 1"
  "rc_rtpfd demo_rtp channel_0 = 5" "rc_rtcpfd demo_rtp channel_0 = 5" "rc_rtpfd demo_rtp channel_1 = 0"
  "rc_rtcpfd demo_rtp channel_1 = 0" "rc_closed demo_rtp = []"
proof -
  have "rc_ok demo_rtp"
    unfolding rc_ok_def
  proof
    fix ch show "header_ok (mi_rtpHeader (rc_info demo_rtp ch))"
      by (cases ch) (simp_all add: demo_rtp_def RtpConnection_play_def RtpConnection_setupRtpOverTcp_def header_ok_def
          RtpConnection_setPayloadType_def RtpConnection_new_def upd_all_def upd_info_def init_info_def)
  qed
  then show "playing channel_0 demo_rtp"
    by (simp add: playing_def demo_rtp_def RtpConnection_play_def RtpConnection_setupRtpOverTcp_def
        RtpConnection_setPayloadType_def RtpConnection_new_def upd_all_def upd_info_def init_info_def)
qed (simp_all add: demo_rtp_def RtpConnection_play_def RtpConnection_setupRtpOverTcp_def junk_connection_def
    RtpConnection_setPayloadType_def RtpConnection_new_def upd_all_def upd_info_def init_info_def
    demo_conn_def TcpConnection_new_def Channel_new_def tc_emit_def tc_events_def channel_set_events_def)

text \<open>
  Packets sent to a client that plays over TCP, from its key frame on, reach it complete: every
  \<open>sendRtpPacket\<close> succeeds, and the bytes the connection accepts for sending decode, by RFC 2326
  framing and RFC 3550 headers, to the packets in order on the negotiated channel, with the right
  payload type, source, timestamp, marker and payload, and with consecutive sequence numbers
  (modulo \<open>2 ^ 16\<close>).
\<close>

theorem RtpConnection_tcp_stream:
  assumes "playing ch r" "rc_hasIDRFrame r \<or> (ps \<noteq> [] \<longrightarrow> key_frame (pk_type (hd ps)))"
    and "\<forall>p\<in>set ps. packet_fits p" "live tid c" "steady write"
  shows "\<exists>r' c' bs. sendRtpPackets write sendto tid ch ps (r, Some c) = Inr (r', Some c') \<and> live tid c' \<and>
     playing ch r' \<and> tc_accepted c' = tc_accepted c @ to_chars bs \<and> receive bs = Some (view_of ch r ps) \<and>
     mi_packetSeq (rc_info r' ch) = mi_packetSeq (rc_info r ch) + of_nat (length ps)"
  using assms by (rule send_stream)

theorem RtpConnection_tcp_stream_witness:
  "\<exists>r' c'. sendRtpPackets demo_write (\<lambda>_. 0) 7 channel_0 [demo_packet] (demo_rtp, Some demo_conn) = Inr (r', Some c') \<and>
     mi_packetSeq (rc_info r' channel_0) = 2"
proof -
  have "packet_fits demo_packet" "key_frame (pk_type demo_packet)"
    by (simp_all add: demo_packet_def packet_fits_def RtpPacket_new_def key_frame_def VIDEO_FRAME_I_def del: upt_Suc)
  then show ?thesis
    using RtpConnection_tcp_stream [of channel_0 demo_rtp "[demo_packet]" 7 demo_conn demo_write "\<lambda>_. 0"]
      demo_rtp_playing(1,2) demo_live by auto
qed

text \<open>
  The destructor of an RTP connection that was set up over TCP closes the descriptor of the TCP
  connection, once for \<open>_rtpfd\<close> and once for \<open>_rtcpfd\<close>, although the connection's socket owns it.
\<close>

theorem RtpConnection_destroy_closes_tcp_socket:
  assumes "RtpConnection_setupRtpOverTcp (Some c) ch rtpChannel rtcpChannel r = (True, r')" "ch_fd (tc_channel c) > 0"
  shows "length (filter ((=) (ch_fd (tc_channel c))) (rc_closed r')) + 2
    \<le> length (filter ((=) (ch_fd (tc_channel c))) (rc_closed (RtpConnection_destroy r')))"
  using assms by (cases ch)
    (auto simp: RtpConnection_setupRtpOverTcp_def RtpConnection_destroy_def close_positive_def upd_info_def)

theorem RtpConnection_destroy_closes_tcp_socket_witness:
  "2 \<le> length (filter ((=) 5) (rc_closed (RtpConnection_destroy
     (snd (RtpConnection_setupRtpOverTcp (Some demo_conn) channel_0 0 1 junk_connection)))))"
proof -
  have fd: "ch_fd (tc_channel demo_conn) = 5"
    by (simp add: demo_conn_def TcpConnection_new_def Channel_new_def tc_emit_def tc_events_def channel_set_events_def)
  obtain r' where r': "RtpConnection_setupRtpOverTcp (Some demo_conn) channel_0 0 1 junk_connection = (True, r')"
    by (simp add: RtpConnection_setupRtpOverTcp_def)
  then show ?thesis using RtpConnection_destroy_closes_tcp_socket [OF r'] fd by auto
qed

lemma bind_loop_spec:
  assumes "bind_loop rd sock bind_ok ch n r = (True, r')"
  shows "\<exists>k\<ge>n. k < 10 \<and> bind_ok k (rc_localRtpPort r' ch) \<and> bind_ok k (rc_localRtcpPort r' ch) \<and>
     rc_localRtpPort r' ch = ucast (rd k AND 0xFFFE) \<and> rc_localRtcpPort r' ch = rc_localRtpPort r' ch + 1 \<and>
     rc_rtpfd r' ch = fst (sock k) \<and> rc_rtcpfd r' ch = snd (sock k) \<and> rc_info r' = rc_info r \<and>
     set (rc_closed r') \<subseteq> set (rc_closed r) \<union> (\<Union>j\<in>{n..<k}. {fst (sock j), snd (sock j)})"
    (is "\<exists>k\<ge>n. ?spec n r k")
  using assms
proof (induction "10 - n" arbitrary: n r)
  case 0
  then show ?case by (simp add: bind_loop.simps)
next
  case (Suc m)
  let ?p = "ucast (rd n AND 0xFFFE) :: 16 word"
  have n: "n < 10" "m = 10 - Suc n" using Suc.hyps(2) by auto
  have step: "\<exists>k\<ge>n. ?spec n r k"
    if again: "bind_loop rd sock bind_ok ch (Suc n) r1 = (True, r')" and same: "rc_info r1 = rc_info r"
      "set (rc_closed r1) \<subseteq> set (rc_closed r) \<union> {fst (sock n), snd (sock n)}" for r1
  proof -
    obtain k where k: "Suc n \<le> k" "?spec (Suc n) r1 k" using Suc.hyps(1) [OF n(2) again] by blast
    then have "{n..<k} = insert n {Suc n..<k}" by auto
    then have "(\<Union>j\<in>{n..<k}. {fst (sock j), snd (sock j)})
        = {fst (sock n), snd (sock n)} \<union> (\<Union>j\<in>{Suc n..<k}. {fst (sock j), snd (sock j)})"
      by simp
    then show ?thesis using k same by (intro exI [of _ k] conjI) (auto dest: subsetD)
  qed
  consider "bind_ok n ?p" "bind_ok n (?p + 1)" | "bind_ok n ?p" "\<not> bind_ok n (?p + 1)" | "\<not> bind_ok n ?p" by blast
  then show ?case
  proof cases
    case 1
    then show ?thesis using Suc.prems n(1) by (subst (asm) bind_loop.simps) (auto simp: Let_def)
  next
    case 2
    with Suc.prems n(1) show ?thesis by (subst (asm) bind_loop.simps) (auto simp: Let_def intro!: step)
  next
    case 3
    with Suc.prems n(1) show ?thesis by (subst (asm) bind_loop.simps) (auto simp: Let_def intro!: step)
  qed
qed

text \<open>
  UDP set-up: it tries at most ten port pairs, an even port and the next one, and on success both
  sockets are bound and only those of failed attempts have been closed; the address that media
  packets are sent to carries the client's RTCP port, not its RTP port.
\<close>

theorem RtpConnection_setupRtpOverUdp_spec:
  assumes "RtpConnection_setupRtpOverUdp rd sock bind_ok peer (Some c) ch rtpPort rtcpPort r = (True, r')"
  shows "\<exists>k<10. bind_ok k (rc_localRtpPort r' ch) \<and> bind_ok k (rc_localRtcpPort r' ch) \<and>
       even (unat (rc_localRtpPort r' ch)) \<and> rc_localRtcpPort r' ch = rc_localRtpPort r' ch + 1 \<and>
       rc_rtpfd r' ch = fst (sock k) \<and> rc_rtcpfd r' ch = snd (sock k) \<and>
       set (rc_closed r') \<subseteq> set (rc_closed r) \<union> (\<Union>j\<in>{0..<k}. {fst (sock j), snd (sock j)}) \<and>
       mi_isSetup (rc_info r' ch) \<and> rc_transportMode r' = RTP_OVER_UDP \<and>
       mi_rtpPort (rc_info r' ch) = rtpPort \<and> rc_peerRtpAddr r' ch = (peer, hostToNetwork16 rtcpPort)"
proof -
  let ?r = "upd_info ch (\<lambda>i. i\<lparr>mi_rtpPort := rtpPort, mi_rtcpPort := rtcpPort\<rparr>) r"
  obtain r1 where r1: "bind_loop rd sock bind_ok ch 0 ?r = (True, r1)"
      "r' = upd_info ch (\<lambda>i. i\<lparr>mi_isSetup := True\<rparr>)
        (r1\<lparr>rc_peerRtpAddr := (rc_peerRtpAddr r1)(ch := (peer, hostToNetwork16 (mi_rtcpPort (rc_info r1 ch)))),
           rc_peerRtcpAddr := (rc_peerRtcpAddr r1)(ch := (peer, hostToNetwork16 (mi_rtcpPort (rc_info r1 ch)))),
           rc_transportMode := RTP_OVER_UDP\<rparr>)"
    using assms by (auto simp: RtpConnection_setupRtpOverUdp_def Let_def split: prod.splits if_splits)
  have ev: "even (unat (ucast (w AND 0xFFFE) :: 16 word))" for w :: "32 word"
  proof -
    have "\<not> bit (ucast (w AND 0xFFFE) :: 16 word) 0" by (simp add: bit_simps)
    then show ?thesis by (metis bit_0 bit_unsigned_iff)
  qed
  have "rc_info ?r ch = (rc_info r ch)\<lparr>mi_rtpPort := rtpPort, mi_rtcpPort := rtcpPort\<rparr>" "rc_closed ?r = rc_closed r"
    by (simp_all add: upd_info_def)
  then show ?thesis
    using bind_loop_spec [OF r1(1)] r1(2) ev by (auto simp: upd_info_def)
qed

theorem RtpConnection_setupRtpOverUdp_spec_witness:
  "\<exists>r'. RtpConnection_setupRtpOverUdp (\<lambda>_. 5001) (\<lambda>_. (8, 9)) (\<lambda>_ _. True) 1 (Some demo_conn) channel_0 6000 6001
      junk_connection = (True, r') \<and> rc_peerRtpAddr r' channel_0 = (1, hostToNetwork16 6001)"
proof -
  obtain r' where r': "RtpConnection_setupRtpOverUdp (\<lambda>_. 5001) (\<lambda>_. (8, 9)) (\<lambda>_ _. True) 1 (Some demo_conn) channel_0
      6000 6001 junk_connection = (True, r')"
    by (simp add: RtpConnection_setupRtpOverUdp_def bind_loop.simps Let_def)
  then show ?thesis using RtpConnection_setupRtpOverUdp_spec [OF r'] by auto
qed

end
