(* ===== verification/Media_RtspMessage.thy ===== *)
theory Media_RtspMessage
  imports Net_Lines Media_Rtp
begin

text \<open>
  RTSP messages: \<open>RtspMessage.h\<close> and \<open>RtspMessage.cc\<close> of \<open>ideal/media\<close>.

  \<open>RtspRequest\<close> is the server's side: \<open>parseRequest\<close> takes a request from the network buffer, first its
  request line, then its header lines, and the \<open>build...Res\<close> functions print the responses.
  \<open>RtspResponse\<close> is the side of a client that pushes media. The parameter tables keep the first value
  of a key (\<open>emplace\<close>); a request's members without initialiser start as whatever the memory holds
  (\<open>junk\<close>). Printing returns the text in the buffer, of which the callers take the length.
\<close>

section \<open>Requests\<close>

datatype rtsp_method = OPTIONS | DESCRIBE | SETUP | PLAY | TEARDOWN | GET_PARAMETER | RTCP | METHOD_NONE

datatype RtspRequestParseState = kParseRequestLine | kParseHeadersLine | kGotAll

type_synonym params = "string \<rightharpoonup> string \<times> 32 word"

record RtspRequest =
  rq_method :: rtsp_method
  rq_channelId :: MediaChannelId
  rq_transport :: TransportMode
  rq_requestLineParam :: params
  rq_headerLineParam :: params
  rq_state :: RtspRequestParseState

definition RtspRequest_new :: "RtspRequest \<Rightarrow> RtspRequest" where
  "RtspRequest_new junk =
     junk\<lparr>rq_requestLineParam := Map.empty, rq_headerLineParam := Map.empty, rq_state := kParseRequestLine\<rparr>"

definition RtspRequest_gotAll :: "RtspRequest \<Rightarrow> bool" where
  "RtspRequest_gotAll r \<longleftrightarrow> rq_state r = kGotAll"

definition RtspRequest_reset :: "RtspRequest \<Rightarrow> RtspRequest" where
  "RtspRequest_reset r =
     r\<lparr>rq_state := kParseRequestLine, rq_requestLineParam := Map.empty, rq_headerLineParam := Map.empty\<rparr>"

definition emplace :: "string \<Rightarrow> string \<times> 32 word \<Rightarrow> params \<Rightarrow> params" where
  "emplace k v m = (if m k = None then m(k \<mapsto> v) else m)"

definition method_of :: "string \<Rightarrow> rtsp_method" where
  "method_of methodString =
     (if methodString = ''OPTIONS'' then OPTIONS
      else if methodString = ''DESCRIBE'' then DESCRIBE
      else if methodString = ''SETUP'' then SETUP
      else if methodString = ''PLAY'' then PLAY
      else if methodString = ''TEARDOWN'' then TEARDOWN
      else if methodString = ''GET_PARAMETER'' then GET_PARAMETER
      else METHOD_NONE)"

text \<open>
  The two formats for the part of the URL behind \<open>rtsp://\<close>; the result is address, port and suffix.
  \<open>ip\<close> has 16 bytes and \<open>suffix\<close> 64.
\<close>

definition parse_url :: "nat \<Rightarrow> nat \<Rightarrow> string \<Rightarrow> (string \<times> 16 word \<times> string) option result" where
  "parse_url ipSize suffixSize url =
     bindR (sscanf [NotSet ipSize (CHR '':''), Lit (CHR '':''), UShort, Lit (CHR ''/''), Str suffixSize] url) (\<lambda>v1.
     case v1 of
       [Text ip, Num port, Text suffix] \<Rightarrow> Inr (Some (ip, of_nat port, suffix))
     | _ \<Rightarrow>
         bindR (sscanf [NotSet ipSize (CHR ''/''), Lit (CHR ''/''), Str suffixSize] url) (\<lambda>v2.
         case v2 of
           [Text ip, Text suffix] \<Rightarrow> Inr (Some (ip, 554, suffix))
         | _ \<Rightarrow> Inr None))"

definition RtspRequest_parseRequestLine :: "string \<Rightarrow> RtspRequest \<Rightarrow> (bool \<times> RtspRequest) result" where
  "RtspRequest_parseRequestLine message r =
     bindR (sscanf [Str 32, Blank, Str 128, Blank, Str 16] (cstr message)) (\<lambda>vs.
     case vs of
       [Text methodString, Text url, Text version] \<Rightarrow>
         (let r = r\<lparr>rq_method := method_of methodString\<rparr> in
          if rq_method r = METHOD_NONE then Inr (False, r)
          else if take 7 url \<noteq> ''rtsp://'' then Inr (False, r)
          else
            bindR (parse_url 16 64 (drop 7 url)) (\<lambda>u.
            case u of
              None \<Rightarrow> Inr (False, r)
            | Some (ip, port, suffix) \<Rightarrow>
                (let m = emplace ''url'' (url, 0) (rq_requestLineParam r);
                     m = emplace ''url_ip'' (ip, 0) m;
                     m = emplace ''url_port'' ('''', ucast port) m;
                     m = emplace ''url_suffix'' (suffix, 0) m;
                     m = emplace ''version'' (version, 0) m;
                     m = emplace ''method'' (methodString, 0) m
                 in Inr (True, r\<lparr>rq_requestLineParam := m, rq_state := kParseHeadersLine\<rparr>))))
     | _ \<Rightarrow> Inr (False, r))"

text \<open>\<open>std::string::find\<close>; \<open>rfind\<close> is only compared with \<open>npos\<close>.\<close>

definition str_find :: "string \<Rightarrow> string \<Rightarrow> nat option" where
  "str_find p s = find_sub p s"

definition RtspRequest_parseCSeq :: "string \<Rightarrow> RtspRequest \<Rightarrow> (bool \<times> RtspRequest) result" where
  "RtspRequest_parseCSeq message r =
     (case str_find ''CSeq'' message of
        Some pos \<Rightarrow>
          bindR (sscanf [SkipNotSet (CHR '':''), Lit (CHR '':''), Blank, UInt] (cstr (drop pos message))) (\<lambda>vs.
          (let cseq = (case vs of [Num n] \<Rightarrow> of_nat n | _ \<Rightarrow> 0)
           in Inr (True, r\<lparr>rq_headerLineParam := emplace ''cseq'' ('''', cseq) (rq_headerLineParam r)\<rparr>)))
      | None \<Rightarrow> Inr (False, r))"

definition RtspRequest_parseAccept :: "string \<Rightarrow> bool" where
  "RtspRequest_parseAccept message \<longleftrightarrow> rfind_sub ''Accept'' message \<noteq> None \<and> rfind_sub ''sdp'' message \<noteq> None"

definition transport_scan :: "string \<Rightarrow> scanned list result" where
  "transport_scan s = sscanf [SkipNotSet (CHR '';''), Lit (CHR '';''), SkipNotSet (CHR '';''), Lit (CHR '';''),
     SkipNotSet (CHR ''=''), Lit (CHR ''=''), UShort, Lit (CHR ''-''), UShort] (cstr s)"

definition RtspRequest_parseTransport :: "string \<Rightarrow> RtspRequest \<Rightarrow> (bool \<times> RtspRequest) result" where
  "RtspRequest_parseTransport message r =
     (case str_find ''Transport'' message of
        None \<Rightarrow> Inr (False, r)
      | Some _ \<Rightarrow>
          (case str_find ''RTP/AVP/TCP'' message of
             Some pos \<Rightarrow>
               (let r = r\<lparr>rq_transport := RTP_OVER_TCP\<rparr> in
                bindR (transport_scan (drop pos message)) (\<lambda>vs.
                case vs of
                  [Num rtpChannel, Num rtcpChannel] \<Rightarrow>
                    Inr (True, r\<lparr>rq_headerLineParam :=
                      emplace ''rtcp_channel'' ('''', of_nat rtcpChannel)
                        (emplace ''rtp_channel'' ('''', of_nat rtpChannel) (rq_headerLineParam r))\<rparr>)
                | _ \<Rightarrow> Inr (False, r)))
           | None \<Rightarrow>
               (case str_find ''RTP/AVP'' message of
                  None \<Rightarrow> Inr (False, r)
                | Some pos \<Rightarrow>
                    (let ports = (\<lambda>rtpPort rtcpPort r. r\<lparr>rq_headerLineParam :=
                           emplace ''rtcp_port'' ('''', of_nat rtcpPort)
                             (emplace ''rtp_port'' ('''', of_nat rtpPort) (rq_headerLineParam r))\<rparr>) in
                     if str_find ''unicast'' (drop pos message) \<noteq> None
                     then (let r = r\<lparr>rq_transport := RTP_OVER_UDP\<rparr> in
                           bindR (transport_scan (drop pos message)) (\<lambda>vs.
                           case vs of
                             [Num rtpPort, Num rtcpPort] \<Rightarrow> Inr (True, ports rtpPort rtcpPort r)
                           | _ \<Rightarrow> Inr (False, r)))
                     else if str_find ''multicast'' (drop pos message) \<noteq> None
                     then Inr (True, ports 0 0 (r\<lparr>rq_transport := RTP_OVER_MULTICAST\<rparr>))
                     else Inr (False, r)))))"

definition RtspRequest_parseSessionId :: "string \<Rightarrow> bool result" where
  "RtspRequest_parseSessionId message =
     (case str_find ''Session'' message of
        None \<Rightarrow> Inr False
      | Some pos \<Rightarrow>
          bindR (sscanf [SkipNotSet (CHR '':''), Lit (CHR '':''), Blank, UInt] (cstr (drop pos message))) (\<lambda>vs.
          Inr (length vs = 1)))"

definition RtspRequest_parseMediaChannel :: "RtspRequest \<Rightarrow> RtspRequest" where
  "RtspRequest_parseMediaChannel r =
     (let r = r\<lparr>rq_channelId := channel_0\<rparr> in
      case rq_requestLineParam r ''url'' of
        Some (url, _) \<Rightarrow> if str_find ''track1'' url \<noteq> None then r\<lparr>rq_channelId := channel_1\<rparr> else r
      | None \<Rightarrow> r)"

definition RtspRequest_parseHeadersLine :: "string \<Rightarrow> RtspRequest \<Rightarrow> (bool \<times> RtspRequest) result" where
  "RtspRequest_parseHeadersLine message r =
     bindR (RtspRequest_parseCSeq message r) (\<lambda>(found, r).
     if \<not> found \<and> rq_headerLineParam r ''cseq'' = None then Inr (False, r)
     else case rq_method r of
       OPTIONS \<Rightarrow> Inr (True, r\<lparr>rq_state := kGotAll\<rparr>)
     | DESCRIBE \<Rightarrow> Inr (True, if RtspRequest_parseAccept message then r\<lparr>rq_state := kGotAll\<rparr> else r)
     | SETUP \<Rightarrow>
         bindR (RtspRequest_parseTransport message r) (\<lambda>(ok, r).
         Inr (True, if ok then (RtspRequest_parseMediaChannel r)\<lparr>rq_state := kGotAll\<rparr> else r))
     | PLAY \<Rightarrow>
         bindR (RtspRequest_parseSessionId message) (\<lambda>ok.
         Inr (True, if ok then r\<lparr>rq_state := kGotAll\<rparr> else r))
     | TEARDOWN \<Rightarrow> Inr (True, r\<lparr>rq_state := kGotAll\<rparr>)
     | GET_PARAMETER \<Rightarrow> Inr (True, r\<lparr>rq_state := kGotAll\<rparr>)
     | _ \<Rightarrow> Inr (True, r))"

text \<open>
  \<open>parseRequest\<close>. The loop runs at most twice: \<open>continue\<close> is only taken from the request line to the
  header lines. \<open>ret\<close> is what the request line left there.
\<close>

definition parse_headers :: "bool \<Rightarrow> Buffer \<Rightarrow> RtspRequest \<Rightarrow> (bool \<times> Buffer \<times> RtspRequest) result" where
  "parse_headers ret b r =
     (case Buffer_findLastCRLF b of
        None \<Rightarrow> Inr (ret, b, r)
      | Some lastCrlf \<Rightarrow>
          bindR (RtspRequest_parseHeadersLine (slice (Buffer_peek b) lastCrlf (b_buffer b)) r) (\<lambda>(ret, r).
          bindR (Buffer_retrieveUntil b (lastCrlf + 2)) (\<lambda>b. Inr (ret, b, r))))"

definition parse_line :: "Buffer \<Rightarrow> RtspRequest \<Rightarrow> (bool \<times> Buffer \<times> RtspRequest) result" where
  "parse_line b r =
     (case Buffer_findCRLF b of
        None \<Rightarrow> Inr (True, b, r)
      | Some firstCrlf \<Rightarrow>
          bindR (RtspRequest_parseRequestLine (slice (Buffer_peek b) firstCrlf (b_buffer b)) r) (\<lambda>(ret, r).
          bindR (Buffer_retrieveUntil b (firstCrlf + 2)) (\<lambda>b. Inr (ret, b, r))))"

definition RtspRequest_parseRequest :: "Buffer \<Rightarrow> RtspRequest \<Rightarrow> (bool \<times> Buffer \<times> RtspRequest) result" where
  "RtspRequest_parseRequest b r =
     bindR (mem_read (b_buffer b) (Buffer_peek b) 1) (\<lambda>c.
     if c = ''$'' then Inr (True, b, r\<lparr>rq_method := RTCP\<rparr>)
     else case rq_state r of
       kParseRequestLine \<Rightarrow>
         bindR (parse_line b r) (\<lambda>(ret, b, r).
         if rq_state r = kParseHeadersLine then parse_headers ret b r else Inr (ret, b, r))
     | kParseHeadersLine \<Rightarrow> parse_headers True b r
     | kGotAll \<Rightarrow> Inr (True, Buffer_retrieveAll b, r))"

section \<open>Accessors\<close>

definition param_num :: "string \<Rightarrow> params \<Rightarrow> 32 word" where
  "param_num k m = (case m k of Some (_, n) \<Rightarrow> n | None \<Rightarrow> 0)"

definition param_str :: "string \<Rightarrow> params \<Rightarrow> string" where
  "param_str k m = (case m k of Some (s, _) \<Rightarrow> s | None \<Rightarrow> '''')"

definition RtspRequest_getCSeq :: "RtspRequest \<Rightarrow> 32 word" where
  "RtspRequest_getCSeq r = param_num ''cseq'' (rq_headerLineParam r)"

definition RtspRequest_getRtspUrl :: "RtspRequest \<Rightarrow> string" where
  "RtspRequest_getRtspUrl r = param_str ''url'' (rq_requestLineParam r)"

definition RtspRequest_getRtspUrlSuffix :: "RtspRequest \<Rightarrow> string" where
  "RtspRequest_getRtspUrlSuffix r = param_str ''url_suffix'' (rq_requestLineParam r)"

definition RtspRequest_getIp :: "RtspRequest \<Rightarrow> string" where
  "RtspRequest_getIp r = param_str ''url_ip'' (rq_requestLineParam r)"

definition RtspRequest_getRtpChannel :: "RtspRequest \<Rightarrow> 8 word" where
  "RtspRequest_getRtpChannel r = ucast (param_num ''rtp_channel'' (rq_headerLineParam r))"

definition RtspRequest_getRtcpChannel :: "RtspRequest \<Rightarrow> 8 word" where
  "RtspRequest_getRtcpChannel r = ucast (param_num ''rtcp_channel'' (rq_headerLineParam r))"

definition RtspRequest_getRtpPort :: "RtspRequest \<Rightarrow> 16 word" where
  "RtspRequest_getRtpPort r = ucast (param_num ''rtp_port'' (rq_headerLineParam r))"

definition RtspRequest_getRtcpPort :: "RtspRequest \<Rightarrow> 16 word" where
  "RtspRequest_getRtcpPort r = ucast (param_num ''rtcp_port'' (rq_headerLineParam r))"

section \<open>Responses\<close>

text \<open>\<open>%u\<close> of a 32-bit and \<open>%hu\<close> of a 16-bit number, and \<open>%d\<close> of a 32-bit one.\<close>

definition print_u :: "'a :: len word \<Rightarrow> string" where
  "print_u w = nat_dec (unat w)"

definition print_d :: "32 word \<Rightarrow> string" where
  "print_d w = int_dec (sint w)"

definition status_line :: "string \<Rightarrow> string" where
  "status_line s = ''RTSP/1.0 '' @ s @ kCRLF"

definition RtspRequest_buildOptionRes :: "nat \<Rightarrow> RtspRequest \<Rightarrow> string" where
  "RtspRequest_buildOptionRes bufSize r = snprintf bufSize
     (status_line ''200 OK'' @ ''CSeq: '' @ print_u (RtspRequest_getCSeq r) @ kCRLF @
      ''Public: OPTIONS, DESCRIBE, SETUP, TRARDOWN, PLAT'' @ kCRLF @ kCRLF)"

definition RtspRequest_buildDescribeRes :: "nat \<Rightarrow> string \<Rightarrow> RtspRequest \<Rightarrow> string" where
  "RtspRequest_buildDescribeRes bufSize strSdp r = snprintf bufSize
     (status_line ''200 OK'' @ ''CSeq: '' @ print_u (RtspRequest_getCSeq r) @ kCRLF @
      ''Content-Length: '' @ nat_dec (length strSdp) @ kCRLF @
      ''Content-Type: application/sdp'' @ kCRLF @ kCRLF @ strSdp)"

definition RtspRequest_buildSetupMulticastRes :: "nat \<Rightarrow> string \<Rightarrow> 16 word \<Rightarrow> 32 word \<Rightarrow> RtspRequest \<Rightarrow> string" where
  "RtspRequest_buildSetupMulticastRes bufSize strMulticastIp port sessionId r = snprintf bufSize
     (status_line ''200 OK'' @ ''CSeq: '' @ print_u (RtspRequest_getCSeq r) @ kCRLF @
      ''Transport: RTP/AVP;multicast;destination='' @ strMulticastIp @ '';source='' @ cstr (RtspRequest_getIp r) @
      '';port='' @ print_u port @ ''-0;ttl=255'' @ kCRLF @ ''Session: '' @ print_u sessionId @ kCRLF @ kCRLF)"

definition RtspRequest_buildSetupTcpRes :: "nat \<Rightarrow> 16 word \<Rightarrow> 16 word \<Rightarrow> 32 word \<Rightarrow> RtspRequest \<Rightarrow> string" where
  "RtspRequest_buildSetupTcpRes bufSize rtpChn rtcpChn sessionId r = snprintf bufSize
     (status_line ''200 OK'' @ ''CSeq: '' @ print_u (RtspRequest_getCSeq r) @ kCRLF @
      ''Transport: RTP/AVP/TCP;unicast;interleaved='' @ print_u rtpChn @ ''-'' @ print_u rtcpChn @ kCRLF @
      ''Session: '' @ print_u sessionId @ kCRLF @ kCRLF)"

definition RtspRequest_buildSetupUdpRes :: "nat \<Rightarrow> 16 word \<Rightarrow> 16 word \<Rightarrow> 32 word \<Rightarrow> RtspRequest \<Rightarrow> string" where
  "RtspRequest_buildSetupUdpRes bufSize rtpChn rtcpChn sessionId r = snprintf bufSize
     (status_line ''200 OK'' @ ''CSeq: '' @ print_u (RtspRequest_getCSeq r) @ kCRLF @
      ''Transport: RTP/AVP;unicast;client_port='' @ print_u (RtspRequest_getRtpPort r) @ ''-'' @
      print_u (RtspRequest_getRtcpPort r) @ '';server_port='' @ print_u rtpChn @ ''-'' @ print_u rtcpChn @ kCRLF @
      ''Session: '' @ print_u sessionId @ kCRLF @ kCRLF)"

definition RtspRequest_buildPlayRes :: "nat \<Rightarrow> string option \<Rightarrow> 32 word \<Rightarrow> RtspRequest \<Rightarrow> string" where
  "RtspRequest_buildPlayRes bufSize rtpInfo sessionId r =
     (let buf = snprintf bufSize
            (status_line ''200 OK'' @ ''CSeq: '' @ print_d (RtspRequest_getCSeq r) @ kCRLF @
             ''Range: npt=0.000-'' @ kCRLF @ ''Session: '' @ print_u sessionId @ ''; timeout=60'' @ kCRLF);
          buf = (case rtpInfo of Some info \<Rightarrow> bprintf bufSize buf (info @ kCRLF) | None \<Rightarrow> buf)
      in bprintf bufSize buf kCRLF)"

definition RtspRequest_buildTeardownRes :: "nat \<Rightarrow> 32 word \<Rightarrow> RtspRequest \<Rightarrow> string" where
  "RtspRequest_buildTeardownRes bufSize sessionId r = snprintf bufSize
     (status_line ''200 OK'' @ ''CSeq: '' @ print_d (RtspRequest_getCSeq r) @ kCRLF @
      ''Session: '' @ print_u sessionId @ kCRLF @ kCRLF)"

definition RtspRequest_buildGetParamterRes :: "nat \<Rightarrow> 32 word \<Rightarrow> RtspRequest \<Rightarrow> string" where
  "RtspRequest_buildGetParamterRes bufSize sessionId r = snprintf bufSize
     (status_line ''200 OK'' @ ''CSeq: '' @ print_d (RtspRequest_getCSeq r) @ kCRLF @
      ''Session: '' @ print_u sessionId @ kCRLF @ kCRLF)"

definition RtspRequest_buildNotFoundRes :: "nat \<Rightarrow> RtspRequest \<Rightarrow> string" where
  "RtspRequest_buildNotFoundRes bufSize r = snprintf bufSize
     (status_line ''404 Stream Not Found'' @ ''CSeq: '' @ print_u (RtspRequest_getCSeq r) @ kCRLF @ kCRLF)"

definition RtspRequest_buildServerErrorRes :: "nat \<Rightarrow> RtspRequest \<Rightarrow> string" where
  "RtspRequest_buildServerErrorRes bufSize r = snprintf bufSize
     (status_line ''500 Internal Server Error'' @ ''CSeq: '' @ print_u (RtspRequest_getCSeq r) @ kCRLF @ kCRLF)"

definition RtspRequest_buildUnsupportedRes :: "nat \<Rightarrow> RtspRequest \<Rightarrow> string" where
  "RtspRequest_buildUnsupportedRes bufSize r = snprintf bufSize
     (status_line ''461 Unsupported transport'' @ ''CSeq: '' @ print_d (RtspRequest_getCSeq r) @ kCRLF @ kCRLF)"

section \<open>The client's side\<close>

datatype response_method = R_OPTIONS | R_DESCRIBE | R_ANNOUNCE | R_SETUP | R_RECORD | R_RTCP | R_NONE

record RtspResponse =
  rp_method :: response_method
  rp_cseq :: "32 word"
  rp_userAgent :: string
  rp_rtspUrl :: string
  rp_session :: string

definition RtspResponse_new :: "RtspResponse \<Rightarrow> RtspResponse" where
  "RtspResponse_new junk = junk\<lparr>rp_cseq := 0, rp_userAgent := '''', rp_rtspUrl := '''', rp_session := ''''\<rparr>"

definition RtspResponse_setUserAgent :: "string \<Rightarrow> RtspResponse \<Rightarrow> RtspResponse" where
  "RtspResponse_setUserAgent userAgent p = p\<lparr>rp_userAgent := userAgent\<rparr>"

definition RtspResponse_setRtspUrl :: "string \<Rightarrow> RtspResponse \<Rightarrow> RtspResponse" where
  "RtspResponse_setRtspUrl url p = p\<lparr>rp_rtspUrl := url\<rparr>"

text \<open>
  \<open>parseResponse\<close>. \<open>strstr\<close> reads the buffer from \<open>peek()\<close> to the first NUL, whatever is written there.
  \<open>retrieveUntil\<close> gets a pointer to the literal, which lies outside the buffer's array: it is smaller
  than \<open>peek()\<close> or larger than \<open>beginWrite()\<close>, and one of the two assertions fails.
\<close>

definition c_string_at :: "nat \<Rightarrow> char list \<Rightarrow> string result" where
  "c_string_at pos xs =
     (if CHR 0x00 \<in> set (drop pos xs) then Inr (cstr (drop pos xs)) else Inl OutOfRange)"

definition RtspResponse_parseResponse :: "Buffer \<Rightarrow> RtspResponse \<Rightarrow> (bool \<times> Buffer \<times> RtspResponse) result" where
  "RtspResponse_parseResponse b p =
     bindR (c_string_at (Buffer_peek b) (b_buffer b)) (\<lambda>s.
     if find_sub (kCRLF @ kCRLF) s \<noteq> None
     then
       if find_sub ''OK'' s = None then Inr (False, b, p)
       else
         bindR (case find_sub ''Session'' s of
                  None \<Rightarrow> Inr p
                | Some ptr \<Rightarrow>
                    bindR (sscanf [SkipNotSet (CHR '':''), Lit (CHR '':''), Blank, Str 50] (drop ptr s)) (\<lambda>vs.
                    Inr (case vs of [Text sessionId] \<Rightarrow> p\<lparr>rp_session := sessionId\<rparr> | _ \<Rightarrow> p))) (\<lambda>p.
         Inl AssertionFailed)
     else Inr (True, b, p))"

definition RtspResponse_buildOptionReq :: "nat \<Rightarrow> RtspResponse \<Rightarrow> string \<times> RtspResponse" where
  "RtspResponse_buildOptionReq bufSize p =
     (snprintf bufSize (''OPTIONS '' @ cstr (rp_rtspUrl p) @ '' RTSP/1.0'' @ kCRLF @
        ''CSeq: '' @ print_u (rp_cseq p + 1) @ kCRLF @ ''User-Agent: '' @ cstr (rp_userAgent p) @ kCRLF @ kCRLF),
      p\<lparr>rp_method := R_OPTIONS\<rparr>)"

definition RtspResponse_buildDescribeReq :: "nat \<Rightarrow> RtspResponse \<Rightarrow> string \<times> RtspResponse" where
  "RtspResponse_buildDescribeReq bufSize p =
     (snprintf bufSize (''DESCRIBE '' @ cstr (rp_rtspUrl p) @ '' RTSP/1.0'' @ kCRLF @
        ''CSeq: '' @ print_u (rp_cseq p + 1) @ kCRLF @ ''Accept: application/sdp'' @ kCRLF @
        ''User-Agent: '' @ cstr (rp_userAgent p) @ kCRLF @ kCRLF),
      p\<lparr>rp_method := R_DESCRIBE\<rparr>)"

definition RtspResponse_buildAnnounceReq :: "nat \<Rightarrow> string \<Rightarrow> RtspResponse \<Rightarrow> string \<times> RtspResponse" where
  "RtspResponse_buildAnnounceReq bufSize strSdp p =
     (snprintf bufSize (''ANNOUNCE '' @ cstr (rp_rtspUrl p) @ '' RTSP/1.0'' @ kCRLF @
        ''Content-Type: application/sdp'' @ kCRLF @ ''CSeq: '' @ print_u (rp_cseq p + 1) @ kCRLF @
        ''User-Agent: '' @ cstr (rp_userAgent p) @ kCRLF @ ''Session: '' @ cstr (rp_session p) @ kCRLF @
        ''Content-Length: '' @ nat_dec (length strSdp) @ kCRLF @ kCRLF @ strSdp),
      p\<lparr>rp_method := R_ANNOUNCE\<rparr>)"

definition RtspResponse_buildSetupTcpReq :: "nat \<Rightarrow> int \<Rightarrow> RtspResponse \<Rightarrow> string \<times> RtspResponse" where
  "RtspResponse_buildSetupTcpReq bufSize trackId p =
     (let interleaved = (if trackId = 1 then (2, 3) else (0, 1)) in
      (snprintf bufSize (''SETUP '' @ cstr (rp_rtspUrl p) @ ''/track'' @ int_dec trackId @ '' RTSP/1.0'' @ kCRLF @
         ''Transport: RTP/AVP/TCP;unicast;mode=record;interleaved='' @ nat_dec (fst interleaved) @ ''-'' @
         nat_dec (snd interleaved) @ kCRLF @ ''CSeq: '' @ print_u (rp_cseq p + 1) @ kCRLF @
         ''User-Agent: '' @ cstr (rp_userAgent p) @ kCRLF @ ''Session: '' @ cstr (rp_session p) @ kCRLF @ kCRLF),
       p\<lparr>rp_method := R_SETUP\<rparr>))"

definition RtspResponse_buildRecordReq :: "nat \<Rightarrow> RtspResponse \<Rightarrow> string \<times> RtspResponse" where
  "RtspResponse_buildRecordReq bufSize p =
     (snprintf bufSize (''RECORD '' @ cstr (rp_rtspUrl p) @ '' RTSP/1.0'' @ kCRLF @
        ''Range: npt=0.000-'' @ kCRLF @ ''CSeq: '' @ print_u (rp_cseq p + 1) @ kCRLF @
        ''User-Agent: '' @ cstr (rp_userAgent p) @ kCRLF @ ''Session: '' @ cstr (rp_session p) @ kCRLF @ kCRLF),
      p\<lparr>rp_method := R_RECORD\<rparr>)"

section \<open>Requests of the library's own client\<close>

definition rtsp_url :: "string \<Rightarrow> nat \<Rightarrow> string \<Rightarrow> string" where
  "rtsp_url ip port suffix = ''rtsp://'' @ ip @ '':'' @ nat_dec port @ ''/'' @ suffix"

definition url_ok :: "string \<Rightarrow> nat \<Rightarrow> string \<Rightarrow> bool" where
  "url_ok ip port suffix \<longleftrightarrow> word_ok ip \<and> CHR '':'' \<notin> set ip \<and> CHR 0x00 \<notin> set ip \<and> length ip < 16 \<and> port < 2 ^ 16 \<and>
     word_ok suffix \<and> CHR 0x00 \<notin> set suffix \<and> length suffix < 64"

lemma parse_url_port:
  assumes "url_ok ip port suffix"
  shows "parse_url 16 64 (ip @ '':'' @ nat_dec port @ ''/'' @ suffix) = Inr (Some (ip, of_nat port, suffix))"
proof -
  have u: "ip \<noteq> []" "CHR '':'' \<notin> set ip" "length ip < 16" "port < 2 ^ 16" "word_ok suffix" "length suffix < 64"
    using assms by (auto simp: url_ok_def word_ok_def)
  have "sscanf [Str 64] (suffix @ []) = Inr [Text suffix]"
    using u by (subst scan_Str) (simp_all add: stops_def)
  then have s3: "sscanf [UShort, Lit (CHR ''/''), Str 64] (nat_dec port @ CHR ''/'' # suffix) = Inr [Num port, Text suffix]"
    using u by (subst scan_UShort) (simp_all add: stops_def isdigit_def)
  have "sscanf [NotSet 16 (CHR '':''), Lit (CHR '':''), UShort, Lit (CHR ''/''), Str 64]
      (ip @ CHR '':'' # nat_dec port @ CHR ''/'' # suffix) = Inr [Text ip, Num port, Text suffix]"
    using u s3 by (subst scan_NotSet) (simp_all add: stops_def)
  then show ?thesis by (simp add: parse_url_def)
qed

lemma rtsp_url_word:
  assumes "url_ok ip port suffix"
  shows "word_ok (rtsp_url ip port suffix)" "CHR 0x00 \<notin> set (rtsp_url ip port suffix)"
    "CHR 0x0D \<notin> set (rtsp_url ip port suffix)" "length (rtsp_url ip port suffix) < 128"
proof -
  have dec: "\<not> isspace c \<and> c \<noteq> CHR 0x00" if c: "c \<in> set (nat_dec port)" for c
  proof -
    obtain d where d: "d < 10" "c = digit d" using nat_dec_digits [OF c] by blast
    then show ?thesis by simp
  qed
  have lit: "\<forall>c \<in> set ''rtsp://''. \<not> isspace c \<and> c \<noteq> CHR 0x00" "\<forall>c \<in> set '':''. \<not> isspace c \<and> c \<noteq> CHR 0x00"
    "\<forall>c \<in> set ''/''. \<not> isspace c \<and> c \<noteq> CHR 0x00" by (simp_all add: isspace_def)
  have parts: "\<forall>c \<in> set ip. \<not> isspace c \<and> c \<noteq> CHR 0x00" "\<forall>c \<in> set suffix. \<not> isspace c \<and> c \<noteq> CHR 0x00"
    using assms unfolding url_ok_def word_ok_def by metis+
  have all: "\<forall>c \<in> set (rtsp_url ip port suffix). \<not> isspace c \<and> c \<noteq> CHR 0x00"
    unfolding rtsp_url_def set_append ball_Un by (intro conjI lit parts) (simp add: dec)
  show w: "word_ok (rtsp_url ip port suffix)"
    unfolding word_ok_def using all by (simp add: rtsp_url_def)
  have "isspace CHR 0x0D" by (simp add: isspace_def)
  then show "CHR 0x0D \<notin> set (rtsp_url ip port suffix)" using all by blast
  show "CHR 0x00 \<notin> set (rtsp_url ip port suffix)" using all by blast
  have "length (nat_dec port) \<le> 5" using assms by (intro length_nat_dec) (simp_all add: url_ok_def)
  then show "length (rtsp_url ip port suffix) < 128" using assms by (simp add: rtsp_url_def url_ok_def)
qed

definition line_params :: "string \<Rightarrow> string \<Rightarrow> nat \<Rightarrow> string \<Rightarrow> params" where
  "line_params meth ip port suffix =
     [''url'' \<mapsto> (rtsp_url ip port suffix, 0), ''url_ip'' \<mapsto> (ip, 0), ''url_port'' \<mapsto> ('''', of_nat port),
      ''url_suffix'' \<mapsto> (suffix, 0), ''version'' \<mapsto> (''RTSP/1.0'', 0), ''method'' \<mapsto> (meth, 0)]"

lemma parseRequestLine_url:
  assumes "url_ok ip port suffix" "method_of meth \<noteq> METHOD_NONE" "word_ok meth" "length meth < 32" "CHR 0x00 \<notin> set meth"
    and "rq_requestLineParam r = Map.empty"
  shows "RtspRequest_parseRequestLine (meth @ '' '' @ rtsp_url ip port suffix @ '' RTSP/1.0'') r =
    Inr (True, r\<lparr>rq_method := method_of meth, rq_requestLineParam := line_params meth ip port suffix,
               rq_state := kParseHeadersLine\<rparr>)"
proof -
  let ?url = "rtsp_url ip port suffix"
  note u = rtsp_url_word [OF assms(1)]
  obtain c cs where c: "?url = c # cs" "\<not> isspace c" using u(1) by (cases ?url) (auto simp: word_ok_def)
  have nul: "cstr (meth @ '' '' @ ?url @ '' RTSP/1.0'') = meth @ CHR 0x20 # ?url @ CHR 0x20 # ''RTSP/1.0'' @ []"
    using assms(5) u(2) by (subst cstr_noop) auto
  have "sscanf [Str 16] (''RTSP/1.0'' @ []) = Inr [Text ''RTSP/1.0'']"
    by (subst scan_Str) (simp_all add: stops_def word_ok_def isspace_def)
  then have "sscanf [Str 128, Blank, Str 16] (?url @ CHR 0x20 # ''RTSP/1.0'' @ []) = Inr [Text ?url, Text ''RTSP/1.0'']"
    using u(1,4) by (subst scan_Str) (simp_all add: stops_def scan_Blank isspace_def)
  then have "sscanf [Str 32, Blank, Str 128, Blank, Str 16] (cstr (meth @ '' '' @ ?url @ '' RTSP/1.0''))
      = Inr [Text meth, Text ?url, Text ''RTSP/1.0'']"
    unfolding nul using assms(3,4) c by (subst scan_Str) (simp_all add: stops_def scan_Blank isspace_def)
  moreover have "take 7 ?url = ''rtsp://''" "drop 7 ?url = ip @ '':'' @ nat_dec port @ ''/'' @ suffix"
    by (simp_all add: rtsp_url_def)
  moreover have "ucast (of_nat port :: 16 word) = (of_nat port :: 32 word)"
    using assms(1) by (intro word_unat_eq_iff [THEN iffD2]) (simp add: url_ok_def unat_of_nat unsigned_ucast_eq take_bit_eq_mod)
  ultimately show ?thesis
    using assms(2,6) parse_url_port [OF assms(1)]
    by (simp add: RtspRequest_parseRequestLine_def Let_def line_params_def emplace_def)
qed

text \<open>The header of a request: its first line is the sequence number.\<close>

definition no_nul :: "string \<Rightarrow> bool" where
  "no_nul s \<longleftrightarrow> CHR 0x00 \<notin> set s"

lemma parseCSeq_first:
  assumes "no_nul hs" "hs = ''CSeq: '' @ nat_dec n @ kCRLF @ rest" "n < 2 ^ 32" "rq_headerLineParam r = Map.empty"
  shows "RtspRequest_parseCSeq hs r = Inr (True, r\<lparr>rq_headerLineParam := [''cseq'' \<mapsto> ('''', of_nat n)]\<rparr>)"
proof -
  have "str_find ''CSeq'' hs = Some 0"
    unfolding assms(2) str_find_def using find_sub_prefix [of "''CSeq''"] by simp
  moreover have "cstr hs = ''CSeq'' @ CHR '':'' # CHR 0x20 # nat_dec n @ (kCRLF @ rest)"
    using assms(1,2) by (simp add: no_nul_def cstr_noop)
  moreover have "stops isspace (nat_dec n @ (kCRLF @ rest))"
    using nat_dec_word(1) [of n] by (cases "nat_dec n") (simp_all add: stops_def word_ok_def)
  moreover have "sscanf [UInt] (nat_dec n @ (kCRLF @ rest)) = Inr [Num n]"
    using assms(3) by (subst scan_UInt) (simp_all add: stops_def kCRLF_def isdigit_def)
  ultimately show ?thesis
    using assms(4) scan_SkipNotSet [of "''CSeq''" "CHR '':''" "CHR '':'' # CHR 0x20 # nat_dec n @ (kCRLF @ rest)"]
    by (simp add: RtspRequest_parseCSeq_def emplace_def stops_def scan_Blank)
qed

lemma parseRequest_text:
  assumes b: "buffer_ok b" "content b = (meth @ '' '' @ rtsp_url ip port suffix @ '' RTSP/1.0'') @ kCRLF @ hs @ kCRLF"
    and u: "url_ok ip port suffix"
    and m: "meth \<in> {''OPTIONS'', ''DESCRIBE'', ''TEARDOWN'', ''GET_PARAMETER''}"
    and h: "no_nul hs" "hs = ''CSeq: '' @ nat_dec n @ kCRLF @ rest" "n < 2 ^ 32"
    and a: "meth = ''DESCRIBE'' \<longrightarrow> RtspRequest_parseAccept hs"
  shows "\<exists>b' r'. RtspRequest_parseRequest b (RtspRequest_reset r) = Inr (True, b', r') \<and> buffer_ok b' \<and> content b' = [] \<and>
    RtspRequest_gotAll r' \<and> rq_method r' = method_of meth \<and> RtspRequest_getCSeq r' = of_nat n \<and>
    rq_requestLineParam r' = line_params meth ip port suffix"
proof -
  let ?line = "meth @ '' '' @ rtsp_url ip port suffix @ '' RTSP/1.0''"
  let ?r0 = "RtspRequest_reset r"
  let ?r1 = "?r0\<lparr>rq_method := method_of meth, rq_requestLineParam := line_params meth ip port suffix, rq_state := kParseHeadersLine\<rparr>"
  let ?r2 = "?r1\<lparr>rq_headerLineParam := [''cseq'' \<mapsto> ('''', of_nat n)], rq_state := kGotAll\<rparr>"
  have cr: "CHR 0x0D \<notin> set ?line" using m rtsp_url_word(3) [OF u] by auto
  note line = first_line [OF b cr]
  obtain b1 where b1: "Buffer_retrieveUntil b (Buffer_peek b + length ?line + 2) = Inr b1" "buffer_ok b1" "content b1 = hs @ kCRLF"
    using line(3) by blast
  note heads = all_lines [OF b1(2,3)]
  obtain b2 where b2: "Buffer_retrieveUntil b1 (Buffer_peek b1 + length hs + 2) = Inr b2" "buffer_ok b2" "content b2 = []"
    using heads(3) by blast
  obtain c cs where c: "content b = c # cs" "c \<noteq> CHR ''$''" using b(2) m by auto
  have first: "mem_read (b_buffer b) (Buffer_peek b) 1 = Inr [c]"
    using peek_first [OF b(1) c(1)] by (simp add: mem_read_def)
  have "word_ok meth" "length meth < 32" "CHR 0x00 \<notin> set meth" "method_of meth \<noteq> METHOD_NONE"
    using m by (auto simp: word_ok_def isspace_def method_of_def)
  then have rl: "RtspRequest_parseRequestLine ?line ?r0 = Inr (True, ?r1)"
    using parseRequestLine_url [OF u, of meth ?r0] by (simp add: RtspRequest_reset_def)
  have "RtspRequest_parseCSeq hs ?r1 = Inr (True, ?r1\<lparr>rq_headerLineParam := [''cseq'' \<mapsto> ('''', of_nat n)]\<rparr>)"
    using h by (intro parseCSeq_first) (simp_all add: RtspRequest_reset_def)
  then have hl: "RtspRequest_parseHeadersLine hs ?r1 = Inr (True, ?r2)"
    using m a by (auto simp: RtspRequest_parseHeadersLine_def method_of_def)
  have "parse_line b ?r0 = Inr (True, b1, ?r1)"
    using line(1,2) b1(1) rl by (simp add: parse_line_def)
  moreover have "parse_headers True b1 ?r1 = Inr (True, b2, ?r2)"
    using heads(1,2) b2(1) hl by (simp add: parse_headers_def)
  ultimately have "RtspRequest_parseRequest b ?r0 = Inr (True, b2, ?r2)"
    using first c(2) by (simp add: RtspRequest_parseRequest_def RtspRequest_reset_def)
  then show ?thesis
    using b2 by (simp add: RtspRequest_gotAll_def RtspRequest_getCSeq_def param_num_def)
qed

lemma no_nul_append [simp]: "no_nul (a @ b) \<longleftrightarrow> no_nul a \<and> no_nul b"
  by (simp add: no_nul_def)

lemma no_nul_dec [simp]: "no_nul (nat_dec n)"
  unfolding no_nul_def using nat_dec_digits digit_not(4) by metis

lemma print_u_length: "length (print_u (w :: 32 word)) \<le> 10"
  unfolding print_u_def using unsigned_less [of w, where 'a = nat] by (intro length_nat_dec) simp_all

text \<open>
  The server understands the client of the same library. A DESCRIBE request printed by
  \<open>buildDescribeReq\<close> for a URL with address (below 16 characters), port and suffix (below 64), into a large
  enough array, is accepted by \<open>parseRequest\<close> in one call when it is all that is in the buffer: the call
  answers true, consumes everything, is complete, and returns the method, the URL, its address and
  suffix and the sequence number of the client.
\<close>

theorem RtspRequest_describe_roundtrip:
  assumes "buffer_ok b" "url_ok ip port suffix" "rp_rtspUrl p = rtsp_url ip port suffix"
    and "no_nul (rp_userAgent p)" "length (rp_userAgent p) + 256 \<le> bufSize"
    and "content b = fst (RtspResponse_buildDescribeReq bufSize p)"
  shows "\<exists>b' r'. RtspRequest_parseRequest b (RtspRequest_reset r) = Inr (True, b', r') \<and> buffer_ok b' \<and> content b' = [] \<and>
    RtspRequest_gotAll r' \<and> rq_method r' = DESCRIBE \<and> RtspRequest_getCSeq r' = rp_cseq p + 1 \<and>
    RtspRequest_getRtspUrl r' = rp_rtspUrl p \<and> RtspRequest_getIp r' = ip \<and> RtspRequest_getRtspUrlSuffix r' = suffix"
proof -
  let ?n = "unat (rp_cseq p + 1)"
  let ?rest = "''Accept: application/sdp'' @ kCRLF @ ''User-Agent: '' @ rp_userAgent p @ kCRLF"
  let ?hs = "''CSeq: '' @ nat_dec ?n @ kCRLF @ ?rest"
  have "length (rtsp_url ip port suffix) < 128" "length (nat_dec ?n) \<le> 10"
    using rtsp_url_word(4) [OF assms(2)] print_u_length [of "rp_cseq p + 1"] by (simp_all add: print_u_def)
  moreover have "cstr (rp_rtspUrl p) = rtsp_url ip port suffix" "cstr (rp_userAgent p) = rp_userAgent p"
    using assms(3,4) rtsp_url_word(2) [OF assms(2)] by (simp_all add: cstr_noop no_nul_def)
  ultimately have "content b = (''DESCRIBE'' @ '' '' @ rtsp_url ip port suffix @ '' RTSP/1.0'') @ kCRLF @ ?hs @ kCRLF"
    using assms(5,6) by (simp add: RtspResponse_buildDescribeReq_def snprintf_def print_u_def kCRLF_def)
  moreover have "no_nul ?hs"
    using assms(4) no_nul_dec [of ?n] by (simp add: no_nul_def kCRLF_def)
  moreover have "RtspRequest_parseAccept ?hs"
    using rfind_sub_occurs [of "''Accept''" "''CSeq: '' @ nat_dec ?n @ kCRLF"] rfind_sub_occurs [of "''sdp''" "''CSeq: '' @ nat_dec ?n @ kCRLF @ ''Accept: application/''"]
    by (simp add: RtspRequest_parseAccept_def)
  moreover have "?n < 2 ^ 32" using unsigned_less [of "rp_cseq p + 1", where 'a = nat] by simp
  ultimately show ?thesis
    using parseRequest_text [OF assms(1) _ assms(2), of "''DESCRIBE''" ?hs ?n ?rest r] assms(3)
    by (fastforce simp: method_of_def line_params_def RtspRequest_getRtspUrl_def RtspRequest_getIp_def
        RtspRequest_getRtspUrlSuffix_def param_str_def)
qed

definition demo_client :: RtspResponse where
  "demo_client = RtspResponse_setUserAgent ''ideal'' (RtspResponse_setRtspUrl (rtsp_url ''10.0.0.1'' 554 ''live'')
     \<lparr>rp_method = R_NONE, rp_cseq = 0, rp_userAgent = '''', rp_rtspUrl = '''', rp_session = ''''\<rparr>)"

definition demo_request :: RtspRequest where
  "demo_request = RtspRequest_reset \<lparr>rq_method = METHOD_NONE, rq_channelId = channel_0, rq_transport = RTP_OVER_TCP,
     rq_requestLineParam = Map.empty, rq_headerLineParam = Map.empty, rq_state = kParseRequestLine\<rparr>"

theorem RtspRequest_describe_roundtrip_witness:
  "\<exists>b' r'. RtspRequest_parseRequest (buffer_of (fst (RtspResponse_buildDescribeReq 2048 demo_client))) (RtspRequest_reset demo_request)
      = Inr (True, b', r') \<and> buffer_ok b' \<and> content b' = [] \<and>
    RtspRequest_gotAll r' \<and> rq_method r' = DESCRIBE \<and> RtspRequest_getCSeq r' = rp_cseq demo_client + 1 \<and>
    RtspRequest_getRtspUrl r' = rp_rtspUrl demo_client \<and> RtspRequest_getIp r' = ''10.0.0.1'' \<and> RtspRequest_getRtspUrlSuffix r' = ''live''"
proof (rule RtspRequest_describe_roundtrip)
  show "url_ok ''10.0.0.1'' 554 ''live''" by (simp add: url_ok_def word_ok_def isspace_def)
qed (simp_all add: buffer_of_ok demo_client_def RtspResponse_setUserAgent_def RtspResponse_setRtspUrl_def no_nul_def)

text \<open>
  A URL without a port, an address of 16 bytes. \<open>parseRequestLine\<close> tries the format with a port first, and
  its \<open>%[^:]\<close> has no width: when the URL behind \<open>rtsp://\<close> has no colon and 16 characters or more (the
  first lines of this kind a player sends, such as \<open>rtsp://192.168.1.100/live\<close>), the whole of it is
  written into the 16 bytes of \<open>ip\<close>, past their end.
\<close>

theorem RtspRequest_parseRequestLine_overflow:
  assumes "method_of meth \<noteq> METHOD_NONE" "word_ok meth" "length meth < 32" "no_nul meth"
    and "word_ok rest" "no_nul rest" "CHR '':'' \<notin> set rest" "16 \<le> length rest" "length rest < 121"
  shows "RtspRequest_parseRequestLine (meth @ '' '' @ ''rtsp://'' @ rest @ '' RTSP/1.0'') r = Inl OutOfRange"
proof -
  let ?url = "''rtsp://'' @ rest"
  have w: "word_ok ?url" using assms(5) by (simp add: word_ok_def isspace_def)
  have nul: "cstr (meth @ '' '' @ ''rtsp://'' @ rest @ '' RTSP/1.0'') = meth @ CHR 0x20 # ?url @ CHR 0x20 # ''RTSP/1.0'' @ []"
    using assms(4,6) by (subst cstr_noop) (auto simp: no_nul_def)
  have "sscanf [Str 16] (''RTSP/1.0'' @ []) = Inr [Text ''RTSP/1.0'']"
    by (subst scan_Str) (simp_all add: stops_def word_ok_def isspace_def)
  then have "sscanf [Str 128, Blank, Str 16] (?url @ CHR 0x20 # ''RTSP/1.0'' @ []) = Inr [Text ?url, Text ''RTSP/1.0'']"
    using w assms(9) by (subst scan_Str) (simp_all add: stops_def scan_Blank isspace_def)
  then have "sscanf [Str 32, Blank, Str 128, Blank, Str 16] (cstr (meth @ '' '' @ ''rtsp://'' @ rest @ '' RTSP/1.0''))
      = Inr [Text meth, Text ?url, Text ''RTSP/1.0'']"
    unfolding nul using assms(2,3) by (subst scan_Str) (simp_all add: stops_def scan_Blank isspace_def)
  moreover have "parse_url 16 64 (rest @ []) = Inl OutOfRange"
    using assms(7,8) unfolding parse_url_def by (subst scan_NotSet) (auto simp: stops_def)
  ultimately show ?thesis
    using assms(1) by (simp add: RtspRequest_parseRequestLine_def Let_def)
qed

theorem RtspRequest_parseRequestLine_overflow_witness:
  "RtspRequest_parseRequestLine (''DESCRIBE'' @ '' '' @ ''rtsp://'' @ ''192.168.1.100/live'' @ '' RTSP/1.0'') demo_request
     = Inl OutOfRange"
  by (rule RtspRequest_parseRequestLine_overflow) (simp_all add: method_of_def word_ok_def isspace_def no_nul_def)

end
