(* ===== verification/Media_Session.thy ===== *)
theory Media_Session
  imports Media_Rtp
begin

text \<open>
  Media sessions and the server's table of them: \<open>MediaSession.h\<close>, \<open>MediaSession.cc\<close>, \<open>RtspServer.h\<close> and
  \<open>RtspServer.cc\<close> of \<open>ideal/media\<close> (the RTSP dialogue itself is in the theories of messages and
  connections).

  RTP connections are objects on a heap: an address and, if the object is alive, the RTP connection
  with the TCP connection its weak pointer leads to. A session keeps weak pointers to its clients,
  in the order of their descriptors. The callback it installs in its source copies each packet for
  every client; copies of clients with different names are different objects, and the names of
  connections are unique, so packets are passed by value. Writing to the socket of client \<open>i\<close> is
  \<open>write i\<close>, and \<open>junk\<close> is uninitialised memory.

  The table of sessions maps an identifier to a pointer that may be null, because
  \<open>operator[]\<close> in \<open>lookMediaSession\<close> inserts a null pointer for an unknown identifier.
\<close>

section \<open>Sessions\<close>

type_synonym oid = nat
type_synonym rtp_heap = "oid \<rightharpoonup> RtpConnection \<times> TcpConnection option"

record MediaSession =
  ms_sessionId :: "32 word"
  ms_suffix :: string
  ms_sdp :: string
  ms_sources :: "MediaChannelId \<Rightarrow> H264Source option"
  ms_clients :: "(int \<times> oid) list"
  ms_notify :: bool
  ms_notified :: "nat list"  \<comment> \<open>ghost: the numbers the notify callback was called with\<close>

text \<open>The static counter \<open>_lastMediaSessionId\<close> is an argument and a result.\<close>

definition MediaSession_creatNew :: "string \<Rightarrow> 32 word \<Rightarrow> MediaSession \<times> 32 word" where
  "MediaSession_creatNew rtspUrlSuffix lastId =
     (\<lparr>ms_sessionId = lastId + 1, ms_suffix = rtspUrlSuffix, ms_sdp = '''', ms_sources = (\<lambda>_. None),
       ms_clients = [], ms_notify = False, ms_notified = []\<rparr>, lastId + 1)"

definition MediaSession_addMediaSource :: "MediaChannelId \<Rightarrow> H264Source \<Rightarrow> MediaSession \<Rightarrow> MediaSession" where
  "MediaSession_addMediaSource ch src m = m\<lparr>ms_sources := (ms_sources m)(ch := Some src)\<rparr>"

definition MediaSession_removeMediaSource :: "MediaChannelId \<Rightarrow> MediaSession \<Rightarrow> MediaSession" where
  "MediaSession_removeMediaSource ch m = m\<lparr>ms_sources := (ms_sources m)(ch := None)\<rparr>"

definition MediaSession_getMediaSource :: "MediaChannelId \<Rightarrow> MediaSession \<Rightarrow> H264Source option" where
  "MediaSession_getMediaSource ch m = ms_sources m ch"

definition MediaSession_setRtspUrlSuffix :: "string \<Rightarrow> MediaSession \<Rightarrow> MediaSession" where
  "MediaSession_setRtspUrlSuffix suffix m = m\<lparr>ms_suffix := suffix\<rparr>"

definition MediaSession_getNumClient :: "MediaSession \<Rightarrow> 32 word" where
  "MediaSession_getNumClient m = of_nat (length (ms_clients m))"

definition ms_notifyCallback :: "MediaSession \<Rightarrow> MediaSession" where
  "ms_notifyCallback m = (if ms_notify m then m\<lparr>ms_notified := ms_notified m @ [length (ms_clients m)]\<rparr> else m)"

text \<open>\<open>std::map\<close> by descriptor: \<open>emplace\<close> keeps the order of the keys.\<close>

fun map_emplace :: "int \<Rightarrow> 'v \<Rightarrow> (int \<times> 'v) list \<Rightarrow> (int \<times> 'v) list" where
  "map_emplace k v [] = [(k, v)]"
| "map_emplace k v ((k', v') # kvs) =
     (if k < k' then (k, v) # (k', v') # kvs else if k = k' then (k', v') # kvs else (k', v') # map_emplace k v kvs)"

definition MediaSession_addClient :: "int \<Rightarrow> oid \<Rightarrow> MediaSession \<Rightarrow> bool \<times> MediaSession" where
  "MediaSession_addClient rtspfd rtpConn m =
     (if map_of (ms_clients m) rtspfd = None
      then (True, ms_notifyCallback (m\<lparr>ms_clients := map_emplace rtspfd rtpConn (ms_clients m)\<rparr>))
      else (False, m))"

definition MediaSession_removeClient :: "int \<Rightarrow> MediaSession \<Rightarrow> MediaSession" where
  "MediaSession_removeClient rtspfd m =
     (if map_of (ms_clients m) rtspfd \<noteq> None
      then ms_notifyCallback (m\<lparr>ms_clients := filter (\<lambda>(fd, _). fd \<noteq> rtspfd) (ms_clients m)\<rparr>)
      else m)"

text \<open>\<open>getSdpMessage\<close>; the clock (seconds) and the local address are arguments.\<close>

definition sdp_source :: "nat \<Rightarrow> H264Source option \<Rightarrow> string \<Rightarrow> string" where
  "sdp_source chn src buf =
     (case src of
        None \<Rightarrow> buf
      | Some _ \<Rightarrow>
          bprintf 1024 (bprintf 1024 (bprintf 1024 buf
            (H264Source_getMediaDescription 0 @ kCRLF)) (H264Source_getAttribute @ kCRLF))
            (''a=control:track'' @ nat_dec chn @ kCRLF))"

definition MediaSession_getSdpMessage :: "nat \<Rightarrow> string \<Rightarrow> string \<Rightarrow> MediaSession \<Rightarrow> string \<times> MediaSession" where
  "MediaSession_getSdpMessage time ip sessionName m =
     (if ms_sdp m \<noteq> '''' then (ms_sdp m, m)
      else
        (let buf = snprintf 1024 (''v=0'' @ kCRLF @ ''o=- 9'' @ nat_dec time @ '' 1 IN IP4 '' @ ip @ kCRLF @
                     ''t= 0 0'' @ kCRLF @ ''a= control:*'' @ kCRLF);
             buf = (if sessionName \<noteq> '''' then bprintf 1024 buf (''s='' @ sessionName @ kCRLF) else buf);
             buf = sdp_source 1 (ms_sources m channel_1) (sdp_source 0 (ms_sources m channel_0) buf)
         in (buf, m\<lparr>ms_sdp := buf\<rparr>)))"

section \<open>Frames to clients\<close>

text \<open>The first loop of the callback: live clients and their copies; dead ones are erased.\<close>

definition copy_packet :: "(nat \<Rightarrow> byte) \<Rightarrow> RtpPacket \<Rightarrow> RtpPacket result" where
  "copy_packet junk pkt =
     bindR (mem_read (pk_data pkt) 0 (unat (pk_size pkt))) (\<lambda>bs.
     bindR (mem_write 0 bs (pk_data (RtpPacket_new junk))) (\<lambda>d.
     Inr \<lparr>pk_data = d, pk_size = pk_size pkt, pk_timestamp = pk_timestamp pkt, pk_type = pk_type pkt,
          pk_last = pk_last pkt\<rparr>))"

definition alive :: "rtp_heap \<Rightarrow> int \<times> oid \<Rightarrow> bool" where
  "alive h client \<longleftrightarrow> h (snd client) \<noteq> None"

definition client_id :: "rtp_heap \<Rightarrow> oid \<Rightarrow> string" where
  "client_id h i = (case h i of None \<Rightarrow> '''' | Some (_, tcpConn) \<Rightarrow> RtpConnection_getId tcpConn)"

fun collect_packets :: "(oid \<Rightarrow> nat \<Rightarrow> byte) \<Rightarrow> RtpPacket \<Rightarrow> rtp_heap \<Rightarrow> oid list \<Rightarrow> (string \<rightharpoonup> RtpPacket) \<Rightarrow>
    (string \<rightharpoonup> RtpPacket) result" where
  "collect_packets junk pkt h [] packets = Inr packets"
| "collect_packets junk pkt h (i # is) packets =
     (let name = client_id h i in
      if name = '''' \<or> packets name \<noteq> None then collect_packets junk pkt h is packets
      else bindR (copy_packet (junk i) pkt) (\<lambda>tmpPkt. collect_packets junk pkt h is (packets(name \<mapsto> tmpPkt))))"

text \<open>The second loop: every listed client is sent its copy.\<close>

definition send_client ::
  "(oid \<Rightarrow> write_call) \<Rightarrow> (byte list \<Rightarrow> int) \<Rightarrow> int \<Rightarrow> MediaChannelId \<Rightarrow> (string \<rightharpoonup> RtpPacket) \<Rightarrow> oid \<Rightarrow>
   rtp_heap \<Rightarrow> rtp_heap result" where
  "send_client write sendto tid ch packets i h =
     (case h i of
        None \<Rightarrow> Inr h
      | Some st \<Rightarrow>
          (let name = client_id h i in
           if name = '''' then Inr h
           else case packets name of
                  None \<Rightarrow> Inr h
                | Some p \<Rightarrow>
                    bindR (RtpConnection_sendRtpPacket (write i) sendto tid ch p st) (\<lambda>(_, st). Inr (h(i \<mapsto> st)))))"

definition broadcast ::
  "(oid \<Rightarrow> write_call) \<Rightarrow> (byte list \<Rightarrow> int) \<Rightarrow> int \<Rightarrow> (oid \<Rightarrow> nat \<Rightarrow> byte) \<Rightarrow> (MediaSession \<times> rtp_heap) send_callback" where
  "broadcast write sendto tid junk ch pkt st =
     (let (m, h) = st;
          clients = filter (alive h) (ms_clients m);
          rtpConnList = rev (filter (\<lambda>i. client_id h i \<noteq> '''') (map snd clients)) in
      bindR (collect_packets junk pkt h (map snd clients) Map.empty) (\<lambda>packets.
      bindR (foldR (send_client write sendto tid ch packets) rtpConnList h) (\<lambda>h.
      Inr (True, m\<lparr>ms_clients := clients\<rparr>, h))))"

definition MediaSession_handleFrame ::
  "(oid \<Rightarrow> write_call) \<Rightarrow> (byte list \<Rightarrow> int) \<Rightarrow> int \<Rightarrow> (oid \<Rightarrow> nat \<Rightarrow> byte) \<Rightarrow> (nat \<Rightarrow> nat \<Rightarrow> byte) \<Rightarrow> int \<Rightarrow>
   MediaChannelId \<Rightarrow> AVFrame \<Rightarrow> MediaSession \<times> rtp_heap \<Rightarrow> (bool \<times> MediaSession \<times> rtp_heap) result" where
  "MediaSession_handleFrame write sendto tid junk junk' now ch frame st =
     (case ms_sources (fst st) ch of
        None \<Rightarrow> Inr (False, st)
      | Some _ \<Rightarrow>
          bindR (H264Source_handleFrame junk' now (Some (broadcast write sendto tid junk)) ch frame st) (\<lambda>(_, st).
          Inr (True, st)))"

section \<open>The table of sessions\<close>

record RtspServer =
  rs_mediaSessions :: "32 word \<rightharpoonup> MediaSession option"
  rs_rtspSuffixMap :: "string \<rightharpoonup> 32 word"

definition RtspServer_addMediaSession :: "MediaSession \<Rightarrow> RtspServer \<Rightarrow> 32 word \<times> RtspServer" where
  "RtspServer_addMediaSession session s =
     (if rs_rtspSuffixMap s (ms_suffix session) \<noteq> None then (0, s)
      else
        (let sessionId = ms_sessionId session;
             s = s\<lparr>rs_rtspSuffixMap := (rs_rtspSuffixMap s)(ms_suffix session \<mapsto> sessionId)\<rparr>
         in (sessionId,
             if rs_mediaSessions s sessionId = None
             then s\<lparr>rs_mediaSessions := (rs_mediaSessions s)(sessionId \<mapsto> Some session)\<rparr> else s)))"

definition RtspServer_removeMediaSession :: "32 word \<Rightarrow> RtspServer \<Rightarrow> RtspServer result" where
  "RtspServer_removeMediaSession sessionId s =
     (case rs_mediaSessions s sessionId of
        None \<Rightarrow> Inr s
      | Some None \<Rightarrow> Inl NullPointer
      | Some (Some m) \<Rightarrow>
          Inr (s\<lparr>rs_rtspSuffixMap := (rs_rtspSuffixMap s)(ms_suffix m := None),
                 rs_mediaSessions := (rs_mediaSessions s)(sessionId := None)\<rparr>))"

definition RtspServer_lookMediaSession_suffix :: "string \<Rightarrow> RtspServer \<Rightarrow> MediaSession option \<times> RtspServer" where
  "RtspServer_lookMediaSession_suffix suffix s =
     (case rs_rtspSuffixMap s suffix of
        None \<Rightarrow> (None, s)
      | Some sid \<Rightarrow>
          (case rs_mediaSessions s sid of
             Some m \<Rightarrow> (m, s)
           | None \<Rightarrow> (None, s\<lparr>rs_mediaSessions := (rs_mediaSessions s)(sid \<mapsto> None)\<rparr>)))"

definition RtspServer_lookMediaSession :: "32 word \<Rightarrow> RtspServer \<Rightarrow> MediaSession option" where
  "RtspServer_lookMediaSession sessionId s = (case rs_mediaSessions s sessionId of Some m \<Rightarrow> m | None \<Rightarrow> None)"

definition RtspServer_pushFrame ::
  "(oid \<Rightarrow> write_call) \<Rightarrow> (byte list \<Rightarrow> int) \<Rightarrow> int \<Rightarrow> (oid \<Rightarrow> nat \<Rightarrow> byte) \<Rightarrow> (nat \<Rightarrow> nat \<Rightarrow> byte) \<Rightarrow> int \<Rightarrow>
   32 word \<Rightarrow> MediaChannelId \<Rightarrow> AVFrame \<Rightarrow> RtspServer \<times> rtp_heap \<Rightarrow> (bool \<times> RtspServer \<times> rtp_heap) result" where
  "RtspServer_pushFrame write sendto tid junk junk' now sessionId ch frame st =
     (let (s, h) = st in
      case rs_mediaSessions s sessionId of
        None \<Rightarrow> Inr (False, st)
      | Some None \<Rightarrow> Inr (False, st)
      | Some (Some m) \<Rightarrow>
          if MediaSession_getNumClient m \<noteq> 0
          then bindR (MediaSession_handleFrame write sendto tid junk junk' now ch frame (m, h)) (\<lambda>(ok, m, h).
               Inr (ok, s\<lparr>rs_mediaSessions := (rs_mediaSessions s)(sessionId \<mapsto> Some m)\<rparr>, h))
          else Inr (False, st))"

section \<open>Copies of a packet\<close>

definition same_packet :: "RtpPacket \<Rightarrow> RtpPacket \<Rightarrow> bool" where
  "same_packet p q \<longleftrightarrow> packet_fits q \<and> payload q = payload p \<and> pk_type q = pk_type p \<and> pk_last q = pk_last p \<and>
     pk_timestamp q = pk_timestamp p"

lemma copy_packet_spec:
  assumes "packet_fits p"
  shows "\<exists>q. copy_packet junk p = Inr q \<and> same_packet p q"
proof -
  have fits: "length (pk_data p) = 1600" "16 \<le> unat (pk_size p)" "unat (pk_size p) \<le> 1600"
    using assms by (simp_all add: packet_fits_def)
  let ?d = "splice 0 (slice 0 (unat (pk_size p)) (pk_data p)) (map junk [0..<1600])"
  have "slice 16 (unat (pk_size p)) ?d = slice 16 (unat (pk_size p)) (slice 0 (unat (pk_size p)) (pk_data p))"
    using fits by (subst slice_splice_within) simp_all
  also have "\<dots> = slice 16 (unat (pk_size p)) (pk_data p)"
    using fits by (simp add: slice_def drop_take)
  finally show ?thesis
    using fits by (simp add: copy_packet_def RtpPacket_new_def same_packet_def packet_fits_def payload_def del: upt_Suc)
qed

lemma collect_packets_spec:
  assumes "\<And>i. i \<in> set is \<Longrightarrow> copy_packet (junk i) pkt = Inr (q i)"
    and "\<And>i. i \<in> set is \<Longrightarrow> client_id h i \<noteq> '''' \<and> P (client_id h i) = None"
    and "distinct (map (client_id h) is)"
  shows "\<exists>P'. collect_packets junk pkt h is P = Inr P' \<and> (\<forall>i\<in>set is. P' (client_id h i) = Some (q i)) \<and>
     (\<forall>n. n \<notin> client_id h ` set is \<longrightarrow> P' n = P n)"
  using assms
proof (induction "is" arbitrary: P)
  case Nil
  then show ?case by simp
next
  case (Cons i "is")
  let ?P = "P(client_id h i \<mapsto> q i)"
  have new: "client_id h j \<noteq> client_id h i" if "j \<in> set is" for j
    using Cons.prems(3) that by (metis distinct.simps(2) image_eqI list.set_map list.simps(9))
  have "\<exists>P'. collect_packets junk pkt h is ?P = Inr P' \<and> (\<forall>j\<in>set is. P' (client_id h j) = Some (q j)) \<and>
      (\<forall>n. n \<notin> client_id h ` set is \<longrightarrow> P' n = ?P n)"
    using Cons.prems new by (intro Cons.IH) simp_all
  then obtain P' where P': "collect_packets junk pkt h is ?P = Inr P'" "\<forall>j\<in>set is. P' (client_id h j) = Some (q j)"
      "\<forall>n. n \<notin> client_id h ` set is \<longrightarrow> P' n = ?P n"
    by blast
  have "P' (client_id h i) = Some (q i)" using P'(3) Cons.prems(3) by simp
  moreover have "collect_packets junk pkt h (i # is) P = Inr P'"
    using P'(1) Cons.prems(1,2) by (simp add: Let_def)
  ultimately show ?case using P'(2,3) by (intro exI [of _ P']) auto
qed

section \<open>Every client gets every frame\<close>

text \<open>A client that is ready: its connection is up and named, and it plays over TCP on the channel.\<close>

definition ready :: "int \<Rightarrow> MediaChannelId \<Rightarrow> byte \<Rightarrow> RtpConnection \<times> TcpConnection option \<Rightarrow> bool" where
  "ready tid ch t st \<longleftrightarrow> (\<exists>r c. st = (r, Some c) \<and> playing ch r \<and> live tid c \<and> tc_name c \<noteq> '''' \<and>
     (rc_hasIDRFrame r \<or> key_frame t))"

definition name_of :: "RtpConnection \<times> TcpConnection option \<Rightarrow> string" where
  "name_of st = RtpConnection_getId (snd st)"

lemma client_id_Some: "h i = Some st \<Longrightarrow> client_id h i = name_of st"
  by (simp add: client_id_def name_of_def split: prod.splits)

lemma send_ready:
  assumes "ready tid ch (pk_type p) st" "packet_fits p" "steady write"
  shows "\<exists>st'. RtpConnection_sendRtpPacket write sendto tid ch p st = Inr (1, st') \<and> ready tid ch (pk_type p) st' \<and>
    name_of st' = name_of st"
proof -
  obtain r c where st: "st = (r, Some c)" "playing ch r" "live tid c" "tc_name c \<noteq> ''''"
      "rc_hasIDRFrame r \<or> key_frame (pk_type p)"
    using assms(1) by (auto simp: ready_def)
  let ?r = "RtpConnection_setFrameType (pk_type p) r"
  obtain c' where c': "RtpConnection_sendRtpPacket write sendto tid ch p (r, Some c) = Inr (1, after_packet ch p ?r, Some c')"
      "live tid c'"
    using send_one [OF st(2,5) assms(2) st(3) assms(3)] by blast
  have s: "sending ch ?r" "rc_transportMode r = RTP_OVER_TCP" "\<not> rc_isClosed r" "tc_threadId c = tid"
    using st by (auto simp: sending_def playing_def live_def)
  then have "TcpConnection_send write tid (to_chars (tcp_frame ch p ?r)) c = Inr c'"
    using c'(1) run_over_tcp [OF assms(2) s(2,1)] by (auto simp: RtpConnection_sendRtpPacket_def Let_def)
  then have name: "tc_name c' = tc_name c" by (rule send_keeps_name)
  have "playing ch ?r" "rc_hasIDRFrame ?r" using st(2,5) by (auto simp: playing_def)
  then have "ready tid ch (pk_type p) (after_packet ch p ?r, Some c')"
    using c'(2) st(4) name by (simp add: ready_def after_packet_fields)
  with name c'(1) st(1) show ?thesis by (auto simp: name_of_def RtpConnection_getId_def)
qed

lemma send_clients:
  assumes "distinct js"
    and "\<And>i. i \<in> set js \<Longrightarrow> \<exists>st. h i = Some st \<and> ready tid ch (pk_type (q i)) st \<and> packets (name_of st) = Some (q i)"
    and "\<And>i. i \<in> set js \<Longrightarrow> packet_fits (q i) \<and> steady (write i)"
  shows "\<exists>h'. foldR (send_client write sendto tid ch packets) js h = Inr h' \<and>
     (\<forall>i\<in>set js. \<exists>st st'. h i = Some st \<and> h' i = Some st' \<and>
        RtpConnection_sendRtpPacket (write i) sendto tid ch (q i) st = Inr (1, st') \<and>
        ready tid ch (pk_type (q i)) st' \<and> name_of st' = name_of st) \<and>
     (\<forall>i. i \<notin> set js \<longrightarrow> h' i = h i)"
  using assms
proof (induction js arbitrary: h)
  case Nil
  then show ?case by simp
next
  case (Cons i js)
  obtain st where st: "h i = Some st" "ready tid ch (pk_type (q i)) st" "packets (name_of st) = Some (q i)"
    using Cons.prems(2) [of i] by auto
  obtain st' where st': "RtpConnection_sendRtpPacket (write i) sendto tid ch (q i) st = Inr (1, st')"
      "ready tid ch (pk_type (q i)) st'" "name_of st' = name_of st"
    using send_ready [OF st(2), of "write i" sendto] Cons.prems(3) [of i] by auto
  have "name_of st \<noteq> ''''" using st(2) by (auto simp: ready_def name_of_def RtpConnection_getId_def)
  then have step: "send_client write sendto tid ch packets i h = Inr (h(i \<mapsto> st'))"
    using st(1,3) st'(1) by (simp add: send_client_def client_id_Some Let_def)
  have "\<exists>h'. foldR (send_client write sendto tid ch packets) js (h(i \<mapsto> st')) = Inr h' \<and>
     (\<forall>k\<in>set js. \<exists>st st'a. (h(i \<mapsto> st')) k = Some st \<and> h' k = Some st'a \<and>
        RtpConnection_sendRtpPacket (write k) sendto tid ch (q k) st = Inr (1, st'a) \<and>
        ready tid ch (pk_type (q k)) st'a \<and> name_of st'a = name_of st) \<and>
     (\<forall>k. k \<notin> set js \<longrightarrow> h' k = (h(i \<mapsto> st')) k)"
    using Cons.prems by (intro Cons.IH) auto
  then obtain h' where h': "foldR (send_client write sendto tid ch packets) js (h(i \<mapsto> st')) = Inr h'"
     "\<And>k. k \<in> set js \<Longrightarrow> \<exists>st st'a. (h(i \<mapsto> st')) k = Some st \<and> h' k = Some st'a \<and>
        RtpConnection_sendRtpPacket (write k) sendto tid ch (q k) st = Inr (1, st'a) \<and>
        ready tid ch (pk_type (q k)) st'a \<and> name_of st'a = name_of st"
     "\<And>k. k \<notin> set js \<Longrightarrow> h' k = (h(i \<mapsto> st')) k" by blast
  have "i \<notin> set js" using Cons.prems(1) by simp
  then have at_i: "h' i = Some st'" using h'(3) by simp
  show ?case
  proof (intro exI [of _ h'] conjI ballI allI impI)
    show "foldR (send_client write sendto tid ch packets) (i # js) h = Inr h'" using step h'(1) by simp
  next
    fix k assume k: "k \<in> set (i # js)"
    show "\<exists>st st'. h k = Some st \<and> h' k = Some st' \<and>
        RtpConnection_sendRtpPacket (write k) sendto tid ch (q k) st = Inr (1, st') \<and>
        ready tid ch (pk_type (q k)) st' \<and> name_of st' = name_of st"
    proof (cases "k = i")
      case True
      then show ?thesis using st(1) st' at_i by auto
    next
      case False
      then show ?thesis using h'(2) [of k] k by auto
    qed
  next
    fix k assume "k \<notin> set (i # js)"
    then show "h' k = h k" using h'(3) [of k] by simp
  qed
qed

definition members :: "MediaSession \<Rightarrow> oid list" where
  "members m = map snd (ms_clients m)"

definition all_ready :: "int \<Rightarrow> MediaChannelId \<Rightarrow> byte \<Rightarrow> MediaSession \<Rightarrow> rtp_heap \<Rightarrow> bool" where
  "all_ready tid ch t m h \<longleftrightarrow> distinct (members m) \<and> distinct (map (client_id h) (members m)) \<and>
     (\<forall>i\<in>set (members m). \<exists>st. h i = Some st \<and> ready tid ch t st)"

lemma ready_named: "ready tid ch t st \<Longrightarrow> name_of st \<noteq> ''''"
  by (auto simp: ready_def name_of_def RtpConnection_getId_def)

lemma all_ready_lists:
  assumes "all_ready tid ch t m h"
  shows "filter (alive h) (ms_clients m) = ms_clients m"
    and "filter (\<lambda>i. client_id h i \<noteq> '''') (members m) = members m"
proof -
  have r: "\<exists>st. h i = Some st \<and> ready tid ch t st" if "i \<in> set (members m)" for i
    using assms that by (simp add: all_ready_def)
  have "client_id h i \<noteq> ''''" if "i \<in> set (members m)" for i
    using r [OF that] client_id_Some ready_named by metis
  then show "filter (\<lambda>i. client_id h i \<noteq> '''') (members m) = members m" by (intro filter_True) blast
  have "alive h x" if "x \<in> set (ms_clients m)" for x
    using r [of "snd x"] that by (auto simp: alive_def members_def)
  then show "filter (alive h) (ms_clients m) = ms_clients m" by (intro filter_True) blast
qed

text \<open>One packet: every client sends a copy of it, and stays ready.\<close>

lemma broadcast_all:
  assumes "all_ready tid ch (pk_type p) m h" "packet_fits p" "\<And>i. steady (write i)"
  shows "\<exists>h' q. broadcast write sendto tid junk ch p (m, h) = Inr (True, m, h') \<and>
     all_ready tid ch (pk_type p) m h' \<and> (\<forall>i\<in>set (members m). same_packet p (q i) \<and>
        (\<exists>st st'. h i = Some st \<and> h' i = Some st' \<and>
          RtpConnection_sendRtpPacket (write i) sendto tid ch (q i) st = Inr (1, st')))"
proof -
  obtain q where q: "\<And>i. copy_packet (junk i) p = Inr (q i)" "\<And>i. same_packet p (q i)"
  proof -
    have "\<forall>i. \<exists>q. copy_packet (junk i) p = Inr q \<and> same_packet p q" using copy_packet_spec [OF assms(2)] by blast
    then show thesis using that by metis
  qed
  have fits: "packet_fits (q i)" "pk_type (q i) = pk_type p" for i using q(2) [of i] by (simp_all add: same_packet_def)
  have r: "distinct (members m)" "distinct (map (client_id h) (members m))"
    "\<And>i. i \<in> set (members m) \<Longrightarrow> \<exists>st. h i = Some st \<and> ready tid ch (pk_type p) st"
    using assms(1) by (auto simp: all_ready_def)
  have "client_id h i \<noteq> ''''" if "i \<in> set (members m)" for i
    using r(3) [OF that] by (auto simp: client_id_Some dest: ready_named)
  then obtain P where P: "collect_packets junk p h (members m) Map.empty = Inr P"
      "\<And>i. i \<in> set (members m) \<Longrightarrow> P (client_id h i) = Some (q i)"
    using collect_packets_spec [of "members m" junk p q h Map.empty] q(1) r(2) by auto
  have "\<exists>st. h i = Some st \<and> ready tid ch (pk_type (q i)) st \<and> P (name_of st) = Some (q i)" if "i \<in> set (members m)" for i
    using r(3) [OF that] P(2) [OF that] fits(2) by (auto simp: client_id_Some)
  then obtain h' where h': "foldR (send_client write sendto tid ch P) (rev (members m)) h = Inr h'"
     "\<And>i. i \<in> set (members m) \<Longrightarrow> \<exists>st st'. h i = Some st \<and> h' i = Some st' \<and>
        RtpConnection_sendRtpPacket (write i) sendto tid ch (q i) st = Inr (1, st') \<and>
        ready tid ch (pk_type p) st' \<and> name_of st' = name_of st"
    using send_clients [of "rev (members m)" h tid ch q P "write" sendto] r(1) fits assms(3) by auto
  have "map (client_id h') (members m) = map (client_id h) (members m)"
    using h'(2) client_id_Some by (intro map_cong) (metis, metis)
  then have "all_ready tid ch (pk_type p) m h'"
    unfolding all_ready_def using r(1,2) h'(2) by metis
  moreover have "broadcast write sendto tid junk ch p (m, h) = Inr (True, m, h')"
    using P(1) h'(1) all_ready_lists [OF assms(1)] by (simp add: broadcast_def members_def)
  ultimately show ?thesis using q(2) h'(2) by blast
qed

text \<open>A list of packets: each client sends copies of them all, in order.\<close>

lemma deliver_all:
  assumes "all_ready tid ch t m h" "\<forall>p\<in>set ps. packet_fits p \<and> pk_type p = t" "\<And>i. steady (write i)"
  shows "\<exists>h'. deliver (Some (broadcast write sendto tid junk)) ch ps (m, h) = Inr (True, m, h') \<and>
     (\<forall>i\<in>set (members m). \<exists>st st' qs. h i = Some st \<and> h' i = Some st' \<and> list_all2 same_packet ps qs \<and>
        sendRtpPackets (write i) sendto tid ch qs st = Inr st')"
  using assms(1,2)
proof (induction ps arbitrary: h)
  case Nil
  then show ?case by (auto simp: sendRtpPackets_def all_ready_def)
next
  case (Cons p ps)
  obtain h1 q where h1: "broadcast write sendto tid junk ch p (m, h) = Inr (True, m, h1)" "all_ready tid ch t m h1"
      "\<And>i. i \<in> set (members m) \<Longrightarrow> same_packet p (q i) \<and> (\<exists>st st'. h i = Some st \<and> h1 i = Some st' \<and>
          RtpConnection_sendRtpPacket (write i) sendto tid ch (q i) st = Inr (1, st'))"
  proof -
    have p: "packet_fits p" "pk_type p = t" using Cons.prems(2) by simp_all
    then show thesis
      using broadcast_all [of tid ch p m h "write" sendto junk] Cons.prems(1) assms(3) that by blast
  qed
  obtain h' where h': "deliver (Some (broadcast write sendto tid junk)) ch ps (m, h1) = Inr (True, m, h')"
     "\<And>i. i \<in> set (members m) \<Longrightarrow> \<exists>st st' qs. h1 i = Some st \<and> h' i = Some st' \<and> list_all2 same_packet ps qs \<and>
        sendRtpPackets (write i) sendto tid ch qs st = Inr st'"
    using Cons.IH [OF h1(2)] Cons.prems(2) by auto
  have "\<exists>st st' qs. h i = Some st \<and> h' i = Some st' \<and> list_all2 same_packet (p # ps) qs \<and>
        sendRtpPackets (write i) sendto tid ch qs st = Inr st'" if i: "i \<in> set (members m)" for i
  proof -
    obtain st st1 where a: "same_packet p (q i)" "h i = Some st" "h1 i = Some st1"
        "RtpConnection_sendRtpPacket (write i) sendto tid ch (q i) st = Inr (1, st1)"
      using h1(3) [OF i] by blast
    obtain st' qs where b: "h' i = Some st'" "list_all2 same_packet ps qs" "sendRtpPackets (write i) sendto tid ch qs st1 = Inr st'"
      using h'(2) [OF i] a(3) by auto
    have "sendRtpPackets (write i) sendto tid ch (q i # qs) st = Inr st'"
      using a(4) b(3) by (simp add: sendRtpPackets_def)
    then show ?thesis using a(1,2) b(1,2) by (intro exI [of _ st] exI [of _ st'] exI [of _ "q i # qs"]) simp
  qed
  then show ?case using h1(1) h'(1) by (simp add: sendFrameCallback_def)
qed

fun view_payload :: "byte \<times> rtp_view \<Rightarrow> byte list" where
  "view_payload (c, m, pt, seq, ts, ssrc, pl) = pl"

lemma map_view_payload: "map view_payload (views c pt ssrc seq ps) = map payload ps"
  by (induction c pt ssrc seq ps rule: views.induct) simp_all

lemma same_packets_payload: "list_all2 same_packet ps qs \<Longrightarrow> map payload qs = map payload ps"
  by (induction rule: list_all2_induct) (simp_all add: same_packet_def)

lemma same_packets_fit: "list_all2 same_packet ps qs \<Longrightarrow> \<forall>q\<in>set qs. packet_fits q"
  by (induction rule: list_all2_induct) (simp_all add: same_packet_def)

lemma same_packets_head: "list_all2 same_packet ps qs \<Longrightarrow> qs \<noteq> [] \<Longrightarrow> pk_type (hd qs) = pk_type (hd ps)"
  by (cases qs) (auto simp: list_all2_Cons2 same_packet_def)

text \<open>What one client's peer has received of a frame.\<close>

definition got_frame ::
  "byte list \<Rightarrow> RtpConnection \<times> TcpConnection option \<Rightarrow> RtpConnection \<times> TcpConnection option \<Rightarrow> bool" where
  "got_frame buffer st st' \<longleftrightarrow> (\<exists>r c r' c' bs vs. st = (r, Some c) \<and> st' = (r', Some c') \<and>
     tc_accepted c' = tc_accepted c @ to_chars bs \<and> receive bs = Some vs \<and>
     depacketize (map view_payload vs) = Some buffer)"

lemma frame_through_connection:
  assumes "ready tid ch t st" "list_all2 same_packet ps qs" "\<forall>p\<in>set ps. pk_type p = t"
    and "depacketize (map payload ps) = Some buffer" "steady write"
    and "sendRtpPackets write sendto tid ch qs st = Inr st'"
  shows "got_frame buffer st st'"
proof -
  obtain r c where st: "st = (r, Some c)" "playing ch r" "live tid c" "rc_hasIDRFrame r \<or> key_frame t"
    using assms(1) by (auto simp: ready_def)
  have "qs \<noteq> [] \<longrightarrow> pk_type (hd qs) = t"
    using same_packets_head [OF assms(2)] assms(2,3) by (cases ps) auto
  then have "rc_hasIDRFrame r \<or> (qs \<noteq> [] \<longrightarrow> key_frame (pk_type (hd qs)))" using st(4) by auto
  then obtain r' c' bs where s: "sendRtpPackets write sendto tid ch qs (r, Some c) = Inr (r', Some c')"
      "tc_accepted c' = tc_accepted c @ to_chars bs" "receive bs = Some (view_of ch r qs)"
    using send_stream [OF st(2) _ same_packets_fit [OF assms(2)] st(3) assms(5)] by blast
  have "map view_payload (view_of ch r qs) = map payload ps"
    by (simp add: view_of_def map_view_payload same_packets_payload [OF assms(2)])
  moreover have "st' = (r', Some c')" using s(1) assms(6) st(1) by simp
  ultimately show ?thesis using s(2,3) assms(4) st(1) unfolding got_frame_def by metis
qed

section \<open>Properties\<close>

text \<open>
  C4. A frame pushed into a session reaches every client: when all clients of the session are
  connected and play over TCP (and have had a key frame, or this is one), \<open>pushFrame\<close> succeeds, and
  the bytes each client's connection accepts for sending decode, by the interleaving of RFC 2326,
  the RTP header of RFC 3550 and the fragmentation of RFC 3984, to exactly the frame.
\<close>

theorem RtspServer_pushFrame_delivers:
  assumes "rs_mediaSessions s sessionId = Some (Some m)" "ms_sources m ch \<noteq> None" "ms_clients m \<noteq> []"
    and "length (ms_clients m) < 2 ^ 32" "all_ready tid ch (fr_type frame) m h" "\<forall>i. steady (write i)"
    and "length (fr_buffer frame) = unat (fr_size frame)" "unat (fr_size frame) + 1 < 2 ^ 32"
    and "fr_buffer frame \<noteq> []" "nal_type (hd (fr_buffer frame)) \<noteq> 28"
  shows "\<exists>s' h'. RtspServer_pushFrame write sendto tid junk junk' now sessionId ch frame (s, h) = Inr (True, s', h') \<and>
    (\<forall>i\<in>set (members m). \<exists>st st'. h i = Some st \<and> h' i = Some st' \<and> got_frame (fr_buffer frame) st st')"
proof -
  let ?cb = "broadcast write sendto tid junk"
  have stamped: "fr_buffer (stamp now frame) = fr_buffer frame" "fr_size (stamp now frame) = fr_size frame"
    "fr_type (stamp now frame) = fr_type frame" by (simp_all add: stamp_def)
  obtain ps p where ps: "\<forall>(cb :: (MediaSession \<times> rtp_heap) send_callback option) st.
        H264Source_handleFrame junk' now cb ch frame st = deliver cb ch (ps @ [p]) st"
      "depacketize (map payload (ps @ [p])) = Some (fr_buffer frame)" "\<forall>q\<in>set (ps @ [p]). packet_ok (stamp now frame) q"
    using handleFrame_packets [OF assms(7-10), of junk' now ch, where ?'s = "MediaSession \<times> rtp_heap"] by blast
  have fit: "\<forall>q\<in>set (ps @ [p]). packet_fits q \<and> pk_type q = fr_type frame"
  proof
    fix q assume "q \<in> set (ps @ [p])"
    then have "packet_ok (stamp now frame) q" using ps(3) by blast
    then show "packet_fits q \<and> pk_type q = fr_type frame" using stamped(3) by (simp add: packet_ok_def packet_fits_def)
  qed
  have w: "\<And>i. steady (write i)" using assms(6) by blast
  obtain h' where h': "deliver (Some ?cb) ch (ps @ [p]) (m, h) = Inr (True, m, h')"
     "\<And>i. i \<in> set (members m) \<Longrightarrow> \<exists>st st' qs. h i = Some st \<and> h' i = Some st' \<and> list_all2 same_packet (ps @ [p]) qs \<and>
        sendRtpPackets (write i) sendto tid ch qs st = Inr st'"
    using deliver_all [of tid ch "fr_type frame" m h "ps @ [p]" "write" sendto junk, OF assms(5) fit w] by blast
  have "\<exists>st st'. h i = Some st \<and> h' i = Some st' \<and> got_frame (fr_buffer frame) st st'" if i: "i \<in> set (members m)" for i
  proof -
    obtain st st' qs where st: "h i = Some st" "h' i = Some st'" "list_all2 same_packet (ps @ [p]) qs"
        "sendRtpPackets (write i) sendto tid ch qs st = Inr st'"
      using h'(2) [OF i] by blast
    have "ready tid ch (fr_type frame) st" using assms(5) i st(1) by (force simp: all_ready_def)
    then have "got_frame (fr_buffer frame) st st'"
      using frame_through_connection [OF _ st(3) _ ps(2) _ st(4)] fit assms(6) by blast
    with st(1,2) show ?thesis by blast
  qed
  moreover have "MediaSession_getNumClient m \<noteq> 0"
    using assms(3,4) by (simp add: MediaSession_getNumClient_def unat_of_nat word_unat_eq_iff)
  moreover have "MediaSession_handleFrame write sendto tid junk junk' now ch frame (m, h) = Inr (True, m, h')"
    using assms(2) ps(1) h'(1) by (auto simp: MediaSession_handleFrame_def)
  ultimately show ?thesis
    using assms(1) by (simp add: RtspServer_pushFrame_def)
qed

definition demo_session :: MediaSession where
  "demo_session = (fst (MediaSession_creatNew ''live'' 1))\<lparr>ms_sources := (\<lambda>_. Some (H264Source_createNew 25)),
     ms_clients := [(5, 0)]\<rparr>"

definition demo_table :: RtspServer where
  "demo_table = \<lparr>rs_mediaSessions = [2 \<mapsto> Some demo_session], rs_rtspSuffixMap = [''live'' \<mapsto> 2]\<rparr>"

definition demo_heap :: rtp_heap where
  "demo_heap = [0 \<mapsto> (demo_rtp, Some demo_conn)]"

theorem RtspServer_pushFrame_delivers_witness:
  "\<exists>s' h' st'. RtspServer_pushFrame (\<lambda>_. demo_write) (\<lambda>_. 0) 7 (\<lambda>_ _. 0) (\<lambda>_ _. 0) 0 2 channel_0 demo_frame
      (demo_table, demo_heap) = Inr (True, s', h') \<and>
     h' 0 = Some st' \<and> got_frame [0x65, 1, 2, 3] (demo_rtp, Some demo_conn) st'"
proof -
  have "tc_name demo_conn = ''c''"
    by (simp add: demo_conn_def TcpConnection_new_def tc_emit_def tc_events_def)
  then have "ready 7 channel_0 (fr_type demo_frame) (demo_rtp, Some demo_conn)"
    using demo_rtp_playing(1) demo_live(1) by (simp add: ready_def demo_frame_def key_frame_def VIDEO_FRAME_I_def)
  then have "all_ready 7 channel_0 (fr_type demo_frame) demo_session demo_heap"
    by (simp add: all_ready_def members_def demo_session_def demo_heap_def)
  moreover have "length (fr_buffer demo_frame) = unat (fr_size demo_frame)" "unat (fr_size demo_frame) + 1 < 2 ^ 32"
    "fr_buffer demo_frame \<noteq> []" "nal_type (hd (fr_buffer demo_frame)) \<noteq> 28" "fr_buffer demo_frame = [0x65, 1, 2, 3]"
    by (simp_all add: demo_frame_def nal_type_def)
  moreover have "rs_mediaSessions demo_table 2 = Some (Some demo_session)" "ms_sources demo_session channel_0 \<noteq> None"
    "ms_clients demo_session \<noteq> []" "length (ms_clients demo_session) < 2 ^ 32" "0 \<in> set (members demo_session)"
    "demo_heap 0 = Some (demo_rtp, Some demo_conn)"
    by (simp_all add: demo_table_def demo_session_def members_def demo_heap_def)
  ultimately show ?thesis
    using RtspServer_pushFrame_delivers [of demo_table 2 demo_session channel_0 7 demo_frame demo_heap "\<lambda>_. demo_write"
        "\<lambda>_. 0" "\<lambda>_ _. 0" "\<lambda>_ _. 0" 0] demo_live(2) by (metis option.inject)
qed

section \<open>The tables\<close>

text \<open>
  The two tables of the server agree: every suffix leads to the session that has it, and every
  session is found by its suffix and is stored under its own identifier.
\<close>

definition table_ok :: "RtspServer \<Rightarrow> bool" where
  "table_ok s \<longleftrightarrow>
     (\<forall>suffix sid. rs_rtspSuffixMap s suffix = Some sid \<longrightarrow>
        (\<exists>m. rs_mediaSessions s sid = Some (Some m) \<and> ms_suffix m = suffix)) \<and>
     (\<forall>sid m. rs_mediaSessions s sid = Some m \<longrightarrow>
        (\<exists>m'. m = Some m' \<and> ms_sessionId m' = sid \<and> rs_rtspSuffixMap s (ms_suffix m') = Some sid))"

text \<open>
  What the RTSP dialogue needs of the table of sessions: looking up by suffix and by identifier
  agree, a registered session is found, a removed one is not, and neither operation touches others.
\<close>

locale session_registry =
  fixes ok :: "'s \<Rightarrow> bool"
    and by_suffix :: "string \<Rightarrow> 's \<Rightarrow> 'm option"
    and by_id :: "'i \<Rightarrow> 's \<Rightarrow> 'm option"
    and register :: "'m \<Rightarrow> 's \<Rightarrow> 's"
    and unregister :: "'i \<Rightarrow> 's \<Rightarrow> 's"
    and suffix_of :: "'m \<Rightarrow> string"
    and id_of :: "'m \<Rightarrow> 'i"
  assumes agree: "ok s \<Longrightarrow> by_suffix x s = Some m \<longleftrightarrow> by_id (id_of m) s = Some m \<and> suffix_of m = x"
    and register_ok: "ok s \<Longrightarrow> by_id (id_of m) s = None \<Longrightarrow> ok (register m s)"
    and register_look: "ok s \<Longrightarrow> by_id (id_of m) s = None \<Longrightarrow>
      by_id i (register m s) = (if by_suffix (suffix_of m) s = None \<and> i = id_of m then Some m else by_id i s)"
    and unregister_ok: "ok s \<Longrightarrow> ok (unregister i s)"
    and unregister_look: "ok s \<Longrightarrow> by_id j (unregister i s) = (if j = i then None else by_id j s)"
begin

text \<open>A session that is registered under a free suffix is found by it, until it is removed.\<close>

lemma register_found:
  assumes "ok s" "by_id (id_of m) s = None" "by_suffix (suffix_of m) s = None"
  shows "by_suffix (suffix_of m) (register m s) = Some m"
  using agree [OF register_ok [OF assms(1,2)]] register_look [OF assms(1,2)] assms(3) by simp

lemma register_others:
  assumes "ok s" "by_id (id_of m) s = None" "by_suffix x s = Some m'"
  shows "by_suffix x (register m s) = Some m'"
proof -
  have "by_id (id_of m') s = Some m'" "suffix_of m' = x" using agree [OF assms(1)] assms(3) by simp_all
  moreover from this have "id_of m' \<noteq> id_of m" using assms(2) by auto
  ultimately show ?thesis
    using agree [OF register_ok [OF assms(1,2)]] register_look [OF assms(1,2)] by simp
qed

lemma unregister_gone:
  assumes "ok s" "by_suffix x s = Some m"
  shows "by_suffix x (unregister (id_of m) s) = None"
proof (rule ccontr)
  assume "by_suffix x (unregister (id_of m) s) \<noteq> None"
  then obtain m' where m': "by_suffix x (unregister (id_of m) s) = Some m'" by blast
  then have "by_id (id_of m') (unregister (id_of m) s) = Some m'" "suffix_of m' = x"
    using agree [OF unregister_ok [OF assms(1)]] by simp_all
  then have "id_of m' \<noteq> id_of m" "by_id (id_of m') s = Some m'"
    using unregister_look [OF assms(1)] by (simp_all split: if_splits)
  then have "by_suffix x s = Some m'" using agree [OF assms(1)] \<open>suffix_of m' = x\<close> by simp
  then show False using assms(2) \<open>id_of m' \<noteq> id_of m\<close> by simp
qed

lemma unregister_others:
  assumes "ok s" "by_suffix x s = Some m" "id_of m \<noteq> i"
  shows "by_suffix x (unregister i s) = Some m"
  using agree [OF assms(1)] agree [OF unregister_ok [OF assms(1)]] unregister_look [OF assms(1)] assms(2,3) by simp

end

definition rs_unregister :: "32 word \<Rightarrow> RtspServer \<Rightarrow> RtspServer" where
  "rs_unregister i s = (case RtspServer_removeMediaSession i s of Inr s' \<Rightarrow> s' | Inl _ \<Rightarrow> s)"

definition rs_by_suffix :: "string \<Rightarrow> RtspServer \<Rightarrow> MediaSession option" where
  "rs_by_suffix x s = fst (RtspServer_lookMediaSession_suffix x s)"

lemma table_ok_suffix: "table_ok s \<Longrightarrow> rs_rtspSuffixMap s x = Some i \<Longrightarrow>
    \<exists>m. rs_mediaSessions s i = Some (Some m) \<and> ms_suffix m = x \<and> ms_sessionId m = i"
  unfolding table_ok_def by (metis option.inject)

lemma table_ok_id: "table_ok s \<Longrightarrow> rs_mediaSessions s i = Some m \<Longrightarrow>
    \<exists>m'. m = Some m' \<and> ms_sessionId m' = i \<and> rs_rtspSuffixMap s (ms_suffix m') = Some i"
  unfolding table_ok_def by blast

lemma look_id_iff: "RtspServer_lookMediaSession i s = Some m \<longleftrightarrow> rs_mediaSessions s i = Some (Some m)"
  by (simp add: RtspServer_lookMediaSession_def split: option.splits)

lemma look_id_None: "table_ok s \<Longrightarrow> RtspServer_lookMediaSession i s = None \<longleftrightarrow> rs_mediaSessions s i = None"
  using table_ok_id [of s i] by (cases "rs_mediaSessions s i") (auto simp: RtspServer_lookMediaSession_def)

lemma look_suffix:
  assumes "table_ok s"
  shows "rs_by_suffix x s = Some m \<longleftrightarrow> rs_mediaSessions s (ms_sessionId m) = Some (Some m) \<and> ms_suffix m = x"
    and "rs_by_suffix x s = None \<longleftrightarrow> rs_rtspSuffixMap s x = None"
    and "snd (RtspServer_lookMediaSession_suffix x s) = s"
proof -
  consider (none) "rs_rtspSuffixMap s x = None"
    | (some) m' where "rs_rtspSuffixMap s x = Some (ms_sessionId m')"
        "rs_mediaSessions s (ms_sessionId m') = Some (Some m')" "ms_suffix m' = x"
    using table_ok_suffix [OF assms] by (cases "rs_rtspSuffixMap s x") blast+
  then have "(rs_by_suffix x s = Some m \<longleftrightarrow> rs_mediaSessions s (ms_sessionId m) = Some (Some m) \<and> ms_suffix m = x) \<and>
      (rs_by_suffix x s = None \<longleftrightarrow> rs_rtspSuffixMap s x = None) \<and> snd (RtspServer_lookMediaSession_suffix x s) = s"
  proof cases
    case none
    then show ?thesis
      using table_ok_id [OF assms, of "ms_sessionId m" "Some m"]
      by (auto simp: rs_by_suffix_def RtspServer_lookMediaSession_suffix_def)
  next
    case some
    then show ?thesis
      using table_ok_id [OF assms, of "ms_sessionId m" "Some m"]
      by (auto simp: rs_by_suffix_def RtspServer_lookMediaSession_suffix_def)
  qed
  then show "rs_by_suffix x s = Some m \<longleftrightarrow> rs_mediaSessions s (ms_sessionId m) = Some (Some m) \<and> ms_suffix m = x"
    "rs_by_suffix x s = None \<longleftrightarrow> rs_rtspSuffixMap s x = None" "snd (RtspServer_lookMediaSession_suffix x s) = s"
    by blast+
qed

lemma remove_eq:
  assumes "table_ok s"
  shows "\<exists>s'. RtspServer_removeMediaSession i s = Inr s' \<and> rs_mediaSessions s' = (rs_mediaSessions s)(i := None) \<and>
     rs_rtspSuffixMap s' = (case rs_mediaSessions s i of Some (Some m) \<Rightarrow> (rs_rtspSuffixMap s)(ms_suffix m := None)
                                                      | _ \<Rightarrow> rs_rtspSuffixMap s)"
  using table_ok_id [OF assms, of i]
  by (cases "rs_mediaSessions s i") (auto simp: RtspServer_removeMediaSession_def)

lemma table_ok_remove:
  assumes "table_ok s"
  shows "table_ok (rs_unregister i s)" "rs_mediaSessions (rs_unregister i s) = (rs_mediaSessions s)(i := None)"
proof -
  obtain s' where s': "rs_unregister i s = s'" "rs_mediaSessions s' = (rs_mediaSessions s)(i := None)"
     "rs_rtspSuffixMap s' = (case rs_mediaSessions s i of Some (Some m) \<Rightarrow> (rs_rtspSuffixMap s)(ms_suffix m := None)
                                                       | _ \<Rightarrow> rs_rtspSuffixMap s)"
    using remove_eq [OF assms, of i] by (auto simp: rs_unregister_def)
  then show "rs_mediaSessions (rs_unregister i s) = (rs_mediaSessions s)(i := None)" by simp
  show "table_ok (rs_unregister i s)"
  proof (cases "rs_mediaSessions s i")
    case None
    then have "rs_mediaSessions s' = rs_mediaSessions s" "rs_rtspSuffixMap s' = rs_rtspSuffixMap s" using s' by auto
    then show ?thesis using assms s'(1) by (simp add: table_ok_def)
  next
    case (Some x)
    then obtain m where m: "rs_mediaSessions s i = Some (Some m)" "ms_sessionId m = i" "rs_rtspSuffixMap s (ms_suffix m) = Some i"
      using table_ok_id [OF assms] by blast
    have "\<exists>m'. rs_mediaSessions s' sid = Some (Some m') \<and> ms_suffix m' = x"
      if "rs_rtspSuffixMap s' x = Some sid" for x sid
    proof -
      have x: "x \<noteq> ms_suffix m" "rs_rtspSuffixMap s x = Some sid" using that s'(3) m(1) by (auto split: if_splits)
      obtain m' where m': "rs_mediaSessions s sid = Some (Some m')" "ms_suffix m' = x"
        using table_ok_suffix [OF assms x(2)] by blast
      then have "sid \<noteq> i" using m(1) x(1) by auto
      then show ?thesis using m' s'(2) by simp
    qed
    moreover have "\<exists>m'. z = Some m' \<and> ms_sessionId m' = sid \<and> rs_rtspSuffixMap s' (ms_suffix m') = Some sid"
      if "rs_mediaSessions s' sid = Some z" for sid z
    proof -
      have sid: "sid \<noteq> i" "rs_mediaSessions s sid = Some z" using that s'(2) by (auto split: if_splits)
      obtain m' where m': "z = Some m'" "ms_sessionId m' = sid" "rs_rtspSuffixMap s (ms_suffix m') = Some sid"
        using table_ok_id [OF assms sid(2)] by blast
      then have "ms_suffix m' \<noteq> ms_suffix m" using m(3) sid(1) by auto
      then show ?thesis using m' s'(3) m(1) by simp
    qed
    ultimately show ?thesis using s'(1) unfolding table_ok_def by blast
  qed
qed

lemma table_ok_add:
  assumes "table_ok s" "rs_mediaSessions s (ms_sessionId m) = None"
  shows "table_ok (snd (RtspServer_addMediaSession m s))"
    and "rs_mediaSessions (snd (RtspServer_addMediaSession m s)) =
      (if rs_rtspSuffixMap s (ms_suffix m) = None then (rs_mediaSessions s)(ms_sessionId m \<mapsto> Some m) else rs_mediaSessions s)"
proof -
  show "rs_mediaSessions (snd (RtspServer_addMediaSession m s)) =
      (if rs_rtspSuffixMap s (ms_suffix m) = None then (rs_mediaSessions s)(ms_sessionId m \<mapsto> Some m) else rs_mediaSessions s)"
    using assms(2) by (auto simp: RtspServer_addMediaSession_def Let_def)
  show "table_ok (snd (RtspServer_addMediaSession m s))"
  proof (cases "rs_rtspSuffixMap s (ms_suffix m) = None")
    case True
    let ?t = "snd (RtspServer_addMediaSession m s)"
    have t: "rs_mediaSessions ?t = (rs_mediaSessions s)(ms_sessionId m \<mapsto> Some m)"
      "rs_rtspSuffixMap ?t = (rs_rtspSuffixMap s)(ms_suffix m \<mapsto> ms_sessionId m)"
      using True assms(2) by (simp_all add: RtspServer_addMediaSession_def Let_def)
    have "\<exists>m'. rs_mediaSessions ?t sid = Some (Some m') \<and> ms_suffix m' = x" if "rs_rtspSuffixMap ?t x = Some sid" for x sid
    proof (cases "x = ms_suffix m")
      case True
      then show ?thesis using that t by simp
    next
      case False
      then have "rs_rtspSuffixMap s x = Some sid" using that t(2) by simp
      then obtain m' where m': "rs_mediaSessions s sid = Some (Some m')" "ms_suffix m' = x"
        using table_ok_suffix [OF assms(1)] by blast
      then have "sid \<noteq> ms_sessionId m" using assms(2) by auto
      then show ?thesis using m' t(1) by simp
    qed
    moreover have "\<exists>m'. z = Some m' \<and> ms_sessionId m' = sid \<and> rs_rtspSuffixMap ?t (ms_suffix m') = Some sid"
      if "rs_mediaSessions ?t sid = Some z" for sid z
    proof (cases "sid = ms_sessionId m")
      case True
      then show ?thesis using that t by (intro exI [of _ m]) simp
    next
      case False
      then have "rs_mediaSessions s sid = Some z" using that t(1) by simp
      then obtain m' where m': "z = Some m'" "ms_sessionId m' = sid" "rs_rtspSuffixMap s (ms_suffix m') = Some sid"
        using table_ok_id [OF assms(1)] by blast
      then have "ms_suffix m' \<noteq> ms_suffix m" using True by auto
      then show ?thesis using m' t(2) by simp
    qed
    ultimately show ?thesis unfolding table_ok_def by blast
  next
    case False
    then show ?thesis using assms(1) by (simp add: RtspServer_addMediaSession_def)
  qed
qed

interpretation sessions: session_registry table_ok rs_by_suffix RtspServer_lookMediaSession
  "\<lambda>m s. snd (RtspServer_addMediaSession m s)" rs_unregister ms_suffix ms_sessionId
proof
  fix s :: RtspServer and x and m :: MediaSession
  assume ok: "table_ok s"
  then show "rs_by_suffix x s = Some m \<longleftrightarrow>
      RtspServer_lookMediaSession (ms_sessionId m) s = Some m \<and> ms_suffix m = x"
    by (simp add: look_suffix look_id_iff)
next
  fix s :: RtspServer and m :: MediaSession
  assume "table_ok s" "RtspServer_lookMediaSession (ms_sessionId m) s = None"
  then show "table_ok (snd (RtspServer_addMediaSession m s))" by (simp add: table_ok_add look_id_None)
next
  fix s :: RtspServer and m :: MediaSession and i
  assume ok: "table_ok s" "RtspServer_lookMediaSession (ms_sessionId m) s = None"
  then have new: "rs_mediaSessions s (ms_sessionId m) = None" by (simp add: look_id_None)
  from ok show "RtspServer_lookMediaSession i (snd (RtspServer_addMediaSession m s)) =
      (if rs_by_suffix (ms_suffix m) s = None \<and> i = ms_sessionId m then Some m else RtspServer_lookMediaSession i s)"
    by (simp add: table_ok_add(2) [OF ok(1) new] look_suffix(2) [OF ok(1)] RtspServer_lookMediaSession_def)
next
  fix s :: RtspServer and i
  assume "table_ok s"
  then show "table_ok (rs_unregister i s)" by (rule table_ok_remove)
next
  fix s :: RtspServer and i j
  assume "table_ok s"
  then show "RtspServer_lookMediaSession j (rs_unregister i s) = (if j = i then None else RtspServer_lookMediaSession j s)"
    by (simp add: table_ok_remove RtspServer_lookMediaSession_def)
qed

text \<open>
  The server's table of sessions: a session with a new identifier that is added under a free suffix
  is found under it, sessions registered before stay found, one added under a taken suffix changes
  nothing and gets the identifier 0; and removing a session, which never dereferences a null
  pointer, hides it and no other.
\<close>

theorem RtspServer_sessions:
  assumes "table_ok s" "RtspServer_lookMediaSession (ms_sessionId m) s = None"
  shows "(rs_by_suffix (ms_suffix m) s = None \<longrightarrow>
       rs_by_suffix (ms_suffix m) (snd (RtspServer_addMediaSession m s)) = Some m) \<and>
    (rs_by_suffix (ms_suffix m) s \<noteq> None \<longrightarrow> RtspServer_addMediaSession m s = (0, s)) \<and>
    (\<forall>x m'. rs_by_suffix x s = Some m' \<longrightarrow>
       rs_by_suffix x (snd (RtspServer_addMediaSession m s)) = Some m' \<and>
       (\<exists>s'. RtspServer_removeMediaSession (ms_sessionId m') s = Inr s' \<and> table_ok s' \<and> rs_by_suffix x s' = None \<and>
          (\<forall>y m2. rs_by_suffix y s = Some m2 \<and> ms_sessionId m2 \<noteq> ms_sessionId m' \<longrightarrow> rs_by_suffix y s' = Some m2)))"
proof (intro conjI allI impI)
  show "rs_by_suffix (ms_suffix m) (snd (RtspServer_addMediaSession m s)) = Some m" if "rs_by_suffix (ms_suffix m) s = None"
    using sessions.register_found [OF assms that] .
  show "RtspServer_addMediaSession m s = (0, s)" if "rs_by_suffix (ms_suffix m) s \<noteq> None"
    using that look_suffix(2) [OF assms(1)] by (simp add: RtspServer_addMediaSession_def)
  fix x m' assume x: "rs_by_suffix x s = Some m'"
  show "rs_by_suffix x (snd (RtspServer_addMediaSession m s)) = Some m'"
    using sessions.register_others [OF assms x] .
  let ?s = "rs_unregister (ms_sessionId m') s"
  have "RtspServer_removeMediaSession (ms_sessionId m') s = Inr ?s"
    using remove_eq [OF assms(1), of "ms_sessionId m'"] by (auto simp: rs_unregister_def)
  then show "\<exists>s'. RtspServer_removeMediaSession (ms_sessionId m') s = Inr s' \<and> table_ok s' \<and> rs_by_suffix x s' = None \<and>
          (\<forall>y m2. rs_by_suffix y s = Some m2 \<and> ms_sessionId m2 \<noteq> ms_sessionId m' \<longrightarrow> rs_by_suffix y s' = Some m2)"
    using table_ok_remove(1) [OF assms(1)] sessions.unregister_gone [OF assms(1) x] sessions.unregister_others [OF assms(1)]
    by blast
qed

theorem RtspServer_sessions_witness:
  "rs_by_suffix ''live'' (snd (RtspServer_addMediaSession demo_session \<lparr>rs_mediaSessions = Map.empty, rs_rtspSuffixMap = Map.empty\<rparr>))
     = Some demo_session"
proof -
  let ?s = "\<lparr>rs_mediaSessions = Map.empty, rs_rtspSuffixMap = Map.empty\<rparr> :: RtspServer"
  have "table_ok ?s" "RtspServer_lookMediaSession (ms_sessionId demo_session) ?s = None"
    "rs_by_suffix (ms_suffix demo_session) ?s = None" "ms_suffix demo_session = ''live''"
    by (simp_all add: table_ok_def RtspServer_lookMediaSession_def rs_by_suffix_def RtspServer_lookMediaSession_suffix_def
        demo_session_def MediaSession_creatNew_def)
  then show ?thesis using RtspServer_sessions [of ?s demo_session] by simp
qed

end
