(* ===== verification/Media_RtspConnection.thy ===== *)
theory Media_RtspConnection
  imports Media_RtspMessage Media_Session
begin

text \<open>
  The RTSP dialogue: \<open>Rtsp.h\<close>, \<open>RtspConnection.h\<close>, \<open>RtspConnection.cc\<close> and the callbacks of \<open>RtspServer.cc\<close>.

  An RTSP connection owns its RTP connection (sessions only keep weak pointers to it) and shares the
  TCP connection; both are members of its record, with the address of the RTP connection beside it.
  What the handlers take from outside (the write call, the thread, random numbers, sockets, the clock
  and the local address, the allocator) is the record \<open>rtsp_env\<close>. A null \<open>_rtpConnPtr\<close> that is
  dereferenced is \<open>NullPointer\<close>.
\<close>

section \<open>The base class\<close>

record RtspUrlInfo =
  ui_url :: string
  ui_ip :: string
  ui_port :: "16 word"
  ui_suffix :: string

record Rtsp =
  rt_version :: string
  rt_urlInfo :: RtspUrlInfo

definition Rtsp_setVersion :: "string \<Rightarrow> Rtsp \<Rightarrow> Rtsp" where
  "Rtsp_setVersion version rt = rt\<lparr>rt_version := version\<rparr>"

definition Rtsp_getRtspUrl :: "Rtsp \<Rightarrow> string" where
  "Rtsp_getRtspUrl rt = ui_url (rt_urlInfo rt)"

text \<open>\<open>url.c_str() + 7\<close> is past the terminating NUL of a shorter URL.\<close>

definition Rtsp_parseRtspUrl :: "string \<Rightarrow> Rtsp \<Rightarrow> (bool \<times> Rtsp) result" where
  "Rtsp_parseRtspUrl url rt =
     (if length url < 7 then Inl OutOfRange
      else bindR (parse_url 16 128 (cstr (drop 7 url))) (\<lambda>u.
           case u of
             None \<Rightarrow> Inr (False, rt)
           | Some (ip, port, suffix) \<Rightarrow>
               Inr (True, rt\<lparr>rt_urlInfo := \<lparr>ui_url = url, ui_ip = ip, ui_port = port, ui_suffix = suffix\<rparr>\<rparr>)))"

section \<open>Connections\<close>

datatype ConnectionMode = RTSP_SERVER | RTSP_PUSHER

datatype ConnectionState = START_CONNECT | START_PLAY | START_PUSH

record RtspConnection =
  rn_tcpConn :: TcpConnection
  rn_connMode :: ConnectionMode
  rn_connState :: ConnectionState
  rn_sessionId :: "32 word"
  rn_request :: RtspRequest
  rn_response :: RtspResponse
  rn_rtpConn :: "RtpConnection option"
  rn_rtpAddr :: oid

record rtsp_env =
  en_write :: write_call
  en_tid :: int
  en_rd :: "nat \<Rightarrow> 32 word"
  en_rtpJunk :: RtpConnection
  en_rtpAddr :: oid
  en_sock :: "nat \<Rightarrow> int \<times> int"
  en_bind :: "nat \<Rightarrow> 16 word \<Rightarrow> bool"
  en_peer :: "32 word"
  en_time :: nat
  en_ip :: string

type_synonym rtsp_state = "RtspConnection \<times> RtspServer"

definition RtspConnection_new :: "RtspRequest \<Rightarrow> RtspResponse \<Rightarrow> TcpConnection \<Rightarrow> RtspConnection" where
  "RtspConnection_new junkRequest junkResponse conn =
     \<lparr>rn_tcpConn = conn, rn_connMode = RTSP_SERVER, rn_connState = START_CONNECT, rn_sessionId = 0,
      rn_request = RtspRequest_new junkRequest, rn_response = RtspResponse_new junkResponse,
      rn_rtpConn = None, rn_rtpAddr = 0\<rparr>"

definition RtspConnection_isPlay :: "RtspConnection \<Rightarrow> bool" where
  "RtspConnection_isPlay cn \<longleftrightarrow> rn_connState cn = START_PLAY"

definition RtspConnection_isRecord :: "RtspConnection \<Rightarrow> bool" where
  "RtspConnection_isRecord cn \<longleftrightarrow> rn_connState cn = START_PUSH"

definition RtspConnection_sendMessage :: "rtsp_env \<Rightarrow> string \<Rightarrow> rtsp_state \<Rightarrow> rtsp_state result" where
  "RtspConnection_sendMessage e buf st =
     (let (cn, s) = st in
      bindR (TcpConnection_send (en_write e) (en_tid e) buf (rn_tcpConn cn)) (\<lambda>c. Inr (cn\<lparr>rn_tcpConn := c\<rparr>, s)))"

text \<open>The RTP connection behind \<open>_rtpConnPtr\<close>.\<close>

definition with_rtp :: "rtsp_state \<Rightarrow> (RtpConnection \<Rightarrow> 'a result) \<Rightarrow> 'a result" where
  "with_rtp st f = (case rn_rtpConn (fst st) of None \<Rightarrow> Inl NullPointer | Some r \<Rightarrow> f r)"

definition RtspConnection_handleCmdOption :: "rtsp_env \<Rightarrow> rtsp_state \<Rightarrow> rtsp_state result" where
  "RtspConnection_handleCmdOption e st =
     RtspConnection_sendMessage e (RtspRequest_buildOptionRes 1024 (rn_request (fst st))) st"

text \<open>The loop over the channels, and the session object written back where the pointer leads.\<close>

definition describe_channel :: "MediaSession \<Rightarrow> MediaChannelId \<Rightarrow> RtpConnection \<Rightarrow> RtpConnection" where
  "describe_channel m chn r =
     (case MediaSession_getMediaSource chn m of
        None \<Rightarrow> r
      | Some source \<Rightarrow> RtpConnection_setPayloadType chn (hs_payload source)
                         (RtpConnection_setClockRate chn (hs_clockRate source) r))"

definition store_session :: "string \<Rightarrow> MediaSession \<Rightarrow> RtspServer \<Rightarrow> RtspServer" where
  "store_session suffix m s =
     (case rs_rtspSuffixMap s suffix of
        None \<Rightarrow> s
      | Some sid \<Rightarrow> s\<lparr>rs_mediaSessions := (rs_mediaSessions s)(sid \<mapsto> Some m)\<rparr>)"

definition RtspConnection_handleCmdDescribe :: "rtsp_env \<Rightarrow> Rtsp \<Rightarrow> rtsp_state \<Rightarrow> rtsp_state result" where
  "RtspConnection_handleCmdDescribe e rt st =
     (let (cn, s) = st;
          cn = (case rn_rtpConn cn of
                  None \<Rightarrow> cn\<lparr>rn_rtpConn := Some (RtpConnection_new (en_rd e) (en_rtpJunk e)), rn_rtpAddr := en_rtpAddr e\<rparr>
                | Some _ \<Rightarrow> cn);
          suffix = RtspRequest_getRtspUrlSuffix (rn_request cn);
          (session, s) = RtspServer_lookMediaSession_suffix suffix s
      in case session of
           None \<Rightarrow> RtspConnection_sendMessage e (RtspRequest_buildNotFoundRes 1024 (rn_request cn)) (cn, s)
         | Some m \<Rightarrow>
             (let cn = cn\<lparr>rn_sessionId := ms_sessionId m\<rparr>;
                  (_, m) = MediaSession_addClient (ch_fd (tc_channel (rn_tcpConn cn))) (rn_rtpAddr cn) m;
                  cn = cn\<lparr>rn_rtpConn := map_option (\<lambda>r. describe_channel m channel_1 (describe_channel m channel_0 r)) (rn_rtpConn cn)\<rparr>;
                  (sdp, m) = MediaSession_getSdpMessage (en_time e) (en_ip e) (rt_version rt) m;
                  s = store_session suffix m s
              in if sdp = ''''
                 then RtspConnection_sendMessage e (RtspRequest_buildServerErrorRes 1024 (rn_request cn)) (cn, s)
                 else RtspConnection_sendMessage e (RtspRequest_buildDescribeRes 1024 (cstr sdp) (rn_request cn)) (cn, s)))"

text \<open>The session number is a \<open>uint16_t\<close> in the handlers.\<close>

definition short_id :: "RtpConnection \<Rightarrow> 32 word" where
  "short_id r = ucast (ucast (RtpConnection_getRtpSessionId r) :: 16 word)"

definition RtspConnection_handleCmdSetup :: "rtsp_env \<Rightarrow> rtsp_state \<Rightarrow> rtsp_state result" where
  "RtspConnection_handleCmdSetup e st =
     (let (cn, s) = st;
          req = rn_request cn;
          channelId = rq_channelId req;
          server_error = (\<lambda>cn. RtspConnection_sendMessage e (RtspRequest_buildServerErrorRes 1024 req) (cn, s))
      in case RtspServer_lookMediaSession (rn_sessionId cn) s of
           None \<Rightarrow> server_error cn
         | Some _ \<Rightarrow>
             if rq_transport req = RTP_OVER_TCP
             then with_rtp st (\<lambda>r.
                  (let rtpChannel = ucast (RtspRequest_getRtpChannel req);
                       rtcpChannel = ucast (RtspRequest_getRtcpChannel req);
                       sessionId = short_id r;
                       (_, r) = RtpConnection_setupRtpOverTcp (Some (rn_tcpConn cn)) channelId rtpChannel rtcpChannel r
                   in RtspConnection_sendMessage e (RtspRequest_buildSetupTcpRes 1024 rtpChannel rtcpChannel sessionId req)
                        (cn\<lparr>rn_rtpConn := Some r\<rparr>, s)))
             else if rq_transport req = RTP_OVER_UDP
             then with_rtp st (\<lambda>r.
                  (let sessionId = short_id r;
                       (ok, r) = RtpConnection_setupRtpOverUdp (en_rd e) (en_sock e) (en_bind e) (en_peer e)
                         (Some (rn_tcpConn cn)) channelId (RtspRequest_getRtpPort req) (RtspRequest_getRtcpPort req) r;
                       cn = cn\<lparr>rn_rtpConn := Some r\<rparr>
                   in if ok
                      then RtspConnection_sendMessage e (RtspRequest_buildSetupUdpRes 1024
                             (RtpConnection_getRtpPort channelId r) (RtpConnection_getRtcpPort channelId r) sessionId req) (cn, s)
                      else server_error cn))
             else RtspConnection_sendMessage e (RtspRequest_buildUnsupportedRes 1024 req) st)"

definition RtspConnection_handleCmdPlay :: "rtsp_env \<Rightarrow> rtsp_state \<Rightarrow> rtsp_state result" where
  "RtspConnection_handleCmdPlay e st =
     (let (cn, s) = st; cn = cn\<lparr>rn_connState := START_PLAY\<rparr> in
      with_rtp (cn, s) (\<lambda>r.
      (let r = RtpConnection_play r
       in RtspConnection_sendMessage e (RtspRequest_buildPlayRes 1024 None (short_id r) (rn_request cn))
            (cn\<lparr>rn_rtpConn := Some r\<rparr>, s))))"

definition RtspConnection_handleCmdTeardown :: "rtsp_env \<Rightarrow> rtsp_state \<Rightarrow> rtsp_state result" where
  "RtspConnection_handleCmdTeardown e st =
     (let (cn, s) = st in
      with_rtp st (\<lambda>r.
      (let r = RtpConnection_teardown r in
       bindR (RtspConnection_sendMessage e (RtspRequest_buildTeardownRes 1024 (short_id r) (rn_request cn))
                (cn\<lparr>rn_rtpConn := Some r\<rparr>, s)) (\<lambda>(cn, s).
       bindR (TcpConnection_shutdown (en_tid e) (rn_tcpConn cn)) (\<lambda>c.
       Inr (cn\<lparr>rn_tcpConn := TcpConnection_forceCloseWithDelay c\<rparr>, s))))))"

definition RtspConnection_handleCmdGetParamter :: "rtsp_env \<Rightarrow> rtsp_state \<Rightarrow> rtsp_state result" where
  "RtspConnection_handleCmdGetParamter e st =
     with_rtp st (\<lambda>r.
     RtspConnection_sendMessage e (RtspRequest_buildGetParamterRes 1024 (short_id r) (rn_request (fst st))) st)"

text \<open>
  RTCP packets on the TCP connection are skipped. \<open>peek[2] << 8 | peek[3]\<close> is computed with signed
  characters.
\<close>

definition rtcp_size :: "char \<Rightarrow> char \<Rightarrow> 32 word" where
  "rtcp_size c2 c3 = or (push_bit 8 (scast (of_char c2 :: 8 word))) (scast (of_char c3 :: 8 word))"

definition RtspConnection_handleRtcp :: "Buffer \<Rightarrow> Buffer result" where
  "RtspConnection_handleRtcp buf =
     bindR (mem_read (b_buffer buf) (Buffer_peek buf) 1) (\<lambda>c.
     if c = ''$'' \<and> Buffer_readableBytes buf > 4
     then
       bindR (mem_read (b_buffer buf) (Buffer_peek buf) 4) (\<lambda>cs.
       (let pktSize = rtcp_size (cs ! 2) (cs ! 3)
        in if unat (pktSize + 4) \<ge> Buffer_readableBytes buf then Buffer_retrieve buf (unat (pktSize + 4)) else Inr buf))
     else Inr buf)"

text \<open>The switch of \<open>handleRtspRequest\<close>.\<close>

definition handle_cmd :: "rtsp_env \<Rightarrow> Rtsp \<Rightarrow> rtsp_state \<Rightarrow> rtsp_state result" where
  "handle_cmd e rt st =
     (case rq_method (rn_request (fst st)) of
        OPTIONS \<Rightarrow> RtspConnection_handleCmdOption e st
      | DESCRIBE \<Rightarrow> RtspConnection_handleCmdDescribe e rt st
      | SETUP \<Rightarrow> RtspConnection_handleCmdSetup e st
      | PLAY \<Rightarrow> RtspConnection_handleCmdPlay e st
      | TEARDOWN \<Rightarrow> RtspConnection_handleCmdTeardown e st
      | GET_PARAMETER \<Rightarrow> RtspConnection_handleCmdGetParamter e st
      | _ \<Rightarrow> Inr st)"

definition RtspConnection_handleRtspRequest ::
  "rtsp_env \<Rightarrow> Rtsp \<Rightarrow> Buffer \<Rightarrow> rtsp_state \<Rightarrow> (bool \<times> Buffer \<times> rtsp_state) result" where
  "RtspConnection_handleRtspRequest e rt buf st =
     bindR (RtspRequest_parseRequest buf (rn_request (fst st))) (\<lambda>(ok, buf, req).
     (let st = ((fst st)\<lparr>rn_request := req\<rparr>, snd st) in
      if \<not> ok then Inr (False, buf, st)
      else if rq_method req = RTCP then bindR (RtspConnection_handleRtcp buf) (\<lambda>buf. Inr (True, buf, st))
      else if \<not> RtspRequest_gotAll req then Inr (True, buf, st)
      else
        bindR (handle_cmd e rt st) (\<lambda>(cn, s).
        Inr (True, buf, (if RtspRequest_gotAll (rn_request cn) then cn\<lparr>rn_request := RtspRequest_reset (rn_request cn)\<rparr> else cn, s)))))"

text \<open>The pusher's handlers have no body.\<close>

definition RtspConnection_sendAnnounce :: "RtspConnection \<Rightarrow> RtspConnection" where
  "RtspConnection_sendAnnounce cn = cn"

definition RtspConnection_sendSetup :: "RtspConnection \<Rightarrow> RtspConnection" where
  "RtspConnection_sendSetup cn = cn"

definition RtspConnection_handleRecord :: "RtspConnection \<Rightarrow> RtspConnection" where
  "RtspConnection_handleRecord cn = cn"

definition RtspConnection_handleRtspResponse :: "Buffer \<Rightarrow> RtspConnection \<Rightarrow> (Buffer \<times> RtspConnection) result" where
  "RtspConnection_handleRtspResponse buf cn =
     bindR (RtspResponse_parseResponse buf (rn_response cn)) (\<lambda>(ok, buf, p).
     (let cn = cn\<lparr>rn_response := p\<rparr> in
      Inr (buf,
        if ok
        then (case rp_method p of
                R_OPTIONS \<Rightarrow> if rn_connMode cn = RTSP_PUSHER then RtspConnection_sendAnnounce cn else cn
              | R_ANNOUNCE \<Rightarrow> RtspConnection_sendSetup cn
              | R_DESCRIBE \<Rightarrow> RtspConnection_sendSetup cn
              | R_SETUP \<Rightarrow> RtspConnection_sendSetup cn
              | R_RECORD \<Rightarrow> RtspConnection_handleRecord cn
              | _ \<Rightarrow> cn)
        else cn)))"

definition MAX_RTSP_MESSAGE_SIZE :: nat where
  "MAX_RTSP_MESSAGE_SIZE = 2048"

definition RtspConnection_handleRtspMessage ::
  "rtsp_env \<Rightarrow> Rtsp \<Rightarrow> Buffer \<Rightarrow> rtsp_state \<Rightarrow> (Buffer \<times> rtsp_state) result" where
  "RtspConnection_handleRtspMessage e rt buf st =
     bindR (case rn_connMode (fst st) of
              RTSP_SERVER \<Rightarrow> bindR (RtspConnection_handleRtspRequest e rt buf st) (\<lambda>(_, buf, st). Inr (buf, st))
            | RTSP_PUSHER \<Rightarrow> bindR (RtspConnection_handleRtspResponse buf (fst st)) (\<lambda>(buf, cn). Inr (buf, cn, snd st)))
     (\<lambda>(buf, st). Inr (if Buffer_readableBytes buf > MAX_RTSP_MESSAGE_SIZE then Buffer_retrieveAll buf else buf, st))"

section \<open>The server's callbacks\<close>

text \<open>
  \<open>_rtspConnMap\<close>: a connection that is erased or replaced is destroyed, and with it its RTP connection.
  \<open>sv_closed\<close> collects the descriptors these destructors close. \<open>operator[]\<close> of an unknown name is a
  null pointer.
\<close>

record RtspService =
  sv_rtsp :: Rtsp
  sv_server :: RtspServer
  sv_rtspConnMap :: "string \<rightharpoonup> RtspConnection"
  sv_closed :: "int list"

definition drop_connection :: "string \<Rightarrow> RtspService \<Rightarrow> RtspService" where
  "drop_connection name sv =
     sv\<lparr>sv_rtspConnMap := (sv_rtspConnMap sv)(name := None),
        sv_closed := sv_closed sv @
          (case sv_rtspConnMap sv name of
             None \<Rightarrow> []
           | Some cn \<Rightarrow> (case rn_rtpConn cn of None \<Rightarrow> [] | Some r \<Rightarrow> rc_closed (RtpConnection_destroy r)))\<rparr>"

definition RtspServer_onConnection ::
  "RtspRequest \<Rightarrow> RtspResponse \<Rightarrow> TcpConnection \<Rightarrow> RtspService \<Rightarrow> RtspService" where
  "RtspServer_onConnection junkRequest junkResponse conn sv =
     (if tc_state conn = kConnected
      then (let sv = drop_connection (tc_name conn) sv
            in sv\<lparr>sv_rtspConnMap := (sv_rtspConnMap sv)(tc_name conn \<mapsto> RtspConnection_new junkRequest junkResponse conn)\<rparr>)
      else drop_connection (tc_name conn) sv)"

definition RtspServer_onMessage :: "rtsp_env \<Rightarrow> string \<Rightarrow> Buffer \<Rightarrow> RtspService \<Rightarrow> (Buffer \<times> RtspService) result" where
  "RtspServer_onMessage e name buf sv =
     (case sv_rtspConnMap sv name of
        None \<Rightarrow> Inl NullPointer
      | Some cn \<Rightarrow>
          bindR (RtspConnection_handleRtspMessage e (sv_rtsp sv) buf (cn, sv_server sv)) (\<lambda>(buf, cn, s).
          Inr (buf, sv\<lparr>sv_rtspConnMap := (sv_rtspConnMap sv)(name \<mapsto> cn), sv_server := s\<rparr>)))"

section \<open>Answers\<close>

lemma sendMessage_live:
  assumes "live (en_tid e) (rn_tcpConn cn)" "steady (en_write e)"
  obtains c where "RtspConnection_sendMessage e buf (cn, s) = Inr (cn\<lparr>rn_tcpConn := c\<rparr>, s)" "live (en_tid e) c"
    "tc_accepted c = tc_accepted (rn_tcpConn cn) @ buf" "ch_fd (tc_channel c) = ch_fd (tc_channel (rn_tcpConn cn))"
  using send_accepts [OF assms, of buf] send_keeps_fd that by (auto simp: RtspConnection_sendMessage_def)

text \<open>A response: status line, then the sequence number of the request.\<close>

definition answer :: "RtspRequest \<Rightarrow> string \<Rightarrow> bool" where
  "answer req text \<longleftrightarrow> (\<exists>status rest. status \<in> {''200 OK'', ''404 Stream Not Found'', ''461 Unsupported transport'', ''500 Internal Server Error''} \<and>
     text = status_line status @ ''CSeq: '' @ print_u (RtspRequest_getCSeq req) @ kCRLF @ rest)"

lemma snprintf_prefix: "length p < n \<Longrightarrow> \<exists>r. snprintf n (p @ q) = p @ r"
  by (simp add: snprintf_def)

lemma answer_prefix:
  assumes "status \<in> {''200 OK'', ''404 Stream Not Found'', ''461 Unsupported transport'', ''500 Internal Server Error''}"
  shows "answer req (snprintf 1024 (status_line status @ ''CSeq: '' @ print_u (RtspRequest_getCSeq req) @ kCRLF @ rest) @ tail)"
proof -
  let ?p = "status_line status @ ''CSeq: '' @ print_u (RtspRequest_getCSeq req) @ kCRLF"
  have "length ?p < 1024"
    using assms print_u_length [of "RtspRequest_getCSeq req"] by (auto simp: status_line_def kCRLF_def)
  from snprintf_prefix [OF this, of rest] obtain r where "snprintf 1024 (?p @ rest) = ?p @ r" by blast
  then have "snprintf 1024 (status_line status @ ''CSeq: '' @ print_u (RtspRequest_getCSeq req) @ kCRLF @ rest) @ tail
      = status_line status @ ''CSeq: '' @ print_u (RtspRequest_getCSeq req) @ kCRLF @ (r @ tail)" by simp
  then show ?thesis unfolding answer_def using assms by blast
qed

lemmas answer_text = answer_prefix [where tail = "[]", unfolded append_Nil2]

lemma print_d_small: "unat w < 2 ^ 31 \<Longrightarrow> print_d w = print_u w"
proof -
  assume w: "unat w < 2 ^ 31"
  then have "sint w = uint w"
  proof -
    have "int (unat w) < int (2 ^ 31)" using w by (simp only: of_nat_less_iff)
    then have "uint w < 2 ^ 31" by simp
    then show ?thesis unfolding sint_uint by (intro signed_take_bit_int_eq_self) (simp_all add: order_trans [of _ 0])
  qed
  then show ?thesis by (simp add: print_d_def print_u_def int_dec_def)
qed

lemma responses:
  "answer req (RtspRequest_buildOptionRes 1024 req)"
  "answer req (RtspRequest_buildNotFoundRes 1024 req)"
  "answer req (RtspRequest_buildServerErrorRes 1024 req)"
  "answer req (RtspRequest_buildDescribeRes 1024 sdp req)"
  "answer req (RtspRequest_buildSetupTcpRes 1024 a b sid req)"
  "answer req (RtspRequest_buildSetupUdpRes 1024 a b sid req)"
  unfolding RtspRequest_buildOptionRes_def RtspRequest_buildNotFoundRes_def RtspRequest_buildServerErrorRes_def
    RtspRequest_buildDescribeRes_def RtspRequest_buildSetupTcpRes_def RtspRequest_buildSetupUdpRes_def
  by - (rule answer_text, simp)+

lemma signed_responses:
  assumes "unat (RtspRequest_getCSeq req) < 2 ^ 31"
  shows "answer req (RtspRequest_buildUnsupportedRes 1024 req)"
    "answer req (RtspRequest_buildTeardownRes 1024 sid req)"
    "answer req (RtspRequest_buildGetParamterRes 1024 sid req)"
    "answer req (RtspRequest_buildPlayRes 1024 None sid req)"
  unfolding RtspRequest_buildUnsupportedRes_def RtspRequest_buildTeardownRes_def RtspRequest_buildGetParamterRes_def
    RtspRequest_buildPlayRes_def Let_def option.case bprintf_def print_d_small [OF assms]
  by - (rule answer_text answer_prefix, simp)+

definition replied :: "rtsp_env \<Rightarrow> RtspConnection \<Rightarrow> rtsp_state result \<Rightarrow> bool" where
  "replied e cn res \<longleftrightarrow> (\<exists>cn' s' text. res = Inr (cn', s') \<and> answer (rn_request cn) text \<and> live (en_tid e) (rn_tcpConn cn') \<and>
     tc_accepted (rn_tcpConn cn') = tc_accepted (rn_tcpConn cn) @ text)"

lemma sendMessage_replied:
  assumes "live (en_tid e) (rn_tcpConn cn)" "steady (en_write e)" "answer (rn_request cn) text" "rn_tcpConn cn1 = rn_tcpConn cn"
  shows "replied e cn (RtspConnection_sendMessage e text (cn1, s))"
proof -
  have "live (en_tid e) (rn_tcpConn cn1)" using assms(1,4) by simp
  from sendMessage_live [OF this assms(2)] obtain c where
    "RtspConnection_sendMessage e text (cn1, s) = Inr (cn1\<lparr>rn_tcpConn := c\<rparr>, s)" "live (en_tid e) c"
    "tc_accepted c = tc_accepted (rn_tcpConn cn1) @ text" by metis
  then show ?thesis using assms(3,4) by (auto simp: replied_def)
qed

lemma describe_replied:
  assumes "live (en_tid e) (rn_tcpConn cn)" "steady (en_write e)"
  shows "replied e cn (RtspConnection_handleCmdDescribe e rt (cn, s))"
  unfolding RtspConnection_handleCmdDescribe_def Let_def
  by (auto split: prod.splits option.splits intro!: sendMessage_replied assms responses)

lemma setup_replied:
  assumes "live (en_tid e) (rn_tcpConn cn)" "steady (en_write e)" "unat (RtspRequest_getCSeq (rn_request cn)) < 2 ^ 31"
    and "rn_rtpConn cn = Some r"
  shows "replied e cn (RtspConnection_handleCmdSetup e (cn, s))"
  unfolding RtspConnection_handleCmdSetup_def Let_def with_rtp_def
  using assms(4) by (auto split: prod.splits option.splits intro!: sendMessage_replied assms responses signed_responses)

lemma play_replied:
  assumes "live (en_tid e) (rn_tcpConn cn)" "steady (en_write e)" "unat (RtspRequest_getCSeq (rn_request cn)) < 2 ^ 31"
    and "rn_rtpConn cn = Some r"
  shows "replied e cn (RtspConnection_handleCmdPlay e (cn, s))"
  unfolding RtspConnection_handleCmdPlay_def Let_def with_rtp_def
  using assms(4) by (auto intro!: sendMessage_replied assms signed_responses)

text \<open>
  Every request is answered. On a connection that is up and has described a session (or for OPTIONS and
  DESCRIBE on any connection that is up), the handler of a complete request does not fail, queues
  exactly one response on the connection, a status line followed by the sequence number of the
  request, and keeps the connection consistent. After TEARDOWN the connection is being closed, after
  the others it is still up.
\<close>

theorem RtspConnection_answers_request:
  assumes up: "live (en_tid e) (rn_tcpConn cn)" "steady (en_write e)"
    and cseq: "unat (RtspRequest_getCSeq (rn_request cn)) < 2 ^ 31"
    and meth: "rq_method (rn_request cn) \<notin> {RTCP, METHOD_NONE}"
    and rtp: "rn_rtpConn cn \<noteq> None \<or> rq_method (rn_request cn) \<in> {OPTIONS, DESCRIBE}"
  shows "\<exists>cn' s' text. handle_cmd e rt (cn, s) = Inr (cn', s') \<and> answer (rn_request cn) text \<and>
    tc_accepted (rn_tcpConn cn') = tc_accepted (rn_tcpConn cn) @ text \<and> tc_inv (rn_tcpConn cn') \<and>
    tc_state (rn_tcpConn cn') = (if rq_method (rn_request cn) = TEARDOWN then kDisconnecting else kConnected)"
proof (cases "rq_method (rn_request cn) = TEARDOWN")
  case True
  then obtain r where r: "rn_rtpConn cn = Some r" using rtp by auto
  let ?r = "RtpConnection_teardown r"
  let ?text = "RtspRequest_buildTeardownRes 1024 (short_id ?r) (rn_request cn)"
  have ans: "answer (rn_request cn) ?text" by (rule signed_responses [OF cseq])
  have "live (en_tid e) (rn_tcpConn (cn\<lparr>rn_rtpConn := Some ?r\<rparr>))" using up(1) by simp
  from sendMessage_live [OF this up(2), of ?text s] obtain c where
    c: "RtspConnection_sendMessage e ?text (cn\<lparr>rn_rtpConn := Some ?r\<rparr>, s) = Inr (cn\<lparr>rn_rtpConn := Some ?r, rn_tcpConn := c\<rparr>, s)"
      "live (en_tid e) c" "tc_accepted c = tc_accepted (rn_tcpConn cn) @ ?text" by auto
  from c(2) have st: "tc_inv c" "tc_state c = kConnected" "tc_threadId c = en_tid e" by (simp_all add: live_def)
  obtain c2 where c2: "TcpConnection_shutdown (en_tid e) c = Inr c2" "tc_inv c2" using shutdown_inv [OF st(1)] by blast
  have "tc_state c2 = kDisconnecting \<and> tc_accepted c2 = tc_accepted c"
    using c2(1) st(2,3) by (auto simp: TcpConnection_shutdown_def TcpConnection_shutdownInLoop_def tc_emit_def
        tc_assertInLoopThread_def Let_def split: if_splits)
  then have "tc_state (TcpConnection_forceCloseWithDelay c2) = kDisconnecting \<and>
      tc_accepted (TcpConnection_forceCloseWithDelay c2) = tc_accepted c \<and> tc_inv (TcpConnection_forceCloseWithDelay c2)"
    using delay_inv [OF c2(2)] by (simp add: TcpConnection_forceCloseWithDelay_def)
  with True c c2(1) r ans show ?thesis
    by (auto simp: handle_cmd_def RtspConnection_handleCmdTeardown_def with_rtp_def Let_def)
next
  case False
  have "replied e cn (handle_cmd e rt (cn, s))"
  proof (cases "rq_method (rn_request cn) \<in> {OPTIONS, DESCRIBE}")
    case True
    then show ?thesis using describe_replied [OF up] sendMessage_replied [OF up responses(1) refl]
      by (auto simp: handle_cmd_def RtspConnection_handleCmdOption_def)
  next
    case other: False
    then obtain r where r: "rn_rtpConn cn = Some r" using rtp by auto
    have "replied e cn (RtspConnection_handleCmdGetParamter e (cn, s))"
      using sendMessage_replied [OF up signed_responses(3) [OF cseq] refl] r
      by (simp add: RtspConnection_handleCmdGetParamter_def with_rtp_def)
    then show ?thesis using other False meth setup_replied [OF up cseq r] play_replied [OF up cseq r]
      by (cases "rq_method (rn_request cn)") (auto simp: handle_cmd_def)
  qed
  then show ?thesis using False by (auto simp: replied_def live_def)
qed

definition demo_env :: rtsp_env where
  "demo_env = \<lparr>en_write = demo_write, en_tid = 7, en_rd = (\<lambda>n. of_nat n + 1), en_rtpJunk = junk_connection, en_rtpAddr = 3,
     en_sock = (\<lambda>_. (0, 0)), en_bind = (\<lambda>_ _. True), en_peer = 0, en_time = 1, en_ip = ''10.0.0.1''\<rparr>"

definition demo_rtsp :: Rtsp where
  "demo_rtsp = \<lparr>rt_version = ''ideal'', rt_urlInfo = \<lparr>ui_url = '''', ui_ip = '''', ui_port = 0, ui_suffix = ''''\<rparr>\<rparr>"

definition demo_dialogue :: RtspConnection where
  "demo_dialogue = (RtspConnection_new demo_request demo_client demo_conn)"

theorem RtspConnection_answers_request_witness:
  "\<exists>cn' s' text. handle_cmd demo_env demo_rtsp (demo_dialogue\<lparr>rn_request := demo_request\<lparr>rq_method := OPTIONS\<rparr>\<rparr>, demo_table) = Inr (cn', s') \<and>
    answer (demo_request\<lparr>rq_method := OPTIONS\<rparr>) text \<and>
    tc_accepted (rn_tcpConn cn') = tc_accepted demo_conn @ text \<and> tc_inv (rn_tcpConn cn') \<and>
    tc_state (rn_tcpConn cn') = (if OPTIONS = TEARDOWN then kDisconnecting else kConnected)"
  using RtspConnection_answers_request [of demo_env "demo_dialogue\<lparr>rn_request := demo_request\<lparr>rq_method := OPTIONS\<rparr>\<rparr>" demo_rtsp demo_table]
    demo_live
  by (simp add: demo_env_def demo_dialogue_def RtspConnection_new_def demo_request_def RtspRequest_reset_def
      RtspRequest_getCSeq_def param_num_def)

text \<open>
  A request that is out of order stops the server. When a complete PLAY, TEARDOWN or GET\_PARAMETER arrives
  on a connection that has not seen a DESCRIBE, the handler follows the null pointer \<open>_rtpConnPtr\<close>.
\<close>

theorem RtspConnection_early_request_null:
  assumes "rn_connMode cn = RTSP_SERVER" "rn_rtpConn cn = None"
    and "RtspRequest_parseRequest buf (rn_request cn) = Inr (True, buf', req)" "RtspRequest_gotAll req"
    and "rq_method req \<in> {PLAY, TEARDOWN, GET_PARAMETER}"
  shows "RtspConnection_handleRtspMessage e rt buf (cn, s) = Inl NullPointer"
  using assms
  by (auto simp: RtspConnection_handleRtspMessage_def RtspConnection_handleRtspRequest_def Let_def handle_cmd_def with_rtp_def
      RtspConnection_handleCmdPlay_def RtspConnection_handleCmdTeardown_def RtspConnection_handleCmdGetParamter_def)

theorem RtspConnection_early_request_null_witness:
  "RtspConnection_handleRtspMessage demo_env demo_rtsp
     (buffer_of (''TEARDOWN rtsp://10.0.0.1:554/live RTSP/1.0'' @ kCRLF @ ''CSeq: 1'' @ kCRLF @ kCRLF)) (demo_dialogue, demo_table)
   = Inl NullPointer"
proof -
  let ?text = "''TEARDOWN rtsp://10.0.0.1:554/live RTSP/1.0'' @ kCRLF @ ''CSeq: 1'' @ kCRLF @ kCRLF"
  let ?hs = "''CSeq: '' @ nat_dec 1 @ kCRLF @ []"
  have d: "nat_dec 1 = ''1''" "nat_dec 554 = ''554''" by code_simp+
  have "content (buffer_of ?text) = (''TEARDOWN'' @ '' '' @ rtsp_url ''10.0.0.1'' 554 ''live'' @ '' RTSP/1.0'') @ kCRLF @ ?hs @ kCRLF"
    unfolding buffer_of_ok(2) d(1) by (simp add: rtsp_url_def d(2))
  moreover have "url_ok ''10.0.0.1'' 554 ''live''" by (simp add: url_ok_def word_ok_def isspace_def)
  moreover have "no_nul ?hs" unfolding d(1) by (simp add: no_nul_def kCRLF_def)
  ultimately obtain b' r' where p: "RtspRequest_parseRequest (buffer_of ?text) (RtspRequest_reset demo_request) = Inr (True, b', r')"
      "RtspRequest_gotAll r'" "rq_method r' = TEARDOWN"
    using parseRequest_text [OF buffer_of_ok(1), of ?text "''TEARDOWN''" "''10.0.0.1''" 554 "''live''" ?hs 1 "[]" demo_request]
    by (auto simp: method_of_def)
  have "rn_request demo_dialogue = RtspRequest_reset demo_request"
    by (simp add: demo_dialogue_def RtspConnection_new_def demo_request_def RtspRequest_new_def RtspRequest_reset_def)
  then show ?thesis
    using p by (intro RtspConnection_early_request_null) (auto simp: demo_dialogue_def RtspConnection_new_def)
qed

lemma scast_small: "m < 128 \<Longrightarrow> (scast (of_nat m :: 8 word) :: 32 word) = of_nat m"
proof -
  assume "m < 128"
  then have "signed_take_bit 7 (int m) = int m" by (intro signed_take_bit_int_eq_self) simp_all
  then show ?thesis by (simp add: signed_of_nat)
qed

lemma rtcp_size_small:
  assumes "of_char c2 < (128 :: nat)" "of_char c3 < (128 :: nat)"
  shows "unat (rtcp_size c2 c3 + 4) = 256 * of_char c2 + of_char c3 + 4"
proof -
  let ?m = "of_char c2 :: nat" and ?k = "of_char c3 :: nat"
  have w: "(of_char c2 :: 8 word) = of_nat ?m" "(of_char c3 :: 8 word) = of_nat ?k" by (simp_all only: of_nat_of_char)
  have "push_bit 8 ?m AND take_bit 8 ?k = 0" by (rule bit_eqI) (auto simp: bit_simps)
  moreover have "take_bit 8 ?k = ?k" using assms(2) by (simp add: take_bit_nat_eq_self_iff)
  ultimately have "push_bit 8 ?m OR ?k = push_bit 8 ?m + ?k" by (simp add: disjunctive_add_eq_or)
  then have "rtcp_size c2 c3 = of_nat (256 * ?m + ?k)"
    unfolding rtcp_size_def w scast_small [OF assms(1)] scast_small [OF assms(2)] push_bit_of_nat of_nat_or_eq [symmetric]
    by (simp add: push_bit_eq_mult)
  then have "rtcp_size c2 c3 + 4 = of_nat (256 * ?m + ?k + 4)" by simp
  then show ?thesis using assms by (simp add: unat_of_nat del: of_nat_add)
qed

text \<open>
  RTCP on the TCP connection. A packet that is alone and complete in the buffer is skipped. A packet of which
  only a part (more than four bytes) has arrived makes the call to \<open>retrieve\<close> fail its assertion. A
  packet with anything behind it stays in the buffer. Sizes below 128 in each byte, where \<open>char\<close>
  being signed does not matter.
\<close>

theorem RtspConnection_handleRtcp_spec:
  assumes b: "buffer_ok b" "content b = CHR ''$'' # chn # c2 # c3 # rest" "rest \<noteq> []"
    and small: "of_char c2 < (128 :: nat)" "of_char c3 < (128 :: nat)"
  shows "(length rest = 256 * of_char c2 + of_char c3 \<longrightarrow>
      (\<exists>b'. RtspConnection_handleRtcp b = Inr b' \<and> buffer_ok b' \<and> content b' = [])) \<and>
    (length rest < 256 * of_char c2 + of_char c3 \<longrightarrow> RtspConnection_handleRtcp b = Inl AssertionFailed) \<and>
    (256 * of_char c2 + of_char c3 < length rest \<longrightarrow> RtspConnection_handleRtcp b = Inr b)"
proof -
  have n: "Buffer_readableBytes b = length rest + 4" using length_content [OF b(1)] b(2) by simp
  have p: "Buffer_peek b + 4 \<le> length (b_buffer b)"
    using n b(1) by (auto simp: buffer_ok_def buffer_observers)
  have four: "mem_read (b_buffer b) (Buffer_peek b) 4 = Inr [CHR ''$'', chn, c2, c3]"
    using p slice_content [OF b(1), of 4] b(2) by (simp add: mem_read_def)
  have one: "mem_read (b_buffer b) (Buffer_peek b) 1 = Inr ''$''"
    using peek_first [OF b(1,2)] by (simp add: mem_read_def)
  have run: "RtspConnection_handleRtcp b = (let k = 256 * of_char c2 + of_char c3 + 4 in
      if k \<ge> length rest + 4 then Buffer_retrieve b k else Inr b)"
    using one four n b(3) rtcp_size_small [OF small] by (simp add: RtspConnection_handleRtcp_def Let_def)
  then show ?thesis
    using Buffer_retrieve_spec [OF b(1), of "length rest + 4"] b(2) n by (auto simp: Buffer_retrieve_def)
qed

theorem RtspConnection_handleRtcp_spec_witness:
  "RtspConnection_handleRtcp (buffer_of [CHR ''$'', CHR 0x01, CHR 0x00, CHR 0x08, CHR ''a'']) = Inl AssertionFailed"
  using RtspConnection_handleRtcp_spec [OF buffer_of_ok(1), of "[CHR ''$'', CHR 0x01, CHR 0x00, CHR 0x08, CHR ''a'']"
      "CHR 0x01" "CHR 0x00" "CHR 0x08" "''a''"] by (simp add: buffer_of_ok(2))

section \<open>From DESCRIBE to PLAY\<close>

lemma map_of_emplace: "map_of kvs k = None \<Longrightarrow> map_of (map_emplace k v kvs) k = Some v"
  by (induction k v kvs rule: map_emplace.induct) (auto split: if_splits)

lemma addClient_registers:
  assumes "map_of (ms_clients m) fd = None"
  shows "map_of (ms_clients (snd (MediaSession_addClient fd a m))) fd = Some a"
  using assms by (simp add: MediaSession_addClient_def ms_notifyCallback_def map_of_emplace)

lemma getSdp_clients: "ms_clients (snd (MediaSession_getSdpMessage t ip n m)) = ms_clients m"
  "ms_sessionId (snd (MediaSession_getSdpMessage t ip n m)) = ms_sessionId m"
  by (simp_all add: MediaSession_getSdpMessage_def Let_def)

lemma describe_channel_fields:
  "rc_isClosed (describe_channel m ch r) = rc_isClosed r" "rc_ok r \<Longrightarrow> rc_ok (describe_channel m ch r)"
  "rc_hasIDRFrame (describe_channel m ch r) = rc_hasIDRFrame r"
  by (auto simp: describe_channel_def RtpConnection_setPayloadType_def RtpConnection_setClockRate_def upd_info_def
      rc_ok_def header_ok_def split: option.splits)

lemma RtpConnection_new_fields:
  "rc_isClosed (RtpConnection_new rd junk) = False" "rc_ok (RtpConnection_new rd junk)"
  "rc_hasIDRFrame (RtpConnection_new rd junk) = False"
proof -
  show "rc_ok (RtpConnection_new rd junk)"
    unfolding rc_ok_def
  proof
    fix ch show "header_ok (mi_rtpHeader (rc_info (RtpConnection_new rd junk) ch))"
      by (cases ch) (simp_all add: RtpConnection_new_def init_info_def header_ok_def)
  qed
qed (simp_all add: RtpConnection_new_def)

definition registered :: "32 word \<Rightarrow> int \<Rightarrow> oid \<Rightarrow> RtspServer \<Rightarrow> bool" where
  "registered sid fd a s \<longleftrightarrow> (\<exists>m. rs_mediaSessions s sid = Some (Some m) \<and> map_of (ms_clients m) fd = Some a)"

lemma describe_registers:
  assumes up: "live (en_tid e) (rn_tcpConn cn)" "steady (en_write e)"
    and fresh: "rn_rtpConn cn = None" "map_of (ms_clients m) fd = None" "fd = ch_fd (tc_channel (rn_tcpConn cn))"
    and s: "rs_rtspSuffixMap s (RtspRequest_getRtspUrlSuffix (rn_request cn)) = Some sid"
      "rs_mediaSessions s sid = Some (Some m)" "ms_sessionId m = sid"
  shows "\<exists>cn' s' r. RtspConnection_handleCmdDescribe e rt (cn, s) = Inr (cn', s') \<and> live (en_tid e) (rn_tcpConn cn') \<and>
    ch_fd (tc_channel (rn_tcpConn cn')) = fd \<and> rn_rtpConn cn' = Some r \<and> rn_rtpAddr cn' = en_rtpAddr e \<and>
    rn_sessionId cn' = sid \<and> \<not> rc_isClosed r \<and> rc_ok r \<and> \<not> rc_hasIDRFrame r \<and> registered sid fd (en_rtpAddr e) s'"
proof -
  let ?r0 = "RtpConnection_new (en_rd e) (en_rtpJunk e)"
  let ?m1 = "snd (MediaSession_addClient fd (en_rtpAddr e) m)"
  let ?r1 = "describe_channel ?m1 channel_1 (describe_channel ?m1 channel_0 ?r0)"
  obtain sdp m2 where sdp: "MediaSession_getSdpMessage (en_time e) (en_ip e) (rt_version rt) ?m1 = (sdp, m2)" by fastforce
  let ?cn = "cn\<lparr>rn_rtpAddr := en_rtpAddr e, rn_sessionId := sid, rn_rtpConn := Some ?r1\<rparr>"
  let ?s = "s\<lparr>rs_mediaSessions := (rs_mediaSessions s)(sid \<mapsto> Some m2)\<rparr>"
  let ?text = "if sdp = '''' then RtspRequest_buildServerErrorRes 1024 (rn_request cn)
     else RtspRequest_buildDescribeRes 1024 (cstr sdp) (rn_request cn)"
  have run: "RtspConnection_handleCmdDescribe e rt (cn, s) = RtspConnection_sendMessage e ?text (?cn, ?s)"
    using fresh(1,3) s sdp by (simp add: RtspConnection_handleCmdDescribe_def Let_def RtspServer_lookMediaSession_suffix_def
        store_session_def case_prod_beta)
  have "live (en_tid e) (rn_tcpConn ?cn)" using up(1) by simp
  from sendMessage_live [OF this up(2), of ?text ?s] obtain c where
    c: "RtspConnection_sendMessage e ?text (?cn, ?s) = Inr (?cn\<lparr>rn_tcpConn := c\<rparr>, ?s)" "live (en_tid e) c"
      "ch_fd (tc_channel c) = fd" using fresh(3) by auto
  have "map_of (ms_clients m2) fd = Some (en_rtpAddr e)"
    using addClient_registers [OF fresh(2)] getSdp_clients(1) [of "en_time e" "en_ip e" "rt_version rt" ?m1] sdp by simp
  moreover have "\<not> rc_isClosed ?r1" "rc_ok ?r1" "\<not> rc_hasIDRFrame ?r1"
    by (simp_all add: describe_channel_fields RtpConnection_new_fields)
  ultimately show ?thesis
    unfolding run using c by (auto simp: registered_def)
qed

lemma setup_tcp:
  assumes up: "live (en_tid e) (rn_tcpConn cn)" "steady (en_write e)"
    and cn: "rn_rtpConn cn = Some r" "RtspServer_lookMediaSession (rn_sessionId cn) s \<noteq> None"
      "rq_transport (rn_request cn) = RTP_OVER_TCP" "rq_channelId (rn_request cn) = ch"
  shows "\<exists>c. RtspConnection_handleCmdSetup e (cn, s) =
      Inr (cn\<lparr>rn_rtpConn := Some (snd (RtpConnection_setupRtpOverTcp (Some (rn_tcpConn cn)) ch
          (ucast (RtspRequest_getRtpChannel (rn_request cn))) (ucast (RtspRequest_getRtcpChannel (rn_request cn))) r)),
        rn_tcpConn := c\<rparr>, s) \<and> live (en_tid e) c \<and> ch_fd (tc_channel c) = ch_fd (tc_channel (rn_tcpConn cn))"
proof -
  let ?r = "snd (RtpConnection_setupRtpOverTcp (Some (rn_tcpConn cn)) ch
     (ucast (RtspRequest_getRtpChannel (rn_request cn))) (ucast (RtspRequest_getRtcpChannel (rn_request cn))) r)"
  let ?text = "RtspRequest_buildSetupTcpRes 1024 (ucast (RtspRequest_getRtpChannel (rn_request cn)))
     (ucast (RtspRequest_getRtcpChannel (rn_request cn))) (short_id r) (rn_request cn)"
  have "live (en_tid e) (rn_tcpConn (cn\<lparr>rn_rtpConn := Some ?r\<rparr>))" using up(1) by simp
  from sendMessage_live [OF this up(2), of ?text s] obtain c where
    "RtspConnection_sendMessage e ?text (cn\<lparr>rn_rtpConn := Some ?r\<rparr>, s) = Inr (cn\<lparr>rn_rtpConn := Some ?r, rn_tcpConn := c\<rparr>, s)"
    "live (en_tid e) c" "ch_fd (tc_channel c) = ch_fd (tc_channel (rn_tcpConn cn))" by auto
  moreover have "RtspConnection_handleCmdSetup e (cn, s) = RtspConnection_sendMessage e ?text (cn\<lparr>rn_rtpConn := Some ?r\<rparr>, s)"
    using cn by (auto simp: RtspConnection_handleCmdSetup_def Let_def with_rtp_def case_prod_beta)
  ultimately show ?thesis by auto
qed

lemma play_sets:
  assumes up: "live (en_tid e) (rn_tcpConn cn)" "steady (en_write e)" and r: "rn_rtpConn cn = Some r"
  shows "\<exists>c. RtspConnection_handleCmdPlay e (cn, s) =
      Inr (cn\<lparr>rn_connState := START_PLAY, rn_rtpConn := Some (RtpConnection_play r), rn_tcpConn := c\<rparr>, s) \<and>
      live (en_tid e) c \<and> ch_fd (tc_channel c) = ch_fd (tc_channel (rn_tcpConn cn))"
proof -
  let ?cn = "cn\<lparr>rn_connState := START_PLAY, rn_rtpConn := Some (RtpConnection_play r)\<rparr>"
  let ?text = "RtspRequest_buildPlayRes 1024 None (short_id (RtpConnection_play r)) (rn_request cn)"
  have "live (en_tid e) (rn_tcpConn ?cn)" using up(1) by simp
  from sendMessage_live [OF this up(2), of ?text s] obtain c where
    "RtspConnection_sendMessage e ?text (?cn, s) = Inr (?cn\<lparr>rn_tcpConn := c\<rparr>, s)"
    "live (en_tid e) c" "ch_fd (tc_channel c) = ch_fd (tc_channel (rn_tcpConn cn))" by auto
  then show ?thesis using r by (auto simp: RtspConnection_handleCmdPlay_def Let_def with_rtp_def)
qed

lemma setup_play_playing:
  assumes "\<not> rc_isClosed r" "rc_ok r"
  shows "playing ch (RtpConnection_play (snd (RtpConnection_setupRtpOverTcp (Some c) ch a b r)))"
    "mi_rtpChannel (rc_info (RtpConnection_play (snd (RtpConnection_setupRtpOverTcp (Some c) ch a b r))) ch) = a"
  using assms by (cases ch; auto simp: playing_def RtpConnection_play_def RtpConnection_setupRtpOverTcp_def upd_all_def
      upd_info_def rc_ok_def header_ok_def)+



end
