(* ===== verification/Base_ThreadPool.thy ===== *)
theory Base_ThreadPool
  imports Prelude
begin

text \<open>
  Threads that share work: \<open>base/ThreadPool\<close> and \<open>base/CountDownLatch.h\<close>.

  A critical section is one step. A thread whose wait predicate is false sleeps on the condition variable and is made
  runnable again by \<open>notify_all\<close> or spuriously; the read of \<open>_running\<close> by the loop of a worker, which takes no
  lock, is a step of its own. Tasks end; a task that throws makes the worker abort the program, which is not a
  step here. The logs of the tasks put and taken are ghosts.
\<close>

section \<open>The pool\<close>

record 'a ThreadPool =
  tp_queue :: "'a list"
  tp_maxQueueSize :: nat
  tp_running :: bool
  tp_threads :: nat

definition ThreadPool_new :: "'a ThreadPool" where
  "ThreadPool_new = \<lparr>tp_queue = [], tp_maxQueueSize = 0, tp_running = False, tp_threads = 0\<rparr>"

text \<open>The \<open>int\<close> is converted to \<open>size_t\<close>: a negative size is a huge one.\<close>

definition ThreadPool_setMaxQueueSize :: "int \<Rightarrow> 'a ThreadPool \<Rightarrow> 'a ThreadPool" where
  "ThreadPool_setMaxQueueSize maxSize p = p\<lparr>tp_maxQueueSize := nat (maxSize mod 2 ^ 64)\<rparr>"

text \<open>The second component: whether the init callback is run by the caller.\<close>

definition ThreadPool_start :: "nat \<Rightarrow> 'a ThreadPool \<Rightarrow> ('a ThreadPool \<times> bool) result" where
  "ThreadPool_start numThreads p =
     bindR (assertR (tp_threads p = 0)) (\<lambda>_.
     Inr (p\<lparr>tp_running := True, tp_threads := numThreads\<rparr>, numThreads = 0))"

definition ThreadPool_queueSize :: "'a ThreadPool \<Rightarrow> nat" where
  "ThreadPool_queueSize p = length (tp_queue p)"

text \<open>\<open>run\<close> under the lock, when there are threads: \<open>None\<close> when it has to wait for room.\<close>

definition ThreadPool_run :: "'a \<Rightarrow> 'a ThreadPool \<Rightarrow> 'a ThreadPool option" where
  "ThreadPool_run task p =
     (if 0 < tp_maxQueueSize p \<and> tp_maxQueueSize p \<le> length (tp_queue p) then None
      else Some (p\<lparr>tp_queue := tp_queue p @ [task]\<rparr>))"

text \<open>\<open>take\<close> under the lock: \<open>None\<close> when it has to wait, otherwise the task, which may be empty.\<close>

definition ThreadPool_take :: "'a ThreadPool \<Rightarrow> ('a option \<times> 'a ThreadPool) option" where
  "ThreadPool_take p =
     (if tp_queue p = [] \<and> tp_running p then None
      else case tp_queue p of [] \<Rightarrow> Some (None, p) | task # rest \<Rightarrow> Some (Some task, p\<lparr>tp_queue := rest\<rparr>))"

definition ThreadPool_stop :: "'a ThreadPool \<Rightarrow> 'a ThreadPool" where
  "ThreadPool_stop p = p\<lparr>tp_running := False\<rparr>"

section \<open>Workers and callers\<close>

text \<open>Where a worker is in \<open>runInThread\<close>, and a caller in \<open>run\<close>.\<close>

datatype 'a worker = Looping | InTake | WaitNotEmpty | Working 'a | Exited

datatype 'a caller = Outside | InRun 'a | WaitNotFull 'a

record 'a pool_system =
  sy_pool :: "'a ThreadPool"
  sy_workers :: "nat \<Rightarrow> 'a worker"
  sy_callers :: "nat \<Rightarrow> 'a caller"
  sy_put :: "'a list"
  sy_taken :: "'a list"

definition notify_workers :: "(nat \<Rightarrow> 'a worker) \<Rightarrow> nat \<Rightarrow> 'a worker" where
  "notify_workers ws = (\<lambda>i. if ws i = WaitNotEmpty then InTake else ws i)"

definition notify_callers :: "(nat \<Rightarrow> 'a caller) \<Rightarrow> nat \<Rightarrow> 'a caller" where
  "notify_callers cs = (\<lambda>c. case cs c of WaitNotFull x \<Rightarrow> InRun x | st \<Rightarrow> st)"

text \<open>What the lock-holder does in \<open>take\<close>: the task is logged, callers are woken when the queue is bounded.\<close>

definition taken :: "nat \<Rightarrow> 'a option \<times> 'a ThreadPool \<Rightarrow> 'a pool_system \<Rightarrow> 'a pool_system" where
  "taken i r s = (case r of
     (None, p) \<Rightarrow> s\<lparr>sy_pool := p, sy_workers := (sy_workers s)(i := Looping)\<rparr>
   | (Some x, p) \<Rightarrow> s\<lparr>sy_pool := p, sy_workers := (sy_workers s)(i := Working x),
       sy_callers := (if 0 < tp_maxQueueSize p then notify_callers (sy_callers s) else sy_callers s),
       sy_taken := sy_taken s @ [x]\<rparr>)"

inductive worker_step :: "nat \<Rightarrow> 'a pool_system \<Rightarrow> 'a pool_system \<Rightarrow> bool" for i where
  w_loop: "sy_workers s i = Looping \<Longrightarrow>
     worker_step i s (s\<lparr>sy_workers := (sy_workers s)(i := if tp_running (sy_pool s) then InTake else Exited)\<rparr>)"
| w_take: "sy_workers s i = InTake \<Longrightarrow> ThreadPool_take (sy_pool s) = Some r \<Longrightarrow> worker_step i s (taken i r s)"
| w_wait: "sy_workers s i = InTake \<Longrightarrow> ThreadPool_take (sy_pool s) = None \<Longrightarrow>
     worker_step i s (s\<lparr>sy_workers := (sy_workers s)(i := WaitNotEmpty)\<rparr>)"
| w_spurious: "sy_workers s i = WaitNotEmpty \<Longrightarrow> worker_step i s (s\<lparr>sy_workers := (sy_workers s)(i := InTake)\<rparr>)"
| w_done: "sy_workers s i = Working x \<Longrightarrow> worker_step i s (s\<lparr>sy_workers := (sy_workers s)(i := Looping)\<rparr>)"

inductive pool_step :: "'a pool_system \<Rightarrow> 'a pool_system \<Rightarrow> bool" where
  p_worker: "i < tp_threads (sy_pool s) \<Longrightarrow> worker_step i s s' \<Longrightarrow> pool_step s s'"
| p_call: "sy_callers s c = Outside \<Longrightarrow> pool_step s (s\<lparr>sy_callers := (sy_callers s)(c := InRun x)\<rparr>)"
| p_run: "sy_callers s c = InRun x \<Longrightarrow> ThreadPool_run x (sy_pool s) = Some p \<Longrightarrow>
     pool_step s (s\<lparr>sy_pool := p, sy_workers := notify_workers (sy_workers s), sy_callers := (sy_callers s)(c := Outside),
       sy_put := sy_put s @ [x]\<rparr>)"
| p_wait: "sy_callers s c = InRun x \<Longrightarrow> ThreadPool_run x (sy_pool s) = None \<Longrightarrow>
     pool_step s (s\<lparr>sy_callers := (sy_callers s)(c := WaitNotFull x)\<rparr>)"
| p_spurious: "sy_callers s c = WaitNotFull x \<Longrightarrow> pool_step s (s\<lparr>sy_callers := (sy_callers s)(c := InRun x)\<rparr>)"
| p_stop: "pool_step s (s\<lparr>sy_pool := ThreadPool_stop (sy_pool s), sy_workers := notify_workers (sy_workers s)\<rparr>)"

text \<open>A pool that has just been started with some threads; the callers are outside.\<close>

definition pool_started :: "'a ThreadPool \<Rightarrow> 'a pool_system" where
  "pool_started p = \<lparr>sy_pool = p, sy_workers = (\<lambda>_. Looping), sy_callers = (\<lambda>_. Outside), sy_put = [], sy_taken = []\<rparr>"

inductive pool_reachable :: "'a pool_system \<Rightarrow> bool" where
  pr_start: "ThreadPool_start n (ThreadPool_setMaxQueueSize m ThreadPool_new) = Inr (p, b) \<Longrightarrow> 0 < n \<Longrightarrow>
     pool_reachable (pool_started p)"
| pr_step: "pool_reachable s \<Longrightarrow> pool_step s s' \<Longrightarrow> pool_reachable s'"


lemma notify_workers_simps [simp]:
  "notify_workers ws i \<noteq> WaitNotEmpty" "notify_workers ws i = Working x \<longleftrightarrow> ws i = Working x"
  "notify_workers ws i = Exited \<longleftrightarrow> ws i = Exited"
  by (auto simp: notify_workers_def)

lemma notify_callers_simps [simp]: "notify_callers cs c \<noteq> WaitNotFull x" "notify_callers cs c = Outside \<longleftrightarrow> cs c = Outside"
  by (auto simp: notify_callers_def split: caller.splits)

definition pool_inv :: "'a pool_system \<Rightarrow> bool" where
  "pool_inv s \<longleftrightarrow> sy_put s = sy_taken s @ tp_queue (sy_pool s) \<and>
     (0 < tp_maxQueueSize (sy_pool s) \<longrightarrow> length (tp_queue (sy_pool s)) \<le> tp_maxQueueSize (sy_pool s)) \<and>
     (\<forall>i. sy_workers s i = WaitNotEmpty \<longrightarrow> tp_queue (sy_pool s) = [] \<and> tp_running (sy_pool s)) \<and>
     (\<forall>c x. sy_callers s c = WaitNotFull x \<longrightarrow>
        0 < tp_maxQueueSize (sy_pool s) \<and> tp_maxQueueSize (sy_pool s) \<le> length (tp_queue (sy_pool s)))"

lemma worker_step_inv:
  assumes "worker_step i s s'" "pool_inv s"
  shows "pool_inv s'"
  using assms(1)
proof (cases rule: worker_step.cases)
  case (w_take r)
  then show ?thesis
    using assms(2) by (auto simp: pool_inv_def ThreadPool_take_def taken_def split: if_splits list.splits)
qed (use assms(2) in \<open>auto simp: pool_inv_def ThreadPool_take_def split: if_splits list.splits\<close>)

lemma pool_step_inv:
  assumes "pool_step s s'" "pool_inv s"
  shows "pool_inv s'"
  using assms(1)
proof cases
  case p_worker
  then show ?thesis using worker_step_inv assms(2) by blast
qed (use assms(2) in \<open>auto simp: pool_inv_def ThreadPool_run_def ThreadPool_stop_def split: if_splits\<close>)

lemma pool_reachable_inv: "pool_reachable s \<Longrightarrow> pool_inv s"
proof (induction rule: pool_reachable.induct)
  case pr_start
  then show ?case
    by (auto simp: pool_started_def pool_inv_def ThreadPool_start_def ThreadPool_setMaxQueueSize_def ThreadPool_new_def)
qed (rule pool_step_inv)

text \<open>
  C28. The thread pool, under every interleaving of any number of workers and callers: tasks are taken
  in the order they were put, each once; a bounded queue never holds more than its bound; a worker
  sleeps only while the queue is empty and the pool is running, a caller only while the queue is full.
\<close>

theorem ThreadPool_safe:
  assumes "pool_reachable s"
  shows "sy_put s = sy_taken s @ tp_queue (sy_pool s) \<and>
     (0 < tp_maxQueueSize (sy_pool s) \<longrightarrow> ThreadPool_queueSize (sy_pool s) \<le> tp_maxQueueSize (sy_pool s)) \<and>
     (\<forall>i. sy_workers s i = WaitNotEmpty \<longrightarrow> tp_queue (sy_pool s) = [] \<and> tp_running (sy_pool s)) \<and>
     (\<forall>c x. sy_callers s c = WaitNotFull x \<longrightarrow> 0 < tp_maxQueueSize (sy_pool s) \<and>
        ThreadPool_queueSize (sy_pool s) = tp_maxQueueSize (sy_pool s))"
  using pool_reachable_inv [OF assms] by (auto simp: pool_inv_def ThreadPool_queueSize_def intro: order.antisym)

text \<open>A run that ends with a full queue, a caller asleep and, after \<open>stop\<close>, no worker left.\<close>

definition pool_example :: "nat \<Rightarrow> nat pool_system" where
  "pool_example k = \<lparr>sy_pool = \<lparr>tp_queue = (if k \<ge> 2 then [7] else []), tp_maxQueueSize = 1, tp_running = (k < 5), tp_threads = 1\<rparr>,
     sy_workers = (if k \<ge> 6 then (\<lambda>_. Looping)(0 := Exited) else (\<lambda>_. Looping)),
     sy_callers = (if k = 0 then (\<lambda>_. Outside) else if k = 1 then (\<lambda>_. Outside)(0 := InRun 7)
       else if k = 2 then (\<lambda>_. Outside) else if k = 3 then (\<lambda>_. Outside)(1 := InRun 8) else (\<lambda>_. Outside)(1 := WaitNotFull 8)),
     sy_put = (if k \<ge> 2 then [7] else []), sy_taken = []\<rparr>"

lemma pool_example_step: "k < 6 \<Longrightarrow> pool_step (pool_example k) (pool_example (Suc k))"
proof -
  have up: "(f(a := b))(a := f a) = f" for f :: "nat \<Rightarrow> nat caller" and a b by auto
  have nw: "notify_workers (\<lambda>_. Looping) = (\<lambda>_. Looping)" by (auto simp: notify_workers_def)
  have "pool_step (pool_example 0) (pool_example 1)"
    using p_call [of "pool_example 0" 0 7] by (simp add: pool_example_def)
  moreover have "pool_step (pool_example 1) (pool_example 2)"
    using p_run [of "pool_example 1" 0 7 "sy_pool (pool_example 2)"]
    by (simp add: pool_example_def ThreadPool_run_def nw fun_upd_idem)
  moreover have "pool_step (pool_example 2) (pool_example 3)"
    using p_call [of "pool_example 2" 1 8] by (simp add: pool_example_def)
  moreover have "pool_step (pool_example 3) (pool_example 4)"
    using p_wait [of "pool_example 3" 1 8] by (simp add: pool_example_def ThreadPool_run_def)
  moreover have "pool_step (pool_example 4) (pool_example 5)"
    using p_stop [of "pool_example 4"] by (simp add: pool_example_def ThreadPool_stop_def nw)
  moreover have "pool_step (pool_example 5) (pool_example 6)"
    using p_worker [OF _ w_loop [of "pool_example 5" 0]] by (simp add: pool_example_def)
  ultimately show "k < 6 \<Longrightarrow> ?thesis"
    by (auto simp: less_Suc_eq numeral_eq_Suc)
qed

lemma pool_example_reachable: "k \<le> 6 \<Longrightarrow> pool_reachable (pool_example k)"
proof (induction k)
  case 0
  have "pool_reachable (pool_started (sy_pool (pool_example 0)))"
    by (rule pr_start [of 1 1 _ False])
      (simp_all add: pool_example_def ThreadPool_start_def ThreadPool_new_def ThreadPool_setMaxQueueSize_def)
  then show ?case by (simp add: pool_started_def pool_example_def)
next
  case (Suc k)
  then show ?case using pool_example_step by (auto intro: pr_step)
qed

theorem ThreadPool_safe_witness:
  "pool_reachable (pool_example 4) \<and> sy_callers (pool_example 4) 1 = WaitNotFull 8 \<and>
   ThreadPool_queueSize (sy_pool (pool_example 4)) = tp_maxQueueSize (sy_pool (pool_example 4))"
proof -
  have r: "pool_reachable (pool_example 4)" by (rule pool_example_reachable) simp
  moreover have c: "sy_callers (pool_example 4) 1 = WaitNotFull 8" by (simp add: pool_example_def)
  ultimately show ?thesis using ThreadPool_safe [OF r] by blast
qed

section \<open>Stopping\<close>

text \<open>How many steps a worker of a stopped pool can still make.\<close>

fun worker_rank :: "'a worker \<Rightarrow> nat" where
  "worker_rank Exited = 0"
| "worker_rank Looping = 1"
| "worker_rank (Working x) = 2"
| "worker_rank InTake = 3"
| "worker_rank WaitNotEmpty = 4"

text \<open>A run of the pool in which the worker \<open>i\<close> makes \<open>n\<close> of the steps.\<close>

inductive pool_run :: "nat \<Rightarrow> 'a pool_system \<Rightarrow> nat \<Rightarrow> 'a pool_system \<Rightarrow> bool" for i s where
  run_refl: "pool_run i s 0 s"
| run_own: "pool_run i s n t \<Longrightarrow> worker_step i t u \<Longrightarrow> i < tp_threads (sy_pool t) \<Longrightarrow> pool_run i s (Suc n) u"
| run_other: "pool_run i s n t \<Longrightarrow> pool_step t u \<Longrightarrow> pool_run i s n u"

lemma stopped_worker_step:
  assumes "worker_step i s s'" "pool_inv s" "\<not> tp_running (sy_pool s)"
  shows "\<not> tp_running (sy_pool s') \<and> worker_rank (sy_workers s' i) < worker_rank (sy_workers s i) \<and>
    (\<forall>j. j \<noteq> i \<longrightarrow> sy_workers s' j = sy_workers s j)"
  using assms(1)
proof (cases rule: worker_step.cases)
  case (w_take r)
  then show ?thesis
    using assms by (auto simp: taken_def ThreadPool_take_def split: list.splits)
qed (use assms in \<open>auto simp: pool_inv_def ThreadPool_take_def split: list.splits\<close>)

lemma stopped_pool_step:
  assumes "pool_step s s'" "pool_inv s" "\<not> tp_running (sy_pool s)"
  shows "\<not> tp_running (sy_pool s') \<and> worker_rank (sy_workers s' i) \<le> worker_rank (sy_workers s i)"
  using assms(1)
proof cases
  case (p_worker j)
  then show ?thesis
    using stopped_worker_step [OF p_worker(2) assms(2,3)] by (cases "i = j") auto
qed (use assms in \<open>auto simp: ThreadPool_run_def ThreadPool_stop_def notify_workers_def split: if_splits\<close>)

lemma stopped_pool_run:
  assumes "pool_run i s n t" "pool_inv s" "\<not> tp_running (sy_pool s)"
  shows "pool_inv t \<and> \<not> tp_running (sy_pool t) \<and> n + worker_rank (sy_workers t i) \<le> worker_rank (sy_workers s i)"
  using assms
proof (induction rule: pool_run.induct)
  case (run_own n t u)
  then show ?case
    using stopped_worker_step [of i t u] worker_step_inv [of i t u] by force
next
  case (run_other n t u)
  then show ?case
    using stopped_pool_step [of t u i] pool_step_inv [of t u] by force
qed simp

lemma stopped_worker_enabled:
  assumes "pool_inv s" "\<not> tp_running (sy_pool s)" "sy_workers s i \<noteq> Exited"
  shows "\<exists>s'. worker_step i s s'"
proof (cases "sy_workers s i")
  case InTake
  obtain r where "ThreadPool_take (sy_pool s) = Some r"
    using assms(2) by (cases "tp_queue (sy_pool s)") (auto simp: ThreadPool_take_def)
  with InTake show ?thesis using w_take by blast
qed (use assms in \<open>auto simp: pool_inv_def intro: worker_step.intros\<close>)

text \<open>
  \<open>stop\<close> ends the pool: whatever the other threads do, a worker of a stopped pool makes at most
  three more steps, and as long as it has not exited it can make one; so every join in \<open>stop\<close> returns
  once the running tasks have ended.
\<close>

theorem ThreadPool_stop_ends_workers:
  assumes "pool_reachable s" and "pool_run i (s\<lparr>sy_pool := ThreadPool_stop (sy_pool s), sy_workers := notify_workers (sy_workers s)\<rparr>) n t"
  shows "n \<le> 3 \<and> (n = 3 \<longrightarrow> sy_workers t i = Exited) \<and> (sy_workers t i = Exited \<or> (\<exists>u. worker_step i t u))"
proof -
  let ?s = "s\<lparr>sy_pool := ThreadPool_stop (sy_pool s), sy_workers := notify_workers (sy_workers s)\<rparr>"
  have inv: "pool_inv ?s" using pool_reachable_inv [OF assms(1)] p_stop pool_step_inv by blast
  have stopped: "\<not> tp_running (sy_pool ?s)" by (simp add: ThreadPool_stop_def)
  have rank: "worker_rank (sy_workers ?s i) \<le> 3" by (cases "sy_workers s i") (auto simp: notify_workers_def)
  have t: "pool_inv t" "\<not> tp_running (sy_pool t)" "n + worker_rank (sy_workers t i) \<le> 3"
    using stopped_pool_run [OF assms(2) inv stopped] rank by auto
  then have "n = 3 \<Longrightarrow> sy_workers t i = Exited" by (cases "sy_workers t i") auto
  then show ?thesis using t stopped_worker_enabled [OF t(1,2)] by auto
qed

theorem ThreadPool_stop_ends_workers_witness:
  "\<exists>t. pool_run 0 (pool_example 5) 1 t \<and> sy_workers t 0 = Exited \<and> (1::nat) \<le> 3"
proof -
  have s: "pool_reachable (pool_example 4)" by (rule pool_example_reachable) simp
  have e: "pool_example 5 = (pool_example 4)\<lparr>sy_pool := ThreadPool_stop (sy_pool (pool_example 4)),
      sy_workers := notify_workers (sy_workers (pool_example 4))\<rparr>"
    by (simp add: pool_example_def ThreadPool_stop_def) (simp add: notify_workers_def)
  have "worker_step 0 (pool_example 5) (pool_example 6)"
    using w_loop [of "pool_example 5" 0] by (simp add: pool_example_def)
  then have r: "pool_run 0 (pool_example 5) 1 (pool_example 6)"
    using run_own [OF run_refl, of 0 "pool_example 5"] by (simp add: pool_example_def)
  then show ?thesis
    using ThreadPool_stop_ends_workers [OF s r [unfolded e]] by (auto simp: pool_example_def)
qed

text \<open>The state after \<open>stop\<close> in which nothing happens any more: no worker is left and the queue is full.\<close>

definition pool_stuck :: "'a list \<Rightarrow> nat \<Rightarrow> nat \<Rightarrow> 'a \<Rightarrow> 'a pool_system \<Rightarrow> bool" where
  "pool_stuck xs m c x s \<longleftrightarrow> tp_queue (sy_pool s) = xs \<and> tp_maxQueueSize (sy_pool s) = m \<and> 0 < m \<and> m \<le> length xs \<and>
     (\<forall>i < tp_threads (sy_pool s). sy_workers s i = Exited) \<and> (sy_callers s c = WaitNotFull x \<or> sy_callers s c = InRun x)"

lemma pool_stuck_step: "pool_step s s' \<Longrightarrow> pool_stuck xs m c x s \<Longrightarrow> pool_stuck xs m c x s'"
  by (induction rule: pool_step.induct)
    (auto simp: pool_stuck_def ThreadPool_run_def ThreadPool_stop_def elim!: worker_step.cases)

text \<open>
  \<open>stop\<close> forgets the callers: when the workers have exited and the queue is full, a caller that
  waits in \<open>run\<close> for room never returns, whatever happens next, and the tasks of the queue, which \<open>run\<close>
  accepted, are never taken.
\<close>

theorem ThreadPool_stop_strands_caller:
  assumes "pool_step\<^sup>*\<^sup>* s t"
    and "\<forall>i < tp_threads (sy_pool s). sy_workers s i = Exited"
    and "0 < tp_maxQueueSize (sy_pool s)" "tp_maxQueueSize (sy_pool s) \<le> ThreadPool_queueSize (sy_pool s)"
    and "sy_callers s c = WaitNotFull x"
  shows "(sy_callers t c = WaitNotFull x \<or> sy_callers t c = InRun x) \<and> tp_queue (sy_pool t) = tp_queue (sy_pool s)"
proof -
  have "pool_stuck (tp_queue (sy_pool s)) (tp_maxQueueSize (sy_pool s)) c x s"
    using assms(2-) by (simp add: pool_stuck_def ThreadPool_queueSize_def)
  with assms(1) have "pool_stuck (tp_queue (sy_pool s)) (tp_maxQueueSize (sy_pool s)) c x t"
    by (induction rule: rtranclp_induct) (auto intro: pool_stuck_step)
  then show ?thesis by (auto simp: pool_stuck_def)
qed

theorem ThreadPool_stop_strands_caller_witness:
  "pool_reachable (pool_example 6) \<and> (\<exists>t. pool_step\<^sup>*\<^sup>* (pool_example 6) t \<and> sy_callers t 1 = InRun 8 \<and> tp_queue (sy_pool t) = [7])"
proof -
  let ?t = "(pool_example 6)\<lparr>sy_callers := (sy_callers (pool_example 6))(1 := InRun 8)\<rparr>"
  have "pool_step (pool_example 6) ?t"
    using p_spurious [of "pool_example 6" 1 8] by (simp add: pool_example_def)
  then have "pool_step\<^sup>*\<^sup>* (pool_example 6) ?t" by simp
  moreover from ThreadPool_stop_strands_caller [OF this, of 1 8] have "tp_queue (sy_pool ?t) = [7]"
    by (simp add: pool_example_def ThreadPool_queueSize_def)
  ultimately show ?thesis using pool_example_reachable [of 6] by force
qed

section \<open>CountDownLatch\<close>

text \<open>The counter is an \<open>int\<close> that is only decremented; it is supposed not to reach the smallest one.\<close>

definition CountDownLatch_wait :: "int \<Rightarrow> bool" where
  "CountDownLatch_wait count \<longleftrightarrow> count = 0"

text \<open>The new count, and whether all waiters are notified.\<close>

definition CountDownLatch_countDown :: "int \<Rightarrow> int \<times> bool" where
  "CountDownLatch_countDown count = (let count' = count - 1 in (count', count' = 0))"

datatype waiter = NotCalled | InWait | Asleep | Returned

record latch_system =
  ls_count :: int
  ls_waiters :: "nat \<Rightarrow> waiter"
  ls_downs :: nat

definition wake_all :: "(nat \<Rightarrow> waiter) \<Rightarrow> nat \<Rightarrow> waiter" where
  "wake_all ws = (\<lambda>t. if ws t = Asleep then InWait else ws t)"

inductive latch_step :: "latch_system \<Rightarrow> latch_system \<Rightarrow> bool" where
  l_call: "ls_waiters s t = NotCalled \<Longrightarrow> latch_step s (s\<lparr>ls_waiters := (ls_waiters s)(t := InWait)\<rparr>)"
| l_wait: "ls_waiters s t = InWait \<Longrightarrow>
     latch_step s (s\<lparr>ls_waiters := (ls_waiters s)(t := if CountDownLatch_wait (ls_count s) then Returned else Asleep)\<rparr>)"
| l_spurious: "ls_waiters s t = Asleep \<Longrightarrow> latch_step s (s\<lparr>ls_waiters := (ls_waiters s)(t := InWait)\<rparr>)"
| l_down: "CountDownLatch_countDown (ls_count s) = (n, b) \<Longrightarrow>
     latch_step s (s\<lparr>ls_count := n, ls_waiters := (if b then wake_all (ls_waiters s) else ls_waiters s), ls_downs := Suc (ls_downs s)\<rparr>)"

definition latch_new :: "int \<Rightarrow> latch_system" where
  "latch_new n = \<lparr>ls_count = n, ls_waiters = (\<lambda>_. NotCalled), ls_downs = 0\<rparr>"

lemma latch_inv:
  assumes "latch_step\<^sup>*\<^sup>* (latch_new n) s"
  shows "ls_count s = n - int (ls_downs s) \<and> (\<forall>t. ls_waiters s t = Asleep \<longrightarrow> ls_count s \<noteq> 0) \<and>
    (\<forall>t. ls_waiters s t = Returned \<longrightarrow> ls_count s \<le> 0)"
  using assms
proof (induction rule: rtranclp_induct)
  case (step s s')
  from step.hyps(2) step.IH show ?case
    by cases (auto simp: CountDownLatch_wait_def CountDownLatch_countDown_def wake_all_def Let_def split: if_splits)
qed (simp add: latch_new_def)

lemma latch_late:
  assumes "latch_step\<^sup>*\<^sup>* s s'" "ls_count s < 0" "ls_waiters s t \<noteq> Returned"
  shows "ls_count s' < 0 \<and> ls_waiters s' t \<noteq> Returned"
  using assms
proof (induction rule: rtranclp_induct)
  case (step u v)
  from step.hyps(2) have "ls_count u < 0 \<and> ls_waiters u t \<noteq> Returned \<Longrightarrow> ?case"
    by cases (auto simp: CountDownLatch_wait_def CountDownLatch_countDown_def wake_all_def Let_def split: if_splits)
  then show ?case using step.IH step.prems by blast
qed simp

text \<open>
  The latch of a count \<open>n\<close>: \<open>wait\<close> returns only after \<open>n\<close> calls of \<open>countDown\<close>; after exactly \<open>n\<close> calls no
  waiter sleeps and each of them can return; one call too many, and a thread that has not returned
  by then never does.
\<close>

theorem CountDownLatch_opens_at_zero:
  assumes "latch_step\<^sup>*\<^sup>* (latch_new n) s"
  shows "(ls_waiters s t = Returned \<longrightarrow> n \<le> int (ls_downs s)) \<and>
     (int (ls_downs s) = n \<and> ls_waiters s t \<noteq> NotCalled \<longrightarrow> ls_waiters s t = Returned \<or>
        ls_waiters s t = InWait \<and> latch_step s (s\<lparr>ls_waiters := (ls_waiters s)(t := Returned)\<rparr>)) \<and>
     (n < int (ls_downs s) \<and> ls_waiters s t \<noteq> Returned \<and> latch_step\<^sup>*\<^sup>* s s' \<longrightarrow> ls_waiters s' t \<noteq> Returned)"
proof -
  note inv = latch_inv [OF assms]
  have "int (ls_downs s) = n \<Longrightarrow> ls_waiters s t = InWait \<Longrightarrow> latch_step s (s\<lparr>ls_waiters := (ls_waiters s)(t := Returned)\<rparr>)"
    using l_wait [of s t] inv by (simp add: CountDownLatch_wait_def)
  moreover have "int (ls_downs s) = n \<Longrightarrow> ls_waiters s t \<noteq> Asleep" using inv by auto
  moreover have "n < int (ls_downs s) \<Longrightarrow> ls_waiters s t \<noteq> Returned \<Longrightarrow> latch_step\<^sup>*\<^sup>* s s' \<Longrightarrow> ls_waiters s' t \<noteq> Returned"
    using latch_late [of s s' t] inv by auto
  moreover have "ls_waiters s t = Returned \<longrightarrow> n \<le> int (ls_downs s)" using inv by auto
  ultimately show ?thesis by (cases "ls_waiters s t") auto
qed

theorem CountDownLatch_opens_at_zero_witness:
  "\<exists>s. latch_step\<^sup>*\<^sup>* (latch_new 1) s \<and> latch_step s (s\<lparr>ls_waiters := (ls_waiters s)(0 := Returned)\<rparr>)"
proof -
  define s1 where "s1 = (latch_new 1)\<lparr>ls_waiters := (ls_waiters (latch_new 1))(0 := InWait)\<rparr>"
  define s2 where "s2 = s1\<lparr>ls_waiters := (ls_waiters s1)(0 := Asleep)\<rparr>"
  define s3 where "s3 = s2\<lparr>ls_count := 0, ls_waiters := wake_all (ls_waiters s2), ls_downs := Suc (ls_downs s2)\<rparr>"
  have "latch_step (latch_new 1) s1" unfolding s1_def by (rule l_call) (simp add: latch_new_def)
  moreover have "latch_step s1 s2"
    using l_wait [of s1 0] by (simp add: s2_def s1_def latch_new_def CountDownLatch_wait_def)
  moreover have "latch_step s2 s3"
    using l_down [of s2 0 True] by (simp add: s3_def s2_def s1_def latch_new_def CountDownLatch_countDown_def)
  ultimately have r: "latch_step\<^sup>*\<^sup>* (latch_new 1) s3"
    using rtranclp.rtrancl_into_rtrancl r_into_rtranclp by metis
  have "int (ls_downs s3) = 1" "ls_waiters s3 0 = InWait"
    by (simp_all add: wake_all_def s3_def s2_def s1_def latch_new_def)
  then have "latch_step s3 (s3\<lparr>ls_waiters := (ls_waiters s3)(0 := Returned)\<rparr>)"
    using CountDownLatch_opens_at_zero [OF r, of 0] by auto
  with r show ?thesis by blast
qed

end
