(* ===== verification/Base_Logger.thy ===== *)
theory Base_Logger
  imports Base_LogStream Base_TimeZone
begin

text \<open>
  Log lines: \<open>Logger.h\<close> and \<open>Logger.cc\<close> of \<open>ideal/base\<close>, and the thread number of \<open>CurrentThread\<close>.

  The thread-local variables are a record, the global ones another. The clock is read once per line and is an
  argument of the statement; \<open>gmtime_r\<close>, \<open>strerror_r\<close>, \<open>gettid\<close> and the uninitialised bytes of the stack are
  parameters. What a line does is a list of events: its text given to the output function, the flush, the
  abort.
\<close>

section \<open>State\<close>

datatype LogLevel = TRACE | DEBUG | INFO | WARN | ERROR | FATAL

fun LogLevel_number :: "LogLevel \<Rightarrow> nat" where
  "LogLevel_number TRACE = 0"
| "LogLevel_number DEBUG = 1"
| "LogLevel_number INFO = 2"
| "LogLevel_number WARN = 3"
| "LogLevel_number ERROR = 4"
| "LogLevel_number FATAL = 5"

fun LogLevelName :: "LogLevel \<Rightarrow> string" where
  "LogLevelName TRACE = ''TRACE ''"
| "LogLevelName DEBUG = ''DEBUG ''"
| "LogLevelName INFO = ''INFO  ''"
| "LogLevelName WARN = ''WARN  ''"
| "LogLevelName ERROR = ''ERROR ''"
| "LogLevelName FATAL = ''FATAL ''"

record thread_locals =
  t_lastSecond :: int
  t_time :: string
  t_cachedTid :: int
  t_tidString :: string
  t_tidStringLength :: nat

definition thread_locals_new :: thread_locals where
  "thread_locals_new = \<lparr>t_lastSecond = 0, t_time = '''', t_cachedTid = 0, t_tidString = '''', t_tidStringLength = 6\<rparr>"

record log_globals =
  g_logTimeZone :: TimeZone
  g_logLevel :: LogLevel

definition initLogLevel :: "(string \<Rightarrow> bool) \<Rightarrow> LogLevel" where
  "initLogLevel getenv =
     (if getenv ''IDEAL_LOG_TRACE'' then TRACE else if getenv ''IDEAL_LOG_DEBUG'' then DEBUG else INFO)"

definition log_globals_new :: "(string \<Rightarrow> bool) \<Rightarrow> log_globals" where
  "log_globals_new getenv = \<lparr>g_logTimeZone = None, g_logLevel = initLogLevel getenv\<rparr>"

definition Logger_setLogLevel :: "LogLevel \<Rightarrow> log_globals \<Rightarrow> log_globals" where
  "Logger_setLogLevel level g = g\<lparr>g_logLevel := level\<rparr>"

definition Logger_setTimeZone :: "TimeZone \<Rightarrow> log_globals \<Rightarrow> log_globals" where
  "Logger_setTimeZone tz g = g\<lparr>g_logTimeZone := tz\<rparr>"

text \<open>\<open>CurrentThread::tid\<close>: the number and its text are kept after the first call.\<close>

definition CurrentThread_tid :: "int \<Rightarrow> thread_locals \<Rightarrow> thread_locals" where
  "CurrentThread_tid gettid th =
     (if t_cachedTid th = 0
      then (let str = pad_blank 5 gettid @ '' ''
            in th\<lparr>t_cachedTid := gettid, t_tidString := snprintf 32 str, t_tidStringLength := length str\<rparr>)
      else th)"

section \<open>Pieces of a line\<close>

text \<open>The last occurrence of a character; \<open>SourceFile\<close> keeps what follows the last slash.\<close>

fun strrchr :: "char \<Rightarrow> string \<Rightarrow> nat option" where
  "strrchr c [] = None"
| "strrchr c (x # xs) = (case strrchr c xs of Some i \<Rightarrow> Some (Suc i) | None \<Rightarrow> if x = c then Some 0 else None)"

definition SourceFile_new :: "string \<Rightarrow> string" where
  "SourceFile_new arr = (case strrchr (CHR ''/'') arr of
     Some slash \<Rightarrow> (let size = length arr - (slash + 1) in take size (drop (slash + 1) arr))
   | None \<Rightarrow> arr)"

definition T_append :: "string \<Rightarrow> nat \<Rightarrow> FixedBuffer \<Rightarrow> FixedBuffer result" where
  "T_append str len b = bindR (assertR (length str = len)) (\<lambda>_. FixedBuffer_append (take len str) b)"

definition Fmt_new :: "string \<Rightarrow> string result" where
  "Fmt_new str = bindR (assertR (length str < 32)) (\<lambda>_. Inr (snprintf 32 str))"

text \<open>\<open>strftime\<close> with the format \<open>%F %H:%M:%S\<close>.\<close>

definition strftime_F_T :: "tm \<Rightarrow> string" where
  "strftime_F_T tm = int_dec (tm_year tm + 1900) @ ''-'' @ pad_zero 2 (tm_mon tm + 1) @ ''-'' @ pad_zero 2 (tm_mday tm) @ '' '' @
     pad_zero 2 (tm_hour tm) @ '':'' @ pad_zero 2 (tm_min tm) @ '':'' @ pad_zero 2 (tm_sec tm)"

definition Impl_formatTime ::
    "(int \<Rightarrow> tm) \<Rightarrow> log_globals \<Rightarrow> Timestamp \<Rightarrow> thread_locals \<times> FixedBuffer \<Rightarrow> (thread_locals \<times> FixedBuffer) result" where
  "Impl_formatTime gmtime_r g ts s =
     (let (th, b) = s;
          zone = g_logTimeZone g;
          seconds = cdiv ts kMicrosecondsPerSecond;
          microseconds = cmod ts kMicrosecondsPerSecond in
      bindR (if seconds \<noteq> t_lastSecond th
             then bindR (if TimeZone_valid zone then TimeZone_toLocalTime gmtime_r zone seconds else Inr (gmtime_r seconds)) (\<lambda>tm_time.
                  (let str = strftime_F_T tm_time in
                   bindR (assertR (length str = 19)) (\<lambda>_. Inr (th\<lparr>t_lastSecond := seconds, t_time := str\<rparr>))))
             else Inr th) (\<lambda>th.
      bindR (if TimeZone_valid zone
             then bindR (Fmt_new (''.'' @ pad_zero 6 microseconds @ '' '')) (\<lambda>us.
                  bindR (assertR (length us = 8)) (\<lambda>_.
                  bindR (T_append (t_time th) 19 b) (\<lambda>b. T_append us 8 b)))
             else bindR (Fmt_new (''.'' @ pad_zero 6 microseconds @ ''Z '')) (\<lambda>us.
                  bindR (assertR (length us = 9)) (\<lambda>_.
                  bindR (T_append (t_time th) 19 b) (\<lambda>b. T_append us 9 b)))) (\<lambda>b.
      Inr (th, b))))"

section \<open>Loggers\<close>

text \<open>What a logging statement is given: the clock, the position in the source, the level and the error number.\<close>

record log_site =
  ls_now :: Timestamp
  ls_file :: string
  ls_line :: int
  ls_level :: LogLevel
  ls_errno :: int
  ls_func :: "string option"

definition LogStream_file :: "string \<Rightarrow> FixedBuffer \<Rightarrow> FixedBuffer result" where
  "LogStream_file = FixedBuffer_append"

definition Impl_new ::
    "(int \<Rightarrow> tm) \<Rightarrow> (int \<Rightarrow> string) \<Rightarrow> int \<Rightarrow> char list \<Rightarrow> log_globals \<Rightarrow> log_site \<Rightarrow> thread_locals \<Rightarrow>
       (thread_locals \<times> FixedBuffer) result" where
  "Impl_new gmtime_r strerror gettid junk g site th =
     bindR (Impl_formatTime gmtime_r g (ls_now site) (th, FixedBuffer_new junk)) (\<lambda>(th, b).
     (let th = CurrentThread_tid gettid th in
      bindR (T_append (t_tidString th) (t_tidStringLength th) b) (\<lambda>b.
      bindR (T_append (LogLevelName (ls_level site)) 6 b) (\<lambda>b.
      bindR (if ls_errno site \<noteq> 0
             then foldR LogStream_insert [LCString (Some (strerror (ls_errno site))), LCString (Some '' (errno = ''),
                    LInt (word_of_int (ls_errno site)), LCString (Some '') '')] b
             else Inr b) (\<lambda>b.
      bindR (LogStream_file (SourceFile_new (ls_file site)) b) (\<lambda>b.
      bindR (foldR LogStream_insert [LChar (CHR '':''), LInt (word_of_int (ls_line site)), LCString (Some '' - '')] b) (\<lambda>b.
      Inr (th, b))))))))"

text \<open>The constructor with \<open>func\<close> adds it.\<close>

definition Logger_new ::
    "(int \<Rightarrow> tm) \<Rightarrow> (int \<Rightarrow> string) \<Rightarrow> int \<Rightarrow> char list \<Rightarrow> log_globals \<Rightarrow> log_site \<Rightarrow> thread_locals \<Rightarrow>
       (thread_locals \<times> FixedBuffer) result" where
  "Logger_new gmtime_r strerror gettid junk g site th =
     bindR (Impl_new gmtime_r strerror gettid junk g site th) (\<lambda>(th, b).
     case ls_func site of
       None \<Rightarrow> Inr (th, b)
     | Some func \<Rightarrow> bindR (foldR LogStream_insert [LCString (Some func), LChar (CHR '' '')] b) (\<lambda>b. Inr (th, b)))"

definition Impl_finish :: "FixedBuffer \<Rightarrow> FixedBuffer result" where
  "Impl_finish b = LogStream_insert (LChar (CHR 0x0A)) b"

datatype log_event = Output string | Flush | Abort

definition Logger_destroy :: "LogLevel \<Rightarrow> FixedBuffer \<Rightarrow> log_event list result" where
  "Logger_destroy level b =
     bindR (Impl_finish b) (\<lambda>b.
     Inr (Output (FixedBuffer_toString b) # (if level = FATAL then [Flush, Abort] else [])))"

section \<open>Logging statements\<close>

text \<open>The macros; \<open>errno\<close> is read by the last two only, and the name of the function by the first two.\<close>

datatype log_macro = LOG_TRACE | LOG_DEBUG | LOG_INFO | LOG_WARN | LOG_ERROR | LOG_FATAL | LOG_SYSERR | LOG_SYSFATAL

record log_statement =
  st_macro :: log_macro
  st_file :: string
  st_line :: int
  st_func :: string
  st_errno :: int
  st_now :: Timestamp
  st_items :: "log_item list"

fun macro_level :: "log_macro \<Rightarrow> LogLevel" where
  "macro_level LOG_TRACE = TRACE"
| "macro_level LOG_DEBUG = DEBUG"
| "macro_level LOG_INFO = INFO"
| "macro_level LOG_WARN = WARN"
| "macro_level LOG_ERROR = ERROR"
| "macro_level LOG_FATAL = FATAL"
| "macro_level LOG_SYSERR = ERROR"
| "macro_level LOG_SYSFATAL = FATAL"

definition macro_enabled :: "log_globals \<Rightarrow> log_macro \<Rightarrow> bool" where
  "macro_enabled g m \<longleftrightarrow> (if m = LOG_TRACE \<or> m = LOG_DEBUG \<or> m = LOG_INFO
     then LogLevel_number (g_logLevel g) \<le> LogLevel_number (macro_level m) else True)"

definition site_of :: "log_statement \<Rightarrow> log_site" where
  "site_of st = \<lparr>ls_now = st_now st, ls_file = st_file st, ls_line = st_line st, ls_level = macro_level (st_macro st),
     ls_errno = (if st_macro st = LOG_SYSERR \<or> st_macro st = LOG_SYSFATAL then st_errno st else 0),
     ls_func = (if st_macro st = LOG_TRACE \<or> st_macro st = LOG_DEBUG then Some (st_func st) else None)\<rparr>"

definition log_statement_run ::
    "(int \<Rightarrow> tm) \<Rightarrow> (int \<Rightarrow> string) \<Rightarrow> int \<Rightarrow> char list \<Rightarrow> log_globals \<Rightarrow> log_statement \<Rightarrow> thread_locals \<Rightarrow>
       (log_event list \<times> thread_locals) result" where
  "log_statement_run gmtime_r strerror gettid junk g st th =
     (if macro_enabled g (st_macro st)
      then bindR (Logger_new gmtime_r strerror gettid junk g (site_of st) th) (\<lambda>(th, b).
           bindR (foldR LogStream_insert (st_items st) b) (\<lambda>b.
           bindR (Logger_destroy (macro_level (st_macro st)) b) (\<lambda>evs. Inr (evs, th))))
      else Inr ([], th))"

text \<open>The statements a thread executes; nothing follows the abort.\<close>

fun log_run ::
    "(int \<Rightarrow> tm) \<Rightarrow> (int \<Rightarrow> string) \<Rightarrow> int \<Rightarrow> char list \<Rightarrow> log_globals \<Rightarrow> log_statement list \<Rightarrow> thread_locals \<Rightarrow>
       (log_event list \<times> thread_locals) result" where
  "log_run gmtime_r strerror gettid junk g [] th = Inr ([], th)"
| "log_run gmtime_r strerror gettid junk g (st # sts) th =
     bindR (log_statement_run gmtime_r strerror gettid junk g st th) (\<lambda>(evs, th).
     if Abort \<in> set evs then Inr (evs, th)
     else bindR (log_run gmtime_r strerror gettid junk g sts th) (\<lambda>(rest, th). Inr (evs @ rest, th)))"

section \<open>Insertions that fit\<close>

definition puts :: "string \<Rightarrow> FixedBuffer \<Rightarrow> FixedBuffer result \<Rightarrow> bool" where
  "puts str b r \<longleftrightarrow> (\<exists>b'. r = Inr b' \<and> fb_ok b' \<and> FixedBuffer_toString b' = FixedBuffer_toString b @ str)"

lemma length_toString: "fb_ok b \<Longrightarrow> length (FixedBuffer_toString b) = fb_cur b"
  by (simp add: FixedBuffer_toString_def fb_ok_def)

lemma inserted_puts:
  assumes "inserted str b r" "fb_ok b" "length (FixedBuffer_toString b) + length str + 32 \<le> kSmallBuffer"
  shows "puts str b r"
proof -
  have "max 32 (length str + 1) \<le> FixedBuffer_avail b"
    using assms(2,3) by (simp add: length_toString FixedBuffer_avail_def fb_ok_def kSmallBuffer_def)
  with assms(1) show ?thesis by (auto simp: inserted_def puts_def)
qed


lemma puts_bind:
  assumes "puts s1 b r" "\<And>b'. fb_ok b' \<Longrightarrow> FixedBuffer_toString b' = FixedBuffer_toString b @ s1 \<Longrightarrow> puts s2 b' (f b')"
  shows "puts (s1 @ s2) b (bindR r f)"
proof -
  obtain b' where b': "r = Inr b'" "fb_ok b'" "FixedBuffer_toString b' = FixedBuffer_toString b @ s1"
    using assms(1) by (auto simp: puts_def)
  from assms(2) [OF b'(2,3)] show ?thesis using b' by (auto simp: puts_def)
qed

lemma foldR_puts:
  assumes "fb_ok b" "\<forall>it\<in>set items. item_ok it"
    "length (FixedBuffer_toString b) + length (concat (map item_text items)) + 32 \<le> kSmallBuffer"
  shows "puts (concat (map item_text items)) b (foldR LogStream_insert items b)"
  using assms
proof (induction items arbitrary: b)
  case Nil
  then show ?case by (simp add: puts_def)
next
  case (Cons it items)
  have "puts (item_text it @ concat (map item_text items)) b (bindR (LogStream_insert it b) (foldR LogStream_insert items))"
  proof (rule puts_bind)
    show "puts (item_text it) b (LogStream_insert it b)"
      using inserted_puts [OF insert_inserted] Cons.prems by simp
  next
    fix b' assume "fb_ok b'" "FixedBuffer_toString b' = FixedBuffer_toString b @ item_text it"
    then show "puts (concat (map item_text items)) b' (foldR LogStream_insert items b')"
      using Cons by simp
  qed
  then show ?case by simp
qed

section \<open>The line a statement should print\<close>

text \<open>The clock of the zone at a second, as the format prints it, and the part after the seconds.\<close>

definition clock_text :: "(int \<Rightarrow> tm) \<Rightarrow> TimeZone \<Rightarrow> int \<Rightarrow> string result" where
  "clock_text gmtime_r zone seconds =
     bindR (if TimeZone_valid zone then TimeZone_toLocalTime gmtime_r zone seconds else Inr (gmtime_r seconds)) (\<lambda>tm.
     Inr (strftime_F_T tm))"

definition micros_text :: "TimeZone \<Rightarrow> Timestamp \<Rightarrow> string" where
  "micros_text zone ts = ''.'' @ pad_zero 6 (ts mod 1000000) @ (if TimeZone_valid zone then '' '' else ''Z '')"

text \<open>The clock can be printed: the local time is known and the year has four digits.\<close>

definition clock_ok :: "(int \<Rightarrow> tm) \<Rightarrow> TimeZone \<Rightarrow> Timestamp \<Rightarrow> bool" where
  "clock_ok gmtime_r zone ts \<longleftrightarrow> 1000000 \<le> ts \<and>
     (case clock_text gmtime_r zone (ts div 1000000) of Inl _ \<Rightarrow> False | Inr str \<Rightarrow> length str = 19)"

definition clock_of :: "(int \<Rightarrow> tm) \<Rightarrow> TimeZone \<Rightarrow> Timestamp \<Rightarrow> string" where
  "clock_of gmtime_r zone ts = (case clock_text gmtime_r zone (ts div 1000000) of Inl _ \<Rightarrow> '''' | Inr str \<Rightarrow> str)"

definition base_name :: "string \<Rightarrow> string" where
  "base_name path = rev (takeWhile (\<lambda>c. c \<noteq> CHR ''/'') (rev path))"

definition log_line :: "(int \<Rightarrow> tm) \<Rightarrow> (int \<Rightarrow> string) \<Rightarrow> int \<Rightarrow> log_globals \<Rightarrow> log_statement \<Rightarrow> string" where
  "log_line gmtime_r strerror tid g st =
     clock_of gmtime_r (g_logTimeZone g) (st_now st) @ micros_text (g_logTimeZone g) (st_now st) @
     pad_blank 5 tid @ '' '' @ LogLevelName (macro_level (st_macro st)) @
     (if ls_errno (site_of st) \<noteq> 0
      then strerror (ls_errno (site_of st)) @ '' (errno = '' @ int_dec (ls_errno (site_of st)) @ '') '' else '''') @
     base_name (st_file st) @ '':'' @ int_dec (st_line st) @ '' - '' @
     (case ls_func (site_of st) of None \<Rightarrow> '''' | Some func \<Rightarrow> func @ '' '') @
     concat (map item_text (st_items st)) @ [CHR 0x0A]"

text \<open>The cached clock of a thread is the one of the second it names.\<close>

definition cache_ok :: "(int \<Rightarrow> tm) \<Rightarrow> TimeZone \<Rightarrow> int \<Rightarrow> thread_locals \<Rightarrow> bool" where
  "cache_ok gmtime_r zone tid th \<longleftrightarrow>
     (t_lastSecond th = 0 \<or> clock_text gmtime_r zone (t_lastSecond th) = Inr (t_time th)) \<and>
     (t_cachedTid th = 0 \<or> t_tidString th = pad_blank 5 tid @ '' '' \<and> t_tidStringLength th = length (t_tidString th))"

lemma length_pad_zero: "0 \<le> i \<Longrightarrow> i < 10 ^ w \<Longrightarrow> 0 < w \<Longrightarrow> length (pad_zero w i) = w"
  using length_nat_dec [of "nat i" w] by (simp add: pad_zero_def int_dec_def nat_less_iff)

lemma micros_text_length: "length (micros_text zone ts) = (if TimeZone_valid zone then 8 else 9)"
  using length_pad_zero [of "ts mod 1000000" 6] by (simp add: micros_text_def)

lemma takeWhile_less: "c \<in> set xs \<Longrightarrow> length (takeWhile (\<lambda>x. x \<noteq> c) xs) < length xs"
  by (induction xs) auto

lemma strrchr_spec: "strrchr c xs = (if c \<in> set xs then Some (length xs - 1 - length (takeWhile (\<lambda>x. x \<noteq> c) (rev xs))) else None)"
proof (induction xs)
  case (Cons x xs)
  show ?case
  proof (cases "c \<in> set xs")
    case True
    then have "length (takeWhile (\<lambda>x. x \<noteq> c) (rev xs)) < length xs" using takeWhile_less [of c "rev xs"] by simp
    with True Cons show ?thesis by (auto simp: takeWhile_append)
  next
    case False
    then have "takeWhile (\<lambda>x. x \<noteq> c) (rev xs) = rev xs" by (auto simp: takeWhile_eq_all_conv)
    with False Cons show ?thesis by (auto simp: takeWhile_append)
  qed
qed simp

lemma SourceFile_base_name: "SourceFile_new path = base_name path"
proof (cases "CHR ''/'' \<in> set path")
  case True
  let ?t = "takeWhile (\<lambda>c. c \<noteq> CHR ''/'') (rev path)"
  have less: "length ?t < length path"
    using True takeWhile_less [of "CHR ''/''" "rev path"] by simp
  have "rev ?t = drop (length path - length ?t) path"
    by (metis rev_rev_ident rev_take takeWhile_eq_take length_rev)
  with less have "rev ?t = drop (Suc (length path - Suc (length ?t))) path" by (simp add: Suc_diff_Suc)
  with less show ?thesis by (simp add: SourceFile_new_def strrchr_spec True base_name_def Let_def)
next
  case False
  then have "takeWhile (\<lambda>c. c \<noteq> CHR ''/'') (rev path) = rev path" by (subst takeWhile_eq_all_conv) auto
  then have "rev (takeWhile (\<lambda>c. c \<noteq> CHR ''/'') (rev path)) = path" by (metis rev_rev_ident)
  with False show ?thesis by (simp add: SourceFile_new_def strrchr_spec base_name_def)
qed

section \<open>Printing with the cache\<close>

text \<open>What the code inserts piece by piece, as one list of items.\<close>

definition time_items :: "(int \<Rightarrow> tm) \<Rightarrow> log_globals \<Rightarrow> Timestamp \<Rightarrow> log_item list" where
  "time_items gmtime_r g ts = [LString (clock_of gmtime_r (g_logTimeZone g) ts), LString (micros_text (g_logTimeZone g) ts)]"

definition errno_items :: "(int \<Rightarrow> string) \<Rightarrow> int \<Rightarrow> log_item list" where
  "errno_items strerror e = (if e \<noteq> 0 then [LCString (Some (strerror e)), LCString (Some '' (errno = ''), LInt (word_of_int e),
     LCString (Some '') '')] else [])"

definition site_items :: "(int \<Rightarrow> string) \<Rightarrow> int \<Rightarrow> log_site \<Rightarrow> log_item list" where
  "site_items strerror tid site = [LString (pad_blank 5 tid @ '' ''), LString (LogLevelName (ls_level site))] @
     errno_items strerror (ls_errno site) @
     [LString (base_name (ls_file site)), LChar (CHR '':''), LInt (word_of_int (ls_line site)), LCString (Some '' - '')] @
     (case ls_func site of None \<Rightarrow> [] | Some func \<Rightarrow> [LCString (Some func), LChar (CHR '' '')])"

lemma T_append_item: "length str = n \<Longrightarrow> T_append str n b = LogStream_insert (LString str) b"
  by (simp add: T_append_def LogStream_string_def)

lemma formatTime_items:
  assumes cache: "cache_ok gmtime_r (g_logTimeZone g) tid th" and clock: "clock_ok gmtime_r (g_logTimeZone g) ts"
  shows "\<exists>th'. Impl_formatTime gmtime_r g ts (th, b) =
      bindR (foldR LogStream_insert (time_items gmtime_r g ts) b) (\<lambda>b. Inr (th', b)) \<and> cache_ok gmtime_r (g_logTimeZone g) tid th' \<and>
    t_lastSecond th' = ts div 1000000"
proof -
  let ?zone = "g_logTimeZone g" and ?sec = "ts div 1000000"
  obtain str where str: "clock_text gmtime_r ?zone ?sec = Inr str" "length str = 19"
    using clock by (auto simp: clock_ok_def split: sum.splits)
  have ts: "1000000 \<le> ts" using clock by (simp add: clock_ok_def)
  then have sec: "cdiv ts kMicrosecondsPerSecond = ?sec" "cmod ts kMicrosecondsPerSecond = ts mod 1000000"
    by (simp_all add: kMicrosecondsPerSecond_def cdiv_nonneg cmod_nonneg)
  have nz: "?sec \<noteq> 0" using ts by (simp add: zdiv_eq_0_iff)
  define th' where "th' = th\<lparr>t_lastSecond := ?sec, t_time := str\<rparr>"
  have cached: "?sec = t_lastSecond th \<Longrightarrow> th' = th"
    using cache str(1) nz by (auto simp: cache_ok_def th'_def)
  have upd: "(if ?sec \<noteq> t_lastSecond th
      then bindR (if TimeZone_valid ?zone then TimeZone_toLocalTime gmtime_r ?zone ?sec else Inr (gmtime_r ?sec)) (\<lambda>tm_time.
           (let str = strftime_F_T tm_time in
            bindR (assertR (length str = 19)) (\<lambda>_. Inr (th\<lparr>t_lastSecond := ?sec, t_time := str\<rparr>))))
      else Inr th) = Inr th'"
    using str cached by (auto simp: clock_text_def th'_def Let_def split: if_splits)
  have us: "length (micros_text ?zone ts) = (if TimeZone_valid ?zone then 8 else 9)" by (rule micros_text_length)
  have "Impl_formatTime gmtime_r g ts (th, b) =
      bindR (foldR LogStream_insert [LString str, LString (micros_text ?zone ts)] b) (\<lambda>b. Inr (th', b))"
    unfolding Impl_formatTime_def Let_def prod.case sec using upd [unfolded Let_def] us str(2)
    by (auto simp: Fmt_new_def th'_def micros_text_def snprintf_def T_append_item bindR_assoc
        simp del: LogStream_insert.simps split: if_splits)
  moreover have "cache_ok gmtime_r ?zone tid th'"
    using cache str(1) by (auto simp: cache_ok_def th'_def)
  moreover have "t_lastSecond th' = ?sec" by (simp add: th'_def)
  ultimately show ?thesis using str(1) by (auto simp: clock_of_def time_items_def)
qed

lemma Logger_new_items:
  assumes cache: "cache_ok gmtime_r (g_logTimeZone g) tid th" and clock: "clock_ok gmtime_r (g_logTimeZone g) (ls_now site)"
    and tid: "tid \<noteq> 0" "length (pad_blank 5 tid) < 31"
  shows "\<exists>th'. Logger_new gmtime_r strerror tid junk g site th =
      bindR (foldR LogStream_insert (time_items gmtime_r g (ls_now site) @ site_items strerror tid site) (FixedBuffer_new junk))
        (\<lambda>b. Inr (th', b)) \<and> cache_ok gmtime_r (g_logTimeZone g) tid th' \<and> t_lastSecond th' = ls_now site div 1000000"
proof -
  obtain th1 where th1: "Impl_formatTime gmtime_r g (ls_now site) (th, FixedBuffer_new junk) =
      bindR (foldR LogStream_insert (time_items gmtime_r g (ls_now site)) (FixedBuffer_new junk)) (\<lambda>b. Inr (th1, b))"
      "cache_ok gmtime_r (g_logTimeZone g) tid th1" "t_lastSecond th1 = ls_now site div 1000000"
    using formatTime_items [OF cache clock] by blast
  define th2 where "th2 = CurrentThread_tid tid th1"
  have th2: "cache_ok gmtime_r (g_logTimeZone g) tid th2" "t_tidString th2 = pad_blank 5 tid @ '' ''"
      "t_tidStringLength th2 = length (t_tidString th2)"
    using th1(2) tid by (auto simp: th2_def CurrentThread_tid_def cache_ok_def snprintf_def)
  have lev: "length (LogLevelName (ls_level site)) = 6" by (cases "ls_level site") simp_all
  have tidT: "T_append (t_tidString th2) (t_tidStringLength th2) b = LogStream_insert (LString (pad_blank 5 tid @ '' '')) b" for b
    using T_append_item [OF th2(3) [symmetric]] th2(2) by simp
  have fil: "LogStream_file str b = LogStream_insert (LString str) b" for str b
    by (simp add: LogStream_file_def LogStream_string_def)
  have "Logger_new gmtime_r strerror tid junk g site th =
      bindR (foldR LogStream_insert (time_items gmtime_r g (ls_now site) @ site_items strerror tid site) (FixedBuffer_new junk))
        (\<lambda>b. Inr (th2, b))"
    unfolding Logger_new_def Impl_new_def th1(1) foldR_append site_items_def
    by (simp add: th2_def [symmetric] tidT T_append_item [OF lev] fil SourceFile_base_name errno_items_def bindR_assoc Let_def
        del: LogStream_insert.simps split: option.split)
  moreover have "t_lastSecond th2 = ls_now site div 1000000" using th1(3) by (simp add: th2_def CurrentThread_tid_def Let_def)
  ultimately show ?thesis using th2(1) by blast
qed

text \<open>A statement whose line fits: the clock can be printed, the numbers are those of their C types.\<close>

definition printable :: "(int \<Rightarrow> tm) \<Rightarrow> (int \<Rightarrow> string) \<Rightarrow> int \<Rightarrow> log_globals \<Rightarrow> log_statement \<Rightarrow> bool" where
  "printable gmtime_r strerror tid g st \<longleftrightarrow> clock_ok gmtime_r (g_logTimeZone g) (st_now st) \<and>
     list_all item_ok (st_items st) \<and> - (2 ^ 31) \<le> st_errno st \<and> st_errno st < 2 ^ 31 \<and> - (2 ^ 31) \<le> st_line st \<and> st_line st < 2 ^ 31 \<and>
     length (log_line gmtime_r strerror tid g st) + 32 \<le> kSmallBuffer"

fun log_events :: "(int \<Rightarrow> tm) \<Rightarrow> (int \<Rightarrow> string) \<Rightarrow> int \<Rightarrow> log_globals \<Rightarrow> log_statement list \<Rightarrow> log_event list" where
  "log_events gmtime_r strerror tid g [] = []"
| "log_events gmtime_r strerror tid g (st # sts) =
     (if \<not> macro_enabled g (st_macro st) then log_events gmtime_r strerror tid g sts
      else if macro_level (st_macro st) = FATAL then [Output (log_line gmtime_r strerror tid g st), Flush, Abort]
      else Output (log_line gmtime_r strerror tid g st) # log_events gmtime_r strerror tid g sts)"

lemma line_items:
  assumes "- (2 ^ 31) \<le> st_errno st" "st_errno st < 2 ^ 31" "- (2 ^ 31) \<le> st_line st" "st_line st < 2 ^ 31"
  shows "concat (map item_text (time_items gmtime_r g (st_now st) @ site_items strerror tid (site_of st) @ st_items st @ [LChar (CHR 0x0A)])) =
    log_line gmtime_r strerror tid g st"
proof -
  have ints: "sint (word_of_int i :: 32 word) = i" if "- (2 ^ 31) \<le> i" "i < 2 ^ 31" for i
    using that to_int32_small by (simp add: to_int32_def)
  have "ls_errno (site_of st) = st_errno st \<or> ls_errno (site_of st) = 0" by (simp add: site_of_def)
  then have e: "concat (map item_text (errno_items strerror (ls_errno (site_of st)))) =
      (if ls_errno (site_of st) \<noteq> 0
       then strerror (ls_errno (site_of st)) @ '' (errno = '' @ int_dec (ls_errno (site_of st)) @ '') '' else '''')"
    using ints [OF assms(1,2)] by (auto simp: errno_items_def)
  have f: "concat (map item_text (case x of None \<Rightarrow> [] | Some func \<Rightarrow> [LCString (Some func), LChar (CHR '' '')])) =
      (case x of None \<Rightarrow> '''' | Some func \<Rightarrow> func @ '' '')" for x by (simp split: option.split)
  show ?thesis
    unfolding time_items_def site_items_def map_append concat_append e f log_line_def
    by (simp add: ints [OF assms(3,4)] site_of_def)
qed

lemma log_statement_prints:
  assumes cache: "cache_ok gmtime_r (g_logTimeZone g) tid th" and st: "printable gmtime_r strerror tid g st"
    and tid: "0 < tid" "tid < 2 ^ 31" and junk: "length junk = kSmallBuffer" and on: "macro_enabled g (st_macro st)"
  shows "\<exists>th'. log_statement_run gmtime_r strerror tid junk g st th =
      Inr (Output (log_line gmtime_r strerror tid g st) # (if macro_level (st_macro st) = FATAL then [Flush, Abort] else []), th') \<and>
    cache_ok gmtime_r (g_logTimeZone g) tid th' \<and> t_lastSecond th' = st_now st div 1000000"
proof -
  have "length (nat_dec (nat tid)) \<le> 10" by (rule length_nat_dec) (use tid in auto)
  then have padl: "length (pad_blank 5 tid) < 31" using tid by (simp add: pad_blank_def int_dec_def)
  have clock: "clock_ok gmtime_r (g_logTimeZone g) (ls_now (site_of st))" using st by (simp add: printable_def site_of_def)
  obtain th' where th': "Logger_new gmtime_r strerror tid junk g (site_of st) th =
      bindR (foldR LogStream_insert (time_items gmtime_r g (ls_now (site_of st)) @ site_items strerror tid (site_of st)) (FixedBuffer_new junk))
        (\<lambda>b. Inr (th', b))" "cache_ok gmtime_r (g_logTimeZone g) tid th'" "t_lastSecond th' = ls_now (site_of st) div 1000000"
    using Logger_new_items [OF cache clock _ padl] tid(1) by blast
  let ?items = "time_items gmtime_r g (st_now st) @ site_items strerror tid (site_of st) @ st_items st @ [LChar (CHR 0x0A)]"
  let ?b = "FixedBuffer_new junk"
  have b: "fb_ok ?b" "FixedBuffer_toString ?b = ''''"
    using junk by (simp_all add: fb_ok_def FixedBuffer_new_def FixedBuffer_toString_def slice_def kSmallBuffer_def)
  have ok: "\<forall>it\<in>set ?items. item_ok it"
    using st by (auto simp: printable_def list_all_iff time_items_def site_items_def errno_items_def split: option.splits if_splits)
  have "concat (map item_text ?items) = log_line gmtime_r strerror tid g st"
    by (rule line_items) (use st in \<open>simp_all add: printable_def\<close>)
  then have "puts (log_line gmtime_r strerror tid g st) ?b (foldR LogStream_insert ?items ?b)"
    using foldR_puts [OF b(1) ok] b(2) st by (simp add: printable_def)
  then obtain b' where b': "foldR LogStream_insert ?items ?b = Inr b'"
      "FixedBuffer_toString b' = log_line gmtime_r strerror tid g st"
    using b(2) by (auto simp: puts_def)
  have site: "ls_now (site_of st) = st_now st" by (simp add: site_of_def)
  have "log_statement_run gmtime_r strerror tid junk g st th =
      bindR (foldR LogStream_insert ?items ?b)
        (\<lambda>b. Inr (Output (FixedBuffer_toString b) # (if macro_level (st_macro st) = FATAL then [Flush, Abort] else []), th'))"
    unfolding log_statement_run_def th'(1) foldR_append site
    by (simp add: on bindR_assoc Logger_destroy_def Impl_finish_def del: LogStream_insert.simps)
  then show ?thesis using b' th'(2,3) site by simp
qed


text \<open>Two statements of a thread in one second, in Greenwich time of that day.\<close>

definition example_gmtime :: "int \<Rightarrow> tm" where
  "example_gmtime s = fillHMS (s mod 86400) (zero_tm\<lparr>tm_year := 119, tm_mon := 10, tm_mday := 16\<rparr>)"

definition example_info :: log_statement where
  "example_info = \<lparr>st_macro = LOG_INFO, st_file = ''/src/main.cc'', st_line = 42, st_func = ''main'', st_errno = 2,
     st_now = 1573869600250000, st_items = [LString ''ready: '', LBool True]\<rparr>"

definition example_fatal :: log_statement where
  "example_fatal = \<lparr>st_macro = LOG_SYSFATAL, st_file = ''main.cc'', st_line = 43, st_func = ''main'', st_errno = 2,
     st_now = 1573869600250001, st_items = []\<rparr>"

lemma digit_chars: "map digit [0, 1, 2, 3, 4, 5, 6, 7, 8, 9] = ''0123456789''"
  by code_simp

lemmas decimal_eval = int_dec_def pad_zero_def pad_blank_def nat_dec.simps [of "numeral n" for n] nat_dec.simps [of 0]
  nat_dec.simps [of "Suc 0"] digit_chars [simplified]

lemma example_clock:
  "clock_text example_gmtime None 1573869600 = Inr ''2019-11-16 02:00:00''"
  by (simp add: clock_text_def TimeZone_valid_def example_gmtime_def fillHMS_def zero_tm_def strftime_F_T_def Let_def decimal_eval)

lemmas example_eval = example_clock clock_of_def micros_text_def log_globals_new_def initLogLevel_def example_info_def example_fatal_def
  site_of_def TimeZone_valid_def base_name_def

lemma two_blanks: "replicate 2 (CHR '' '') = ''  ''"
  by (simp add: numeral_2_eq_2)

lemma example_lines:
  "log_line example_gmtime (\<lambda>_. ''No such file'') 123 (log_globals_new (\<lambda>_. False)) example_info =
     ''2019-11-16 02:00:00.250000Z   123 INFO  main.cc:42 - ready: 1'' @ [CHR 0x0A]"
  "log_line example_gmtime (\<lambda>_. ''No such file'') 123 (log_globals_new (\<lambda>_. False)) example_fatal =
     ''2019-11-16 02:00:00.250001Z   123 FATAL No such file (errno = 2) main.cc:43 - '' @ [CHR 0x0A]"
  by (simp_all add: log_line_def example_eval decimal_eval two_blanks)

lemma example_printable:
  "printable example_gmtime (\<lambda>_. ''No such file'') 123 (log_globals_new (\<lambda>_. False)) example_info"
  "printable example_gmtime (\<lambda>_. ''No such file'') 123 (log_globals_new (\<lambda>_. False)) example_fatal"
  unfolding printable_def example_lines by (simp_all add: clock_ok_def example_eval kSmallBuffer_def)


text \<open>
  A change of the time zone does not reach the cached clock: after a thread has printed a line, a
  line of the same second under any new zone shows the clock of the old zone, with the marker of the new one.
\<close>

theorem Logger_zone_change_stale:
  assumes "0 < tid" "tid < 2 ^ 31" "length junk = kSmallBuffer"
    and "macro_enabled g (st_macro st)" "printable gmtime_r strerror tid g st" "cache_ok gmtime_r (g_logTimeZone g) tid th"
    and "ts div 1000000 = st_now st div 1000000"
  shows "\<exists>evs th'. log_statement_run gmtime_r strerror tid junk g st th = Inr (evs, th') \<and>
    (\<forall>tz b. Impl_formatTime gmtime_r (Logger_setTimeZone tz g) ts (th', b) =
       bindR (foldR LogStream_insert [LString (clock_of gmtime_r (g_logTimeZone g) (st_now st)), LString (micros_text tz ts)] b)
         (\<lambda>b. Inr (th', b)))"
proof -
  obtain evs th' where th': "log_statement_run gmtime_r strerror tid junk g st th = Inr (evs, th')"
      "cache_ok gmtime_r (g_logTimeZone g) tid th'" "t_lastSecond th' = st_now st div 1000000"
    using log_statement_prints [OF assms(6,5,1-4)] by blast
  have now: "1000000 \<le> st_now st" using assms(5) by (simp add: printable_def clock_ok_def)
  then have nz: "0 < ts div 1000000" using assms(7) by (simp add: pos_imp_zdiv_pos_iff)
  then have ts: "0 \<le> ts" by (simp add: pos_imp_zdiv_pos_iff)
  have sec: "cdiv ts kMicrosecondsPerSecond = t_lastSecond th'" "cmod ts kMicrosecondsPerSecond = ts mod 1000000"
    using ts assms(7) th'(3) by (simp_all add: kMicrosecondsPerSecond_def cdiv_nonneg cmod_nonneg)
  have clock: "t_time th' = clock_of gmtime_r (g_logTimeZone g) (st_now st)" "length (t_time th') = 19"
    using th'(2,3) nz assms(5,7) by (auto simp: cache_ok_def clock_of_def printable_def clock_ok_def)
  have "Impl_formatTime gmtime_r (Logger_setTimeZone tz g) ts (th', b) =
      bindR (foldR LogStream_insert [LString (t_time th'), LString (micros_text tz ts)] b) (\<lambda>b. Inr (th', b))" for tz b
    unfolding Impl_formatTime_def Let_def prod.case sec using clock(2) micros_text_length [of tz ts]
    by (auto simp: Fmt_new_def micros_text_def snprintf_def T_append_item bindR_assoc Logger_setTimeZone_def
        simp del: LogStream_insert.simps split: if_splits)
  with th'(1) clock(1) show ?thesis by metis
qed

theorem Logger_zone_change_stale_witness:
  "\<exists>evs th'. log_statement_run example_gmtime (\<lambda>_. ''No such file'') 123 (replicate 4000 (CHR 0x00)) (log_globals_new (\<lambda>_. False))
       example_info thread_locals_new = Inr (evs, th') \<and>
    (\<forall>b. Impl_formatTime example_gmtime (Logger_setTimeZone (TimeZone_new_offset 28800 ''CST'') (log_globals_new (\<lambda>_. False)))
         1573869600250001 (th', b) =
       bindR (foldR LogStream_insert [LString ''2019-11-16 02:00:00'', LString ''.250001 ''] b) (\<lambda>b. Inr (th', b)))"
proof -
  have "cache_ok example_gmtime (g_logTimeZone (log_globals_new (\<lambda>_. False))) 123 thread_locals_new"
    by (simp add: cache_ok_def thread_locals_new_def)
  moreover have "macro_enabled (log_globals_new (\<lambda>_. False)) (st_macro example_info)" by code_simp
  moreover have "(1573869600250001 :: int) div 1000000 = st_now example_info div 1000000" by (simp add: example_info_def)
  moreover have "clock_of example_gmtime (g_logTimeZone (log_globals_new (\<lambda>_. False))) (st_now example_info) = ''2019-11-16 02:00:00''"
    "micros_text (TimeZone_new_offset 28800 ''CST'') 1573869600250001 = ''.250001 ''"
    by (simp_all add: example_eval decimal_eval TimeZone_new_offset_def)
  ultimately show ?thesis
    using Logger_zone_change_stale [of 123 "replicate 4000 (CHR 0x00)" "log_globals_new (\<lambda>_. False)" example_info example_gmtime
        "\<lambda>_. ''No such file''" thread_locals_new 1573869600250001] example_printable(1)
    by (simp add: kSmallBuffer_def) metis
qed

end
