(* ===== verification/Base_LogFile.thy ===== *)
theory Base_LogFile
  imports Base_TimeZone
begin

text \<open>
  Log files: \<open>AppendFile\<close> of \<open>FileUtil\<close> and \<open>LogFile\<close> of \<open>ideal/base\<close>.

  A file is its name and the bytes stdio has accepted for it. \<open>fwrite\<close> is a parameter: how many of the given bytes
  its \<open>k\<close>-th call accepts, at most all of them; \<open>fopen\<close> tells whether the file can be opened. Readings of
  the clock are arguments. Files that have been rolled away are kept in a ghost list. The mutex makes each
  operation atomic.
\<close>

section \<open>Appending\<close>

record AppendFile =
  af_name :: string
  af_bytes :: string
  af_writtenBytes :: int
  af_calls :: nat

definition AppendFile_new :: "(string \<Rightarrow> bool) \<Rightarrow> string \<Rightarrow> AppendFile result" where
  "AppendFile_new fopen filename =
     bindR (assertR (fopen filename)) (\<lambda>_.
     Inr \<lparr>af_name = filename, af_bytes = '''', af_writtenBytes = 0, af_calls = 0\<rparr>)"

text \<open>\<open>write\<close>: the number of bytes accepted, and the file.\<close>

definition AppendFile_write :: "(nat \<Rightarrow> nat \<Rightarrow> nat) \<Rightarrow> string \<Rightarrow> AppendFile \<Rightarrow> nat \<times> AppendFile" where
  "AppendFile_write fwrite logline f =
     (let n = fwrite (af_calls f) (length logline)
      in (n, f\<lparr>af_bytes := af_bytes f @ take n logline, af_calls := af_calls f + 1\<rparr>))"

text \<open>The \<open>while\<close> loop, on the bytes that remain.\<close>

function append_rest :: "(nat \<Rightarrow> nat \<Rightarrow> nat) \<Rightarrow> string \<Rightarrow> AppendFile \<Rightarrow> AppendFile" where
  "append_rest fwrite logline f =
     (if logline = [] then f
      else (let (x, f) = AppendFile_write fwrite logline f
            in if x = 0 then f else append_rest fwrite (drop x logline) f))"
  by pat_completeness auto
termination append_rest
  by (relation "measure (\<lambda>(_, logline, _). length logline)") (auto simp: AppendFile_write_def Let_def)

declare append_rest.simps [simp del]

definition AppendFile_append :: "(nat \<Rightarrow> nat \<Rightarrow> nat) \<Rightarrow> string \<Rightarrow> AppendFile \<Rightarrow> AppendFile" where
  "AppendFile_append fwrite logline f =
     (let (n, f) = AppendFile_write fwrite logline f;
          f = append_rest fwrite (drop n logline) f
      in f\<lparr>af_writtenBytes := af_writtenBytes f + int (length logline)\<rparr>)"

section \<open>Rolling\<close>

definition kRollPerSeconds :: int where
  "kRollPerSeconds = 60 * 60 * 24"

record LogFile =
  lf_basename :: string
  lf_rollSize :: int
  lf_flushInterval :: int
  lf_checkEveryN :: int
  lf_count :: int
  lf_startOfPeriod :: int
  lf_lastRoll :: int
  lf_lastFlush :: int
  lf_file :: "AppendFile option"
  lf_closed :: "AppendFile list"
  lf_flushes :: nat

text \<open>What the system tells a log file: the calendar, the host, the process, \<open>fopen\<close> and \<open>fwrite\<close>.\<close>

record log_system =
  sys_gmtime_r :: "int \<Rightarrow> tm"
  sys_hostname :: string
  sys_pid :: int
  sys_fopen :: "string \<Rightarrow> bool"
  sys_fwrite :: "string \<Rightarrow> nat \<Rightarrow> nat \<Rightarrow> nat"

text \<open>\<open>strftime\<close> with the format \<open>.%Y%m%d-%H%M%S.\<close>\<close>

definition strftime_stamp :: "tm \<Rightarrow> string" where
  "strftime_stamp tm = ''.'' @ int_dec (tm_year tm + 1900) @ pad_zero 2 (tm_mon tm + 1) @ pad_zero 2 (tm_mday tm) @ ''-'' @
     pad_zero 2 (tm_hour tm) @ pad_zero 2 (tm_min tm) @ pad_zero 2 (tm_sec tm) @ ''.''"

definition LogFile_getLogFileName :: "log_system \<Rightarrow> string \<Rightarrow> int \<Rightarrow> string" where
  "LogFile_getLogFileName sys basename now =
     basename @ strftime_stamp (sys_gmtime_r sys now) @ sys_hostname sys @ snprintf 32 (''.'' @ int_dec (sys_pid sys)) @ ''.log''"

definition LogFile_rollFile :: "log_system \<Rightarrow> int \<Rightarrow> LogFile \<Rightarrow> (bool \<times> LogFile) result" where
  "LogFile_rollFile sys now lf =
     (let filename = LogFile_getLogFileName sys (lf_basename lf) now;
          start = cdiv now kRollPerSeconds * kRollPerSeconds
      in if now > lf_lastRoll lf
         then bindR (AppendFile_new (sys_fopen sys) filename) (\<lambda>f.
              Inr (True, lf\<lparr>lf_lastRoll := now, lf_lastFlush := now, lf_startOfPeriod := start, lf_file := Some f,
                lf_closed := lf_closed lf @ (case lf_file lf of None \<Rightarrow> [] | Some old \<Rightarrow> [old])\<rparr>))
         else Inr (False, lf))"

definition LogFile_new :: "log_system \<Rightarrow> string \<Rightarrow> int \<Rightarrow> int \<Rightarrow> int \<Rightarrow> int \<Rightarrow> LogFile result" where
  "LogFile_new sys basename rollsize flushInterval checkEveryN now =
     bindR (assertR (CHR ''/'' \<notin> set basename)) (\<lambda>_.
     bindR (LogFile_rollFile sys now
       \<lparr>lf_basename = basename, lf_rollSize = rollsize, lf_flushInterval = flushInterval, lf_checkEveryN = checkEveryN,
        lf_count = 0, lf_startOfPeriod = 0, lf_lastRoll = 0, lf_lastFlush = 0, lf_file = None, lf_closed = [], lf_flushes = 0\<rparr>)
     (\<lambda>(_, lf). Inr lf))"

definition LogFile_flush :: "LogFile \<Rightarrow> LogFile result" where
  "LogFile_flush lf = (case lf_file lf of None \<Rightarrow> Inl NullPointer | Some f \<Rightarrow> Inr (lf\<lparr>lf_flushes := lf_flushes lf + 1\<rparr>))"

text \<open>
  \<open>append\<close>; the clock is read at most twice, by the check and by \<open>rollFile\<close>. The counter is an \<open>int\<close> and stays below
  \<open>checkEveryN\<close>.
\<close>

definition LogFile_append :: "log_system \<Rightarrow> string \<Rightarrow> int \<times> int \<Rightarrow> LogFile \<Rightarrow> LogFile result" where
  "LogFile_append sys logline clock lf =
     (case lf_file lf of
        None \<Rightarrow> Inl NullPointer
      | Some f \<Rightarrow>
          (let (now, now') = clock;
               f = AppendFile_append (sys_fwrite sys (af_name f)) logline f;
               lf = lf\<lparr>lf_file := Some f\<rparr>
           in if af_writtenBytes f > lf_rollSize lf
              then bindR (LogFile_rollFile sys now lf) (\<lambda>(_, lf). Inr lf)
              else
                (let lf = lf\<lparr>lf_count := lf_count lf + 1\<rparr>
                 in if lf_count lf \<ge> lf_checkEveryN lf
                    then
                      (let lf = lf\<lparr>lf_count := 0\<rparr>;
                           thisPeriod = cdiv now kRollPerSeconds * kRollPerSeconds
                       in if thisPeriod \<noteq> lf_startOfPeriod lf
                          then bindR (LogFile_rollFile sys now' lf) (\<lambda>(_, lf). Inr lf)
                          else if now - lf_lastFlush lf > lf_flushInterval lf
                               then LogFile_flush (lf\<lparr>lf_lastFlush := now\<rparr>)
                               else Inr lf)
                    else Inr lf)))"

text \<open>Lines appended one after the other, each with its readings of the clock.\<close>

definition LogFile_appends :: "log_system \<Rightarrow> (string \<times> int \<times> int) list \<Rightarrow> LogFile \<Rightarrow> LogFile result" where
  "LogFile_appends sys = foldR (\<lambda>(logline, clock). LogFile_append sys logline clock)"

section \<open>What stdio accepts\<close>

text \<open>\<open>fwrite\<close> makes progress when it accepts some byte of each call.\<close>

definition fwrite_progress :: "(nat \<Rightarrow> nat \<Rightarrow> nat) \<Rightarrow> bool" where
  "fwrite_progress fwrite \<longleftrightarrow> (\<forall>k len. 0 < len \<longrightarrow> 0 < fwrite k len)"

abbreviation af_accept :: "nat \<Rightarrow> string \<Rightarrow> AppendFile \<Rightarrow> AppendFile" where
  "af_accept n logline f \<equiv> f\<lparr>af_bytes := af_bytes f @ take n logline, af_calls := af_calls f + 1\<rparr>"

lemma append_rest_step:
  assumes "logline \<noteq> []" "n = fwrite (af_calls f) (length logline)"
  shows "append_rest fwrite logline f =
    (if n = 0 then af_accept 0 logline f else append_rest fwrite (drop n logline) (af_accept n logline f))"
  using assms by (subst append_rest.simps) (simp add: AppendFile_write_def Let_def)

lemma append_rest_Nil [simp]: "append_rest fwrite [] f = f"
  by (simp add: append_rest.simps)

lemma append_rest_frame:
  "af_name (append_rest fwrite logline f) = af_name f \<and> af_writtenBytes (append_rest fwrite logline f) = af_writtenBytes f"
proof (induction logline arbitrary: f rule: length_induct)
  case (1 logline)
  show ?case
  proof (cases "logline = []")
    case False
    let ?n = "fwrite (af_calls f) (length logline)"
    from False have "?n \<noteq> 0 \<Longrightarrow> length (drop ?n logline) < length logline" by simp
    then show ?thesis using 1 append_rest_step [OF False refl, of fwrite f] by simp
  qed simp
qed

lemma append_rest_all:
  assumes "fwrite_progress fwrite"
  shows "af_bytes (append_rest fwrite logline f) = af_bytes f @ logline"
proof (induction logline arbitrary: f rule: length_induct)
  case (1 logline)
  show ?case
  proof (cases "logline = []")
    case False
    let ?n = "fwrite (af_calls f) (length logline)"
    have "?n \<noteq> 0" using assms False by (simp add: fwrite_progress_def)
    moreover from this have "length (drop ?n logline) < length logline" using False by simp
    ultimately show ?thesis using 1 append_rest_step [OF False refl, of fwrite f] by simp
  qed simp
qed

lemma AppendFile_append_frame:
  "af_name (AppendFile_append fwrite logline f) = af_name f"
  "af_writtenBytes (AppendFile_append fwrite logline f) = af_writtenBytes f + int (length logline)"
  using append_rest_frame by (auto simp: AppendFile_append_def AppendFile_write_def Let_def)

lemma AppendFile_append_all:
  "fwrite_progress fwrite \<Longrightarrow> af_bytes (AppendFile_append fwrite logline f) = af_bytes f @ logline"
  by (simp add: AppendFile_append_def AppendFile_write_def Let_def append_rest_all)

section \<open>The log as a sequence of lines\<close>

text \<open>The system works: files can be opened and \<open>fwrite\<close> makes progress.\<close>

definition log_system_ok :: "log_system \<Rightarrow> bool" where
  "log_system_ok sys \<longleftrightarrow> (\<forall>name. sys_fopen sys name \<and> fwrite_progress (sys_fwrite sys name))"

definition log_files :: "LogFile \<Rightarrow> AppendFile list" where
  "log_files lf = lf_closed lf @ (case lf_file lf of None \<Rightarrow> [] | Some f \<Rightarrow> [f])"

text \<open>
  The files hold the lines in order, each line whole in one file; they were opened at increasing times, which
  their names show, and their counters are their sizes.
\<close>

definition log_holds :: "log_system \<Rightarrow> string list \<Rightarrow> LogFile \<Rightarrow> bool" where
  "log_holds sys lines lf \<longleftrightarrow> (\<exists>groups times.
     concat groups = lines \<and> map af_bytes (log_files lf) = map concat groups \<and>
     map af_name (log_files lf) = map (LogFile_getLogFileName sys (lf_basename lf)) times \<and>
     sorted_wrt (<) times \<and> times \<noteq> [] \<and> last times = lf_lastRoll lf) \<and>
     lf_file lf \<noteq> None \<and> (\<forall>f\<in>set (log_files lf). af_writtenBytes f = int (length (af_bytes f)))"

lemma log_holds_files: "log_holds sys lines lf \<Longrightarrow> \<exists>f. lf_file lf = Some f \<and> log_files lf = lf_closed lf @ [f]"
  by (auto simp: log_holds_def log_files_def)

lemma rollFile_holds:
  assumes "log_holds sys lines lf" "log_system_ok sys"
  shows "\<exists>b lf'. LogFile_rollFile sys now lf = Inr (b, lf') \<and> log_holds sys lines lf'"
proof (cases "now > lf_lastRoll lf")
  case True
  obtain f where f: "lf_file lf = Some f" "log_files lf = lf_closed lf @ [f]" using log_holds_files [OF assms(1)] by blast
  obtain groups times where g: "concat groups = lines" "map af_bytes (log_files lf) = map concat groups"
      "map af_name (log_files lf) = map (LogFile_getLogFileName sys (lf_basename lf)) times"
      "sorted_wrt (<) times" "times \<noteq> []" "last times = lf_lastRoll lf"
      "\<forall>f\<in>set (log_files lf). af_writtenBytes f = int (length (af_bytes f))"
    using assms(1) by (auto simp: log_holds_def)
  define f' where "f' = \<lparr>af_name = LogFile_getLogFileName sys (lf_basename lf) now, af_bytes = '''', af_writtenBytes = 0, af_calls = 0\<rparr>"
  define lf' where "lf' = lf\<lparr>lf_lastRoll := now, lf_lastFlush := now,
    lf_startOfPeriod := cdiv now kRollPerSeconds * kRollPerSeconds, lf_file := Some f', lf_closed := lf_closed lf @ [f]\<rparr>"
  have run: "LogFile_rollFile sys now lf = Inr (True, lf')"
    using True assms(2) f(1) by (simp add: LogFile_rollFile_def log_system_ok_def AppendFile_new_def lf'_def f'_def Let_def)
  have files: "log_files lf' = log_files lf @ [f']" by (simp add: log_files_def lf'_def f(1))
  have "\<forall>t\<in>set times. t \<le> last times" using g(4) by (induction times) (auto simp: less_imp_le)
  then have "sorted_wrt (<) (times @ [now])" using g(4,6) True by (auto simp: sorted_wrt_append)
  then have "log_holds sys lines lf'"
    unfolding log_holds_def files using g
    by (intro conjI exI [of _ "groups @ [[]]"] exI [of _ "times @ [now]"]) (auto simp: lf'_def f'_def)
  with run show ?thesis by blast
qed (use assms(1) in \<open>auto simp: LogFile_rollFile_def\<close>)

lemma write_holds:
  assumes "log_holds sys lines lf" "log_system_ok sys" "lf_file lf = Some f"
  shows "log_holds sys (lines @ [logline]) (lf\<lparr>lf_file := Some (AppendFile_append (sys_fwrite sys (af_name f)) logline f)\<rparr>)"
proof -
  obtain groups times where g: "concat groups = lines" "map af_bytes (log_files lf) = map concat groups"
      "map af_name (log_files lf) = map (LogFile_getLogFileName sys (lf_basename lf)) times"
      "sorted_wrt (<) times" "times \<noteq> []" "last times = lf_lastRoll lf"
      "\<forall>f\<in>set (log_files lf). af_writtenBytes f = int (length (af_bytes f))"
    using assms(1) by (auto simp: log_holds_def)
  have files: "log_files lf = lf_closed lf @ [f]" by (simp add: log_files_def assms(3))
  then obtain gs g' where gs: "groups = gs @ [g']"
    using g(2) by (cases groups rule: rev_cases) auto
  let ?f = "AppendFile_append (sys_fwrite sys (af_name f)) logline f"
  have "af_bytes ?f = af_bytes f @ logline"
    using assms(2) by (simp add: log_system_ok_def AppendFile_append_all)
  then show ?thesis
    using g AppendFile_append_frame [of "sys_fwrite sys (af_name f)" logline f] unfolding log_holds_def files gs
    by (intro conjI exI [of _ "gs @ [g' @ [logline]]"] exI [of _ times]) (auto simp: log_files_def)
qed

text \<open>The other fields do not matter.\<close>

lemma log_holds_fields:
  "log_holds sys lines (lf\<lparr>lf_count := c\<rparr>) = log_holds sys lines lf"
  "log_holds sys lines (lf\<lparr>lf_lastFlush := t\<rparr>) = log_holds sys lines lf"
  "log_holds sys lines (lf\<lparr>lf_flushes := n\<rparr>) = log_holds sys lines lf"
  by (simp_all add: log_holds_def log_files_def)

lemma append_holds:
  assumes "log_holds sys lines lf" "log_system_ok sys"
  shows "\<exists>lf'. LogFile_append sys logline clock lf = Inr lf' \<and> log_holds sys (lines @ [logline]) lf'"
proof -
  obtain f where f: "lf_file lf = Some f" using log_holds_files [OF assms(1)] by blast
  obtain now now' where clock: "clock = (now, now')" by fastforce
  let ?f = "AppendFile_append (sys_fwrite sys (af_name f)) logline f"
  note w = write_holds [OF assms f, of logline]
  have "log_holds sys (lines @ [logline]) (lf\<lparr>lf_file := Some ?f, lf_count := 0\<rparr>)"
    using w log_holds_fields(1) [where lf = "lf\<lparr>lf_file := Some ?f\<rparr>" and c = 0] by simp
  from rollFile_holds [OF w assms(2), of now] rollFile_holds [OF this assms(2), of now'] w f show ?thesis
    by (auto simp: LogFile_append_def clock LogFile_flush_def Let_def log_holds_fields split: if_splits)
qed

lemma appends_hold:
  assumes "log_holds sys lines lf" "log_system_ok sys"
  shows "\<exists>lf'. LogFile_appends sys calls lf = Inr lf' \<and> log_holds sys (lines @ map fst calls) lf'"
  using assms(1)
proof (induction calls arbitrary: lines lf)
  case (Cons c calls)
  obtain logline clock where c: "c = (logline, clock)" by (cases c)
  obtain lf1 where "LogFile_append sys logline clock lf = Inr lf1" "log_holds sys (lines @ [logline]) lf1"
    using append_holds [OF Cons.prems assms(2)] by blast
  with Cons.IH [of "lines @ [logline]" lf1] show ?case by (auto simp: LogFile_appends_def c)
qed (simp add: LogFile_appends_def)

text \<open>
  C30. The log loses and splits no line. On a system where files can be opened and \<open>fwrite\<close> makes progress, a
  log file created at a time after the epoch accepts every sequence of lines, whatever the clock says: the files
  hold all lines in order, each line whole in one file; the files were opened at strictly increasing
  seconds, which their names carry; and the size that decides about rolling is the size of the file.
\<close>

theorem LogFile_keeps_lines:
  assumes "log_system_ok sys" "CHR ''/'' \<notin> set basename" "0 < now"
  shows "\<exists>lf0 lf. LogFile_new sys basename rollsize flushInterval checkEveryN now = Inr lf0 \<and>
     LogFile_appends sys calls lf0 = Inr lf \<and> log_holds sys (map fst calls) lf"
proof -
  have "\<exists>lf0. LogFile_new sys basename rollsize flushInterval checkEveryN now = Inr lf0 \<and> log_holds sys [] lf0"
    using assms unfolding log_holds_def
    by (auto simp: LogFile_new_def LogFile_rollFile_def AppendFile_new_def log_system_ok_def Let_def log_files_def
        intro!: exI [of _ "[[]]"] exI [of _ "[now]"])
  then obtain lf0 where lf0: "LogFile_new sys basename rollsize flushInterval checkEveryN now = Inr lf0" "log_holds sys [] lf0"
    by blast
  from appends_hold [OF lf0(2) assms(1)] lf0(1) show ?thesis by auto
qed

text \<open>A system whose \<open>fwrite\<close> takes two bytes at a time, and a log that rolls after four bytes.\<close>

definition example_system :: log_system where
  "example_system = \<lparr>sys_gmtime_r = (\<lambda>s. fillHMS (s mod 86400) (zero_tm\<lparr>tm_year := 119, tm_mon := 10, tm_mday := 16\<rparr>)),
     sys_hostname = ''host'', sys_pid = 7, sys_fopen = (\<lambda>_. True), sys_fwrite = (\<lambda>_ _ len. min 2 len)\<rparr>"

lemma example_system_ok: "log_system_ok example_system"
  by (simp add: log_system_ok_def example_system_def fwrite_progress_def)

theorem LogFile_keeps_lines_witness:
  "\<exists>lf0 lf. LogFile_new example_system ''log'' 4 3 1024 1000 = Inr lf0 \<and>
     LogFile_appends example_system [(''first'', 1001, 0), (''second'', 1001, 0), (''third'', 1002, 0)] lf0 = Inr lf \<and>
     log_holds example_system [''first'', ''second'', ''third''] lf"
  using LogFile_keeps_lines [OF example_system_ok, of "''log''" 1000 4 3 1024
      "[(''first'', 1001, 0), (''second'', 1001, 0), (''third'', 1002, 0)]"] by simp

text \<open>
  The limit of the size is not kept within a second: while the clock does not pass the second of the last
  roll, every line goes to the same file, whatever its size and the limit.
\<close>

theorem LogFile_same_second_grows:
  assumes "log_system_ok sys" "lf_file lf = Some f" "\<forall>(logline, now, now')\<in>set calls. now \<le> lf_lastRoll lf \<and> now' \<le> lf_lastRoll lf"
  shows "\<exists>lf' f'. LogFile_appends sys calls lf = Inr lf' \<and> lf_closed lf' = lf_closed lf \<and> lf_file lf' = Some f' \<and>
     af_bytes f' = af_bytes f @ concat (map fst calls)"
  using assms(2,3)
proof (induction calls arbitrary: lf f)
  case (Cons c calls)
  obtain logline now now' where c: "c = (logline, now, now')" by (metis prod_cases3)
  let ?f = "AppendFile_append (sys_fwrite sys (af_name f)) logline f"
  have bytes: "af_bytes ?f = af_bytes f @ logline"
    using assms(1) by (simp add: log_system_ok_def AppendFile_append_all)
  have "now \<le> lf_lastRoll lf" "now' \<le> lf_lastRoll lf" using Cons.prems(2) c by auto
  then have "\<exists>lf1. LogFile_append sys logline (now, now') lf = Inr lf1 \<and> lf_file lf1 = Some ?f \<and>
      lf_lastRoll lf1 = lf_lastRoll lf \<and> lf_closed lf1 = lf_closed lf"
    using Cons.prems(1) by (simp add: LogFile_append_def LogFile_rollFile_def LogFile_flush_def Let_def)
  then obtain lf1 where lf1: "LogFile_append sys logline (now, now') lf = Inr lf1"
      "lf_file lf1 = Some ?f" "lf_lastRoll lf1 = lf_lastRoll lf" "lf_closed lf1 = lf_closed lf" by blast
  from Cons.IH [OF lf1(2)] Cons.prems(2) lf1 bytes show ?case by (auto simp: LogFile_appends_def c)
qed (simp add: LogFile_appends_def)

theorem LogFile_same_second_grows_witness:
  "\<exists>lf lf' f'. LogFile_new example_system ''log'' 4 3 1024 1000 = Inr lf \<and>
     LogFile_appends example_system (replicate 5 (''second'', 1000, 1000)) lf = Inr lf' \<and> lf_file lf' = Some f' \<and>
     length (af_bytes f') = 30"
proof -
  have "\<exists>lf f. LogFile_new example_system ''log'' 4 3 1024 1000 = Inr lf \<and> lf_file lf = Some f \<and> af_bytes f = [] \<and> lf_lastRoll lf = 1000"
    by (simp add: LogFile_new_def LogFile_rollFile_def AppendFile_new_def Let_def) (simp add: example_system_def)
  then obtain lf f where lf: "LogFile_new example_system ''log'' 4 3 1024 1000 = Inr lf" "lf_file lf = Some f" "af_bytes f = []"
      "lf_lastRoll lf = 1000" by blast
  have "\<forall>(logline, now, now')\<in>set (replicate 5 (''second'', 1000, 1000)). now \<le> lf_lastRoll lf \<and> now' \<le> lf_lastRoll lf"
    using lf(4) by simp
  from LogFile_same_second_grows [OF example_system_ok lf(2) this] lf(1,3) show ?thesis
    by (auto simp: length_concat sum_list_replicate)
qed

end
