(* ===== verification/Net_FileServer.thy ===== *)
theory Net_FileServer
  imports Net_TcpConnection Base_Logger
begin

text \<open>
  The file servers of \<open>example/filetransfer\<close>: \<open>download1.cc\<close> sends a file at once, \<open>download2.cc\<close> and \<open>download3.cc\<close>
  send it in pieces, the next one when the previous has been written; they differ in who closes the file.

  A \<open>FILE\<close> is its data, the position and whether it is still open. The context of a connection is an \<open>Any\<close>:
  empty, a null pointer or a pointer to the file. The bytes of the stack array \<open>tmp\<close> that are not written
  before it is sent are a parameter. Callbacks run in the thread of the loop; their order with the events of the
  connection is a step relation. The data a client sends is ignored, as the servers do.
\<close>

section \<open>Files\<close>

record FILE =
  f_data :: string
  f_pos :: nat
  f_open :: bool

definition FILE_new :: "string \<Rightarrow> FILE" where
  "FILE_new d = \<lparr>f_data = d, f_pos = 0, f_open = True\<rparr>"

definition fread_file :: "nat \<Rightarrow> FILE \<Rightarrow> (string \<times> FILE) result" where
  "fread_file n f = bindR (guardR UseAfterFree (f_open f)) (\<lambda>_.
     (let buf = take n (drop (f_pos f) (f_data f)) in Inr (buf, f\<lparr>f_pos := f_pos f + length buf\<rparr>)))"

definition fclose_file :: "FILE \<Rightarrow> FILE result" where
  "fclose_file f = bindR (guardR UseAfterFree (f_open f)) (\<lambda>_. Inr (f\<lparr>f_open := False\<rparr>))"

definition NAME_MAX :: nat where
  "NAME_MAX = 255"

definition kBufSize :: nat where
  "kBufSize = 64 * 1024"

text \<open>Name, size and then the content: \<open>strcpy\<close> with its NUL, then the four bytes of the \<open>int\<close>.\<close>

definition file_header :: "string \<Rightarrow> string \<Rightarrow> string \<Rightarrow> string result" where
  "file_header g_file data junk =
     (let name = (case strrchr (CHR ''/'') g_file of Some i \<Rightarrow> drop (i + 1) g_file | None \<Rightarrow> g_file);
          filesize = word_of_int (int (length data)) :: 32 word
      in bindR (mem_write 0 (name @ [CHR 0x00]) junk) (\<lambda>tmp. mem_write NAME_MAX (le_bytes 4 (unat filesize)) tmp))"

section \<open>download1: the whole file at once\<close>

function read_rest :: "nat \<Rightarrow> FILE \<Rightarrow> string \<Rightarrow> (string \<times> FILE) result" where
  "read_rest n f str =
     bindR (fread_file n f) (\<lambda>(buf, f). if buf = [] then Inr (str, f) else read_rest n f (str @ buf))"
  by pat_completeness auto
termination read_rest
  by (relation "measure (\<lambda>(n, f, _). length (f_data f) - f_pos f)") (auto simp: fread_file_def guardR_def Let_def split: if_splits)

declare read_rest.simps [simp del]

definition download1_readFile :: "string \<Rightarrow> string option \<Rightarrow> string \<Rightarrow> string result" where
  "download1_readFile g_file file junk = (case file of
     None \<Rightarrow> Inr ''''
   | Some data \<Rightarrow>
       bindR (file_header g_file data junk) (\<lambda>tmp.
       bindR (read_rest (1024 * 1024) (FILE_new data) tmp) (\<lambda>(str, fp).
       bindR (fclose_file fp) (\<lambda>_. Inr str))))"

definition download1_onConnection ::
    "write_call \<Rightarrow> int \<Rightarrow> string \<Rightarrow> string option \<Rightarrow> string \<Rightarrow> TcpConnection \<Rightarrow> TcpConnection result" where
  "download1_onConnection write tid g_file file junk conn =
     (if tc_state conn = kConnected
      then (let conn = conn\<lparr>tc_highWater := True, tc_highWaterMark := 64 * 1024\<rparr> in
        bindR (download1_readFile g_file file junk) (\<lambda>fileContent.
        bindR (TcpConnection_send write tid fileContent conn) (\<lambda>conn.
        TcpConnection_shutdown tid conn)))
      else Inr conn)"

section \<open>download2 and download3: piece by piece\<close>

record download =
  dl_conn :: TcpConnection
  dl_context :: "bool option"
  dl_file :: FILE
  dl_ran :: nat

text \<open>
  \<open>dl_context\<close> is \<open>None\<close> for an empty context, \<open>Some False\<close> for a null pointer; \<open>dl_ran\<close> counts the
  write-complete callbacks that have run. A wrong \<open>any_cast\<close> throws, which nothing catches.
\<close>

definition download_start ::
    "write_call \<Rightarrow> int \<Rightarrow> string \<Rightarrow> string option \<Rightarrow> string \<Rightarrow> download \<Rightarrow> download result" where
  "download_start write tid g_file file junk st =
     (let conn = (dl_conn st)\<lparr>tc_highWater := True, tc_highWaterMark := kBufSize + 1\<rparr> in
      case file of
        Some data \<Rightarrow>
          bindR (file_header g_file data junk) (\<lambda>tmp.
          bindR (TcpConnection_send write tid tmp conn) (\<lambda>conn.
          Inr (st\<lparr>dl_conn := conn, dl_context := Some True, dl_file := FILE_new data\<rparr>)))
      | None \<Rightarrow> bindR (TcpConnection_shutdown tid conn) (\<lambda>conn. Inr (st\<lparr>dl_conn := conn\<rparr>)))"

definition download2_onConnection ::
    "string \<Rightarrow> string option \<Rightarrow> string \<Rightarrow> write_call \<Rightarrow> int \<Rightarrow> download \<Rightarrow> download result" where
  "download2_onConnection g_file file junk write tid st =
     (if tc_state (dl_conn st) = kConnected then download_start write tid g_file file junk st
      else (case dl_context st of
        None \<Rightarrow> Inr st
      | Some fp \<Rightarrow> if fp then bindR (fclose_file (dl_file st)) (\<lambda>f. Inr (st\<lparr>dl_file := f\<rparr>)) else Inr st))"

definition download2_onWriteComplete :: "write_call \<Rightarrow> int \<Rightarrow> download \<Rightarrow> download result" where
  "download2_onWriteComplete write tid st =
     (case dl_context st of
        None \<Rightarrow> Inl Fatal
      | Some fp \<Rightarrow>
          if \<not> fp then Inl NullPointer
          else
            bindR (fread_file kBufSize (dl_file st)) (\<lambda>(buf, f).
            if buf \<noteq> []
            then bindR (TcpConnection_send write tid buf (dl_conn st)) (\<lambda>conn. Inr (st\<lparr>dl_conn := conn, dl_file := f\<rparr>))
            else bindR (fclose_file f) (\<lambda>f.
                 bindR (TcpConnection_shutdown tid (dl_conn st)) (\<lambda>conn.
                 Inr (st\<lparr>dl_conn := conn, dl_file := f, dl_context := Some False\<rparr>)))))"

text \<open>The file is owned by the context, a \<open>shared_ptr\<close> in \<open>download3\<close>.\<close>

definition download3_onConnection ::
    "string \<Rightarrow> string option \<Rightarrow> string \<Rightarrow> write_call \<Rightarrow> int \<Rightarrow> download \<Rightarrow> download result" where
  "download3_onConnection g_file file junk write tid st =
     (if tc_state (dl_conn st) = kConnected then download_start write tid g_file file junk st else Inr st)"

definition download3_onWriteComplete :: "write_call \<Rightarrow> int \<Rightarrow> download \<Rightarrow> download result" where
  "download3_onWriteComplete write tid st =
     (case dl_context st of
        None \<Rightarrow> Inl Fatal
      | Some fp \<Rightarrow>
            bindR (fread_file kBufSize (dl_file st)) (\<lambda>(buf, f).
            if buf \<noteq> []
            then bindR (TcpConnection_send write tid buf (dl_conn st)) (\<lambda>conn. Inr (st\<lparr>dl_conn := conn, dl_file := f\<rparr>))
            else bindR (TcpConnection_shutdown tid (dl_conn st)) (\<lambda>conn. Inr (st\<lparr>dl_conn := conn, dl_file := f\<rparr>))))"

section \<open>The life of a download\<close>

definition download_new :: "int \<Rightarrow> string \<Rightarrow> nat \<Rightarrow> int \<Rightarrow> download" where
  "download_new tid name loop sockfd =
     \<lparr>dl_conn = (TcpConnection_new tid name loop sockfd)\<lparr>tc_writeComplete := True\<rparr>, dl_context = None,
      dl_file = \<lparr>f_data = '''', f_pos = 0, f_open = False\<rparr>, dl_ran = 0\<rparr>"

text \<open>Callbacks that are queued in the loop.\<close>

definition dl_pending :: "download \<Rightarrow> nat" where
  "dl_pending st = tc_count WriteCompleteQueued (dl_conn st) - dl_ran st"

text \<open>
  A move of the loop: the connection is established, the socket is writable, a queued callback runs, the
  connection goes down. The value is what the code returns, a fault included.
\<close>

type_synonym on_connection = "write_call \<Rightarrow> int \<Rightarrow> download \<Rightarrow> download result"

inductive dl_move :: "on_connection \<Rightarrow> on_connection \<Rightarrow> int \<Rightarrow> download \<Rightarrow> download result \<Rightarrow> bool" for onC onW tid where
  dl_up: "tc_state (dl_conn st) = kConnecting \<Longrightarrow> TcpConnection_connectEstablished tid (dl_conn st) = Inr conn \<Longrightarrow>
     write_ok conn write \<Longrightarrow> dl_move onC onW tid st (onC write tid (st\<lparr>dl_conn := conn\<rparr>))"
| dl_write: "tc_isWriting (dl_conn st) \<Longrightarrow> write_ok (dl_conn st) write \<Longrightarrow>
     dl_move onC onW tid st (bindR (TcpConnection_handleWrite write tid (dl_conn st)) (\<lambda>conn. Inr (st\<lparr>dl_conn := conn\<rparr>)))"
| dl_complete: "0 < dl_pending st \<Longrightarrow> write_ok (dl_conn st) write \<Longrightarrow>
     dl_move onC onW tid st (onW write tid (st\<lparr>dl_ran := dl_ran st + 1\<rparr>))"
| dl_down: "tc_open (dl_conn st) \<Longrightarrow>
     dl_move onC onW tid st (bindR (TcpConnection_handleClose tid (dl_conn st)) (\<lambda>conn. onC write tid (st\<lparr>dl_conn := conn\<rparr>)))"

inductive dl_reachable :: "on_connection \<Rightarrow> on_connection \<Rightarrow> int \<Rightarrow> download \<Rightarrow> bool" for onC onW tid where
  dl_init: "dl_reachable onC onW tid (download_new tid name loop sockfd)"
| dl_next: "dl_reachable onC onW tid st \<Longrightarrow> dl_move onC onW tid st (Inr st') \<Longrightarrow> dl_reachable onC onW tid st'"

section \<open>What a send and a write do to the callbacks\<close>

definition same_conn :: "TcpConnection \<Rightarrow> TcpConnection \<Rightarrow> bool" where
  "same_conn c c' \<longleftrightarrow> tc_threadId c' = tc_threadId c \<and> tc_writeComplete c' = tc_writeComplete c \<and>
     tc_shutdowns c' = tc_shutdowns c \<and> tc_state c' = tc_state c \<and> set (tc_trace c) \<subseteq> set (tc_trace c')"

lemma queue_outcome:
  assumes "buffer_ok (tc_outputBuffer c)"
  shows "\<exists>c'. sendInLoop_queue rest c = Inr c' \<and> same_conn c c' \<and> tc_accepted c' = tc_accepted c \<and>
    content (tc_outputBuffer c') = content (tc_outputBuffer c) @ rest \<and>
    tc_count WriteCompleteQueued c' = tc_count WriteCompleteQueued c"
proof -
  obtain b where b: "Buffer_append (tc_outputBuffer c) rest = Inr b" "content b = content (tc_outputBuffer c) @ rest"
    using Buffer_append_spec [OF assms] by blast
  let ?d = "if Buffer_readableBytes (tc_outputBuffer c) + length rest \<ge> tc_highWaterMark c \<and>
      Buffer_readableBytes (tc_outputBuffer c) < tc_highWaterMark c \<and> tc_highWater c
    then tc_emit [HighWaterQueued (Buffer_readableBytes (tc_outputBuffer c) + length rest)] c else c"
  let ?e = "?d\<lparr>tc_outputBuffer := b\<rparr>"
  let ?f = "if \<not> tc_isWriting ?e then tc_events (\<lambda>e. e OR kWriteEvent) ?e else ?e"
  have "sendInLoop_queue rest c = Inr ?f" using b(1) by (simp add: sendInLoop_queue_def Let_def tc_emit_def)
  moreover have "same_conn c ?f \<and> tc_accepted ?f = tc_accepted c \<and> content (tc_outputBuffer ?f) = content (tc_outputBuffer c) @ rest \<and>
      tc_count WriteCompleteQueued ?f = tc_count WriteCompleteQueued c"
    using b(2) by (auto simp: same_conn_def tc_emit_def tc_events_def tc_count_def)
  ultimately show ?thesis by blast
qed

text \<open>A send over an empty output buffer: written at once, partly kept back, or lost to a peer that is gone.\<close>

lemma send_outcomes:
  assumes c: "tc_inv c" "tc_state c = kConnected" "tc_threadId c = tid" "tc_writeComplete c"
    and idle: "content (tc_outputBuffer c) = []" and msg: "message \<noteq> []" and w: "write_ok c write"
  shows "\<exists>c'. TcpConnection_send write tid message c = Inr c' \<and> tc_inv c' \<and> same_conn c c' \<and>
    (tc_accepted c' = tc_accepted c @ message \<and>
       tc_count WriteCompleteQueued c' = tc_count WriteCompleteQueued c + (if content (tc_outputBuffer c') = [] then 1 else 0) \<or>
     tc_accepted c' = tc_accepted c \<and> content (tc_outputBuffer c') = [] \<and>
       tc_count WriteCompleteQueued c' = tc_count WriteCompleteQueued c \<and> ErrorLogged \<in> set (tc_trace c'))"
proof -
  obtain c' where c': "TcpConnection_send write tid message c = Inr c'" "tc_inv c'" using send_inv [OF c(1) w] by blast
  have ok: "buffer_ok (tc_outputBuffer c)" using c(1) by (simp add: tc_inv_def)
  have idle': "\<not> tc_isWriting c" "Buffer_readableBytes (tc_outputBuffer c) = 0"
    using c(1,2) idle readable_content [OF ok] by (auto simp: tc_inv_def state_ok_def open_ok_def tc_ops)
  note unf = TcpConnection_send_def TcpConnection_sendInLoop_def sendInLoop_try_def tc_assertInLoopThread_def c(2,3) idle'
  have "same_conn c c' \<and> (tc_accepted c' = tc_accepted c @ message \<and>
       tc_count WriteCompleteQueued c' = tc_count WriteCompleteQueued c + (if content (tc_outputBuffer c') = [] then 1 else 0) \<or>
     tc_accepted c' = tc_accepted c \<and> content (tc_outputBuffer c') = [] \<and>
       tc_count WriteCompleteQueued c' = tc_count WriteCompleteQueued c \<and> ErrorLogged \<in> set (tc_trace c'))"
  proof (cases "write message")
    case (Inl e)
    let ?d = "(if e \<noteq> EWOULDBLOCK then tc_emit [ErrorLogged] c else c)\<lparr>tc_accepted := tc_accepted c @ message\<rparr>"
    have "buffer_ok (tc_outputBuffer ?d)" using ok by (simp add: tc_emit_def)
    from queue_outcome [OF this, of message] c'(1) msg idle Inl show ?thesis
      by (auto simp: unf Let_def same_conn_def tc_emit_def tc_count_def EPIPE_def ECONNRESET_def EWOULDBLOCK_def split: if_splits)
  next
    case (Inr n)
    then have n: "n \<le> length message" using w by (simp add: write_ok_def)
    let ?d = "c\<lparr>tc_wire := tc_wire c @ take n message, tc_accepted := tc_accepted c @ message\<rparr>"
    have "buffer_ok (tc_outputBuffer ?d)" using ok by simp
    from queue_outcome [OF this, of "drop n message"] c'(1) msg idle Inr n c(4) show ?thesis
      by (auto simp: unf Let_def same_conn_def tc_emit_def tc_count_def split: if_splits)
  qed
  with c' show ?thesis by blast
qed

text \<open>A write of a connection that waits for writability.\<close>

lemma handleWrite_outcomes:
  assumes c: "tc_inv c" "tc_state c = kConnected" "tc_threadId c = tid" "tc_writeComplete c"
    and w: "write_ok c write" "tc_isWriting c"
  shows "\<exists>c'. TcpConnection_handleWrite write tid c = Inr c' \<and> tc_inv c' \<and> same_conn c c' \<and> tc_accepted c' = tc_accepted c \<and>
    tc_count WriteCompleteQueued c' = tc_count WriteCompleteQueued c + (if content (tc_outputBuffer c') = [] then 1 else 0)"
proof -
  have "tc_open c" using c(2) by (simp add: tc_open_def)
  then obtain c' where c': "TcpConnection_handleWrite write tid c = Inr c'" "tc_inv c'"
    using handleWrite_inv [OF c(1) _ w(1)] c(3) by blast
  have ok: "buffer_ok (tc_outputBuffer c)" using c(1) by (simp add: tc_inv_def)
  have busy: "content (tc_outputBuffer c) \<noteq> []"
    using c(1,2) w(2) by (auto simp: tc_inv_def state_ok_def open_ok_def tc_ops)
  have "same_conn c c' \<and> tc_accepted c' = tc_accepted c \<and>
    tc_count WriteCompleteQueued c' = tc_count WriteCompleteQueued c + (if content (tc_outputBuffer c') = [] then 1 else 0)"
  proof (cases "\<exists>n. 0 < n \<and> write (content (tc_outputBuffer c)) = Inr n")
    case False
    then have "c' = tc_emit [ErrorLogged] c"
      using c'(1) w(2) c(3)
      by (cases "write (content (tc_outputBuffer c))") (simp_all add: TcpConnection_handleWrite_def tc_assertInLoopThread_def)
    then show ?thesis using busy by (auto simp: same_conn_def tc_emit_def tc_count_def)
  next
    case True
    then obtain n where n: "0 < n" "write (content (tc_outputBuffer c)) = Inr n" by blast
    then have "n \<le> length (content (tc_outputBuffer c))" using w(1) by (simp add: write_ok_def)
    then obtain b where b: "Buffer_retrieve (tc_outputBuffer c) n = Inr b" "buffer_ok b"
      using bq.dequeue_law [OF ok] by blast
    show ?thesis
      using c'(1) w(2) c(2-4) n b readable_content [OF b(2)]
      by (auto simp: TcpConnection_handleWrite_def tc_assertInLoopThread_def Let_def same_conn_def tc_emit_def tc_events_def tc_count_def
          split: if_splits)
  qed
  with c' show ?thesis by blast
qed

section \<open>The invariant of a download\<close>

definition dl_up_ok :: "string \<Rightarrow> string \<Rightarrow> download \<Rightarrow> bool" where
  "dl_up_ok hdr data st \<longleftrightarrow>
     (let c = dl_conn st; f = dl_file st; idle = (content (tc_outputBuffer c) = []) in
      dl_context st = Some True \<and> f_open f \<and> f_data f = data \<and> f_pos f \<le> length data \<and>
      (tc_accepted c = hdr @ take (f_pos f) data \<and> dl_pending st = (if idle then 1 else 0) \<or>
       (\<exists>k. tc_accepted c = take k (hdr @ data)) \<and> idle \<and> dl_pending st = 0 \<and> ErrorLogged \<in> set (tc_trace c)))"

definition dl_inv :: "int \<Rightarrow> string \<Rightarrow> string \<Rightarrow> download \<Rightarrow> bool" where
  "dl_inv tid hdr data st \<longleftrightarrow>
     (let c = dl_conn st; f = dl_file st; n = tc_count WriteCompleteQueued c in
      tc_inv c \<and> tc_threadId c = tid \<and> tc_writeComplete c \<and> dl_ran st \<le> n \<and>
      (case tc_state c of
         kConnecting \<Rightarrow> n = 0 \<and> tc_accepted c = []
       | kConnected \<Rightarrow> dl_up_ok hdr data st
       | kDisconnecting \<Rightarrow> dl_context st = Some True \<and> f_open f \<and> f_data f = data \<and> dl_pending st = 0 \<and>
           tc_accepted c = hdr @ data \<and> content (tc_outputBuffer c) = []
       | kDisconnected \<Rightarrow> dl_context st = Some True \<and> f_open f \<and> f_data f = data \<and>
           (\<exists>k. tc_accepted c = take k (hdr @ data))))"

lemma dl_start_inv:
  assumes h: "file_header g_file data junk = Inr hdr" "hdr \<noteq> []"
    and c: "tc_inv (dl_conn st)" "tc_state (dl_conn st) = kConnected" "tc_threadId (dl_conn st) = tid" "tc_writeComplete (dl_conn st)"
    and new: "tc_accepted (dl_conn st) = []" "tc_count WriteCompleteQueued (dl_conn st) = 0" "dl_ran st = 0"
    and w: "write_ok (dl_conn st) write"
  shows "\<exists>st'. download_start write tid g_file (Some data) junk st = Inr st' \<and> dl_inv tid hdr data st'"
proof -
  let ?c = "(dl_conn st)\<lparr>tc_highWater := True, tc_highWaterMark := kBufSize + 1\<rparr>"
  have "tc_inv ?c" by (rule inv_cong [OF c(1)]) (use c(1) in \<open>auto simp: tc_count_def tc_inv_def state_ok_def\<close>)
  moreover have "content (tc_outputBuffer (dl_conn st)) = []" using c(1) new(1) by (simp add: tc_inv_def)
  moreover have "write_ok ?c write" using w by (simp add: write_ok_def)
  ultimately obtain c' where c': "TcpConnection_send write tid hdr ?c = Inr c'" "tc_inv c'" "same_conn ?c c'"
    "tc_accepted c' = hdr \<and> tc_count WriteCompleteQueued c' = (if content (tc_outputBuffer c') = [] then 1 else 0) \<or>
     tc_accepted c' = [] \<and> content (tc_outputBuffer c') = [] \<and> tc_count WriteCompleteQueued c' = 0 \<and> ErrorLogged \<in> set (tc_trace c')"
    using send_outcomes [of ?c tid hdr "write"] c h(2) new by (auto simp: tc_count_def)
  define st' where "st' = st\<lparr>dl_conn := c', dl_context := Some True, dl_file := FILE_new data\<rparr>"
  have "download_start write tid g_file (Some data) junk st = Inr st'"
    using h(1) c'(1) by (simp add: download_start_def st'_def)
  moreover have "dl_inv tid hdr data st'"
    using c'(2,3) c(2-4) new(3) c'(4) unfolding dl_inv_def dl_up_ok_def dl_pending_def
    by (auto simp: st'_def FILE_new_def same_conn_def Let_def intro: exI [of _ 0])
  ultimately show ?thesis by blast
qed

lemma dl_write_inv:
  assumes inv: "dl_inv tid hdr data st" and w: "tc_isWriting (dl_conn st)" "write_ok (dl_conn st) write"
  shows "\<exists>c'. TcpConnection_handleWrite write tid (dl_conn st) = Inr c' \<and> dl_inv tid hdr data (st\<lparr>dl_conn := c'\<rparr>)"
proof -
  have c: "tc_inv (dl_conn st)" "tc_threadId (dl_conn st) = tid" "tc_writeComplete (dl_conn st)"
    using inv by (simp_all add: dl_inv_def Let_def)
  have busy: "tc_state (dl_conn st) \<noteq> kConnecting \<and> tc_state (dl_conn st) \<noteq> kDisconnected \<and> content (tc_outputBuffer (dl_conn st)) \<noteq> []"
    using c(1) w(1) by (cases "tc_state (dl_conn st)") (auto simp: tc_inv_def state_ok_def open_ok_def tc_ops)
  then have up: "tc_state (dl_conn st) = kConnected"
    using inv by (cases "tc_state (dl_conn st)") (auto simp: dl_inv_def Let_def)
  obtain c' where c': "TcpConnection_handleWrite write tid (dl_conn st) = Inr c'" "tc_inv c'" "same_conn (dl_conn st) c'"
      "tc_accepted c' = tc_accepted (dl_conn st)"
      "tc_count WriteCompleteQueued c' = tc_count WriteCompleteQueued (dl_conn st) + (if content (tc_outputBuffer c') = [] then 1 else 0)"
    using handleWrite_outcomes [OF c(1) up c(2,3) w(2,1)] by blast
  have "dl_inv tid hdr data (st\<lparr>dl_conn := c'\<rparr>)"
    using inv c' up busy unfolding dl_inv_def dl_up_ok_def dl_pending_def
    by (auto simp: same_conn_def Let_def split: if_splits)
  with c'(1) show ?thesis by blast
qed

lemma shutdown_outcome:
  assumes "tc_inv c" "tc_state c = kConnected" "tc_threadId c = tid"
  shows "\<exists>c'. TcpConnection_shutdown tid c = Inr c' \<and> tc_inv c' \<and> tc_state c' = kDisconnecting \<and> tc_threadId c' = tid \<and>
    tc_writeComplete c' = tc_writeComplete c \<and> tc_accepted c' = tc_accepted c \<and> tc_outputBuffer c' = tc_outputBuffer c \<and>
    tc_count WriteCompleteQueued c' = tc_count WriteCompleteQueued c"
proof -
  obtain c' where c': "TcpConnection_shutdown tid c = Inr c'" "tc_inv c'" using shutdown_inv [OF assms(1)] by blast
  then show ?thesis using assms(2,3)
    by (auto simp: TcpConnection_shutdown_def TcpConnection_shutdownInLoop_def tc_emit_def tc_count_def tc_assertInLoopThread_def Let_def
        split: if_splits)
qed

lemma shutdown_closed: "tc_state c \<noteq> kConnected \<Longrightarrow> TcpConnection_shutdown tid c = Inr c"
  by (simp add: TcpConnection_shutdown_def)

lemma send_closed: "tc_state c \<noteq> kConnected \<Longrightarrow> TcpConnection_send write tid message c = Inr c"
  by (simp add: TcpConnection_send_def)

lemma dl_complete_inv:
  assumes inv: "dl_inv tid hdr data st" and p: "0 < dl_pending st" and w: "write_ok (dl_conn st) write"
  shows "\<exists>st'. download3_onWriteComplete write tid (st\<lparr>dl_ran := dl_ran st + 1\<rparr>) = Inr st' \<and> dl_inv tid hdr data st'"
proof -
  let ?c = "dl_conn st" and ?f = "dl_file st"
  let ?buf = "take kBufSize (drop (f_pos ?f) (f_data ?f))"
  let ?f' = "?f\<lparr>f_pos := f_pos ?f + length ?buf\<rparr>"
  have c: "tc_inv ?c" "tc_threadId ?c = tid" "tc_writeComplete ?c" using inv by (simp_all add: dl_inv_def Let_def)
  have st: "tc_state ?c = kConnected \<or> tc_state ?c = kDisconnected"
    using inv p by (cases "tc_state ?c") (auto simp: dl_inv_def dl_pending_def Let_def)
  have f: "dl_context st = Some True" "f_open ?f" "f_data ?f = data"
    using inv st by (auto simp: dl_inv_def dl_up_ok_def Let_def)
  have run: "download3_onWriteComplete write tid (st\<lparr>dl_ran := dl_ran st + 1\<rparr>) =
     (if ?buf \<noteq> []
      then bindR (TcpConnection_send write tid ?buf ?c) (\<lambda>conn. Inr (st\<lparr>dl_ran := dl_ran st + 1, dl_conn := conn, dl_file := ?f'\<rparr>))
      else bindR (TcpConnection_shutdown tid ?c) (\<lambda>conn. Inr (st\<lparr>dl_ran := dl_ran st + 1, dl_conn := conn, dl_file := ?f'\<rparr>)))"
    using f(1,2) by (simp add: download3_onWriteComplete_def fread_file_def Let_def)
  show ?thesis
  proof (cases "tc_state ?c = kConnected")
    case False
    with st have "dl_inv tid hdr data (st\<lparr>dl_ran := dl_ran st + 1, dl_conn := ?c, dl_file := ?f'\<rparr>)"
      using inv f p by (auto simp: dl_inv_def dl_pending_def Let_def)
    then show ?thesis unfolding run using False by (simp add: shutdown_closed send_closed)
  next
    case True
    have up: "f_pos ?f \<le> length data" "tc_accepted ?c = hdr @ take (f_pos ?f) data" "content (tc_outputBuffer ?c) = []"
        "tc_count WriteCompleteQueued ?c = dl_ran st + 1"
      using inv True p by (auto simp: dl_inv_def dl_up_ok_def dl_pending_def Let_def split: if_splits)
    show ?thesis
    proof (cases "?buf = []")
      case True
      then have all: "take (f_pos ?f) data = data" using up(1) f(3) by (auto simp: kBufSize_def)
      obtain c' where c': "TcpConnection_shutdown tid ?c = Inr c'" "tc_inv c'" "tc_state c' = kDisconnecting" "tc_threadId c' = tid"
          "tc_writeComplete c' = tc_writeComplete ?c" "tc_accepted c' = tc_accepted ?c" "tc_outputBuffer c' = tc_outputBuffer ?c"
          "tc_count WriteCompleteQueued c' = tc_count WriteCompleteQueued ?c"
        using shutdown_outcome [OF c(1) \<open>tc_state ?c = kConnected\<close> c(2)] by blast
      have "dl_inv tid hdr data (st\<lparr>dl_ran := dl_ran st + 1, dl_conn := c', dl_file := ?f'\<rparr>)"
        using c' c(3) up f all unfolding dl_inv_def dl_pending_def by (simp add: Let_def)
      moreover have "download3_onWriteComplete write tid (st\<lparr>dl_ran := dl_ran st + 1\<rparr>) =
          Inr (st\<lparr>dl_ran := dl_ran st + 1, dl_conn := c', dl_file := ?f'\<rparr>)"
        unfolding run c'(1) using True by simp
      ultimately show ?thesis by blast
    next
      case False
      obtain c' where c': "TcpConnection_send write tid ?buf ?c = Inr c'" "tc_inv c'" "same_conn ?c c'"
          "tc_accepted c' = tc_accepted ?c @ ?buf \<and>
             tc_count WriteCompleteQueued c' = tc_count WriteCompleteQueued ?c + (if content (tc_outputBuffer c') = [] then 1 else 0) \<or>
           tc_accepted c' = tc_accepted ?c \<and> content (tc_outputBuffer c') = [] \<and>
             tc_count WriteCompleteQueued c' = tc_count WriteCompleteQueued ?c \<and> ErrorLogged \<in> set (tc_trace c')"
        using send_outcomes [OF c(1) \<open>tc_state ?c = kConnected\<close> c(2,3) up(3) False w] by blast
      have pos: "f_pos ?f' \<le> length data" "take (f_pos ?f) data @ ?buf = take (f_pos ?f') data"
        using up(1) f(3) by (auto simp: take_add min_def)
      have lost: "\<exists>k. hdr @ take (f_pos ?f) data = take k (hdr @ data)"
        by (rule exI [of _ "length hdr + f_pos ?f"]) simp
      have "dl_inv tid hdr data (st\<lparr>dl_ran := dl_ran st + 1, dl_conn := c', dl_file := ?f'\<rparr>)"
        using c'(2-4) \<open>tc_state ?c = kConnected\<close> c(2,3) f up pos lost
        unfolding dl_inv_def dl_up_ok_def dl_pending_def by (auto simp: same_conn_def Let_def)
      then show ?thesis unfolding run using False c'(1) by simp
    qed
  qed
qed

lemma established_fresh:
  assumes "tc_inv c" "tc_state c = kConnecting" "tc_threadId c = tid" "TcpConnection_connectEstablished tid c = Inr c'"
  shows "tc_inv c' \<and> tc_state c' = kConnected \<and> tc_threadId c' = tid \<and> tc_writeComplete c' = tc_writeComplete c \<and>
    tc_accepted c' = tc_accepted c \<and> tc_count WriteCompleteQueued c' = tc_count WriteCompleteQueued c"
proof -
  have "tc_inv c'" using established_inv [OF assms(1)] assms(2-4) by fastforce
  with assms(2-4) show ?thesis
    by (auto simp: TcpConnection_connectEstablished_def tc_assertInLoopThread_def tc_emit_def tc_events_def tc_count_def Let_def)
qed

lemma close_outcome:
  assumes "tc_inv c" "tc_open c" "tc_threadId c = tid"
  shows "\<exists>c'. TcpConnection_handleClose tid c = Inr c' \<and> tc_inv c' \<and> tc_state c' = kDisconnected \<and> tc_threadId c' = tid \<and>
    tc_writeComplete c' = tc_writeComplete c \<and> tc_accepted c' = tc_accepted c \<and>
    tc_count WriteCompleteQueued c' = tc_count WriteCompleteQueued c"
proof -
  obtain c' where c': "TcpConnection_handleClose tid c = Inr c'" "tc_inv c'" using handleClose_inv [OF assms(1,2)] assms(3) by blast
  then show ?thesis using assms(2,3)
    by (auto simp: TcpConnection_handleClose_def tc_assertInLoopThread_def tc_open_def tc_emit_def tc_events_def tc_count_def)
qed

lemma dl_move_inv:
  assumes h: "file_header g_file data junk = Inr hdr" "hdr \<noteq> []" and inv: "dl_inv tid hdr data st"
    and move: "dl_move (download3_onConnection g_file (Some data) junk) download3_onWriteComplete tid st r"
  shows "\<exists>st'. r = Inr st' \<and> dl_inv tid hdr data st'"
  using move
proof cases
  case (dl_up conn w)
  have c: "tc_inv (dl_conn st)" "tc_threadId (dl_conn st) = tid" using inv by (simp_all add: dl_inv_def Let_def)
  have fresh: "tc_accepted (dl_conn st) = []" "tc_count WriteCompleteQueued (dl_conn st) = 0" "dl_ran st = 0"
      "tc_writeComplete (dl_conn st)"
    using inv dl_up(2) by (simp_all add: dl_inv_def Let_def)
  have e: "tc_inv conn" "tc_state conn = kConnected" "tc_threadId conn = tid" "tc_writeComplete conn" "tc_accepted conn = []"
      "tc_count WriteCompleteQueued conn = 0"
    using established_fresh [OF c(1) dl_up(2) c(2) dl_up(3)] fresh by simp_all
  show ?thesis
    using dl_start_inv [OF h, of "st\<lparr>dl_conn := conn\<rparr>" tid w] e fresh(3) dl_up(1,4) by (simp add: download3_onConnection_def)
next
  case (dl_write w)
  then show ?thesis using dl_write_inv [OF inv dl_write(2,3)] by auto
next
  case (dl_complete w)
  then show ?thesis using dl_complete_inv [OF inv dl_complete(2,3)] by simp
next
  case (dl_down w)
  have c: "tc_inv (dl_conn st)" "tc_threadId (dl_conn st) = tid" using inv by (simp_all add: dl_inv_def Let_def)
  obtain c' where c': "TcpConnection_handleClose tid (dl_conn st) = Inr c'" "tc_inv c'" "tc_state c' = kDisconnected"
      "tc_threadId c' = tid" "tc_writeComplete c' = tc_writeComplete (dl_conn st)" "tc_accepted c' = tc_accepted (dl_conn st)"
      "tc_count WriteCompleteQueued c' = tc_count WriteCompleteQueued (dl_conn st)"
    using close_outcome [OF c(1) dl_down(2) c(2)] by blast
  have open_st: "tc_state (dl_conn st) = kConnected \<or> tc_state (dl_conn st) = kDisconnecting" using dl_down(2) by (simp add: tc_open_def)
  have sent: "\<exists>k. hdr @ take m data = take k (hdr @ data)" for m by (rule exI [of _ "length hdr + m"]) simp
  have full: "\<exists>k. hdr @ data = take k (hdr @ data)" by (rule exI [of _ "length hdr + length data"]) simp
  have acc: "\<exists>k. tc_accepted (dl_conn st) = take k (hdr @ data)"
    using inv open_st sent full unfolding dl_inv_def dl_up_ok_def by (auto simp: Let_def simp del: take_append)
  have rest: "dl_context st = Some True" "f_open (dl_file st)" "f_data (dl_file st) = data" "tc_writeComplete (dl_conn st)"
      "dl_ran st \<le> tc_count WriteCompleteQueued (dl_conn st)"
    using inv open_st unfolding dl_inv_def dl_up_ok_def by (auto simp: Let_def)
  have "dl_inv tid hdr data (st\<lparr>dl_conn := c'\<rparr>)"
    unfolding dl_inv_def using acc rest c' by (simp add: Let_def del: take_append)
  then show ?thesis using dl_down c'(1,3) by (simp add: download3_onConnection_def)
qed

lemma dl_reachable_inv:
  assumes "file_header g_file data junk = Inr hdr" "hdr \<noteq> []"
    and "dl_reachable (download3_onConnection g_file (Some data) junk) download3_onWriteComplete tid st"
  shows "dl_inv tid hdr data st"
  using assms(3)
proof induction
  case (dl_init name loop sockfd)
  have "tc_inv (dl_conn (download_new tid name loop sockfd))"
    by (rule inv_cong [OF cn_new_inv [of tid name loop sockfd]])
      (use cn_new_inv [of tid name loop sockfd] in \<open>auto simp: download_new_def tc_count_def tc_inv_def state_ok_def TcpConnection_new_def\<close>)
  then show ?case by (simp add: dl_inv_def download_new_def TcpConnection_new_def tc_count_def)
next
  case (dl_next st st')
  then show ?case using dl_move_inv [OF assms(1,2)] by blast
qed

lemma header_nonempty: "file_header g_file data junk = Inr hdr \<Longrightarrow> length hdr = length junk \<and> hdr \<noteq> []"
  by (auto simp: file_header_def mem_write_def Let_def splice_def NAME_MAX_def split: if_splits)

section \<open>Properties\<close>

text \<open>
  C31. The file server that sends piece by piece, with the file owned by the context. Over every interleaving of the events of
  the socket and the queued callbacks, whatever the kernel accepts, no call faults; the bytes handed to the
  connection are a prefix of the name, the size and the content of the file; the server starts to close only when they
  are all handed over and written; and until then something is always under way: bytes wait for the
  socket, a callback is queued, or an error has been logged.
\<close>

theorem download3_sends_file:
  assumes "file_header g_file data junk = Inr hdr"
    and "dl_reachable (download3_onConnection g_file (Some data) junk) download3_onWriteComplete tid st"
  shows "(\<exists>k. tc_accepted (dl_conn st) = take k (hdr @ data)) \<and>
     (tc_state (dl_conn st) = kDisconnecting \<longrightarrow> tc_wire (dl_conn st) = hdr @ data) \<and>
     (tc_state (dl_conn st) = kConnected \<longrightarrow>
        tc_isWriting (dl_conn st) \<or> dl_pending st = 1 \<or> ErrorLogged \<in> set (tc_trace (dl_conn st))) \<and>
     (\<forall>r. dl_move (download3_onConnection g_file (Some data) junk) download3_onWriteComplete tid st r \<longrightarrow> (\<exists>st'. r = Inr st'))"
proof -
  have ne: "hdr \<noteq> []" using header_nonempty [OF assms(1)] by simp
  have inv: "dl_inv tid hdr data st" by (rule dl_reachable_inv [OF assms(1) ne assms(2)])
  have c: "tc_inv (dl_conn st)" using inv by (simp add: dl_inv_def Let_def)
  have sent: "\<exists>k. hdr @ take m data = take k (hdr @ data)" for m by (rule exI [of _ "length hdr + m"]) simp
  have full: "\<exists>k. hdr @ data = take k (hdr @ data)" by (rule exI [of _ "length hdr + length data"]) simp
  have "\<exists>k. tc_accepted (dl_conn st) = take k (hdr @ data)"
    using inv sent full by (cases "tc_state (dl_conn st)") (auto simp: dl_inv_def dl_up_ok_def Let_def simp del: take_append)
  moreover have "tc_state (dl_conn st) = kDisconnecting \<longrightarrow> tc_wire (dl_conn st) = hdr @ data"
    using inv by (auto simp: dl_inv_def tc_inv_def Let_def)
  moreover have "tc_state (dl_conn st) = kConnected \<longrightarrow>
        tc_isWriting (dl_conn st) \<or> dl_pending st = 1 \<or> ErrorLogged \<in> set (tc_trace (dl_conn st))"
    using inv c by (auto simp: dl_inv_def dl_up_ok_def tc_inv_def state_ok_def open_ok_def tc_ops Let_def split: if_splits)
  ultimately show ?thesis using dl_move_inv [OF assms(1) ne inv] by blast
qed

text \<open>A socket that takes everything, an empty file: header, callback, shutdown.\<close>

definition greedy_write :: write_call where
  "greedy_write d = Inr (length d)"

lemma download_up:
  assumes h: "file_header g_file data junk = Inr hdr"
    and on: "\<And>st. tc_state (dl_conn st) = kConnected \<Longrightarrow> onC greedy_write tid st = download_start greedy_write tid g_file (Some data) junk st"
  shows "\<exists>st. dl_reachable onC onW tid st \<and> tc_state (dl_conn st) = kConnected \<and> tc_accepted (dl_conn st) = hdr \<and> dl_pending st = 1 \<and>
    dl_inv tid hdr data st"
proof -
  let ?st0 = "download_new tid ''c'' 0 5"
  have r0: "dl_reachable onC onW tid ?st0" by (rule dl_init)
  have c0: "tc_inv (dl_conn ?st0)"
    by (rule inv_cong [OF cn_new_inv [of tid "''c''" 0 5]])
      (use cn_new_inv [of tid "''c''" 0 5] in \<open>auto simp: download_new_def tc_count_def tc_inv_def state_ok_def TcpConnection_new_def\<close>)
  have f0: "tc_state (dl_conn ?st0) = kConnecting" "tc_threadId (dl_conn ?st0) = tid" "tc_writeComplete (dl_conn ?st0)"
      "tc_accepted (dl_conn ?st0) = []" "tc_count WriteCompleteQueued (dl_conn ?st0) = 0" "dl_ran ?st0 = 0" "tc_shut (dl_conn ?st0) = False"
    by (simp_all add: download_new_def TcpConnection_new_def tc_count_def)
  obtain c where est: "TcpConnection_connectEstablished tid (dl_conn ?st0) = Inr c" "tc_shut c = False"
    by (simp add: TcpConnection_connectEstablished_def tc_assertInLoopThread_def f0 tc_emit_def tc_events_def Let_def)
  have c: "tc_inv c" "tc_state c = kConnected" "tc_threadId c = tid" "tc_writeComplete c" "tc_accepted c = []"
      "tc_count WriteCompleteQueued c = 0"
    using established_fresh [OF c0 f0(1,2) est(1)] f0 by simp_all
  have w: "write_ok c greedy_write" using est(2) by (simp add: write_ok_def greedy_write_def)
  obtain st where st: "download_start greedy_write tid g_file (Some data) junk (?st0\<lparr>dl_conn := c\<rparr>) = Inr st" "dl_inv tid hdr data st"
    using dl_start_inv [OF h, of "?st0\<lparr>dl_conn := c\<rparr>" tid greedy_write] header_nonempty [OF h] c f0(6) w by auto
  have "dl_move onC onW tid ?st0 (Inr st)"
    using dl_up [OF f0(1) est(1) w, of onC onW] on [of "?st0\<lparr>dl_conn := c\<rparr>"] c(2) st(1) by simp
  then have "dl_reachable onC onW tid st" by (rule dl_next [OF r0])
  moreover have "tc_state (dl_conn st) = kConnected \<and> tc_accepted (dl_conn st) = hdr \<and> dl_pending st = 1"
  proof -
    have idle: "\<not> tc_isWriting c" "Buffer_readableBytes (tc_outputBuffer c) = 0"
      using c(1,2,5) readable_content [of "tc_outputBuffer c"] by (auto simp: tc_inv_def state_ok_def open_ok_def tc_ops)
    then show ?thesis using st(1) h c f0(6) header_nonempty [OF h]
      by (auto simp: download_start_def TcpConnection_send_def TcpConnection_sendInLoop_def sendInLoop_try_def greedy_write_def
          tc_assertInLoopThread_def tc_emit_def tc_count_def tc_isWriting_def dl_pending_def Let_def)
  qed
  ultimately show ?thesis using st(2) by blast
qed

theorem download3_sends_file_witness:
  "\<exists>hdr st. file_header ''/tmp/f.txt'' ''abc'' (replicate 259 (CHR 0x00)) = Inr hdr \<and> tc_state (dl_conn st) = kConnected \<and>
     dl_pending st = 1 \<and> (\<exists>k. tc_accepted (dl_conn st) = take k (hdr @ ''abc'')) \<and>
     (\<forall>r. dl_move (download3_onConnection ''/tmp/f.txt'' (Some ''abc'') (replicate 259 (CHR 0x00))) download3_onWriteComplete 7 st r
        \<longrightarrow> (\<exists>st'. r = Inr st'))"
proof -
  let ?onC = "download3_onConnection ''/tmp/f.txt'' (Some ''abc'') (replicate 259 (CHR 0x00))"
  have "\<exists>hdr. file_header ''/tmp/f.txt'' ''abc'' (replicate 259 (CHR 0x00)) = Inr hdr"
    by (simp add: file_header_def mem_write_def NAME_MAX_def splice_def Let_def)
  then obtain hdr where h: "file_header ''/tmp/f.txt'' ''abc'' (replicate 259 (CHR 0x00)) = Inr hdr" by blast
  obtain st where st: "dl_reachable ?onC download3_onWriteComplete 7 st" "tc_state (dl_conn st) = kConnected" "dl_pending st = 1"
    using download_up [OF h, of ?onC 7 download3_onWriteComplete] by (auto simp: download3_onConnection_def)
  show ?thesis using h st download3_sends_file [OF h st(1)] by blast
qed

text \<open>
  The file server that closes the file by hand uses it after closing it: for every file whose header can be
  built, there is a run in which the connection goes down while a write-complete callback is queued; the
  file is closed then, and the callback reads from it.
\<close>

theorem download2_reads_closed_file:
  assumes h: "file_header g_file data junk = Inr hdr"
  shows "\<exists>st. dl_reachable (download2_onConnection g_file (Some data) junk) download2_onWriteComplete tid st \<and> 0 < dl_pending st \<and>
     dl_move (download2_onConnection g_file (Some data) junk) download2_onWriteComplete tid st (Inl UseAfterFree)"
proof -
  let ?onC = "download2_onConnection g_file (Some data) junk"
  obtain st where st: "dl_reachable ?onC download2_onWriteComplete tid st" "tc_state (dl_conn st) = kConnected" "dl_pending st = 1"
      "dl_inv tid hdr data st"
    using download_up [OF h, of ?onC tid download2_onWriteComplete] by (auto simp: download2_onConnection_def)
  have f: "dl_context st = Some True" "f_open (dl_file st)" "tc_inv (dl_conn st)" "tc_threadId (dl_conn st) = tid"
    using st(2,4) by (auto simp: dl_inv_def dl_up_ok_def Let_def)
  have op: "tc_open (dl_conn st)" using st(2) by (simp add: tc_open_def)
  obtain c where c: "TcpConnection_handleClose tid (dl_conn st) = Inr c" "tc_state c = kDisconnected"
      "tc_count WriteCompleteQueued c = tc_count WriteCompleteQueued (dl_conn st)"
    using close_outcome [OF f(3) op f(4)] by blast
  define st2 where "st2 = st\<lparr>dl_conn := c, dl_file := (dl_file st)\<lparr>f_open := False\<rparr>\<rparr>"
  have "bindR (TcpConnection_handleClose tid (dl_conn st)) (\<lambda>conn. ?onC greedy_write tid (st\<lparr>dl_conn := conn\<rparr>)) = Inr st2"
    using c(1,2) f(1,2) by (simp add: download2_onConnection_def fclose_file_def st2_def)
  from dl_down [OF op, of ?onC download2_onWriteComplete tid greedy_write, unfolded this]
  have "dl_reachable ?onC download2_onWriteComplete tid st2" by (rule dl_next [OF st(1)])
  moreover have p: "0 < dl_pending st2" using st(3) c(3) by (simp add: dl_pending_def st2_def)
  moreover have "write_ok (dl_conn st2) (\<lambda>_. Inl EPIPE)" by (simp add: write_ok_def)
  moreover have "download2_onWriteComplete (\<lambda>_. Inl EPIPE) tid (st2\<lparr>dl_ran := dl_ran st2 + 1\<rparr>) = Inl UseAfterFree"
    using f(1) by (simp add: download2_onWriteComplete_def fread_file_def st2_def)
  ultimately show ?thesis using dl_complete [of st2 "\<lambda>_. Inl EPIPE" ?onC download2_onWriteComplete tid] by metis
qed

theorem download2_reads_closed_file_witness:
  "\<exists>st. dl_reachable (download2_onConnection ''f'' (Some ''abc'') (replicate 259 (CHR 0x00))) download2_onWriteComplete 7 st \<and>
     dl_move (download2_onConnection ''f'' (Some ''abc'') (replicate 259 (CHR 0x00))) download2_onWriteComplete 7 st (Inl UseAfterFree)"
proof -
  have "\<exists>hdr. file_header ''f'' ''abc'' (replicate 259 (CHR 0x00)) = Inr hdr"
    by (simp add: file_header_def mem_write_def NAME_MAX_def splice_def Let_def)
  then show ?thesis using download2_reads_closed_file [of "''f''" "''abc''" "replicate 259 (CHR 0x00)" _ 7] by blast
qed

lemma read_rest_all:
  "f_open f \<Longrightarrow> 0 < n \<Longrightarrow> \<exists>f'. read_rest n f str = Inr (str @ drop (f_pos f) (f_data f), f') \<and> f_open f'"
proof (induction n f str rule: read_rest.induct)
  case (1 n f str)
  let ?buf = "take n (drop (f_pos f) (f_data f))"
  let ?f = "f\<lparr>f_pos := f_pos f + length ?buf\<rparr>"
  have r: "fread_file n f = Inr (?buf, ?f)" using 1(2) by (simp add: fread_file_def Let_def)
  show ?case
  proof (cases "?buf = []")
    case True
    then have "drop (f_pos f) (f_data f) = []" using 1(3) by simp
    then show ?thesis using r True 1(2) by (subst read_rest.simps) simp
  next
    case False
    have "\<exists>f'. read_rest n ?f (str @ ?buf) = Inr ((str @ ?buf) @ drop (f_pos ?f) (f_data ?f), f') \<and> f_open f'"
      using 1(1) [OF r refl False] 1(2,3) by simp
    moreover have "?buf @ drop (f_pos ?f) (f_data ?f) = drop (f_pos f) (f_data f)"
      by (cases "n \<le> length (f_data f) - f_pos f") (simp_all add: add.commute flip: drop_drop)
    moreover have "read_rest n f str = read_rest n ?f (str @ ?buf)"
      using False by (subst read_rest.simps) (simp only: r bindR_Inr prod.case if_False)
    ultimately show ?thesis by simp
  qed
qed

text \<open>
  The simple file server hands a connection that is up exactly name, size and content of its file, or nothing
  when the file cannot be opened, and then starts to close it.
\<close>

theorem download1_sends_file:
  assumes c: "live tid conn" "steady write" and h: "\<And>data. file = Some data \<Longrightarrow> file_header g_file data junk = Inr hdr"
  shows "\<exists>conn'. download1_onConnection write tid g_file file junk conn = Inr conn' \<and> tc_inv conn' \<and>
     tc_state conn' = kDisconnecting \<and>
     tc_accepted conn' = tc_accepted conn @ (case file of None \<Rightarrow> '''' | Some data \<Rightarrow> hdr @ data)"
proof -
  have "\<exists>f. read_rest (1024 * 1024) (FILE_new data) hdr = Inr (hdr @ data, f) \<and> f_open f" for data
    using read_rest_all [of "FILE_new data" "1024 * 1024" hdr] by (simp add: FILE_new_def)
  then have r: "download1_readFile g_file file junk = Inr (case file of None \<Rightarrow> '''' | Some data \<Rightarrow> hdr @ data)"
    using h by (cases "file") (force simp: download1_readFile_def fclose_file_def)+
  let ?c = "conn\<lparr>tc_highWater := True, tc_highWaterMark := 64 * 1024\<rparr>"
  have "tc_inv conn" using c(1) by (simp add: live_def)
  then have "tc_inv ?c" by (rule inv_cong) (use c(1) in \<open>auto simp: live_def tc_count_def tc_inv_def state_ok_def\<close>)
  then have "live tid ?c" using c(1) by (simp add: live_def)
  from send_accepts [OF this c(2)] obtain c1 where
    c1: "TcpConnection_send write tid (case file of None \<Rightarrow> '''' | Some data \<Rightarrow> hdr @ data) ?c = Inr c1" "live tid c1"
      "tc_accepted c1 = tc_accepted conn @ (case file of None \<Rightarrow> '''' | Some data \<Rightarrow> hdr @ data)" by fastforce
  from c1(2) shutdown_outcome [of c1 tid] c1(1,3) c(1) show ?thesis
    by (auto simp: download1_onConnection_def r live_def Let_def)
qed

theorem download1_sends_file_witness:
  "\<exists>hdr conn'. download1_onConnection demo_write 7 ''f'' (Some ''abc'') (replicate 259 (CHR 0x00)) demo_conn = Inr conn' \<and>
     tc_accepted conn' = hdr @ ''abc'' \<and> length hdr = 259"
proof -
  have "\<exists>hdr. file_header ''f'' ''abc'' (replicate 259 (CHR 0x00)) = Inr hdr"
    by (simp add: file_header_def mem_write_def NAME_MAX_def splice_def Let_def)
  then obtain hdr where h: "file_header ''f'' ''abc'' (replicate 259 (CHR 0x00)) = Inr hdr" by blast
  then show ?thesis
    using download1_sends_file [OF demo_live, of "Some ''abc''" "''f''" "replicate 259 (CHR 0x00)" hdr] header_nonempty [OF h]
    by (auto simp: demo_conn_fields)
qed

end
