(* ===== verification/Net_Echo.thy ===== *)
theory Net_Echo
  imports Net_TcpConnection
begin

text \<open>
  Servers that send back what they receive: \<open>EchoServer\<close> of \<open>example/maxconnection\<close>, which limits the number of
  connections, and the server and the client of \<open>example/pingpong\<close>.

  A server is its counter and its connections, named by numbers; an event of a connection is one step, with the callback it
  triggers. Logging is left out. The counter is an \<open>int\<close> that never exceeds the number of descriptors.
\<close>

section \<open>EchoServer\<close>

record EchoServer =
  es_numConnected :: int
  es_kMaxConnections :: int

definition EchoServer_new :: "int \<Rightarrow> EchoServer" where
  "EchoServer_new maxConnections = \<lparr>es_numConnected = 0, es_kMaxConnections = maxConnections\<rparr>"

definition EchoServer_onConnection :: "int \<Rightarrow> TcpConnection \<Rightarrow> EchoServer \<Rightarrow> (TcpConnection \<times> EchoServer) result" where
  "EchoServer_onConnection tid conn s =
     (if tc_state conn = kConnected
      then (let s = s\<lparr>es_numConnected := es_numConnected s + 1\<rparr>
            in if es_numConnected s > es_kMaxConnections s
               then bindR (TcpConnection_shutdown tid conn) (\<lambda>conn. Inr (TcpConnection_forceCloseWithDelay conn, s))
               else Inr (conn, s))
      else Inr (conn, s\<lparr>es_numConnected := es_numConnected s - 1\<rparr>))"

definition EchoServer_onMessage :: "write_call \<Rightarrow> int \<Rightarrow> TcpConnection \<Rightarrow> TcpConnection result" where
  "EchoServer_onMessage write tid conn =
     bindR (Buffer_retrieveAllAsString (tc_inputBuffer conn)) (\<lambda>(msg, b).
     TcpConnection_send write tid msg (conn\<lparr>tc_inputBuffer := b\<rparr>))"

record echo_system =
  ec_server :: EchoServer
  ec_conns :: "nat \<Rightarrow> TcpConnection option"

definition echo_start :: "int \<Rightarrow> echo_system" where
  "echo_start maxConnections = \<lparr>ec_server = EchoServer_new maxConnections, ec_conns = (\<lambda>_. None)\<rparr>"

text \<open>
  A new connection, data from the peer, room in the socket, the end of a connection, and the timer of
  \<open>forceCloseWithDelay\<close>, which closes the connection if it is still open. The value of a step may be a fault.
\<close>

definition echo_put :: "nat \<Rightarrow> echo_system \<Rightarrow> TcpConnection \<times> EchoServer \<Rightarrow> echo_system" where
  "echo_put i st r = st\<lparr>ec_conns := (ec_conns st)(i := Some (fst r)), ec_server := snd r\<rparr>"

inductive echo_move :: "int \<Rightarrow> echo_system \<Rightarrow> echo_system result \<Rightarrow> bool" for tid where
  em_accept: "ec_conns st i = None \<Longrightarrow>
     echo_move tid st
       (bindR (TcpConnection_connectEstablished tid (TcpConnection_new tid name loop sockfd)) (\<lambda>conn.
        bindR (EchoServer_onConnection tid conn (ec_server st)) (\<lambda>r. Inr (echo_put i st r))))"
| em_message: "ec_conns st i = Some conn \<Longrightarrow> tc_open conn \<Longrightarrow> write_ok conn write \<Longrightarrow>
     echo_move tid st
       (bindR (Buffer_append (tc_inputBuffer conn) received) (\<lambda>b.
        bindR (EchoServer_onMessage write tid (conn\<lparr>tc_inputBuffer := b\<rparr>)) (\<lambda>conn.
        Inr (echo_put i st (conn, ec_server st)))))"
| em_write: "ec_conns st i = Some conn \<Longrightarrow> tc_isWriting conn \<Longrightarrow> write_ok conn write \<Longrightarrow>
     echo_move tid st
       (bindR (TcpConnection_handleWrite write tid conn) (\<lambda>conn. Inr (echo_put i st (conn, ec_server st))))"
| em_close: "ec_conns st i = Some conn \<Longrightarrow> tc_open conn \<Longrightarrow>
     echo_move tid st
       (bindR (TcpConnection_handleClose tid conn) (\<lambda>conn.
        bindR (EchoServer_onConnection tid conn (ec_server st)) (\<lambda>r. Inr (echo_put i st r))))"
| em_timer: "ec_conns st i = Some conn \<Longrightarrow> 0 < tc_delayed conn \<Longrightarrow> tc_open conn \<Longrightarrow>
     echo_move tid st
       (bindR (TcpConnection_forceClose tid (conn\<lparr>tc_delayed := tc_delayed conn - 1\<rparr>)) (\<lambda>conn.
        bindR (EchoServer_onConnection tid conn (ec_server st)) (\<lambda>r. Inr (echo_put i st r))))"
| em_timer_late: "ec_conns st i = Some conn \<Longrightarrow> 0 < tc_delayed conn \<Longrightarrow> \<not> tc_open conn \<Longrightarrow>
     echo_move tid st
       (bindR (TcpConnection_forceClose tid (conn\<lparr>tc_delayed := tc_delayed conn - 1\<rparr>)) (\<lambda>conn.
        Inr (echo_put i st (conn, ec_server st))))"

inductive echo_reachable :: "int \<Rightarrow> int \<Rightarrow> echo_system \<Rightarrow> bool" for tid maxConnections where
  er_start: "echo_reachable tid maxConnections (echo_start maxConnections)"
| er_next: "echo_reachable tid maxConnections st \<Longrightarrow> echo_move tid st (Inr st') \<Longrightarrow> echo_reachable tid maxConnections st'"

text \<open>The connections that are open, and those the server serves.\<close>

definition ec_open :: "echo_system \<Rightarrow> nat set" where
  "ec_open st = {i. \<exists>c. ec_conns st i = Some c \<and> tc_open c}"

definition ec_served :: "echo_system \<Rightarrow> nat set" where
  "ec_served st = {i. \<exists>c. ec_conns st i = Some c \<and> tc_state c = kConnected}"

definition echo_inv :: "int \<Rightarrow> int \<Rightarrow> echo_system \<Rightarrow> bool" where
  "echo_inv tid maxConnections st \<longleftrightarrow>
     (\<forall>i c. ec_conns st i = Some c \<longrightarrow> tc_inv c \<and> tc_threadId c = tid \<and> tc_state c \<noteq> kConnecting) \<and>
     finite (ec_open st) \<and> es_numConnected (ec_server st) = int (card (ec_open st)) \<and>
     es_kMaxConnections (ec_server st) = maxConnections \<and> int (card (ec_served st)) \<le> max 0 maxConnections"

lemma served_open: "ec_served st \<subseteq> ec_open st"
  by (auto simp: ec_served_def ec_open_def tc_open_def)

lemma ec_put:
  "ec_open (echo_put i st r) = (if tc_open (fst r) then insert i (ec_open st) else ec_open st - {i})"
  "ec_served (echo_put i st r) = (if tc_state (fst r) = kConnected then insert i (ec_served st) else ec_served st - {i})"
  by (auto simp: ec_open_def ec_served_def echo_put_def)

text \<open>A step that changes a connection but neither the counter nor whether it is open, and opens none for service.\<close>

lemma echo_update:
  assumes inv: "echo_inv tid m st" and i: "ec_conns st i = Some c"
    and c': "tc_inv c'" "tc_threadId c' = tid" "tc_open c' = tc_open c" "tc_state c' \<noteq> kConnecting"
      "tc_state c' = kConnected \<Longrightarrow> tc_state c = kConnected"
  shows "echo_inv tid m (echo_put i st (c', ec_server st))"
proof -
  have o: "ec_open (echo_put i st (c', ec_server st)) = ec_open st"
    using i c'(3) by (auto simp: ec_put) (auto simp: ec_open_def)
  have "ec_served (echo_put i st (c', ec_server st)) \<subseteq> ec_served st"
    using i c'(5) by (auto simp: echo_put_def ec_served_def split: if_splits)
  moreover have "finite (ec_served st)" by (rule finite_subset [OF served_open]) (use inv in \<open>simp add: echo_inv_def\<close>)
  ultimately have "card (ec_served (echo_put i st (c', ec_server st))) \<le> card (ec_served st)" by (rule card_mono [rotated])
  then show ?thesis using inv c' unfolding echo_inv_def o by (auto simp: echo_put_def)
qed

text \<open>The end of a connection.\<close>

lemma echo_down:
  assumes inv: "echo_inv tid m st" and i: "ec_conns st i = Some c" "tc_open c"
    and c': "tc_inv c'" "tc_threadId c' = tid" "tc_state c' = kDisconnected"
  shows "\<exists>r. EchoServer_onConnection tid c' (ec_server st) = Inr r \<and> echo_inv tid m (echo_put i st r)"
proof -
  let ?s = "(ec_server st)\<lparr>es_numConnected := es_numConnected (ec_server st) - 1\<rparr>"
  have r: "EchoServer_onConnection tid c' (ec_server st) = Inr (c', ?s)"
    using c'(3) by (simp add: EchoServer_onConnection_def)
  have o: "ec_open (echo_put i st (c', ?s)) = ec_open st - {i}" "ec_served (echo_put i st (c', ?s)) = ec_served st - {i}"
    using c'(3) by (simp_all add: ec_put tc_open_def)
  have mem: "i \<in> ec_open st" using i by (auto simp: ec_open_def)
  have fin: "finite (ec_open st)" using inv by (simp add: echo_inv_def)
  have "0 < card (ec_open st)" using mem fin by (auto simp: card_gt_0_iff)
  moreover have "card (ec_served st - {i}) \<le> card (ec_served st)" by (rule card_Diff1_le)
  ultimately have "echo_inv tid m (echo_put i st (c', ?s))"
    using inv c' mem fin unfolding echo_inv_def o by (auto simp: echo_put_def)
  with r show ?thesis by blast
qed

lemma new_established:
  "\<exists>c. TcpConnection_connectEstablished tid (TcpConnection_new tid name loop sockfd) = Inr c \<and> tc_inv c \<and>
    tc_state c = kConnected \<and> tc_threadId c = tid"
proof -
  have "\<exists>c. TcpConnection_connectEstablished tid (TcpConnection_new tid name loop sockfd) = Inr c \<and> tc_state c = kConnected \<and> tc_threadId c = tid"
    by (simp add: TcpConnection_connectEstablished_def TcpConnection_new_def tc_assertInLoopThread_def tc_emit_def tc_events_def Let_def)
  moreover have "tc_threadId (TcpConnection_new tid name loop sockfd) = tid" by (simp add: TcpConnection_new_def)
  ultimately show ?thesis using established_inv [OF cn_new_inv [of tid name loop sockfd]] by metis
qed

text \<open>A new connection is served when there is room, and is being closed otherwise.\<close>

lemma echo_accept:
  assumes inv: "echo_inv tid m st" and i: "ec_conns st i = None"
    and c: "tc_inv c" "tc_threadId c = tid" "tc_state c = kConnected"
  shows "\<exists>r. EchoServer_onConnection tid c (ec_server st) = Inr r \<and> echo_inv tid m (echo_put i st r)"
proof -
  let ?s = "(ec_server st)\<lparr>es_numConnected := es_numConnected (ec_server st) + 1\<rparr>"
  have fin: "finite (ec_open st)" "i \<notin> ec_open st" using inv i by (auto simp: echo_inv_def ec_open_def)
  have num: "es_numConnected ?s = int (card (insert i (ec_open st)))" "es_kMaxConnections ?s = m"
    using inv fin by (simp_all add: echo_inv_def)
  show ?thesis
  proof (cases "es_numConnected ?s > m")
    case True
    obtain c1 where c1: "TcpConnection_shutdown tid c = Inr c1" "tc_inv c1" using shutdown_inv [OF c(1)] by blast
    let ?c = "TcpConnection_forceCloseWithDelay c1"
    have "tc_state c1 = kDisconnecting \<and> tc_threadId c1 = tid" using c1(1) c(2,3)
      by (auto simp: TcpConnection_shutdown_def TcpConnection_shutdownInLoop_def tc_emit_def tc_assertInLoopThread_def Let_def)
    then have c2: "tc_inv ?c" "tc_state ?c = kDisconnecting" "tc_threadId ?c = tid" "tc_open ?c"
      using delay_inv [OF c1(2)] by (simp_all add: TcpConnection_forceCloseWithDelay_def tc_open_def)
    have r: "EchoServer_onConnection tid c (ec_server st) = Inr (?c, ?s)"
      using True c(3) c1(1) num(2) by (simp add: EchoServer_onConnection_def Let_def)
    have "card (ec_served st - {i}) \<le> card (ec_served st)" by (rule card_Diff1_le)
    moreover have o: "ec_open (echo_put i st (?c, ?s)) = insert i (ec_open st)" "ec_served (echo_put i st (?c, ?s)) = ec_served st - {i}"
      using c2 by (simp_all add: ec_put)
    ultimately have "echo_inv tid m (echo_put i st (?c, ?s))"
      using inv c2 num fin unfolding echo_inv_def o by (auto simp: echo_put_def)
    with r show ?thesis by blast
  next
    case False
    have r: "EchoServer_onConnection tid c (ec_server st) = Inr (c, ?s)"
      using False c(3) num(2) by (simp add: EchoServer_onConnection_def Let_def)
    have o: "ec_open (echo_put i st (c, ?s)) = insert i (ec_open st)" "ec_served (echo_put i st (c, ?s)) = insert i (ec_served st)"
      using c(3) by (simp_all add: ec_put tc_open_def)
    have "insert i (ec_served st) \<subseteq> insert i (ec_open st)" using served_open by blast
    then have "card (insert i (ec_served st)) \<le> card (insert i (ec_open st))" using fin(1) by (intro card_mono) auto
    then have "int (card (insert i (ec_served st))) \<le> max 0 m" using False num(1) by simp
    then have "echo_inv tid m (echo_put i st (c, ?s))"
      using inv c num fin unfolding echo_inv_def o by (auto simp: echo_put_def)
    with r show ?thesis by blast
  qed
qed

lemma write_keeps_state:
  "TcpConnection_handleWrite write tid c = Inr c' \<Longrightarrow> tc_state c' = tc_state c \<and> tc_threadId c' = tc_threadId c"
  by (auto simp: TcpConnection_handleWrite_def TcpConnection_shutdownInLoop_def tc_assertInLoopThread_def tc_emit_def tc_events_def Let_def
      split: if_splits sum.splits)

lemma send_keeps_state:
  "TcpConnection_send write tid message c = Inr c' \<Longrightarrow> tc_state c' = tc_state c \<and> tc_threadId c' = tc_threadId c"
  by (auto simp: TcpConnection_send_def TcpConnection_sendInLoop_def sendInLoop_try_def sendInLoop_queue_def
      tc_emit_def tc_events_def tc_assertInLoopThread_def Let_def split: if_splits sum.splits prod.splits)

lemma close_keeps:
  assumes "tc_inv c" "tc_open c" "tc_threadId c = tid"
  shows "\<exists>c'. TcpConnection_handleClose tid c = Inr c' \<and> tc_inv c' \<and> tc_state c' = kDisconnected \<and> tc_threadId c' = tid"
proof -
  obtain c' where c': "TcpConnection_handleClose tid c = Inr c'" "tc_inv c'" using handleClose_inv [OF assms(1,2)] assms(3) by blast
  then show ?thesis using assms(2,3)
    by (auto simp: TcpConnection_handleClose_def tc_assertInLoopThread_def tc_open_def tc_emit_def tc_events_def)
qed

lemma delayed_close:
  assumes "tc_inv c" "tc_threadId c = tid" "tc_state c \<noteq> kConnecting"
  shows "\<exists>c'. TcpConnection_forceClose tid (c\<lparr>tc_delayed := n\<rparr>) = Inr c' \<and> tc_inv c' \<and> tc_state c' = kDisconnected \<and> tc_threadId c' = tid"
proof -
  have "tc_inv (c\<lparr>tc_delayed := n\<rparr>)"
    by (rule inv_cong [OF assms(1)]) (use assms(1,3) in \<open>auto simp: tc_count_def tc_inv_def state_ok_def\<close>)
  then obtain c' where c': "TcpConnection_forceClose tid (c\<lparr>tc_delayed := n\<rparr>) = Inr c'" "tc_inv c'"
    using forceClose_inv by blast
  then show ?thesis using assms(2,3)
    by (cases "tc_state c") (auto simp: TcpConnection_forceClose_def TcpConnection_forceCloseInLoop_def TcpConnection_handleClose_def
        tc_assertInLoopThread_def tc_emit_def tc_events_def Let_def)
qed

lemma retrieveAll_content:
  assumes "buffer_ok b"
  shows "\<exists>b'. Buffer_retrieveAllAsString b = Inr (content b, b') \<and> buffer_ok b' \<and> content b' = []"
proof -
  obtain b' where "Buffer_retrieve b (Buffer_readableBytes b) = Inr b'" "buffer_ok b'" "content b' = []"
    using Buffer_retrieve_spec [OF assms, of "length (content b)"] assms by auto
  then show ?thesis
    using assms by (auto simp: Buffer_retrieveAllAsString_def Buffer_retrieveAsString_def content_def buffer_observers buffer_ok_def)
qed

lemma echo_message:
  assumes "tc_inv c" "write_ok c write"
  shows "\<exists>b c'. Buffer_append (tc_inputBuffer c) received = Inr b \<and> EchoServer_onMessage write tid (c\<lparr>tc_inputBuffer := b\<rparr>) = Inr c' \<and>
    tc_inv c' \<and> tc_state c' = tc_state c \<and> tc_threadId c' = tc_threadId c"
proof -
  have "buffer_ok (tc_inputBuffer c)" using assms(1) by (simp add: tc_inv_def)
  then obtain b where b: "Buffer_append (tc_inputBuffer c) received = Inr b" "buffer_ok b" using Buffer_append_spec by blast
  obtain msg b' where m: "Buffer_retrieveAllAsString b = Inr (msg, b')" "buffer_ok b'"
    using retrieveAll_content [OF b(2)] by blast
  let ?c = "c\<lparr>tc_inputBuffer := b'\<rparr>"
  have "tc_inv ?c" by (rule inputBuffer_inv [OF assms(1) m(2)])
  moreover have "write_ok ?c write" using assms(2) by (simp add: write_ok_def)
  ultimately obtain c' where c': "TcpConnection_send write tid msg ?c = Inr c'" "tc_inv c'" using send_inv by blast
  then show ?thesis using b(1) m(1) send_keeps_state [OF c'(1)] by (auto simp: EchoServer_onMessage_def)
qed

lemma echo_move_inv:
  assumes inv: "echo_inv tid m st" and move: "echo_move tid st r"
  shows "\<exists>st'. r = Inr st' \<and> echo_inv tid m st'"
proof -
  have c: "tc_inv c \<and> tc_threadId c = tid \<and> tc_state c \<noteq> kConnecting" if "ec_conns st i = Some c" for i c
    using inv that by (auto simp: echo_inv_def)
  from move show ?thesis
  proof cases
    case (em_accept i name loop sockfd)
    obtain conn where conn: "TcpConnection_connectEstablished tid (TcpConnection_new tid name loop sockfd) = Inr conn" "tc_inv conn"
        "tc_state conn = kConnected" "tc_threadId conn = tid" using new_established by blast
    then show ?thesis using echo_accept [OF inv em_accept(2) conn(2,4,3)] em_accept(1) by auto
  next
    case (em_message i conn w received)
    obtain b c' where "Buffer_append (tc_inputBuffer conn) received = Inr b" "EchoServer_onMessage w tid (conn\<lparr>tc_inputBuffer := b\<rparr>) = Inr c'"
        "tc_inv c'" "tc_state c' = tc_state conn" "tc_threadId c' = tc_threadId conn"
      using echo_message [of conn w received tid] c [OF em_message(2)] em_message(4) by blast
    then show ?thesis using em_message(1) echo_update [OF inv em_message(2), of c'] c [OF em_message(2)] by (simp add: tc_open_def)
  next
    case (em_write i conn w)
    obtain c' where c': "TcpConnection_handleWrite w tid conn = Inr c'" "tc_inv c'"
      using handleWrite_inv [OF _ writing_open em_write(4)] c [OF em_write(2)] em_write(3) by blast
    then show ?thesis
      using em_write(1) echo_update [OF inv em_write(2) c'(2)] write_keeps_state [OF c'(1)] c [OF em_write(2)]
      by (simp add: tc_open_def)
  next
    case (em_close i conn)
    obtain c' where "TcpConnection_handleClose tid conn = Inr c'" "tc_inv c'" "tc_state c' = kDisconnected" "tc_threadId c' = tid"
      using close_keeps [of conn tid] c [OF em_close(2)] em_close(3) by blast
    then show ?thesis using em_close(1) echo_down [OF inv em_close(2,3)] by fastforce
  next
    case (em_timer i conn)
    obtain c' where "TcpConnection_forceClose tid (conn\<lparr>tc_delayed := tc_delayed conn - 1\<rparr>) = Inr c'" "tc_inv c'"
        "tc_state c' = kDisconnected" "tc_threadId c' = tid"
      using delayed_close c [OF em_timer(2)] by blast
    then show ?thesis using em_timer(1) echo_down [OF inv em_timer(2,4)] by fastforce
  next
    case (em_timer_late i conn)
    obtain c' where c': "TcpConnection_forceClose tid (conn\<lparr>tc_delayed := tc_delayed conn - 1\<rparr>) = Inr c'" "tc_inv c'"
        "tc_state c' = kDisconnected" "tc_threadId c' = tid"
      using delayed_close c [OF em_timer_late(2)] by blast
    then show ?thesis using em_timer_late(1,4) echo_update [OF inv em_timer_late(2) c'(2,4)] by (simp add: tc_open_def)
  qed
qed

lemma echo_reachable_inv: "echo_reachable tid m st \<Longrightarrow> echo_inv tid m st"
proof (induction rule: echo_reachable.induct)
  case er_start
  then show ?case by (simp add: echo_inv_def echo_start_def EchoServer_new_def ec_open_def ec_served_def)
next
  case (er_next st st')
  then show ?case using echo_move_inv by blast
qed

text \<open>
  The limit of the echo server. Over every interleaving of new connections, messages, writes, closes and the
  timers of delayed closes, no callback faults, the counter is the number of open connections, and at most
  the allowed number of them is being served; the ones above it are closing from the start.
\<close>

theorem EchoServer_limits_connections:
  assumes "echo_reachable tid maxConnections st"
  shows "finite (ec_open st) \<and> es_numConnected (ec_server st) = int (card (ec_open st)) \<and>
     int (card (ec_served st)) \<le> max 0 maxConnections \<and>
     (\<forall>r. echo_move tid st r \<longrightarrow> (\<exists>st'. r = Inr st'))"
proof -
  have "\<forall>r. echo_move tid st r \<longrightarrow> (\<exists>st'. r = Inr st')" using echo_move_inv [OF echo_reachable_inv [OF assms]] by blast
  then show ?thesis using echo_reachable_inv [OF assms] by (simp add: echo_inv_def)
qed

theorem EchoServer_limits_connections_witness:
  "\<exists>st. echo_reachable 7 0 st \<and> es_numConnected (ec_server st) = 1 \<and> ec_served st = {}"
proof -
  obtain conn where conn: "TcpConnection_connectEstablished 7 (TcpConnection_new 7 ''c'' 0 5) = Inr conn" "tc_inv conn"
      "tc_state conn = kConnected" "tc_threadId conn = 7" using new_established by blast
  have none: "ec_conns (echo_start 0) 0 = None" by (simp add: echo_start_def)
  obtain r where r: "EchoServer_onConnection 7 conn (ec_server (echo_start 0)) = Inr r"
    using echo_accept [OF echo_reachable_inv [OF er_start] none conn(2,4,3)] by blast
  have m: "echo_move 7 (echo_start 0) (Inr (echo_put 0 (echo_start 0) r))"
    using em_accept [OF none, of 7 "''c''" 0 5] conn(1) r by simp
  have n: "es_numConnected (snd r) = 1"
    using r conn(3) by (auto simp: EchoServer_onConnection_def echo_start_def EchoServer_new_def Let_def split: if_splits)
  have reach: "echo_reachable 7 0 (echo_put 0 (echo_start 0) r)" by (rule er_next [OF er_start m])
  have "finite (ec_served (echo_put 0 (echo_start 0) r))"
    using EchoServer_limits_connections [OF reach] served_open finite_subset by blast
  then have "ec_served (echo_put 0 (echo_start 0) r) = {}" using EchoServer_limits_connections [OF reach] by auto
  then show ?thesis using reach n by (intro exI [of _ "echo_put 0 (echo_start 0) r"]) (simp add: echo_put_def)
qed

section \<open>Ping-pong\<close>

text \<open>The message callback of the server, and a session of the client with its counters.\<close>

definition pingpong_onMessage :: "write_call \<Rightarrow> int \<Rightarrow> TcpConnection \<Rightarrow> TcpConnection result" where
  "pingpong_onMessage write tid conn =
     bindR (TcpConnection_send_Buffer write tid (tc_inputBuffer conn) conn) (\<lambda>(conn, buf). Inr (conn\<lparr>tc_inputBuffer := buf\<rparr>))"

record Session =
  ss_conn :: TcpConnection
  ss_bytesRead :: int
  ss_messagesRead :: int

definition Session_onMessage :: "write_call \<Rightarrow> int \<Rightarrow> Session \<Rightarrow> Session result" where
  "Session_onMessage write tid s =
     (let s = s\<lparr>ss_messagesRead := ss_messagesRead s + 1,
                ss_bytesRead := ss_bytesRead s + int (Buffer_readableBytes (tc_inputBuffer (ss_conn s)))\<rparr> in
      bindR (TcpConnection_send_Buffer write tid (tc_inputBuffer (ss_conn s)) (ss_conn s)) (\<lambda>(conn, buf).
      Inr (s\<lparr>ss_conn := conn\<lparr>tc_inputBuffer := buf\<rparr>\<rparr>)))"

record Client =
  cl_sessionCount :: int
  cl_numConnected :: int
  cl_message :: string
  cl_quit :: bool

definition Client_message :: "nat \<Rightarrow> string" where
  "Client_message blockSize = map (\<lambda>i. char_of (i mod 128)) [0..<blockSize]"

text \<open>The counter is not initialised by the constructor; its first value is a parameter.\<close>

definition Client_new :: "int \<Rightarrow> nat \<Rightarrow> int \<Rightarrow> Client" where
  "Client_new uninit blockSize sessionCount =
     \<lparr>cl_sessionCount = sessionCount, cl_numConnected = uninit, cl_message = Client_message blockSize, cl_quit = False\<rparr>"

definition Client_onConnect :: "Client \<Rightarrow> Client" where
  "Client_onConnect cl = cl\<lparr>cl_numConnected := cl_numConnected cl + 1\<rparr>"

definition Client_onDisconnect :: "Client \<Rightarrow> Client" where
  "Client_onDisconnect cl =
     (let cl = cl\<lparr>cl_numConnected := cl_numConnected cl - 1\<rparr> in if cl_numConnected cl = 0 then cl\<lparr>cl_quit := True\<rparr> else cl)"

definition Session_onConnection :: "write_call \<Rightarrow> int \<Rightarrow> Session \<Rightarrow> Client \<Rightarrow> (Session \<times> Client) result" where
  "Session_onConnection write tid s cl =
     (if tc_state (ss_conn s) = kConnected
      then bindR (TcpConnection_send write tid (cl_message cl) (ss_conn s)) (\<lambda>conn.
           Inr (s\<lparr>ss_conn := conn\<rparr>, Client_onConnect cl))
      else Inr (s, Client_onDisconnect cl))"

text \<open>
  A session and its server joined by two channels that lose nothing. Each step delivers some of the bytes under way or
  lets a socket take some of what is buffered; what a connection writes enters its channel.
\<close>

record pingpong =
  pp_session :: Session
  pp_server :: TcpConnection
  pp_toServer :: string
  pp_toClient :: string
  pp_clientGot :: string
  pp_serverGot :: string

definition written :: "TcpConnection \<Rightarrow> TcpConnection \<Rightarrow> string" where
  "written c c' = drop (length (tc_wire c)) (tc_wire c')"

definition receive :: "string \<Rightarrow> TcpConnection \<Rightarrow> TcpConnection result" where
  "receive d c = bindR (Buffer_append (tc_inputBuffer c) d) (\<lambda>b. Inr (c\<lparr>tc_inputBuffer := b\<rparr>))"

inductive pp_move :: "int \<Rightarrow> int \<Rightarrow> pingpong \<Rightarrow> pingpong result \<Rightarrow> bool" for ctid stid where
  pp_server_reads: "0 < n \<Longrightarrow> n \<le> length (pp_toServer p) \<Longrightarrow> steady write \<Longrightarrow>
     pp_move ctid stid p
       (bindR (receive (take n (pp_toServer p)) (pp_server p)) (\<lambda>c.
        bindR (pingpong_onMessage write stid c) (\<lambda>c'.
        Inr (p\<lparr>pp_server := c', pp_toServer := drop n (pp_toServer p), pp_serverGot := pp_serverGot p @ take n (pp_toServer p),
               pp_toClient := pp_toClient p @ written (pp_server p) c'\<rparr>))))"
| pp_client_reads: "0 < n \<Longrightarrow> n \<le> length (pp_toClient p) \<Longrightarrow> steady write \<Longrightarrow>
     pp_move ctid stid p
       (bindR (receive (take n (pp_toClient p)) (ss_conn (pp_session p))) (\<lambda>c.
        bindR (Session_onMessage write ctid ((pp_session p)\<lparr>ss_conn := c\<rparr>)) (\<lambda>s.
        Inr (p\<lparr>pp_session := s, pp_toClient := drop n (pp_toClient p), pp_clientGot := pp_clientGot p @ take n (pp_toClient p),
               pp_toServer := pp_toServer p @ written (ss_conn (pp_session p)) (ss_conn s)\<rparr>))))"
| pp_server_writes: "tc_isWriting (pp_server p) \<Longrightarrow> steady write \<Longrightarrow>
     pp_move ctid stid p
       (bindR (TcpConnection_handleWrite write stid (pp_server p)) (\<lambda>c.
        Inr (p\<lparr>pp_server := c, pp_toClient := pp_toClient p @ written (pp_server p) c\<rparr>)))"
| pp_client_writes: "tc_isWriting (ss_conn (pp_session p)) \<Longrightarrow> steady write \<Longrightarrow>
     pp_move ctid stid p
       (bindR (TcpConnection_handleWrite write ctid (ss_conn (pp_session p))) (\<lambda>c.
        Inr (p\<lparr>pp_session := (pp_session p)\<lparr>ss_conn := c\<rparr>, pp_toServer := pp_toServer p @ written (ss_conn (pp_session p)) c\<rparr>)))"

text \<open>Both connections are up and the client has just run its connection callback.\<close>

definition fresh_up :: "int \<Rightarrow> TcpConnection \<Rightarrow> bool" where
  "fresh_up tid c \<longleftrightarrow> live tid c \<and> tc_accepted c = [] \<and> content (tc_inputBuffer c) = []"

inductive pp_reachable :: "int \<Rightarrow> int \<Rightarrow> Client \<Rightarrow> pingpong \<Rightarrow> bool" for ctid stid cl where
  pp_start: "fresh_up ctid c \<Longrightarrow> fresh_up stid sv \<Longrightarrow> steady write \<Longrightarrow>
     Session_onConnection write ctid \<lparr>ss_conn = c, ss_bytesRead = 0, ss_messagesRead = 0\<rparr> cl = Inr (s, cl') \<Longrightarrow>
     pp_reachable ctid stid cl \<lparr>pp_session = s, pp_server = sv, pp_toServer = written c (ss_conn s), pp_toClient = '''',
       pp_clientGot = '''', pp_serverGot = ''''\<rparr>"
| pp_next: "pp_reachable ctid stid cl p \<Longrightarrow> pp_move ctid stid p (Inr p') \<Longrightarrow> pp_reachable ctid stid cl p'"

lemma steady_write_ok: "live tid c \<Longrightarrow> steady write \<Longrightarrow> write_ok c write"
  by (auto simp: live_def write_ok_def steady_def tc_inv_def state_ok_def)

lemma wire_grows:
  "TcpConnection_send write tid message c = Inr c' \<Longrightarrow> tc_wire c' = tc_wire c @ written c c' \<and> tc_inputBuffer c' = tc_inputBuffer c"
  by (auto simp: TcpConnection_send_def TcpConnection_sendInLoop_def sendInLoop_try_def sendInLoop_queue_def written_def
      tc_emit_def tc_events_def tc_assertInLoopThread_def Let_def split: if_splits sum.splits prod.splits)

lemma wire_grows_write:
  "TcpConnection_handleWrite write tid c = Inr c' \<Longrightarrow> tc_wire c' = tc_wire c @ written c c' \<and> tc_inputBuffer c' = tc_inputBuffer c \<and>
    tc_accepted c' = tc_accepted c"
  by (auto simp: TcpConnection_handleWrite_def TcpConnection_shutdownInLoop_def written_def
      tc_emit_def tc_events_def tc_assertInLoopThread_def Let_def split: if_splits sum.splits prod.splits)

text \<open>Data arrives and is sent back: the input buffer is empty again.\<close>

lemma bounce:
  assumes c: "live tid c" "content (tc_inputBuffer c) = []" and w: "steady write"
  shows "\<exists>c1 c2 buf. receive d c = Inr c1 \<and> content (tc_inputBuffer c1) = d \<and> buffer_ok (tc_inputBuffer c1) \<and>
    TcpConnection_send_Buffer write tid (tc_inputBuffer c1) c1 = Inr (c2, buf) \<and> live tid (c2\<lparr>tc_inputBuffer := buf\<rparr>) \<and>
    content buf = [] \<and> tc_accepted c2 = tc_accepted c @ d \<and> tc_wire c2 = tc_wire c @ written c (c2\<lparr>tc_inputBuffer := buf\<rparr>)"
proof -
  have inv: "tc_inv c" using c(1) by (simp add: live_def)
  have "buffer_ok (tc_inputBuffer c)" using inv by (simp add: tc_inv_def)
  then obtain b where b: "Buffer_append (tc_inputBuffer c) d = Inr b" "buffer_ok b" "content b = d"
    using Buffer_append_spec [of "tc_inputBuffer c" d] c(2) by auto
  let ?c1 = "c\<lparr>tc_inputBuffer := b\<rparr>"
  have l1: "live tid ?c1" using inputBuffer_inv [OF inv b(2)] c(1) by (simp add: live_def)
  obtain c2 where c2: "TcpConnection_send write tid d ?c1 = Inr c2" "live tid c2" "tc_accepted c2 = tc_accepted c @ d"
    using send_accepts [OF l1 w] by fastforce
  have s: "TcpConnection_send_Buffer write tid b ?c1 = Inr (c2, Buffer_retrieveAll b)"
    using c2(1) l1 b(3) by (simp add: TcpConnection_send_def TcpConnection_send_Buffer_def live_def)
  have e: "buffer_ok (Buffer_retrieveAll b)" "content (Buffer_retrieveAll b) = []"
    using b(2) by (simp_all add: Buffer_retrieveAll_def buffer_ok_def content_def slice_def kCheapPrepend_def)
  have "live tid (c2\<lparr>tc_inputBuffer := Buffer_retrieveAll b\<rparr>)"
    using inputBuffer_inv [OF _ e(1)] c2(2) by (simp add: live_def)
  moreover have "tc_wire c2 = tc_wire c @ written c (c2\<lparr>tc_inputBuffer := Buffer_retrieveAll b\<rparr>)"
    using wire_grows [OF c2(1)] by (simp add: written_def)
  ultimately show ?thesis using b s e(2) c2(3) by (intro exI [of _ ?c1] exI [of _ c2] exI [of _ "Buffer_retrieveAll b"]) (simp add: receive_def)
qed

definition pp_inv :: "int \<Rightarrow> int \<Rightarrow> string \<Rightarrow> pingpong \<Rightarrow> bool" where
  "pp_inv ctid stid m p \<longleftrightarrow>
     (let c = ss_conn (pp_session p); s = pp_server p in
      live ctid c \<and> live stid s \<and> content (tc_inputBuffer c) = [] \<and> content (tc_inputBuffer s) = [] \<and>
      tc_wire c = pp_serverGot p @ pp_toServer p \<and> tc_wire s = pp_clientGot p @ pp_toClient p \<and>
      tc_accepted c = m @ pp_clientGot p \<and> tc_accepted s = pp_serverGot p \<and>
      ss_bytesRead (pp_session p) = int (length (pp_clientGot p)))"

lemma pp_move_inv:
  assumes inv: "pp_inv ctid stid m p" and move: "pp_move ctid stid p r"
  shows "\<exists>p'. r = Inr p' \<and> pp_inv ctid stid m p'"
  using move
proof cases
  case (pp_server_reads n w)
  let ?d = "take n (pp_toServer p)"
  have c: "live stid (pp_server p)" "content (tc_inputBuffer (pp_server p)) = []" using inv by (simp_all add: pp_inv_def Let_def)
  obtain c1 c2 buf where b: "receive ?d (pp_server p) = Inr c1"
      "TcpConnection_send_Buffer w stid (tc_inputBuffer c1) c1 = Inr (c2, buf)" "live stid (c2\<lparr>tc_inputBuffer := buf\<rparr>)"
      "content buf = []" "tc_accepted c2 = tc_accepted (pp_server p) @ ?d"
      "tc_wire c2 = tc_wire (pp_server p) @ written (pp_server p) (c2\<lparr>tc_inputBuffer := buf\<rparr>)"
    using bounce [OF c pp_server_reads(4), of ?d] by blast
  then show ?thesis using inv pp_server_reads(1) by (simp add: pp_inv_def pingpong_onMessage_def Let_def)
next
  case (pp_client_reads n w)
  let ?d = "take n (pp_toClient p)" and ?c = "ss_conn (pp_session p)"
  have c: "live ctid ?c" "content (tc_inputBuffer ?c) = []" using inv by (simp_all add: pp_inv_def Let_def)
  obtain c1 c2 buf where b: "receive ?d ?c = Inr c1" "content (tc_inputBuffer c1) = ?d" "buffer_ok (tc_inputBuffer c1)"
      "TcpConnection_send_Buffer w ctid (tc_inputBuffer c1) c1 = Inr (c2, buf)" "live ctid (c2\<lparr>tc_inputBuffer := buf\<rparr>)"
      "content buf = []" "tc_accepted c2 = tc_accepted ?c @ ?d" "tc_wire c2 = tc_wire ?c @ written ?c (c2\<lparr>tc_inputBuffer := buf\<rparr>)"
    using bounce [OF c pp_client_reads(4), of ?d] by blast
  moreover have "Buffer_readableBytes (tc_inputBuffer c1) = length ?d" using length_content [OF b(3)] b(2) by simp
  ultimately show ?thesis using inv pp_client_reads(1) by (simp add: pp_inv_def Session_onMessage_def Let_def)
next
  case (pp_server_writes w)
  have c: "live stid (pp_server p)" using inv by (simp add: pp_inv_def Let_def)
  then have "tc_inv (pp_server p)" "tc_open (pp_server p)" "tc_threadId (pp_server p) = stid" by (simp_all add: live_def tc_open_def)
  then obtain c' where c': "TcpConnection_handleWrite w stid (pp_server p) = Inr c'" "tc_inv c'"
    using handleWrite_inv steady_write_ok [OF c pp_server_writes(3)] by blast
  then have "live stid c'" using write_keeps_state [OF c'(1)] c by (simp add: live_def)
  then show ?thesis using inv pp_server_writes(1) c'(1) wire_grows_write [OF c'(1)] by (simp add: pp_inv_def Let_def)
next
  case (pp_client_writes w)
  let ?c = "ss_conn (pp_session p)"
  have c: "live ctid ?c" using inv by (simp add: pp_inv_def Let_def)
  then have "tc_inv ?c" "tc_open ?c" "tc_threadId ?c = ctid" by (simp_all add: live_def tc_open_def)
  then obtain c' where c': "TcpConnection_handleWrite w ctid ?c = Inr c'" "tc_inv c'"
    using handleWrite_inv steady_write_ok [OF c pp_client_writes(3)] by blast
  then have "live ctid c'" using write_keeps_state [OF c'(1)] c by (simp add: live_def)
  then show ?thesis using inv pp_client_writes(1) c'(1) wire_grows_write [OF c'(1)] by (simp add: pp_inv_def Let_def)
qed

lemma pp_start_inv:
  assumes "fresh_up ctid c" "fresh_up stid sv" "steady write"
  shows "\<exists>s cl'. Session_onConnection write ctid \<lparr>ss_conn = c, ss_bytesRead = 0, ss_messagesRead = 0\<rparr> cl = Inr (s, cl') \<and>
    pp_inv ctid stid (cl_message cl) \<lparr>pp_session = s, pp_server = sv, pp_toServer = written c (ss_conn s), pp_toClient = '''',
       pp_clientGot = '''', pp_serverGot = ''''\<rparr>"
proof -
  have c: "live ctid c" "tc_accepted c = []" "content (tc_inputBuffer c) = []" using assms(1) by (simp_all add: fresh_up_def)
  obtain c' where c': "TcpConnection_send write ctid (cl_message cl) c = Inr c'" "live ctid c'"
      "tc_accepted c' = tc_accepted c @ cl_message cl" using send_accepts [OF c(1) assms(3)] by blast
  have "tc_wire c = []" "tc_wire sv = []" using assms(1,2) by (auto simp: fresh_up_def live_def tc_inv_def)
  moreover have "tc_state c = kConnected" using c(1) by (simp add: live_def)
  ultimately show ?thesis
    using c' c assms(2) wire_grows [OF c'(1)] by (simp add: Session_onConnection_def pp_inv_def fresh_up_def)
qed

lemma pp_reachable_inv: "pp_reachable ctid stid cl p \<Longrightarrow> pp_inv ctid stid (cl_message cl) p"
proof (induction rule: pp_reachable.induct)
  case (pp_start c sv w s cl')
  then show ?case using pp_start_inv [OF pp_start(1-3), of cl] by simp
next
  case (pp_next p p')
  then show ?case using pp_move_inv by blast
qed

lemma periodic:
  assumes "m @ x = x @ r" "m \<noteq> []" "i < length x"
  shows "x ! i = m ! (i mod length m)"
  using assms(3)
proof (induction i rule: less_induct)
  case (less i)
  have e: "(m @ x) ! i = x ! i" using less.prems by (simp add: assms(1) nth_append)
  show ?case
  proof (cases "i < length m")
    case True
    then show ?thesis using e by (simp add: nth_append)
  next
    case False
    then have "i - length m < i" using assms(2) less.prems by (cases m) auto
    with less have "x ! (i - length m) = m ! ((i - length m) mod length m)" by simp
    with e False show ?thesis by (simp add: nth_append le_mod_geq)
  qed
qed

text \<open>
  C32. Ping-pong over two connections whose kernels take any part of what they are given: no callback faults; the bytes
  of the first message circulate for ever, none lost or added: what waits in the two output buffers and the
  two channels always has the length of the message; the client counts exactly what it received; and that is
  the message over and over again.
\<close>

theorem pingpong_conserves_bytes:
  assumes "pp_reachable ctid stid cl p" "cl_message cl \<noteq> ''''"
  shows "length (content (tc_outputBuffer (ss_conn (pp_session p)))) + length (pp_toServer p) +
       length (content (tc_outputBuffer (pp_server p))) + length (pp_toClient p) = length (cl_message cl) \<and>
     ss_bytesRead (pp_session p) = int (length (pp_clientGot p)) \<and>
     (\<forall>i < length (pp_clientGot p). pp_clientGot p ! i = cl_message cl ! (i mod length (cl_message cl))) \<and>
     (\<forall>r. pp_move ctid stid p r \<longrightarrow> (\<exists>p'. r = Inr p'))"
proof -
  have inv: "pp_inv ctid stid (cl_message cl) p" by (rule pp_reachable_inv [OF assms(1)])
  let ?oc = "content (tc_outputBuffer (ss_conn (pp_session p)))" and ?os = "content (tc_outputBuffer (pp_server p))"
  have c: "cl_message cl @ pp_clientGot p = pp_serverGot p @ pp_toServer p @ ?oc"
      "pp_serverGot p = pp_clientGot p @ pp_toClient p @ ?os"
    using inv by (auto simp: pp_inv_def live_def tc_inv_def Let_def)
  have "length ?oc + length (pp_toServer p) + length ?os + length (pp_toClient p) = length (cl_message cl)"
    using arg_cong [OF c(1), of length] arg_cong [OF c(2), of length] by simp
  moreover have "\<forall>i < length (pp_clientGot p). pp_clientGot p ! i = cl_message cl ! (i mod length (cl_message cl))"
    using periodic [OF _ assms(2), of "pp_clientGot p" "pp_toClient p @ ?os @ pp_toServer p @ ?oc"] c by simp
  moreover have "\<forall>r. pp_move ctid stid p r \<longrightarrow> (\<exists>p'. r = Inr p')" using pp_move_inv [OF inv] by blast
  moreover have "ss_bytesRead (pp_session p) = int (length (pp_clientGot p))" using inv by (simp add: pp_inv_def Let_def)
  ultimately show ?thesis by blast
qed

lemma demo_fresh: "fresh_up 7 demo_conn"
  using demo_live(1) by (simp add: fresh_up_def demo_conn_fields) (simp add: demo_conn_def TcpConnection_new_def tc_emit_def tc_events_def
      Buffer_init_def content_def slice_def)

theorem pingpong_conserves_bytes_witness:
  "\<exists>p. pp_reachable 7 7 (Client_new 0 3 1) p \<and>
     length (content (tc_outputBuffer (ss_conn (pp_session p)))) + length (pp_toServer p) +
       length (content (tc_outputBuffer (pp_server p))) + length (pp_toClient p) = 3 \<and> ss_bytesRead (pp_session p) = 0"
proof -
  obtain s cl' where s: "Session_onConnection demo_write 7 \<lparr>ss_conn = demo_conn, ss_bytesRead = 0, ss_messagesRead = 0\<rparr> (Client_new 0 3 1) = Inr (s, cl')"
    using pp_start_inv [OF demo_fresh demo_fresh demo_live(2)] by blast
  have m: "cl_message (Client_new 0 3 1) \<noteq> ''''" "length (cl_message (Client_new 0 3 1)) = 3"
    by (simp_all add: Client_new_def Client_message_def)
  show ?thesis
    using pingpong_conserves_bytes [OF pp_start [OF demo_fresh demo_fresh demo_live(2) s] m(1)]
      pp_start [OF demo_fresh demo_fresh demo_live(2) s] m(2) by (intro exI conjI) auto
qed

text \<open>
  The client of ping-pong ends the program when its counter falls to zero: with a counter that happens to start
  at zero, as soon as the first session that was connected is lost, even if other sessions have not been
  connected yet.
\<close>

theorem Client_quits_early:
  assumes "steady write" "live tid (ss_conn s)" "tc_state (ss_conn t) = kDisconnected" "cl_quit cl = False" "cl_numConnected cl = 0"
  shows "\<exists>s' cl' cl''. Session_onConnection write tid s cl = Inr (s', cl') \<and> cl_numConnected cl' = 1 \<and>
     Session_onConnection write tid t cl' = Inr (t, cl'') \<and> cl_quit cl''"
proof -
  obtain c where "TcpConnection_send write tid (cl_message cl) (ss_conn s) = Inr c"
    using send_accepts [OF assms(2,1)] by blast
  moreover have "tc_state (ss_conn s) = kConnected" using assms(2) by (simp add: live_def)
  ultimately show ?thesis
    using assms(3,5) by (simp add: Session_onConnection_def Client_onConnect_def Client_onDisconnect_def Let_def)
qed

theorem Client_quits_early_witness:
  "\<exists>s' cl' cl''. Session_onConnection demo_write 7 \<lparr>ss_conn = demo_conn, ss_bytesRead = 0, ss_messagesRead = 0\<rparr> (Client_new 0 3 2) = Inr (s', cl') \<and>
     Session_onConnection demo_write 7 \<lparr>ss_conn = demo_conn\<lparr>tc_state := kDisconnected\<rparr>, ss_bytesRead = 0, ss_messagesRead = 0\<rparr> cl' =
       Inr (\<lparr>ss_conn = demo_conn\<lparr>tc_state := kDisconnected\<rparr>, ss_bytesRead = 0, ss_messagesRead = 0\<rparr>, cl'') \<and> cl_quit cl''"
  using Client_quits_early [OF demo_live(2), of 7 "\<lparr>ss_conn = demo_conn, ss_bytesRead = 0, ss_messagesRead = 0\<rparr>"
      "\<lparr>ss_conn = demo_conn\<lparr>tc_state := kDisconnected\<rparr>, ss_bytesRead = 0, ss_messagesRead = 0\<rparr>" "Client_new 0 3 2"] demo_live(1)
  by (simp add: Client_new_def) blast

end
