(* ===== verification/Media_H264File.thy ===== *)
theory Media_H264File
  imports Media_H264
begin

unbundle bit_operations_syntax

text \<open>
  The reader of H264 files of the RTSP example server: \<open>example/media/H264File\<close>.

  The open file is a position in its content, which is a parameter; \<open>_buffer\<close> is an array whose content behind
  what \<open>fread\<close> stored is whatever was there before. Every access of the two searches is checked against
  the array. The limit of the searches, \<open>bytesRead - 5\<close>, is the \<open>size_t\<close> subtraction of the code: below
  five bytes it wraps around.
\<close>

section \<open>The reader\<close>

record H264File =
  hf_fp :: "nat option"
  hf_buffer :: "byte list"
  hf_bytesUsed :: int
  hf_count :: int

definition H264File_new :: "byte list \<Rightarrow> H264File" where
  "H264File_new buffer = \<lparr>hf_fp = None, hf_buffer = buffer, hf_bytesUsed = 0, hf_count = 0\<rparr>"

text \<open>\<open>exists\<close> is whether \<open>fopen\<close> finds the file.\<close>

definition H264File_open :: "bool \<Rightarrow> H264File \<Rightarrow> bool \<times> H264File" where
  "H264File_open exists f = (exists, f\<lparr>hf_fp := if exists then Some 0 else None\<rparr>)"

definition H264File_close :: "H264File \<Rightarrow> H264File" where
  "H264File_close f = (if hf_fp f \<noteq> None then f\<lparr>hf_fp := None, hf_count := 0, hf_bytesUsed := 0\<rparr> else f)"

definition H264File_isOpend :: "H264File \<Rightarrow> bool" where
  "H264File_isOpend f \<longleftrightarrow> hf_fp f \<noteq> None"

text \<open>\<open>fread\<close> of at most the whole array at a position: how many bytes, and the array.\<close>

definition fread_array :: "byte list \<Rightarrow> nat \<Rightarrow> byte list \<Rightarrow> nat \<times> byte list" where
  "fread_array data pos buffer =
     (let n = min (length buffer) (length data - pos) in (n, take n (drop pos data) @ drop n buffer))"

definition byte_at :: "byte list \<Rightarrow> nat \<Rightarrow> byte result" where
  "byte_at buffer i = (if i < length buffer then Inr (buffer ! i) else Inl OutOfRange)"

text \<open>A conjunction of comparisons, from left to right.\<close>

fun bytes_are :: "byte list \<Rightarrow> nat \<Rightarrow> byte list \<Rightarrow> bool result" where
  "bytes_are buffer i [] = Inr True"
| "bytes_are buffer i (b # bs) =
     bindR (byte_at buffer i) (\<lambda>c. if c = b then bytes_are buffer (Suc i) bs else Inr False)"

definition start_code_at :: "byte list \<Rightarrow> nat \<Rightarrow> nat option result" where
  "start_code_at buffer i =
     bindR (bytes_are buffer i [0, 0, 1]) (\<lambda>three.
     if three then Inr (Some 3)
     else bindR (bytes_are buffer i [0, 0, 0, 1]) (\<lambda>four. Inr (if four then Some 4 else None)))"

text \<open>The conditions of the two searches on the bytes behind a start code.\<close>

definition first_slice_at :: "byte list \<Rightarrow> nat \<Rightarrow> bool result" where
  "first_slice_at buffer i =
     bindR (byte_at buffer i) (\<lambda>b.
     if b AND 0x1F = 0x5 \<or> b AND 0x1F = 0x1
     then bindR (byte_at buffer (i + 1)) (\<lambda>c. Inr (c AND 0x80 = 0x80))
     else Inr False)"

definition new_picture_at :: "byte list \<Rightarrow> nat \<Rightarrow> bool result" where
  "new_picture_at buffer i =
     bindR (byte_at buffer i) (\<lambda>b.
     if b AND 0x1F = 0x6 \<or> b AND 0x1F = 0x7 \<or> b AND 0x1F = 0x8 then Inr True
     else first_slice_at buffer i)"

function find_nal :: "(byte list \<Rightarrow> nat \<Rightarrow> bool result) \<Rightarrow> byte list \<Rightarrow> nat \<Rightarrow> nat \<Rightarrow> (bool \<times> nat) result" where
  "find_nal cond buffer limit i =
     (if i < limit then
        bindR (start_code_at buffer i) (\<lambda>code.
        case code of
          None \<Rightarrow> find_nal cond buffer limit (Suc i)
        | Some startCode \<Rightarrow>
            bindR (cond buffer (i + startCode)) (\<lambda>found.
            if found then Inr (True, i) else find_nal cond buffer limit (Suc i)))
      else Inr (False, i))"
  by pat_completeness auto

termination find_nal
  by (relation "measure (\<lambda>(_, _, limit, i). limit - i)") auto

declare find_nal.simps [simp del]

definition scan_limit :: "nat \<Rightarrow> nat" where
  "scan_limit bytesRead = (if bytesRead < 5 then 2 ^ 64 + bytesRead - 5 else bytesRead - 5)"

text \<open>\<open>fseek\<close> to a negative offset fails and leaves the position.\<close>

definition seek_to :: "int \<Rightarrow> H264File \<Rightarrow> H264File" where
  "seek_to off f = (if off < 0 then f else f\<lparr>hf_fp := Some (nat off)\<rparr>)"

text \<open>
  The result is the return value, the bytes written to the caller's buffer, what \<open>*endOfFrame\<close> was set to (if it
  was), and the reader.
\<close>

definition H264File_readFrame ::
  "byte list \<Rightarrow> nat \<Rightarrow> H264File \<Rightarrow> (int \<times> byte list \<times> bool option \<times> H264File) result" where
  "H264File_readFrame data bufSize f =
     (case hf_fp f of
        None \<Rightarrow> Inr (-1, [], None, f)
      | Some pos \<Rightarrow>
          (let (n, buffer) = fread_array data pos (hf_buffer f);
               f = f\<lparr>hf_buffer := buffer, hf_fp := Some (pos + n)\<rparr>;
               (n, f) = (if n = 0
                         then (let (n, buffer) = fread_array data 0 (hf_buffer f)
                               in (n, f\<lparr>hf_count := 0, hf_bytesUsed := 0, hf_buffer := buffer, hf_fp := Some n\<rparr>))
                         else (n, f))
           in
           if n = 0 then Inr (-1, [], None, H264File_close f)
           else
             bindR (find_nal first_slice_at (hf_buffer f) (scan_limit n) 0) (\<lambda>(findStart, i).
             bindR (find_nal new_picture_at (hf_buffer f) (scan_limit n) (if findStart then i + 4 else i)) (\<lambda>(findEnd, i).
             (let flag = findStart \<and> \<not> findEnd \<and> 0 < hf_count f;
                  findEnd = findEnd \<or> flag;
                  i = (if flag then n else i)
              in
              if \<not> findStart \<or> \<not> findEnd then Inr (-1, [], Some False, H264File_close f)
              else
                bindR (mem_read (hf_buffer f) 0 (min i bufSize)) (\<lambda>bytes.
                (let f = (if \<not> flag
                          then f\<lparr>hf_count := hf_count f + 1, hf_bytesUsed := to_int32 (hf_bytesUsed f + int i)\<rparr>
                          else f\<lparr>hf_count := 0, hf_bytesUsed := 0\<rparr>)
                 in Inr (to_int32 (int (min i bufSize)), bytes, Some flag, seek_to (hf_bytesUsed f) f))))))))"

section \<open>The searches on plain lists\<close>

fun start_code :: "byte list \<Rightarrow> nat option" where
  "start_code (a # b # c # rest) =
     (if a = 0 \<and> b = 0 then if c = 1 then Some 3
        else if c = 0 then (case rest of d # _ \<Rightarrow> if d = 1 then Some 4 else None | [] \<Rightarrow> None) else None
      else None)"
| "start_code _ = None"

definition first_slice :: "byte list \<Rightarrow> bool" where
  "first_slice p \<longleftrightarrow> (p ! 0 AND 0x1F = 0x5 \<or> p ! 0 AND 0x1F = 0x1) \<and> p ! 1 AND 0x80 = 0x80"

definition new_picture :: "byte list \<Rightarrow> bool" where
  "new_picture p \<longleftrightarrow> p ! 0 AND 0x1F = 0x6 \<or> p ! 0 AND 0x1F = 0x7 \<or> p ! 0 AND 0x1F = 0x8 \<or> first_slice p"

definition hit :: "(byte list \<Rightarrow> bool) \<Rightarrow> byte list \<Rightarrow> nat \<Rightarrow> bool" where
  "hit kind xs j = (case start_code (drop j xs) of Some n \<Rightarrow> kind (drop (j + n) xs) | None \<Rightarrow> False)"

text \<open>Both conditions look at two bytes.\<close>

definition reads_two :: "(byte list \<Rightarrow> nat \<Rightarrow> bool result) \<Rightarrow> (byte list \<Rightarrow> bool) \<Rightarrow> bool" where
  "reads_two cond kind \<longleftrightarrow> (\<forall>buffer i. i + 2 \<le> length buffer \<longrightarrow> cond buffer i = Inr (kind (drop i buffer))) \<and>
     (\<forall>p q. 2 \<le> length p \<longrightarrow> kind (p @ q) = kind p)"

lemma first_slice_two: "reads_two first_slice_at first_slice"
  by (auto simp: reads_two_def first_slice_at_def byte_at_def first_slice_def nth_append)

lemma new_picture_two: "reads_two new_picture_at new_picture"
  by (auto simp: reads_two_def new_picture_at_def first_slice_at_def byte_at_def first_slice_def new_picture_def nth_append)

lemma drop_four:
  "i + 4 \<le> length xs \<Longrightarrow>
    drop i xs = xs ! i # xs ! Suc i # xs ! Suc (Suc i) # xs ! Suc (Suc (Suc i)) # drop (Suc (Suc (Suc (Suc i)))) xs"
  by (simp add: Cons_nth_drop_Suc)

lemma start_code_at_eq: "i + 4 \<le> length buffer \<Longrightarrow> start_code_at buffer i = Inr (start_code (drop i buffer))"
  by (auto simp: drop_four start_code_at_def byte_at_def)

lemma start_code_bound: "start_code xs = Some n \<Longrightarrow> n \<le> 4 \<and> n \<le> length xs"
  by (cases xs rule: start_code.cases) (auto split: if_splits list.splits)

lemma start_code_append: "4 \<le> length xs \<Longrightarrow> start_code (xs @ ys) = start_code xs"
  by (cases xs rule: start_code.cases) (auto split: list.splits)

lemma hit_append:
  assumes "reads_two cond kind" "j + 6 \<le> length xs"
  shows "hit kind (xs @ ys) j = hit kind xs j"
proof -
  have c: "start_code (drop j (xs @ ys)) = start_code (drop j xs)"
    using assms(2) start_code_append [of "drop j xs" ys] by simp
  show ?thesis
  proof (cases "start_code (drop j xs)")
    case (Some n)
    then have "n \<le> 4" using start_code_bound by blast
    then have "2 \<le> length (drop (j + n) xs)" "drop (j + n) (xs @ ys) = drop (j + n) xs @ ys" using assms(2) by simp_all
    then show ?thesis using assms(1) Some c by (simp add: hit_def reads_two_def)
  qed (use c in \<open>simp add: hit_def\<close>)
qed

lemma find_nal_step:
  assumes "reads_two cond kind" "i < limit" "limit + 5 \<le> length buffer"
  shows "find_nal cond buffer limit i = (if hit kind buffer i then Inr (True, i) else find_nal cond buffer limit (Suc i))"
proof -
  have c: "start_code_at buffer i = Inr (start_code (drop i buffer))" using assms(2,3) by (intro start_code_at_eq) simp
  show ?thesis
  proof (cases "start_code (drop i buffer)")
    case None
    then show ?thesis using assms(2) c by (simp add: hit_def find_nal.simps [of _ _ _ i])
  next
    case (Some n)
    then have "n \<le> 4" using start_code_bound by blast
    then have "cond buffer (i + n) = Inr (kind (drop (i + n) buffer))" using assms by (simp add: reads_two_def)
    then show ?thesis using assms(2) c Some by (simp add: hit_def find_nal.simps [of _ _ _ i])
  qed
qed

lemma find_nal_skip:
  assumes two: "reads_two cond kind" and lim: "limit + 5 \<le> length buffer"
  shows "i \<le> k \<Longrightarrow> k \<le> limit \<Longrightarrow> \<forall>j. i \<le> j \<and> j < k \<longrightarrow> \<not> hit kind buffer j \<Longrightarrow>
    find_nal cond buffer limit i = find_nal cond buffer limit k"
proof (induction "k - i" arbitrary: i)
  case (Suc n)
  then have "i < k" by simp
  then have "find_nal cond buffer limit i = find_nal cond buffer limit (Suc i)"
    using find_nal_step [OF two _ lim, of i] Suc.prems by simp
  also have "\<dots> = find_nal cond buffer limit k" using Suc \<open>i < k\<close> by (intro Suc.hyps(1)) auto
  finally show ?case .
qed simp

lemma find_nal_found:
  assumes "reads_two cond kind" "limit + 5 \<le> length buffer" "i \<le> k" "k < limit" "hit kind buffer k"
    and "\<forall>j. i \<le> j \<and> j < k \<longrightarrow> \<not> hit kind buffer j"
  shows "find_nal cond buffer limit i = Inr (True, k)"
  using find_nal_skip [OF assms(1,2,3) _ assms(6)] find_nal_step [OF assms(1,4,2)] assms(4,5) by simp

lemma find_nal_none:
  assumes "reads_two cond kind" "limit + 5 \<le> length buffer" "i \<le> limit" "\<forall>j. i \<le> j \<and> j < limit \<longrightarrow> \<not> hit kind buffer j"
  shows "find_nal cond buffer limit i = Inr (False, limit)"
  using find_nal_skip [OF assms(1,2,3) _ assms(4)] by (simp add: find_nal.simps [of _ _ _ limit])

section \<open>NAL units and pictures\<close>

text \<open>A NAL unit: whether its start code has four bytes, and its payload, which holds no start code.\<close>

type_synonym nal = "bool \<times> byte list"

definition nal_bytes :: "nal \<Rightarrow> byte list" where
  "nal_bytes u = (if fst u then [0, 0, 0, 1] else [0, 0, 1]) @ snd u"

definition nals :: "nal list \<Rightarrow> byte list" where
  "nals us = concat (map nal_bytes us)"

definition payload_ok :: "byte list \<Rightarrow> bool" where
  "payload_ok p \<longleftrightarrow> 3 \<le> length p \<and> last p \<noteq> 0 \<and> (\<forall>j<length p. start_code (drop j p) = None)"

lemma start_code_nonzero: "a \<noteq> 0 \<Longrightarrow> start_code (a # r) = None" "b \<noteq> 0 \<Longrightarrow> start_code (a # b # r) = None"
  by (cases r rule: list.exhaust; cases "tl r"; simp)+

lemma start_code_last:
  assumes "d \<noteq> []" "last d \<noteq> 0" "start_code d = None"
  shows "start_code (d @ q) = None"
proof -
  consider a where "d = [a]" | a b where "d = [a, b]" | a b c where "d = [a, b, c]" | "4 \<le> length d"
  proof (cases d rule: start_code.cases)
    case (1 a b c rest)
    then show ?thesis using that(3,4) by (cases rest) auto
  qed (use assms(1) that in auto)
  then show ?thesis
  proof cases
    case 1
    then show ?thesis using assms(2) start_code_nonzero(1) by simp
  next
    case 2
    then show ?thesis using assms(2) start_code_nonzero(2) by simp
  next
    case 3
    then show ?thesis using assms(2,3) by (simp split: if_splits)
  next
    case 4
    then show ?thesis using assms(3) start_code_append by simp
  qed
qed

lemma payload_code: "payload_ok p \<Longrightarrow> i < length p \<Longrightarrow> start_code (drop i p @ q) = None"
  by (intro start_code_last) (auto simp: payload_ok_def)

lemma nal_hit:
  assumes two: "reads_two cond kind" and p: "payload_ok p" and i: "i < length (nal_bytes (l, p))"
  shows "hit kind (pre @ nal_bytes (l, p) @ post) (length pre + i) \<longleftrightarrow> kind p \<and> (i = 0 \<or> l \<and> i = 1)"
proof -
  let ?xs = "pre @ nal_bytes (l, p) @ post"
  have d: "drop (length pre + n) ?xs = drop n (nal_bytes (l, p) @ post)" for n by simp
  have h: "hit kind ?xs (length pre + i) = (case start_code (drop i (nal_bytes (l, p) @ post)) of
      Some n \<Rightarrow> kind (drop (i + n) (nal_bytes (l, p) @ post)) | None \<Rightarrow> False)"
    unfolding hit_def d by (simp only: add.assoc d)
  obtain a b c r where abc: "p = a # b # c # r"
    using p by (cases p rule: start_code.cases) (auto simp: payload_ok_def)
  have k: "kind (p @ post) = kind p"
    using two abc unfolding reads_two_def by (metis One_nat_def Suc_1 le_add2 length_Cons list.size(4) Suc_le_mono)
  show ?thesis
  proof (cases "i < (if l then 4 else 3)")
    case True
    then have "i \<in> {0, 1, 2, 3}" by (auto split: if_splits)
    then show ?thesis unfolding h using k True abc by (cases l) (auto simp: nal_bytes_def)
  next
    case False
    define code :: "byte list" where "code = (if l then [0, 0, 0, 1] else [0, 0, 1])"
    have code: "nal_bytes (l, p) = code @ p" "length code = (if l then 4 else 3)" by (simp_all add: nal_bytes_def code_def)
    then have "length code \<le> i" "i - length code < length p" using i False by (auto split: if_splits)
    then have "drop i (nal_bytes (l, p) @ post) = drop (i - length code) p @ post" "i - length code < length p"
      unfolding code(1) by simp_all
    then have "start_code (drop i (nal_bytes (l, p) @ post)) = None" using payload_code [OF p] by simp
    then show ?thesis unfolding h using False by (cases l) auto
  qed
qed

lemma nals_free:
  assumes two: "reads_two cond kind"
  shows "\<forall>u\<in>set us. payload_ok (snd u) \<and> \<not> kind (snd u) \<Longrightarrow> length pre \<le> j \<Longrightarrow> j < length pre + length (nals us) \<Longrightarrow>
    \<not> hit kind (pre @ nals us @ post) j"
proof (induction us arbitrary: pre)
  case (Cons u us)
  show ?case
  proof (cases "j < length pre + length (nal_bytes u)")
    case True
    then obtain i where i: "j = length pre + i" "i < length (nal_bytes u)"
      using Cons.prems(2) by (metis add_less_cancel_left le_Suc_ex)
    then show ?thesis
      using nal_hit [OF two, of "snd u" i "fst u" pre "nals us @ post"] Cons.prems(1) by (simp add: nals_def)
  next
    case False
    then show ?thesis
      using Cons.IH [of "pre @ nal_bytes u"] Cons.prems by (simp add: nals_def)
  qed
qed (simp add: nals_def)

text \<open>
  A picture: NAL units that are not the first slice of a picture, then the first slice, then units that do not start
  another picture.
\<close>

type_synonym picture = "nal list \<times> nal \<times> nal list"

fun picture_units :: "picture \<Rightarrow> nal list" where
  "picture_units (heads, sl, others) = heads @ sl # others"

definition picture_bytes :: "picture \<Rightarrow> byte list" where
  "picture_bytes p = nals (picture_units p)"

fun picture_ok :: "picture \<Rightarrow> bool" where
  "picture_ok (heads, sl, others) \<longleftrightarrow>
     (\<forall>u\<in>set (heads @ sl # others). payload_ok (snd u)) \<and>
     (\<forall>u\<in>set heads. \<not> first_slice (snd u)) \<and> first_slice (snd sl) \<and>
     (\<forall>u\<in>set others. \<not> new_picture (snd u)) \<and> new_picture (snd (hd (heads @ [sl])))"

lemma nals_append [simp]: "nals (us @ vs) = nals us @ nals vs" and nals_Cons [simp]: "nals (u # us) = nal_bytes u @ nals us"
  and nals_Nil [simp]: "nals [] = []"
  by (simp_all add: nals_def)

lemma nal_length: "payload_ok (snd u) \<Longrightarrow> 6 \<le> length (nal_bytes u)"
  by (simp add: nal_bytes_def payload_ok_def)

text \<open>From four bytes behind the first slice on nothing in the picture starts another one.\<close>

lemma picture_rest_free:
  assumes "picture_ok (heads, sl, others)" "length (nals heads) + 4 \<le> j" "j < length (nals (heads @ sl # others))"
  shows "\<not> hit new_picture (nals (heads @ sl # others) @ post) j"
proof (cases "j < length (nals heads) + length (nal_bytes sl)")
  case True
  obtain l p where sl: "sl = (l, p)" by (cases sl)
  obtain i where i: "j = length (nals heads) + i" "4 \<le> i" "i < length (nal_bytes sl)"
    using assms(2) True by (metis add_leD1 add_less_cancel_left add_le_cancel_left le_Suc_ex)
  then show ?thesis
    using nal_hit [OF new_picture_two, of p i l "nals heads" "nals others @ post"] assms(1) sl by simp
next
  case False
  then show ?thesis
    using nals_free [OF new_picture_two, of others "nals heads @ nal_bytes sl" j post] assms by auto
qed

lemma picture_bytes_split: "picture_bytes (heads, sl, others) = nals heads @ nal_bytes sl @ nals others"
  by (simp add: picture_bytes_def)

lemma picture_length: "picture_ok (heads, sl, others) \<Longrightarrow> length (nals heads) + 6 \<le> length (picture_bytes (heads, sl, others))"
  using nal_length [of sl] by (simp add: picture_bytes_split)

lemma picture_six: "picture_ok p \<Longrightarrow> 6 \<le> length (picture_bytes p)"
  by (metis picture_length prod_cases3 add_leD2)

text \<open>The buffer holds the first \<open>n\<close> bytes of the rest of the file, and other bytes behind them.\<close>

lemma hit_take:
  assumes "reads_two cond kind" "j + 6 \<le> n" "n \<le> length xs"
  shows "hit kind (take n xs @ junk) j = hit kind xs j"
  using hit_append [OF assms(1), of j "take n xs" junk] hit_append [OF assms(1), of j "take n xs" "drop n xs"] assms(2,3)
  by simp

lemma search_start:
  assumes ok: "picture_ok (heads, sl, others)" and xs: "xs = picture_bytes (heads, sl, others) @ post"
    and n: "length (picture_bytes (heads, sl, others)) \<le> n" "n \<le> length xs"
  shows "find_nal first_slice_at (take n xs @ junk) (n - 5) 0 = Inr (True, length (nals heads))"
proof (rule find_nal_found [OF first_slice_two])
  note len = picture_length [OF ok]
  have t: "hit first_slice (take n xs @ junk) j = hit first_slice xs j" if "j \<le> length (nals heads)" for j
    using hit_take [OF first_slice_two] that len n by simp
  obtain l p where sl: "sl = (l, p)" by (cases sl)
  have "hit first_slice (nals heads @ nal_bytes (l, p) @ nals others @ post) (length (nals heads) + 0)"
    by (subst nal_hit [OF first_slice_two]) (use ok sl in \<open>auto simp: nal_bytes_def\<close>)
  then show "hit first_slice (take n xs @ junk) (length (nals heads))"
    unfolding t [OF order_refl] using sl by (simp add: xs picture_bytes_split)
  show "\<forall>j. 0 \<le> j \<and> j < length (nals heads) \<longrightarrow> \<not> hit first_slice (take n xs @ junk) j"
  proof (intro allI impI)
    fix j assume j: "0 \<le> j \<and> j < length (nals heads)"
    then have le: "j \<le> length (nals heads)" by simp
    show "\<not> hit first_slice (take n xs @ junk) j"
      unfolding t [OF le] unfolding xs
      using nals_free [OF first_slice_two, of heads "[]" j "nal_bytes sl @ nals others @ post"] ok j
      by (simp add: picture_bytes_split)
  qed
  show "n - 5 + 5 \<le> length (take n xs @ junk)" "length (nals heads) < n - 5" using len n by auto
qed simp

lemma search_next:
  assumes ok: "picture_ok (heads, sl, others)" "picture_ok p'"
    and xs: "xs = picture_bytes (heads, sl, others) @ picture_bytes p' @ post"
    and n: "length (picture_bytes (heads, sl, others)) + 6 \<le> n" "n \<le> length xs"
  shows "find_nal new_picture_at (take n xs @ junk) (n - 5) (length (nals heads) + 4) =
    Inr (True, length (picture_bytes (heads, sl, others)))"
proof (rule find_nal_found [OF new_picture_two])
  let ?k = "length (picture_bytes (heads, sl, others))"
  have t: "hit new_picture (take n xs @ junk) j = hit new_picture xs j" if "j \<le> ?k" for j
    using hit_take [OF new_picture_two] that n by simp
  obtain heads' sl' others' where p': "p' = (heads', sl', others')" by (cases p')
  obtain l q vs where u: "heads' @ sl' # others' = (l, q) # vs" "hd (heads' @ [sl']) = (l, q)"
    by (cases heads') (auto, metis surj_pair)
  then have q: "payload_ok q" "new_picture q" using ok(2) p' by (auto simp: in_set_conv_decomp)
  have "xs = picture_bytes (heads, sl, others) @ nal_bytes (l, q) @ nals vs @ post"
    using u(1) by (simp add: xs p' picture_bytes_def del: nals_append) 
  then show "hit new_picture (take n xs @ junk) ?k"
    unfolding t [OF order_refl]
    using nal_hit [OF new_picture_two q(1), of 0 l "picture_bytes (heads, sl, others)" "nals vs @ post"] q(2)
    by (simp add: nal_bytes_def)
  show "\<forall>j. length (nals heads) + 4 \<le> j \<and> j < ?k \<longrightarrow> \<not> hit new_picture (take n xs @ junk) j"
  proof (intro allI impI)
    fix j assume j: "length (nals heads) + 4 \<le> j \<and> j < ?k"
    then have le: "j \<le> ?k" by simp
    show "\<not> hit new_picture (take n xs @ junk) j"
      unfolding t [OF le] unfolding xs using picture_rest_free [OF ok(1), of j "picture_bytes p' @ post"] j
      by (simp add: picture_bytes_def)
  qed
  show "n - 5 + 5 \<le> length (take n xs @ junk)" "?k < n - 5" "length (nals heads) + 4 \<le> ?k"
    using picture_length [OF ok(1)] n by auto
qed

lemma search_last:
  assumes ok: "picture_ok (heads, sl, others)" and xs: "xs = picture_bytes (heads, sl, others)"
  shows "\<exists>k. find_nal new_picture_at (xs @ junk) (length xs - 5) (length (nals heads) + 4) = Inr (False, k)"
proof (cases "length (nals heads) + 4 \<le> length xs - 5")
  case True
  have "hit new_picture (xs @ junk) j = hit new_picture xs j" if "j < length xs - 5" for j
    using hit_append [OF new_picture_two] that by simp
  then have "\<forall>j. length (nals heads) + 4 \<le> j \<and> j < length xs - 5 \<longrightarrow> \<not> hit new_picture (xs @ junk) j"
    using picture_rest_free [OF ok, of _ "[]"] by (auto simp: xs picture_bytes_def)
  then show ?thesis using find_nal_none [OF new_picture_two _ True, of "xs @ junk"] True by auto
qed (simp add: find_nal.simps [of _ _ _ "length (nals heads) + 4"])

section \<open>Reading pictures\<close>

definition reading_at :: "nat \<Rightarrow> int \<Rightarrow> H264File \<Rightarrow> bool" where
  "reading_at pos count f \<longleftrightarrow> hf_fp f = Some pos \<and> hf_bytesUsed f = int pos \<and> hf_count f = count"

lemma read_inner:
  assumes f: "reading_at (length pre) c f" and ok: "picture_ok p" "picture_ok p'"
    and fits: "length (picture_bytes p) + 6 \<le> length (hf_buffer f)" "length (picture_bytes p) \<le> bufSize"
    and data: "data = pre @ picture_bytes p @ picture_bytes p' @ post" "length data < 2 ^ 31"
  shows "\<exists>f'. H264File_readFrame data bufSize f = Inr (int (length (picture_bytes p)), picture_bytes p, Some False, f') \<and>
    reading_at (length (pre @ picture_bytes p)) (c + 1) f' \<and> length (hf_buffer f') = length (hf_buffer f)"
proof -
  obtain heads sl others where p: "p = (heads, sl, others)" by (cases p)
  obtain heads' sl' others' where p': "p' = (heads', sl', others')" by (cases p')
  let ?xs = "picture_bytes p @ picture_bytes p' @ post" and ?k = "length (picture_bytes p)"
  define n where "n = min (length (hf_buffer f)) (length ?xs)"
  have six: "6 \<le> length (picture_bytes p')" by (rule picture_six [OF ok(2)])
  then have n: "?k + 6 \<le> n" "n \<le> length ?xs" "n \<le> length (hf_buffer f)" "n \<noteq> 0" using fits(1) by (auto simp: n_def)
  define buf where "buf = take n ?xs @ drop n (hf_buffer f)"
  have rd: "fread_array data (length pre) (hf_buffer f) = (n, buf)"
    by (simp add: fread_array_def data(1) n_def buf_def Let_def)
  have lim: "scan_limit n = n - 5" using n(1) by (simp add: scan_limit_def)
  have s1: "find_nal first_slice_at buf (n - 5) 0 = Inr (True, length (nals heads))"
    unfolding buf_def by (rule search_start [where sl = sl and others = others and post = "picture_bytes p' @ post"])
      (use ok(1) n p in auto)
  have s2: "find_nal new_picture_at buf (n - 5) (length (nals heads) + 4) = Inr (True, ?k)"
    unfolding buf_def p by (rule search_next [where p' = p' and post = post]) (use ok n p in auto)
  have len: "length buf = length (hf_buffer f)" using n(2,3) by (simp add: buf_def)
  have "mem_read buf 0 ?k = Inr (slice 0 ?k buf)" using n(1,3) len by simp
  moreover have "slice 0 ?k buf = picture_bytes p" using n(1) by (simp add: slice_def buf_def)
  ultimately have m: "mem_read buf 0 ?k = Inr (picture_bytes p)" by simp
  have i: "to_int32 (int ?k) = int ?k" "to_int32 (int (length pre) + int ?k) = int (length pre) + int ?k"
    using data by (auto intro!: to_int32_small)
  let ?f' = "f\<lparr>hf_buffer := buf, hf_fp := Some (length pre + ?k), hf_count := c + 1, hf_bytesUsed := int (length pre) + int ?k\<rparr>"
  have "H264File_readFrame data bufSize f = Inr (int ?k, picture_bytes p, Some False, ?f')"
    using f n(4) fits(2) unfolding H264File_readFrame_def reading_at_def
    by (simp add: rd lim s1 s2 m i seek_to_def nat_add_distrib Let_def)
  then show ?thesis using len by (auto simp: reading_at_def)
qed

lemma read_last:
  assumes f: "reading_at (length pre) c f" "0 < c" and ok: "picture_ok p"
    and fits: "length (picture_bytes p) + 6 \<le> length (hf_buffer f)" "length (picture_bytes p) \<le> bufSize"
    and data: "data = pre @ picture_bytes p" "length data < 2 ^ 31"
  shows "\<exists>f'. H264File_readFrame data bufSize f = Inr (int (length (picture_bytes p)), picture_bytes p, Some True, f') \<and>
    reading_at 0 0 f' \<and> length (hf_buffer f') = length (hf_buffer f)"
proof -
  obtain heads sl others where p: "p = (heads, sl, others)" by (cases p)
  let ?xs = "picture_bytes p"
  define buf where "buf = ?xs @ drop (length ?xs) (hf_buffer f)"
  have six: "6 \<le> length ?xs" by (rule picture_six [OF ok])
  have rd: "fread_array data (length pre) (hf_buffer f) = (length ?xs, buf)"
    using fits(1) by (simp add: fread_array_def data(1) buf_def Let_def)
  have lim: "scan_limit (length ?xs) = length ?xs - 5" using six by (simp add: scan_limit_def)
  have s1: "find_nal first_slice_at buf (length ?xs - 5) 0 = Inr (True, length (nals heads))"
    unfolding buf_def using search_start [of heads sl others ?xs "[]" "length ?xs"] ok p by simp
  obtain k where s2: "find_nal new_picture_at buf (length ?xs - 5) (length (nals heads) + 4) = Inr (False, k)"
    unfolding buf_def using search_last [of heads sl others ?xs] ok p by blast
  have len: "length buf = length (hf_buffer f)" using fits(1) by (simp add: buf_def)
  have m: "mem_read buf 0 (length ?xs) = Inr ?xs"
    using fits len by (simp add: slice_def buf_def)
  have i: "to_int32 (int (length ?xs)) = int (length ?xs)" using data by (auto intro!: to_int32_small)
  let ?f' = "f\<lparr>hf_buffer := buf, hf_fp := Some 0, hf_count := 0, hf_bytesUsed := 0\<rparr>"
  have "?xs \<noteq> []" using six by auto
  then have "H264File_readFrame data bufSize f = Inr (int (length ?xs), ?xs, Some True, ?f')"
    using f fits(2) unfolding H264File_readFrame_def reading_at_def
    by (simp add: rd lim s1 s2 m i seek_to_def Let_def)
  then show ?thesis using len by (auto simp: reading_at_def)
qed

text \<open>The results of so many calls in a row, while they deliver something.\<close>

fun read_frames :: "byte list \<Rightarrow> nat \<Rightarrow> nat \<Rightarrow> H264File \<Rightarrow> ((byte list \<times> bool option) list \<times> H264File) result" where
  "read_frames data bufSize 0 f = Inr ([], f)"
| "read_frames data bufSize (Suc n) f =
     bindR (H264File_readFrame data bufSize f) (\<lambda>(ret, bytes, endOfFrame, f).
     bindR (read_frames data bufSize n f) (\<lambda>(rest, f). Inr ((bytes, endOfFrame) # rest, f)))"

definition pictures_fit :: "nat \<Rightarrow> nat \<Rightarrow> picture list \<Rightarrow> bool" where
  "pictures_fit readSize bufSize ps \<longleftrightarrow> length (concat (map picture_bytes ps)) < 2 ^ 31 \<and>
     (\<forall>p\<in>set ps. picture_ok p \<and> length (picture_bytes p) + 6 \<le> readSize \<and> length (picture_bytes p) \<le> bufSize)"

lemma read_pictures:
  assumes "ps \<noteq> []" "reading_at (length pre) c f" "0 < c \<or> 2 \<le> length ps"
    and "data = pre @ concat (map picture_bytes ps)" "length data < 2 ^ 31" "0 \<le> c"
    and "\<forall>p\<in>set ps. picture_ok p \<and> length (picture_bytes p) + 6 \<le> length (hf_buffer f) \<and> length (picture_bytes p) \<le> bufSize"
  shows "\<exists>f'. read_frames data bufSize (length ps) f =
      Inr (map (\<lambda>p. (picture_bytes p, Some False)) (butlast ps) @ [(picture_bytes (last ps), Some True)], f') \<and>
    reading_at 0 0 f' \<and> length (hf_buffer f') = length (hf_buffer f)"
  using assms
proof (induction ps arbitrary: pre c f rule: list_nonempty_induct)
  case (single p)
  then show ?case using read_last [of pre c f p bufSize data] by auto
next
  case (cons p ps)
  obtain p' ps' where ps: "ps = p' # ps'" using cons.hyps by (cases ps) auto
  obtain f' where f': "H264File_readFrame data bufSize f = Inr (int (length (picture_bytes p)), picture_bytes p, Some False, f')"
      "reading_at (length (pre @ picture_bytes p)) (c + 1) f'" "length (hf_buffer f') = length (hf_buffer f)"
    using read_inner [of pre c f p p' bufSize data "concat (map picture_bytes ps')"] cons.prems ps by auto
  then show ?case
    using cons.IH [of "pre @ picture_bytes p" "c + 1" f'] cons.prems cons.hyps by auto
qed


definition demo_pictures :: "picture list" where
  "demo_pictures = [([(True, [0x67, 1, 2, 3])], (True, [0x65, 0x88, 0x84]), [(False, [0x41, 0x1A, 3])]),
                    ([], (False, [0x41, 0x9A, 2]), [])]"

lemma all_less_three: "(\<forall>j<Suc n. P j) \<longleftrightarrow> P n \<and> (\<forall>j<n. P j)"
  using less_Suc_eq by auto

lemma demo_pictures_fit: "pictures_fit 100 100 demo_pictures"
  by (simp add: demo_pictures_def pictures_fit_def picture_bytes_def nal_bytes_def payload_ok_def all_less_three
      first_slice_def new_picture_def)


text \<open>
  A file with one picture cannot be read: its only picture has an end just when it is not the first one, so
  \<open>readFrame\<close> returns -1 and closes the file.
\<close>

theorem H264File_single_picture_fails:
  assumes "pictures_fit (length buffer) bufSize [p]" "data = picture_bytes p"
  shows "\<exists>f'. H264File_readFrame data bufSize (snd (H264File_open True (H264File_new buffer))) = Inr (-1, [], Some False, f') \<and>
    \<not> H264File_isOpend f'"
proof -
  obtain heads sl others where p: "p = (heads, sl, others)" by (cases p)
  let ?f = "snd (H264File_open True (H264File_new buffer))"
  have ok: "picture_ok p" "length (picture_bytes p) + 6 \<le> length buffer" using assms(1) by (simp_all add: pictures_fit_def)
  let ?xs = "picture_bytes p"
  define buf where "buf = ?xs @ drop (length ?xs) buffer"
  have six: "6 \<le> length ?xs" by (rule picture_six [OF ok(1)])
  have rd: "fread_array data 0 buffer = (length ?xs, buf)"
    using ok(2) by (simp add: fread_array_def assms(2) buf_def Let_def)
  have lim: "scan_limit (length ?xs) = length ?xs - 5" using six by (simp add: scan_limit_def)
  have s1: "find_nal first_slice_at buf (length ?xs - 5) 0 = Inr (True, length (nals heads))"
    unfolding buf_def using search_start [of heads sl others ?xs "[]" "length ?xs"] ok p by simp
  obtain k where s2: "find_nal new_picture_at buf (length ?xs - 5) (length (nals heads) + 4) = Inr (False, k)"
    unfolding buf_def using search_last [of heads sl others ?xs] ok p by blast
  have "?xs \<noteq> []" using six by auto
  then show ?thesis
    unfolding H264File_readFrame_def
    by (simp add: H264File_open_def H264File_new_def rd lim s1 s2 H264File_close_def H264File_isOpend_def Let_def)
qed

theorem H264File_single_picture_fails_witness:
  "\<exists>f'. H264File_readFrame [0, 0, 1, 0x65, 0x9A, 2] 100 (snd (H264File_open True (H264File_new (replicate 100 0)))) =
      Inr (-1, [], Some False, f') \<and> \<not> H264File_isOpend f'"
  by (rule H264File_single_picture_fails [where p = "([], (False, [0x65, 0x9A, 2]), [])"])
    (simp_all add: pictures_fit_def picture_bytes_def nal_bytes_def payload_ok_def all_less_three first_slice_def new_picture_def)

lemma start_code_at_none:
  assumes "start_code (drop i buffer) = None"
  shows "start_code_at buffer i = Inr None \<or> start_code_at buffer i = Inl OutOfRange"
proof (cases "i + 4 \<le> length buffer")
  case True
  then show ?thesis using start_code_at_eq assms by simp
next
  case False
  then show ?thesis
    using assms by (cases "i + 3 = length buffer") (auto simp: start_code_at_def byte_at_def Cons_nth_drop_Suc [symmetric] split: if_splits)
qed

lemma find_nal_runs_off:
  assumes "\<forall>j. start_code (drop j buffer) = None" "length buffer \<le> limit" "limit \<noteq> length buffer"
  shows "i \<le> length buffer \<Longrightarrow> find_nal cond buffer limit i = Inl OutOfRange"
proof (induction "length buffer - i" arbitrary: i)
  case 0
  then have "start_code_at buffer i = Inl OutOfRange" by (simp add: start_code_at_def byte_at_def)
  then show ?case using 0 assms(2,3) by (simp add: find_nal.simps [of _ _ _ i])
next
  case (Suc n)
  then have "find_nal cond buffer limit (Suc i) = Inl OutOfRange" by (intro Suc.hyps(1)) auto
  then show ?case using start_code_at_none [of i buffer] Suc.prems Suc.hyps(2) assms by (auto simp: find_nal.simps [of _ _ _ i])
qed

text \<open>
  A file of fewer than five bytes is searched past its end. The limit of the search wraps around, so when there is no
  start code in the array, which behind the bytes of the file holds whatever was there, the search leaves the array.
\<close>

theorem H264File_short_file_overruns:
  assumes "0 < length data" "length data < 5" "5 \<le> length buffer" "length buffer < 2 ^ 63"
    and "\<forall>j. start_code (drop j (data @ drop (length data) buffer)) = None"
  shows "H264File_readFrame data bufSize (snd (H264File_open True (H264File_new buffer))) = Inl OutOfRange"
proof -
  let ?buf = "data @ drop (length data) buffer"
  have rd: "fread_array data 0 buffer = (length data, ?buf)" using assms(2,3) by (simp add: fread_array_def Let_def)
  have "length ?buf < scan_limit (length data)" using assms by (simp add: scan_limit_def)
  then have "find_nal first_slice_at ?buf (scan_limit (length data)) 0 = Inl OutOfRange"
    by (intro find_nal_runs_off [OF assms(5)]) auto
  then show ?thesis
    unfolding H264File_readFrame_def using assms(1) by (simp add: H264File_open_def H264File_new_def rd Let_def)
qed

lemma no_code_zeros: "start_code (drop j (1 # replicate n 1)) = None"
proof -
  have "drop j (1 # replicate n 1) = replicate (Suc n - j) (1 :: byte)" by (metis drop_replicate replicate_Suc)
  then show ?thesis by (cases "Suc n - j") (simp_all add: start_code_nonzero)
qed

theorem H264File_short_file_overruns_witness:
  "H264File_readFrame [1] 100 (snd (H264File_open True (H264File_new (replicate 100 1)))) = Inl OutOfRange"
  using no_code_zeros [of _ 99] by (intro H264File_short_file_overruns) simp_all

end
