(* ===== verification/Sudoku_Solver.thy ===== *)
theory Sudoku_Solver
  imports Prelude
begin

text \<open>
  The Sudoku solver of \<open>example/sudoku/sudoku.cc\<close>: exact cover with dancing links.

  A pointer to a node is its index in the array \<open>nodes_\<close>. The members of the nodes are kept one by one, each as a function of
  the pointer, so that an assignment to one member leaves the others alone. \<open>columns_\<close> is a partial function. A
  loop that walks around a ring of nodes has fuel, one more than the array has nodes; the value \<open>None\<close> is
  to run out of it. The depth of the recursion of \<open>solve\<close> is bounded by one more than the number of columns.
\<close>

section \<open>Nodes\<close>

record nodes =
  n_left :: "nat \<Rightarrow> nat"
  n_right :: "nat \<Rightarrow> nat"
  n_up :: "nat \<Rightarrow> nat"
  n_down :: "nat \<Rightarrow> nat"
  n_col :: "nat \<Rightarrow> nat"
  n_name :: "nat \<Rightarrow> int"
  n_size :: "nat \<Rightarrow> int"

definition kCells :: nat where
  "kCells = 81"

definition kMaxNodes :: nat where
  "kMaxNodes = 1 + 81 * 4 + 9 * 9 * 9 * 4"

definition kRow :: nat where "kRow = 100"
definition kCol :: nat where "kCol = 200"
definition kBox :: nat where "kBox = 300"

definition get_row_col :: "nat \<Rightarrow> nat \<Rightarrow> nat" where
  "get_row_col row val = kRow + row * 10 + val"

definition get_col_col :: "nat \<Rightarrow> nat \<Rightarrow> nat" where
  "get_col_col col val = kCol + col * 10 + val"

definition get_box_col :: "nat \<Rightarrow> nat \<Rightarrow> nat" where
  "get_box_col box val = kBox + box * 10 + val"

definition put_left :: "nat \<Rightarrow> nat \<Rightarrow> nodes \<Rightarrow> nodes" where
  "put_left old nnew h =
     (let h = h\<lparr>n_left := (n_left h)(nnew := n_left h old)\<rparr>;
          h = h\<lparr>n_right := (n_right h)(nnew := old)\<rparr>;
          h = h\<lparr>n_right := (n_right h)(n_left h old := nnew)\<rparr>
      in h\<lparr>n_left := (n_left h)(old := nnew)\<rparr>)"

definition put_up :: "nat \<Rightarrow> nat \<Rightarrow> nodes \<Rightarrow> nodes" where
  "put_up old nnew h =
     (let h = h\<lparr>n_up := (n_up h)(nnew := n_up h old)\<rparr>;
          h = h\<lparr>n_down := (n_down h)(nnew := old)\<rparr>;
          h = h\<lparr>n_down := (n_down h)(n_up h old := nnew)\<rparr>;
          h = h\<lparr>n_up := (n_up h)(old := nnew)\<rparr>;
          h = h\<lparr>n_size := (n_size h)(old := n_size h old + 1)\<rparr>
      in h\<lparr>n_col := (n_col h)(nnew := old)\<rparr>)"

text \<open>A node that points to itself.\<close>

definition init_node :: "nat \<Rightarrow> nat \<Rightarrow> int \<Rightarrow> nodes \<Rightarrow> nodes" where
  "init_node p c n h = h\<lparr>n_left := (n_left h)(p := p), n_right := (n_right h)(p := p), n_up := (n_up h)(p := p),
     n_down := (n_down h)(p := p), n_col := (n_col h)(p := c), n_name := (n_name h)(p := n), n_size := (n_size h)(p := 0)\<rparr>"

section \<open>Covering\<close>

text \<open>\<open>for(j = start; j != stop; j = j->next)\<close>\<close>

fun for_nodes :: "nat \<Rightarrow> (nodes \<Rightarrow> nat \<Rightarrow> nat) \<Rightarrow> nat \<Rightarrow> (nat \<Rightarrow> nodes \<Rightarrow> nodes option) \<Rightarrow> nat \<Rightarrow> nodes \<Rightarrow> nodes option" where
  "for_nodes 0 nxt stop body j h = None"
| "for_nodes (Suc fuel) nxt stop body j h =
     (if j = stop then Some h
      else case body j h of None \<Rightarrow> None | Some h \<Rightarrow> for_nodes fuel nxt stop body (nxt h j) h)"

definition ring_fuel :: nat where
  "ring_fuel = kMaxNodes + 1"

text \<open>The bodies of the inner loops of \<open>cover\<close> and \<open>uncover\<close>.\<close>

definition cover_node :: "nat \<Rightarrow> nodes \<Rightarrow> nodes" where
  "cover_node j h =
     (let h = h\<lparr>n_up := (n_up h)(n_down h j := n_up h j)\<rparr>;
          h = h\<lparr>n_down := (n_down h)(n_up h j := n_down h j)\<rparr>
      in h\<lparr>n_size := (n_size h)(n_col h j := n_size h (n_col h j) - 1)\<rparr>)"

definition uncover_node :: "nat \<Rightarrow> nodes \<Rightarrow> nodes" where
  "uncover_node j h =
     (let h = h\<lparr>n_size := (n_size h)(n_col h j := n_size h (n_col h j) + 1)\<rparr>;
          h = h\<lparr>n_up := (n_up h)(n_down h j := j)\<rparr>
      in h\<lparr>n_down := (n_down h)(n_up h j := j)\<rparr>)"

definition cover :: "nat \<Rightarrow> nodes \<Rightarrow> nodes option" where
  "cover c h =
     (let h = h\<lparr>n_left := (n_left h)(n_right h c := n_left h c)\<rparr>;
          h = h\<lparr>n_right := (n_right h)(n_left h c := n_right h c)\<rparr>
      in for_nodes ring_fuel n_down c
           (\<lambda>row h. for_nodes ring_fuel n_right row (\<lambda>j h. Some (cover_node j h)) (n_right h row) h) (n_down h c) h)"

definition uncover :: "nat \<Rightarrow> nodes \<Rightarrow> nodes option" where
  "uncover c h =
     map_option (\<lambda>h.
       let h = h\<lparr>n_left := (n_left h)(n_right h c := c)\<rparr> in h\<lparr>n_right := (n_right h)(n_left h c := c)\<rparr>)
     (for_nodes ring_fuel n_up c
        (\<lambda>row h. for_nodes ring_fuel n_left row (\<lambda>j h. Some (uncover_node j h)) (n_left h row) h) (n_up h c) h)"

section \<open>The solver\<close>

record solver =
  sv_root :: nat
  sv_inout :: "int list"
  sv_columns :: "nat \<Rightarrow> nat option"
  sv_stack :: "nat list"
  sv_nodes :: nodes
  sv_cur_node :: nat

text \<open>The loop of \<open>get_min_column\<close>, from \<open>cc\<close> on.\<close>

fun min_column_loop :: "nat \<Rightarrow> nat \<Rightarrow> nodes \<Rightarrow> nat \<Rightarrow> nat \<Rightarrow> int \<Rightarrow> nat option" where
  "min_column_loop 0 root h cc c min_size = None"
| "min_column_loop (Suc fuel) root h cc c min_size =
     (if cc = root then Some c
      else if min_size > n_size h cc
           then if n_size h cc \<le> 1 then Some cc else min_column_loop fuel root h (n_right h cc) cc (n_size h cc)
           else min_column_loop fuel root h (n_right h cc) c min_size)"

definition get_min_column :: "nat \<Rightarrow> nodes \<Rightarrow> nat option" where
  "get_min_column root h =
     (let c = n_right h root; min_size = n_size h c
      in if min_size > 1 then min_column_loop ring_fuel root h (n_right h c) c min_size else Some c)"

text \<open>The cell and the value of the row of a node, and the loop over the stack.\<close>

fun row_cell_val :: "nat \<Rightarrow> nodes \<Rightarrow> nat \<Rightarrow> int \<Rightarrow> int \<Rightarrow> (int \<times> int) option" where
  "row_cell_val 0 h n cell val = None"
| "row_cell_val (Suc fuel) h n cell val =
     (if cell = -1 \<or> val = -1
      then if n_name h n < 100 then row_cell_val fuel h (n_right h n) (n_name h n) val
           else row_cell_val fuel h (n_right h n) cell (cmod (n_name h n) 10)
      else Some (cell, val))"

fun write_solution :: "nodes \<Rightarrow> nat list \<Rightarrow> int list \<Rightarrow> int list option" where
  "write_solution h [] inout = Some inout"
| "write_solution h (n # ns) inout =
     (case row_cell_val ring_fuel h n (-1) (-1) of
        None \<Rightarrow> None
      | Some (cell, val) \<Rightarrow> write_solution h ns (inout[nat cell := val]))"

text \<open>The loop of \<open>solve\<close> over the rows of the column, given the recursive call.\<close>

fun try_rows :: "(solver \<Rightarrow> (bool \<times> solver) option) \<Rightarrow> nat \<Rightarrow> nat \<Rightarrow> nat \<Rightarrow> solver \<Rightarrow> (bool \<times> solver) option" where
  "try_rows rec 0 col row s = None"
| "try_rows rec (Suc fuel) col row s =
     (if row = col
      then map_option (\<lambda>h. (False, s\<lparr>sv_nodes := h\<rparr>)) (uncover col (sv_nodes s))
      else
        (let s = s\<lparr>sv_stack := sv_stack s @ [row]\<rparr> in
         case for_nodes ring_fuel n_right row (\<lambda>j h. cover (n_col h j) h) (n_right (sv_nodes s) row) (sv_nodes s) of
           None \<Rightarrow> None
         | Some h \<Rightarrow>
             (case rec (s\<lparr>sv_nodes := h\<rparr>) of
                None \<Rightarrow> None
              | Some (True, s) \<Rightarrow> Some (True, s)
              | Some (False, s) \<Rightarrow>
                  (let s = s\<lparr>sv_stack := butlast (sv_stack s)\<rparr> in
                   case for_nodes ring_fuel n_left row (\<lambda>j h. uncover (n_col h j) h) (n_left (sv_nodes s) row) (sv_nodes s) of
                     None \<Rightarrow> None
                   | Some h \<Rightarrow> try_rows rec fuel col (n_down h row) (s\<lparr>sv_nodes := h\<rparr>)))))"

fun solve :: "nat \<Rightarrow> solver \<Rightarrow> (bool \<times> solver) option" where
  "solve 0 s = None"
| "solve (Suc depth) s =
     (if n_left (sv_nodes s) (sv_root s) = sv_root s
      then map_option (\<lambda>io. (True, s\<lparr>sv_inout := io\<rparr>)) (write_solution (sv_nodes s) (sv_stack s) (sv_inout s))
      else
        (case get_min_column (sv_root s) (sv_nodes s) of
           None \<Rightarrow> None
         | Some col \<Rightarrow>
             (case cover col (sv_nodes s) of
                None \<Rightarrow> None
              | Some h \<Rightarrow> try_rows (solve depth) ring_fuel col (n_down h col) (s\<lparr>sv_nodes := h\<rparr>))))"

section \<open>Building the matrix\<close>

definition new_column :: "nat \<Rightarrow> solver \<Rightarrow> (nat \<times> solver) result" where
  "new_column n s =
     bindR (assertR (sv_cur_node s < kMaxNodes)) (\<lambda>_.
     (let c = sv_cur_node s
      in Inr (c, s\<lparr>sv_cur_node := c + 1, sv_nodes := init_node c c (int n) (sv_nodes s)\<rparr>)))"

definition append_column :: "nat \<Rightarrow> solver \<Rightarrow> solver result" where
  "append_column n s =
     bindR (assertR (sv_columns s n = None)) (\<lambda>_.
     bindR (new_column n s) (\<lambda>(c, s).
     Inr (s\<lparr>sv_nodes := put_left (sv_root s) c (sv_nodes s), sv_columns := (sv_columns s)(n \<mapsto> c)\<rparr>)))"

definition new_row :: "nat \<Rightarrow> solver \<Rightarrow> (nat \<times> solver) result" where
  "new_row col s =
     (case sv_columns s col of
        None \<Rightarrow> Inl AssertionFailed
      | Some c \<Rightarrow>
          bindR (assertR (sv_cur_node s < kMaxNodes)) (\<lambda>_.
          (let r = sv_cur_node s
           in Inr (r, s\<lparr>sv_cur_node := r + 1, sv_nodes := put_up c r (init_node r c (int col) (sv_nodes s))\<rparr>))))"

text \<open>Which values the givens use in each row, column and box.\<close>

record flags =
  fl_rows :: "nat \<Rightarrow> nat \<Rightarrow> bool"
  fl_cols :: "nat \<Rightarrow> nat \<Rightarrow> bool"
  fl_boxes :: "nat \<Rightarrow> nat \<Rightarrow> bool"

definition cell_row :: "nat \<Rightarrow> nat" where "cell_row i = i div 9"
definition cell_col :: "nat \<Rightarrow> nat" where "cell_col i = i mod 9"
definition cell_box :: "nat \<Rightarrow> nat" where "cell_box i = cell_row i div 3 * 3 + cell_col i div 3"

definition set_flag :: "nat \<Rightarrow> nat \<Rightarrow> (nat \<Rightarrow> nat \<Rightarrow> bool) \<Rightarrow> nat \<Rightarrow> nat \<Rightarrow> bool" where
  "set_flag i v f = f(i := (f i)(v := True))"

definition mark_cell :: "int list \<Rightarrow> nat \<Rightarrow> flags \<Rightarrow> flags" where
  "mark_cell board i f =
     (let val = nat (board ! i)
      in f\<lparr>fl_rows := set_flag (cell_row i) val (fl_rows f), fl_cols := set_flag (cell_col i) val (fl_cols f),
           fl_boxes := set_flag (cell_box i) val (fl_boxes f)\<rparr>)"

definition board_flags :: "int list \<Rightarrow> flags" where
  "board_flags board = fold (mark_cell board) [0..<kCells]
     \<lparr>fl_rows = (\<lambda>_ _. False), fl_cols = (\<lambda>_ _. False), fl_boxes = (\<lambda>_ _. False)\<rparr>"

text \<open>The columns in the order of the constructor: cells, then the three constraints of each unit and value.\<close>

definition cell_columns :: "int list \<Rightarrow> nat list" where
  "cell_columns board = filter (\<lambda>i. board ! i = 0) [0..<kCells]"

definition unit_columns :: "flags \<Rightarrow> nat list" where
  "unit_columns f = concat (map (\<lambda>i. concat (map (\<lambda>v.
     (if \<not> fl_rows f i v then [get_row_col i v] else []) @ (if \<not> fl_cols f i v then [get_col_col i v] else []) @
     (if \<not> fl_boxes f i v then [get_box_col i v] else [])) [1..<10])) [0..<9])"

definition append_row :: "nat \<Rightarrow> nat \<Rightarrow> solver \<Rightarrow> solver result" where
  "append_row i v s =
     bindR (new_row i s) (\<lambda>(n0, s).
     bindR (new_row (get_row_col (cell_row i) v) s) (\<lambda>(nr, s).
     bindR (new_row (get_col_col (cell_col i) v) s) (\<lambda>(nc, s).
     bindR (new_row (get_box_col (cell_box i) v) s) (\<lambda>(nb, s).
     Inr (s\<lparr>sv_nodes := put_left n0 nb (put_left n0 nc (put_left n0 nr (sv_nodes s)))\<rparr>)))))"

definition allowed :: "flags \<Rightarrow> nat \<Rightarrow> nat \<Rightarrow> bool" where
  "allowed f i v \<longleftrightarrow> \<not> (fl_rows f (cell_row i) v \<or> fl_cols f (cell_col i) v \<or> fl_boxes f (cell_box i) v)"

definition empty_nodes :: nodes where
  "empty_nodes = \<lparr>n_left = (\<lambda>_. 0), n_right = (\<lambda>_. 0), n_up = (\<lambda>_. 0), n_down = (\<lambda>_. 0), n_col = (\<lambda>_. 0),
     n_name = (\<lambda>_. 0), n_size = (\<lambda>_. 0)\<rparr>"

definition SudokuSolver_new :: "int list \<Rightarrow> solver result" where
  "SudokuSolver_new board =
     bindR (new_column 0 \<lparr>sv_root = 0, sv_inout = board, sv_columns = Map.empty, sv_stack = [], sv_nodes = empty_nodes,
       sv_cur_node = 0\<rparr>) (\<lambda>(root, s).
     (let s = s\<lparr>sv_root := root, sv_nodes := (sv_nodes s)\<lparr>n_left := (n_left (sv_nodes s))(root := root),
                n_right := (n_right (sv_nodes s))(root := root)\<rparr>\<rparr>;
          f = board_flags board in
      bindR (foldR append_column (cell_columns board) s) (\<lambda>s.
      bindR (foldR append_column (unit_columns f) s) (\<lambda>s.
      foldR (\<lambda>i. foldR (\<lambda>v s. if allowed f i v then append_row i v s else Inr s) [1..<10]) (cell_columns board) s))))"

section \<open>\<open>solveSudoku\<close>\<close>

definition kNoSolution :: string where
  "kNoSolution = ''NoSolution''"

text \<open>The board of a puzzle, and its text; the depth is one more than the columns there can be.\<close>

definition read_board :: "string \<Rightarrow> int list" where
  "read_board puzzle = map (\<lambda>c. int (of_char c) - 48) puzzle"

definition show_board :: "int list \<Rightarrow> string" where
  "show_board board = map (\<lambda>b. char_of (nat (b + 48))) board"

definition solveSudoku :: "string \<Rightarrow> string option result" where
  "solveSudoku puzzle =
     bindR (assertR (length puzzle = kCells)) (\<lambda>_.
     (let board = read_board puzzle
      in if list_all (\<lambda>b. 0 \<le> b \<and> b \<le> 9) board
         then bindR (SudokuSolver_new board) (\<lambda>s.
              Inr (map_option (\<lambda>(found, s).
                if found then show_board (sv_inout s) else kNoSolution) (solve (kMaxNodes + 1) s)))
         else Inr (Some kNoSolution)))"

end
