(* ===== verification/Sudoku_Links.thy ===== *)
theory Sudoku_Links
  imports Sudoku_Solver
begin

text \<open>
  Doubly linked rings, and what covering a column does to them: the rings of the other columns lose the nodes of the
  rows of the column, and \<open>uncover\<close> undoes \<open>cover\<close> exactly, member by member.
\<close>

section \<open>Chains\<close>

text \<open>\<open>chain f x ys z\<close>: following \<open>f\<close> from \<open>x\<close> visits \<open>ys\<close> and then comes to \<open>z\<close>.\<close>

fun chain :: "(nat \<Rightarrow> nat) \<Rightarrow> nat \<Rightarrow> nat list \<Rightarrow> nat \<Rightarrow> bool" where
  "chain f x [] z \<longleftrightarrow> f x = z"
| "chain f x (y # ys) z \<longleftrightarrow> f x = y \<and> chain f y ys z"

lemma chain_append: "chain f x (ys @ w # ws) z \<longleftrightarrow> chain f x ys w \<and> chain f w ws z"
  by (induction ys arbitrary: x) auto

lemma chain_cong: "(\<And>y. y \<in> set (x # ys) \<Longrightarrow> f y = g y) \<Longrightarrow> chain f x ys z = chain g x ys z"
  by (induction ys arbitrary: x) auto

lemma chain_first: "chain f x ys z \<Longrightarrow> f x = hd (ys @ [z])"
  by (cases ys) auto

lemma chain_last: "chain f x ys z \<Longrightarrow> f (last (x # ys)) = z"
  by (induction ys arbitrary: x) auto

lemma chain_set_last: "distinct (x # ys) \<Longrightarrow> chain f x ys y \<Longrightarrow> chain (f(last (x # ys) := z)) x ys z"
proof (induction ys arbitrary: x)
  case (Cons a ys)
  then have "x \<noteq> last (a # ys)" using last_in_set [of "a # ys"] by auto
  with Cons show ?case by auto
qed simp

text \<open>Two functions that run around the same ring in opposite directions.\<close>

definition ring :: "(nat \<Rightarrow> nat) \<Rightarrow> (nat \<Rightarrow> nat) \<Rightarrow> nat \<Rightarrow> nat list \<Rightarrow> bool" where
  "ring f g c ys \<longleftrightarrow> distinct (c # ys) \<and> chain f c ys c \<and> chain g c (rev ys) c"

lemma ring_cong:
  "(\<And>y. y \<in> set (c # ys) \<Longrightarrow> f y = f' y \<and> g y = g' y) \<Longrightarrow> ring f g c ys = ring f' g' c ys"
  unfolding ring_def using chain_cong [of c ys f f'] chain_cong [of c "rev ys" g g'] by auto

lemma ring_sym: "ring f g c ys \<longleftrightarrow> ring g f c (rev ys)"
  by (auto simp: ring_def)

lemma ring_empty: "ring f g c [] \<longleftrightarrow> f c = c \<and> g c = c"
  by (auto simp: ring_def)

lemma ring_closed: "ring f g c ys \<Longrightarrow> y \<in> set (c # ys) \<Longrightarrow> f y \<in> set (c # ys) \<and> g y \<in> set (c # ys)"
proof -
  have one: "f y \<in> set (x # ys) \<union> {z}" if "chain f x ys z" "y \<in> set (x # ys)" for f :: "nat \<Rightarrow> nat" and x ys z y
    using that by (induction ys arbitrary: x) auto
  assume "ring f g c ys" "y \<in> set (c # ys)"
  then show ?thesis using one [of f c ys c y] one [of g c "rev ys" c y] by (auto simp: ring_def)
qed

text \<open>The neighbours of a member.\<close>

lemma ring_split:
  assumes "ring f g c (as @ y # bs)"
  shows "f y = hd (bs @ [c])" "g y = last (c # as)" "f (g y) = y" "g (f y) = y"
proof -
  have f: "chain f c as y" "chain f y bs c" using assms by (simp_all add: ring_def chain_append)
  have g: "chain g c (rev bs) y" "chain g y (rev as) c" using assms by (simp_all add: ring_def chain_append)
  show fy: "f y = hd (bs @ [c])" by (rule chain_first [OF f(2)])
  have "g y = hd (rev as @ [c])" by (rule chain_first [OF g(2)])
  then show gy: "g y = last (c # as)" by (cases as rule: rev_cases) auto
  show "f (g y) = y" using chain_last [OF f(1)] gy by simp
  have "g (last (c # rev bs)) = y" by (rule chain_last [OF g(1)])
  then show "g (f y) = y" using fy by (cases bs) auto
qed

lemma ring_unlink_one:
  assumes r: "ring f g c (as @ y # bs)"
  shows "chain (f(g y := f y)) c (as @ bs) c"
proof -
  have f: "chain f c as y" "chain f y bs c" and d: "distinct (c # as @ y # bs)" using r by (simp_all add: ring_def chain_append)
  have p: "g y = last (c # as)" by (rule ring_split [OF r])
  have pm: "g y \<in> set (c # as)" unfolding p by (rule last_in_set) simp
  show ?thesis
  proof (cases bs)
    case Nil
    then show ?thesis using chain_set_last [OF _ f(1), of c] f(2) d p by simp
  next
    case (Cons q bs')
    have "chain (f(g y := q)) c as q" using chain_set_last [OF _ f(1), of q] d p by simp
    moreover have "chain (f(g y := q)) q bs' c = chain f q bs' c"
      by (rule chain_cong) (use pm d Cons in auto)
    ultimately show ?thesis using f(2) Cons by (simp add: chain_append)
  qed
qed

lemma ring_unlink:
  assumes "ring f g c (as @ y # bs)"
  shows "ring (f(g y := f y)) (g(f y := g y)) c (as @ bs)"
proof -
  have "ring g f c (rev bs @ y # rev as)" using assms ring_sym [of f g c "as @ y # bs"] by simp
  from ring_unlink_one [OF this] have "chain (g(f y := g y)) c (rev (as @ bs)) c" by simp
  then show ?thesis using ring_unlink_one [OF assms] assms by (auto simp: ring_def)
qed

text \<open>A new member between the last one and the first.\<close>

lemma ring_append:
  assumes r: "ring f g c ys" and new: "y \<notin> set (c # ys)"
  shows "ring (f(y := c, g c := y)) (g(y := g c, c := y)) c (ys @ [y])"
proof -
  have f: "chain f c ys c" and g: "chain g c (rev ys) c" and d: "distinct (c # ys)" using r by (simp_all add: ring_def)
  have gc: "g c = last (c # ys)" using chain_first [OF g] by (cases ys rule: rev_cases) auto
  have gm: "g c \<in> set (c # ys)" unfolding gc by (rule last_in_set) simp
  let ?f = "f(y := c, g c := y)" and ?g = "g(y := g c, c := y)"
  have "chain (f(y := c)) c ys c = chain f c ys c" by (rule chain_cong) (use new in auto)
  then have "chain ?f c ys y" using chain_set_last [OF d, of "f(y := c)" c y] f gc by simp
  moreover have "?f y = c" using new gm by auto
  moreover have "chain ?g c (y # rev ys) c"
  proof (cases ys rule: rev_cases)
    case Nil
    then show ?thesis using g new by simp
  next
    case (snoc zs w)
    have "chain ?g w (rev zs) c = chain g w (rev zs) c" by (rule chain_cong) (use new d snoc in auto)
    then show ?thesis using g new snoc by auto
  qed
  ultimately show ?thesis using d new by (simp add: ring_def chain_append)
qed

section \<open>Loops around a ring\<close>

text \<open>
  A loop whose body, for the member \<open>y\<close> behind the members \<open>as\<close>, takes the heap \<open>fold g as h0\<close> one step further, while the
  ring stays as it is.
\<close>

lemma for_nodes_fold:
  assumes body: "\<And>as y bs. ys = as @ y # bs \<Longrightarrow> body y (fold g as h0) = Some (g y (fold g as h0))"
    and chain: "\<And>as bs. ys = as @ bs \<Longrightarrow> chain (nxt (fold g as h0)) x ys z"
    and z: "z \<notin> set ys" and fuel: "length ys < fuel"
  shows "for_nodes fuel nxt z body (nxt h0 x) h0 = Some (fold g ys h0)"
proof -
  have "for_nodes fuel nxt z body (hd (bs @ [z])) (fold g as h0) = Some (fold g ys h0)"
    if "ys = as @ bs" "length bs < fuel" for as bs fuel
    using that
  proof (induction bs arbitrary: as fuel)
    case Nil
    then show ?case by (cases fuel) simp_all
  next
    case (Cons y bs)
    obtain fl where fl: "fuel = Suc fl" using Cons.prems(2) by (cases fuel) auto
    have split: "ys = (as @ [y]) @ bs" using Cons.prems(1) by simp
    have "chain (nxt (fold g (as @ [y]) h0)) x (as @ y # bs) z" using chain [OF split] Cons.prems(1) by simp
    then have "nxt (fold g (as @ [y]) h0) y = hd (bs @ [z])" by (auto simp: chain_append dest: chain_first)
    then show ?case
      using Cons.IH [OF split, of fl] Cons.prems fl body [OF Cons.prems(1)] z by auto
  qed
  from this [of "[]" ys fuel] fuel chain_first [OF chain [of "[]"]] show ?thesis by simp
qed

section \<open>Taking a node out of its column\<close>

lemma cover_node_fields:
  "n_up (cover_node j h) = (n_up h)(n_down h j := n_up h j)"
  "n_down (cover_node j h) = (n_down h)(((n_up h)(n_down h j := n_up h j)) j := n_down h j)"
  "n_size (cover_node j h) = (n_size h)(n_col h j := n_size h (n_col h j) - 1)"
  "n_left (cover_node j h) = n_left h" "n_right (cover_node j h) = n_right h" "n_col (cover_node j h) = n_col h"
  "n_name (cover_node j h) = n_name h"
  by (simp_all add: cover_node_def Let_def)

lemma uncover_cover_node:
  assumes "n_down h (n_up h j) = j" "n_up h (n_down h j) = j"
  shows "uncover_node j (cover_node j h) = h"
proof -
  have same: "((n_up h)(n_down h j := n_up h j)) j = n_up h j" by simp
  have "(n_up h)(n_down h j := j) = n_up h" using assms(2) by (simp add: fun_upd_idem)
  moreover have "(n_down h)(n_up h j := j) = n_down h" using assms(1) by (simp add: fun_upd_idem)
  ultimately show ?thesis
    using assms by (cases h) (auto simp: uncover_node_def cover_node_def Let_def fun_eq_iff)
qed

text \<open>The columns \<open>C\<close> with the nodes \<open>V\<close> in them; \<open>H\<close> are the column headers there are.\<close>

definition vert :: "nat set \<Rightarrow> nat list \<Rightarrow> (nat \<Rightarrow> nat list) \<Rightarrow> nodes \<Rightarrow> bool" where
  "vert H C V h \<longleftrightarrow> set C \<subseteq> H \<and> (\<forall>c\<in>set C. ring (n_down h) (n_up h) c (V c) \<and> n_size h c = int (length (V c)) \<and>
     (\<forall>x\<in>set (V c). n_col h x = c \<and> x \<notin> H))"

lemma vert_disjoint:
  assumes "vert H C V h" "c \<in> set C" "d \<in> set C" "c \<noteq> d"
  shows "set (c # V c) \<inter> set (d # V d) = {}"
proof -
  have "x \<notin> set (d # V d)" if x: "x \<in> set (c # V c)" for x
  proof -
    have c: "\<forall>x\<in>set (V c). n_col h x = c \<and> x \<notin> H" "c \<in> H" using assms(1,2) by (auto simp: vert_def)
    have d: "\<forall>x\<in>set (V d). n_col h x = d \<and> x \<notin> H" "d \<in> H" using assms(1,3) by (auto simp: vert_def)
    from c d x assms(4) show ?thesis by auto
  qed
  then show ?thesis by blast
qed

lemma vert_links:
  assumes "vert H C V h" "c \<in> set C" "j \<in> set (V c)"
  shows "n_down h (n_up h j) = j" "n_up h (n_down h j) = j" "n_down h j \<in> set (c # V c)" "n_up h j \<in> set (c # V c)"
    "n_col h j = c"
proof -
  have r: "ring (n_down h) (n_up h) c (V c)" and col: "n_col h j = c" using assms by (auto simp: vert_def)
  obtain as bs where "V c = as @ j # bs" using assms(3) by (auto simp: in_set_conv_decomp)
  with r ring_split [of "n_down h" "n_up h" c as j bs] show "n_down h (n_up h j) = j" "n_up h (n_down h j) = j" by simp_all
  show "n_down h j \<in> set (c # V c)" "n_up h j \<in> set (c # V c)" using ring_closed [OF r] assms(3) by auto
  show "n_col h j = c" by (rule col)
qed

lemma cover_node_vert:
  assumes v: "vert H C V h" and c: "c \<in> set C" "j \<in> set (V c)"
  shows "vert H C (V(c := filter (\<lambda>x. x \<noteq> j) (V c))) (cover_node j h)"
proof -
  note l = vert_links [OF v c]
  obtain as bs where V: "V c = as @ j # bs" using c(2) by (auto simp: in_set_conv_decomp)
  have r: "ring (n_down h) (n_up h) c (V c)" using v c(1) by (simp add: vert_def)
  then have "distinct (V c)" by (simp add: ring_def)
  then have "j \<notin> set as" "j \<notin> set bs" unfolding V by auto
  then have "filter (\<lambda>x. x \<noteq> j) as = as" "filter (\<lambda>x. x \<noteq> j) bs = bs" by (auto intro!: filter_True)
  then have F: "filter (\<lambda>x. x \<noteq> j) (V c) = as @ bs" unfolding V by simp
  have self: "((n_up h)(n_down h j := n_up h j)) j = n_up h j" by simp
  have "ring ((n_down h)(n_up h j := n_down h j)) ((n_up h)(n_down h j := n_up h j)) c (as @ bs)"
    using ring_unlink [of "n_down h" "n_up h" c as j bs] r V by simp
  then have here: "ring (n_down (cover_node j h)) (n_up (cover_node j h)) c (as @ bs)"
    by (simp add: cover_node_fields self)
  have there: "ring (n_down (cover_node j h)) (n_up (cover_node j h)) d (V d)" if d: "d \<in> set C" "d \<noteq> c" for d
  proof -
    have "ring (n_down h) (n_up h) d (V d)" using v d(1) by (simp add: vert_def)
    moreover have "n_down (cover_node j h) y = n_down h y \<and> n_up (cover_node j h) y = n_up h y" if "y \<in> set (d # V d)" for y
    proof -
      have "y \<notin> set (c # V c)" using vert_disjoint [OF v c(1) d(1)] d(2) that by blast
      then have "y \<noteq> n_down h j" "y \<noteq> n_up h j" using l by auto
      then show ?thesis by (simp add: cover_node_fields self)
    qed
    ultimately show ?thesis using ring_cong [of d "V d" "n_down (cover_node j h)" "n_down h" "n_up (cover_node j h)" "n_up h"] by blast
  qed
  have "int (length (V c)) - 1 = int (length (as @ bs))" by (simp add: V)
  then show ?thesis
    using v here there l(5) unfolding vert_def F by (auto simp: cover_node_fields V)
qed

text \<open>Taking out a list of nodes, and putting them back in the opposite order.\<close>

lemma cover_nodes_static:
  "n_left (fold cover_node L h) = n_left h" "n_right (fold cover_node L h) = n_right h" "n_col (fold cover_node L h) = n_col h"
  "n_name (fold cover_node L h) = n_name h"
  by (induction L arbitrary: h) (simp_all add: cover_node_fields)

lemma cover_nodes:
  assumes "vert H C V h" "distinct L" "\<And>j. j \<in> set L \<Longrightarrow> \<exists>c\<in>set C. j \<in> set (V c)"
  shows "vert H C (\<lambda>c. filter (\<lambda>x. x \<notin> set L) (V c)) (fold cover_node L h) \<and>
    fold uncover_node (rev L) (fold cover_node L h) = h"
  using assms
proof (induction L arbitrary: h V)
  case (Cons j L)
  obtain c where c: "c \<in> set C" "j \<in> set (V c)" using Cons.prems(3) [of j] by auto
  let ?V = "V(c := filter (\<lambda>x. x \<noteq> j) (V c))" and ?h = "cover_node j h"
  have v: "vert H C ?V ?h" by (rule cover_node_vert [OF Cons.prems(1) c])
  have other: "j \<notin> set (V d)" if "d \<in> set C" "d \<noteq> c" for d
    using vert_disjoint [OF Cons.prems(1) that(1) c(1)] that c(2) by auto
  have mem: "\<exists>d\<in>set C. i \<in> set (?V d)" if i: "i \<in> set L" for i
  proof -
    obtain d where "d \<in> set C" "i \<in> set (V d)" using Cons.prems(3) [of i] i by auto
    moreover have "i \<noteq> j" using Cons.prems(2) i by auto
    ultimately show ?thesis by (intro bexI [of _ d]) auto
  qed
  have dL: "distinct L" using Cons.prems(2) by simp
  from Cons.IH [OF v dL mem]
  have IH: "vert H C (\<lambda>d. filter (\<lambda>x. x \<notin> set L) (?V d)) (fold cover_node L ?h)"
      "fold uncover_node (rev L) (fold cover_node L ?h) = ?h" by auto
  have "\<forall>d\<in>set C. filter (\<lambda>x. x \<notin> set L) (?V d) = filter (\<lambda>x. x \<notin> set (j # L)) (V d)"
    using other by (auto intro!: filter_cong)
  then have "vert H C (\<lambda>c. filter (\<lambda>x. x \<notin> set (j # L)) (V c)) (fold cover_node L ?h)"
    using IH(1) unfolding vert_def by simp
  moreover have "uncover_node j ?h = h"
    by (rule uncover_cover_node) (use vert_links [OF Cons.prems(1) c] in simp_all)
  ultimately show ?case using IH(2) by simp
qed (simp add: filter_id_conv)

section \<open>Rows\<close>

lemma ring_rotate:
  assumes "ring f g c (as @ x # bs)"
  shows "ring f g x (bs @ c # as)"
proof -
  have "chain f c as x" "chain f x bs c" "chain g c (rev bs) x" "chain g x (rev as) c"
    using assms by (simp_all add: ring_def chain_append)
  moreover have "distinct (x # bs @ c # as)" using assms by (auto simp: ring_def)
  ultimately show ?thesis by (simp add: ring_def chain_append)
qed

text \<open>The other nodes of the row of a node, in the order of \<open>right\<close>.\<close>

definition others :: "nat \<Rightarrow> nat list \<Rightarrow> nat list" where
  "others x rw = tl (dropWhile (\<lambda>y. y \<noteq> x) rw) @ takeWhile (\<lambda>y. y \<noteq> x) rw"

definition row_of :: "nat list list \<Rightarrow> nat \<Rightarrow> nat list" where
  "row_of R x = (case find (\<lambda>rw. x \<in> set rw) R of None \<Rightarrow> [] | Some rw \<Rightarrow> rw)"

definition oth :: "nat list list \<Rightarrow> nat \<Rightarrow> nat list" where
  "oth R x = others x (row_of R x)"

definition row_ok :: "nat set \<Rightarrow> nodes \<Rightarrow> nat list \<Rightarrow> bool" where
  "row_ok H h rw \<longleftrightarrow> rw \<noteq> [] \<and> ring (n_right h) (n_left h) (hd rw) (tl rw) \<and> inj_on (n_col h) (set rw) \<and> set rw \<inter> H = {}"

definition rows_ok :: "nat set \<Rightarrow> nat list list \<Rightarrow> nodes \<Rightarrow> bool" where
  "rows_ok H R h \<longleftrightarrow> distinct (concat R) \<and> (\<forall>rw\<in>set R. row_ok H h rw)"

lemma others_split: "x \<notin> set as \<Longrightarrow> others x (as @ x # bs) = bs @ as"
  by (auto simp: others_def takeWhile_append dropWhile_append)

lemma row_others:
  assumes "row_ok H h rw" "x \<in> set rw"
  shows "ring (n_right h) (n_left h) x (others x rw)" "insert x (set (others x rw)) = set rw" "x \<notin> set (others x rw)"
proof -
  obtain as bs where rw: "rw = as @ x # bs" using assms(2) by (auto simp: in_set_conv_decomp)
  have r: "ring (n_right h) (n_left h) (hd rw) (tl rw)" "rw \<noteq> []" using assms(1) by (simp_all add: row_ok_def)
  then have "distinct rw" by (cases rw) (auto simp: ring_def)
  then have x: "x \<notin> set as" "x \<notin> set bs" unfolding rw by auto
  then have o: "others x rw = bs @ as" unfolding rw by (simp add: others_split)
  show "ring (n_right h) (n_left h) x (others x rw)"
  proof (cases as)
    case Nil
    then show ?thesis using r o rw by simp
  next
    case (Cons c cs)
    then show ?thesis using ring_rotate [of "n_right h" "n_left h" c cs x bs] r o rw by simp
  qed
  show "insert x (set (others x rw)) = set rw" "x \<notin> set (others x rw)" using o x rw by auto
qed

lemma row_of_mem:
  assumes "distinct (concat R)" "rw \<in> set R" "x \<in> set rw"
  shows "row_of R x = rw"
proof -
  obtain rw' where f: "find (\<lambda>rw. x \<in> set rw) R = Some rw'" "rw' \<in> set R" "x \<in> set rw'"
    using assms(2,3) by (cases "find (\<lambda>rw. x \<in> set rw) R") (auto simp: find_None_iff find_Some_iff)
  have "rw' = rw"
  proof (rule ccontr)
    assume "rw' \<noteq> rw"
    then have "set rw' \<inter> set rw = {}" using assms(1,2) f(2) by (auto simp: distinct_concat_iff)
    then show False using assms(3) f(3) by auto
  qed
  then show ?thesis by (simp add: row_of_def f)
qed

section \<open>The matrix\<close>

text \<open>
  The active columns \<open>C\<close> in the order of the header ring, the nodes \<open>V\<close> in each of them, and the active rows \<open>A\<close>: the
  rows all of whose columns are active and that are still in the rings.
\<close>

definition matrix_ok ::
    "nat \<Rightarrow> nat set \<Rightarrow> nat list list \<Rightarrow> nat list \<Rightarrow> (nat \<Rightarrow> nat list) \<Rightarrow> nat list set \<Rightarrow> nodes \<Rightarrow> bool" where
  "matrix_ok root H R C V A h \<longleftrightarrow>
     ring (n_right h) (n_left h) root C \<and> root \<in> H \<and> vert H C V h \<and> rows_ok H R h \<and> A \<subseteq> set R \<and>
     (\<forall>rw\<in>A. n_col h ` set rw \<subseteq> set C) \<and>
     (\<forall>c\<in>set C. set (V c) = {x. n_col h x = c \<and> (\<exists>rw\<in>A. x \<in> set rw)}) \<and>
     H \<subseteq> {..<kMaxNodes} \<and> set (concat R) \<subseteq> {..<kMaxNodes}"

lemma matrix_okD:
  assumes "matrix_ok root H R C V A h"
  shows "ring (n_right h) (n_left h) root C" "root \<in> H" "vert H C V h" "rows_ok H R h" "A \<subseteq> set R"
    "\<And>rw x. rw \<in> A \<Longrightarrow> x \<in> set rw \<Longrightarrow> n_col h x \<in> set C"
    "\<And>c x. c \<in> set C \<Longrightarrow> x \<in> set (V c) \<longleftrightarrow> n_col h x = c \<and> (\<exists>rw\<in>A. x \<in> set rw)"
    "H \<subseteq> {..<kMaxNodes}" "set (concat R) \<subseteq> {..<kMaxNodes}"
    "\<And>rw. rw \<in> A \<Longrightarrow> row_ok H h rw" "distinct (concat R)"
proof -
  note m = assms [unfolded matrix_ok_def]
  show "ring (n_right h) (n_left h) root C" "root \<in> H" "vert H C V h" "rows_ok H R h" "A \<subseteq> set R"
    "H \<subseteq> {..<kMaxNodes}" "set (concat R) \<subseteq> {..<kMaxNodes}" using m by blast+
  then show "\<And>rw. rw \<in> A \<Longrightarrow> row_ok H h rw" "distinct (concat R)" unfolding rows_ok_def by blast+
  show "n_col h x \<in> set C" if "rw \<in> A" "x \<in> set rw" for rw x using m that by blast
  show "x \<in> set (V c) \<longleftrightarrow> n_col h x = c \<and> (\<exists>rw\<in>A. x \<in> set rw)" if "c \<in> set C" for c x using m that by blast
qed

lemma short_list: "distinct xs \<Longrightarrow> set xs \<subseteq> {..<n} \<Longrightarrow> length xs \<le> n"
  using card_mono [of "{..<n}" "set xs"] by (simp add: distinct_card)

lemma column_nodes:
  assumes m: "matrix_ok root H R C V A h" and c: "c \<in> set C" "x \<in> set (V c)"
  shows "\<exists>rw\<in>A. rw \<in> set R \<and> x \<in> set rw \<and> row_of R x = rw \<and> oth R x = others x rw \<and> row_ok H h rw \<and> n_col h x = c"
proof -
  obtain rw where rw: "rw \<in> A" "x \<in> set rw" "n_col h x = c" using matrix_okD(7) [OF m c(1)] c(2) by blast
  have R: "rw \<in> set R" using matrix_okD(5) [OF m] rw(1) by blast
  have "row_of R x = rw" by (rule row_of_mem [OF matrix_okD(11) [OF m] R rw(2)])
  with rw R matrix_okD(10) [OF m rw(1)] show ?thesis by (auto simp: oth_def)
qed

lemma oth_nodes:
  assumes m: "matrix_ok root H R C V A h" and c: "c \<in> set C" "x \<in> set (V c)"
  shows "distinct (oth R x)" "x \<notin> set (oth R x)" "length (oth R x) < ring_fuel"
    "ring (n_right h) (n_left h) x (oth R x)"
    "\<And>j. j \<in> set (oth R x) \<Longrightarrow> n_col h j \<in> set C \<and> n_col h j \<noteq> c \<and> j \<in> set (V (n_col h j)) \<and> row_of R j = row_of R x"
proof -
  obtain rw where rw: "rw \<in> A" "rw \<in> set R" "x \<in> set rw" "row_of R x = rw" "oth R x = others x rw" "row_ok H h rw" "n_col h x = c"
    using column_nodes [OF m c] by blast
  note o = row_others [OF rw(6,3)]
  show r: "ring (n_right h) (n_left h) x (oth R x)" using o(1) rw(5) by simp
  then show d: "distinct (oth R x)" by (simp add: ring_def)
  show "x \<notin> set (oth R x)" using o(3) rw(5) by simp
  have "set (oth R x) \<subseteq> set (concat R)" using o(2) rw(2,5) by auto
  from this matrix_okD(9) [OF m] have "set (oth R x) \<subseteq> {..<kMaxNodes}" by (rule subset_trans)
  then show "length (oth R x) < ring_fuel" using short_list [OF d] by (simp add: ring_fuel_def le_imp_less_Suc)
  fix j assume j: "j \<in> set (oth R x)"
  then have jr: "j \<in> set rw" "j \<noteq> x" using o(2,3) rw(5) by auto
  have "n_col h j \<noteq> c" using rw(3,6,7) jr by (auto simp: row_ok_def inj_on_def)
  moreover have jC: "n_col h j \<in> set C" by (rule matrix_okD(6) [OF m rw(1) jr(1)])
  moreover have "j \<in> set (V (n_col h j))" using matrix_okD(7) [OF m jC] rw(1) jr(1) by blast
  moreover have "row_of R j = rw" by (rule row_of_mem [OF matrix_okD(11) [OF m] rw(2) jr(1)])
  ultimately show "n_col h j \<in> set C \<and> n_col h j \<noteq> c \<and> j \<in> set (V (n_col h j)) \<and> row_of R j = row_of R x" using rw(4) by simp
qed

lemma distinct_concat_map:
  "distinct ys \<Longrightarrow> (\<And>x. x \<in> set ys \<Longrightarrow> distinct (f x)) \<Longrightarrow>
   (\<And>x y. x \<in> set ys \<Longrightarrow> y \<in> set ys \<Longrightarrow> x \<noteq> y \<Longrightarrow> set (f x) \<inter> set (f y) = {}) \<Longrightarrow> distinct (concat (map f ys))"
proof (induction ys)
  case (Cons y ys)
  have "distinct (concat (map f ys))"
    by (rule Cons.IH) (use Cons.prems in simp_all)
  moreover have "set (f y) \<inter> set (f x) = {}" if "x \<in> set ys" for x
    by (rule Cons.prems(3)) (use that Cons.prems(1) in auto)
  moreover have "distinct (f y)" by (rule Cons.prems(2)) simp
  ultimately show ?case by fastforce
qed simp

text \<open>The nodes a cover takes out, row by row.\<close>

lemma removed_distinct:
  assumes m: "matrix_ok root H R C V A h" and c: "c \<in> set C" and ys: "distinct ys" "set ys \<subseteq> set (V c)"
  shows "distinct (concat (map (oth R) ys))"
proof -
  have disj: "set (oth R x) \<inter> set (oth R y) = {}" if xy: "x \<in> set ys" "y \<in> set ys" "x \<noteq> y" for x y
  proof -
    have V: "x \<in> set (V c)" "y \<in> set (V c)" using ys(2) xy by blast+
    obtain rx where rx: "x \<in> set rx" "row_of R x = rx" "row_ok H h rx" "n_col h x = c" using column_nodes [OF m c V(1)] by blast
    obtain ry where ry: "y \<in> set ry" "row_of R y = ry" "n_col h y = c" using column_nodes [OF m c V(2)] by blast
    have "inj_on (n_col h) (set rx)" using rx(3) by (simp add: row_ok_def)
    then have "rx \<noteq> ry" using inj_onD [of "n_col h" "set rx" x y] rx(1,4) ry(1,3) xy(3) by auto
    moreover have "row_of R j = rx" if "j \<in> set (oth R x)" for j using oth_nodes(5) [OF m c V(1) that] rx(2) by simp
    moreover have "row_of R j = ry" if "j \<in> set (oth R y)" for j using oth_nodes(5) [OF m c V(2) that] ry(2) by simp
    ultimately show ?thesis by blast
  qed
  have one: "distinct (oth R x)" if "x \<in> set ys" for x by (rule oth_nodes(1) [OF m c]) (use that ys(2) in blast)
  show ?thesis by (rule distinct_concat_map [OF ys(1) one disj])
qed

section \<open>Covering and uncovering a column\<close>

text \<open>What covering leaves alone: the columns and names of all nodes, and the row rings.\<close>

definition static :: "nat set \<Rightarrow> nodes \<Rightarrow> nodes \<Rightarrow> bool" where
  "static H h h' \<longleftrightarrow> n_col h' = n_col h \<and> n_name h' = n_name h \<and>
     (\<forall>x. x \<notin> H \<longrightarrow> n_left h' x = n_left h x \<and> n_right h' x = n_right h x)"

lemma static_refl: "static H h h" and static_sym: "static H h h' \<Longrightarrow> static H h' h"
  and static_trans: "static H h h' \<Longrightarrow> static H h' h'' \<Longrightarrow> static H h h''"
  by (auto simp: static_def)

lemma static_rows:
  assumes "static H h h'"
  shows "row_ok H h' rw = row_ok H h rw" "rows_ok H R h' = rows_ok H R h"
proof -
  have one: "row_ok H h' rw = row_ok H h rw" for rw
  proof (cases "rw \<noteq> [] \<and> set rw \<inter> H = {}")
    case True
    then have "ring (n_right h') (n_left h') (hd rw) (tl rw) = ring (n_right h) (n_left h) (hd rw) (tl rw)"
      by (intro ring_cong) (use assms in \<open>auto simp: static_def\<close>)
    then show ?thesis using assms by (simp add: row_ok_def static_def)
  qed (auto simp: row_ok_def)
  then show "row_ok H h' rw = row_ok H h rw" "rows_ok H R h' = rows_ok H R h" by (simp_all add: rows_ok_def)
qed

lemma vert_cong:
  "n_down h' = n_down h \<Longrightarrow> n_up h' = n_up h \<Longrightarrow> n_size h' = n_size h \<Longrightarrow> n_col h' = n_col h \<Longrightarrow> vert H C V h' = vert H C V h"
  by (simp add: vert_def)

definition unlink :: "nat \<Rightarrow> nodes \<Rightarrow> nodes" where
  "unlink c h = h\<lparr>n_left := (n_left h)(n_right h c := n_left h c), n_right := (n_right h)(n_left h c := n_right h c)\<rparr>"

definition relink :: "nat \<Rightarrow> nodes \<Rightarrow> nodes" where
  "relink c h = (let h = h\<lparr>n_left := (n_left h)(n_right h c := c)\<rparr> in h\<lparr>n_right := (n_right h)(n_left h c := c)\<rparr>)"

lemma relink_unlink:
  assumes "n_left h (n_right h c) = c" "n_right h (n_left h c) = c" "n_right h c \<noteq> c"
  shows "relink c (unlink c h) = h"
  using assms by (cases h) (auto simp: relink_def unlink_def Let_def fun_eq_iff)

text \<open>The nodes of the rows of a column, the column's own apart.\<close>

definition removed :: "nat list list \<Rightarrow> nat list \<Rightarrow> nat list" where
  "removed R ys = concat (map (oth R) ys)"

lemma removed_simps: "removed R [] = []" "removed R (ys @ zs) = removed R ys @ removed R zs" "removed R [y] = oth R y"
  by (simp_all add: removed_def)

lemma fold_removed: "fold (\<lambda>x. fold f (oth R x)) ys = fold f (removed R ys)"
  by (induction ys) (simp_all add: removed_def)

lemma fold_removed_rev: "fold (\<lambda>x. fold f (rev (oth R x))) ys = fold f (rev (removed R (rev ys)))"
  by (induction ys) (simp_all add: removed_simps)

text \<open>The two loops, in a heap whose row rings are those of \<open>h\<close>.\<close>

lemma cover_row:
  assumes m: "matrix_ok root H R C V A h" and c: "c \<in> set C" "x \<in> set (V c)" and st: "static H h k"
  shows "for_nodes ring_fuel n_right x (\<lambda>j h. Some (cover_node j h)) (n_right k x) k = Some (fold cover_node (oth R x) k)"
    "for_nodes ring_fuel n_left x (\<lambda>j h. Some (uncover_node j h)) (n_left k x) k = Some (fold uncover_node (rev (oth R x)) k)"
proof -
  note o = oth_nodes [OF m c]
  have un: "n_left (fold uncover_node L h) = n_left h" for L h
    by (induction L arbitrary: h) (simp_all add: uncover_node_def Let_def)
  obtain rw where rw: "rw \<in> A" "x \<in> set rw" "row_ok H h rw" "oth R x = others x rw" using column_nodes [OF m c] by blast
  have k: "row_ok H k rw" using static_rows(1) [OF st] rw(3) by simp
  have r: "ring (n_right k) (n_left k) x (oth R x)" using row_others(1) [OF k rw(2)] rw(4) by simp
  show "for_nodes ring_fuel n_right x (\<lambda>j h. Some (cover_node j h)) (n_right k x) k = Some (fold cover_node (oth R x) k)"
    by (rule for_nodes_fold) (use r o in \<open>auto simp: cover_nodes_static ring_def\<close>)
  show "for_nodes ring_fuel n_left x (\<lambda>j h. Some (uncover_node j h)) (n_left k x) k = Some (fold uncover_node (rev (oth R x)) k)"
    by (rule for_nodes_fold) (use r o in \<open>auto simp: un ring_def\<close>)
qed

lemma removed_nodes:
  assumes m: "matrix_ok root H R C V A h" and c: "c \<in> set C" and V: "V c = as @ bs"
  shows "distinct (removed R as)"
    "\<And>j. j \<in> set (removed R as) \<Longrightarrow> n_col h j \<in> set C \<and> n_col h j \<noteq> c \<and> j \<in> set (V (n_col h j)) \<and> j \<notin> set (V c)"
proof -
  have "distinct (V c)" using matrix_okD(3) [OF m] c by (auto simp: vert_def ring_def)
  then show "distinct (removed R as)" unfolding removed_def by (intro removed_distinct [OF m c]) (auto simp: V)
  fix j assume "j \<in> set (removed R as)"
  then obtain x where x: "x \<in> set (V c)" "j \<in> set (oth R x)" by (auto simp: removed_def V)
  from oth_nodes(5) [OF m c x] matrix_okD(7) [OF m c]
  show "n_col h j \<in> set C \<and> n_col h j \<noteq> c \<and> j \<in> set (V (n_col h j)) \<and> j \<notin> set (V c)" by blast
qed

lemma cover_partial:
  assumes m: "matrix_ok root H R C V A h" and c: "c \<in> set C" and V: "V c = as @ bs" and k: "vert H C V k"
  shows "vert H C (\<lambda>d. filter (\<lambda>x. x \<notin> set (removed R as)) (V d)) (fold cover_node (removed R as) k)"
    "fold uncover_node (rev (removed R as)) (fold cover_node (removed R as) k) = k"
    "ring (n_down (fold cover_node (removed R as) k)) (n_up (fold cover_node (removed R as) k)) c (V c)"
proof -
  note n = removed_nodes [of root H R C V A h c as bs, OF m c V]
  have "\<exists>c\<in>set C. j \<in> set (V c)" if "j \<in> set (removed R as)" for j using n(2) [OF that] by blast
  note a = cover_nodes [OF k n(1) this]
  show v: "vert H C (\<lambda>d. filter (\<lambda>x. x \<notin> set (removed R as)) (V d)) (fold cover_node (removed R as) k)"
    and "fold uncover_node (rev (removed R as)) (fold cover_node (removed R as) k) = k" using a by blast+
  have "filter (\<lambda>x. x \<notin> set (removed R as)) (V c) = V c" using n(2) by (intro filter_True) blast
  then show "ring (n_down (fold cover_node (removed R as) k)) (n_up (fold cover_node (removed R as) k)) c (V c)"
    using v c by (auto simp: vert_def)
qed

lemma static_cover_nodes: "static H h k \<Longrightarrow> static H h (fold cover_node L k)"
  by (simp add: static_def cover_nodes_static)

lemma cover_loops:
  assumes m: "matrix_ok root H R C V A h" and c: "c \<in> set C" and k: "vert H C V k" and st: "static H h k"
  shows "for_nodes ring_fuel n_down c
      (\<lambda>row h. for_nodes ring_fuel n_right row (\<lambda>j h. Some (cover_node j h)) (n_right h row) h) (n_down k c) k =
      Some (fold cover_node (removed R (V c)) k)"
    and "for_nodes ring_fuel n_up c
      (\<lambda>row h. for_nodes ring_fuel n_left row (\<lambda>j h. Some (uncover_node j h)) (n_left h row) h)
      (n_up (fold cover_node (removed R (V c)) k) c) (fold cover_node (removed R (V c)) k) = Some k"
proof -
  let ?L = "removed R"
  have r: "ring (n_down k) (n_up k) c (V c)" using k c by (auto simp: vert_def)
  then have d: "distinct (V c)" "c \<notin> set (V c)" by (auto simp: ring_def)
  have "set (V c) \<subseteq> set (concat R)"
  proof
    fix x assume "x \<in> set (V c)"
    from column_nodes [OF m c this] show "x \<in> set (concat R)" by auto
  qed
  then have len: "length (V c) < ring_fuel"
    using short_list [OF d(1)] matrix_okD(9) [OF m] by (auto simp: ring_fuel_def le_imp_less_Suc)
  have "for_nodes ring_fuel n_down c
      (\<lambda>row h. for_nodes ring_fuel n_right row (\<lambda>j h. Some (cover_node j h)) (n_right h row) h) (n_down k c) k =
      Some (fold (\<lambda>x. fold cover_node (oth R x)) (V c) k)"
  proof (rule for_nodes_fold)
    fix as y bs assume V: "V c = as @ y # bs"
    have "static H h (fold (\<lambda>x. fold cover_node (oth R x)) as k)" using static_cover_nodes [OF st] by (simp add: fold_removed)
    from cover_row(1) [OF m c _ this, of y] V
    show "for_nodes ring_fuel n_right y (\<lambda>j h. Some (cover_node j h))
        (n_right (fold (\<lambda>x. fold cover_node (oth R x)) as k) y) (fold (\<lambda>x. fold cover_node (oth R x)) as k) =
        Some (fold cover_node (oth R y) (fold (\<lambda>x. fold cover_node (oth R x)) as k))" by simp
  next
    fix as bs assume V: "V c = as @ bs"
    from cover_partial(3) [OF m c V k]
    show "chain (n_down (fold (\<lambda>x. fold cover_node (oth R x)) as k)) c (V c) c" by (simp add: ring_def fold_removed)
  qed (use d len in simp_all)
  then show "for_nodes ring_fuel n_down c
      (\<lambda>row h. for_nodes ring_fuel n_right row (\<lambda>j h. Some (cover_node j h)) (n_right h row) h) (n_down k c) k =
      Some (fold cover_node (removed R (V c)) k)" by (simp add: fold_removed)
  let ?k = "fold cover_node (removed R (V c)) k" and ?g = "\<lambda>x. fold uncover_node (rev (oth R x))"
  have undo: "fold ?g as ?k = fold cover_node (?L (rev bs)) k" if "rev (V c) = as @ bs" for as bs
  proof -
    have V: "V c = rev bs @ rev as" using that by (metis rev_append rev_rev_ident)
    let ?m = "fold cover_node (?L (rev bs)) k"
    have "?k = fold cover_node (?L (rev as)) ?m" by (simp add: V removed_simps)
    moreover have "fold uncover_node (rev (?L (rev as))) (fold cover_node (?L (rev as)) ?m) = ?m"
    proof -
      have dL: "distinct (?L (V c))" using removed_nodes(1) [OF m c, of "V c" "[]"] by simp
      have dd: "distinct (?L (rev as))" "set (?L (rev as)) \<inter> set (?L (rev bs)) = {}" using dL by (auto simp: V removed_simps)
      have "\<exists>d\<in>set C. j \<in> set (filter (\<lambda>x. x \<notin> set (?L (rev bs))) (V d))" if j: "j \<in> set (?L (rev as))" for j
      proof -
        have "j \<in> set (?L (V c))" using j by (simp add: V removed_simps)
        then have "n_col h j \<in> set C \<and> j \<in> set (V (n_col h j))" using removed_nodes(2) [OF m c, of "V c" "[]"] by simp
        then show ?thesis using j dd(2) by (intro bexI [of _ "n_col h j"]) auto
      qed
      from cover_nodes [OF cover_partial(1) [OF m c V k] dd(1) this] show ?thesis by blast
    qed
    ultimately show ?thesis by (simp only: fold_removed_rev)
  qed
  have "for_nodes ring_fuel n_up c
      (\<lambda>row h. for_nodes ring_fuel n_left row (\<lambda>j h. Some (uncover_node j h)) (n_left h row) h) (n_up ?k c) ?k =
      Some (fold ?g (rev (V c)) ?k)"
  proof (rule for_nodes_fold)
    fix as y bs assume V: "rev (V c) = as @ y # bs"
    have "static H h (fold ?g as ?k)" using static_cover_nodes [OF st] by (simp add: undo [OF V])
    moreover have "y \<in> set (V c)" using V by (metis in_set_conv_decomp set_rev)
    ultimately show "for_nodes ring_fuel n_left y (\<lambda>j h. Some (uncover_node j h)) (n_left (fold ?g as ?k) y) (fold ?g as ?k) =
        Some (?g y (fold ?g as ?k))" using cover_row(2) [OF m c] by blast
  next
    fix as bs assume V: "rev (V c) = as @ bs"
    then have "V c = rev bs @ rev as" by (metis rev_append rev_rev_ident)
    from cover_partial(3) [OF m c this k]
    show "chain (n_up (fold ?g as ?k)) c (rev (V c)) c" by (simp add: undo [OF V] ring_def)
  qed (use d len in simp_all)
  then show "for_nodes ring_fuel n_up c
      (\<lambda>row h. for_nodes ring_fuel n_left row (\<lambda>j h. Some (uncover_node j h)) (n_left h row) h) (n_up ?k c) ?k = Some k"
    using undo [of "rev (V c)" "[]"] by (simp add: removed_simps)
qed

lemma unlink_static:
  assumes "n_left h c \<in> H" "n_right h c \<in> H"
  shows "static H h (unlink c h)"
  using assms by (auto simp: static_def unlink_def)

lemma cover_unlink:
  "cover c h = for_nodes ring_fuel n_down c
     (\<lambda>row h. for_nodes ring_fuel n_right row (\<lambda>j h. Some (cover_node j h)) (n_right h row) h) (n_down (unlink c h) c) (unlink c h)"
proof -
  have "((n_left h)(n_right h c := n_left h c)) c = n_left h c" by simp
  then show ?thesis by (simp add: cover_def unlink_def Let_def)
qed

lemma uncover_relink:
  "uncover c h = map_option (relink c) (for_nodes ring_fuel n_up c
     (\<lambda>row h. for_nodes ring_fuel n_left row (\<lambda>j h. Some (uncover_node j h)) (n_left h row) h) (n_up h c) h)"
proof -
  have "relink c = (\<lambda>h. let h = h\<lparr>n_left := (n_left h)(n_right h c := c)\<rparr> in h\<lparr>n_right := (n_right h)(n_left h c := c)\<rparr>)"
    by (rule ext) (rule relink_def)
  then show ?thesis by (simp only: uncover_def)
qed

text \<open>
  \<open>cover\<close> takes a column and its rows out of the matrix, leaves the ring of the column's own nodes, and is undone exactly
  by \<open>uncover\<close>.
\<close>

lemma cover_ok:
  assumes m: "matrix_ok root H R C V A h" and c: "c \<in> set C"
  shows "\<exists>h' V'. cover c h = Some h' \<and> uncover c h' = Some h \<and> static H h h' \<and>
    ring (n_down h') (n_up h') c (V c) \<and>
    matrix_ok root H R (remove1 c C) V' {rw \<in> A. c \<notin> n_col h ` set rw} h'"
proof -
  note M = matrix_okD [OF m]
  let ?k = "unlink c h" and ?L = "removed R (V c)"
  let ?h' = "fold cover_node ?L ?k" and ?V' = "\<lambda>d. filter (\<lambda>x. x \<notin> set ?L) (V d)" and ?A' = "{rw \<in> A. c \<notin> n_col h ` set rw}"
  obtain as bs where C: "C = as @ c # bs" using c by (auto simp: in_set_conv_decomp)
  have CH: "set C \<subseteq> H" using M(3) by (simp add: vert_def)
  have dC: "distinct (root # C)" using M(1) by (simp add: ring_def)
  then have rem: "remove1 c C = as @ bs" unfolding C by (auto simp: remove1_append)
  have nb: "n_right h c \<in> set (root # C)" "n_left h c \<in> set (root # C)" using ring_closed [OF M(1)] c by auto
  then have nH: "n_right h c \<in> H" "n_left h c \<in> H" using CH M(2) by auto
  have st: "static H h ?k" by (rule unlink_static [OF nH(2,1)])
  have v: "vert H C V ?k" using M(3) vert_cong [of ?k h H C V] by (simp add: unlink_def)
  have st': "static H h ?h'" by (rule static_cover_nodes [OF st])
  then have col: "n_col ?h' = n_col h" by (simp add: static_def)
  note split = ring_split [of "n_right h" "n_left h" root as c bs, folded C, OF M(1)]
  have "n_right h c \<noteq> c" using split(1) dC unfolding C by (cases bs) auto
  then have re: "relink c ?k = h" using split(3,4) by (intro relink_unlink)
  have "ring (n_right ?k) (n_left ?k) root (as @ bs)"
    using ring_unlink [of "n_right h" "n_left h" root as c bs] M(1) by (simp add: C unlink_def)
  then have ring': "ring (n_right ?h') (n_left ?h') root (remove1 c C)" by (simp add: cover_nodes_static rem)
  have part: "vert H C ?V' ?h'" "ring (n_down ?h') (n_up ?h') c (V c)"
    using cover_partial [OF m c _ v, of "V c" "[]"] by simp_all
  have sub: "set (remove1 c C) = set C - {c}" using dC by simp
  have act: "x \<in> set (?V' d) \<longleftrightarrow> n_col h x = d \<and> (\<exists>rw\<in>?A'. x \<in> set rw)" if d: "d \<in> set C" "d \<noteq> c" for d x
  proof
    assume x: "x \<in> set (?V' d)"
    then have "x \<in> set (V d)" "x \<notin> set ?L" by auto
    from column_nodes [OF m d(1) this(1)]
    obtain rw where rw: "rw \<in> A" "x \<in> set rw" "n_col h x = d" by blast
    have "c \<notin> n_col h ` set rw"
    proof
      assume "c \<in> n_col h ` set rw"
      then obtain y where y: "y \<in> set rw" "n_col h y = c" by auto
      then have yV: "y \<in> set (V c)" using M(7) [OF c] rw(1) by blast
      obtain rw' where rw': "row_of R y = rw'" "oth R y = others y rw'" "row_ok H h rw'" "y \<in> set rw'"
        using column_nodes [OF m c yV] by blast
      have "rw' = rw" using row_of_mem [OF M(11) _ y(1)] M(5) rw(1) rw'(1) by blast
      moreover have "x \<noteq> y" using rw(3) y(2) d(2) by auto
      ultimately have "x \<in> set (oth R y)" using row_others(2) [OF rw'(3,4)] rw'(2) rw(2) by auto
      then have "x \<in> set ?L" using yV by (auto simp: removed_def)
      with \<open>x \<notin> set ?L\<close> show False by simp
    qed
    with rw show "n_col h x = d \<and> (\<exists>rw\<in>?A'. x \<in> set rw)" by blast
  next
    assume x: "n_col h x = d \<and> (\<exists>rw\<in>?A'. x \<in> set rw)"
    then obtain rw where rw: "rw \<in> A" "c \<notin> n_col h ` set rw" "x \<in> set rw" by blast
    then have xV: "x \<in> set (V d)" using M(7) [OF d(1)] x by blast
    have "x \<notin> set ?L"
    proof
      assume "x \<in> set ?L"
      then obtain y where y: "y \<in> set (V c)" "x \<in> set (oth R y)" by (auto simp: removed_def)
      obtain rw' where rw': "row_of R y = rw'" "y \<in> set rw'" "n_col h y = c" using column_nodes [OF m c y(1)] by blast
      have "row_of R x = rw'" using oth_nodes(5) [OF m c y] rw'(1) by simp
      moreover have "row_of R x = rw" using row_of_mem [OF M(11) _ rw(3)] M(5) rw(1) by blast
      ultimately show False using rw(2) rw'(2,3) by auto
    qed
    with xV show "x \<in> set (?V' d)" by simp
  qed
  have "matrix_ok root H R (remove1 c C) ?V' ?A' ?h'"
    unfolding matrix_ok_def col
  proof (intro conjI ballI)
    show "vert H (remove1 c C) ?V' ?h'" using part(1) sub by (auto simp: vert_def)
    show "rows_ok H R ?h'" using static_rows(2) [OF st'] M(4) by simp
    show "?A' \<subseteq> set R" using M(5) by blast
    show "n_col h ` set rw \<subseteq> set (remove1 c C)" if "rw \<in> ?A'" for rw using that M(6) unfolding sub by blast
    show "set (?V' d) = {x. n_col h x = d \<and> (\<exists>rw\<in>?A'. x \<in> set rw)}" if "d \<in> set (remove1 c C)" for d
      using act [of d] that unfolding sub by blast
  qed (use ring' M in simp_all)
  moreover have "cover c h = Some ?h'" using cover_loops(1) [OF m c v st] by (simp add: cover_unlink)
  moreover have "uncover c ?h' = Some h" using cover_loops(2) [OF m c v st] by (simp add: uncover_relink re)
  ultimately show ?thesis using st' part(2) by blast
qed

end
