(* ===== verification/Sudoku_Search.thy ===== *)
theory Sudoku_Search
  imports Sudoku_Links
begin

text \<open>
  The search of \<open>solve\<close> decides exact cover: it returns true with the rows of an exact cover of the active columns on the
  stack, or false with every member of every node as it was, and then there is none.
\<close>

section \<open>Covering the columns of a row\<close>

text \<open>A loop over the nodes \<open>ys\<close> each of whose iterations leaves columns, names and row rings alone.\<close>

fun steps :: "(nat \<Rightarrow> nodes \<Rightarrow> nodes option) \<Rightarrow> nat set \<Rightarrow> nat list \<Rightarrow> nodes \<Rightarrow> nodes \<Rightarrow> bool" where
  "steps body H [] h h' \<longleftrightarrow> h' = h"
| "steps body H (y # ys) h h' \<longleftrightarrow> (\<exists>k. body y h = Some k \<and> static H h k \<and> steps body H ys k h')"

lemma steps_append: "steps body H (xs @ ys) h h' \<longleftrightarrow> (\<exists>k. steps body H xs h k \<and> steps body H ys k h')"
  by (induction xs arbitrary: h) auto

lemma steps_for_nodes:
  assumes "steps body H ys h h'" "chain (nxt h) x ys z" "z \<notin> set ys" "set (x # ys) \<inter> H = {}" "length ys < fuel"
    and "\<And>h k x. static H h k \<Longrightarrow> x \<notin> H \<Longrightarrow> nxt k x = nxt h x"
  shows "for_nodes fuel nxt z body (nxt h x) h = Some h'"
  using assms(1-5)
proof (induction ys arbitrary: x h fuel)
  case Nil
  then show ?case by (cases fuel) simp_all
next
  case (Cons y ys)
  obtain fl where fl: "fuel = Suc fl" using Cons.prems(5) by (cases fuel) auto
  obtain k where k: "body y h = Some k" "static H h k" "steps body H ys k h'" using Cons.prems(1) by auto
  have "chain (nxt k) y ys z = chain (nxt h) y ys z"
    by (rule chain_cong) (use assms(6) [OF k(2)] Cons.prems(4) in auto)
  then have "for_nodes fl nxt z body (nxt k y) k = Some h'"
    using Cons.IH [OF k(3), of y fl] Cons.prems fl by auto
  then show ?case using Cons.prems(2,3) k(1) fl by auto
qed

lemma cover_columns:
  assumes "matrix_ok root H R C V A h" "distinct (map (n_col h) js)" "n_col h ` set js \<subseteq> set C"
  shows "\<exists>h' V'. steps (\<lambda>j h. cover (n_col h j) h) H js h h' \<and> steps (\<lambda>j h. uncover (n_col h j) h) H (rev js) h' h \<and>
    static H h h' \<and>
    matrix_ok root H R (filter (\<lambda>d. d \<notin> n_col h ` set js) C) V' {rw \<in> A. n_col h ` set js \<inter> n_col h ` set rw = {}} h'"
  using assms
proof (induction js arbitrary: C V A h)
  case Nil
  then have "matrix_ok root H R C V A h" by simp
  then show ?case using static_refl by auto
next
  case (Cons j js)
  let ?c = "n_col h j"
  have c: "?c \<in> set C" using Cons.prems(3) by simp
  obtain k W where k: "cover ?c h = Some k" "uncover ?c k = Some h" "static H h k"
      "matrix_ok root H R (remove1 ?c C) W {rw \<in> A. ?c \<notin> n_col h ` set rw} k"
    using cover_ok [OF Cons.prems(1) c] by blast
  have col: "n_col k = n_col h" using k(3) by (simp add: static_def)
  have "distinct C" using matrix_okD(1) [OF Cons.prems(1)] by (simp add: ring_def)
  then have rem: "remove1 ?c C = filter (\<lambda>d. d \<noteq> ?c) C"
    by (simp add: distinct_remove1_removeAll removeAll_filter_not_eq) metis
  have "n_col k ` set js \<subseteq> set (remove1 ?c C)" using Cons.prems(2,3) unfolding rem col by auto (metis image_eqI)
  moreover have "distinct (map (n_col k) js)" using Cons.prems(2) by (simp add: col)
  ultimately obtain h' V' where IH: "steps (\<lambda>j h. cover (n_col h j) h) H js k h'"
      "steps (\<lambda>j h. uncover (n_col h j) h) H (rev js) h' k" "static H k h'"
      "matrix_ok root H R (filter (\<lambda>d. d \<notin> n_col k ` set js) (remove1 ?c C)) V'
         {rw \<in> {rw \<in> A. ?c \<notin> n_col h ` set rw}. n_col k ` set js \<inter> n_col k ` set rw = {}} h'"
    using Cons.IH [OF k(4)] by blast
  have "filter (\<lambda>d. d \<notin> n_col k ` set js) (remove1 ?c C) = filter (\<lambda>d. d \<notin> n_col h ` set (j # js)) C"
    unfolding rem col by (auto intro: filter_cong)
  moreover have "{rw \<in> {rw \<in> A. ?c \<notin> n_col h ` set rw}. n_col k ` set js \<inter> n_col k ` set rw = {}} =
      {rw \<in> A. n_col h ` set (j # js) \<inter> n_col h ` set rw = {}}"
    unfolding col by auto
  ultimately have "matrix_ok root H R (filter (\<lambda>d. d \<notin> n_col h ` set (j # js)) C) V'
      {rw \<in> A. n_col h ` set (j # js) \<inter> n_col h ` set rw = {}} h'"
    using IH(4) by simp
  moreover have "steps (\<lambda>j h. cover (n_col h j) h) H (j # js) h h'" using k(1,3) IH(1) by auto
  moreover have "steps (\<lambda>j h. uncover (n_col h j) h) H (rev (j # js)) h' h"
    using IH(2) k(2) static_sym [OF k(3)] by (auto simp: steps_append col)
  ultimately show ?case using static_trans [OF k(3) IH(3)] by blast
qed

section \<open>The choice of the column\<close>

lemma min_column_loop_ok:
  assumes "ring (n_right h) g root C" "C = as @ bs" "length bs < fuel" "c \<in> set C" "\<forall>d\<in>set as. n_size h c \<le> n_size h d"
  shows "\<exists>c'\<in>set C. min_column_loop fuel root h (hd (bs @ [root])) c (n_size h c) = Some c' \<and>
    (n_size h c' \<le> 1 \<or> (\<forall>d\<in>set C. n_size h c' \<le> n_size h d))"
  using assms
proof (induction bs arbitrary: as fuel c)
  case Nil
  then show ?case by (cases fuel) auto
next
  case (Cons b bs)
  obtain fl where fl: "fuel = Suc fl" using Cons.prems(3) by (cases fuel) auto
  have nxt: "n_right h b = hd (bs @ [root])" using ring_split(1) [of "n_right h" g root as b bs] Cons.prems(1,2) by simp
  have b: "b \<noteq> root" "b \<in> set C" using Cons.prems(1,2) by (auto simp: ring_def)
  have split: "C = (as @ [b]) @ bs" using Cons.prems(2) by simp
  show ?case
  proof (cases "n_size h c > n_size h b")
    case True
    show ?thesis
    proof (cases "n_size h b \<le> 1")
      case True
      then show ?thesis using b \<open>n_size h c > n_size h b\<close> by (auto simp: fl)
    next
      case False
      have "\<forall>d\<in>set (as @ [b]). n_size h b \<le> n_size h d" using Cons.prems(5) True by auto
      from Cons.IH [OF Cons.prems(1) split _ b(2) this, of fl] Cons.prems(3) fl True False b(1) nxt show ?thesis by simp
    qed
  next
    case False
    then have "\<forall>d\<in>set (as @ [b]). n_size h c \<le> n_size h d" using Cons.prems(5) by auto
    from Cons.IH [OF Cons.prems(1) split _ Cons.prems(4) this, of fl] Cons.prems(3) fl False b(1) nxt show ?thesis by simp
  qed
qed

text \<open>The column chosen is active, and none has fewer nodes unless it has at most one.\<close>

lemma get_min_column_ok:
  assumes m: "matrix_ok root H R C V A h" and C: "C \<noteq> []"
  shows "\<exists>c\<in>set C. get_min_column root h = Some c \<and> (n_size h c \<le> 1 \<or> (\<forall>d\<in>set C. n_size h c \<le> n_size h d))"
proof -
  note M = matrix_okD [OF m]
  obtain c bs where Cc: "C = c # bs" using C by (cases C) auto
  have first: "n_right h root = c" using M(1) by (simp add: ring_def Cc)
  have second: "n_right h c = hd (bs @ [root])" using ring_split(1) [of _ _ root "[]" c bs] M(1) Cc by simp
  have "distinct C" "set C \<subseteq> H" using M(1,3) by (auto simp: ring_def vert_def)
  then have "length C \<le> kMaxNodes" using short_list M(8) by blast
  then have "length bs < ring_fuel" by (simp add: Cc ring_fuel_def)
  from min_column_loop_ok [OF M(1) _ this, of "[c]" c] Cc
  show ?thesis by (auto simp: get_min_column_def Let_def first second)
qed

section \<open>Exact cover\<close>

text \<open>The rows \<open>S\<close> out of \<open>A\<close> meet every column of \<open>C\<close> exactly once.\<close>

definition exact :: "(nat \<Rightarrow> nat) \<Rightarrow> nat set \<Rightarrow> nat list set \<Rightarrow> nat list set \<Rightarrow> bool" where
  "exact col C A S \<longleftrightarrow> S \<subseteq> A \<and> (\<forall>c\<in>C. \<exists>!rw. rw \<in> S \<and> c \<in> col ` set rw)"

text \<open>The columns and the rows that are left when the row \<open>rw\<close> is chosen.\<close>

lemma exact_take:
  assumes e: "exact col C A S" and A: "\<And>rw. rw \<in> A \<Longrightarrow> col ` set rw \<subseteq> C" and c: "c \<in> C"
  shows "\<exists>rw\<in>A. c \<in> col ` set rw \<and> (\<exists>S'. exact col (C - col ` set rw) {r \<in> A. col ` set rw \<inter> col ` set r = {}} S')"
proof -
  have S: "S \<subseteq> A" using e by (simp add: exact_def)
  have one: "r = r'" if "r \<in> S" "r' \<in> S" "d \<in> col ` set r" "d \<in> col ` set r'" for r r' d
  proof -
    have "d \<in> C" using that(1,3) A S by blast
    then have "\<exists>!rw. rw \<in> S \<and> d \<in> col ` set rw" using e by (simp add: exact_def)
    with that show ?thesis by blast
  qed
  obtain rw where rw: "rw \<in> S" "c \<in> col ` set rw" using e c by (auto simp: exact_def)
  have "exact col (C - col ` set rw) {r \<in> A. col ` set rw \<inter> col ` set r = {}} (S - {rw})"
    unfolding exact_def
  proof (intro conjI ballI)
    show "S - {rw} \<subseteq> {r \<in> A. col ` set rw \<inter> col ` set r = {}}" using one rw(1) S by blast
    fix d assume d: "d \<in> C - col ` set rw"
    then have "\<exists>!r. r \<in> S \<and> d \<in> col ` set r" using e by (simp add: exact_def)
    then show "\<exists>!r. r \<in> S - {rw} \<and> d \<in> col ` set r" using d by blast
  qed
  then show ?thesis using rw S by blast
qed

lemma exact_put:
  assumes e: "exact col (C - col ` set rw) {r \<in> A. col ` set rw \<inter> col ` set r = {}} S" and rw: "rw \<in> A"
  shows "exact col C A (insert rw S)"
  unfolding exact_def
proof (intro conjI ballI)
  have S: "S \<subseteq> {r \<in> A. col ` set rw \<inter> col ` set r = {}}" using e by (simp add: exact_def)
  then show "insert rw S \<subseteq> A" using rw by blast
  fix d assume "d \<in> C"
  show "\<exists>!r. r \<in> insert rw S \<and> d \<in> col ` set r"
  proof (cases "d \<in> col ` set rw")
    case True
    then have "r = rw" if "r \<in> insert rw S" "d \<in> col ` set r" for r using S that by blast
    with True show ?thesis by (intro ex1I [of _ rw]) blast+
  next
    case False
    then have "\<exists>!r. r \<in> S \<and> d \<in> col ` set r" using e \<open>d \<in> C\<close> by (simp add: exact_def)
    then show ?thesis using False by blast
  qed
qed

section \<open>Reading the rows on the stack\<close>

lemma row_cell_val_static:
  assumes st: "static H h k" and rw: "row_ok H h rw"
  shows "n \<in> set rw \<Longrightarrow> row_cell_val fuel k n cell val = row_cell_val fuel h n cell val"
proof (induction fuel arbitrary: n cell val)
  case (Suc fuel)
  have r: "ring (n_right h) (n_left h) (hd rw) (tl rw)" "rw \<noteq> []" "n \<notin> H" using rw Suc.prems by (auto simp: row_ok_def)
  then have "n_right h n \<in> set rw" using ring_closed [OF r(1), of n] Suc.prems by (cases rw) auto
  moreover have "n_right k n = n_right h n" "n_name k = n_name h" using st r(3) by (auto simp: static_def)
  ultimately show ?case using Suc.IH by simp
qed simp

lemma write_solution_static:
  assumes st: "static H h k" and R: "rows_ok H R h"
  shows "set ns \<subseteq> set (concat R) \<Longrightarrow> write_solution k ns io = write_solution h ns io"
proof (induction ns arbitrary: io)
  case (Cons n ns)
  obtain rw where "rw \<in> set R" "n \<in> set rw" using Cons.prems by auto
  then have "row_cell_val ring_fuel k n (-1) (-1) = row_cell_val ring_fuel h n (-1) (-1)"
    using row_cell_val_static [OF st] R by (auto simp: rows_ok_def)
  then show ?case using Cons by (auto split: option.split)
qed simp

definition readable :: "nat list list \<Rightarrow> nodes \<Rightarrow> bool" where
  "readable R h \<longleftrightarrow> (\<forall>x\<in>set (concat R). row_cell_val ring_fuel h x (-1) (-1) \<noteq> None)"

lemma readable_static:
  assumes st: "static H h k" and R: "rows_ok H R h" and r: "readable R h"
  shows "readable R k"
  unfolding readable_def
proof
  fix x assume x: "x \<in> set (concat R)"
  then obtain rw where "rw \<in> set R" "x \<in> set rw" by auto
  then have "row_cell_val ring_fuel k x (-1) (-1) = row_cell_val ring_fuel h x (-1) (-1)"
    using row_cell_val_static [OF st] R by (auto simp: rows_ok_def)
  then show "row_cell_val ring_fuel k x (-1) (-1) \<noteq> None" using r x by (auto simp: readable_def)
qed

lemma readable_write: "readable R h \<Longrightarrow> set ns \<subseteq> set (concat R) \<Longrightarrow> \<exists>io'. write_solution h ns io = Some io'"
proof (induction ns arbitrary: io)
  case (Cons n ns)
  then have "row_cell_val ring_fuel h n (-1) (-1) \<noteq> None" unfolding readable_def by (meson list.set_intros(1) subsetD)
  then show ?case using Cons by auto
qed simp

section \<open>The search\<close>

text \<open>
  What \<open>solve\<close> promises of a state \<open>s\<close> with the active columns \<open>C\<close> and rows \<open>A\<close>: the rows of an exact cover behind those of the
  stack, written to \<open>inout\<close>; or the state as it was, and no exact cover.
\<close>

definition decides :: "nat list list \<Rightarrow> solver \<Rightarrow> nat list \<Rightarrow> nat list set \<Rightarrow> (bool \<times> solver) option \<Rightarrow> bool" where
  "decides R s C A r \<longleftrightarrow>
     (\<exists>xs s'. r = Some (True, s') \<and> set xs \<subseteq> set (concat R) \<and> exact (n_col (sv_nodes s)) (set C) A (row_of R ` set xs) \<and>
        write_solution (sv_nodes s) (sv_stack s @ xs) (sv_inout s) = Some (sv_inout s')) \<or>
     (r = Some (False, s) \<and> \<not> (\<exists>S. exact (n_col (sv_nodes s)) (set C) A S))"

definition ready :: "nat set \<Rightarrow> nat list list \<Rightarrow> nat list \<Rightarrow> (nat \<Rightarrow> nat list) \<Rightarrow> nat list set \<Rightarrow> solver \<Rightarrow> bool" where
  "ready H R C V A s \<longleftrightarrow> matrix_ok (sv_root s) H R C V A (sv_nodes s) \<and> readable R (sv_nodes s) \<and> set (sv_stack s) \<subseteq> set (concat R)"

text \<open>The columns and rows left by the row of the node \<open>x\<close>.\<close>

definition rest_columns :: "nat list list \<Rightarrow> nodes \<Rightarrow> nat list \<Rightarrow> nat \<Rightarrow> nat set" where
  "rest_columns R h C x = set C - n_col h ` set (row_of R x)"

definition rest_rows :: "nat list list \<Rightarrow> nodes \<Rightarrow> nat list set \<Rightarrow> nat \<Rightarrow> nat list set" where
  "rest_rows R h A x = {r \<in> A. n_col h ` set (row_of R x) \<inter> n_col h ` set r = {}}"

text \<open>Choosing the row of \<open>x\<close> once its column is covered, and taking the choice back.\<close>

lemma choose_row:
  assumes m: "matrix_ok root H R C V A h" and c: "c \<in> set C" "x \<in> set (V c)" and st: "static H h k"
    and mk: "matrix_ok root H R (remove1 c C) W {rw \<in> A. c \<notin> n_col h ` set rw} k"
  shows "\<exists>k' C' V'. for_nodes ring_fuel n_right x (\<lambda>j h. cover (n_col h j) h) (n_right k x) k = Some k' \<and>
    for_nodes ring_fuel n_left x (\<lambda>j h. uncover (n_col h j) h) (n_left k' x) k' = Some k \<and> static H h k' \<and>
    matrix_ok root H R C' V' (rest_rows R h A x) k' \<and> set C' = rest_columns R h C x \<and> length C' < length C"
proof -
  obtain rw where rw: "rw \<in> A" "x \<in> set rw" "row_of R x = rw" "oth R x = others x rw" "row_ok H h rw" "n_col h x = c"
    using column_nodes [OF m c] by blast
  note o = oth_nodes [OF m c] and ro = row_others [OF rw(5,2)]
  have col: "n_col k = n_col h" using st by (simp add: static_def)
  have "inj_on (n_col h) (set (oth R x))"
    by (rule inj_on_subset [of _ "set rw"]) (use rw(4,5) ro(2) in \<open>auto simp: row_ok_def\<close>)
  then have dj: "distinct (map (n_col k) (oth R x))" using o(1) by (simp add: distinct_map col)
  have dC: "distinct C" using matrix_okD(1) [OF m] by (simp add: ring_def)
  then have sub: "n_col k ` set (oth R x) \<subseteq> set (remove1 c C)" using o(5) by (auto simp: col)
  let ?C = "filter (\<lambda>d. d \<notin> n_col k ` set (oth R x)) (remove1 c C)"
  obtain k' V' where k': "steps (\<lambda>j h. cover (n_col h j) h) H (oth R x) k k'"
      "steps (\<lambda>j h. uncover (n_col h j) h) H (rev (oth R x)) k' k" "static H k k'"
      "matrix_ok root H R ?C V' {r \<in> {rw \<in> A. c \<notin> n_col h ` set rw}. n_col k ` set (oth R x) \<inter> n_col k ` set r = {}} k'"
    using cover_columns [OF mk dj sub] by blast
  have cols: "n_col h ` set rw = insert c (n_col h ` set (oth R x))" using ro(2) rw(4,6) by auto
  have "{r \<in> {rw \<in> A. c \<notin> n_col h ` set rw}. n_col k ` set (oth R x) \<inter> n_col k ` set r = {}} = rest_rows R h A x"
    by (auto simp: rest_rows_def rw(3) cols col)
  then have mk': "matrix_ok root H R ?C V' (rest_rows R h A x) k'" using k'(4) by simp
  have set_C: "set ?C = rest_columns R h C x" using dC by (auto simp: rest_columns_def rw(3) cols col)
  have "length ?C \<le> length (remove1 c C)" by (rule length_filter_le)
  also have "\<dots> = length C - 1" using c(1) by (simp add: length_remove1)
  also have "\<dots> < length C" using length_pos_if_in_set [OF c(1)] by (simp only: diff_less zero_less_one)
  finally have len: "length ?C < length C" .
  have st': "static H h k'" by (rule static_trans [OF st k'(3)])
  have H: "set (x # oth R x) \<inter> H = {}" using ro(2) rw(2,4,5) by (auto simp: row_ok_def)
  have rings: "chain (n_right k) x (oth R x) x" "chain (n_left k') x (rev (oth R x)) x"
    using row_others(1) [of H k rw x] row_others(1) [of H k' rw x] static_rows(1) [OF st] static_rows(1) [OF st'] rw(2,4,5)
    by (simp_all add: ring_def)
  have "for_nodes ring_fuel n_right x (\<lambda>j h. cover (n_col h j) h) (n_right k x) k = Some k'"
    by (rule steps_for_nodes [where nxt = n_right, OF k'(1) rings(1) o(2) H o(3)]) (simp add: static_def)
  moreover have "for_nodes ring_fuel n_left x (\<lambda>j h. uncover (n_col h j) h) (n_left k' x) k' = Some k"
    by (rule steps_for_nodes [where nxt = n_left, OF k'(2) rings(2)]) (use o(2,3) H in \<open>auto simp: static_def\<close>)
  ultimately show ?thesis using mk' set_C len st' by blast
qed

text \<open>The loop over the rows of the column \<open>c\<close>, the rows \<open>as\<close> of which have failed.\<close>

lemma try_rows_ok:
  assumes m: "ready H R C V A s" and c: "c \<in> set C" and st: "static H (sv_nodes s) k" "uncover c k = Some (sv_nodes s)"
    and mk: "matrix_ok (sv_root s) H R (remove1 c C) W {rw \<in> A. c \<notin> n_col (sv_nodes s) ` set rw} k"
    and ring: "ring (n_down k) (n_up k) c (V c)"
    and rec: "\<And>s C' V A. ready H R C' V A s \<Longrightarrow> length C' < length C \<Longrightarrow> decides R s C' A (rec s)"
  shows "V c = as @ bs \<Longrightarrow> length bs < fuel \<Longrightarrow>
    \<forall>x\<in>set as. \<not> (\<exists>S. exact (n_col (sv_nodes s)) (rest_columns R (sv_nodes s) C x) (rest_rows R (sv_nodes s) A x) S) \<Longrightarrow>
    decides R s C A (try_rows rec fuel c (hd (bs @ [c])) (s\<lparr>sv_nodes := k\<rparr>))"
proof (induction bs arbitrary: as fuel)
  have mm: "matrix_ok (sv_root s) H R C V A (sv_nodes s)" and rd: "readable R (sv_nodes s)" and stk: "set (sv_stack s) \<subseteq> set (concat R)"
    using m by (simp_all add: ready_def)
  note M = matrix_okD [OF mm]
  {
    case Nil
    obtain fl where fl: "fuel = Suc fl" using Nil(2) by (cases fuel) auto
    have "\<not> (\<exists>S. exact (n_col (sv_nodes s)) (set C) A S)"
    proof
      assume "\<exists>S. exact (n_col (sv_nodes s)) (set C) A S"
      then obtain S where S: "exact (n_col (sv_nodes s)) (set C) A S" ..
      have sub: "n_col (sv_nodes s) ` set rw \<subseteq> set C" if "rw \<in> A" for rw using M(6) that by blast
      obtain rw S' where rw: "rw \<in> A" "c \<in> n_col (sv_nodes s) ` set rw"
          "exact (n_col (sv_nodes s)) (set C - n_col (sv_nodes s) ` set rw)
             {r \<in> A. n_col (sv_nodes s) ` set rw \<inter> n_col (sv_nodes s) ` set r = {}} S'"
        using exact_take [OF S sub c] by blast
      obtain x where x: "x \<in> set rw" "n_col (sv_nodes s) x = c" using rw(2) by auto
      then have "x \<in> set (V c)" using M(7) [OF c] rw(1) by blast
      moreover have "row_of R x = rw" using row_of_mem [OF M(11) _ x(1)] M(5) rw(1) by blast
      ultimately show False using Nil(1,3) rw(3) by (auto simp: rest_columns_def rest_rows_def)
    qed
    then show ?case using st(2) by (simp add: fl decides_def)
  next
    case (Cons x bs)
    let ?h = "sv_nodes s"
    obtain fl where fl: "fuel = Suc fl" using Cons.prems(2) by (cases fuel) auto
    have x: "x \<in> set (V c)" using Cons.prems(1) by simp
    have xc: "x \<noteq> c" using ring x by (auto simp: ring_def)
    obtain rw where rw: "rw \<in> A" "x \<in> set rw" "row_of R x = rw" using column_nodes [OF mm c x] by blast
    have xR: "x \<in> set (concat R)" using rw(1,2) M(5) by auto
    obtain k' C' V' where k': "for_nodes ring_fuel n_right x (\<lambda>j h. cover (n_col h j) h) (n_right k x) k = Some k'"
        "for_nodes ring_fuel n_left x (\<lambda>j h. uncover (n_col h j) h) (n_left k' x) k' = Some k" "static H ?h k'"
        "matrix_ok (sv_root s) H R C' V' (rest_rows R ?h A x) k'" "set C' = rest_columns R ?h C x" "length C' < length C"
      using choose_row [OF mm c x st(1) mk] by blast
    define s1 where "s1 = s\<lparr>sv_stack := sv_stack s @ [x], sv_nodes := k'\<rparr>"
    have s1: "sv_root s1 = sv_root s" "sv_nodes s1 = k'" "sv_stack s1 = sv_stack s @ [x]" "sv_inout s1 = sv_inout s"
      by (simp_all add: s1_def)
    have col: "n_col k' = n_col ?h" using k'(3) by (simp add: static_def)
    have "ready H R C' V' (rest_rows R ?h A x) s1"
      using k'(4) readable_static [OF k'(3) M(4) rd] stk xR by (simp add: ready_def s1)
    from rec [OF this k'(6)] have d: "decides R s1 C' (rest_rows R ?h A x) (rec s1)" .
    have loop: "try_rows rec fuel c (hd ((x # bs) @ [c])) (s\<lparr>sv_nodes := k\<rparr>) =
        (case rec s1 of None \<Rightarrow> None | Some (True, s) \<Rightarrow> Some (True, s)
         | Some (False, s) \<Rightarrow>
            (let s = s\<lparr>sv_stack := butlast (sv_stack s)\<rparr> in
             case for_nodes ring_fuel n_left x (\<lambda>j h. uncover (n_col h j) h) (n_left (sv_nodes s) x) (sv_nodes s) of
               None \<Rightarrow> None
             | Some h \<Rightarrow> try_rows rec fl c (n_down h x) (s\<lparr>sv_nodes := h\<rparr>)))"
      using k'(1) xc by (simp add: fl s1_def)
    show ?case
    proof (cases "\<exists>s'. rec s1 = Some (True, s')")
      case True
      then obtain xs s' where xs: "rec s1 = Some (True, s')" "set xs \<subseteq> set (concat R)"
          "exact (n_col k') (set C') (rest_rows R ?h A x) (row_of R ` set xs)"
          "write_solution k' ((sv_stack s @ [x]) @ xs) (sv_inout s) = Some (sv_inout s')"
        using d unfolding decides_def s1 by auto
      have "exact (n_col ?h) (set C) A (insert rw (row_of R ` set xs))"
        using xs(3) exact_put [OF _ rw(1)] unfolding k'(5) rest_columns_def rest_rows_def rw(3) col by blast
      then have "exact (n_col ?h) (set C) A (row_of R ` set (x # xs))" by (simp add: rw(3))
      moreover have "write_solution ?h (sv_stack s @ x # xs) (sv_inout s) = Some (sv_inout s')"
        using xs(2,4) write_solution_static [OF k'(3) M(4), of "sv_stack s @ x # xs"] stk xR by simp
      moreover have "try_rows rec fuel c (hd ((x # bs) @ [c])) (s\<lparr>sv_nodes := k\<rparr>) = Some (True, s')"
        unfolding loop xs(1) by simp
      moreover have "set (x # xs) \<subseteq> set (concat R)" using xR xs(2) by simp
      ultimately show ?thesis unfolding decides_def by blast
    next
      case False
      then have no: "rec s1 = Some (False, s1)" "\<not> (\<exists>S. exact (n_col ?h) (rest_columns R ?h C x) (rest_rows R ?h A x) S)"
        using d unfolding decides_def s1 col k'(5) by auto
      have "s1\<lparr>sv_stack := butlast (sv_stack s1), sv_nodes := k\<rparr> = s\<lparr>sv_nodes := k\<rparr>" by (simp add: s1_def)
      moreover have "n_down k x = hd (bs @ [c])"
        by (rule ring_split(1) [of _ "n_up k" c as x bs]) (use ring Cons.prems(1) in simp)
      ultimately have "try_rows rec fuel c (hd ((x # bs) @ [c])) (s\<lparr>sv_nodes := k\<rparr>) =
          try_rows rec fl c (hd (bs @ [c])) (s\<lparr>sv_nodes := k\<rparr>)"
        unfolding loop no(1) using k'(2) by (simp add: s1(2))
      moreover have "decides R s C A (try_rows rec fl c (hd (bs @ [c])) (s\<lparr>sv_nodes := k\<rparr>))"
        by (rule Cons.IH [of "as @ [x]"]) (use Cons.prems no(2) fl in auto)
      ultimately show ?thesis by simp
    qed
  }
qed

lemma solve_ok: "ready H R C V A s \<Longrightarrow> length C < depth \<Longrightarrow> decides R s C A (solve depth s)"
proof (induction depth arbitrary: s C V A)
  case (Suc depth)
  let ?h = "sv_nodes s" and ?root = "sv_root s"
  have m: "matrix_ok ?root H R C V A ?h" and rd: "readable R ?h" and stk: "set (sv_stack s) \<subseteq> set (concat R)"
    using Suc.prems(1) by (simp_all add: ready_def)
  note M = matrix_okD [OF m]
  have last: "n_left ?h ?root = last (?root # C)"
    using chain_first [of "n_left ?h" ?root "rev C" ?root] M(1) by (cases C rule: rev_cases) (auto simp: ring_def)
  show ?case
  proof (cases "C = []")
    case True
    obtain io where io: "write_solution ?h (sv_stack s) (sv_inout s) = Some io" using readable_write [OF rd stk] by blast
    then have "solve (Suc depth) s = Some (True, s\<lparr>sv_inout := io\<rparr>)" using last True by simp
    moreover have "exact (n_col ?h) (set C) A (row_of R ` set [])" using True by (simp add: exact_def)
    ultimately show ?thesis unfolding decides_def using io
      by (intro disjI1 exI [of _ "[]"] exI [of _ "s\<lparr>sv_inout := io\<rparr>"]) simp
  next
    case False
    have "?root \<notin> set C" using M(1) by (simp add: ring_def)
    then have "last (?root # C) \<noteq> ?root" using False last_in_set [OF False] by (metis last_ConsR)
    moreover obtain c where c: "c \<in> set C" "get_min_column ?root ?h = Some c" using get_min_column_ok [OF m False] by blast
    moreover obtain k W where k: "cover c ?h = Some k" "uncover c k = Some ?h" "static H ?h k" "ring (n_down k) (n_up k) c (V c)"
        "matrix_ok ?root H R (remove1 c C) W {rw \<in> A. c \<notin> n_col ?h ` set rw} k"
      using cover_ok [OF m c(1)] by blast
    ultimately have run: "solve (Suc depth) s = try_rows (solve depth) ring_fuel c (hd (V c @ [c])) (s\<lparr>sv_nodes := k\<rparr>)"
      using last chain_first [of "n_down k" c "V c" c] by (simp add: ring_def)
    have "set (V c) \<subseteq> set (concat R)" using column_nodes [OF m c(1)] by fastforce
    then have "length (V c) \<le> kMaxNodes" using short_list [of "V c"] k(4) M(9) by (auto simp: ring_def)
    then have fuel: "length (V c) < ring_fuel" by (simp add: ring_fuel_def)
    have rec: "decides R t C' B (solve depth t)" if "ready H R C' U B t" "length C' < length C" for t C' U B
      by (rule Suc.IH [OF that(1)]) (use that(2) Suc.prems(2) in simp)
    show ?thesis unfolding run
      by (rule try_rows_ok [OF Suc.prems(1) c(1) k(3,2,5,4) rec, where as = "[]"]) (use fuel in simp_all)
  qed
qed simp

end
