(* ===== verification/Sudoku_Build.thy ===== *)
theory Sudoku_Build
  imports Sudoku_Search
begin

text \<open>
  The constructor of the solver: no assertion of it fails on a board of 81 digits, and what it builds is the matrix whose
  columns are the open constraints and whose rows are the values the givens leave to the empty cells.
\<close>

section \<open>A new node\<close>

lemma put_up_init_fields:
  assumes "c \<noteq> r"
  shows "n_up (put_up c r (init_node r c nm h)) = (n_up h)(r := n_up h c, c := r)"
    "n_down (put_up c r (init_node r c nm h)) = (n_down h)(r := c, n_up h c := r)"
    "n_left (put_up c r (init_node r c nm h)) = (n_left h)(r := r)"
    "n_right (put_up c r (init_node r c nm h)) = (n_right h)(r := r)"
    "n_col (put_up c r (init_node r c nm h)) = (n_col h)(r := c)"
    "n_name (put_up c r (init_node r c nm h)) = (n_name h)(r := nm)"
    "n_size (put_up c r (init_node r c nm h)) = (n_size h)(r := 0, c := n_size h c + 1)"
  using assms by (auto simp: put_up_def init_node_def Let_def fun_eq_iff)

lemma put_left_fields:
  assumes "old \<noteq> r"
  shows "n_left (put_left old r h) = (n_left h)(r := n_left h old, old := r)"
    "n_right (put_left old r h) = (n_right h)(r := old, n_left h old := r)"
    "n_up (put_left old r h) = n_up h" "n_down (put_left old r h) = n_down h" "n_col (put_left old r h) = n_col h"
    "n_name (put_left old r h) = n_name h" "n_size (put_left old r h) = n_size h"
  using assms by (auto simp: put_left_def Let_def fun_eq_iff)

text \<open>A fresh node at the bottom of a column.\<close>

lemma new_node_vert:
  assumes v: "vert H C V h" and c: "c \<in> set C" and r: "r \<notin> H" "\<And>d. d \<in> set C \<Longrightarrow> r \<notin> set (V d)"
  shows "vert H C (V(c := V c @ [r])) (put_up c r (init_node r c nm h))"
proof -
  let ?h = "put_up c r (init_node r c nm h)"
  have C: "set C \<subseteq> H" using v by (simp add: vert_def)
  then have cr: "c \<noteq> r" using c r(1) by auto
  note f = put_up_init_fields [OF cr, where h = h and nm = nm]
  have ring: "ring (n_down h) (n_up h) c (V c)" using v c by (simp add: vert_def)
  have up: "n_up h c \<in> set (c # V c)" using ring_closed [OF ring, of c] by simp
  have here: "ring (n_down ?h) (n_up ?h) c (V c @ [r])"
    unfolding f using ring_append [OF ring, of r] cr r(2) [OF c] by simp
  have there: "ring (n_down ?h) (n_up ?h) d (V d)" if d: "d \<in> set C" "d \<noteq> c" for d
  proof -
    have "n_down ?h y = n_down h y \<and> n_up ?h y = n_up h y" if y: "y \<in> set (d # V d)" for y
    proof -
      have "y \<notin> set (c # V c)" using vert_disjoint [OF v c d(1)] d(2) y by blast
      moreover have "y \<noteq> r" using y C d(1) r by auto
      ultimately show ?thesis using up unfolding f by auto
    qed
    then show ?thesis using ring_cong [of d "V d" "n_down ?h" "n_down h" "n_up ?h" "n_up h"] v d(1) by (auto simp: vert_def)
  qed
  show ?thesis
    unfolding vert_def
  proof (intro conjI ballI)
    fix d assume d: "d \<in> set C"
    have old: "\<forall>x\<in>set (V d). n_col h x = d \<and> x \<notin> H" "n_size h d = int (length (V d))" using v d by (simp_all add: vert_def)
    show "ring (n_down ?h) (n_up ?h) d ((V(c := V c @ [r])) d)" using here there d by auto
    show "n_size ?h d = int (length ((V(c := V c @ [r])) d))" using old d r(1) C unfolding f by auto
    fix x assume "x \<in> set ((V(c := V c @ [r])) d)"
    then show "n_col ?h x = d" "x \<notin> H" using old r d unfolding f by (auto split: if_splits)
  qed (rule C)
qed

text \<open>A fresh node at the end of a row.\<close>

lemma put_left_ring:
  assumes "ring (n_right h) (n_left h) c ys" "y \<notin> set (c # ys)"
  shows "ring (n_right (put_left c y h)) (n_left (put_left c y h)) c (ys @ [y])"
proof -
  have "c \<noteq> y" using assms(2) by auto
  from ring_append [OF assms] show ?thesis by (simp add: put_left_fields [OF \<open>c \<noteq> y\<close>])
qed

section \<open>What has been built\<close>

text \<open>The names of the columns that the row of a cell and a value meets.\<close>

definition row_names :: "nat \<times> nat \<Rightarrow> nat list" where
  "row_names p = [fst p, get_row_col (cell_row (fst p)) (snd p), get_col_col (cell_col (fst p)) (snd p),
     get_box_col (cell_box (fst p)) (snd p)]"

text \<open>
  The matrix with the columns \<open>C\<close>, named \<open>N\<close>, and the rows \<open>R\<close>, which stand for the pairs of a cell and a value that \<open>pr\<close> reads
  off them, the list \<open>P\<close>.
\<close>

definition built :: "nat list \<Rightarrow> (nat \<times> nat) list \<Rightarrow> nat list \<Rightarrow> nat list list \<Rightarrow> (nat list \<Rightarrow> nat \<times> nat) \<Rightarrow> solver \<Rightarrow> bool" where
  "built N P C R pr s \<longleftrightarrow> sv_root s = 0 \<and>
     (\<exists>V. matrix_ok 0 (insert 0 (set C)) R C V (set R) (sv_nodes s)) \<and>
     insert 0 (set C) \<union> set (concat R) = {..<sv_cur_node s} \<and> sv_cur_node s = 1 + length N + 4 * length P \<and>
     length C = length N \<and> distinct N \<and> sv_columns s = map_of (zip N C) \<and>
     distinct P \<and> map pr R = P \<and>
     (\<forall>rw\<in>set R. map (n_name (sv_nodes s)) rw = map int (row_names (pr rw)) \<and>
        map (n_col (sv_nodes s)) rw = map (the \<circ> sv_columns s) (row_names (pr rw)) \<and>
        set (row_names (pr rw)) \<subseteq> set N)"

lemma builtD:
  assumes "built N P C R pr s"
  shows "sv_root s = 0" "\<exists>V. matrix_ok 0 (insert 0 (set C)) R C V (set R) (sv_nodes s)"
    "insert 0 (set C) \<union> set (concat R) = {..<sv_cur_node s}" "sv_cur_node s = 1 + length N + 4 * length P"
    "length C = length N" "distinct N" "sv_columns s = map_of (zip N C)" "distinct P" "map pr R = P"
    "\<And>rw. rw \<in> set R \<Longrightarrow> map (n_name (sv_nodes s)) rw = map int (row_names (pr rw))"
    "\<And>rw. rw \<in> set R \<Longrightarrow> map (n_col (sv_nodes s)) rw = map (the \<circ> sv_columns s) (row_names (pr rw))"
    "\<And>rw. rw \<in> set R \<Longrightarrow> set (row_names (pr rw)) \<subseteq> set N"
    "distinct C" "0 \<notin> set C"
proof -
  note b = assms [unfolded built_def]
  show "sv_root s = 0" "\<exists>V. matrix_ok 0 (insert 0 (set C)) R C V (set R) (sv_nodes s)"
    "insert 0 (set C) \<union> set (concat R) = {..<sv_cur_node s}" "sv_cur_node s = 1 + length N + 4 * length P"
    "length C = length N" "distinct N" "sv_columns s = map_of (zip N C)" "distinct P" "map pr R = P"
    using b by blast+
  show "map (n_name (sv_nodes s)) rw = map int (row_names (pr rw))"
    "map (n_col (sv_nodes s)) rw = map (the \<circ> sv_columns s) (row_names (pr rw))"
    "set (row_names (pr rw)) \<subseteq> set N" if "rw \<in> set R" for rw
    using b that by blast+
  obtain V where "matrix_ok 0 (insert 0 (set C)) R C V (set R) (sv_nodes s)" using b by blast
  from matrix_okD(1) [OF this] show "distinct C" "0 \<notin> set C" by (simp_all add: ring_def)
qed

section \<open>Columns\<close>

lemma map_of_zip_snoc: "length N = length C \<Longrightarrow> n \<notin> set N \<Longrightarrow> map_of (zip (N @ [n]) (C @ [c])) = (map_of (zip N C))(n \<mapsto> c)"
  by (induction N C rule: list_induct2) (auto simp: fun_upd_twist)

lemma append_column_built:
  assumes b: "built N [] C [] pr s" and n: "n \<notin> set N" "length N + 1 < kMaxNodes"
  shows "\<exists>s'. append_column n s = Inr s' \<and> built (N @ [n]) [] (C @ [sv_cur_node s]) [] pr s' \<and>
    sv_inout s' = sv_inout s \<and> sv_stack s' = sv_stack s"
proof -
  note B = builtD [OF b]
  let ?c = "sv_cur_node s" and ?h = "sv_nodes s"
  obtain V where m: "matrix_ok 0 (insert 0 (set C)) [] C V {} ?h" using B(2) by auto
  note M = matrix_okD [OF m]
  have new: "?c \<notin> insert 0 (set C)" "?c < kMaxNodes" using B(3,4) n(2) by auto
  have "fst ` set (zip N C) = set N" using B(5) by (metis map_fst_zip set_map)
  then have free: "sv_columns s n = None" using B(7) n(1) by (simp add: map_of_eq_None_iff)
  have c0: "0 \<noteq> ?c" using new(1) by auto
  define h1 where "h1 = init_node ?c ?c (int n) ?h"
  define h2 where "h2 = put_left 0 ?c h1"
  have h1: "n_left h1 = (n_left ?h)(?c := ?c)" "n_right h1 = (n_right ?h)(?c := ?c)" "n_up h1 = (n_up ?h)(?c := ?c)"
      "n_down h1 = (n_down ?h)(?c := ?c)" "n_size h1 = (n_size ?h)(?c := 0)" "n_col h1 = (n_col ?h)(?c := ?c)"
    by (simp_all add: h1_def init_node_def)
  note h2 = put_left_fields [OF c0, of h1, folded h2_def, unfolded h1]
  let ?s = "s\<lparr>sv_cur_node := ?c + 1, sv_nodes := h2, sv_columns := (sv_columns s)(n \<mapsto> ?c)\<rparr>"
  have run: "append_column n s = Inr ?s"
    using free new(2) B(1) by (simp add: append_column_def new_column_def Let_def h1_def h2_def)
  have "ring (n_right h1) (n_left h1) 0 C = ring (n_right ?h) (n_left ?h) 0 C"
    by (rule ring_cong) (use new(1) in \<open>auto simp: h1\<close>)
  then have ring: "ring (n_right h2) (n_left h2) 0 (C @ [?c])"
    unfolding h2_def by (intro put_left_ring) (use M(1) new(1) in auto)
  have empty: "V d = []" if "d \<in> set C" for d using M(7) [OF that] by (metis all_not_in_conv bex_empty set_empty)
  have "vert (insert 0 (set (C @ [?c]))) (C @ [?c]) (\<lambda>_. []) h2"
    using M(3) empty new(1) by (auto simp: vert_def h2 ring_empty)
  then have "matrix_ok 0 (insert 0 (set (C @ [?c]))) [] (C @ [?c]) (\<lambda>_. []) (set []) h2"
    using ring new(2) M(8) by (simp add: matrix_ok_def rows_ok_def)
  moreover have "insert 0 (set (C @ [?c])) \<union> set (concat []) = {..<?c + 1}"
    using B(3) by (simp add: lessThan_Suc) blast
  moreover have "(sv_columns s)(n \<mapsto> ?c) = map_of (zip (N @ [n]) (C @ [?c]))"
    using map_of_zip_snoc [of N C n] B(5,7) n(1) by simp
  ultimately have "built (N @ [n]) [] (C @ [?c]) [] pr ?s"
    using B(1,4,5,6) n(1) unfolding built_def by auto
  with run show ?thesis by auto
qed

lemma append_columns_built:
  assumes "built N [] C [] pr s" "distinct (N @ ns)" "length (N @ ns) < kMaxNodes"
  shows "\<exists>s' C'. foldR append_column ns s = Inr s' \<and> built (N @ ns) [] C' [] pr s' \<and>
    sv_inout s' = sv_inout s \<and> sv_stack s' = sv_stack s"
  using assms
proof (induction ns arbitrary: N C s)
  case (Cons n ns)
  obtain s1 where s1: "append_column n s = Inr s1" "built (N @ [n]) [] (C @ [sv_cur_node s]) [] pr s1"
      "sv_inout s1 = sv_inout s" "sv_stack s1 = sv_stack s"
    using append_column_built [OF Cons.prems(1), of n] Cons.prems(2,3) by auto
  from Cons.IH [OF s1(2)] Cons.prems(2,3) s1 show ?case by auto
qed auto

section \<open>Rows\<close>

lemma built_columns:
  assumes b: "built N P C R pr s"
  shows "n \<in> set N \<Longrightarrow> \<exists>c\<in>set C. sv_columns s n = Some c"
    and "inj_on (the \<circ> sv_columns s) (set N)" "(the \<circ> sv_columns s) ` set N = set C"
proof -
  note B = builtD [OF b]
  have at: "(the \<circ> sv_columns s) (N ! i) = C ! i \<and> sv_columns s (N ! i) = Some (C ! i)" if "i < length N" for i
    using that B(5,6,7) by (simp add: map_of_zip_nth)
  show "\<exists>c\<in>set C. sv_columns s n = Some c" if "n \<in> set N"
    using that at B(5) by (metis in_set_conv_nth)
  have all: "map (the \<circ> sv_columns s) N = C" by (rule nth_equalityI) (use at B(5) in simp_all)
  then show "(the \<circ> sv_columns s) ` set N = set C" by (metis set_map)
  have "distinct (map (the \<circ> sv_columns s) N)" using B(13) by (simp add: all)
  then show "inj_on (the \<circ> sv_columns s) (set N)" by (simp add: distinct_map)
qed

lemma new_row_run:
  assumes "sv_columns s n = Some c" "sv_cur_node s < kMaxNodes"
  shows "new_row n s = Inr (sv_cur_node s, s\<lparr>sv_cur_node := sv_cur_node s + 1,
    sv_nodes := put_up c (sv_cur_node s) (init_node (sv_cur_node s) c (int n) (sv_nodes s))\<rparr>)"
  using assms by (simp add: new_row_def Let_def)

text \<open>The four nodes of a row, each at the bottom of its column, before they are linked to one another.\<close>

definition four_nodes :: "nat \<Rightarrow> nat list \<Rightarrow> nat list \<Rightarrow> nodes \<Rightarrow> nodes" where
  "four_nodes a cs ns h = fold (\<lambda>i h. put_up (cs ! i) (a + i) (init_node (a + i) (cs ! i) (int (ns ! i)) h)) [0..<4] h"

lemma four_nodes_step:
  "four_nodes a [c0, c1, c2, c3] [n0, n1, n2, n3] h =
     put_up c3 (a + 3) (init_node (a + 3) c3 (int n3) (put_up c2 (a + 2) (init_node (a + 2) c2 (int n2)
       (put_up c1 (a + 1) (init_node (a + 1) c1 (int n1) (put_up c0 a (init_node a c0 (int n0) h)))))))"
  by (simp add: four_nodes_def upt_rec numeral_2_eq_2 numeral_3_eq_3)

lemma four_nodes_fields:
  assumes "\<forall>c\<in>set [c0, c1, c2, c3]. c < a"
  shows "n_left (four_nodes a [c0, c1, c2, c3] ns h) = (n_left h)(a := a, a + 1 := a + 1, a + 2 := a + 2, a + 3 := a + 3)"
    "n_right (four_nodes a [c0, c1, c2, c3] ns h) = (n_right h)(a := a, a + 1 := a + 1, a + 2 := a + 2, a + 3 := a + 3)"
    "n_col (four_nodes a [c0, c1, c2, c3] ns h) = (n_col h)(a := c0, a + 1 := c1, a + 2 := c2, a + 3 := c3)"
    "n_name (four_nodes a [c0, c1, c2, c3] ns h) =
       (n_name h)(a := int (ns ! 0), a + 1 := int (ns ! 1), a + 2 := int (ns ! 2), a + 3 := int (ns ! 3))"
  using assms by (simp_all add: four_nodes_def upt_rec numeral_2_eq_2 numeral_3_eq_3 put_up_init_fields)

lemma four_nodes_vert:
  assumes v: "vert H C V h" and cs: "set [c0, c1, c2, c3] \<subseteq> set C" "distinct [c0, c1, c2, c3]"
    and a: "\<And>x. x \<in> H \<Longrightarrow> x < a" "\<And>d x. d \<in> set C \<Longrightarrow> x \<in> set (V d) \<Longrightarrow> x < a"
  shows "vert H C (V(c0 := V c0 @ [a], c1 := V c1 @ [a + 1], c2 := V c2 @ [a + 2], c3 := V c3 @ [a + 3]))
    (four_nodes a [c0, c1, c2, c3] [n0, n1, n2, n3] h)"
proof -
  have "a + i \<notin> H" for i using a(1) [of "a + i"] by auto
  note H = this [of 0, simplified] this [of 1] this [of 2] this [of 3]
  have "a + i \<notin> set (V d)" if "d \<in> set C" for d i using a(2) [OF that, of "a + i"] by auto
  note F = this [of _ 0, simplified] this [of _ 1] this [of _ 2] this [of _ 3]
  let ?V1 = "V(c0 := V c0 @ [a])"
  let ?V2 = "?V1(c1 := ?V1 c1 @ [a + 1])"
  let ?V3 = "?V2(c2 := ?V2 c2 @ [a + 2])"
  let ?V4 = "?V3(c3 := ?V3 c3 @ [a + 3])"
  have v1: "vert H C ?V1 (put_up c0 a (init_node a c0 (int n0) h))"
    by (rule new_node_vert [OF v]) (use cs(1) H F in auto)
  have v2: "vert H C ?V2 (put_up c1 (a + 1) (init_node (a + 1) c1 (int n1) (put_up c0 a (init_node a c0 (int n0) h))))"
    by (rule new_node_vert [OF v1]) (use cs(1) H F in auto)
  have v3: "vert H C ?V3 (put_up c2 (a + 2) (init_node (a + 2) c2 (int n2)
      (put_up c1 (a + 1) (init_node (a + 1) c1 (int n1) (put_up c0 a (init_node a c0 (int n0) h))))))"
    by (rule new_node_vert [OF v2]) (use cs(1) H F in auto)
  have "vert H C ?V4 (four_nodes a [c0, c1, c2, c3] [n0, n1, n2, n3] h)"
    unfolding four_nodes_step
    by (rule new_node_vert [OF v3]) (use cs(1) H F in auto)
  then show ?thesis using cs(2) by simp
qed

text \<open>The three links.\<close>

definition linked :: "nat \<Rightarrow> nodes \<Rightarrow> nodes" where
  "linked a h = put_left a (a + 3) (put_left a (a + 2) (put_left a (a + 1) h))"

lemma linked_fields:
  "n_up (linked a h) = n_up h" "n_down (linked a h) = n_down h" "n_col (linked a h) = n_col h"
  "n_name (linked a h) = n_name h" "n_size (linked a h) = n_size h"
  by (simp_all add: linked_def put_left_fields)

lemma linked_ring:
  assumes "n_left h a = a" "n_right h a = a"
  shows "ring (n_right (linked a h)) (n_left (linked a h)) a [a + 1, a + 2, a + 3]"
proof -
  have "ring (n_right h) (n_left h) a []" using assms by (simp add: ring_empty)
  from put_left_ring [OF this, of "a + 1"] have "ring (n_right (put_left a (a + 1) h)) (n_left (put_left a (a + 1) h)) a [a + 1]" by simp
  from put_left_ring [OF this, of "a + 2"] put_left_ring [of "put_left a (a + 2) (put_left a (a + 1) h)" a "[a + 1, a + 2]" "a + 3"]
  show ?thesis by (simp add: linked_def)
qed

lemma linked_other:
  assumes "n_left h a = a" "x < a"
  shows "n_left (linked a h) x = n_left h x" "n_right (linked a h) x = n_right h x"
  using assms by (simp_all add: linked_def put_left_fields)

lemma row_ok_cong:
  assumes "\<And>x. x \<in> set rw \<Longrightarrow> n_left h' x = n_left h x \<and> n_right h' x = n_right h x \<and> n_col h' x = n_col h x"
  shows "row_ok H h' rw = row_ok H h rw"
proof (cases "rw = []")
  case False
  then have "ring (n_right h') (n_left h') (hd rw) (tl rw) = ring (n_right h) (n_left h) (hd rw) (tl rw)"
    by (intro ring_cong) (use assms in auto)
  moreover have "inj_on (n_col h') (set rw) = inj_on (n_col h) (set rw)" using assms by (intro inj_on_cong) blast
  ultimately show ?thesis by (simp add: row_ok_def)
qed (simp add: row_ok_def)

lemma append_row_matrix:
  assumes m: "matrix_ok root H R C V (set R) h" and cs: "set [c0, c1, c2, c3] \<subseteq> set C" "distinct [c0, c1, c2, c3]"
    and a: "H \<union> set (concat R) \<subseteq> {..<a}" "a + 4 \<le> kMaxNodes"
    and h': "h' = linked a (four_nodes a [c0, c1, c2, c3] [n0, n1, n2, n3] h)"
  shows "\<exists>V'. matrix_ok root H (R @ [[a, a + 1, a + 2, a + 3]]) C V' (set (R @ [[a, a + 1, a + 2, a + 3]])) h'"
    "\<And>x. x < a \<Longrightarrow> n_left h' x = n_left h x \<and> n_right h' x = n_right h x \<and> n_col h' x = n_col h x \<and> n_name h' x = n_name h x"
    "map (n_col h') [a, a + 1, a + 2, a + 3] = [c0, c1, c2, c3]"
    "map (n_name h') [a, a + 1, a + 2, a + 3] = map int [n0, n1, n2, n3]"
proof -
  note M = matrix_okD [OF m]
  let ?k = "four_nodes a [c0, c1, c2, c3] [n0, n1, n2, n3] h" and ?rw = "[a, a + 1, a + 2, a + 3]"
  have CH: "set C \<subseteq> H" using M(3) by (simp add: vert_def)
  have "\<forall>c\<in>set [c0, c1, c2, c3]. c < a" using cs(1) CH a(1) by auto
  note f = four_nodes_fields [OF this, of "[n0, n1, n2, n3]" h]
  have self: "n_left ?k a = a" "n_right ?k a = a" by (simp_all add: f)
  show col: "map (n_col h') ?rw = [c0, c1, c2, c3]" by (simp add: h' linked_fields f)
  show "map (n_name h') ?rw = map int [n0, n1, n2, n3]" by (simp add: h' linked_fields f)
  show old: "n_left h' x = n_left h x \<and> n_right h' x = n_right h x \<and> n_col h' x = n_col h x \<and> n_name h' x = n_name h x"
    if "x < a" for x
    using that linked_other [OF self(1) that] by (simp add: h' linked_fields f)
  have Ha: "\<And>x. x \<in> H \<Longrightarrow> x < a" and Ra: "\<And>rw x. rw \<in> set R \<Longrightarrow> x \<in> set rw \<Longrightarrow> x < a" using a(1) by auto
  have Va: "x < a" if "d \<in> set C" "x \<in> set (V d)" for d x using M(7) [OF that(1)] that(2) Ra by blast
  let ?V = "V(c0 := V c0 @ [a], c1 := V c1 @ [a + 1], c2 := V c2 @ [a + 2], c3 := V c3 @ [a + 3])"
  have "vert H C ?V ?k" by (rule four_nodes_vert [OF M(3) cs Ha Va])
  then have v: "vert H C ?V h'" using vert_cong [of h' ?k H C ?V] by (simp add: h' linked_fields)
  have "ring (n_right h') (n_left h') root C = ring (n_right h) (n_left h) root C"
    by (rule ring_cong) (use old Ha CH M(2) in auto)
  then have ring: "ring (n_right h') (n_left h') root C" using M(1) by simp
  have new: "row_ok H h' ?rw"
    unfolding row_ok_def
  proof (intro conjI)
    show "ring (n_right h') (n_left h') (hd ?rw) (tl ?rw)" using linked_ring [OF self] by (simp add: h')
    have "distinct (map (n_col h') ?rw)" unfolding col by (rule cs(2))
    then show "inj_on (n_col h') (set ?rw)" by (simp only: distinct_map)
    have "a + i \<notin> H" for i using Ha [of "a + i"] by auto
    from this [of 0] this [of 1] this [of 2] this [of 3] show "set ?rw \<inter> H = {}" by simp
  qed simp
  have olds: "row_ok H h' rw" if "rw \<in> set R" for rw
  proof -
    have "row_ok H h' rw = row_ok H h rw" by (rule row_ok_cong) (use old Ra that in blast)
    then show ?thesis using M(4) that by (simp add: rows_ok_def)
  qed
  have "set ?rw \<inter> set (concat R) = {}" using Ra by fastforce
  then have "distinct (concat (R @ [?rw]))" using M(11) by auto
  then have rows: "rows_ok H (R @ [?rw]) h'" using olds new by (auto simp: rows_ok_def)
  have act: "x \<in> set (?V d) \<longleftrightarrow> n_col h' x = d \<and> (\<exists>rw\<in>set (R @ [?rw]). x \<in> set rw)" if d: "d \<in> set C" for d x
  proof (cases "x \<in> set ?rw")
    case True
    then have "x \<notin> set (V d)" using Va [OF d] by fastforce
    moreover have "x = a \<and> n_col h' x = c0 \<or> x = a + 1 \<and> n_col h' x = c1 \<or> x = a + 2 \<and> n_col h' x = c2 \<or> x = a + 3 \<and> n_col h' x = c3"
      using True col by auto
    moreover have "\<exists>rw\<in>set (R @ [?rw]). x \<in> set rw" using True by auto
    ultimately show ?thesis using cs(2) by (elim disjE conjE) (simp_all add: eq_commute [of _ d], blast+)
  next
    case False
    then have "x \<in> set (?V d) \<longleftrightarrow> x \<in> set (V d)" by auto
    also have "\<dots> \<longleftrightarrow> n_col h x = d \<and> (\<exists>rw\<in>set R. x \<in> set rw)" by (rule M(7) [OF d])
    also have "\<dots> \<longleftrightarrow> n_col h' x = d \<and> (\<exists>rw\<in>set R. x \<in> set rw)" using old Ra by metis
    finally show ?thesis using False by auto
  qed
  have "matrix_ok root H (R @ [?rw]) C ?V (set (R @ [?rw])) h'"
    unfolding matrix_ok_def
  proof (intro conjI ballI)
    fix rw assume "rw \<in> set (R @ [?rw])"
    then consider "rw \<in> set R" | "rw = ?rw" by auto
    then show "n_col h' ` set rw \<subseteq> set C"
    proof cases
      case 1
      have "n_col h' x \<in> set C" if "x \<in> set rw" for x using M(6) [OF 1 that] old Ra [OF 1 that] by simp
      then show ?thesis by blast
    next
      case 2
      have "n_col h' ` set rw = set (map (n_col h') ?rw)" unfolding 2 by (simp only: set_map)
      then show ?thesis using cs(1) unfolding col by simp
    qed
  next
    show "set (?V d) = {x. n_col h' x = d \<and> (\<exists>rw\<in>set (R @ [?rw]). x \<in> set rw)}" if "d \<in> set C" for d
      using act [OF that] by blast
    have "set ?rw \<subseteq> {..<kMaxNodes}" using a(2) by auto
    then show "set (concat (R @ [?rw])) \<subseteq> {..<kMaxNodes}" using M(9) by auto
  qed (use ring v rows M(2,8) in simp_all)
  then show "\<exists>V'. matrix_ok root H (R @ [?rw]) C V' (set (R @ [?rw])) h'" by blast
qed

lemma append_row_run:
  assumes "sv_columns s i = Some c0" "sv_columns s (get_row_col (cell_row i) v) = Some c1"
    "sv_columns s (get_col_col (cell_col i) v) = Some c2" "sv_columns s (get_box_col (cell_box i) v) = Some c3"
    and "sv_cur_node s + 4 \<le> kMaxNodes"
  shows "append_row i v s = Inr (s\<lparr>sv_cur_node := sv_cur_node s + 4,
    sv_nodes := linked (sv_cur_node s) (four_nodes (sv_cur_node s) [c0, c1, c2, c3] (row_names (i, v)) (sv_nodes s))\<rparr>)"
proof -
  let ?a = "sv_cur_node s" and ?h = "sv_nodes s"
  define new where "new = (\<lambda>c r nm h. put_up c r (init_node r c nm h))"
  define h1 where "h1 = new c0 ?a (int i) ?h"
  define h2 where "h2 = new c1 (?a + 1) (int (get_row_col (cell_row i) v)) h1"
  define h3 where "h3 = new c2 (?a + 2) (int (get_col_col (cell_col i) v)) h2"
  define h4 where "h4 = new c3 (?a + 3) (int (get_box_col (cell_box i) v)) h3"
  have run: "sv_columns (s\<lparr>sv_cur_node := k, sv_nodes := h\<rparr>) n = Some c \<Longrightarrow> k < kMaxNodes \<Longrightarrow>
      new_row n (s\<lparr>sv_cur_node := k, sv_nodes := h\<rparr>) = Inr (k, s\<lparr>sv_cur_node := k + 1, sv_nodes := new c k (int n) h\<rparr>)" for k h n c
    by (simp add: new_row_run new_def)
  have "new_row i s = Inr (?a, s\<lparr>sv_cur_node := ?a + 1, sv_nodes := h1\<rparr>)"
    using run [where k = ?a and h = ?h and n = i and c = c0] assms(1,5) by (simp add: h1_def)
  moreover have "new_row (get_row_col (cell_row i) v) (s\<lparr>sv_cur_node := ?a + 1, sv_nodes := h1\<rparr>) =
      Inr (?a + 1, s\<lparr>sv_cur_node := ?a + 2, sv_nodes := h2\<rparr>)"
    using run [where k = "?a + 1" and h = h1 and c = c1] assms(2,5) by (simp add: h2_def)
  moreover have "new_row (get_col_col (cell_col i) v) (s\<lparr>sv_cur_node := ?a + 2, sv_nodes := h2\<rparr>) =
      Inr (?a + 2, s\<lparr>sv_cur_node := ?a + 3, sv_nodes := h3\<rparr>)"
    using run [where k = "?a + 2" and h = h2 and c = c2] assms(3,5) by (simp add: h3_def)
  moreover have "new_row (get_box_col (cell_box i) v) (s\<lparr>sv_cur_node := ?a + 3, sv_nodes := h3\<rparr>) =
      Inr (?a + 3, s\<lparr>sv_cur_node := ?a + 4, sv_nodes := h4\<rparr>)"
    using run [where k = "?a + 3" and h = h3 and c = c3] assms(4,5) by (simp add: h4_def)
  moreover have "h4 = four_nodes ?a [c0, c1, c2, c3] (row_names (i, v)) ?h"
    by (simp add: row_names_def four_nodes_step h4_def h3_def h2_def h1_def new_def)
  ultimately show ?thesis by (simp add: append_row_def linked_def)
qed

lemma row_names_ok:
  assumes "fst p < 81" "1 \<le> snd p" "snd p \<le> 9"
  shows "distinct (row_names p)"
proof -
  have "cell_row (fst p) < 9" "cell_col (fst p) < 9" using assms(1) by (simp_all add: cell_row_def cell_col_def less_mult_imp_div_less)
  then show ?thesis
    using assms by (simp add: row_names_def get_row_col_def get_col_col_def get_box_col_def kRow_def kCol_def kBox_def)
qed

lemma append_row_built:
  assumes b: "built N P C R pr s" and p: "p \<notin> set P" "distinct (row_names p)" "set (row_names p) \<subseteq> set N"
    and len: "1 + length N + 4 * length P + 4 \<le> kMaxNodes"
  shows "\<exists>s' R' pr'. append_row (fst p) (snd p) s = Inr s' \<and> built N (P @ [p]) C R' pr' s' \<and>
    sv_inout s' = sv_inout s \<and> sv_stack s' = sv_stack s"
proof -
  note B = builtD [OF b]
  let ?a = "sv_cur_node s" and ?h = "sv_nodes s" and ?col = "the \<circ> sv_columns s"
  let ?rw = "[?a, ?a + 1, ?a + 2, ?a + 3]"
  obtain n0 n1 n2 n3 where ns: "row_names p = [n0, n1, n2, n3]" by (simp add: row_names_def)
  define c where "c = map ?col [n0, n1, n2, n3]"
  have nN: "{n0, n1, n2, n3} \<subseteq> set N" "distinct [n0, n1, n2, n3]" using p(2,3) unfolding ns by auto
  have some: "sv_columns s n = Some (?col n)" if "n \<in> set N" for n using built_columns(1) [OF b that] by auto
  have cC: "set c \<subseteq> set C" using nN(1) built_columns(3) [OF b] by (auto simp: c_def)
  have "inj_on ?col (set [n0, n1, n2, n3])" by (rule inj_on_subset [OF built_columns(2) [OF b]]) (use nN(1) in auto)
  then have cd: "distinct c" using nN(2) by (simp only: c_def distinct_map)
  have cs: "c = [?col n0, ?col n1, ?col n2, ?col n3]" by (simp add: c_def)
  obtain V where m: "matrix_ok 0 (insert 0 (set C)) R C V (set R) ?h" using B(2) by blast
  define h' where "h' = linked ?a (four_nodes ?a c [n0, n1, n2, n3] ?h)"
  have a: "insert 0 (set C) \<union> set (concat R) \<subseteq> {..<?a}" "?a + 4 \<le> kMaxNodes" using B(3,4) len by simp_all
  note new = append_row_matrix [OF m cC [unfolded cs] cd [unfolded cs] a h'_def [unfolded cs]]
  let ?s = "s\<lparr>sv_cur_node := ?a + 4, sv_nodes := h'\<rparr>"
  have names: "n0 = fst p" "n1 = get_row_col (cell_row (fst p)) (snd p)" "n2 = get_col_col (cell_col (fst p)) (snd p)"
      "n3 = get_box_col (cell_box (fst p)) (snd p)" using ns unfolding row_names_def list.inject by blast+
  have "sv_columns s n0 = Some (?col n0)" "sv_columns s n1 = Some (?col n1)" "sv_columns s n2 = Some (?col n2)"
      "sv_columns s n3 = Some (?col n3)" using some nN(1) by blast+
  from append_row_run [OF this(1,2) [unfolded names(1,2)] this(3,4) [unfolded names(3,4)] a(2)]
  have "append_row (fst p) (snd p) s = Inr (s\<lparr>sv_cur_node := ?a + 4,
      sv_nodes := linked ?a (four_nodes ?a [?col n0, ?col n1, ?col n2, ?col n3] (row_names p) ?h)\<rparr>)"
    unfolding names by (simp only: prod.collapse)
  then have "append_row (fst p) (snd p) s = Inr ?s" by (simp only: h'_def cs ns)
  moreover have "built N (P @ [p]) C (R @ [?rw]) (pr(?rw := p)) ?s"
  proof -
    have Ra: "x < ?a" if "rw \<in> set R" "x \<in> set rw" for rw x using a(1) that by auto
    then have fresh: "?rw \<notin> set R" by fastforce
    then have prs: "pr rw = (pr(?rw := p)) rw" if "rw \<in> set R" for rw using that by auto
    have map: "map (pr(?rw := p)) (R @ [?rw]) = P @ [p]" using B(9) prs by (simp cong: map_cong)
    have nodes: "insert 0 (set C) \<union> set (concat (R @ [?rw])) = {..<?a + 4}"
    proof -
      have "{..<?a + 4} = {..<?a} \<union> set ?rw" by auto
      then show ?thesis using B(3) by auto
    qed
    have rows: "map (n_name h') rw = map int (row_names ((pr(?rw := p)) rw)) \<and>
        map (n_col h') rw = map ?col (row_names ((pr(?rw := p)) rw)) \<and> set (row_names ((pr(?rw := p)) rw)) \<subseteq> set N"
      if "rw \<in> set (R @ [?rw])" for rw
    proof (cases "rw = ?rw")
      case True
      then show ?thesis using new(3,4) p(3) by (simp add: ns)
    next
      case False
      then have rw: "rw \<in> set R" using that by auto
      then have "map (n_name h') rw = map (n_name ?h) rw" "map (n_col h') rw = map (n_col ?h) rw"
        using new(2) Ra [OF rw] by (auto intro: map_cong)
      then show ?thesis using B(10-12) [OF rw] False by simp
    qed
    show ?thesis
      unfolding built_def
      using B(1,4,5,6,7,8) new(1) nodes map rows p(1) by simp
  qed
  ultimately show ?thesis by auto
qed

lemma foldR_concat: "foldR (\<lambda>x. foldR (g x) (f x)) xs s = foldR (\<lambda>p. g (fst p) (snd p)) (concat (map (\<lambda>x. map (Pair x) (f x)) xs)) s"
proof -
  have one: "foldR (g x) ys s = foldR (\<lambda>p. g (fst p) (snd p)) (map (Pair x) ys) s" for x ys s
    by (induction ys arbitrary: s) (simp_all add: bindR_def split: sum.split)
  show ?thesis by (induction xs arbitrary: s) (simp_all add: foldR_append one bindR_def split: sum.split)
qed

lemma foldR_filter: "foldR (\<lambda>x s. if Q x then g x s else Inr s) xs s = foldR g (filter Q xs) s"
  by (induction xs arbitrary: s) (auto simp: bindR_def split: sum.split)

lemma append_rows_built:
  assumes "built N P C R pr s" "distinct (P @ ps)"
    "\<And>p. p \<in> set ps \<Longrightarrow> distinct (row_names p) \<and> set (row_names p) \<subseteq> set N"
    "1 + length N + 4 * length (P @ ps) \<le> kMaxNodes"
  shows "\<exists>s' R' pr'. foldR (\<lambda>p. append_row (fst p) (snd p)) ps s = Inr s' \<and> built N (P @ ps) C R' pr' s' \<and>
    sv_inout s' = sv_inout s \<and> sv_stack s' = sv_stack s"
  using assms
proof (induction ps arbitrary: P R pr s)
  case (Cons p ps)
  have p: "p \<notin> set P" "distinct (row_names p)" "set (row_names p) \<subseteq> set N" "1 + length N + 4 * length P + 4 \<le> kMaxNodes"
    using Cons.prems(2-4) by auto
  obtain s1 R1 pr1 where s1: "append_row (fst p) (snd p) s = Inr s1" "built N (P @ [p]) C R1 pr1 s1"
      "sv_inout s1 = sv_inout s" "sv_stack s1 = sv_stack s"
    using append_row_built [OF Cons.prems(1) p] by blast
  have "distinct ((P @ [p]) @ ps)" "1 + length N + 4 * length ((P @ [p]) @ ps) \<le> kMaxNodes" using Cons.prems(2,4) by auto
  from Cons.IH [OF s1(2) this(1) _ this(2)] Cons.prems(3)
  obtain s' R' pr' where "foldR (\<lambda>p. append_row (fst p) (snd p)) ps s1 = Inr s'" "built N ((P @ [p]) @ ps) C R' pr' s'"
      "sv_inout s' = sv_inout s1" "sv_stack s' = sv_stack s1" by auto
  then show ?case using s1 by auto
qed auto

section \<open>The constructor\<close>

lemma fold_mark_cell:
  "fl_rows (fold (mark_cell board) is f) r v \<longleftrightarrow> fl_rows f r v \<or> (\<exists>i\<in>set is. cell_row i = r \<and> nat (board ! i) = v)"
  "fl_cols (fold (mark_cell board) is f) r v \<longleftrightarrow> fl_cols f r v \<or> (\<exists>i\<in>set is. cell_col i = r \<and> nat (board ! i) = v)"
  "fl_boxes (fold (mark_cell board) is f) r v \<longleftrightarrow> fl_boxes f r v \<or> (\<exists>i\<in>set is. cell_box i = r \<and> nat (board ! i) = v)"
  by (induction "is" arbitrary: f) (auto simp: mark_cell_def Let_def set_flag_def)

text \<open>A flag is set when some cell of the unit holds the value.\<close>

lemma board_flags_iff:
  "fl_rows (board_flags board) r v \<longleftrightarrow> (\<exists>i<kCells. cell_row i = r \<and> nat (board ! i) = v)"
  "fl_cols (board_flags board) r v \<longleftrightarrow> (\<exists>i<kCells. cell_col i = r \<and> nat (board ! i) = v)"
  "fl_boxes (board_flags board) r v \<longleftrightarrow> (\<exists>i<kCells. cell_box i = r \<and> nat (board ! i) = v)"
  unfolding board_flags_def fold_mark_cell by auto

lemma in_cell_columns: "i \<in> set (cell_columns board) \<longleftrightarrow> i < kCells \<and> board ! i = 0"
  by (auto simp: cell_columns_def)

definition unit_value :: "flags \<Rightarrow> nat \<Rightarrow> nat \<Rightarrow> nat list" where
  "unit_value f i v = (if \<not> fl_rows f i v then [get_row_col i v] else []) @ (if \<not> fl_cols f i v then [get_col_col i v] else []) @
     (if \<not> fl_boxes f i v then [get_box_col i v] else [])"

lemma unit_columns_alt: "unit_columns f = concat (map (\<lambda>i. concat (map (unit_value f i) [1..<10])) [0..<9])"
  unfolding unit_columns_def unit_value_def by (rule refl)

lemmas unit_names = get_row_col_def get_col_col_def get_box_col_def kRow_def kCol_def kBox_def

lemma in_unit_columns:
  assumes "i < 9" "1 \<le> v" "v < 10"
  shows "get_row_col i v \<in> set (unit_columns f) \<longleftrightarrow> \<not> fl_rows f i v"
    "get_col_col i v \<in> set (unit_columns f) \<longleftrightarrow> \<not> fl_cols f i v"
    "get_box_col i v \<in> set (unit_columns f) \<longleftrightarrow> \<not> fl_boxes f i v"
proof -
  have inj: "10 * i + v = 10 * i' + v' \<longleftrightarrow> i = i' \<and> v = v'" if "v' < 10" for i' v'
  proof
    assume e: "10 * i + v = 10 * i' + v'"
    then have "(10 * i + v) mod 10 = (10 * i' + v') mod 10" by (rule arg_cong)
    then have "v = v'" using assms(3) that by simp
    with e show "i = i' \<and> v = v'" by simp
  qed simp
  have pick: "(\<exists>i'\<in>{0..<9}. \<exists>v'\<in>{1..<10}. Q i' v') \<longleftrightarrow> r"
    if q: "\<And>i' v'. i' < 9 \<Longrightarrow> v' < 10 \<Longrightarrow> Q i' v' \<longleftrightarrow> i' = i \<and> v' = v \<and> r" for Q r
  proof
    assume "\<exists>i'\<in>{0..<9}. \<exists>v'\<in>{1..<10}. Q i' v'"
    then obtain i' v' where "i' < 9" "v' < 10" "Q i' v'" by auto
    then show r using q by blast
  next
    assume r
    then have "Q i v" using q [OF assms(1,3)] by simp
    then show "\<exists>i'\<in>{0..<9}. \<exists>v'\<in>{1..<10}. Q i' v'" using assms by (intro bexI [of _ i] bexI [of _ v]) auto
  qed
  have mem: "n \<in> set (unit_columns f) \<longleftrightarrow> (\<exists>i'\<in>{0..<9}. \<exists>v'\<in>{1..<10}. n \<in> set (unit_value f i' v'))" for n
    by (simp add: unit_columns_alt del: upt_rec_numeral)
  have val: "get_row_col i v \<in> set (unit_value f i' v') \<longleftrightarrow> i' = i \<and> v' = v \<and> \<not> fl_rows f i v"
      "get_col_col i v \<in> set (unit_value f i' v') \<longleftrightarrow> i' = i \<and> v' = v \<and> \<not> fl_cols f i v"
      "get_box_col i v \<in> set (unit_value f i' v') \<longleftrightarrow> i' = i \<and> v' = v \<and> \<not> fl_boxes f i v" if "i' < 9" "v' < 10" for i' v'
    using inj [OF that(2)] that assms by (auto simp: unit_value_def unit_names algebra_simps)
  show "get_row_col i v \<in> set (unit_columns f) \<longleftrightarrow> \<not> fl_rows f i v"
    "get_col_col i v \<in> set (unit_columns f) \<longleftrightarrow> \<not> fl_cols f i v"
    "get_box_col i v \<in> set (unit_columns f) \<longleftrightarrow> \<not> fl_boxes f i v"
    unfolding mem by (rule pick, erule (1) val)+
qed

lemma name_digits:
  assumes "i < 10" "v < (10::nat)"
  shows "(100 * b + i * 10 + v) mod 10 = v" "(100 * b + i * 10 + v) div 10 mod 10 = i"
proof -
  have e: "100 * b + i * 10 + v = v + 10 * (i + 10 * b)" by simp
  have m: "(v + 10 * x) mod 10 = v" "(v + 10 * x) div 10 = x" "(i + 10 * x) mod 10 = i" for x using assms by simp_all
  show "(100 * b + i * 10 + v) mod 10 = v" "(100 * b + i * 10 + v) div 10 mod 10 = i" unfolding e m by (rule refl)+
qed

lemma unit_value_range: "n \<in> set (unit_value f i v) \<Longrightarrow> i < 9 \<Longrightarrow> v < 10 \<Longrightarrow> 100 \<le> n \<and> n mod 10 = v \<and> n div 10 mod 10 = i"
proof -
  assume n: "n \<in> set (unit_value f i v)" and b: "i < 9" "v < 10"
  then obtain k :: nat where "1 \<le> k" "n = 100 * k + i * 10 + v" using that [of 1] that [of 2] that [of 3]
    by (auto simp: unit_value_def unit_names split: if_splits)
  then show ?thesis using name_digits [of i v k] b by simp
qed

lemma distinct_columns: "distinct (cell_columns board @ unit_columns f)"
proof -
  have "distinct (unit_value f i v)" if "i < 9" "v < 10" for i v using that by (auto simp: unit_value_def unit_names)
  then have one: "distinct (concat (map (unit_value f i) [1..<10]))" if "i < 9" for i
  proof (intro distinct_concat_map)
    fix v w assume "v \<in> set [1..<10]" "w \<in> set [1..<10]" "v \<noteq> w"
    then have "v < 10" "w < 10" "v \<noteq> w" by (simp_all del: upt_rec_numeral)
    then show "set (unit_value f i v) \<inter> set (unit_value f i w) = {}" using unit_value_range [of _ f i] that by blast
  qed (use that in \<open>simp_all del: upt_rec_numeral\<close>)
  have mem: "\<exists>v<10. n \<in> set (unit_value f i v)" if "n \<in> set (concat (map (unit_value f i) [1..<10]))" for n i
    using that by (auto simp del: upt_rec_numeral)
  have "distinct (unit_columns f)" unfolding unit_columns_alt
  proof (rule distinct_concat_map)
    fix i j assume "i \<in> set [0..<9]" "j \<in> set [0..<9]" and ij: "i \<noteq> j"
    then have b: "i < 9" "j < 9" by (simp_all del: upt_rec_numeral)
    show "set (concat (map (unit_value f i) [1..<10])) \<inter> set (concat (map (unit_value f j) [1..<10])) = {}"
    proof (rule ccontr)
      assume "\<not> ?thesis"
      then obtain n where n: "n \<in> set (concat (map (unit_value f i) [1..<10]))" "n \<in> set (concat (map (unit_value f j) [1..<10]))"
        by blast
      obtain v w where "v < 10" "n \<in> set (unit_value f i v)" "w < 10" "n \<in> set (unit_value f j w)"
        using mem [OF n(1)] mem [OF n(2)] by blast
      then show False using unit_value_range [of n f i v] unit_value_range [of n f j w] b ij by simp
    qed
  qed (use one in \<open>simp_all del: upt_rec_numeral\<close>)
  moreover have "100 \<le> n" if n: "n \<in> set (unit_columns f)" for n
  proof -
    obtain i v where "i < 9" "v < 10" "n \<in> set (unit_value f i v)"
      using n by (auto simp: unit_columns_alt simp del: upt_rec_numeral)
    then show ?thesis using unit_value_range by blast
  qed
  moreover have "distinct (cell_columns board)" "\<And>i. i \<in> set (cell_columns board) \<Longrightarrow> i < 81"
    by (simp_all add: cell_columns_def kCells_def del: upt_rec_numeral)
  ultimately have d: "distinct (unit_columns f)" "distinct (cell_columns board)" and big: "\<And>n. n \<in> set (unit_columns f) \<Longrightarrow> 100 \<le> n"
    and small: "\<And>i. i \<in> set (cell_columns board) \<Longrightarrow> i < 81" by blast+
  have "n \<notin> set (unit_columns f)" if "n \<in> set (cell_columns board)" for n
  proof
    assume "n \<in> set (unit_columns f)"
    then show False using big [of n] small [OF that] by simp
  qed
  then have "set (cell_columns board) \<inter> set (unit_columns f) = {}" by blast
  with d show ?thesis by simp
qed

lemma length_concat_le: "(\<And>x. x \<in> set xs \<Longrightarrow> length (f x) \<le> k) \<Longrightarrow> length (concat (map f xs)) \<le> k * length xs"
  by (induction xs) (auto simp: add_mono)

lemma length_columns: "length (cell_columns board @ unit_columns f) \<le> 324"
proof -
  have "length (unit_value f i v) \<le> 3" for i v by (simp add: unit_value_def)
  then have "length (concat (map (unit_value f i) [1..<10])) \<le> 3 * length [1..<10::nat]" for i by (intro length_concat_le)
  then have "length (unit_columns f) \<le> 27 * length [0..<9::nat]" unfolding unit_columns_alt by (intro length_concat_le) simp
  moreover have "length (cell_columns board) \<le> length [0..<kCells]" unfolding cell_columns_def by (rule length_filter_le)
  ultimately show ?thesis by (simp add: kCells_def)
qed

text \<open>The rows: every empty cell with every value its units leave open.\<close>

definition open_pairs :: "int list \<Rightarrow> (nat \<times> nat) list" where
  "open_pairs board = concat (map (\<lambda>i. map (Pair i) (filter (allowed (board_flags board) i) [1..<10])) (cell_columns board))"

lemma in_open_pairs:
  "(i, v) \<in> set (open_pairs board) \<longleftrightarrow> i < kCells \<and> board ! i = 0 \<and> 1 \<le> v \<and> v < 10 \<and> allowed (board_flags board) i v"
  by (auto simp: open_pairs_def in_cell_columns)

lemma distinct_open_pairs: "distinct (open_pairs board)"
proof -
  have "distinct (cell_columns board)" by (simp add: cell_columns_def)
  then show ?thesis unfolding open_pairs_def by (intro distinct_concat_map) (auto simp: distinct_map inj_on_def)
qed

lemma length_open_pairs: "length (open_pairs board) \<le> 729"
proof -
  have "length (map (Pair i) (filter (allowed (board_flags board) i) [1..<10])) \<le> 9" for i :: nat
    using length_filter_le [of "allowed (board_flags board) i" "[1..<10]"] by simp
  then have "length (open_pairs board) \<le> 9 * length (cell_columns board)" unfolding open_pairs_def by (intro length_concat_le)
  moreover have "length (cell_columns board) \<le> length [0..<kCells]" unfolding cell_columns_def by (rule length_filter_le)
  ultimately show ?thesis by (simp add: kCells_def)
qed

lemma unit_bounds: "i < kCells \<Longrightarrow> cell_row i < 9 \<and> cell_col i < 9 \<and> cell_box i < 9"
proof -
  assume i: "i < kCells"
  then have "i div 9 < 9" by (simp add: kCells_def less_mult_imp_div_less)
  then have "i div 9 div 3 < 3" "i mod 9 div 3 < 3" by (simp_all add: less_mult_imp_div_less)
  then show ?thesis using \<open>i div 9 < 9\<close> by (simp add: cell_row_def cell_col_def cell_box_def)
qed

text \<open>The constructor raises no assertion and builds the columns and rows of the board.\<close>

lemma SudokuSolver_new_ok:
  "\<exists>s C R pr. SudokuSolver_new board = Inr s \<and>
     built (cell_columns board @ unit_columns (board_flags board)) (open_pairs board) C R pr s \<and>
     sv_inout s = board \<and> sv_stack s = []"
proof -
  let ?f = "board_flags board" and ?N = "cell_columns board @ unit_columns (board_flags board)"
  define h where "h = init_node 0 0 0 empty_nodes"
  define s0 where "s0 = \<lparr>sv_root = 0, sv_inout = board, sv_columns = Map.empty, sv_stack = [], sv_nodes = h, sv_cur_node = 1\<rparr>"
  have root: "h\<lparr>n_left := (n_left h)(0 := 0), n_right := (n_right h)(0 := 0)\<rparr> = h"
    by (simp add: h_def init_node_def)
  have "matrix_ok 0 (insert 0 (set [])) [] [] (\<lambda>_. []) (set []) h"
    by (simp add: matrix_ok_def vert_def rows_ok_def ring_empty h_def init_node_def kMaxNodes_def)
  then have b0: "built [] [] [] [] (\<lambda>_. (0, 0)) s0"
    unfolding built_def s0_def by auto
  have "length ?N < kMaxNodes" using length_columns [of board ?f] by (simp add: kMaxNodes_def)
  from append_columns_built [OF b0, of ?N] distinct_columns this
  obtain s1 C where s1: "foldR append_column ?N s0 = Inr s1" "built ?N [] C [] (\<lambda>_. (0, 0)) s1"
      "sv_inout s1 = board" "sv_stack s1 = []" by (auto simp: s0_def)
  have rows: "distinct (row_names p) \<and> set (row_names p) \<subseteq> set ?N" if "p \<in> set (open_pairs board)" for p
  proof -
    obtain i v where p: "p = (i, v)" by force
    have o: "i < kCells" "board ! i = 0" "1 \<le> v" "v < 10" "allowed ?f i v" using that by (simp_all add: p in_open_pairs)
    note u = unit_bounds [OF o(1)]
    have "distinct (row_names p)" by (rule row_names_ok) (use o in \<open>simp_all add: p kCells_def\<close>)
    then show ?thesis using o u by (simp add: p row_names_def in_unit_columns in_cell_columns allowed_def)
  qed
  have "1 + length ?N + 4 * length ([] @ open_pairs board) \<le> kMaxNodes"
    using length_columns [of board ?f] length_open_pairs [of board] by (simp add: kMaxNodes_def)
  from append_rows_built [OF s1(2) _ rows this] distinct_open_pairs
  obtain s2 R pr where s2: "foldR (\<lambda>p. append_row (fst p) (snd p)) (open_pairs board) s1 = Inr s2"
      "built ?N (open_pairs board) C R pr s2" "sv_inout s2 = board" "sv_stack s2 = []"
    using s1(3,4) by auto
  have "foldR (\<lambda>i. foldR (\<lambda>v s. if allowed ?f i v then append_row i v s else Inr s) [1..<10]) (cell_columns board) s1 = Inr s2"
    unfolding foldR_filter by (rule trans [OF foldR_concat s2(1) [unfolded open_pairs_def]])
  moreover have "bindR (foldR append_column (cell_columns board) s0) (foldR append_column (unit_columns ?f)) = Inr s1"
    using s1(1) by (simp add: foldR_append)
  ultimately have "SudokuSolver_new board = Inr s2"
    by (auto simp: SudokuSolver_new_def new_column_def Let_def kMaxNodes_def s0_def root simp flip: h_def)
  then show ?thesis using s2 by blast
qed

end
