(* ===== verification/Sudoku_Correct.thy ===== *)
theory Sudoku_Correct
  imports Sudoku_Build
begin

text \<open>
  From exact covers back to boards: the rows of an exact cover of the solver's matrix are the digits of a completed board,
  and every completion of the givens is one.
\<close>

section \<open>Names instead of nodes\<close>

text \<open>The pairs \<open>Q\<close> out of \<open>P\<close> meet every name of \<open>N\<close> exactly once.\<close>

definition name_cover :: "nat list \<Rightarrow> (nat \<times> nat) list \<Rightarrow> (nat \<times> nat) set \<Rightarrow> bool" where
  "name_cover N P Q \<longleftrightarrow> Q \<subseteq> set P \<and> (\<forall>n\<in>set N. \<exists>!p. p \<in> Q \<and> n \<in> set (row_names p))"

lemma built_meets:
  assumes b: "built N P C R pr s" and rw: "rw \<in> set R" and n: "n \<in> set N"
  shows "(the \<circ> sv_columns s) n \<in> n_col (sv_nodes s) ` set rw \<longleftrightarrow> n \<in> set (row_names (pr rw))"
proof -
  let ?col = "the \<circ> sv_columns s"
  have "n_col (sv_nodes s) ` set rw = ?col ` set (row_names (pr rw))" using builtD(11) [OF b rw] by (metis set_map)
  then show ?thesis using inj_on_image_mem_iff [OF built_columns(2) [OF b] n builtD(12) [OF b rw]] by simp
qed

lemma exact_names:
  assumes b: "built N P C R pr s" and e: "exact (n_col (sv_nodes s)) (set C) (set R) S"
  shows "name_cover N P (pr ` S)"
  unfolding name_cover_def
proof (intro conjI ballI)
  have S: "S \<subseteq> set R" using e by (simp add: exact_def)
  then have "pr ` S \<subseteq> set (map pr R)" by auto
  then show "pr ` S \<subseteq> set P" by (simp only: builtD(9) [OF b])
  fix n assume n: "n \<in> set N"
  then have "(the \<circ> sv_columns s) n \<in> set C" using built_columns(3) [OF b] by blast
  then have "\<exists>!rw. rw \<in> S \<and> (the \<circ> sv_columns s) n \<in> n_col (sv_nodes s) ` set rw" using e by (simp add: exact_def)
  moreover have "(the \<circ> sv_columns s) n \<in> n_col (sv_nodes s) ` set rw \<longleftrightarrow> n \<in> set (row_names (pr rw))" if "rw \<in> S" for rw
    using built_meets [OF b _ n] S that by blast
  ultimately show "\<exists>!p. p \<in> pr ` S \<and> n \<in> set (row_names p)" by (metis (no_types, lifting) imageE imageI)
qed

lemma names_exact:
  assumes b: "built N P C R pr s" and q: "name_cover N P Q"
  shows "exact (n_col (sv_nodes s)) (set C) (set R) {rw \<in> set R. pr rw \<in> Q}"
  unfolding exact_def
proof (intro conjI ballI)
  have inj: "inj_on pr (set R)" using builtD(8,9) [OF b] by (metis distinct_map)
  have QR: "\<exists>rw\<in>set R. p = pr rw" if "p \<in> Q" for p
  proof -
    have "p \<in> set (map pr R)" using q that unfolding builtD(9) [OF b] by (auto simp: name_cover_def)
    then show ?thesis by auto
  qed
  fix c assume "c \<in> set C"
  then obtain n where n: "n \<in> set N" "c = (the \<circ> sv_columns s) n" using built_columns(3) [OF b] by blast
  obtain p where p: "p \<in> Q" "n \<in> set (row_names p)" "\<And>p'. p' \<in> Q \<Longrightarrow> n \<in> set (row_names p') \<Longrightarrow> p' = p"
    using q n(1) unfolding name_cover_def by (metis (no_types, lifting))
  obtain rw where rw: "rw \<in> set R" "p = pr rw" using QR [OF p(1)] by blast
  show "\<exists>!rw. rw \<in> {rw \<in> set R. pr rw \<in> Q} \<and> c \<in> n_col (sv_nodes s) ` set rw"
  proof (intro ex1I [of _ rw] conjI)
    show "rw \<in> {rw \<in> set R. pr rw \<in> Q}" using rw p(1) by simp
    show "c \<in> n_col (sv_nodes s) ` set rw" using built_meets [OF b rw(1) n(1)] p(2) by (simp only: n(2) rw(2))
    fix rw' assume r: "rw' \<in> {rw \<in> set R. pr rw \<in> Q} \<and> c \<in> n_col (sv_nodes s) ` set rw'"
    then have "n \<in> set (row_names (pr rw'))" using built_meets [OF b _ n(1)] unfolding n(2) by blast
    then have "pr rw' = pr rw" using p(3) r rw(2) by blast
    then show "rw' = rw" using inj_onD [OF inj] r rw(1) by blast
  qed
qed simp

section \<open>Reading a row\<close>

lemma built_row_val:
  assumes b: "built N P C R pr s" and rw: "rw \<in> set R" "x \<in> set rw" and p: "fst (pr rw) < 81" "1 \<le> snd (pr rw)" "snd (pr rw) < 10"
  shows "row_cell_val ring_fuel (sv_nodes s) x (-1) (-1) = Some (int (fst (pr rw)), int (snd (pr rw)))"
proof -
  let ?h = "sv_nodes s" and ?i = "fst (pr rw)" and ?v = "snd (pr rw)"
  have names: "map (n_name ?h) rw = map int (row_names (pr rw))" by (rule builtD(10) [OF b rw(1)])
  then have "length rw = length (row_names (pr rw))" by (metis length_map)
  then have "length rw = 4" by (simp add: row_names_def)
  then obtain x0 x1 x2 x3 where xs: "rw = [x0, x1, x2, x3]" by (auto simp: length_Suc_conv numeral_eq_Suc)
  obtain V where m: "matrix_ok 0 (insert 0 (set C)) R C V (set R) ?h" using builtD(2) [OF b] by blast
  have "ring (n_right ?h) (n_left ?h) x0 [x1, x2, x3]" using matrix_okD(10) [OF m rw(1)] by (simp add: row_ok_def xs)
  then have nxt: "n_right ?h x0 = x1" "n_right ?h x1 = x2" "n_right ?h x2 = x3" "n_right ?h x3 = x0" by (simp_all add: ring_def)
  have n0: "n_name ?h x0 = int ?i" and n1: "n_name ?h x1 = int (100 * 1 + cell_row ?i * 10 + ?v)"
    and n2: "n_name ?h x2 = int (100 * 2 + cell_col ?i * 10 + ?v)" and n3: "n_name ?h x3 = int (100 * 3 + cell_box ?i * 10 + ?v)"
    using names by (simp_all add: xs row_names_def unit_names)
  have u: "cell_row ?i < 10" "cell_col ?i < 10" "cell_box ?i < 10" using unit_bounds [of ?i] p(1) by (simp_all add: kCells_def)
  have digit: "cmod (int k) 10 = int ?v" if "k mod 10 = ?v" for k using that by (simp add: cmod_nonneg flip: of_nat_mod) (metis of_nat_mod of_nat_numeral)
  have d: "cmod (n_name ?h x1) 10 = int ?v" "cmod (n_name ?h x2) 10 = int ?v" "cmod (n_name ?h x3) 10 = int ?v"
    unfolding n1 n2 n3 by (rule digit, rule name_digits(1) [OF u(1) p(3)], rule digit, rule name_digits(1) [OF u(2) p(3)],
      rule digit, rule name_digits(1) [OF u(3) p(3)])
  have big: "\<not> n_name ?h x1 < 100" "\<not> n_name ?h x2 < 100" "\<not> n_name ?h x3 < 100" "n_name ?h x0 < 100"
    unfolding n0 n1 n2 n3 using p(1) by simp_all
  obtain k where fuel: "ring_fuel = Suc (Suc (Suc (Suc (Suc k))))"
    using that [of 3237] by (simp add: ring_fuel_def kMaxNodes_def)
  have "x = x0 \<or> x = x1 \<or> x = x2 \<or> x = x3" using rw(2) by (auto simp: xs)
  moreover have "fst (pr rw) < 100" using p(1) by simp
  ultimately show ?thesis unfolding fuel by (elim disjE) (simp_all add: nxt d big n0)
qed
definition put_pairs :: "(nat \<times> nat) list \<Rightarrow> int list \<Rightarrow> int list" where
  "put_pairs = fold (\<lambda>p io. io[fst p := int (snd p)])"

lemma built_write:
  assumes b: "built N P C R pr s" and p: "\<And>p. p \<in> set P \<Longrightarrow> fst p < 81 \<and> 1 \<le> snd p \<and> snd p < 10"
  shows "set ns \<subseteq> set (concat R) \<Longrightarrow>
    write_solution (sv_nodes s) ns io = Some (put_pairs (map (\<lambda>x. pr (row_of R x)) ns) io)"
proof (induction ns arbitrary: io)
  case (Cons n ns)
  obtain V where m: "matrix_ok 0 (insert 0 (set C)) R C V (set R) (sv_nodes s)" using builtD(2) [OF b] by blast
  obtain rw where rw: "rw \<in> set R" "n \<in> set rw" using Cons.prems by auto
  have "row_of R n = rw" by (rule row_of_mem [OF matrix_okD(11) [OF m] rw])
  moreover have "pr rw \<in> set P" using rw(1) builtD(9) [OF b] by (metis image_eqI set_map)
  then have "row_cell_val ring_fuel (sv_nodes s) n (-1) (-1) = Some (int (fst (pr rw)), int (snd (pr rw)))"
    using built_row_val [OF b rw] p by blast
  ultimately show ?case using Cons by (simp add: put_pairs_def)
qed (simp add: put_pairs_def)

lemma put_pairs_nth:
  "length (put_pairs ps io) = length io"
  "i < length io \<Longrightarrow> i \<notin> fst ` set ps \<Longrightarrow> put_pairs ps io ! i = io ! i"
  "i < length io \<Longrightarrow> (i, v) \<in> set ps \<Longrightarrow> (\<And>w. (i, w) \<in> set ps \<Longrightarrow> w = v) \<Longrightarrow> put_pairs ps io ! i = int v"
proof (induction ps arbitrary: io)
  case (Cons p ps)
  have step: "put_pairs (p # ps) io = put_pairs ps (io[fst p := int (snd p)])" for io by (simp add: put_pairs_def)
  { case 1 show ?case using Cons.IH(1) by (simp add: step) }
  { case 2 then show ?case using Cons.IH(2) by (simp add: step) }
  { case 3
    show ?case
    proof (cases "(i, v) \<in> set ps")
      case True
      then have "put_pairs ps (io[fst p := int (snd p)]) ! i = int v"
        by (intro Cons.IH(3)) (use 3(1,3) in simp_all)
      then show ?thesis by (simp only: step)
    next
      case False
      then have p: "p = (i, v)" using 3(2) by auto
      have "i \<notin> fst ` set ps" using 3(3) False by fastforce
      then show ?thesis unfolding step using Cons.IH(2) 3(1) by (simp add: p)
    qed }
qed (simp_all add: put_pairs_def)

section \<open>Boards\<close>

text \<open>A completed board: digits, and no two cells of a row, a column or a box with the same one.\<close>

definition sudoku_solution :: "int list \<Rightarrow> bool" where
  "sudoku_solution g \<longleftrightarrow> length g = kCells \<and> (\<forall>i<kCells. 1 \<le> g ! i \<and> g ! i \<le> 9) \<and>
     (\<forall>i<kCells. \<forall>j<kCells. i \<noteq> j \<longrightarrow> cell_row i = cell_row j \<or> cell_col i = cell_col j \<or> cell_box i = cell_box j \<longrightarrow> g ! i \<noteq> g ! j)"

definition extends :: "int list \<Rightarrow> int list \<Rightarrow> bool" where
  "extends board g \<longleftrightarrow> (\<forall>i<kCells. board ! i \<noteq> 0 \<longrightarrow> g ! i = board ! i)"

text \<open>Every unit has nine cells.\<close>

lemma unit_counts:
  "list_all (\<lambda>r. length (filter (\<lambda>i. cell_row i = r) [0..<81]) = 9) [0..<9]"
  "list_all (\<lambda>r. length (filter (\<lambda>i. cell_col i = r) [0..<81]) = 9) [0..<9]"
  "list_all (\<lambda>r. length (filter (\<lambda>i. cell_box i = r) [0..<81]) = 9) [0..<9]"
  by code_simp+

lemma unit_card:
  assumes "r < 9"
  shows "card {i \<in> {..<kCells}. cell_row i = r} = 9" "card {i \<in> {..<kCells}. cell_col i = r} = 9"
    "card {i \<in> {..<kCells}. cell_box i = r} = 9"
proof -
  have c: "card {i \<in> {..<kCells}. u i = r} = length (filter (\<lambda>i. u i = r) [0..<81])" for u :: "nat \<Rightarrow> nat"
  proof -
    have "{i \<in> {..<kCells}. u i = r} = set (filter (\<lambda>i. u i = r) [0..<81])" by (auto simp: kCells_def simp del: upt_rec_numeral)
    moreover have "distinct (filter (\<lambda>i. u i = r) [0..<81])" by (simp del: upt_rec_numeral)
    ultimately show ?thesis by (simp only: distinct_card)
  qed
  have r: "r \<in> set [0..<9]" using assms by (simp del: upt_rec_numeral)
  have n: "length (filter (\<lambda>i. cell_row i = r) [0..<81]) = 9" "length (filter (\<lambda>i. cell_col i = r) [0..<81]) = 9"
    "length (filter (\<lambda>i. cell_box i = r) [0..<81]) = 9"
    using unit_counts r unfolding list_all_iff by blast+
  show "card {i \<in> {..<kCells}. cell_row i = r} = 9" by (rule trans [OF c n(1)])
  show "card {i \<in> {..<kCells}. cell_col i = r} = 9" by (rule trans [OF c n(2)])
  show "card {i \<in> {..<kCells}. cell_box i = r} = 9" by (rule trans [OF c n(3)])
qed

text \<open>Nine cells with digits hold every digit exactly when no digit is there twice.\<close>

lemma unit_digits:
  fixes g :: "nat \<Rightarrow> int"
  assumes c: "card U = 9"
  shows "{1..9} \<subseteq> g ` U \<Longrightarrow> inj_on g U" "g ` U \<subseteq> {1..9} \<Longrightarrow> inj_on g U \<Longrightarrow> g ` U = {1..9}"
proof -
  have fin: "finite U" using c by (metis card.infinite numeral_eq_iff zero_neq_numeral)
  show "inj_on g U" if "{1..9} \<subseteq> g ` U"
  proof -
    have "card {1..9::int} \<le> card (g ` U)" using that fin by (intro card_mono) auto
    moreover have "card (g ` U) \<le> card U" by (rule card_image_le [OF fin])
    ultimately show ?thesis using c by (intro eq_card_imp_inj_on [OF fin]) simp
  qed
  show "g ` U = {1..9}" if "g ` U \<subseteq> {1..9}" "inj_on g U"
    using that c card_image [of g U] by (intro card_subset_eq) auto
qed

lemma solution_unit:
  assumes g: "sudoku_solution g" and u: "u \<in> {cell_row, cell_col, cell_box}" and r: "r < 9" and v: "1 \<le> v" "v \<le> 9"
  shows "\<exists>!i. i < kCells \<and> u i = r \<and> g ! i = v"
proof -
  let ?U = "{i \<in> {..<kCells}. u i = r}"
  have diff: "g ! i \<noteq> g ! j" if "i \<in> ?U" "j \<in> ?U" "i \<noteq> j" for i j
  proof -
    have "cell_row i = cell_row j \<or> cell_col i = cell_col j \<or> cell_box i = cell_box j" using u that by auto
    then show ?thesis using g that unfolding sudoku_solution_def by blast
  qed
  then have inj: "inj_on (\<lambda>i. g ! i) ?U" unfolding inj_on_def by blast
  have "(\<lambda>i. g ! i) ` ?U \<subseteq> {1..9}" using g by (auto simp: sudoku_solution_def)
  moreover have "card ?U = 9" using u unit_card [OF r] by blast
  ultimately have "(\<lambda>i. g ! i) ` ?U = {1..9}" using unit_digits(2) inj by blast
  then have "v \<in> (\<lambda>i. g ! i) ` ?U" using v by simp
  then obtain i where "i < kCells" "u i = r" "g ! i = v" by auto
  then show ?thesis using diff by (intro ex1I [of _ i]) auto
qed

lemma unit_solution:
  assumes len: "length g = kCells" and digits: "\<And>i. i < kCells \<Longrightarrow> 1 \<le> g ! i \<and> g ! i \<le> 9"
    and every: "\<And>u r v. u \<in> {cell_row, cell_col, cell_box} \<Longrightarrow> r < 9 \<Longrightarrow> 1 \<le> v \<Longrightarrow> v \<le> 9 \<Longrightarrow> \<exists>i<kCells. u i = r \<and> g ! i = v"
  shows "sudoku_solution g"
proof -
  have "g ! i \<noteq> g ! j" if u: "u \<in> {cell_row, cell_col, cell_box}" and ij: "i < kCells" "j < kCells" "i \<noteq> j" "u i = u j" for u i j
  proof -
    let ?U = "{k \<in> {..<kCells}. u k = u i}"
    have r: "u i < 9" using u unit_bounds [OF ij(1)] by auto
    have "{1..9} \<subseteq> (\<lambda>k. g ! k) ` ?U"
    proof
      fix v :: int assume "v \<in> {1..9}"
      then obtain k where "k < kCells" "u k = u i" "g ! k = v" using every [OF u r, of v] by auto
      then show "v \<in> (\<lambda>k. g ! k) ` ?U" by blast
    qed
    moreover have "card ?U = 9" using u unit_card [OF r] by blast
    ultimately have "inj_on (\<lambda>k. g ! k) ?U" using unit_digits(1) by blast
    then show ?thesis using ij by (auto dest: inj_onD)
  qed
  then show ?thesis using len digits unfolding sudoku_solution_def by blast
qed

text \<open>Which names a row meets.\<close>

lemma in_row_names:
  assumes p: "fst p < kCells" "1 \<le> snd p" "snd p < 10"
  shows "i < kCells \<Longrightarrow> i \<in> set (row_names p) \<longleftrightarrow> i = fst p"
    "r < 9 \<Longrightarrow> v < 10 \<Longrightarrow> get_row_col r v \<in> set (row_names p) \<longleftrightarrow> cell_row (fst p) = r \<and> snd p = v"
    "r < 9 \<Longrightarrow> v < 10 \<Longrightarrow> get_col_col r v \<in> set (row_names p) \<longleftrightarrow> cell_col (fst p) = r \<and> snd p = v"
    "r < 9 \<Longrightarrow> v < 10 \<Longrightarrow> get_box_col r v \<in> set (row_names p) \<longleftrightarrow> cell_box (fst p) = r \<and> snd p = v"
proof -
  note u = unit_bounds [OF p(1)]
  have inj: "10 * a + v = 10 * b + w \<longleftrightarrow> a = b \<and> v = w" if "v < 10" "w < 10" for a b v w :: nat
  proof
    assume e: "10 * a + v = 10 * b + w"
    then have "(10 * a + v) mod 10 = (10 * b + w) mod 10" by (rule arg_cong)
    then have "v = w" using that by simp
    with e show "a = b \<and> v = w" by simp
  qed simp
  show "i < kCells \<Longrightarrow> i \<in> set (row_names p) \<longleftrightarrow> i = fst p" by (auto simp: row_names_def unit_names kCells_def)
  show "r < 9 \<Longrightarrow> v < 10 \<Longrightarrow> get_row_col r v \<in> set (row_names p) \<longleftrightarrow> cell_row (fst p) = r \<and> snd p = v"
    using inj [of v "snd p" r "cell_row (fst p)"] p u by (auto simp: row_names_def unit_names kCells_def algebra_simps)
  show "r < 9 \<Longrightarrow> v < 10 \<Longrightarrow> get_col_col r v \<in> set (row_names p) \<longleftrightarrow> cell_col (fst p) = r \<and> snd p = v"
    using inj [of v "snd p" r "cell_col (fst p)"] p u by (auto simp: row_names_def unit_names kCells_def algebra_simps)
  show "r < 9 \<Longrightarrow> v < 10 \<Longrightarrow> get_box_col r v \<in> set (row_names p) \<longleftrightarrow> cell_box (fst p) = r \<and> snd p = v"
    using inj [of v "snd p" r "cell_box (fst p)"] p u by (auto simp: row_names_def unit_names kCells_def algebra_simps)
qed

section \<open>Exact covers are completions\<close>

abbreviation names :: "int list \<Rightarrow> nat list" where
  "names board \<equiv> cell_columns board @ unit_columns (board_flags board)"

lemma open_pairs_bounds: "p \<in> set (open_pairs board) \<Longrightarrow> fst p < kCells \<and> 1 \<le> snd p \<and> snd p < 10 \<and> board ! fst p = 0"
  by (cases p) (simp add: in_open_pairs)

lemma cover_cell:
  assumes q: "name_cover (names board) (open_pairs board) Q" and i: "i < kCells" "board ! i = 0"
  shows "\<exists>v. (i, v) \<in> Q \<and> 1 \<le> v \<and> v < 10 \<and> (\<forall>w. (i, w) \<in> Q \<longrightarrow> w = v)"
proof -
  have Q: "fst p < kCells \<and> 1 \<le> snd p \<and> snd p < 10" if "p \<in> Q" for p
    using q open_pairs_bounds that unfolding name_cover_def by blast
  have "i \<in> set (names board)" using i by (simp add: in_cell_columns)
  then have "\<exists>!p. p \<in> Q \<and> i \<in> set (row_names p)" using q by (simp only: name_cover_def)
  moreover have "i \<in> set (row_names p) \<longleftrightarrow> i = fst p" if "p \<in> Q" for p using in_row_names(1) [of p i] Q [OF that] i(1) by blast
  ultimately have "\<exists>!p. p \<in> Q \<and> i = fst p" by (metis (no_types, lifting))
  then obtain p where p: "p \<in> Q" "i = fst p" "\<And>p'. p' \<in> Q \<Longrightarrow> i = fst p' \<Longrightarrow> p' = p" by blast
  have "(i, snd p) \<in> Q" using p(1,2) by simp
  moreover have "w = snd p" if "(i, w) \<in> Q" for w using p(3) [OF that] by auto
  ultimately show ?thesis using Q [OF p(1)] by blast
qed

lemma cover_unit:
  assumes q: "name_cover (names board) (open_pairs board) Q" and u: "u \<in> {cell_row, cell_col, cell_box}"
    and r: "r < 9" and v: "1 \<le> v" "v < 10"
  shows "(\<exists>i<kCells. u i = r \<and> nat (board ! i) = v) \<or> (\<exists>p\<in>Q. u (fst p) = r \<and> snd p = v)"
proof -
  have Q: "fst p < kCells" "1 \<le> snd p" "snd p < 10" if "p \<in> Q" for p
    using q open_pairs_bounds that unfolding name_cover_def by blast+
  have ex: "\<exists>p\<in>Q. n \<in> set (row_names p)" if "n \<in> set (names board)" for n
    using q that unfolding name_cover_def by (metis (no_types, lifting))
  consider "u = cell_row" | "u = cell_col" | "u = cell_box" using u by blast
  then show ?thesis
  proof cases
    case 1
    show ?thesis
    proof (cases "fl_rows (board_flags board) r v")
      case False
      then have "get_row_col r v \<in> set (names board)" using in_unit_columns(1) [OF r v] by simp
      then show ?thesis using ex in_row_names(2) [OF Q r v(2)] 1 by blast
    qed (use board_flags_iff(1) 1 in blast)
  next
    case 2
    show ?thesis
    proof (cases "fl_cols (board_flags board) r v")
      case False
      then have "get_col_col r v \<in> set (names board)" using in_unit_columns(2) [OF r v] by simp
      then show ?thesis using ex in_row_names(3) [OF Q r v(2)] 2 by blast
    qed (use board_flags_iff(2) 2 in blast)
  next
    case 3
    show ?thesis
    proof (cases "fl_boxes (board_flags board) r v")
      case False
      then have "get_box_col r v \<in> set (names board)" using in_unit_columns(3) [OF r v] by simp
      then show ?thesis using ex in_row_names(4) [OF Q r v(2)] 3 by blast
    qed (use board_flags_iff(3) 3 in blast)
  qed
qed

lemma cover_solution:
  assumes q: "name_cover (names board) (open_pairs board) Q"
    and b: "\<And>i. i < kCells \<Longrightarrow> 0 \<le> board ! i \<and> board ! i \<le> 9"
    and g: "length g = kCells" "\<And>i v. (i, v) \<in> Q \<Longrightarrow> g ! i = int v" "extends board g"
  shows "sudoku_solution g"
proof (rule unit_solution [OF g(1)])
  fix i assume i: "i < kCells"
  show "1 \<le> g ! i \<and> g ! i \<le> 9"
  proof (cases "board ! i = 0")
    case True
    from cover_cell [OF q i True] obtain v where "(i, v) \<in> Q" "1 \<le> v" "v < 10" by blast
    then show ?thesis using g(2) by force
  next
    case False
    then show ?thesis using g(3) b [OF i] i by (auto simp: extends_def)
  qed
next
  fix u :: "nat \<Rightarrow> nat" and r :: nat and v :: int assume u: "u \<in> {cell_row, cell_col, cell_box}" and r: "r < 9" and v: "1 \<le> v" "v \<le> 9"
  have nv: "1 \<le> nat v" "nat v < 10" using v by simp_all
  from cover_unit [OF q u r nv] show "\<exists>i<kCells. u i = r \<and> g ! i = v"
  proof (elim disjE exE conjE bexE)
    fix i assume i: "i < kCells" "u i = r" "nat (board ! i) = nat v"
    then have "board ! i = v" using v(1) b [OF i(1)] by simp
    then have "g ! i = v" using g(3) i(1) v(1) unfolding extends_def by auto
    with i show ?thesis by blast
  next
    fix p assume p: "p \<in> Q" "u (fst p) = r" "snd p = nat v"
    have "(fst p, nat v) \<in> Q" using p(1) by (simp flip: p(3))
    then have "g ! fst p = v" using g(2) v(1) by fastforce
    moreover have "fst p < kCells" using q p(1) open_pairs_bounds unfolding name_cover_def by blast
    ultimately show ?thesis using p(2) by blast
  qed
qed

lemma unit_column_cases:
  assumes "n \<in> set (unit_columns f)"
  shows "\<exists>r<9. \<exists>v. 1 \<le> v \<and> v < 10 \<and> (n = get_row_col r v \<and> \<not> fl_rows f r v \<or> n = get_col_col r v \<and> \<not> fl_cols f r v \<or>
    n = get_box_col r v \<and> \<not> fl_boxes f r v)"
proof -
  obtain r v where "r < 9" "1 \<le> v" "v < 10" "n \<in> set (unit_value f r v)"
    using assms by (auto simp: unit_columns_alt simp del: upt_rec_numeral)
  then show ?thesis by (intro exI [of _ r] conjI exI [of _ v]) (auto simp: unit_value_def split: if_splits)
qed

lemma solution_cover:
  assumes g: "sudoku_solution g" "extends board g"
  shows "name_cover (names board) (open_pairs board) {p. fst p < kCells \<and> board ! fst p = 0 \<and> g ! fst p = int (snd p)}"
proof -
  let ?Q = "{p. fst p < kCells \<and> board ! fst p = 0 \<and> g ! fst p = int (snd p)}"
  have dig: "1 \<le> g ! i" "g ! i \<le> 9" if "i < kCells" for i using g(1) that by (simp_all add: sudoku_solution_def)
  have Q: "fst p < kCells" "1 \<le> snd p" "snd p < 10" if "p \<in> ?Q" for p using that dig [of "fst p"] by auto
  have given: "g ! i = board ! i" if "i < kCells" "board ! i \<noteq> 0" for i using g(2) that by (simp add: extends_def)
  have other: "nat (board ! j) \<noteq> snd p" if p: "p \<in> ?Q" and j: "j < kCells" "u j = u (fst p)" and u: "u \<in> {cell_row, cell_col, cell_box}" for p j u
  proof
    assume e: "nat (board ! j) = snd p"
    then have "board ! j = int (snd p)" "board ! j \<noteq> 0" using Q(2) [OF p] by simp_all
    then have gj: "g ! j = g ! fst p" "j \<noteq> fst p" using given [OF j(1)] p by auto
    have r: "u j < 9" using u unit_bounds [OF j(1)] by auto
    from solution_unit [OF g(1) u r dig [OF j(1)]] show False using gj j p by auto
  qed
  have allow: "p \<in> set (open_pairs board)" if p: "p \<in> ?Q" for p
  proof -
    have "allowed (board_flags board) (fst p) (snd p)"
      unfolding allowed_def board_flags_iff using other [OF p] by blast
    then show ?thesis using p Q [OF p] in_open_pairs [of "fst p" "snd p"] by simp
  qed
  have one: "\<exists>!p. p \<in> ?Q \<and> u (fst p) = r \<and> snd p = v"
    if u: "u \<in> {cell_row, cell_col, cell_box}" and r: "r < 9" and v: "1 \<le> v" "v < 10"
      and free: "\<not> (\<exists>i<kCells. u i = r \<and> nat (board ! i) = v)" for u r v
  proof -
    have iv: "1 \<le> int v" "int v \<le> 9" using v by simp_all
    from solution_unit [OF g(1) u r iv] obtain i where i: "i < kCells" "u i = r" "g ! i = int v"
      "\<And>j. j < kCells \<Longrightarrow> u j = r \<Longrightarrow> g ! j = int v \<Longrightarrow> j = i" by blast
    have "board ! i = 0"
    proof (rule ccontr)
      assume "board ! i \<noteq> 0"
      then have "board ! i = int v" using given i(1,3) by simp
      then show False using free i(1,2) by auto
    qed
    then have "p \<in> ?Q \<and> u (fst p) = r \<and> snd p = v \<longleftrightarrow> p = (i, v)" for p
      using i(1-3) i(4) [of "fst p"] by (cases p) auto
    then show ?thesis by simp
  qed
  show ?thesis
    unfolding name_cover_def
  proof (intro conjI ballI)
    show "?Q \<subseteq> set (open_pairs board)" using allow by blast
    fix n assume "n \<in> set (names board)"
    then consider "n \<in> set (cell_columns board)" | "n \<in> set (unit_columns (board_flags board))" by auto
    then show "\<exists>!p. p \<in> ?Q \<and> n \<in> set (row_names p)"
    proof cases
      case 1
      then have n: "n < kCells" "board ! n = 0" by (simp_all add: in_cell_columns)
      have "p \<in> ?Q \<and> n \<in> set (row_names p) \<longleftrightarrow> p = (n, nat (g ! n))" for p
        using in_row_names(1) [OF Q n(1), of p] n dig [OF n(1)] by (cases p) auto
      then show ?thesis by simp
    next
      case 2
      from unit_column_cases [OF this] obtain r v where rv: "r < 9" "1 \<le> v" "v < 10" and
        n: "n = get_row_col r v \<and> \<not> fl_rows (board_flags board) r v \<or> n = get_col_col r v \<and> \<not> fl_cols (board_flags board) r v \<or>
          n = get_box_col r v \<and> \<not> fl_boxes (board_flags board) r v" by blast
      from n show ?thesis
      proof (elim disjE conjE)
        assume n: "n = get_row_col r v" "\<not> fl_rows (board_flags board) r v"
        have "\<exists>!p. p \<in> ?Q \<and> cell_row (fst p) = r \<and> snd p = v" by (rule one) (use rv n(2) board_flags_iff(1) in auto)
        moreover have "n \<in> set (row_names p) \<longleftrightarrow> cell_row (fst p) = r \<and> snd p = v" if "p \<in> ?Q" for p
          using in_row_names(2) [OF Q [OF that] rv(1,3)] n(1) by simp
        ultimately show ?thesis by (metis (no_types, lifting))
      next
        assume n: "n = get_col_col r v" "\<not> fl_cols (board_flags board) r v"
        have "\<exists>!p. p \<in> ?Q \<and> cell_col (fst p) = r \<and> snd p = v" by (rule one) (use rv n(2) board_flags_iff(2) in auto)
        moreover have "n \<in> set (row_names p) \<longleftrightarrow> cell_col (fst p) = r \<and> snd p = v" if "p \<in> ?Q" for p
          using in_row_names(3) [OF Q [OF that] rv(1,3)] n(1) by simp
        ultimately show ?thesis by (metis (no_types, lifting))
      next
        assume n: "n = get_box_col r v" "\<not> fl_boxes (board_flags board) r v"
        have "\<exists>!p. p \<in> ?Q \<and> cell_box (fst p) = r \<and> snd p = v" by (rule one) (use rv n(2) board_flags_iff(3) in auto)
        moreover have "n \<in> set (row_names p) \<longleftrightarrow> cell_box (fst p) = r \<and> snd p = v" if "p \<in> ?Q" for p
          using in_row_names(4) [OF Q [OF that] rv(1,3)] n(1) by simp
        ultimately show ?thesis by (metis (no_types, lifting))
      qed
    qed
  qed
qed

section \<open>The solver\<close>

lemma solve_built:
  assumes b: "built (names board) (open_pairs board) C R pr s" and io: "sv_inout s = board" "sv_stack s = []"
    and len: "length board = kCells" and dig: "\<And>i. i < kCells \<Longrightarrow> 0 \<le> board ! i \<and> board ! i \<le> 9"
  shows "(\<exists>s'. solve (kMaxNodes + 1) s = Some (True, s') \<and> sudoku_solution (sv_inout s') \<and> extends board (sv_inout s')) \<or>
    (solve (kMaxNodes + 1) s = Some (False, s) \<and> \<not> (\<exists>g. sudoku_solution g \<and> extends board g))"
proof -
  let ?h = "sv_nodes s"
  obtain V where m: "matrix_ok 0 (insert 0 (set C)) R C V (set R) ?h" using builtD(2) [OF b] by blast
  note M = matrix_okD [OF m]
  have P: "fst p < 81 \<and> 1 \<le> snd p \<and> snd p < 10" if "p \<in> set (open_pairs board)" for p
    using open_pairs_bounds [OF that] by (simp add: kCells_def)
  have prP: "pr rw \<in> set (open_pairs board)" if "rw \<in> set R" for rw using that builtD(9) [OF b] by (metis image_eqI set_map)
  have "row_cell_val ring_fuel ?h x (-1) (-1) \<noteq> None" if x: "x \<in> set (concat R)" for x
  proof -
    obtain rw where rw: "rw \<in> set R" "x \<in> set rw" using x by auto
    from built_row_val [OF b rw] P [OF prP [OF rw(1)]] show ?thesis by simp
  qed
  then have "ready (insert 0 (set C)) R C V (set R) s"
    using m builtD(1) [OF b] io(2) by (simp add: ready_def readable_def)
  moreover have "length C < kMaxNodes + 1"
  proof -
    have "distinct C" "set C \<subseteq> {..<kMaxNodes}" using M(1,8) by (auto simp: ring_def)
    then have "length C \<le> kMaxNodes" by (rule short_list)
    then show ?thesis by simp
  qed
  ultimately have "decides R s C (set R) (solve (kMaxNodes + 1) s)" by (rule solve_ok)
  then show ?thesis
    unfolding decides_def
  proof (elim disjE exE conjE)
    fix xs s' assume s': "solve (kMaxNodes + 1) s = Some (True, s')" and xs: "set xs \<subseteq> set (concat R)"
      and ex: "exact (n_col ?h) (set C) (set R) (row_of R ` set xs)"
      and w: "write_solution ?h (sv_stack s @ xs) (sv_inout s) = Some (sv_inout s')"
    let ?ps = "map (\<lambda>x. pr (row_of R x)) xs"
    have out: "sv_inout s' = put_pairs ?ps board" using w built_write [OF b P xs] by (simp add: io)
    have Q: "pr ` (row_of R ` set xs) = set ?ps" by auto
    have q: "name_cover (names board) (open_pairs board) (set ?ps)" using exact_names [OF b ex] by (simp only: Q)
    have in_ps: "fst p < kCells \<and> board ! fst p = 0" if "p \<in> set ?ps" for p
      using q that open_pairs_bounds unfolding name_cover_def by blast
    have val: "put_pairs ?ps board ! i = int v" if p: "(i, v) \<in> set ?ps" for i v
    proof (rule put_pairs_nth(3) [OF _ p])
      have i: "i < kCells" "board ! i = 0" using in_ps [OF p] by simp_all
      then show "i < length board" by (simp add: len)
      show "w = v" if "(i, w) \<in> set ?ps" for w using cover_cell [OF q i] p that by blast
    qed
    have ext: "extends board (put_pairs ?ps board)"
      unfolding extends_def
    proof (intro allI impI)
      fix i assume i: "i < kCells" "board ! i \<noteq> 0"
      then have "i \<notin> fst ` set ?ps" using in_ps by auto
      then show "put_pairs ?ps board ! i = board ! i" using i(1) len by (intro put_pairs_nth(2)) simp_all
    qed
    have "sudoku_solution (put_pairs ?ps board)"
      by (rule cover_solution [OF q dig _ val ext]) (simp_all add: put_pairs_nth(1) len)
    with ext s' show ?thesis by (auto simp: out)
  next
    assume no: "solve (kMaxNodes + 1) s = Some (False, s)" "\<not> (\<exists>S. exact (n_col ?h) (set C) (set R) S)"
    have "\<not> (sudoku_solution g \<and> extends board g)" for g
      using names_exact [OF b solution_cover] no(2) by blast
    with no(1) show ?thesis by blast
  qed
qed

text \<open>C33. Covering a column of the solver's matrix and uncovering it again restores every member of every node.\<close>

theorem SudokuSolver_uncover_restores:
  assumes "SudokuSolver_new board = Inr s" "sv_columns s n = Some c"
  shows "\<exists>h. cover c (sv_nodes s) = Some h \<and> uncover c h = Some (sv_nodes s)"
proof -
  obtain C R pr where b: "built (names board) (open_pairs board) C R pr s"
    using SudokuSolver_new_ok [of board] assms(1) by auto
  obtain V where m: "matrix_ok 0 (insert 0 (set C)) R C V (set R) (sv_nodes s)" using builtD(2) [OF b] by blast
  have "n \<in> set (names board)"
    using assms(2) builtD(5,7) [OF b] by (metis map_of_zip_is_None option.distinct(1))
  then have "c \<in> set C" using built_columns(1) [OF b] assms(2) by fastforce
  from cover_ok [OF m this] show ?thesis by blast
qed

text \<open>
  C34. The constructor passes all its assertions on every board and stays within the array of nodes; there are at most 324
  columns and four nodes for each value left open in a cell.
\<close>

theorem SudokuSolver_fits:
  "\<exists>s. SudokuSolver_new board = Inr s \<and> sv_inout s = board \<and> sv_root s = 0 \<and>
     sv_cur_node s = 1 + length (cell_columns board @ unit_columns (board_flags board)) + 4 * length (open_pairs board) \<and>
     sv_cur_node s \<le> kMaxNodes"
proof -
  obtain s C R pr where s: "SudokuSolver_new board = Inr s" "built (names board) (open_pairs board) C R pr s" "sv_inout s = board"
    using SudokuSolver_new_ok [of board] by blast
  note B = builtD [OF s(2)]
  have "sv_cur_node s \<le> kMaxNodes"
    using B(4) length_columns [of board "board_flags board"] length_open_pairs [of board] by (simp add: kMaxNodes_def)
  then show ?thesis using s B(1,4) by blast
qed

lemma solveSudoku_spec:
  assumes len: "length puzzle = kCells"
  shows "(\<exists>g. solveSudoku puzzle = Inr (Some (show_board g)) \<and> sudoku_solution g \<and> extends (read_board puzzle) g) \<or>
    (solveSudoku puzzle = Inr (Some kNoSolution) \<and> \<not> (\<exists>g. sudoku_solution g \<and> extends (read_board puzzle) g))"
proof -
  let ?b = "read_board puzzle"
  have lb: "length ?b = kCells" by (simp add: read_board_def len)
  show ?thesis
  proof (cases "list_all (\<lambda>b. 0 \<le> b \<and> b \<le> 9) ?b")
    case True
    then have dig: "0 \<le> ?b ! i \<and> ?b ! i \<le> 9" if "i < kCells" for i using that lb by (simp add: list_all_length)
    obtain s C R pr where s: "SudokuSolver_new ?b = Inr s" "built (names ?b) (open_pairs ?b) C R pr s" "sv_inout s = ?b" "sv_stack s = []"
      using SudokuSolver_new_ok [of ?b] by blast
    have "solveSudoku puzzle = Inr (map_option (\<lambda>(found, s). if found then show_board (sv_inout s) else kNoSolution) (solve (kMaxNodes + 1) s))"
      using True len s(1) by (simp add: solveSudoku_def del: solve.simps)
    moreover have "(\<exists>s'. solve (kMaxNodes + 1) s = Some (True, s') \<and> sudoku_solution (sv_inout s') \<and> extends ?b (sv_inout s')) \<or>
        (solve (kMaxNodes + 1) s = Some (False, s) \<and> \<not> (\<exists>g. sudoku_solution g \<and> extends ?b g))"
      by (rule solve_built [OF s(2-4) lb]) (rule dig)
    ultimately show ?thesis by (elim disjE exE conjE) (simp_all del: solve.simps, blast)
  next
    case False
    then obtain i where i: "i < kCells" "\<not> (0 \<le> ?b ! i \<and> ?b ! i \<le> 9)" using lb by (auto simp: list_all_length)
    have "\<not> (sudoku_solution g \<and> extends ?b g)" for g
    proof
      assume g: "sudoku_solution g \<and> extends ?b g"
      then have "1 \<le> g ! i \<and> g ! i \<le> 9" using i(1) unfolding sudoku_solution_def by blast
      moreover have "?b ! i \<noteq> 0" using i(2) by auto
      then have "g ! i = ?b ! i" using g i(1) by (simp add: extends_def)
      ultimately show False using i(2) by simp
    qed
    moreover have "solveSudoku puzzle = Inr (Some kNoSolution)" using False len by (simp add: solveSudoku_def del: solve.simps)
    ultimately show ?thesis by blast
  qed
qed

text \<open>
  C2. \<open>solveSudoku\<close> decides the puzzle: it answers with a completed board that keeps the givens, or \<open>NoSolution\<close>, and then
  there is no such board. It always answers, whatever the characters of the puzzle are, contradictory givens included.
\<close>

theorem solveSudoku_decides:
  assumes len: "length puzzle = kCells"
  shows "(\<exists>g. solveSudoku puzzle = Inr (Some (show_board g)) \<and> sudoku_solution g \<and> extends (read_board puzzle) g) \<or>
    (solveSudoku puzzle = Inr (Some kNoSolution) \<and> \<not> (\<exists>g. sudoku_solution g \<and> extends (read_board puzzle) g))"
  by (rule solveSudoku_spec [OF len])

text \<open>The right answer to a puzzle.\<close>

definition solves :: "string \<Rightarrow> string \<Rightarrow> bool" where
  "solves puzzle result \<longleftrightarrow>
     (\<exists>g. result = show_board g \<and> sudoku_solution g \<and> extends (read_board puzzle) g) \<or>
     (result = kNoSolution \<and> \<not> (\<exists>g. sudoku_solution g \<and> extends (read_board puzzle) g))"

lemma solveSudoku_solves: "length puzzle = kCells \<Longrightarrow> \<exists>result. solveSudoku puzzle = Inr (Some result) \<and> solves puzzle result"
  using solveSudoku_spec [of puzzle] unfolding solves_def by blast

section \<open>Concrete puzzles\<close>

lemma solution_by_units:
  assumes "length g = kCells" "list_all (\<lambda>b. 1 \<le> b \<and> b \<le> 9) g"
    and d: "distinct (zip (map cell_row [0..<kCells]) g)" "distinct (zip (map cell_col [0..<kCells]) g)"
      "distinct (zip (map cell_box [0..<kCells]) g)"
  shows "sudoku_solution g"
proof -
  have diff: "g ! i \<noteq> g ! j" if dz: "distinct (zip (map u [0..<kCells]) g)" and ij: "i < kCells" "j < kCells" "i \<noteq> j" "u i = u j"
    for u :: "nat \<Rightarrow> nat" and i j
    using nth_eq_iff_index_eq [OF dz, of i j] ij assms(1) by (auto simp del: upt_rec_numeral)
  then show ?thesis
    using assms(1,2) diff [OF d(1)] diff [OF d(2)] diff [OF d(3)] unfolding sudoku_solution_def list_all_length by metis
qed

lemma extends_by_list:
  assumes "length board = kCells" "length g = kCells" "list_all2 (\<lambda>b v. b = 0 \<or> v = b) board g"
  shows "extends board g"
  using assms by (auto simp: extends_def list_all2_conv_all_nth)

definition example_puzzle :: string where
  "example_puzzle = ''530070000600195000098000060800060003400803001700020006060000280000419005000080079''"

definition example_answer :: "int list" where
  "example_answer = read_board ''534678912672195348198342567859761423426853791713924856961537284287419635345286179''"

lemma example_answer_ok: "sudoku_solution example_answer"
proof (rule solution_by_units)
  show "length example_answer = kCells" by code_simp
  show "list_all (\<lambda>b. 1 \<le> b \<and> b \<le> 9) example_answer" by code_simp
  show "distinct (zip (map cell_row [0..<kCells]) example_answer)" by code_simp
  show "distinct (zip (map cell_col [0..<kCells]) example_answer)" by code_simp
  show "distinct (zip (map cell_box [0..<kCells]) example_answer)" by code_simp
qed

lemma example_extends: "extends (read_board example_puzzle) example_answer"
proof (rule extends_by_list)
  show "length (read_board example_puzzle) = kCells" "length example_answer = kCells" by code_simp+
  show "list_all2 (\<lambda>b v. b = 0 \<or> v = b) (read_board example_puzzle) example_answer" by code_simp
qed

lemma clash_no_solution: "\<not> (sudoku_solution g \<and> extends (read_board (''55'' @ replicate 79 CHR ''0'')) g)"
proof
  let ?b = "read_board (''55'' @ replicate 79 CHR ''0'')"
  assume g: "sudoku_solution g \<and> extends ?b g"
  have b: "?b ! 0 = 5" "?b ! 1 = 5" by (simp_all add: read_board_def)
  then have "g ! 0 = 5" "g ! 1 = 5" using g by (simp_all add: extends_def kCells_def)
  moreover have "g ! 0 \<noteq> g ! 1"
    using g unfolding sudoku_solution_def by (auto simp: kCells_def cell_row_def)
  ultimately show False by simp
qed

theorem solveSudoku_decides_witness:
  "(\<exists>g. solveSudoku example_puzzle = Inr (Some (show_board g)) \<and> sudoku_solution g \<and> extends (read_board example_puzzle) g) \<and>
   solveSudoku (''55'' @ replicate 79 CHR ''0'') = Inr (Some kNoSolution)"
proof
  have "length example_puzzle = kCells" by (simp add: example_puzzle_def kCells_def)
  from solveSudoku_decides [OF this] example_answer_ok example_extends
  show "\<exists>g. solveSudoku example_puzzle = Inr (Some (show_board g)) \<and> sudoku_solution g \<and> extends (read_board example_puzzle) g" by blast
  have "length (''55'' @ replicate 79 CHR ''0'') = kCells" by (simp add: kCells_def)
  from solveSudoku_decides [OF this] clash_no_solution
  show "solveSudoku (''55'' @ replicate 79 CHR ''0'') = Inr (Some kNoSolution)" by blast
qed

theorem SudokuSolver_uncover_restores_witness:
  "\<exists>s c h. SudokuSolver_new (replicate 81 0) = Inr s \<and> sv_columns s 0 = Some c \<and> cover c (sv_nodes s) = Some h \<and>
     uncover c h = Some (sv_nodes s)"
proof -
  let ?b = "replicate 81 (0 :: int)"
  obtain s C R pr where s: "SudokuSolver_new ?b = Inr s" "built (names ?b) (open_pairs ?b) C R pr s"
    using SudokuSolver_new_ok [of ?b] by blast
  have "0 \<in> set (names ?b)" by (simp add: in_cell_columns kCells_def)
  then obtain c where c: "sv_columns s 0 = Some c" using built_columns(1) [OF s(2)] by blast
  from SudokuSolver_uncover_restores [OF s(1) c] s(1) c show ?thesis by blast
qed

end
