(* ===== verification/Sudoku_Server.thy ===== *)
theory Sudoku_Server
  imports Sudoku_Correct Net_TcpConnection Net_Lines Base_ThreadPool "HOL-Library.Multiset"
begin

text \<open>
  The servers of \<open>example/sudoku\<close>: a request is a line \<open>id:puzzle\<close> or \<open>puzzle\<close>, its answer the line \<open>id:result\<close> or
  \<open>result\<close>. \<open>server_basic.cc\<close> and \<open>server_multiloop.cc\<close> solve in the loop of the connection, \<open>server_threadpool.cc\<close> in a
  pool. Logging is left out.

  A callback that need not return has the value \<open>None\<close>; that it returns is part of the theorems.
\<close>

section \<open>The loop over the lines\<close>

text \<open>
  The loop of \<open>onMessage\<close>, the same in the servers and in the client: a line is processed; a line that is refused, or more
  than 100 bytes without a line end, end the conversation.
\<close>

lemma retrieveUntil_shrinks:
  assumes "Buffer_findCRLF buf = Some crlf" "Buffer_retrieveUntil buf (crlf + 2) = Inr buf'"
  shows "Buffer_readableBytes buf' < Buffer_readableBytes buf"
proof -
  obtain i where i: "crlf = Buffer_peek buf + i" "find_sub kCRLF (content buf) = Some i"
    using assms(1) by (auto simp: findCRLF_content)
  have le: "crlf + 2 \<le> Buffer_beginWrite buf" and r: "Buffer_retrieve buf (i + 2) = Inr buf'"
    using assms(2) i(1) by (auto simp: Buffer_retrieveUntil_def)
  then show ?thesis
    by (auto simp: Buffer_retrieve_def Buffer_retrieveAll_def buffer_observers i(1) split: if_splits)
qed

function serve_lines ::
    "(string \<Rightarrow> 'c \<Rightarrow> (bool \<times> 'c) result option) \<Rightarrow> (string \<Rightarrow> 'c \<Rightarrow> 'c result) \<Rightarrow> Buffer \<Rightarrow> 'c \<Rightarrow> (Buffer \<times> 'c) result option" where
  "serve_lines process refuse buf conn =
     (if kCells + 2 \<le> Buffer_readableBytes buf
      then (case Buffer_findCRLF buf of
              Some crlf \<Rightarrow>
                (let request = slice (Buffer_peek buf) crlf (b_buffer buf) in
                 case Buffer_retrieveUntil buf (crlf + 2) of
                   Inl e \<Rightarrow> Some (Inl e)
                 | Inr buf' \<Rightarrow>
                     (case process request conn of
                        None \<Rightarrow> None
                      | Some (Inl e) \<Rightarrow> Some (Inl e)
                      | Some (Inr (good, conn)) \<Rightarrow>
                          if good then serve_lines process refuse buf' conn
                          else Some (bindR (refuse (''Bad Request!'' @ kCRLF) conn) (\<lambda>conn. Inr (buf', conn)))))
            | None \<Rightarrow>
                if 100 < Buffer_readableBytes buf
                then Some (bindR (refuse (''Id too long!'' @ kCRLF) conn) (\<lambda>conn. Inr (buf, conn)))
                else Some (Inr (buf, conn)))
      else Some (Inr (buf, conn)))"
  by pat_completeness auto
termination serve_lines
  by (relation "measure (\<lambda>(process, refuse, buf, conn). Buffer_readableBytes buf)") (auto dest: retrieveUntil_shrinks)

declare serve_lines.simps [simp del]

section \<open>A request\<close>

definition request_id :: "string \<Rightarrow> string" where
  "request_id request = (case find_char CHR '':'' request of None \<Rightarrow> '''' | Some colon \<Rightarrow> take colon request)"

definition request_puzzle :: "string \<Rightarrow> string" where
  "request_puzzle request = (case find_char CHR '':'' request of None \<Rightarrow> request | Some colon \<Rightarrow> drop (colon + 1) request)"

definition result_line :: "string \<Rightarrow> string \<Rightarrow> string" where
  "result_line ident result = (if ident = '''' then result @ kCRLF else ident @ '':'' @ result @ kCRLF)"

text \<open>\<open>conn->send("..."); conn->shutdown();\<close>\<close>

definition send_and_shutdown :: "write_call \<Rightarrow> int \<Rightarrow> string \<Rightarrow> TcpConnection \<Rightarrow> TcpConnection result" where
  "send_and_shutdown write tid message conn = bindR (TcpConnection_send write tid message conn) (TcpConnection_shutdown tid)"

definition SudokuServer_processRequest :: "write_call \<Rightarrow> int \<Rightarrow> string \<Rightarrow> TcpConnection \<Rightarrow> (bool \<times> TcpConnection) result option" where
  "SudokuServer_processRequest write tid request conn =
     (if length (request_puzzle request) = kCells
      then (case solveSudoku (request_puzzle request) of
              Inl e \<Rightarrow> Some (Inl e)
            | Inr None \<Rightarrow> None
            | Inr (Some result) \<Rightarrow>
                Some (bindR (TcpConnection_send write tid (result_line (request_id request) result) conn) (\<lambda>conn. Inr (True, conn))))
      else Some (Inr (False, conn)))"

definition SudokuServer_onMessage :: "write_call \<Rightarrow> int \<Rightarrow> Buffer \<Rightarrow> TcpConnection \<Rightarrow> (Buffer \<times> TcpConnection) result option" where
  "SudokuServer_onMessage write tid = serve_lines (SudokuServer_processRequest write tid) (send_and_shutdown write tid)"

section \<open>The server with a thread pool\<close>

text \<open>
  A task is the call of the static \<open>solve\<close> with the puzzle and the identifier it was bound to. \<open>run\<close> executes it at
  once when the pool has no threads; the queue is unbounded, as the server sets no bound.
\<close>

type_synonym sudoku_task = "string \<times> string"

definition SudokuServer_solve :: "write_call \<Rightarrow> int \<Rightarrow> sudoku_task \<Rightarrow> TcpConnection \<Rightarrow> TcpConnection result option" where
  "SudokuServer_solve write tid task conn =
     (case solveSudoku (fst task) of
        Inl e \<Rightarrow> Some (Inl e)
      | Inr None \<Rightarrow> None
      | Inr (Some result) \<Rightarrow> Some (TcpConnection_send write tid (result_line (snd task) result) conn))"

definition SudokuServer_processInPool ::
    "write_call \<Rightarrow> int \<Rightarrow> string \<Rightarrow> TcpConnection \<times> sudoku_task ThreadPool \<Rightarrow> (bool \<times> TcpConnection \<times> sudoku_task ThreadPool) result option" where
  "SudokuServer_processInPool write tid request st =
     (if length (request_puzzle request) = kCells
      then (let task = (request_puzzle request, request_id request) in
            if tp_threads (snd st) = 0
            then map_option (\<lambda>r. bindR r (\<lambda>conn. Inr (True, conn, snd st))) (SudokuServer_solve write tid task (fst st))
            else map_option (\<lambda>pool. Inr (True, fst st, pool)) (ThreadPool_run task (snd st)))
      else Some (Inr (False, st)))"

definition SudokuServer_onMessage_pool ::
    "write_call \<Rightarrow> int \<Rightarrow> Buffer \<Rightarrow> TcpConnection \<times> sudoku_task ThreadPool \<Rightarrow> (Buffer \<times> TcpConnection \<times> sudoku_task ThreadPool) result option" where
  "SudokuServer_onMessage_pool write tid = serve_lines (SudokuServer_processInPool write tid)
     (\<lambda>message st. bindR (send_and_shutdown write tid message (fst st)) (\<lambda>conn. Inr (conn, snd st)))"

section \<open>Lines that are accepted\<close>

fun chained :: "('a \<Rightarrow> 'c \<Rightarrow> 'c \<Rightarrow> bool) \<Rightarrow> 'a list \<Rightarrow> 'c \<Rightarrow> 'c \<Rightarrow> bool" where
  "chained Q [] c c' \<longleftrightarrow> c' = c"
| "chained Q (r # rs) c c' \<longleftrightarrow> (\<exists>k. Q r c k \<and> chained Q rs k c')"

definition line_text :: "string list \<Rightarrow> string" where
  "line_text rs = concat (map (\<lambda>r. r @ kCRLF) rs)"

lemma serve_lines_one:
  assumes b: "buffer_ok b" "content b = r @ kCRLF @ rest" and r: "CHR 0x0D \<notin> set r" "kCells \<le> length r"
  shows "\<exists>b'. buffer_ok b' \<and> content b' = rest \<and>
    serve_lines process refuse b c =
      (case process r c of
         None \<Rightarrow> None
       | Some (Inl e) \<Rightarrow> Some (Inl e)
       | Some (Inr (good, c)) \<Rightarrow>
           if good then serve_lines process refuse b' c
           else Some (bindR (refuse (''Bad Request!'' @ kCRLF) c) (\<lambda>c. Inr (b', c))))"
proof -
  have "kCells + 2 \<le> length (content b)" using r(2) by (simp add: b(2) kCRLF_def)
  then have len: "kCells + 2 \<le> Buffer_readableBytes b" using b(1) by simp
  note l = first_line [OF b r(1)]
  from l(3) obtain b' where b': "Buffer_retrieveUntil b (Buffer_peek b + length r + 2) = Inr b'" "buffer_ok b'" "content b' = rest" by blast
  have "serve_lines process refuse b c =
      (case process r c of
         None \<Rightarrow> None
       | Some (Inl e) \<Rightarrow> Some (Inl e)
       | Some (Inr (good, c)) \<Rightarrow>
           if good then serve_lines process refuse b' c
           else Some (bindR (refuse (''Bad Request!'' @ kCRLF) c) (\<lambda>c. Inr (b', c))))"
    by (subst serve_lines.simps) (simp only: len l(1,2) b'(1) option.case sum.case Let_def if_True)
  with b'(2,3) show ?thesis by blast
qed

lemma serve_lines_rest: "buffer_ok b \<Longrightarrow> length (content b) < kCells + 2 \<Longrightarrow> serve_lines process refuse b c = Some (Inr (b, c))"
  by (subst serve_lines.simps) simp

text \<open>
  What the loop is used for: lines that are \<open>good\<close> are accepted, keep the state of the connection fit for use, and relate
  the states before and after. Both servers and the client are such services.
\<close>

locale line_service =
  fixes process :: "string \<Rightarrow> 'c \<Rightarrow> (bool \<times> 'c) result option"
    and refuse :: "string \<Rightarrow> 'c \<Rightarrow> 'c result"
    and good :: "string \<Rightarrow> bool"
    and fit :: "'c \<Rightarrow> bool"
    and effect :: "string \<Rightarrow> 'c \<Rightarrow> 'c \<Rightarrow> bool"
  assumes good_line: "good r \<Longrightarrow> CHR 0x0D \<notin> set r \<and> kCells \<le> length r"
    and accepts: "good r \<Longrightarrow> fit c \<Longrightarrow> \<exists>c'. process r c = Some (Inr (True, c')) \<and> fit c' \<and> effect r c c'"
begin

lemma serves_all:
  assumes "buffer_ok b" "content b = line_text rs @ rest" "fit c" "length rest < kCells + 2" "\<forall>r\<in>set rs. good r"
  shows "\<exists>b' c'. serve_lines process refuse b c = Some (Inr (b', c')) \<and> buffer_ok b' \<and> content b' = rest \<and> fit c' \<and> chained effect rs c c'"
  using assms
proof (induction rs arbitrary: b c)
  case Nil
  then have "serve_lines process refuse b c = Some (Inr (b, c))" by (intro serve_lines_rest) (simp_all add: line_text_def)
  then show ?case using Nil by (auto simp: line_text_def)
next
  case (Cons r rs)
  have line: "content b = r @ kCRLF @ (line_text rs @ rest)" using Cons.prems(2) by (simp add: line_text_def)
  have r: "good r" "CHR 0x0D \<notin> set r" "kCells \<le> length r" using Cons.prems(5) good_line [of r] by simp_all
  from serve_lines_one [OF Cons.prems(1) line r(2,3), of process refuse] obtain b1 where
    b1: "buffer_ok b1" "content b1 = line_text rs @ rest" and step: "serve_lines process refuse b c =
      (case process r c of
         None \<Rightarrow> None
       | Some (Inl e) \<Rightarrow> Some (Inl e)
       | Some (Inr (good, c)) \<Rightarrow>
           if good then serve_lines process refuse b1 c
           else Some (bindR (refuse (''Bad Request!'' @ kCRLF) c) (\<lambda>c. Inr (b1, c))))"
    by blast
  obtain c1 where c1: "process r c = Some (Inr (True, c1))" "fit c1" "effect r c c1" using accepts [OF r(1) Cons.prems(3)] by blast
  have "\<forall>r\<in>set rs. good r" using Cons.prems(5) by simp
  from Cons.IH [OF b1 c1(2) Cons.prems(4) this] show ?case unfolding step c1(1) using c1(3) by auto
qed

end

section \<open>Requests\<close>

lemma request_split:
  assumes "CHR '':'' \<notin> set ident"
  shows "request_id (ident @ '':'' @ puzzle) = ident" "request_puzzle (ident @ '':'' @ puzzle) = puzzle"
proof -
  have "find_char CHR '':'' (ident @ '':'' @ puzzle) = Some (length ident)"
    using assms by (simp add: find_char_Some nth_append)
  then show "request_id (ident @ '':'' @ puzzle) = ident" "request_puzzle (ident @ '':'' @ puzzle) = puzzle"
    by (simp_all add: request_id_def request_puzzle_def)
qed

lemma request_plain: "CHR '':'' \<notin> set puzzle \<Longrightarrow> request_id puzzle = '''' \<and> request_puzzle puzzle = puzzle"
  by (simp add: request_id_def request_puzzle_def flip: find_char_None)

lemma request_length: "length (request_puzzle r) \<le> length r"
  by (simp add: request_puzzle_def split: option.split)

text \<open>The answers to requests.\<close>

definition answers :: "string list \<Rightarrow> string list \<Rightarrow> bool" where
  "answers rs ts \<longleftrightarrow> list_all2 (\<lambda>r t. \<exists>result. solves (request_puzzle r) result \<and> t = result_line (request_id r) result) rs ts"

definition answered :: "string \<Rightarrow> TcpConnection \<Rightarrow> TcpConnection \<Rightarrow> bool" where
  "answered r c c' \<longleftrightarrow> (\<exists>result. solves (request_puzzle r) result \<and> tc_accepted c' = tc_accepted c @ result_line (request_id r) result)"

lemma chained_accepted:
  "chained answered rs c c' \<Longrightarrow>
   \<exists>ts. answers rs ts \<and> tc_accepted c' = tc_accepted c @ concat ts"
proof (induction rs arbitrary: c)
  case Nil
  then show ?case by (intro exI [of _ "[]"]) (simp add: answers_def)
next
  case (Cons r rs)
  then obtain k where a: "answered r c k" "chained answered rs k c'" by auto
  from a(1) obtain result where "solves (request_puzzle r) result" "tc_accepted k = tc_accepted c @ result_line (request_id r) result"
    unfolding answered_def by blast
  note k = this a(2)
  from Cons.IH [OF k(3)] obtain ts where ts: "answers rs ts" "tc_accepted c' = tc_accepted k @ concat ts" by blast
  show ?case
  proof (intro exI conjI)
    show "answers (r # rs) (result_line (request_id r) result # ts)" using ts(1) k(1) by (auto simp: answers_def)
    show "tc_accepted c' = tc_accepted c @ concat (result_line (request_id r) result # ts)" by (simp add: ts(2) k(2))
  qed
qed

text \<open>The server that solves in the loop of the connection.\<close>

definition good_request :: "string \<Rightarrow> bool" where
  "good_request r \<longleftrightarrow> CHR 0x0D \<notin> set r \<and> length (request_puzzle r) = kCells"

lemma good_request_line: "good_request r \<Longrightarrow> CHR 0x0D \<notin> set r \<and> kCells \<le> length r"
  using request_length [of r] by (simp add: good_request_def)

interpretation basic: line_service "SudokuServer_processRequest wr tid" "send_and_shutdown wr tid" good_request
  "\<lambda>c. live tid c \<and> steady wr" answered for wr tid
proof unfold_locales
  show "CHR 0x0D \<notin> set r \<and> kCells \<le> length r" if "good_request r" for r by (rule good_request_line [OF that])
  fix r c
  assume r: "good_request r" and c: "live tid c \<and> steady wr"
  obtain result where res: "solveSudoku (request_puzzle r) = Inr (Some result)" "solves (request_puzzle r) result"
    using solveSudoku_solves r unfolding good_request_def by blast
  obtain c' where "TcpConnection_send wr tid (result_line (request_id r) result) c = Inr c'" "live tid c'"
      "tc_accepted c' = tc_accepted c @ result_line (request_id r) result"
    using send_accepts c by blast
  then show "\<exists>c'. SudokuServer_processRequest wr tid r c = Some (Inr (True, c')) \<and> (live tid c' \<and> steady wr) \<and> answered r c c'"
    using res r c by (auto simp: SudokuServer_processRequest_def good_request_def answered_def)
qed

lemma onMessage_answers:
  assumes "live tid conn" "steady write" "buffer_ok b" "content b = line_text rs @ rest" "length rest < kCells + 2" "\<forall>r\<in>set rs. good_request r"
  shows "\<exists>b' conn' ts. SudokuServer_onMessage write tid b conn = Some (Inr (b', conn')) \<and> buffer_ok b' \<and> content b' = rest \<and>
    live tid conn' \<and> answers rs ts \<and> tc_accepted conn' = tc_accepted conn @ concat ts"
proof -
  obtain b' conn' where r: "SudokuServer_onMessage write tid b conn = Some (Inr (b', conn'))" "buffer_ok b'" "content b' = rest"
      "live tid conn'" "chained answered rs conn conn'"
    using basic.serves_all [OF assms(3,4) conjI [OF assms(1,2)] assms(5,6)] unfolding SudokuServer_onMessage_def by blast
  with chained_accepted [OF r(5)] show ?thesis by blast
qed

text \<open>
  C35. The Sudoku server answers every request line of 81 puzzle characters, in order, each with its identifier and the right
  answer: a completion of the givens or \<open>NoSolution\<close> when there is none. The bytes behind the last line stay in the buffer.
\<close>

theorem SudokuServer_answers:
  assumes "live tid conn" "steady write" "buffer_ok b" "content b = line_text rs @ rest" "length rest < kCells + 2"
    and "\<forall>r\<in>set rs. CHR 0x0D \<notin> set r \<and> length (request_puzzle r) = kCells"
  shows "\<exists>b' conn' ts. SudokuServer_onMessage write tid b conn = Some (Inr (b', conn')) \<and> content b' = rest \<and> live tid conn' \<and>
    tc_accepted conn' = tc_accepted conn @ concat ts \<and>
    list_all2 (\<lambda>r t. \<exists>result. solves (request_puzzle r) result \<and> t = result_line (request_id r) result) rs ts"
  using onMessage_answers [OF assms(1-5)] assms(6) unfolding answers_def good_request_def by blast

theorem SudokuServer_answers_witness:
  "\<exists>b' conn' g. SudokuServer_onMessage demo_write 7 (buffer_of (''7:'' @ example_puzzle @ kCRLF @ ''8:'')) demo_conn = Some (Inr (b', conn')) \<and>
     content b' = ''8:'' \<and> tc_accepted conn' = ''7:'' @ show_board g @ kCRLF \<and> sudoku_solution g \<and> extends (read_board example_puzzle) g"
proof -
  have s: "request_id (''7:'' @ example_puzzle) = ''7''" "request_puzzle (''7:'' @ example_puzzle) = example_puzzle"
    using request_split [of "''7''" example_puzzle] by simp_all
  have r: "\<forall>r\<in>set [''7:'' @ example_puzzle]. CHR 0x0D \<notin> set r \<and> length (request_puzzle r) = kCells"
    unfolding list.set ball_simps s(2) by (simp add: example_puzzle_def kCells_def)
  have c: "content (buffer_of (''7:'' @ example_puzzle @ kCRLF @ ''8:'')) = line_text [''7:'' @ example_puzzle] @ ''8:''"
    by (simp add: buffer_of_ok line_text_def)
  from SudokuServer_answers [OF demo_live buffer_of_ok(1) c _ r] obtain b' conn' ts where
    a: "SudokuServer_onMessage demo_write 7 (buffer_of (''7:'' @ example_puzzle @ kCRLF @ ''8:'')) demo_conn = Some (Inr (b', conn'))"
      "content b' = ''8:''" "tc_accepted conn' = tc_accepted demo_conn @ concat ts"
    and l: "list_all2 (\<lambda>r t. \<exists>result. solves (request_puzzle r) result \<and> t = result_line (request_id r) result) [''7:'' @ example_puzzle] ts"
    by (auto simp: kCells_def)
  from l obtain result where res: "solves example_puzzle result" "ts = [result_line ''7'' result]"
    by (auto simp: list_all2_Cons1 s simp del: append.simps)
  then obtain g where "result = show_board g" "sudoku_solution g" "extends (read_board example_puzzle) g"
    using example_answer_ok example_extends unfolding solves_def by blast
  then show ?thesis using a res(2) by (auto simp: result_line_def demo_conn_fields)
qed

lemma send_shutdown:
  assumes "live tid conn" "steady write"
  shows "\<exists>conn'. send_and_shutdown write tid message conn = Inr conn' \<and> tc_inv conn' \<and>
    tc_accepted conn' = tc_accepted conn @ message \<and> tc_state conn' = kDisconnecting"
proof -
  obtain c1 where c1: "TcpConnection_send write tid message conn = Inr c1" "live tid c1" "tc_accepted c1 = tc_accepted conn @ message"
    using send_accepts [OF assms] by blast
  then have inv: "tc_inv c1" "tc_state c1 = kConnected" "tc_threadId c1 = tid" by (simp_all add: live_def)
  obtain c2 where c2: "TcpConnection_shutdown tid c1 = Inr c2" "tc_inv c2" using shutdown_inv [OF inv(1)] by blast
  then have "tc_accepted c2 = tc_accepted c1" "tc_state c2 = kDisconnecting"
    using inv(2,3) by (auto simp: TcpConnection_shutdown_def TcpConnection_shutdownInLoop_def tc_assertInLoopThread_def tc_emit_def Let_def)
  with c1 c2 show ?thesis by (simp add: send_and_shutdown_def)
qed

text \<open>
  What the server does with bad input. A line of at least 81 characters that is not a request is answered with \<open>Bad Request!\<close>,
  and more than 100 bytes without a line end with \<open>Id too long!\<close>; both close the conversation and leave the rest unread. But
  fewer than 83 bytes are not looked at: a short line is neither answered nor refused, complete or not.
\<close>

theorem SudokuServer_bad_input:
  assumes "live tid conn" "steady write" "buffer_ok b"
  shows "(content b = r @ kCRLF @ rest \<and> CHR 0x0D \<notin> set r \<and> kCells \<le> length r \<and> length (request_puzzle r) \<noteq> kCells \<longrightarrow>
      (\<exists>b' conn'. SudokuServer_onMessage write tid b conn = Some (Inr (b', conn')) \<and> content b' = rest \<and>
        tc_accepted conn' = tc_accepted conn @ ''Bad Request!'' @ kCRLF \<and> tc_state conn' = kDisconnecting)) \<and>
    (100 < length (content b) \<and> CHR 0x0D \<notin> set (content b) \<longrightarrow>
      (\<exists>conn'. SudokuServer_onMessage write tid b conn = Some (Inr (b, conn')) \<and>
        tc_accepted conn' = tc_accepted conn @ ''Id too long!'' @ kCRLF \<and> tc_state conn' = kDisconnecting)) \<and>
    (length (content b) < kCells + 2 \<longrightarrow> SudokuServer_onMessage write tid b conn = Some (Inr (b, conn)))"
proof (intro conjI)
  show "content b = r @ kCRLF @ rest \<and> CHR 0x0D \<notin> set r \<and> kCells \<le> length r \<and> length (request_puzzle r) \<noteq> kCells \<longrightarrow>
      (\<exists>b' conn'. SudokuServer_onMessage write tid b conn = Some (Inr (b', conn')) \<and> content b' = rest \<and>
        tc_accepted conn' = tc_accepted conn @ ''Bad Request!'' @ kCRLF \<and> tc_state conn' = kDisconnecting)"
  proof (intro impI; elim conjE)
    assume r: "content b = r @ kCRLF @ rest" "CHR 0x0D \<notin> set r" "kCells \<le> length r" "length (request_puzzle r) \<noteq> kCells"
    from serve_lines_one [OF assms(3) r(1-3), of "SudokuServer_processRequest write tid" "send_and_shutdown write tid" conn]
      send_shutdown [OF assms(1,2), of "''Bad Request!'' @ kCRLF"]
    show "\<exists>b' conn'. SudokuServer_onMessage write tid b conn = Some (Inr (b', conn')) \<and> content b' = rest \<and>
        tc_accepted conn' = tc_accepted conn @ ''Bad Request!'' @ kCRLF \<and> tc_state conn' = kDisconnecting"
      using r(4) by (auto simp: SudokuServer_onMessage_def SudokuServer_processRequest_def)
  qed
  show "100 < length (content b) \<and> CHR 0x0D \<notin> set (content b) \<longrightarrow>
      (\<exists>conn'. SudokuServer_onMessage write tid b conn = Some (Inr (b, conn')) \<and>
        tc_accepted conn' = tc_accepted conn @ ''Id too long!'' @ kCRLF \<and> tc_state conn' = kDisconnecting)"
  proof (intro impI; elim conjE)
    assume l: "100 < length (content b)" "CHR 0x0D \<notin> set (content b)"
    have "\<not> occurs_at kCRLF (content b) i" for i
    proof
      assume "occurs_at kCRLF (content b) i"
      then have "set kCRLF \<subseteq> set (content b)" unfolding occurs_at_def by (metis set_drop_subset set_take_subset subset_trans)
      then show False using l(2) by (simp add: kCRLF_def)
    qed
    then have "Buffer_findCRLF b = None" using no_line by blast
    moreover have "100 < Buffer_readableBytes b" using l(1) assms(3) by simp
    ultimately show "\<exists>conn'. SudokuServer_onMessage write tid b conn = Some (Inr (b, conn')) \<and>
        tc_accepted conn' = tc_accepted conn @ ''Id too long!'' @ kCRLF \<and> tc_state conn' = kDisconnecting"
      using send_shutdown [OF assms(1,2), of "''Id too long!'' @ kCRLF"] unfolding SudokuServer_onMessage_def
      by (subst serve_lines.simps) (auto simp: kCells_def)
  qed
  show "length (content b) < kCells + 2 \<longrightarrow> SudokuServer_onMessage write tid b conn = Some (Inr (b, conn))"
    unfolding SudokuServer_onMessage_def by (rule impI) (rule serve_lines_rest [OF assms(3)])
qed

theorem SudokuServer_bad_input_witness:
  "(\<exists>b' conn'. SudokuServer_onMessage demo_write 7 (buffer_of (replicate 90 CHR ''x'' @ kCRLF @ ''ab'')) demo_conn = Some (Inr (b', conn')) \<and>
      content b' = ''ab'' \<and> tc_accepted conn' = ''Bad Request!'' @ kCRLF \<and> tc_state conn' = kDisconnecting) \<and>
   (\<exists>conn'. SudokuServer_onMessage demo_write 7 (buffer_of (replicate 101 CHR ''x'')) demo_conn = Some (Inr (buffer_of (replicate 101 CHR ''x''), conn')) \<and>
      tc_accepted conn' = ''Id too long!'' @ kCRLF) \<and>
   SudokuServer_onMessage demo_write 7 (buffer_of (''bad'' @ kCRLF)) demo_conn = Some (Inr (buffer_of (''bad'' @ kCRLF), demo_conn))"
proof (intro conjI)
  have p: "request_puzzle (replicate 90 CHR ''x'') = replicate 90 CHR ''x''" using request_plain [of "replicate 90 CHR ''x''"] by simp
  show "\<exists>b' conn'. SudokuServer_onMessage demo_write 7 (buffer_of (replicate 90 CHR ''x'' @ kCRLF @ ''ab'')) demo_conn = Some (Inr (b', conn')) \<and>
      content b' = ''ab'' \<and> tc_accepted conn' = ''Bad Request!'' @ kCRLF \<and> tc_state conn' = kDisconnecting"
    using SudokuServer_bad_input [OF demo_live buffer_of_ok(1), of "replicate 90 CHR ''x'' @ kCRLF @ ''ab''" "replicate 90 CHR ''x''" "''ab''"]
    by (simp add: p buffer_of_ok kCells_def demo_conn_fields)
  show "\<exists>conn'. SudokuServer_onMessage demo_write 7 (buffer_of (replicate 101 CHR ''x'')) demo_conn = Some (Inr (buffer_of (replicate 101 CHR ''x''), conn')) \<and>
      tc_accepted conn' = ''Id too long!'' @ kCRLF"
    using SudokuServer_bad_input [OF demo_live buffer_of_ok(1), of "replicate 101 CHR ''x''"]
    by (auto simp: buffer_of_ok demo_conn_fields)
  show "SudokuServer_onMessage demo_write 7 (buffer_of (''bad'' @ kCRLF)) demo_conn = Some (Inr (buffer_of (''bad'' @ kCRLF), demo_conn))"
    using SudokuServer_bad_input [OF demo_live buffer_of_ok(1), of "''bad'' @ kCRLF"]
    by (simp add: buffer_of_ok kCells_def kCRLF_def)
qed

section \<open>Answers out of the pool\<close>

text \<open>The tasks in the order in which the workers of the pool finish them.\<close>

fun run_tasks :: "write_call \<Rightarrow> int \<Rightarrow> sudoku_task list \<Rightarrow> TcpConnection \<Rightarrow> TcpConnection result option" where
  "run_tasks write tid [] conn = Some (Inr conn)"
| "run_tasks write tid (t # ts) conn =
     (case SudokuServer_solve write tid t conn of
        None \<Rightarrow> None
      | Some (Inl e) \<Rightarrow> Some (Inl e)
      | Some (Inr conn) \<Rightarrow> run_tasks write tid ts conn)"

lemma run_tasks_queues:
  assumes "tc_state conn = kConnected" "tc_threadId conn \<noteq> tid" "\<forall>t\<in>set ts. length (fst t) = kCells"
  shows "\<exists>ls. run_tasks write tid ts conn = Some (Inr (conn\<lparr>tc_sendQueue := tc_sendQueue conn @ ls\<rparr>)) \<and>
    list_all2 (\<lambda>t l. \<exists>result. solves (fst t) result \<and> l = result_line (snd t) result) ts ls"
  using assms
proof (induction ts arbitrary: conn)
  case Nil
  then show ?case by (intro exI [of _ "[]"]) simp
next
  case (Cons t ts)
  obtain result where res: "solveSudoku (fst t) = Inr (Some result)" "solves (fst t) result"
    using solveSudoku_solves [of "fst t"] Cons.prems(3) by auto
  let ?l = "result_line (snd t) result"
  let ?c = "conn\<lparr>tc_sendQueue := tc_sendQueue conn @ [?l]\<rparr>"
  have step: "SudokuServer_solve write tid t conn = Some (Inr ?c)"
    using res(1) Cons.prems(1,2) by (simp add: SudokuServer_solve_def TcpConnection_send_def)
  have "\<exists>ls. run_tasks write tid ts ?c = Some (Inr (?c\<lparr>tc_sendQueue := tc_sendQueue ?c @ ls\<rparr>)) \<and>
    list_all2 (\<lambda>t l. \<exists>result. solves (fst t) result \<and> l = result_line (snd t) result) ts ls"
    by (rule Cons.IH) (use Cons.prems in simp_all)
  then obtain ls where "run_tasks write tid ts ?c = Some (Inr (?c\<lparr>tc_sendQueue := tc_sendQueue ?c @ ls\<rparr>))"
    "list_all2 (\<lambda>t l. \<exists>result. solves (fst t) result \<and> l = result_line (snd t) result) ts ls" by blast
  then show ?case using step res(2) by (intro exI [of _ "?l # ls"]) auto
qed

definition request_task :: "string \<Rightarrow> sudoku_task" where
  "request_task r = (request_puzzle r, request_id r)"

definition queued :: "string \<Rightarrow> TcpConnection \<times> sudoku_task ThreadPool \<Rightarrow> TcpConnection \<times> sudoku_task ThreadPool \<Rightarrow> bool" where
  "queued r c c' \<longleftrightarrow> fst c' = fst c \<and> snd c' = (snd c)\<lparr>tp_queue := tp_queue (snd c) @ [request_task r]\<rparr>"

lemma chained_queue:
  "chained queued rs c c' \<Longrightarrow>
   c' = (fst c, (snd c)\<lparr>tp_queue := tp_queue (snd c) @ map request_task rs\<rparr>)"
proof (induction rs arbitrary: c)
  case (Cons r rs)
  then obtain k where k: "queued r c k" "chained queued rs k c'" by auto
  from Cons.IH [OF k(2)] k(1) show ?case by (simp add: queued_def)
qed (simp add: prod_eq_iff)

interpretation pooled: line_service "SudokuServer_processInPool wr tid"
  "\<lambda>message st. bindR (send_and_shutdown wr tid message (fst st)) (\<lambda>conn. Inr (conn, snd st))" good_request
  "\<lambda>st. 0 < tp_threads (snd st) \<and> tp_maxQueueSize (snd st) = 0" queued for wr tid
proof unfold_locales
  show "CHR 0x0D \<notin> set r \<and> kCells \<le> length r" if "good_request r" for r by (rule good_request_line [OF that])
  show "\<exists>c'. SudokuServer_processInPool wr tid r c = Some (Inr (True, c')) \<and> (0 < tp_threads (snd c') \<and> tp_maxQueueSize (snd c') = 0) \<and>
      queued r c c'" if "good_request r" "0 < tp_threads (snd c) \<and> tp_maxQueueSize (snd c) = 0" for r c
    using that by (auto simp: SudokuServer_processInPool_def ThreadPool_run_def request_task_def good_request_def queued_def)
qed



end
