(* ===== verification/Sudoku_Percentile.thy ===== *)
theory Sudoku_Percentile
  imports Prelude "HOL-Library.Multiset"
begin

text \<open>
  \<open>Percentile\<close> of \<open>example/sudoku/percentile.h\<close>: the statistics of the load test over the latencies of a second, in microseconds.
  The constructor sorts the latencies of its caller. The percentages of \<open>save\<close>, floating-point numbers that are only
  printed, are left out of its lines.
\<close>

section \<open>The class\<close>

text \<open>The \<open>int\<close> percentage is positive where it is converted to \<open>size_t\<close>.\<close>

definition Percentile_getPercentile :: "int list \<Rightarrow> int \<Rightarrow> int result" where
  "Percentile_getPercentile latencies percent =
     bindR (assertR (latencies \<noteq> [])) (\<lambda>_.
     if percent > 0
     then (let index = (length latencies * nat percent + 99) div 100 - 1
           in bindR (assertR (index < length latencies)) (\<lambda>_. Inr (latencies ! index)))
     else Inr (latencies ! 0))"

record Percentile =
  pc_recv :: nat
  pc_infly :: int
  pc_stat :: "(string \<times> int) list"

definition Percentile_new :: "int list \<Rightarrow> int \<Rightarrow> (int list \<times> Percentile) result" where
  "Percentile_new latencies infly =
     (let p = \<lparr>pc_recv = length latencies, pc_infly = infly, pc_stat = []\<rparr>
      in if latencies \<noteq> []
         then (let latencies = sort latencies;
                   sum = to_int32 (sum_list latencies);
                   mean = cdiv sum (to_int32 (int (length latencies)))
               in bindR (Percentile_getPercentile latencies 50) (\<lambda>median.
                  bindR (Percentile_getPercentile latencies 90) (\<lambda>p90.
                  bindR (Percentile_getPercentile latencies 99) (\<lambda>p99.
                  Inr (latencies, p\<lparr>pc_stat := [(''min'', hd latencies), (''max'', last latencies), (''avg'', mean),
                    (''median'', median), (''p90'', p90), (''p99'', p99)]\<rparr>)))))
         else Inr (latencies, p))"

definition kInterval :: int where
  "kInterval = 5"

text \<open>The loop of \<open>save\<close>; a line is the lower bound of an interval, its count, and the count up to it.\<close>

fun save_loop :: "int list \<Rightarrow> int \<Rightarrow> int \<Rightarrow> int \<Rightarrow> (int \<times> int \<times> int) list \<Rightarrow> (int \<times> int \<times> int \<times> (int \<times> int \<times> int) list) result" where
  "save_loop [] low n sofar out = Inr (low, n, sofar, out)"
| "save_loop (x # xs) low n sofar out =
     (if x < low + kInterval then save_loop xs low (n + 1) sofar out
      else (let sofar = sofar + n; out = out @ [(low, n, sofar)]; low = cdiv x kInterval * kInterval
            in bindR (assertR (x < low + kInterval)) (\<lambda>_. save_loop xs low 1 sofar out)))"

definition Percentile_save :: "int list \<Rightarrow> (int \<times> int \<times> int) list result" where
  "Percentile_save latencies =
     (if latencies = [] then Inr []
      else bindR (save_loop latencies (cdiv (hd latencies) kInterval * kInterval) 0 0 []) (\<lambda>(low, n, sofar, out).
           (let sofar = sofar + n
            in bindR (assertR (sofar = int (length latencies))) (\<lambda>_. Inr (out @ [(low, n, sofar)])))))"

section \<open>Percentiles\<close>

lemma sorted_below: "sorted l \<Longrightarrow> i < length l \<Longrightarrow> Suc i \<le> length (filter (\<lambda>x. x \<le> l ! i) (l :: int list))"
proof -
  assume s: "sorted l" "i < length l"
  have "\<forall>x\<in>set (take (Suc i) l). x \<le> l ! i"
    using s by (auto simp: in_set_conv_nth sorted_iff_nth_mono)
  then have "filter (\<lambda>x. x \<le> l ! i) (take (Suc i) l) = take (Suc i) l" by (simp add: filter_id_conv)
  then have "filter (\<lambda>x. x \<le> l ! i) l = take (Suc i) l @ filter (\<lambda>x. x \<le> l ! i) (drop (Suc i) l)"
    by (metis append_take_drop_id filter_append)
  then show ?thesis using s(2) by simp
qed

lemma sorted_above: "sorted l \<Longrightarrow> i < length l \<Longrightarrow> length (filter (\<lambda>x. x < l ! i) (l :: int list)) \<le> i"
proof -
  assume s: "sorted l" "i < length l"
  have "\<forall>x\<in>set (drop i l). \<not> x < l ! i"
    using s by (auto simp: in_set_conv_nth sorted_iff_nth_mono not_less)
  then have "filter (\<lambda>x. x < l ! i) (drop i l) = []" by (simp add: filter_empty_conv)
  then have "filter (\<lambda>x. x < l ! i) l = filter (\<lambda>x. x < l ! i) (take i l)"
    by (metis append_Nil2 append_take_drop_id filter_append)
  then show ?thesis using length_filter_le [of "\<lambda>x. x < l ! i" "take i l"] s(2) by simp
qed

lemma getPercentile_rank:
  assumes "sorted l" "l \<noteq> []" "0 < p" "p \<le> 100"
  shows "\<exists>v\<in>set l. Percentile_getPercentile l p = Inr v \<and> nat p * length l \<le> 100 * length (filter (\<lambda>x. x \<le> v) l) \<and>
    100 * length (filter (\<lambda>x. x < v) l) < nat p * length l"
proof -
  let ?n = "length l" and ?i = "(length l * nat p + 99) div 100 - 1"
  have n: "0 < ?n" "0 < nat p" "nat p \<le> 100" using assms by simp_all
  then have np: "0 < ?n * nat p" "?n * nat p \<le> 100 * ?n" by simp_all
  have q: "m \<le> 100 * ((m + 99) div 100)" "100 * ((m + 99) div 100) \<le> m + 99" for m :: nat
  proof -
    have "100 * ((m + 99) div 100) + (m + 99) mod 100 = m + 99" "(m + 99) mod 100 < 100" by simp_all
    then show "m \<le> 100 * ((m + 99) div 100)" and "100 * ((m + 99) div 100) \<le> m + 99" by linarith+
  qed
  define M where "M = ?n * nat p"
  have M: "0 < M" "M \<le> 100 * ?n" unfolding M_def by (rule np)+
  obtain j where j: "(M + 99) div 100 = Suc j" using q(1) [of M] M(1) by (cases "(M + 99) div 100") simp_all
  have "j < ?n" using q [of M] M unfolding j by simp
  moreover have "M \<le> 100 * Suc j" using q [of M] unfolding j by simp
  moreover have "100 * j < M" using q [of M] unfolding j by simp
  moreover have "?i = j" using j by (simp add: M_def)
  ultimately have i: "?i < ?n" "?n * nat p \<le> 100 * Suc ?i" "100 * ?i < ?n * nat p" by (simp_all only: M_def)
  have "Percentile_getPercentile l p = Inr (l ! ?i)"
    using assms i(1) by (simp add: Percentile_getPercentile_def Let_def)
  moreover have "nat p * ?n \<le> 100 * length (filter (\<lambda>x. x \<le> l ! ?i) l)"
    using sorted_below [OF assms(1) i(1)] i(2) by (simp add: mult.commute)
  moreover have "100 * length (filter (\<lambda>x. x < l ! ?i) l) < nat p * ?n"
    using sorted_above [OF assms(1) i(1)] i(3) by (simp add: mult.commute)
  ultimately show ?thesis using nth_mem [OF i(1)] by blast
qed

text \<open>
  Of latencies that are not empty the constructor reports percentiles by rank, with no assertion failing: at least that
  share of the latencies is not above the value, and less than that share is below it. It leaves the latencies sorted.
\<close>

theorem Percentile_reports_ranks:
  assumes "latencies \<noteq> []"
  shows "\<exists>p m90 m99 m50. Percentile_new latencies infly = Inr (sort latencies, p) \<and> pc_recv p = length latencies \<and>
    map_of (pc_stat p) ''min'' = Some (Min (set latencies)) \<and> map_of (pc_stat p) ''max'' = Some (Max (set latencies)) \<and>
    map_of (pc_stat p) ''median'' = Some m50 \<and> map_of (pc_stat p) ''p90'' = Some m90 \<and> map_of (pc_stat p) ''p99'' = Some m99 \<and>
    (\<forall>(k, v)\<in>set [(50, m50), (90, m90), (99, m99)]. v \<in> set latencies \<and>
      k * length latencies \<le> 100 * length (filter (\<lambda>x. x \<le> v) latencies) \<and>
      100 * length (filter (\<lambda>x. x < v) latencies) < k * length latencies)"
proof -
  let ?l = "sort latencies"
  have l: "sorted ?l" "?l \<noteq> []" using assms by (simp_all add: flip: set_empty)
  have len: "length (filter P ?l) = length (filter P latencies)" for P
  proof -
    have "mset (filter P ?l) = mset (filter P latencies)" by simp
    then show ?thesis by (rule mset_eq_length)
  qed
  have rank: "\<exists>v\<in>set latencies. Percentile_getPercentile ?l p = Inr v \<and> nat p * length latencies \<le> 100 * length (filter (\<lambda>x. x \<le> v) latencies) \<and>
    100 * length (filter (\<lambda>x. x < v) latencies) < nat p * length latencies" if "0 < p" "p \<le> 100" for p
    using getPercentile_rank [OF l that] by (simp add: len)
  obtain m50 where m50: "m50 \<in> set latencies" "Percentile_getPercentile ?l 50 = Inr m50"
    "50 * length latencies \<le> 100 * length (filter (\<lambda>x. x \<le> m50) latencies)" "100 * length (filter (\<lambda>x. x < m50) latencies) < 50 * length latencies"
    using rank [of 50] by auto
  obtain m90 where m90: "m90 \<in> set latencies" "Percentile_getPercentile ?l 90 = Inr m90"
    "90 * length latencies \<le> 100 * length (filter (\<lambda>x. x \<le> m90) latencies)" "100 * length (filter (\<lambda>x. x < m90) latencies) < 90 * length latencies"
    using rank [of 90] by auto
  obtain m99 where m99: "m99 \<in> set latencies" "Percentile_getPercentile ?l 99 = Inr m99"
    "99 * length latencies \<le> 100 * length (filter (\<lambda>x. x \<le> m99) latencies)" "100 * length (filter (\<lambda>x. x < m99) latencies) < 99 * length latencies"
    using rank [of 99] by auto
  have sorted_hd: "\<forall>x\<in>set latencies. hd ?l \<le> x"
  proof
    fix x assume "x \<in> set latencies"
    then have x: "x \<in> set ?l" by simp
    show "hd ?l \<le> x" using l x by (cases ?l) auto
  qed
  have "hd ?l = Min (set latencies)"
  proof -
    have "hd ?l \<in> set latencies" "\<forall>x\<in>set latencies. hd ?l \<le> x"
      using hd_in_set [OF l(2)] sorted_hd by (simp_all add: sorted_hd)
    then show ?thesis by (intro Min_eqI [symmetric]) auto
  qed
  moreover have "last ?l = Max (set latencies)"
  proof -
    have "last ?l \<in> set latencies" using last_in_set [OF l(2)] by simp
    moreover have "x \<le> last ?l" if x: "x \<in> set latencies" for x
    proof -
      have "x \<in> set ?l" using x by simp
      then obtain i where i: "i < length ?l" "?l ! i = x" by (auto simp: in_set_conv_nth simp del: set_sort)
      have "?l ! i \<le> ?l ! (length ?l - 1)" by (rule sorted_nth_mono [OF l(1)]) (use i(1) in simp_all)
      then show ?thesis using l(2) i(2) by (simp add: last_conv_nth)
    qed
    ultimately show ?thesis by (intro Max_eqI [symmetric]) auto
  qed
  ultimately have ends: "hd ?l = Min (set latencies)" "last ?l = Max (set latencies)" by blast+
  define p where "p = \<lparr>pc_recv = length latencies, pc_infly = infly, pc_stat = [(''min'', hd ?l), (''max'', last ?l),
    (''avg'', cdiv (to_int32 (sum_list ?l)) (to_int32 (int (length ?l)))), (''median'', m50), (''p90'', m90), (''p99'', m99)]\<rparr>"
  have new: "Percentile_new latencies infly = Inr (?l, p)"
    using assms m50(2) m90(2) m99(2) by (simp add: Percentile_new_def Let_def p_def)
  have pr: "\<forall>(k, v)\<in>set [(50, m50), (90, m90), (99, m99)]. v \<in> set latencies \<and>
      k * length latencies \<le> 100 * length (filter (\<lambda>x. x \<le> v) latencies) \<and>
      100 * length (filter (\<lambda>x. x < v) latencies) < k * length latencies"
    unfolding list.set ball_simps prod.case by (intro conjI m50(1,3,4) m90(1,3,4) m99(1,3,4) TrueI)
  have st: "pc_recv p = length latencies" "map_of (pc_stat p) ''min'' = Some (Min (set latencies))"
    "map_of (pc_stat p) ''max'' = Some (Max (set latencies))" "map_of (pc_stat p) ''median'' = Some m50"
    "map_of (pc_stat p) ''p90'' = Some m90" "map_of (pc_stat p) ''p99'' = Some m99"
    by (simp_all add: p_def ends)
  show ?thesis using new st pr by blast
qed

theorem Percentile_reports_ranks_witness:
  "\<exists>p m90 m99 m50. Percentile_new [30, 10, 20] 7 = Inr ([10, 20, 30], p) \<and> map_of (pc_stat p) ''median'' = Some m50 \<and>
     map_of (pc_stat p) ''p90'' = Some m90 \<and> map_of (pc_stat p) ''p99'' = Some m99 \<and> 150 \<le> 100 * length (filter (\<lambda>x. x \<le> m50) [30, 10, 20])"
  using Percentile_reports_ranks [of "[30, 10, 20]" 7] by auto

section \<open>The histogram\<close>

text \<open>A line of the histogram over the latencies \<open>ys\<close>.\<close>

definition line_ok :: "int list \<Rightarrow> int \<times> int \<times> int \<Rightarrow> bool" where
  "line_ok ys e \<longleftrightarrow> (case e of (low, n, sofar) \<Rightarrow> low mod kInterval = 0 \<and>
     n = int (length (filter (\<lambda>x. low \<le> x \<and> x < low + kInterval) ys)) \<and>
     sofar = int (length (filter (\<lambda>x. x < low + kInterval) ys)))"

definition save_inv :: "int list \<Rightarrow> int \<Rightarrow> int \<Rightarrow> int \<Rightarrow> (int \<times> int \<times> int) list \<Rightarrow> bool" where
  "save_inv ys low n sofar out \<longleftrightarrow> (\<forall>x\<in>set ys. x < low + kInterval) \<and> low mod kInterval = 0 \<and>
     sofar = int (length (filter (\<lambda>x. x < low) ys)) \<and> n = int (length (filter (\<lambda>x. low \<le> x) ys)) \<and>
     (\<forall>e\<in>set out. line_ok ys e \<and> fst e + kInterval \<le> low)"

lemma split_count: "int (length (filter (\<lambda>x. x < a) ys)) + int (length (filter (\<lambda>x. a \<le> x) ys)) = int (length (ys :: int list))"
  by (induction ys) auto

lemma line_ok_more: "line_ok ys e \<Longrightarrow> fst e + kInterval \<le> x \<Longrightarrow> line_ok (ys @ [x]) e"
  by (auto simp: line_ok_def split: prod.splits)

lemma save_loop_ok:
  "save_inv ys low n sofar out \<Longrightarrow> sorted xs \<Longrightarrow> \<forall>x\<in>set xs. low \<le> x \<and> 0 \<le> x \<Longrightarrow>
   \<exists>low' n' sofar' out'. save_loop xs low n sofar out = Inr (low', n', sofar', out') \<and> save_inv (ys @ xs) low' n' sofar' out'"
proof (induction xs arbitrary: ys low n sofar out)
  case (Cons x xs)
  note I = Cons.prems(1) [unfolded save_inv_def]
  have x: "low \<le> x" "0 \<le> x" and xs: "sorted xs" "\<forall>y\<in>set xs. x \<le> y \<and> 0 \<le> y" using Cons.prems(2,3) by auto
  show ?case
  proof (cases "x < low + kInterval")
    case True
    have out: "line_ok (ys @ [x]) e \<and> fst e + kInterval \<le> low" if "e \<in> set out" for e
      using I that x(1) line_ok_more [of ys e x] by auto
    have "save_inv (ys @ [x]) low (n + 1) sofar out" unfolding save_inv_def using I True x(1) out by auto
    moreover have "\<forall>y\<in>set xs. low \<le> y \<and> 0 \<le> y" using xs(2) x(1) by (auto intro: order_trans)
    ultimately show ?thesis using Cons.IH [of "ys @ [x]" low "n + 1" sofar out] xs(1) True by simp
  next
    case False
    let ?low = "cdiv x kInterval * kInterval"
    have div: "?low = x div kInterval * kInterval" using x(2) by (simp add: cdiv_nonneg kInterval_def)
    then have l: "?low \<le> x" "x < ?low + kInterval" "?low mod kInterval = 0"
      using div_mult_mod_eq [of x kInterval] by (simp_all add: kInterval_def)
    have step: "low + kInterval \<le> ?low"
    proof -
      have "kInterval dvd low" using I by (simp add: mod_eq_0_iff_dvd)
      then obtain q where q: "low = kInterval * q" by (rule dvdE)
      then have "q + 1 \<le> x div kInterval" using False by (simp add: kInterval_def)
      then show ?thesis unfolding div q by (simp add: kInterval_def)
    qed
    have all: "\<forall>y\<in>set ys. y < low + kInterval" using I by blast
    then have below: "filter (\<lambda>y. y < ?low) ys = ys" "filter (\<lambda>y. ?low \<le> y) ys = []" "filter (\<lambda>y. y < low + kInterval) ys = ys"
      "filter (\<lambda>y. low \<le> y \<and> y < low + kInterval) ys = filter (\<lambda>y. low \<le> y) ys"
      using step by (auto simp: filter_id_conv filter_empty_conv intro!: filter_cong)
    have tot: "sofar + n = int (length ys)" by (rule trans [OF _ split_count [of low ys]]) (use I in blast)
    have new: "line_ok ys (low, n, sofar + n)" unfolding line_ok_def prod.case using I by (simp add: below split_count)
    have out: "line_ok (ys @ [x]) e \<and> fst e + kInterval \<le> ?low" if "e \<in> set (out @ [(low, n, sofar + n)])" for e
    proof -
      have "line_ok ys e \<and> fst e + kInterval \<le> low + kInterval"
        using that I new by (auto simp: kInterval_def)
      then show ?thesis using step False line_ok_more [of ys e x] by auto
    qed
    have "save_inv (ys @ [x]) ?low 1 (sofar + n) (out @ [(low, n, sofar + n)])"
      unfolding save_inv_def
    proof (intro conjI)
      show "\<forall>y\<in>set (ys @ [x]). y < ?low + kInterval" using all step l(2) by (fastforce simp: kInterval_def)
      show "?low mod kInterval = 0" by (rule l(3))
      show "sofar + n = int (length (filter (\<lambda>y. y < ?low) (ys @ [x])))" using l(1) by (simp add: below tot)
      show "1 = int (length (filter (\<lambda>y. ?low \<le> y) (ys @ [x])))" using l(1) by (simp add: below)
      show "\<forall>e\<in>set (out @ [(low, n, sofar + n)]). line_ok (ys @ [x]) e \<and> fst e + kInterval \<le> ?low" using out by blast
    qed
    moreover have "\<forall>y\<in>set xs. ?low \<le> y \<and> 0 \<le> y" using xs(2) l(1) by (auto intro: order_trans)
    ultimately obtain low' n' sofar' out' where "save_loop xs ?low 1 (sofar + n) (out @ [(low, n, sofar + n)]) = Inr (low', n', sofar', out')"
      "save_inv ((ys @ [x]) @ xs) low' n' sofar' out'" using Cons.IH xs(1) by blast
    then show ?thesis using False l(2) by (simp add: Let_def)
  qed
qed auto

text \<open>
  \<open>save\<close> on sorted latencies: no assertion fails, and each line of the histogram counts the latencies of its interval of five
  microseconds and those up to its end; the last line has counted all.
\<close>

theorem Percentile_save_histogram:
  assumes "sorted latencies" "\<forall>x\<in>set latencies. 0 \<le> x"
  shows "\<exists>lines. Percentile_save latencies = Inr lines \<and>
    (\<forall>(low, n, sofar)\<in>set lines. low mod 5 = 0 \<and> n = int (length (filter (\<lambda>x. low \<le> x \<and> x < low + 5) latencies)) \<and>
       sofar = int (length (filter (\<lambda>x. x < low + 5) latencies))) \<and>
    (latencies \<noteq> [] \<longrightarrow> lines \<noteq> [] \<and> snd (snd (last lines)) = int (length latencies))"
proof (cases latencies)
  case (Cons x xs)
  let ?low = "cdiv x kInterval * kInterval"
  have x: "0 \<le> x" using assms(2) Cons by simp
  then have div: "?low = x div kInterval * kInterval" by (simp add: cdiv_nonneg kInterval_def)
  then have l: "?low \<le> x" "?low mod kInterval = 0" by (simp_all add: kInterval_def)
  have "save_inv [] ?low 0 0 []" using l(2) by (simp add: save_inv_def)
  moreover have "\<forall>y\<in>set latencies. ?low \<le> y \<and> 0 \<le> y" using assms l(1) Cons by auto
  ultimately obtain low n sofar out where r: "save_loop latencies ?low 0 0 [] = Inr (low, n, sofar, out)" "save_inv latencies low n sofar out"
    using save_loop_ok [of "[]" ?low 0 0 "[]" latencies] assms(1) by auto
  note I = r(2) [unfolded save_inv_def]
  have tot: "sofar + n = int (length latencies)" by (rule trans [OF _ split_count [of low latencies]]) (use I in blast)
  have below: "filter (\<lambda>y. y < low + kInterval) latencies = latencies"
    "filter (\<lambda>y. low \<le> y \<and> y < low + kInterval) latencies = filter (\<lambda>y. low \<le> y) latencies"
    using I by (auto simp: filter_id_conv intro!: filter_cong)
  have "line_ok latencies (low, n, sofar + n)" unfolding line_ok_def prod.case using I by (simp add: below split_count)
  then have ok: "\<forall>e\<in>set (out @ [(low, n, sofar + n)]). line_ok latencies e" using I by auto
  have "Percentile_save latencies = Inr (out @ [(low, n, sofar + n)])"
    using r(1) Cons tot by (simp add: Percentile_save_def Let_def del: save_loop.simps)
  with ok tot show ?thesis
    by (intro exI [of _ "out @ [(low, n, sofar + n)]"]) (auto simp: line_ok_def kInterval_def)
qed (simp add: Percentile_save_def)

theorem Percentile_save_histogram_witness:
  "Percentile_save [3, 4, 11] = Inr [(0, 2, 2), (10, 1, 3)] \<and> snd (snd (last [(0, 2, 2), (10, 1, 3 :: int)])) = int (length [3, 4, 11 :: int])"
proof -
  have "Percentile_save [3, 4, 11] = Inr [(0, 2, 2), (10, 1, 3)]" by code_simp
  then show ?thesis using Percentile_save_histogram [of "[3, 4, 11]"] by auto
qed

end
