(* ===== verification/Sudoku_Client.thy ===== *)
theory Sudoku_Client
  imports Sudoku_Server Sudoku_Percentile "HOL-Library.AList"
begin

text \<open>
  The load test \<open>example/sudoku/loadtest.cc\<close>: clients that send numbered puzzles to a server and measure how long the answers
  take. Times are in microseconds. The connection a callback gets is the one the client keeps. The numbers of the requests
  stay below \<open>2 ^ 31\<close>.
\<close>

section \<open>Numbers in text\<close>

text \<open>\<open>%08d\<close> for a number that is not negative.\<close>

definition pad8 :: "nat \<Rightarrow> string" where
  "pad8 n = replicate (8 - length (nat_dec n)) CHR ''0'' @ nat_dec n"

section \<open>The client\<close>

text \<open>\<open>readInput\<close>: the lines of 81 characters of a file.\<close>

definition readInput :: "string list \<Rightarrow> string list" where
  "readInput lines = map cstr (filter (\<lambda>line. length line = kCells) lines)"

record SudokuClient =
  sc_name :: string
  sc_conn :: "TcpConnection option"
  sc_requests :: Buffer
  sc_input :: "string list"
  sc_count :: nat
  sc_sendTime :: "(int \<times> int) list"
  sc_latencies :: "int list"

definition SudokuClient_new :: "string list \<Rightarrow> string \<Rightarrow> SudokuClient" where
  "SudokuClient_new input name = \<lparr>sc_name = name, sc_conn = None, sc_requests = Buffer_init, sc_input = input, sc_count = 0,
     sc_sendTime = [], sc_latencies = []\<rparr>"

definition SudokuClient_onConnection :: "TcpConnection \<Rightarrow> SudokuClient \<Rightarrow> SudokuClient" where
  "SudokuClient_onConnection conn c = c\<lparr>sc_conn := if tc_state conn = kConnected then Some conn else None\<rparr>"

definition request_text :: "string \<Rightarrow> nat \<Rightarrow> string \<Rightarrow> string" where
  "request_text name n req = name @ ''-'' @ pad8 n @ '':'' @ req @ kCRLF"

text \<open>One iteration of the loop of \<open>send\<close>; \<open>snprintf\<close> returns the length of the whole text, of which the array holds 255 bytes.\<close>

definition SudokuClient_request :: "int \<Rightarrow> SudokuClient \<Rightarrow> SudokuClient result" where
  "SudokuClient_request now c =
     (if sc_input c = [] then Inl DivideByZero
      else (let req = sc_input c ! (sc_count c mod length (sc_input c));
                text' = request_text (sc_name c) (sc_count c) req;
                buf = snprintf 256 text' @ replicate (256 - length (snprintf 256 text')) (CHR 0x00)
            in bindR (mem_read buf 0 (length text')) (\<lambda>data.
               bindR (Buffer_append (sc_requests c) data) (\<lambda>requests.
               Inr (c\<lparr>sc_requests := requests, sc_sendTime := AList.update (int (sc_count c)) now (sc_sendTime c),
                      sc_count := sc_count c + 1\<rparr>)))))"

definition SudokuClient_send :: "write_call \<Rightarrow> int \<Rightarrow> int \<Rightarrow> int \<Rightarrow> SudokuClient \<Rightarrow> SudokuClient result" where
  "SudokuClient_send write tid now n c =
     bindR (assertR (n > 0)) (\<lambda>_.
     case sc_conn c of
       None \<Rightarrow> Inr c
     | Some conn \<Rightarrow>
         bindR (foldR (\<lambda>_. SudokuClient_request now) [0..<nat n] c) (\<lambda>c.
         bindR (TcpConnection_send_Buffer write tid (sc_requests c) conn) (\<lambda>(conn, requests).
         Inr (c\<lparr>sc_conn := Some conn, sc_requests := requests\<rparr>))))"

definition SudokuClient_report :: "SudokuClient \<Rightarrow> int list \<times> int \<Rightarrow> SudokuClient \<times> int list \<times> int" where
  "SudokuClient_report c r = (c\<lparr>sc_latencies := []\<rparr>, fst r @ sc_latencies c, snd r + int (length (sc_sendTime c)))"

definition SudokuClient_verify :: "string \<Rightarrow> int \<Rightarrow> SudokuClient \<Rightarrow> bool \<times> SudokuClient" where
  "SudokuClient_verify response recvTime c =
     (case find_char CHR '':'' response of
        None \<Rightarrow> (True, c)
      | Some colon \<Rightarrow>
          (case find_char CHR ''-'' response of
             None \<Rightarrow> (True, c)
           | Some dash \<Rightarrow>
               if dash < colon
               then (let ident = atoi (cstr (drop (dash + 1) response)) in
                     case map_of (sc_sendTime c) ident of
                       Some sendTime \<Rightarrow>
                         (True, c\<lparr>sc_latencies := sc_latencies c @ [to_int32 (recvTime - sendTime)],
                                  sc_sendTime := AList.delete ident (sc_sendTime c)\<rparr>)
                     | None \<Rightarrow> (True, c))
               else (True, c)))"

text \<open>The loop of \<open>onMessage\<close> is that of the servers; a response that is refused shuts the connection down, without an answer.\<close>

definition SudokuClient_onMessage :: "int \<Rightarrow> Buffer \<Rightarrow> int \<Rightarrow> SudokuClient \<Rightarrow> (Buffer \<times> SudokuClient) result option" where
  "SudokuClient_onMessage tid buf recvTime = serve_lines
     (\<lambda>response c. Some (Inr (SudokuClient_verify response recvTime c)))
     (\<lambda>_ c. case sc_conn c of
              None \<Rightarrow> Inl NullPointer
            | Some conn \<Rightarrow> bindR (TcpConnection_shutdown tid conn) (\<lambda>conn. Inr (c\<lparr>sc_conn := Some conn\<rparr>))) buf"

section \<open>The load test\<close>

record SudokuLoadTest =
  lt_clients :: "SudokuClient list"
  lt_count :: int
  lt_ticks :: int
  lt_sofar :: int

definition kHz :: int where "kHz = 100"

definition SudokuLoadTest_new :: "SudokuClient list \<Rightarrow> SudokuLoadTest" where
  "SudokuLoadTest_new clients = \<lparr>lt_clients = clients, lt_count = 0, lt_ticks = 0, lt_sofar = 0\<rparr>"

fun send_all :: "(SudokuClient \<Rightarrow> SudokuClient result) \<Rightarrow> SudokuClient list \<Rightarrow> SudokuClient list result" where
  "send_all f [] = Inr []"
| "send_all f (c # cs) = bindR (f c) (\<lambda>c. bindR (send_all f cs) (\<lambda>cs. Inr (c # cs)))"

definition SudokuLoadTest_tick :: "write_call \<Rightarrow> int \<Rightarrow> int \<Rightarrow> int \<Rightarrow> SudokuLoadTest \<Rightarrow> SudokuLoadTest result" where
  "SudokuLoadTest_tick write tid now rps t =
     (let t = t\<lparr>lt_ticks := lt_ticks t + 1\<rparr>;
          reqs = cdiv (rps * lt_ticks t) kHz - lt_sofar t;
          t = t\<lparr>lt_sofar := lt_sofar t + reqs\<rparr>
      in if reqs > 0
         then bindR (send_all (SudokuClient_send write tid now (to_int32 reqs)) (lt_clients t)) (\<lambda>clients. Inr (t\<lparr>lt_clients := clients\<rparr>))
         else Inr t)"

fun report_all :: "SudokuClient list \<Rightarrow> int list \<times> int \<Rightarrow> SudokuClient list \<times> int list \<times> int" where
  "report_all [] r = ([], r)"
| "report_all (c # cs) r = (let (c, r) = SudokuClient_report c r; (cs, r) = report_all cs r in (c # cs, r))"

text \<open>\<open>tock\<close>, with the statistics and the lines that are saved.\<close>

definition SudokuLoadTest_tock :: "SudokuLoadTest \<Rightarrow> (SudokuLoadTest \<times> Percentile \<times> (int \<times> int \<times> int) list) result" where
  "SudokuLoadTest_tock t =
     (let (clients, latencies, infly) = report_all (lt_clients t) ([], 0) in
      bindR (Percentile_new latencies infly) (\<lambda>(latencies, p).
      bindR (Percentile_save latencies) (\<lambda>lines.
      Inr (t\<lparr>lt_clients := clients, lt_count := lt_count t + 1\<rparr>, p, lines))))"

section \<open>Numbers come back\<close>

lemma pad8_digits: "c \<in> set (pad8 n) \<Longrightarrow> isdigit c"
  using nat_dec_word(2) [of n] by (auto simp: pad8_def isdigit_def)

lemma pad8_length: "n < 10 ^ 8 \<Longrightarrow> length (pad8 n) = 8"
  using length_nat_dec [of n 8] by (simp add: pad8_def)

lemma pad8_nonempty: "pad8 n \<noteq> []"
  by (simp add: pad8_def)

lemma isdigit_not: "isdigit c \<Longrightarrow> c \<noteq> CHR '':'' \<and> c \<noteq> CHR ''-'' \<and> c \<noteq> CHR ''+'' \<and> c \<noteq> CHR 0x0D \<and> c \<noteq> CHR 0x00 \<and> \<not> isspace c"
  by (auto simp: isdigit_def isspace_def)

lemma dec_val_pad8: "dec_val (pad8 n) = n"
proof -
  have z: "foldl (\<lambda>a c. 10 * a + digit_val c) 0 (replicate k CHR ''0'') = 0" for k
    by (induction k) (simp_all add: digit_val_def)
  have "dec_val (pad8 n) = dec_val (nat_dec n)" by (simp add: pad8_def dec_val_def z)
  then show ?thesis by simp
qed

lemma atoi_pad8:
  assumes "stops isdigit s"
  shows "atoi (pad8 n @ s) = int n"
proof -
  have d: "\<forall>c\<in>set (pad8 n). isdigit c" using pad8_digits by blast
  obtain c cs where p: "pad8 n = c # cs" using pad8_nonempty [of n] by (cases "pad8 n") auto
  have c: "\<not> isspace c" "c \<noteq> CHR ''-''" "c \<noteq> CHR ''+''" using d isdigit_not [of c] by (auto simp: p)
  have "takeWhile isdigit (pad8 n @ s) = pad8 n" by (rule takeWhile_stops [OF d assms])
  then show ?thesis using c dec_val_pad8 [of n] by (simp add: atoi_def p Let_def)
qed

section \<open>A request and its answer\<close>

text \<open>The names the load test uses, and the puzzles it can ask.\<close>

definition name_ok :: "string \<Rightarrow> bool" where
  "name_ok name \<longleftrightarrow> length name \<le> 100 \<and> CHR ''-'' \<notin> set name \<and> CHR '':'' \<notin> set name \<and> CHR 0x0D \<notin> set name"

definition input_ok :: "string list \<Rightarrow> bool" where
  "input_ok input \<longleftrightarrow> input \<noteq> [] \<and> (\<forall>p\<in>set input. length p = kCells \<and> CHR 0x0D \<notin> set p)"

definition request_ident :: "string \<Rightarrow> nat \<Rightarrow> string" where
  "request_ident name n = name @ ''-'' @ pad8 n"

definition request_line :: "SudokuClient \<Rightarrow> nat \<Rightarrow> string" where
  "request_line c n = request_ident (sc_name c) n @ '':'' @ sc_input c ! (n mod length (sc_input c))"

lemma request_line_text: "request_text (sc_name c) n (sc_input c ! (n mod length (sc_input c))) = request_line c n @ kCRLF"
  by (simp add: request_text_def request_line_def request_ident_def)

lemma ident_ok: "name_ok name \<Longrightarrow> CHR '':'' \<notin> set (request_ident name n) \<and> CHR 0x0D \<notin> set (request_ident name n)"
  using pad8_digits [of _ n] isdigit_not by (auto simp: request_ident_def name_ok_def)

lemma request_line_ok:
  assumes "name_ok (sc_name c)" "input_ok (sc_input c)"
  shows "CHR 0x0D \<notin> set (request_line c n)" "request_id (request_line c n) = request_ident (sc_name c) n"
    "request_puzzle (request_line c n) = sc_input c ! (n mod length (sc_input c))"
    "length (sc_input c ! (n mod length (sc_input c))) = kCells"
proof -
  have "sc_input c ! (n mod length (sc_input c)) \<in> set (sc_input c)" using assms(2) by (simp add: input_ok_def)
  then have p: "length (sc_input c ! (n mod length (sc_input c))) = kCells" "CHR 0x0D \<notin> set (sc_input c ! (n mod length (sc_input c)))"
    using assms(2) unfolding input_ok_def by blast+
  show "length (sc_input c ! (n mod length (sc_input c))) = kCells" by (rule p(1))
  have "CHR '':'' \<notin> set (request_ident (sc_name c) n)" using ident_ok [OF assms(1)] by blast
  from request_split [OF this] show "request_id (request_line c n) = request_ident (sc_name c) n"
    "request_puzzle (request_line c n) = sc_input c ! (n mod length (sc_input c))" unfolding request_line_def by blast+
  show "CHR 0x0D \<notin> set (request_line c n)" using ident_ok [OF assms(1)] p(2) by (simp add: request_line_def)
qed

text \<open>The answer to the request \<open>n\<close> is taken for that request.\<close>

lemma verify_answer:
  assumes "name_ok name" "map_of (sc_sendTime c) (int n) = Some t"
  shows "SudokuClient_verify (request_ident name n @ '':'' @ result) recvTime c =
    (True, c\<lparr>sc_latencies := sc_latencies c @ [to_int32 (recvTime - t)], sc_sendTime := AList.delete (int n) (sc_sendTime c)\<rparr>)"
proof -
  let ?r = "request_ident name n @ '':'' @ result" and ?d = "length name"
  have colon: "find_char CHR '':'' ?r = Some (length (request_ident name n))"
    using ident_ok [OF assms(1), of n] by (simp add: find_char_Some nth_append)
  have dash: "find_char CHR ''-'' ?r = Some ?d"
    using assms(1) by (simp add: find_char_Some nth_append request_ident_def name_ok_def)
  have less: "?d < length (request_ident name n)" by (simp add: request_ident_def)
  have "drop (?d + 1) ?r = pad8 n @ CHR '':'' # result" by (simp add: request_ident_def)
  moreover have "cstr (pad8 n @ CHR '':'' # result) = pad8 n @ CHR '':'' # cstr result"
    using pad8_digits [of _ n] isdigit_not by (auto simp: cstr_def takeWhile_append)
  moreover have "atoi (pad8 n @ CHR '':'' # cstr result) = int n" by (rule atoi_pad8) (simp add: stops_def isdigit_def)
  ultimately have "atoi (cstr (drop (?d + 1) ?r)) = int n" by simp
  then show ?thesis
    unfolding SudokuClient_verify_def colon dash option.case using less assms(2) by (simp add: Let_def)
qed

section \<open>Sending\<close>

definition fresh_ids :: "SudokuClient \<Rightarrow> bool" where
  "fresh_ids c \<longleftrightarrow> (\<forall>e\<in>set (sc_sendTime c). fst e < int (sc_count c))"

lemma update_new: "k \<notin> fst ` set xs \<Longrightarrow> AList.update k v xs = xs @ [(k, v)]"
  by (induction xs) auto

lemma request_line_length: "name_ok (sc_name c) \<Longrightarrow> input_ok (sc_input c) \<Longrightarrow> n < 10 ^ 8 \<Longrightarrow> length (request_line c n @ kCRLF) \<le> 200"
  using request_line_ok(4) [of c n] pad8_length [of n]
  by (simp add: request_line_def request_ident_def name_ok_def kCells_def kCRLF_def)

lemma request_step:
  assumes "name_ok (sc_name c)" "input_ok (sc_input c)" "sc_count c < 10 ^ 8" "fresh_ids c" "buffer_ok (sc_requests c)"
  shows "\<exists>b. SudokuClient_request now c = Inr (c\<lparr>sc_requests := b, sc_sendTime := sc_sendTime c @ [(int (sc_count c), now)],
      sc_count := sc_count c + 1\<rparr>) \<and> buffer_ok b \<and> content b = content (sc_requests c) @ request_line c (sc_count c) @ kCRLF"
proof -
  let ?t = "request_line c (sc_count c) @ kCRLF"
  have len: "length ?t \<le> 200" by (rule request_line_length [OF assms(1-3)])
  have ne: "sc_input c \<noteq> []" using assms(2) by (simp add: input_ok_def)
  have "snprintf 256 ?t = ?t" using len by (simp add: snprintf_def)
  then have buf: "mem_read (snprintf 256 ?t @ replicate (256 - length (snprintf 256 ?t)) (CHR 0x00)) 0 (length ?t) = Inr ?t"
    using len by (simp add: mem_read_def slice_def)
  obtain b where b: "Buffer_append (sc_requests c) ?t = Inr b" "buffer_ok b" "content b = content (sc_requests c) @ ?t"
    using Buffer_append_spec [OF assms(5)] by blast
  have "int (sc_count c) \<notin> fst ` set (sc_sendTime c)" using assms(4) by (auto simp: fresh_ids_def)
  then have u: "AList.update (int (sc_count c)) now (sc_sendTime c) = sc_sendTime c @ [(int (sc_count c), now)]" by (rule update_new)
  have "SudokuClient_request now c = Inr (c\<lparr>sc_requests := b, sc_sendTime := sc_sendTime c @ [(int (sc_count c), now)],
      sc_count := sc_count c + 1\<rparr>)"
    unfolding SudokuClient_request_def Let_def request_line_text buf u using ne b(1) by simp
  with b(2,3) show ?thesis by blast
qed

definition sent_ids :: "nat \<Rightarrow> nat \<Rightarrow> int \<Rightarrow> (int \<times> int) list" where
  "sent_ids a n now = map (\<lambda>i. (int i, now)) [a..<a + n]"

lemma request_loop:
  assumes "name_ok (sc_name c)" "input_ok (sc_input c)" "sc_count c + n \<le> 10 ^ 8" "fresh_ids c" "buffer_ok (sc_requests c)"
  shows "length xs = n \<Longrightarrow> \<exists>b. foldR (\<lambda>_. SudokuClient_request now) xs c =
      Inr (c\<lparr>sc_requests := b, sc_sendTime := sc_sendTime c @ sent_ids (sc_count c) n now, sc_count := sc_count c + n\<rparr>) \<and>
    buffer_ok b \<and> content b = content (sc_requests c) @ line_text (map (request_line c) [sc_count c..<sc_count c + n])"
  using assms
proof (induction n arbitrary: c xs)
  case 0
  then show ?case by (intro exI [of _ "sc_requests c"]) (simp add: sent_ids_def line_text_def)
next
  case (Suc n)
  obtain x xs' where xs: "xs = x # xs'" "length xs' = n" using Suc.prems(1) by (cases xs) auto
  have lt: "sc_count c < 10 ^ 8" using Suc.prems(4) by simp
  obtain b where b: "SudokuClient_request now c = Inr (c\<lparr>sc_requests := b, sc_sendTime := sc_sendTime c @ [(int (sc_count c), now)],
      sc_count := sc_count c + 1\<rparr>)" "buffer_ok b" "content b = content (sc_requests c) @ request_line c (sc_count c) @ kCRLF"
    using request_step [OF Suc.prems(2,3) lt Suc.prems(5,6)] by blast
  define c1 where "c1 = c\<lparr>sc_requests := b, sc_sendTime := sc_sendTime c @ [(int (sc_count c), now)], sc_count := sc_count c + 1\<rparr>"
  have f: "sc_name c1 = sc_name c" "sc_input c1 = sc_input c" "sc_count c1 = Suc (sc_count c)" "sc_requests c1 = b"
    "sc_sendTime c1 = sc_sendTime c @ [(int (sc_count c), now)]" by (simp_all add: c1_def)
  have line: "request_line c1 = request_line c" by (rule ext) (simp add: request_line_def f)
  have fresh: "fresh_ids c1" using Suc.prems(5) by (auto simp: fresh_ids_def f)
  have bound: "sc_count c1 + n \<le> 10 ^ 8" using Suc.prems(4) by (simp only: f add_Suc_shift)
  have IH: "\<exists>b'. foldR (\<lambda>_. SudokuClient_request now) xs' c1 =
      Inr (c1\<lparr>sc_requests := b', sc_sendTime := sc_sendTime c1 @ sent_ids (sc_count c1) n now, sc_count := sc_count c1 + n\<rparr>) \<and>
    buffer_ok b' \<and> content b' = content (sc_requests c1) @ line_text (map (request_line c1) [sc_count c1..<sc_count c1 + n])"
    by (rule Suc.IH [OF xs(2) _ _ bound fresh]) (use Suc.prems(2,3) b(2) in \<open>simp_all only: f\<close>)
  then obtain b' where b': "foldR (\<lambda>_. SudokuClient_request now) xs' c1 =
      Inr (c1\<lparr>sc_requests := b', sc_sendTime := sc_sendTime c1 @ sent_ids (sc_count c1) n now, sc_count := sc_count c1 + n\<rparr>)"
    "buffer_ok b'" "content b' = content (sc_requests c1) @ line_text (map (request_line c1) [sc_count c1..<sc_count c1 + n])" by blast
  have ids: "(int (sc_count c), now) # sent_ids (Suc (sc_count c)) n now = sent_ids (sc_count c) (Suc n) now"
    by (simp add: sent_ids_def upt_conv_Cons del: upt_Suc)
  have lines: "(request_line c (sc_count c) @ kCRLF) @ line_text (map (request_line c) [Suc (sc_count c)..<Suc (sc_count c) + n]) =
      line_text (map (request_line c) [sc_count c..<sc_count c + Suc n])"
    by (simp add: line_text_def upt_conv_Cons del: upt_Suc)
  have "c1\<lparr>sc_requests := b', sc_sendTime := sc_sendTime c1 @ sent_ids (sc_count c1) n now, sc_count := sc_count c1 + n\<rparr> =
      c\<lparr>sc_requests := b', sc_sendTime := sc_sendTime c @ sent_ids (sc_count c) (Suc n) now, sc_count := sc_count c + Suc n\<rparr>"
    by (simp add: c1_def flip: ids)
  moreover have "foldR (\<lambda>_. SudokuClient_request now) xs c = foldR (\<lambda>_. SudokuClient_request now) xs' c1"
    using b(1) by (simp add: xs(1) c1_def)
  moreover have "content b' = content (sc_requests c) @ line_text (map (request_line c) [sc_count c..<sc_count c + Suc n])"
    unfolding b'(3) f line b(3) lines [symmetric] by simp
  ultimately show ?case using b'(1,2) by auto
qed

lemma send_Buffer_live:
  assumes "live tid conn" "steady write"
  shows "\<exists>conn'. TcpConnection_send_Buffer write tid b conn = Inr (conn', Buffer_retrieveAll b) \<and> live tid conn' \<and>
    tc_accepted conn' = tc_accepted conn @ content b"
proof -
  obtain c where c: "TcpConnection_send write tid (content b) conn = Inr c" "live tid c" "tc_accepted c = tc_accepted conn @ content b"
    using send_accepts [OF assms] by blast
  have "TcpConnection_send_Buffer write tid b conn = Inr (c, Buffer_retrieveAll b)"
    using c(1) assms(1) by (simp add: TcpConnection_send_def TcpConnection_send_Buffer_def live_def)
  with c show ?thesis by blast
qed

lemma client_sends:
  assumes c: "name_ok (sc_name c)" "input_ok (sc_input c)" "sc_count c + n \<le> 10 ^ 8" "fresh_ids c" "buffer_ok (sc_requests c)"
      "content (sc_requests c) = []"
    and conn: "sc_conn c = Some conn" "live tid conn" "steady write" and n: "0 < n"
  shows "\<exists>b conn'. SudokuClient_send write tid now (int n) c =
      Inr (c\<lparr>sc_requests := b, sc_sendTime := sc_sendTime c @ sent_ids (sc_count c) n now, sc_count := sc_count c + n, sc_conn := Some conn'\<rparr>) \<and>
    buffer_ok b \<and> content b = [] \<and> live tid conn' \<and>
    tc_accepted conn' = tc_accepted conn @ line_text (map (request_line c) [sc_count c..<sc_count c + n])"
proof -
  obtain b where b: "foldR (\<lambda>_. SudokuClient_request now) [0..<n] c =
      Inr (c\<lparr>sc_requests := b, sc_sendTime := sc_sendTime c @ sent_ids (sc_count c) n now, sc_count := sc_count c + n\<rparr>)"
    "buffer_ok b" "content b = line_text (map (request_line c) [sc_count c..<sc_count c + n])"
    using request_loop [OF c(1-5), of "[0..<n]"] c(6) by auto
  obtain conn' where s: "TcpConnection_send_Buffer write tid b conn = Inr (conn', Buffer_retrieveAll b)" "live tid conn'"
    "tc_accepted conn' = tc_accepted conn @ content b" using send_Buffer_live [OF conn(2,3)] by blast
  have "SudokuClient_send write tid now (int n) c =
      Inr (c\<lparr>sc_requests := Buffer_retrieveAll b, sc_sendTime := sc_sendTime c @ sent_ids (sc_count c) n now, sc_count := sc_count c + n,
        sc_conn := Some conn'\<rparr>)"
    using b(1) s(1) conn(1) n by (simp add: SudokuClient_send_def)
  then show ?thesis using s b(2,3) by (intro exI [of _ "Buffer_retrieveAll b"] exI [of _ conn'] conjI) simp_all
qed

section \<open>There and back\<close>

definition solvable :: "string \<Rightarrow> bool" where
  "solvable puzzle \<longleftrightarrow> (\<exists>g. sudoku_solution g \<and> extends (read_board puzzle) g)"

lemma solution_text:
  assumes "sudoku_solution g"
  shows "length (show_board g) = kCells" "CHR 0x0D \<notin> set (show_board g)"
proof -
  show "length (show_board g) = kCells" using assms by (simp add: show_board_def sudoku_solution_def)
  have "c \<noteq> CHR 0x0D" if c: "c \<in> set (show_board g)" for c
  proof -
    obtain b where b: "b \<in> set g" "c = char_of (nat (b + 48))" using c by (auto simp: show_board_def)
    then have "1 \<le> b" "b \<le> 9" using assms by (auto simp: in_set_conv_nth sudoku_solution_def)
    then have "(of_char c :: nat) = nat (b + 48)" "nat (b + 48) \<ge> 49" by (simp_all add: b(2))
    then show ?thesis by auto
  qed
  then show "CHR 0x0D \<notin> set (show_board g)" by blast
qed

text \<open>The client takes the answers to the requests \<open>a, \<dots>\<close> in order.\<close>

lemma chained_function: "chained (\<lambda>r c c'. c' = f r c) rs c c' \<Longrightarrow> c' = fold f rs c"
  by (induction rs arbitrary: c) auto

lemma delete_first: "k \<notin> fst ` set xs \<Longrightarrow> k \<notin> fst ` set ys \<Longrightarrow> AList.delete k (xs @ (k, v) # ys) = xs @ ys"
proof (induction xs)
  case Nil
  then show ?case by (simp add: delete_idem)
qed auto

lemma verify_all:
  assumes "name_ok (sc_name c)" "length results = n" "\<forall>e\<in>set old. fst e < int a" "sc_sendTime c = old @ sent_ids a n now"
  shows "fold (\<lambda>r c. snd (SudokuClient_verify r recvTime c))
      (map2 (\<lambda>i result. request_ident (sc_name c) i @ '':'' @ result) [a..<a + n] results) c =
    c\<lparr>sc_latencies := sc_latencies c @ replicate n (to_int32 (recvTime - now)), sc_sendTime := old\<rparr>"
  using assms
proof (induction n arbitrary: a results c)
  case 0
  have [simp]: "sc_sendTime c = old" using 0(4) by (simp add: sent_ids_def)
  have "c\<lparr>sc_latencies := sc_latencies c, sc_sendTime := sc_sendTime c\<rparr> = c" by simp
  then show ?case by simp
next
  case (Suc n)
  obtain r rs where rs: "results = r # rs" "length rs = n" using Suc.prems(2) by (cases results) auto
  have ids: "sent_ids a (Suc n) now = (int a, now) # sent_ids (Suc a) n now" by (simp add: sent_ids_def upt_conv_Cons del: upt_Suc)
  have fresh: "int a \<notin> fst ` set old" using Suc.prems(3) by (metis imageE less_irrefl)
  have later: "int a \<notin> fst ` set (sent_ids (Suc a) n now)" by (auto simp: sent_ids_def)
  have old: "map_of old (int a) = None" using fresh by (simp add: map_of_eq_None_iff)
  have "map_of (sc_sendTime c) (int a) = Some now" using old by (simp add: Suc.prems(4) ids map_add_def)
  note v = verify_answer [OF Suc.prems(1) this, of r recvTime]
  have del: "AList.delete (int a) (sc_sendTime c) = old @ sent_ids (Suc a) n now"
    unfolding Suc.prems(4) ids by (rule delete_first [OF fresh later])
  define c1 where "c1 = c\<lparr>sc_latencies := sc_latencies c @ [to_int32 (recvTime - now)], sc_sendTime := old @ sent_ids (Suc a) n now\<rparr>"
  have f: "sc_name c1 = sc_name c" "sc_sendTime c1 = old @ sent_ids (Suc a) n now" by (simp_all add: c1_def)
  have "fold (\<lambda>r c. snd (SudokuClient_verify r recvTime c))
      (map2 (\<lambda>i result. request_ident (sc_name c1) i @ '':'' @ result) [Suc a..<Suc a + n] rs) c1 =
    c1\<lparr>sc_latencies := sc_latencies c1 @ replicate n (to_int32 (recvTime - now)), sc_sendTime := old\<rparr>"
    by (rule Suc.IH) (use Suc.prems(1,3) rs(2) f in auto)
  moreover have "map2 (\<lambda>i result. request_ident (sc_name c) i @ '':'' @ result) [a..<a + Suc n] results =
      (request_ident (sc_name c) a @ '':'' @ r) # map2 (\<lambda>i result. request_ident (sc_name c1) i @ '':'' @ result) [Suc a..<Suc a + n] rs"
    by (simp add: rs(1) f upt_conv_Cons del: upt_Suc)
  moreover have "snd (SudokuClient_verify (request_ident (sc_name c) a @ '':'' @ r) recvTime c) = c1"
    unfolding v by (simp add: c1_def del)
  ultimately show ?case by (simp add: c1_def)
qed

text \<open>The answers of the server to the requests of a client, when all its puzzles can be solved.\<close>

lemma answers_text:
  assumes c: "name_ok (sc_name c)" "input_ok (sc_input c)" and s: "\<forall>p\<in>set (sc_input c). solvable p"
  shows "answers (map (request_line c) is) ts \<Longrightarrow>
    \<exists>results. length results = length is \<and> (\<forall>r\<in>set results. length r = kCells \<and> CHR 0x0D \<notin> set r) \<and>
      concat ts = line_text (map2 (\<lambda>i result. request_ident (sc_name c) i @ '':'' @ result) is results)"
proof (induction "is" arbitrary: ts)
  case Nil
  then show ?case by (intro exI [of _ "[]"]) (simp add: answers_def line_text_def)
next
  case (Cons i "is")
  obtain t ts' where t: "ts = t # ts'" "answers (map (request_line c) is) ts'" and
    "\<exists>result. solves (request_puzzle (request_line c i)) result \<and> t = result_line (request_id (request_line c i)) result"
    using Cons.prems by (auto simp: answers_def list_all2_Cons1)
  then obtain result where res: "solves (sc_input c ! (i mod length (sc_input c))) result" "t = result_line (request_ident (sc_name c) i) result"
    unfolding request_line_ok(2,3) [OF c] by blast
  have "sc_input c ! (i mod length (sc_input c)) \<in> set (sc_input c)" using c(2) by (simp add: input_ok_def)
  then have "solvable (sc_input c ! (i mod length (sc_input c)))" using s by blast
  then obtain g where "result = show_board g" "sudoku_solution g" using res(1) by (auto simp: solves_def solvable_def)
  then have r: "length result = kCells" "CHR 0x0D \<notin> set result" using solution_text by blast+
  have t': "t = request_ident (sc_name c) i @ '':'' @ result @ kCRLF" using res(2) by (simp add: result_line_def request_ident_def)
  from Cons.IH [OF t(2)] obtain results where IH: "length results = length is" "\<forall>r\<in>set results. length r = kCells \<and> CHR 0x0D \<notin> set r"
    "concat ts' = line_text (map2 (\<lambda>i result. request_ident (sc_name c) i @ '':'' @ result) is results)" by blast
  show ?case
  proof (intro exI conjI)
    show "length (result # results) = length (i # is)" using IH(1) by simp
    show "\<forall>r\<in>set (result # results). length r = kCells \<and> CHR 0x0D \<notin> set r" using IH(2) r by simp
    show "concat ts = line_text (map2 (\<lambda>i result. request_ident (sc_name c) i @ '':'' @ result) (i # is) (result # results))"
      by (simp add: t(1) t' IH(3) line_text_def)
  qed
qed

text \<open>The client accepts every line, in any state.\<close>

interpretation reader: line_service "\<lambda>response c. Some (Inr (SudokuClient_verify response recvTime c))"
  "\<lambda>_ c. case sc_conn c of
      None \<Rightarrow> Inl NullPointer
    | Some conn \<Rightarrow> bindR (TcpConnection_shutdown tid conn) (\<lambda>conn. Inr (c\<lparr>sc_conn := Some conn\<rparr>))"
  "\<lambda>r. CHR 0x0D \<notin> set r \<and> kCells \<le> length r" "\<lambda>_. True" "\<lambda>r c c'. c' = snd (SudokuClient_verify r recvTime c)" for recvTime tid
proof unfold_locales
  have "fst (SudokuClient_verify r recvTime c) = True" for r recvTime c
    by (simp add: SudokuClient_verify_def Let_def split: option.split)
  then show "\<exists>c'. Some (Inr (SudokuClient_verify r recvTime c)) = Some (Inr (True, c')) \<and> True \<and> c' = snd (SudokuClient_verify r recvTime c)"
    for r c by (metis prod.collapse)
qed

lemma client_reads:
  assumes b: "buffer_ok b" "content b = line_text rs" and r: "\<forall>r\<in>set rs. CHR 0x0D \<notin> set r \<and> kCells \<le> length r"
  shows "\<exists>b'. SudokuClient_onMessage tid b recvTime c = Some (Inr (b', fold (\<lambda>r c. snd (SudokuClient_verify r recvTime c)) rs c)) \<and> content b' = []"
proof -
  have all: "content b = line_text rs @ []" and short: "length [] < kCells + 2" using b(2) by simp_all
  obtain b' c' where s: "SudokuClient_onMessage tid b recvTime c = Some (Inr (b', c'))" "content b' = []"
      "chained (\<lambda>r c c'. c' = snd (SudokuClient_verify r recvTime c)) rs c c'"
    using reader.serves_all [OF b(1) all TrueI short r] unfolding SudokuClient_onMessage_def by blast
  with chained_function [OF s(3)] show ?thesis by blast
qed

text \<open>Everything a client needs to send: a name and puzzles, room for the numbers, a connection in its own thread.\<close>

definition client_ready :: "int \<Rightarrow> SudokuClient \<Rightarrow> bool" where
  "client_ready tid c \<longleftrightarrow> name_ok (sc_name c) \<and> input_ok (sc_input c) \<and> fresh_ids c \<and> buffer_ok (sc_requests c) \<and>
     content (sc_requests c) = [] \<and> (\<exists>conn. sc_conn c = Some conn \<and> live tid conn)"

lemma fresh_sent: "fresh_ids c \<Longrightarrow> \<forall>e\<in>set (sc_sendTime c @ sent_ids (sc_count c) n now). fst e < int (sc_count c + n)"
  by (auto simp: fresh_ids_def sent_ids_def)

lemma ready_sends:
  assumes "client_ready tid c" "steady write" "0 < n" "sc_count c + n \<le> 10 ^ 8" "sc_conn c = Some conn"
  shows "\<exists>c' conn'. SudokuClient_send write tid now (int n) c = Inr c' \<and> client_ready tid c' \<and> sc_count c' = sc_count c + n \<and>
    sc_sendTime c' = sc_sendTime c @ sent_ids (sc_count c) n now \<and> sc_name c' = sc_name c \<and> sc_latencies c' = sc_latencies c \<and>
    sc_conn c' = Some conn' \<and> tc_accepted conn' = tc_accepted conn @ line_text (map (request_line c) [sc_count c..<sc_count c + n])"
proof -
  note r = assms(1) [unfolded client_ready_def]
  have conn: "sc_conn c = Some conn" "live tid conn" using r assms(5) by auto
  obtain b conn' where s: "SudokuClient_send write tid now (int n) c =
      Inr (c\<lparr>sc_requests := b, sc_sendTime := sc_sendTime c @ sent_ids (sc_count c) n now, sc_count := sc_count c + n, sc_conn := Some conn'\<rparr>)"
    "buffer_ok b" "content b = []" "live tid conn'"
    "tc_accepted conn' = tc_accepted conn @ line_text (map (request_line c) [sc_count c..<sc_count c + n])"
    using client_sends [OF _ _ assms(4) _ _ _ conn assms(2,3), of now] r by blast
  let ?c = "c\<lparr>sc_requests := b, sc_sendTime := sc_sendTime c @ sent_ids (sc_count c) n now, sc_count := sc_count c + n, sc_conn := Some conn'\<rparr>"
  have "fresh_ids ?c" using fresh_sent [of c n now] r unfolding fresh_ids_def by simp
  then have "client_ready tid ?c" using r s(2-4) by (simp add: client_ready_def)
  with s(1,5) show ?thesis by (intro exI [of _ ?c] exI [of _ conn']) simp
qed

text \<open>
  C14. Client and server together. A client that is ready sends \<open>n\<close> requests; when their bytes reach a server it answers
  them all; when these bytes reach the client every request is taken for answered, with the time it took, and no answer is
  left unread, provided that the puzzles have solutions.
\<close>

theorem SudokuLoadTest_roundtrip:
  assumes client: "client_ready tid c" "sc_conn c = Some conn" "sc_count c + n \<le> 10 ^ 8" "0 < n" "\<forall>p\<in>set (sc_input c). solvable p"
    and server: "live tid' peer" and wr: "steady write" "steady write'"
  shows "\<exists>c1 conn1 requests. SudokuClient_send write tid sent (int n) c = Inr c1 \<and> sc_conn c1 = Some conn1 \<and>
    tc_accepted conn1 = tc_accepted conn @ requests \<and> sc_sendTime c1 = sc_sendTime c @ sent_ids (sc_count c) n sent \<and>
    (\<forall>b. buffer_ok b \<and> content b = requests \<longrightarrow>
      (\<exists>b' peer' reply. SudokuServer_onMessage write' tid' b peer = Some (Inr (b', peer')) \<and> content b' = [] \<and>
        tc_accepted peer' = tc_accepted peer @ reply \<and>
        (\<forall>r. buffer_ok r \<and> content r = reply \<longrightarrow>
          (\<exists>r'. SudokuClient_onMessage tid r received c1 = Some (Inr (r', c1\<lparr>sc_latencies := sc_latencies c @ replicate n (to_int32 (received - sent)),
              sc_sendTime := sc_sendTime c\<rparr>)) \<and> content r' = []))))"
proof -
  have ok: "name_ok (sc_name c)" "input_ok (sc_input c)" and ids: "\<forall>e\<in>set (sc_sendTime c). fst e < int (sc_count c)"
    using client(1) by (simp_all add: client_ready_def fresh_ids_def)
  let ?is = "[sc_count c..<sc_count c + n]"
  obtain c1 conn1 where c1: "SudokuClient_send write tid sent (int n) c = Inr c1" "sc_sendTime c1 = sc_sendTime c @ sent_ids (sc_count c) n sent"
    "sc_name c1 = sc_name c" "sc_latencies c1 = sc_latencies c" "sc_conn c1 = Some conn1"
    "tc_accepted conn1 = tc_accepted conn @ line_text (map (request_line c) ?is)"
    using ready_sends [OF client(1) wr(1) client(4,3,2)] by blast
  have "\<exists>b' peer' reply. SudokuServer_onMessage write' tid' b peer = Some (Inr (b', peer')) \<and> content b' = [] \<and>
        tc_accepted peer' = tc_accepted peer @ reply \<and>
        (\<forall>r. buffer_ok r \<and> content r = reply \<longrightarrow>
          (\<exists>r'. SudokuClient_onMessage tid r received c1 = Some (Inr (r', c1\<lparr>sc_latencies := sc_latencies c @ replicate n (to_int32 (received - sent)),
              sc_sendTime := sc_sendTime c\<rparr>)) \<and> content r' = []))"
    if b: "buffer_ok b" "content b = line_text (map (request_line c) ?is)" for b
  proof -
    have b2: "content b = line_text (map (request_line c) ?is) @ []" "length [] < kCells + 2" using b(2) by simp_all
    have lines: "\<forall>r\<in>set (map (request_line c) ?is). good_request r" using request_line_ok [OF ok] by (auto simp: good_request_def)
    obtain b' peer' ts where s: "SudokuServer_onMessage write' tid' b peer = Some (Inr (b', peer'))" "content b' = []"
        "answers (map (request_line c) ?is) ts" "tc_accepted peer' = tc_accepted peer @ concat ts"
      using onMessage_answers [OF server wr(2) b(1) b2 lines] by blast
    obtain results where res: "length results = n" "\<forall>r\<in>set results. length r = kCells \<and> CHR 0x0D \<notin> set r"
      "concat ts = line_text (map2 (\<lambda>i result. request_ident (sc_name c) i @ '':'' @ result) ?is results)"
      using answers_text [OF ok client(5) s(3)] by auto
    let ?ls = "map2 (\<lambda>i result. request_ident (sc_name c) i @ '':'' @ result) ?is results"
    have fine: "\<forall>r\<in>set ?ls. CHR 0x0D \<notin> set r \<and> kCells \<le> length r"
      using res(2) ident_ok [OF ok(1)] by (auto dest: set_zip_rightD)
    have "\<exists>r'. SudokuClient_onMessage tid r received c1 = Some (Inr (r', c1\<lparr>sc_latencies := sc_latencies c @ replicate n (to_int32 (received - sent)),
              sc_sendTime := sc_sendTime c\<rparr>)) \<and> content r' = []" if "buffer_ok r" "content r = concat ts" for r
      using client_reads [OF that(1) that(2) [unfolded res(3)] fine, of tid received c1]
        verify_all [OF ok(1) [folded c1(3)] res(1) ids c1(2), of received] by (simp add: c1(3,4))
    with s(1,2,4) show ?thesis by blast
  qed
  with c1(1,2,5,6) show ?thesis by blast
qed

definition demo_client :: SudokuClient where
  "demo_client = SudokuClient_onConnection demo_conn (SudokuClient_new [example_puzzle] ''c0001'')"

lemma demo_client_ready:
  "client_ready 7 demo_client" "sc_conn demo_client = Some demo_conn" "sc_count demo_client = 0" "sc_input demo_client = [example_puzzle]"
  "sc_sendTime demo_client = []" "sc_latencies demo_client = []"
proof -
  have p: "length example_puzzle = kCells" "CHR 0x0D \<notin> set example_puzzle" by (simp_all add: example_puzzle_def kCells_def)
  have "buffer_ok Buffer_init" "content Buffer_init = []" by simp_all
  then show "client_ready 7 demo_client" "sc_conn demo_client = Some demo_conn" "sc_count demo_client = 0" "sc_input demo_client = [example_puzzle]"
    "sc_sendTime demo_client = []" "sc_latencies demo_client = []"
    using demo_live(1) p by (simp_all add: demo_client_def SudokuClient_onConnection_def SudokuClient_new_def demo_conn_fields client_ready_def
        name_ok_def input_ok_def fresh_ids_def)
qed

theorem SudokuLoadTest_roundtrip_witness:
  "\<exists>c1 conn1 b' peer' r' c2. SudokuClient_send demo_write 7 100 2 demo_client = Inr c1 \<and> sc_conn c1 = Some conn1 \<and>
     SudokuServer_onMessage demo_write 7 (buffer_of (tc_accepted conn1)) demo_conn = Some (Inr (b', peer')) \<and> content b' = [] \<and>
     SudokuClient_onMessage 7 (buffer_of (tc_accepted peer')) 350 c1 = Some (Inr (r', c2)) \<and> content r' = [] \<and>
     sc_latencies c2 = [250, 250] \<and> sc_sendTime c2 = []"
proof -
  have s: "\<forall>p\<in>set (sc_input demo_client). solvable p"
    using example_answer_ok example_extends by (auto simp: demo_client_ready(4) solvable_def)
  have n: "sc_count demo_client + 2 \<le> 10 ^ 8" "(0 :: nat) < 2" by (simp_all add: demo_client_ready(3))
  from SudokuLoadTest_roundtrip [OF demo_client_ready(1,2) n s demo_live(1) demo_live(2) demo_live(2), where sent = 100 and received = 350]
  obtain c1 conn1 where c1: "SudokuClient_send demo_write 7 100 2 demo_client = Inr c1" "sc_conn c1 = Some conn1" and
    "\<exists>b' peer' reply. SudokuServer_onMessage demo_write 7 (buffer_of (tc_accepted conn1)) demo_conn = Some (Inr (b', peer')) \<and> content b' = [] \<and>
        tc_accepted peer' = reply \<and>
        (\<forall>r. buffer_ok r \<and> content r = reply \<longrightarrow>
          (\<exists>r'. SudokuClient_onMessage 7 r 350 c1 = Some (Inr (r', c1\<lparr>sc_latencies := replicate 2 (to_int32 250), sc_sendTime := []\<rparr>)) \<and> content r' = []))"
    by (auto simp: demo_conn_fields demo_client_ready buffer_of_ok)
  then obtain b' peer' where p: "SudokuServer_onMessage demo_write 7 (buffer_of (tc_accepted conn1)) demo_conn = Some (Inr (b', peer'))" "content b' = []"
    and "\<exists>r'. SudokuClient_onMessage 7 (buffer_of (tc_accepted peer')) 350 c1 =
      Some (Inr (r', c1\<lparr>sc_latencies := replicate 2 (to_int32 250), sc_sendTime := []\<rparr>)) \<and> content r' = []"
    using buffer_of_ok by blast
  moreover have "replicate 2 (to_int32 250) = [250, 250]" by (simp add: to_int32_small numeral_2_eq_2)
  ultimately show ?thesis using c1 by fastforce
qed

text \<open>The answer \<open>NoSolution\<close> is shorter than the 83 bytes the loop waits for: as the last one in the buffer it is not read.\<close>

lemma unsolvable_unread:
  assumes "buffer_ok b" "content b = result_line (request_ident name n) kNoSolution" "length name \<le> 50" "n < 10 ^ 8"
  shows "SudokuClient_onMessage tid b recvTime c = Some (Inr (b, c))"
proof -
  have "length (content b) < kCells + 2"
    using assms(3) pad8_length [OF assms(4)] by (simp add: assms(2) result_line_def request_ident_def kNoSolution_def kCells_def kCRLF_def)
  then show ?thesis unfolding SudokuClient_onMessage_def by (rule serve_lines_rest [OF assms(1)])
qed

section \<open>The rate of the load test\<close>

lemma send_all_spec:
  assumes "\<forall>c\<in>set cs. \<exists>c'. f c = Inr c' \<and> Q c c'"
  shows "\<exists>cs'. send_all f cs = Inr cs' \<and> list_all2 Q cs cs'"
  using assms
proof (induction cs)
  case (Cons c cs)
  then obtain c' cs' where "f c = Inr c'" "Q c c'" "send_all f cs = Inr cs'" "list_all2 Q cs cs'" by auto
  then show ?case by (intro exI [of _ "c' # cs'"]) simp
qed simp

text \<open>All clients of the test are ready and have sent the same number of requests.\<close>

definition loadtest_ok :: "int \<Rightarrow> int \<Rightarrow> SudokuLoadTest \<Rightarrow> bool" where
  "loadtest_ok tid rps t \<longleftrightarrow> 0 \<le> lt_ticks t \<and> lt_sofar t = rps * lt_ticks t div kHz \<and>
     (\<forall>c\<in>set (lt_clients t). client_ready tid c \<and> int (sc_count c) = lt_sofar t)"

lemma tick_ok:
  assumes t: "loadtest_ok tid rps t" and rps: "0 \<le> rps" "rps * (lt_ticks t + 1) div kHz \<le> 10 ^ 8" and wr: "steady write"
  shows "\<exists>t'. SudokuLoadTest_tick write tid now rps t = Inr t' \<and> loadtest_ok tid rps t' \<and> lt_ticks t' = lt_ticks t + 1 \<and>
    length (lt_clients t') = length (lt_clients t)"
proof -
  note ok = t [unfolded loadtest_ok_def]
  define m where "m = rps * (lt_ticks t + 1) div kHz"
  have c: "cdiv (rps * (lt_ticks t + 1)) kHz = m" using rps(1) ok by (simp add: cdiv_nonneg m_def kHz_def)
  have le: "lt_sofar t \<le> m" unfolding m_def using ok rps(1) by (simp add: zdiv_mono1 kHz_def mult_left_mono)
  have pos: "0 \<le> lt_sofar t" using ok rps(1) by (simp add: kHz_def pos_imp_zdiv_nonneg_iff)
  show ?thesis
  proof (cases "lt_sofar t < m")
    case True
    define k where "k = nat (m - lt_sofar t)"
    have k: "0 < k" "int k = m - lt_sofar t" using True by (simp_all add: k_def)
    have small: "to_int32 (m - lt_sofar t) = int k" using rps(2) pos True by (simp add: to_int32_small k(2) flip: m_def)
    let ?Q = "\<lambda>c c'. client_ready tid c' \<and> sc_count c' = sc_count c + k"
    have "\<forall>c\<in>set (lt_clients t). \<exists>c'. SudokuClient_send write tid now (int k) c = Inr c' \<and> ?Q c c'"
    proof
      fix c assume "c \<in> set (lt_clients t)"
      then have r: "client_ready tid c" "int (sc_count c) = lt_sofar t" using ok by auto
      obtain conn where conn: "sc_conn c = Some conn" using r(1) by (auto simp: client_ready_def)
      have "int (sc_count c + k) \<le> int (10 ^ 8)" using r(2) k(2) rps(2) by (simp add: m_def)
      then have "sc_count c + k \<le> 10 ^ 8" by (simp only: of_nat_le_iff)
      from ready_sends [OF r(1) wr k(1) this conn]
      show "\<exists>c'. SudokuClient_send write tid now (int k) c = Inr c' \<and> ?Q c c'" by blast
    qed
    from send_all_spec [OF this] obtain cs' where cs: "send_all (SudokuClient_send write tid now (int k)) (lt_clients t) = Inr cs'"
      "list_all2 ?Q (lt_clients t) cs'" by blast
    have "SudokuLoadTest_tick write tid now rps t = Inr (t\<lparr>lt_ticks := lt_ticks t + 1, lt_sofar := m, lt_clients := cs'\<rparr>)"
      using True cs(1) by (simp add: SudokuLoadTest_tick_def Let_def c small)
    moreover have "client_ready tid c' \<and> int (sc_count c') = m" if c': "c' \<in> set cs'" for c'
    proof -
      obtain i where "i < length cs'" "c' = cs' ! i" using c' by (metis in_set_conv_nth)
      then have q: "?Q (lt_clients t ! i) c'" and "i < length (lt_clients t)"
        using list_all2_nthD2 [OF cs(2), of i] list_all2_lengthD [OF cs(2)] by (blast, simp)
      then have "lt_clients t ! i \<in> set (lt_clients t)" by simp
      then have "int (sc_count (lt_clients t ! i)) = lt_sofar t" using ok by blast
      then have "int (sc_count c') = m" using q k(2) by simp
      then show ?thesis using q by blast
    qed
    ultimately show ?thesis using ok list_all2_lengthD [OF cs(2)] by (simp add: loadtest_ok_def m_def)
  next
    case False
    then have "m = lt_sofar t" using le by simp
    then show ?thesis using ok by (simp add: SudokuLoadTest_tick_def Let_def c loadtest_ok_def m_def)
  qed
qed

lemma ticks_ok:
  assumes "loadtest_ok tid rps t" "0 \<le> rps" "rps * (lt_ticks t + int (length nows)) div kHz \<le> 10 ^ 8" "steady write"
  shows "\<exists>t'. foldR (\<lambda>now. SudokuLoadTest_tick write tid now rps) nows t = Inr t' \<and> loadtest_ok tid rps t' \<and>
    lt_ticks t' = lt_ticks t + int (length nows) \<and> length (lt_clients t') = length (lt_clients t)"
  using assms(1,3)
proof (induction nows arbitrary: t)
  case (Cons now nows)
  have "rps * (lt_ticks t + 1) div kHz \<le> rps * (lt_ticks t + int (length (now # nows))) div kHz"
    using assms(2) by (intro zdiv_mono1 mult_left_mono) (simp_all add: kHz_def)
  then have "rps * (lt_ticks t + 1) div kHz \<le> 10 ^ 8" using Cons.prems(2) by linarith
  from tick_ok [OF Cons.prems(1) assms(2) this assms(4)] obtain t1 where
    t1: "SudokuLoadTest_tick write tid now rps t = Inr t1" "loadtest_ok tid rps t1" "lt_ticks t1 = lt_ticks t + 1"
    "length (lt_clients t1) = length (lt_clients t)" by blast
  have "rps * (lt_ticks t1 + int (length nows)) div kHz \<le> 10 ^ 8" using Cons.prems(2) by (simp add: t1(3) add.assoc)
  from Cons.IH [OF t1(2) this] obtain t' where "foldR (\<lambda>now. SudokuLoadTest_tick write tid now rps) nows t1 = Inr t'" "loadtest_ok tid rps t'"
    "lt_ticks t' = lt_ticks t1 + int (length nows)" "length (lt_clients t') = length (lt_clients t1)" by blast
  then show ?case using t1 by simp
qed simp

text \<open>
  The rate of the load test, exactly: after any number of ticks, of which there are 100 in a second, every one of its clients
  has sent \<open>rps\<close> requests for every full hundred of ticks and the due part of the rest, rounded down; the rounding never accumulates.
\<close>

theorem SudokuLoadTest_rate:
  assumes "\<forall>c\<in>set clients. client_ready tid c \<and> sc_count c = 0" "0 \<le> rps" "rps * int (length nows) div kHz \<le> 10 ^ 8" "steady write"
  shows "\<exists>t. foldR (\<lambda>now. SudokuLoadTest_tick write tid now rps) nows (SudokuLoadTest_new clients) = Inr t \<and>
    lt_ticks t = int (length nows) \<and> length (lt_clients t) = length clients \<and>
    (\<forall>c\<in>set (lt_clients t). client_ready tid c \<and> int (sc_count c) = rps * int (length nows) div kHz)"
  using ticks_ok [OF _ assms(2) _ assms(4), of tid "SudokuLoadTest_new clients" nows] assms
  by (auto simp: loadtest_ok_def SudokuLoadTest_new_def)

theorem SudokuLoadTest_rate_witness:
  "\<exists>t. foldR (\<lambda>now. SudokuLoadTest_tick demo_write 7 now 150) [10000, 20000, 30000] (SudokuLoadTest_new [demo_client]) = Inr t \<and>
     (\<forall>c\<in>set (lt_clients t). sc_count c = 4) \<and> length (lt_clients t) = 1"
proof -
  have c: "\<forall>c\<in>set [demo_client]. client_ready 7 c \<and> sc_count c = 0" using demo_client_ready by simp
  have "\<exists>t. foldR (\<lambda>now. SudokuLoadTest_tick demo_write 7 now 150) [10000, 20000, 30000] (SudokuLoadTest_new [demo_client]) = Inr t \<and>
    lt_ticks t = int (length [10000 :: int, 20000, 30000]) \<and> length (lt_clients t) = length [demo_client] \<and>
    (\<forall>c\<in>set (lt_clients t). client_ready 7 c \<and> int (sc_count c) = 150 * int (length [10000 :: int, 20000, 30000]) div kHz)"
    by (rule SudokuLoadTest_rate [OF c _ _ demo_live(2)]) (simp_all add: kHz_def)
  then show ?thesis by (auto simp: kHz_def)
qed

text \<open>The statistics of a second take the latencies of all clients and leave none behind.\<close>

lemma report_all_spec:
  "report_all cs (ls, k) = (map (\<lambda>c. c\<lparr>sc_latencies := []\<rparr>) cs, ls @ concat (map sc_latencies cs),
     k + (\<Sum>c\<leftarrow>cs. int (length (sc_sendTime c))))"
  by (induction cs arbitrary: ls k) (simp_all add: SudokuClient_report_def)

text \<open>The clients that \<open>runClient\<close> creates: their names have the number with four digits, or more.\<close>

definition client_name :: "nat \<Rightarrow> string" where
  "client_name i = ''c'' @ replicate (4 - length (nat_dec i)) CHR ''0'' @ nat_dec i"

definition SudokuLoadTest_clients :: "string list \<Rightarrow> nat \<Rightarrow> SudokuClient list" where
  "SudokuLoadTest_clients input conn = map (\<lambda>i. SudokuClient_new input (client_name (i + 1))) [0..<conn]"

lemma clients_ready:
  assumes "input_ok input" "conn < 10 ^ 50" "c \<in> set (SudokuLoadTest_clients input conn)" "live tid up" "tc_state up = kConnected"
  shows "client_ready tid (SudokuClient_onConnection up c)" "sc_count (SudokuClient_onConnection up c) = 0"
proof -
  obtain i where i: "i < conn" "c = SudokuClient_new input (client_name (i + 1))" using assms(3) by (auto simp: SudokuLoadTest_clients_def)
  have "i + 1 < 10 ^ 51" using i(1) assms(2) by simp
  then have "length (nat_dec (i + 1)) \<le> 51" using length_nat_dec [of "i + 1" 51] by simp
  moreover have "CHR ''-'' \<notin> set (client_name (i + 1))" "CHR '':'' \<notin> set (client_name (i + 1))" "CHR 0x0D \<notin> set (client_name (i + 1))"
    using nat_dec_word(2) [of "i + 1"] isdigit_not by (auto simp: client_name_def isdigit_def)
  ultimately have "name_ok (client_name (i + 1))" by (simp add: name_ok_def client_name_def)
  then show "client_ready tid (SudokuClient_onConnection up c)" "sc_count (SudokuClient_onConnection up c) = 0"
    using assms(1,4,5) by (simp_all add: i(2) SudokuClient_onConnection_def SudokuClient_new_def client_ready_def fresh_ids_def)
qed

end
