(* ===== verification/Base_StringPiece.thy ===== *)
theory Base_StringPiece
  imports Base_Scanf "HOL-Library.Char_ord" "HOL-Library.List_Lexorder" "HOL-Library.Sublist"
begin

text \<open>
  \<open>ideal/base/StringPiece.h\<close>: a pointer and a length that view the bytes of a string. A pointer is the object it points into and
  an offset, or null. \<open>memcmp\<close> compares bytes as unsigned; only the sign of its value is specified, and here it is the value.
\<close>

record StringPiece =
  sp_ptr :: "(string \<times> nat) option"
  sp_length :: int

definition StringPiece_null :: StringPiece where
  "StringPiece_null = \<lparr>sp_ptr = None, sp_length = 0\<rparr>"

definition StringPiece_of_cstr :: "string \<Rightarrow> StringPiece" where
  "StringPiece_of_cstr str = \<lparr>sp_ptr = Some (str, 0), sp_length = int (length (cstr str))\<rparr>"

definition StringPiece_of_string :: "string \<Rightarrow> StringPiece" where
  "StringPiece_of_string str = \<lparr>sp_ptr = Some (str, 0), sp_length = int (length str)\<rparr>"

definition StringPiece_set :: "string \<times> nat \<Rightarrow> int \<Rightarrow> StringPiece \<Rightarrow> StringPiece" where
  "StringPiece_set buffer len p = p\<lparr>sp_ptr := Some buffer, sp_length := len\<rparr>"

definition StringPiece_clear :: "StringPiece \<Rightarrow> StringPiece" where
  "StringPiece_clear p = p\<lparr>sp_ptr := None, sp_length := 0\<rparr>"

definition StringPiece_empty :: "StringPiece \<Rightarrow> bool" where
  "StringPiece_empty p \<longleftrightarrow> sp_length p = 0"

text \<open>Reading \<open>n\<close> bytes at the pointer; a negative number becomes a huge \<open>size_t\<close>.\<close>

definition read_piece :: "StringPiece \<Rightarrow> int \<Rightarrow> string result" where
  "read_piece p n =
     (if n = 0 then Inr []
      else if n < 0 then Inl OutOfRange
      else (case sp_ptr p of None \<Rightarrow> Inl NullPointer | Some (str, i) \<Rightarrow> mem_read str i (nat n)))"

fun compare_bytes :: "string \<Rightarrow> string \<Rightarrow> int" where
  "compare_bytes (x # xs) (y # ys) =
     (if (of_char x :: nat) < of_char y then -1 else if (of_char y :: nat) < of_char x then 1 else compare_bytes xs ys)"
| "compare_bytes _ _ = 0"

definition memcmp :: "StringPiece \<Rightarrow> StringPiece \<Rightarrow> int \<Rightarrow> int result" where
  "memcmp p q n = bindR (read_piece p n) (\<lambda>xs. bindR (read_piece q n) (\<lambda>ys. Inr (compare_bytes xs ys)))"

definition StringPiece_at :: "StringPiece \<Rightarrow> int \<Rightarrow> char result" where
  "StringPiece_at p i =
     (case sp_ptr p of
        None \<Rightarrow> Inl NullPointer
      | Some (str, j) \<Rightarrow> if 0 \<le> int j + i \<and> int j + i < int (length str) then Inr (str ! nat (int j + i)) else Inl OutOfRange)"

definition StringPiece_eq :: "StringPiece \<Rightarrow> StringPiece \<Rightarrow> bool result" where
  "StringPiece_eq p x =
     (if sp_length p = sp_length x then bindR (memcmp p x (sp_length p)) (\<lambda>ret. Inr (ret = 0)) else Inr False)"

definition StringPiece_ne :: "StringPiece \<Rightarrow> StringPiece \<Rightarrow> bool result" where
  "StringPiece_ne p x = bindR (StringPiece_eq p x) (\<lambda>b. Inr (\<not> b))"

text \<open>The macro for the four comparisons: \<open>cmp\<close> compares the lengths, \<open>auxcmp\<close> the bytes.\<close>

definition binary_predicate :: "(int \<Rightarrow> int \<Rightarrow> bool) \<Rightarrow> (int \<Rightarrow> int \<Rightarrow> bool) \<Rightarrow> StringPiece \<Rightarrow> StringPiece \<Rightarrow> bool result" where
  "binary_predicate cmp auxcmp p x =
     bindR (memcmp p x (if sp_length p < sp_length x then sp_length p else sp_length x)) (\<lambda>ret.
     Inr (auxcmp ret 0 \<or> ret = 0 \<and> cmp (sp_length p) (sp_length x)))"

definition StringPiece_lt :: "StringPiece \<Rightarrow> StringPiece \<Rightarrow> bool result" where
  "StringPiece_lt = binary_predicate (<) (<)"

definition StringPiece_le :: "StringPiece \<Rightarrow> StringPiece \<Rightarrow> bool result" where
  "StringPiece_le = binary_predicate (\<le>) (<)"

definition StringPiece_gt :: "StringPiece \<Rightarrow> StringPiece \<Rightarrow> bool result" where
  "StringPiece_gt = binary_predicate (>) (>)"

definition StringPiece_ge :: "StringPiece \<Rightarrow> StringPiece \<Rightarrow> bool result" where
  "StringPiece_ge = binary_predicate (\<ge>) (>)"

text \<open>What is removed is never negative.\<close>

definition StringPiece_removePerfix :: "nat \<Rightarrow> StringPiece \<Rightarrow> StringPiece" where
  "StringPiece_removePerfix n p = p\<lparr>sp_ptr := map_option (\<lambda>(str, i). (str, i + n)) (sp_ptr p), sp_length := sp_length p - int n\<rparr>"

definition StringPiece_removeSuffix :: "nat \<Rightarrow> StringPiece \<Rightarrow> StringPiece" where
  "StringPiece_removeSuffix n p = p\<lparr>sp_length := sp_length p - int n\<rparr>"

definition StringPiece_compare :: "StringPiece \<Rightarrow> StringPiece \<Rightarrow> int result" where
  "StringPiece_compare p x =
     bindR (memcmp p x (if sp_length p < sp_length x then sp_length p else sp_length x)) (\<lambda>ret.
     Inr (if ret = 0 then (if sp_length p < sp_length x then -1 else if sp_length x < sp_length p then 1 else ret) else ret))"

definition StringPiece_asString :: "StringPiece \<Rightarrow> string result" where
  "StringPiece_asString p = read_piece p (sp_length p)"

text \<open>The result of \<open>memcmp\<close> is taken for a \<open>bool\<close> as it is.\<close>

definition StringPiece_isStartWith :: "StringPiece \<Rightarrow> StringPiece \<Rightarrow> bool result" where
  "StringPiece_isStartWith p x =
     (if sp_length x \<le> sp_length p then bindR (memcmp p x (sp_length x)) (\<lambda>ret. Inr (ret \<noteq> 0)) else Inr False)"

section \<open>What a piece views\<close>

text \<open>A piece is well formed when its bytes lie in its object.\<close>

definition piece_ok :: "StringPiece \<Rightarrow> bool" where
  "piece_ok p \<longleftrightarrow> 0 \<le> sp_length p \<and>
     (case sp_ptr p of None \<Rightarrow> sp_length p = 0 | Some (str, i) \<Rightarrow> int i + sp_length p \<le> int (length str))"

definition viewed :: "StringPiece \<Rightarrow> string" where
  "viewed p = (case sp_ptr p of None \<Rightarrow> '''' | Some (str, i) \<Rightarrow> take (nat (sp_length p)) (drop i str))"

lemma viewed_length: "piece_ok p \<Longrightarrow> int (length (viewed p)) = sp_length p"
  by (auto simp: piece_ok_def viewed_def split: option.splits)

lemma read_viewed: "piece_ok p \<Longrightarrow> 0 \<le> n \<Longrightarrow> n \<le> sp_length p \<Longrightarrow> read_piece p n = Inr (take (nat n) (viewed p))"
  by (auto simp: piece_ok_def viewed_def read_piece_def mem_read_def slice_def min_def take_drop split: option.splits)

lemma memcmp_viewed:
  assumes "piece_ok p" "piece_ok q" "0 \<le> n" "n \<le> sp_length p" "n \<le> sp_length q"
  shows "memcmp p q n = Inr (compare_bytes (take (nat n) (viewed p)) (take (nat n) (viewed q)))"
  using assms by (simp add: memcmp_def read_viewed)

lemma piece_of_string: "piece_ok (StringPiece_of_string s)" "viewed (StringPiece_of_string s) = s"
  by (simp_all add: piece_ok_def viewed_def StringPiece_of_string_def)

lemma piece_of_cstr: "piece_ok (StringPiece_of_cstr s)" "viewed (StringPiece_of_cstr s) = cstr s"
proof -
  have le: "length (cstr s) \<le> length s" by (simp add: cstr_def length_takeWhile_le)
  then show "piece_ok (StringPiece_of_cstr s)" by (simp add: piece_ok_def StringPiece_of_cstr_def)
  show "viewed (StringPiece_of_cstr s) = cstr s" by (simp add: viewed_def StringPiece_of_cstr_def cstr_def flip: takeWhile_eq_take)
qed

lemma remove_perfix: "piece_ok p \<Longrightarrow> int n \<le> sp_length p \<Longrightarrow>
    piece_ok (StringPiece_removePerfix n p) \<and> viewed (StringPiece_removePerfix n p) = drop n (viewed p)"
  by (auto simp: piece_ok_def viewed_def StringPiece_removePerfix_def drop_take add.commute nat_diff_distrib split: option.splits)

lemma remove_suffix: "piece_ok p \<Longrightarrow> int n \<le> sp_length p \<Longrightarrow>
    piece_ok (StringPiece_removeSuffix n p) \<and> viewed (StringPiece_removeSuffix n p) = take (length (viewed p) - n) (viewed p)"
proof -
  assume p: "piece_ok p" "int n \<le> sp_length p"
  have "length (viewed p) = nat (sp_length p)" using viewed_length [OF p(1)] by simp
  moreover have "nat (sp_length p - int n) = nat (sp_length p) - n" using p(2) by simp
  ultimately show ?thesis
    using p by (auto simp: piece_ok_def viewed_def StringPiece_removeSuffix_def min_def split: option.splits)
qed

lemma as_string: "piece_ok p \<Longrightarrow> StringPiece_asString p = Inr (viewed p)"
  using viewed_length [of p] by (simp add: StringPiece_asString_def read_viewed piece_ok_def)

section \<open>The order of pieces\<close>

lemma compare_bytes_eq: "length xs = length ys \<Longrightarrow> compare_bytes xs ys = 0 \<longleftrightarrow> xs = ys"
proof (induction xs ys rule: compare_bytes.induct)
  case (1 x xs y ys)
  have "(of_char x :: nat) = of_char y \<longleftrightarrow> x = y" by simp
  with 1 show ?case by (auto dest: less_not_sym)
qed auto

text \<open>
  The comparison of the common part decides by the order of the texts, unless one text begins with the other.
\<close>

lemma compare_common:
  "(let r = compare_bytes (take (min (length xs) (length ys)) xs) (take (min (length xs) (length ys)) ys) in
    (r < 0 \<longrightarrow> xs < ys) \<and> (r > 0 \<longrightarrow> ys < xs) \<and>
    (r = 0 \<longrightarrow> (xs < ys \<longleftrightarrow> length xs < length ys) \<and> (xs = ys \<longleftrightarrow> length xs = length ys)))"
proof (induction xs arbitrary: ys)
  case Nil
  then show ?case by (cases ys) auto
next
  case (Cons x xs zs)
  have char: "(of_char x :: nat) < of_char y \<longleftrightarrow> x < y" for x y :: char by (simp add: less_char_def)
  show ?case
  proof (cases zs)
    case (Cons y ys)
    then show ?thesis using Cons.IH [of ys]
      by (cases x y rule: linorder_cases) (simp_all add: char Let_def not_less_iff_gr_or_eq)
  qed simp
qed

lemma memcmp_common:
  assumes "piece_ok p" "piece_ok q"
  shows "memcmp p q (if sp_length p < sp_length q then sp_length p else sp_length q) =
    Inr (compare_bytes (take (min (length (viewed p)) (length (viewed q))) (viewed p)) (take (min (length (viewed p)) (length (viewed q))) (viewed q)))"
proof -
  have "nat (if sp_length p < sp_length q then sp_length p else sp_length q) = min (length (viewed p)) (length (viewed q))"
    using viewed_length [OF assms(1)] viewed_length [OF assms(2)] by auto
  then show ?thesis using memcmp_viewed [OF assms, of "if sp_length p < sp_length q then sp_length p else sp_length q"] assms
    by (auto simp: piece_ok_def)
qed

text \<open>
  C37. The operators of \<open>StringPiece\<close> are the equality and the dictionary order of the texts the pieces view, with bytes as
  unsigned numbers, and \<open>compare\<close> has the sign of that order; none of them reads outside the two objects.
\<close>

theorem StringPiece_order:
  assumes "piece_ok p" "piece_ok q"
  shows "StringPiece_eq p q = Inr (viewed p = viewed q) \<and> StringPiece_ne p q = Inr (viewed p \<noteq> viewed q) \<and>
    StringPiece_lt p q = Inr (viewed p < viewed q) \<and> StringPiece_le p q = Inr (viewed p \<le> viewed q) \<and>
    StringPiece_gt p q = Inr (viewed q < viewed p) \<and> StringPiece_ge p q = Inr (viewed q \<le> viewed p) \<and>
    (\<exists>r. StringPiece_compare p q = Inr r \<and> (r < 0 \<longleftrightarrow> viewed p < viewed q) \<and> (r = 0 \<longleftrightarrow> viewed p = viewed q))"
proof -
  let ?m = "min (length (viewed p)) (length (viewed q))"
  let ?r = "compare_bytes (take ?m (viewed p)) (take ?m (viewed q))"
  note len = viewed_length [OF assms(1)] viewed_length [OF assms(2)]
  have r: "?r < 0 \<Longrightarrow> viewed p < viewed q" "?r > 0 \<Longrightarrow> viewed q < viewed p"
    "?r = 0 \<Longrightarrow> viewed p < viewed q \<longleftrightarrow> length (viewed p) < length (viewed q)"
    "?r = 0 \<Longrightarrow> viewed p = viewed q \<longleftrightarrow> length (viewed p) = length (viewed q)"
    using compare_common [of "viewed p" "viewed q"] by (simp_all only: Let_def)
  note m = memcmp_common [OF assms]
  have eq: "StringPiece_eq p q = Inr (viewed p = viewed q)"
  proof (cases "sp_length p = sp_length q")
    case True
    then have "length (viewed p) = length (viewed q)" using len by simp
    then show ?thesis using m True by (simp add: StringPiece_eq_def compare_bytes_eq)
  next
    case False
    then have "viewed p \<noteq> viewed q" using len by metis
    then show ?thesis using False by (simp add: StringPiece_eq_def)
  qed
  have lt: "viewed p < viewed q \<longleftrightarrow> ?r < 0 \<or> ?r = 0 \<and> sp_length p < sp_length q"
    using r len by (metis linorder_neqE_linordered_idom not_less_iff_gr_or_eq of_nat_less_iff)
  have same: "viewed p = viewed q \<longleftrightarrow> ?r = 0 \<and> sp_length p = sp_length q"
    using r len by (metis linorder_neqE_linordered_idom not_less_iff_gr_or_eq of_nat_eq_iff)
  have gt: "viewed q < viewed p \<longleftrightarrow> ?r > 0 \<or> ?r = 0 \<and> sp_length q < sp_length p"
    using lt same by (metis linorder_neqE_linordered_idom not_less_iff_gr_or_eq)
  have order: "StringPiece_lt p q = Inr (viewed p < viewed q)" "StringPiece_gt p q = Inr (viewed q < viewed p)"
    by (simp_all add: StringPiece_lt_def StringPiece_gt_def binary_predicate_def m lt gt)
  have "StringPiece_le p q = Inr (\<not> viewed q < viewed p)" "StringPiece_ge p q = Inr (\<not> viewed p < viewed q)"
    unfolding lt gt by (auto simp: StringPiece_le_def StringPiece_ge_def binary_predicate_def m)
  then have le: "StringPiece_le p q = Inr (viewed p \<le> viewed q)" "StringPiece_ge p q = Inr (viewed q \<le> viewed p)"
    by (simp_all add: not_less)
  have "\<exists>r. StringPiece_compare p q = Inr r \<and> (r < 0 \<longleftrightarrow> viewed p < viewed q) \<and> (r = 0 \<longleftrightarrow> viewed p = viewed q)"
    unfolding lt same by (auto simp: StringPiece_compare_def m)
  with eq order le show ?thesis by (simp add: StringPiece_ne_def)
qed
theorem StringPiece_order_witness:
  "StringPiece_lt (StringPiece_of_string ''ab'') (StringPiece_of_string ''abc'') = Inr True \<and>
   StringPiece_eq (StringPiece_of_string ''ab'') (StringPiece_of_cstr (''ab'' @ [CHR 0x00])) = Inr True"
  using StringPiece_order [OF piece_of_string(1) piece_of_string(1), of "''ab''" "''abc''"]
    StringPiece_order [OF piece_of_string(1) piece_of_cstr(1), of "''ab''" "''ab'' @ [CHR 0x00]"]
  by (simp add: piece_of_string(2) piece_of_cstr(2) cstr_def)

text \<open>
  \<open>isStartWith\<close> is wrong: it answers whether the other text, if it is no longer, is \<^emph>\<open>not\<close> a prefix, since the result of
  \<open>memcmp\<close> is not compared with zero.
\<close>

theorem StringPiece_isStartWith_inverted:
  assumes "piece_ok p" "piece_ok x"
  shows "StringPiece_isStartWith p x = Inr (length (viewed x) \<le> length (viewed p) \<and> \<not> prefix (viewed x) (viewed p))"
proof (cases "sp_length x \<le> sp_length p")
  case True
  note len = viewed_length [OF assms(1)] viewed_length [OF assms(2)]
  have le: "length (viewed x) \<le> length (viewed p)" using True len by simp
  have "memcmp p x (sp_length x) = Inr (compare_bytes (take (length (viewed x)) (viewed p)) (viewed x))"
    using memcmp_viewed [OF assms _ True order_refl] unfolding len(2) [symmetric] by simp
  moreover have "take (length (viewed x)) (viewed p) = viewed x \<longleftrightarrow> prefix (viewed x) (viewed p)"
    by (metis append_eq_conv_conj prefix_def take_is_prefix)
  ultimately show ?thesis using True le by (simp add: StringPiece_isStartWith_def compare_bytes_eq)
next
  case False
  moreover have "\<not> length (viewed x) \<le> length (viewed p)" using False viewed_length [OF assms(1)] viewed_length [OF assms(2)] by linarith
  ultimately show ?thesis by (simp add: StringPiece_isStartWith_def)
qed

theorem StringPiece_isStartWith_inverted_witness:
  "StringPiece_isStartWith (StringPiece_of_string ''GET /'') (StringPiece_of_string ''GET'') = Inr False \<and>
   StringPiece_isStartWith (StringPiece_of_string ''GET /'') (StringPiece_of_string ''PUT'') = Inr True"
  using StringPiece_isStartWith_inverted [OF piece_of_string(1) piece_of_string(1), of "''GET /''" "''GET''"]
    StringPiece_isStartWith_inverted [OF piece_of_string(1) piece_of_string(1), of "''GET /''" "''PUT''"]
  by (simp add: piece_of_string(2))

end
