(* ===== verification/Base_ProcessInfo.thy ===== *)
theory Base_ProcessInfo
  imports Base_StringPiece "HOL-Library.Multiset"
begin

text \<open>
  \<open>ideal/base/ProcessInfo.cc\<close> and the \<open>ReadSmallFile\<close> of \<open>FileUtil\<close> it reads \<open>/proc\<close> with. System calls are parameters; one
  that fails has the value \<open>Inl errno\<close>.
\<close>

section \<open>Reading a small file\<close>

definition kBufferSize :: nat where "kBufferSize = 64 * 1024"

text \<open>The kinds of files \<open>fstat\<close> tells apart here, and what it reports.\<close>

datatype file_kind = Regular | Directory | Other

record stat_info =
  st_kind :: file_kind
  st_size :: int
  st_mtime :: int
  st_ctime :: int

record ReadSmallFile =
  rs_fd :: "int option"
  rs_err :: int

definition ReadSmallFile_new :: "int + int \<Rightarrow> ReadSmallFile" where
  "ReadSmallFile_new open' = (case open' of Inl errno \<Rightarrow> \<lparr>rs_fd = None, rs_err = errno\<rparr> | Inr fd \<Rightarrow> \<lparr>rs_fd = Some fd, rs_err = 0\<rparr>)"

text \<open>
  The loop of \<open>readToString\<close>. The parameter is \<open>read\<close>: how many bytes were read before and how many are wanted give an error or bytes.
\<close>

type_synonym read_call = "nat \<Rightarrow> nat \<Rightarrow> int + string"

function read_loop :: "read_call \<Rightarrow> nat \<Rightarrow> string \<Rightarrow> int \<Rightarrow> int \<times> string" where
  "read_loop rd maxSize so_far err =
     (if length so_far < maxSize
      then (case rd (length so_far) (min (maxSize - length so_far) kBufferSize) of
              Inl errno \<Rightarrow> (errno, so_far)
            | Inr bytes \<Rightarrow> if bytes = [] then (err, so_far) else read_loop rd maxSize (so_far @ bytes) err)
      else (err, so_far))"
  by pat_completeness auto
termination read_loop
  by (relation "measure (\<lambda>(rd, maxSize, so_far, err). maxSize - length so_far)") (auto simp: diff_less_mono2)

declare read_loop.simps [simp del]

text \<open>
  The three out-parameters are \<open>None\<close> for a null pointer. The times are only looked at when the size is asked for.
\<close>

definition ReadSmallFile_readToString ::
    "read_call \<Rightarrow> int + stat_info \<Rightarrow> ReadSmallFile \<Rightarrow> nat \<Rightarrow> string \<Rightarrow> int option \<Rightarrow> int option \<Rightarrow> int option
      \<Rightarrow> int \<times> string \<times> int option \<times> int option \<times> int option" where
  "ReadSmallFile_readToString rd fstat f maxSize content' fileSize modifyTime createTime =
     (let err = rs_err f in
      case rs_fd f of
        None \<Rightarrow> (err, content', fileSize, modifyTime, createTime)
      | Some _ \<Rightarrow>
          (let (err, fileSize, modifyTime, createTime) =
             (case fileSize of
                None \<Rightarrow> (err, fileSize, modifyTime, createTime)
              | Some _ \<Rightarrow>
                  (case fstat of
                     Inl errno \<Rightarrow> (errno, fileSize, modifyTime, createTime)
                   | Inr st \<Rightarrow>
                       (if st_kind st = Directory then 21 else err,
                        if st_kind st = Regular then Some (st_size st) else fileSize,
                        map_option (\<lambda>_. st_mtime st) modifyTime, map_option (\<lambda>_. st_ctime st) createTime)));
             (err, text') = read_loop rd maxSize '''' err
           in (err, text', fileSize, modifyTime, createTime)))"

text \<open>\<open>readToBuffer\<close>: the bytes of the buffer with the NUL behind them, and the size.\<close>

definition ReadSmallFile_readToBuffer :: "(nat \<Rightarrow> int + string) \<Rightarrow> ReadSmallFile \<Rightarrow> int \<times> (string \<times> nat) option" where
  "ReadSmallFile_readToBuffer pread f =
     (case rs_fd f of
        None \<Rightarrow> (rs_err f, None)
      | Some _ \<Rightarrow> (case pread (kBufferSize - 1) of
          Inl errno \<Rightarrow> (errno, None)
        | Inr bytes \<Rightarrow> (rs_err f, Some (bytes @ [CHR 0x00], length bytes))))"

text \<open>\<open>FileUtil::readFile\<close> without the optional arguments, into an empty string.\<close>

definition readFile :: "int + int \<Rightarrow> read_call \<Rightarrow> nat \<Rightarrow> int \<times> string" where
  "readFile open' rd maxSize =
     (case ReadSmallFile_readToString rd (Inl 0) (ReadSmallFile_new open') maxSize '''' None None None of
        (err, text', _) \<Rightarrow> (err, text'))"

section \<open>The process\<close>

definition ProcessInfo_pidString :: "int \<Rightarrow> string" where
  "ProcessInfo_pidString pid = snprintf 32 (int_dec pid)"

definition ProcessInfo_hostname :: "int + string \<Rightarrow> string" where
  "ProcessInfo_hostname gethostname = (case gethostname of Inl _ \<Rightarrow> ''unknownhost'' | Inr buf \<Rightarrow> cstr (buf[255 := CHR 0x00]))"

definition ProcessInfo_username :: "string option \<Rightarrow> string" where
  "ProcessInfo_username pw_name = (case pw_name of None \<Rightarrow> ''unknownuser'' | Some name \<Rightarrow> name)"

definition ProcessInfo_exePath :: "int + string \<Rightarrow> string" where
  "ProcessInfo_exePath readlink = (case readlink of Inl _ \<Rightarrow> '''' | Inr bytes \<Rightarrow> bytes)"

text \<open>The name of the process is what stands between the first opening and the last closing parenthesis.\<close>

definition ProcessInfo_procname :: "string \<Rightarrow> StringPiece" where
  "ProcessInfo_procname stat =
     (case (find_char CHR ''('' stat, rfind_sub '')'' stat) of
        (Some lp, Some rp) \<Rightarrow>
          if lp < rp then StringPiece_set (stat, lp + 1) (int rp - int lp - 1) StringPiece_null else StringPiece_null
      | _ \<Rightarrow> StringPiece_null)"

definition ProcessInfo_numThreads :: "string \<Rightarrow> int" where
  "ProcessInfo_numThreads status =
     (case find_sub ''Threads:'' status of None \<Rightarrow> 0 | Some pos \<Rightarrow> atoi (cstr (drop (pos + 8) status)))"

text \<open>
  \<open>scanDir\<close> calls the filter for every entry of the directory; the filters keep none, so the list stays null. The
  state is the thread-local variable the filter changes.
\<close>

definition scanDir :: "int + string list \<Rightarrow> (string \<Rightarrow> 's \<Rightarrow> 's) \<Rightarrow> 's \<Rightarrow> 's" where
  "scanDir scandir filt s = (case scandir of Inl _ \<Rightarrow> s | Inr names \<Rightarrow> fold filt names s)"

text \<open>The first character of a C string, its terminating NUL when it is empty.\<close>

definition first_char :: "string \<Rightarrow> char" where
  "first_char s = (case s of [] \<Rightarrow> CHR 0x00 | c # _ \<Rightarrow> c)"

definition fdDirFilter :: "string \<Rightarrow> nat \<Rightarrow> nat" where
  "fdDirFilter d_name t_numOpenedFiles = (if isdigit (first_char d_name) then t_numOpenedFiles + 1 else t_numOpenedFiles)"

definition taskDirFilter :: "string \<Rightarrow> int list \<Rightarrow> int list" where
  "taskDirFilter d_name t_pids = (if isdigit (first_char d_name) then t_pids @ [atoi d_name] else t_pids)"

definition ProcessInfo_openedFiles :: "int + string list \<Rightarrow> nat" where
  "ProcessInfo_openedFiles scandir = scanDir scandir fdDirFilter 0"

definition ProcessInfo_maxOpenFiles :: "int + int \<Rightarrow> int + string list \<Rightarrow> int" where
  "ProcessInfo_maxOpenFiles getrlimit scandir =
     (case getrlimit of Inl _ \<Rightarrow> int (ProcessInfo_openedFiles scandir) | Inr rlim_cur \<Rightarrow> to_int32 rlim_cur)"

definition ProcessInfo_threads :: "int + string list \<Rightarrow> int list" where
  "ProcessInfo_threads scandir = sort (scanDir scandir taskDirFilter [])"

section \<open>What is read\<close>

text \<open>
  \<open>read\<close> on a regular file of the content \<open>f\<close>: at least one byte, as long as there is one, and not more than wanted.
\<close>

definition read_exact :: "read_call \<Rightarrow> string \<Rightarrow> bool" where
  "read_exact rd f \<longleftrightarrow> (\<forall>pos n. pos \<le> length f \<longrightarrow> 0 < n \<longrightarrow>
     (\<exists>k\<le>n. rd pos n = Inr (take k (drop pos f)) \<and> (pos < length f \<longrightarrow> 0 < k)))"

lemma read_loop_content:
  assumes "read_exact rd f" "pos \<le> length f" "pos \<le> maxSize"
  shows "read_loop rd maxSize (take pos f) err = (err, take maxSize f)"
  using assms(2,3)
proof (induction "maxSize - pos" arbitrary: pos rule: less_induct)
  case less
  have len: "length (take pos f) = pos" using less.prems(1) by simp
  show ?case
  proof (cases "pos < maxSize")
    case True
    let ?n = "min (maxSize - pos) kBufferSize"
    have "0 < ?n" using True by (simp add: kBufferSize_def)
    then obtain k where k: "k \<le> ?n" "rd pos ?n = Inr (take k (drop pos f))" "pos < length f \<longrightarrow> 0 < k"
      using assms(1) less.prems(1) unfolding read_exact_def by blast
    show ?thesis
    proof (cases "take k (drop pos f) = []")
      case True
      then have "length f \<le> pos" using k(3) by auto
      then have "take pos f = f" "take maxSize f = f" using less.prems by simp_all
      then show ?thesis using k(2) True len by (subst read_loop.simps) simp
    next
      case False
      define pos' where "pos' = min (length f) (pos + k)"
      have pos': "pos < pos'" "pos' \<le> length f" "pos' \<le> maxSize" using False k(1) True by (auto simp: pos'_def)
      have "take pos f @ take k (drop pos f) = take (pos + k) f" by (simp add: take_add)
      also have "\<dots> = take pos' f" by (simp add: pos'_def min_def)
      finally have step: "take pos f @ take k (drop pos f) = take pos' f" .
      have "maxSize - pos' < maxSize - pos" using pos'(1) \<open>pos < maxSize\<close> by simp
      from less.hyps [OF this pos'(2,3)] have "read_loop rd maxSize (take pos' f) err = (err, take maxSize f)" .
      then show ?thesis using k(2) False \<open>pos < maxSize\<close> len step by (subst read_loop.simps) simp
    qed
  next
    case False
    then have "pos = maxSize" using less.prems(2) by simp
    then show ?thesis using len by (subst read_loop.simps) simp
  qed
qed

text \<open>
  Reading a small file returns its content up to the limit, without an error, into however many pieces \<open>read\<close> cuts it;
  when the file cannot be opened the result is the error and the empty text.
\<close>

theorem ReadSmallFile_reads_content:
  assumes "read_exact rd f"
  shows "readFile (Inr fd) rd maxSize = (0, take maxSize f) \<and> readFile (Inl errno) rd maxSize = (errno, '''')"
  using read_loop_content [OF assms, of 0 maxSize 0] by (simp add: readFile_def ReadSmallFile_readToString_def ReadSmallFile_new_def Let_def)

definition demo_read :: "string \<Rightarrow> read_call" where
  "demo_read f pos n = Inr (take (min n 3) (drop pos f))"

theorem ReadSmallFile_reads_content_witness:
  "readFile (Inr 3) (demo_read ''Threads: 12'') 8 = (0, ''Threads:'') \<and> readFile (Inl 2) (demo_read ''Threads: 12'') 8 = (2, '''')"
proof -
  have "read_exact (demo_read f) f" for f
    unfolding read_exact_def demo_read_def
  proof (intro allI impI)
    fix pos n :: nat
    assume "pos \<le> length f" "0 < n"
    then show "\<exists>k\<le>n. Inr (take (min n 3) (drop pos f)) = Inr (take k (drop pos f)) \<and> (pos < length f \<longrightarrow> 0 < k)"
      by (intro exI [of _ "min n 3"]) simp
  qed
  from ReadSmallFile_reads_content [OF this, of 3 "''Threads: 12''" 8 2] show ?thesis by simp
qed

section \<open>What is found\<close>

lemma occurs_char: "occurs_at [c] xs j \<longleftrightarrow> j < length xs \<and> xs ! j = c"
  by (auto simp: occurs_at_def Suc_le_eq take_Suc hd_drop_conv_nth simp flip: Cons_nth_drop_Suc)

lemma rfind_last: "c \<notin> set rest \<Longrightarrow> rfind_sub [c] (s @ c # rest) = Some (length s)"
proof -
  assume c: "c \<notin> set rest"
  have "occurs_at [c] (s @ c # rest) (length s)" by (simp add: occurs_char)
  moreover have "\<not> occurs_at [c] (s @ c # rest) j" if l: "length s < j" for j
  proof
    assume o: "occurs_at [c] (s @ c # rest) j"
    then have j: "j < length (s @ c # rest)" "(s @ c # rest) ! j = c" by (simp_all add: occurs_char)
    obtain i where i: "j = length s + Suc i" using l by (metis add_Suc_right less_imp_Suc_add)
    then have "rest ! i = c" "i < length rest" using j by (simp_all add: nth_append)
    then show False using c nth_mem by blast
  qed
  ultimately show ?thesis by (simp add: rfind_sub_Some)
qed

text \<open>
  The name of the process is found exactly in a line of \<open>/proc/self/stat\<close>, whatever characters it has, parentheses
  among them, since the numbers before and behind it have none; the piece lies within the line.
\<close>

theorem ProcessInfo_procname_exact:
  assumes "CHR ''('' \<notin> set pid" "CHR '')'' \<notin> set rest"
  shows "piece_ok (ProcessInfo_procname (pid @ ''('' @ name @ '')'' @ rest)) \<and>
    StringPiece_asString (ProcessInfo_procname (pid @ ''('' @ name @ '')'' @ rest)) = Inr name"
proof -
  let ?s = "pid @ ''('' @ name @ '')'' @ rest"
  have lp: "find_char CHR ''('' ?s = Some (length pid)" using assms(1) by (simp add: find_char_Some nth_append)
  have rp: "rfind_sub '')'' ?s = Some (length pid + 1 + length name)"
    using rfind_last [OF assms(2), of "pid @ ''('' @ name"] by simp
  have p: "ProcessInfo_procname ?s = \<lparr>sp_ptr = Some (?s, length pid + 1), sp_length = int (length name)\<rparr>"
    unfolding ProcessInfo_procname_def lp rp by (simp add: StringPiece_set_def StringPiece_null_def)
  have ok: "piece_ok (ProcessInfo_procname ?s)" unfolding p by (simp add: piece_ok_def)
  have "viewed (ProcessInfo_procname ?s) = name" unfolding p by (simp add: viewed_def)
  with ok as_string [OF ok] show ?thesis by simp
qed

theorem ProcessInfo_procname_exact_witness: "StringPiece_asString (ProcessInfo_procname ''42 (a) (b) S 1'') = Inr ''a) (b''"
  using ProcessInfo_procname_exact [of "''42 ''" "'' S 1''" "''a) (b''"] by simp

lemma procname_none: "CHR ''('' \<notin> set stat \<Longrightarrow> StringPiece_asString (ProcessInfo_procname stat) = Inr ''''"
  by (simp add: ProcessInfo_procname_def flip: find_char_None) (simp add: StringPiece_asString_def StringPiece_null_def read_piece_def)

lemma openedFiles_counts: "ProcessInfo_openedFiles (Inr names) = length (filter (\<lambda>d. isdigit (first_char d)) names)"
proof -
  have "fold fdDirFilter names n = n + length (filter (\<lambda>d. isdigit (first_char d)) names)" for n
    by (induction names arbitrary: n) (simp_all add: fdDirFilter_def)
  then show ?thesis by (simp add: ProcessInfo_openedFiles_def scanDir_def)
qed

lemma threads_sorted:
  "sorted (ProcessInfo_threads (Inr names))"
  "mset (ProcessInfo_threads (Inr names)) = mset (map atoi (filter (\<lambda>d. isdigit (first_char d)) names))"
proof -
  have "fold taskDirFilter names ts = ts @ map atoi (filter (\<lambda>d. isdigit (first_char d)) names)" for ts
    by (induction names arbitrary: ts) (simp_all add: taskDirFilter_def)
  then show "sorted (ProcessInfo_threads (Inr names))"
    "mset (ProcessInfo_threads (Inr names)) = mset (map atoi (filter (\<lambda>d. isdigit (first_char d)) names))"
    by (simp_all add: ProcessInfo_threads_def scanDir_def)
qed

lemma find_sub_at: "\<forall>j<length pre. \<not> occurs_at p (pre @ p @ rest) j \<Longrightarrow> find_sub p (pre @ p @ rest) = Some (length pre)"
  by (simp add: find_sub_Some) (simp add: occurs_at_def)

text \<open>The number of threads is that of the line in \<open>/proc/self/status\<close>.\<close>

lemma numThreads_reads:
  assumes "\<forall>j<length pre. \<not> occurs_at ''Threads:'' (pre @ ''Threads:'' @ CHR 0x09 # nat_dec n @ CHR 0x0A # rest) j"
  shows "ProcessInfo_numThreads (pre @ ''Threads:'' @ CHR 0x09 # nat_dec n @ CHR 0x0A # rest) = int n"
proof -
  have d: "\<forall>c\<in>set (nat_dec n). isdigit c" by (rule nat_dec_word(2))
  obtain c cs where c: "nat_dec n = c # cs" by (cases "nat_dec n") simp_all
  then have "isdigit c" using d by simp
  then have c': "\<not> isspace c" "c \<noteq> CHR ''-''" "c \<noteq> CHR ''+''" by (auto simp: isdigit_def isspace_def)
  have nul: "cstr (CHR 0x09 # nat_dec n @ CHR 0x0A # rest) = CHR 0x09 # nat_dec n @ CHR 0x0A # cstr rest"
    using d by (auto simp: cstr_def takeWhile_append isdigit_def)
  have "takeWhile isdigit (nat_dec n @ CHR 0x0A # cstr rest) = nat_dec n"
    by (rule takeWhile_stops [OF d]) (simp add: stops_def isdigit_def)
  then have "atoi (CHR 0x09 # nat_dec n @ CHR 0x0A # cstr rest) = int n"
    using c' dec_val_nat_dec [of n] by (simp add: atoi_def c isspace_def Let_def)
  then show ?thesis unfolding ProcessInfo_numThreads_def find_sub_at [OF assms] by (simp add: nul)
qed

end
