(* ===== verification/Net_Socket.thy ===== *)
theory Net_Socket
  imports Endian Base_Scanf
begin

text \<open>
  Addresses and sockets: \<open>ideal/net/InetAddress\<close>, \<open>SocketUtil\<close> and \<open>Socket\<close>. System calls are parameters: a call
  that fails has the value \<open>Inl errno\<close>. \<open>inet_ntop\<close>, \<open>inet_pton\<close> and \<open>inet_ntoa\<close> are those of the C library.
\<close>

section \<open>Addresses\<close>

text \<open>Port and address are in network byte order, as the kernel keeps them.\<close>

record sockaddr_in =
  sin_family :: "16 word"
  sin_port :: "16 word"
  sin_addr :: "32 word"

definition AF_INET :: "16 word" where "AF_INET = 2"
definition INET_ADDRSTRLEN :: nat where "INET_ADDRSTRLEN = 16"
definition INADDR_ANY :: "32 word" where "INADDR_ANY = 0"
definition INADDR_LOOPBACK :: "32 word" where "INADDR_LOOPBACK = 0x7f000001"

text \<open>The octets of an address in memory, each in decimal, with dots.\<close>

fun dotted :: "nat list \<Rightarrow> string" where
  "dotted [] = []"
| "dotted [x] = nat_dec x"
| "dotted (x # xs) = nat_dec x @ CHR ''.'' # dotted xs"

definition inet_ntop :: "32 word \<Rightarrow> string" where
  "inet_ntop addr = dotted (map of_char (le_bytes 4 (unat addr)))"

text \<open>
  \<open>inet_pton\<close> takes four numbers up to 255 with dots between them, without leading zeros and without anything else.
\<close>

fun split_on :: "char \<Rightarrow> string \<Rightarrow> string list" where
  "split_on c [] = [[]]"
| "split_on c (x # xs) =
     (if x = c then [] # split_on c xs else (case split_on c xs of w # ws \<Rightarrow> (x # w) # ws | [] \<Rightarrow> [[x]]))"

definition octet :: "string \<Rightarrow> nat option" where
  "octet s = (if s \<noteq> [] \<and> (\<forall>c\<in>set s. isdigit c) \<and> (hd s = CHR ''0'' \<longrightarrow> length s = 1) \<and> dec_val s \<le> 255 then Some (dec_val s) else None)"

definition inet_pton :: "string \<Rightarrow> 32 word option" where
  "inet_pton s =
     (case map octet (split_on CHR ''.'' s) of
        [Some a, Some b, Some c, Some d] \<Rightarrow> Some (of_nat (le_value [char_of a, char_of b, char_of c, char_of d]))
      | _ \<Rightarrow> None)"

text \<open>The texts are written into an array of the given size; \<open>toIp\<close> leaves it empty if the address does not fit.\<close>

definition sockets_toIp :: "nat \<Rightarrow> sockaddr_in \<Rightarrow> string result" where
  "sockets_toIp size' addr =
     bindR (assertR (INET_ADDRSTRLEN \<le> size')) (\<lambda>_.
     let ip = inet_ntop (sin_addr addr) in Inr (if length ip < size' then ip else ''''))"

definition sockets_toIpPort :: "nat \<Rightarrow> sockaddr_in \<Rightarrow> string result" where
  "sockets_toIpPort size' addr =
     bindR (sockets_toIp size' addr) (\<lambda>buf.
     let port = networkToHost16 (sin_port addr) in
     bindR (assertR (length buf < size')) (\<lambda>_.
     Inr (buf @ snprintf (size' - length buf) ('':'' @ nat_dec (unat port)))))"

text \<open>\<open>inet_pton\<close> returns 0 for a text that is not an address, and then writes nothing; the code tests for a negative value.\<close>

definition sockets_fromIpPort :: "string \<Rightarrow> 16 word \<Rightarrow> sockaddr_in \<Rightarrow> sockaddr_in" where
  "sockets_fromIpPort ip port addr =
     (let addr = addr\<lparr>sin_family := AF_INET, sin_port := hostToNetwork16 port\<rparr>
      in case inet_pton ip of Some a \<Rightarrow> addr\<lparr>sin_addr := a\<rparr> | None \<Rightarrow> addr)"

definition zero_addr :: sockaddr_in where
  "zero_addr = \<lparr>sin_family = 0, sin_port = 0, sin_addr = 0\<rparr>"

definition InetAddress_new :: "16 word \<Rightarrow> bool \<Rightarrow> sockaddr_in" where
  "InetAddress_new port loopbackOnly =
     (let ip = (if loopbackOnly then INADDR_LOOPBACK else INADDR_ANY)
      in zero_addr\<lparr>sin_family := AF_INET, sin_addr := hostToNetwork32 ip, sin_port := hostToNetwork16 port\<rparr>)"

definition InetAddress_of :: "string \<Rightarrow> 16 word \<Rightarrow> sockaddr_in" where
  "InetAddress_of ip port = sockets_fromIpPort (cstr ip) port zero_addr"

definition InetAddress_toIpPort :: "sockaddr_in \<Rightarrow> string result" where
  "InetAddress_toIpPort addr = sockets_toIpPort 32 addr"

definition InetAddress_toIp :: "sockaddr_in \<Rightarrow> string result" where
  "InetAddress_toIp addr = sockets_toIp 32 addr"

definition InetAddress_toPort :: "sockaddr_in \<Rightarrow> 16 word" where
  "InetAddress_toPort addr = networkToHost16 (sin_port addr)"

text \<open>
  \<open>resolve\<close>: \<open>gethostbyname_r\<close> returns a code and maybe a host entry, of which the type, the length and the first address count.
\<close>

definition InetAddress_resolve ::
    "(string \<Rightarrow> int \<times> (16 word \<times> nat \<times> 32 word) option) \<Rightarrow> string \<Rightarrow> sockaddr_in option \<Rightarrow> (bool \<times> sockaddr_in) result" where
  "InetAddress_resolve gethostbyname hostname result =
     (case result of
        None \<Rightarrow> Inl AssertionFailed
      | Some addr \<Rightarrow>
          (case gethostbyname (cstr hostname) of
             (ret, Some (addrtype, len, a)) \<Rightarrow>
               if ret = 0 then bindR (assertR (addrtype = AF_INET \<and> len = 4)) (\<lambda>_. Inr (True, addr\<lparr>sin_addr := a\<rparr>))
               else Inr (False, addr)
           | (ret, None) \<Rightarrow> Inr (False, addr)))"

text \<open>
  \<open>getLocalIpAddress\<close>: the entries \<open>SIOCGIFCONF\<close> returns, with their name, family and address. The pointer to the
  entry moves on only past an entry of the family.
\<close>

type_synonym ifreq = "string \<times> 16 word \<times> 32 word"

fun local_ip_loop :: "nat \<Rightarrow> ifreq list \<Rightarrow> string result" where
  "local_ip_loop 0 rs = Inr ''0.0.0.0''"
| "local_ip_loop (Suc i) [] = Inl OutOfRange"
| "local_ip_loop (Suc i) ((name, family, addr) # rs) =
     (if family = AF_INET
      then (if name \<noteq> ''lo'' then Inr (inet_ntop addr) else local_ip_loop i rs)
      else local_ip_loop i ((name, family, addr) # rs))"

definition InetAddress_getLocalIpAddress :: "int + int \<Rightarrow> int + ifreq list \<Rightarrow> string result" where
  "InetAddress_getLocalIpAddress socket ioctl =
     (case socket of
        Inl _ \<Rightarrow> Inr ''0.0.0.0''
      | Inr _ \<Rightarrow> (case ioctl of Inl _ \<Rightarrow> Inr ''0.0.0.0'' | Inr rs \<Rightarrow> local_ip_loop (length rs) rs))"

section \<open>Socket calls\<close>

text \<open>The calls that end the program when they fail.\<close>

definition or_die :: "int + 'a \<Rightarrow> 'a result" where
  "or_die r = (case r of Inl _ \<Rightarrow> Inl Fatal | Inr x \<Rightarrow> Inr x)"

definition sockets_createNonblockingOrDie :: "int + int \<Rightarrow> int result" where
  "sockets_createNonblockingOrDie socket = or_die socket"

definition sockets_bindOrDie :: "int + unit \<Rightarrow> unit result" where
  "sockets_bindOrDie bind' = or_die bind'"

definition sockets_listenOrDie :: "int + unit \<Rightarrow> unit result" where
  "sockets_listenOrDie listen = or_die listen"

definition sockets_getLocalAddr :: "int + sockaddr_in \<Rightarrow> sockaddr_in result" where
  "sockets_getLocalAddr getsockname = or_die getsockname"

definition sockets_getPeerAddr :: "int + sockaddr_in \<Rightarrow> sockaddr_in result" where
  "sockets_getPeerAddr getpeername = or_die getpeername"

definition sockets_isSelfConnect :: "int + sockaddr_in \<Rightarrow> int + sockaddr_in \<Rightarrow> bool result" where
  "sockets_isSelfConnect getsockname getpeername =
     bindR (sockets_getLocalAddr getsockname) (\<lambda>laddr.
     bindR (sockets_getPeerAddr getpeername) (\<lambda>paddr.
     Inr (sin_port laddr = sin_port paddr \<and> sin_addr laddr = sin_addr paddr)))"

definition sockets_getSocketError :: "int + int \<Rightarrow> int" where
  "sockets_getSocketError getsockopt = (case getsockopt of Inl errno \<Rightarrow> errno | Inr optval \<Rightarrow> optval)"

text \<open>\<open>EAGAIN\<close>, \<open>ECONNABORTED\<close>, \<open>EINTR\<close>, \<open>EPROTO\<close>, \<open>EPERM\<close>, \<open>EMFILE\<close>.\<close>

definition resolvable_errors :: "int list" where
  "resolvable_errors = [11, 103, 4, 71, 1, 24]"

definition sockets_accept :: "int + int \<times> sockaddr_in \<Rightarrow> (int + int \<times> sockaddr_in) result" where
  "sockets_accept accept4 =
     (case accept4 of
        Inl savedErrno \<Rightarrow> if savedErrno \<in> set resolvable_errors then Inr (Inl savedErrno) else Inl Fatal
      | Inr r \<Rightarrow> Inr (Inr r))"

text \<open>\<open>Socket::accept\<close>: the descriptor, \<open>-1\<close> after an error, and the address of the peer.\<close>

definition Socket_accept :: "int + int \<times> sockaddr_in \<Rightarrow> sockaddr_in \<Rightarrow> (int \<times> sockaddr_in) result" where
  "Socket_accept accept4 peeraddr =
     bindR (sockets_accept accept4) (\<lambda>r. Inr (case r of Inl _ \<Rightarrow> (-1, peeraddr) | Inr (connfd, addr) \<Rightarrow> (connfd, addr)))"

section \<open>Texts of addresses\<close>

lemma split_on_nonempty: "split_on c s \<noteq> []"
  by (induction s) (auto split: list.split)

lemma split_on_word: "c \<notin> set w \<Longrightarrow> split_on c w = [w]"
  by (induction w) auto

lemma split_on_append: "c \<notin> set w \<Longrightarrow> split_on c (w @ c # s) = w # split_on c s"
  by (induction w) auto

lemma split_dotted: "xs \<noteq> [] \<Longrightarrow> split_on CHR ''.'' (dotted xs) = map nat_dec xs"
proof (induction xs rule: dotted.induct)
  case (2 x)
  have "CHR ''.'' \<notin> set (nat_dec x)" using nat_dec_word(2) [of x] by (auto simp: isdigit_def)
  then show ?case by (simp add: split_on_word)
next
  case (3 x y ys)
  have "CHR ''.'' \<notin> set (nat_dec x)" using nat_dec_word(2) [of x] by (auto simp: isdigit_def)
  then show ?case using 3 by (simp add: split_on_append)
qed simp

lemma hd_nat_dec: "0 < n \<Longrightarrow> hd (nat_dec n) \<noteq> CHR ''0''"
proof (induction n rule: nat_dec.induct)
  case (1 n)
  show ?case
  proof (cases "n < 10")
    case True
    have "(of_char (digit n) :: nat) = 48 + n" using True by (simp add: digit_def)
    then have "digit n \<noteq> CHR ''0''" using 1(2) by auto
    then show ?thesis using True by (subst nat_dec.simps) simp
  next
    case False
    then have "hd (nat_dec (n div 10)) \<noteq> CHR ''0''" using 1(1) [OF False] by simp
    then show ?thesis using False by (subst nat_dec.simps) (simp add: hd_append)
  qed
qed

lemma octet_nat_dec: "n < 256 \<Longrightarrow> octet (nat_dec n) = Some n"
proof -
  assume "n < 256"
  moreover have "hd (nat_dec n) = CHR ''0'' \<longrightarrow> length (nat_dec n) = 1"
    using hd_nat_dec [of n] by (cases "n = 0") (simp_all add: nat_dec.simps)
  ultimately show ?thesis using nat_dec_word(2) [of n] by (simp add: octet_def)
qed

lemma le_bytes_4: "\<exists>a b c d. le_bytes 4 n = [a, b, c, d]"
proof -
  have "length (le_bytes 4 n) = Suc (Suc (Suc (Suc 0)))" by simp
  then show ?thesis by (simp only: length_Suc_conv length_0_conv) blast
qed

lemma le_bytes_numeral: "le_bytes (numeral v) x = char_of x # le_bytes (pred_numeral v) (x div 256)"
  by (simp only: numeral_eq_Suc [of v] le_bytes.simps)

lemma inet_pton_ntop: "inet_pton (inet_ntop addr) = Some addr"
proof -
  obtain a b c d where l: "le_bytes 4 (unat addr) = [a, b, c, d]" using le_bytes_4 by blast
  have o: "octet (nat_dec (of_char x)) = Some (of_char x)" for x by (rule octet_nat_dec) simp
  have "le_value [a, b, c, d] = unat addr mod 256 ^ 4" using le_value_le_bytes [of 4 "unat addr"] by (simp add: l)
  then have "le_value [a, b, c, d] = unat addr" using unsigned_less [of addr, where ?'a = nat] by simp
  then have "(of_nat (le_value [a, b, c, d]) :: 32 word) = addr" by simp
  moreover have "split_on CHR ''.'' (inet_ntop addr) = map nat_dec (map of_char [a, b, c, d])"
    unfolding inet_ntop_def l by (rule split_dotted) simp
  ultimately show ?thesis by (simp add: inet_pton_def o del: le_value.simps)
qed

lemma inet_ntop_length: "length (inet_ntop addr) \<le> 15"
proof -
  obtain a b c d where l: "le_bytes 4 (unat addr) = [a, b, c, d]" using le_bytes_4 by blast
  have "(of_char x :: nat) < 10 ^ 3" for x using of_char_less [of x] by (rule less_trans) simp
  then have "length (nat_dec (of_char x)) \<le> 3" for x using length_nat_dec by simp
  from this [of a] this [of b] this [of c] this [of d] show ?thesis by (simp add: inet_ntop_def l)
qed

lemma inet_ntop_cstr: "cstr (inet_ntop addr) = inet_ntop addr"
proof -
  obtain a b c d where l: "le_bytes 4 (unat addr) = [a, b, c, d]" using le_bytes_4 by blast
  have "x \<noteq> CHR 0x00" if "x \<in> set (nat_dec n)" for x n using nat_dec_word(2) [of n] that by (auto simp: isdigit_def)
  then have "\<forall>x\<in>set (inet_ntop addr). x \<noteq> CHR 0x00" by (auto simp: inet_ntop_def l)
  then show ?thesis by (simp add: cstr_def)
qed

text \<open>
  C38. The texts of an address. Both fit their arrays with nothing cut off, for every address and port: the dotted decimal
  text of the octets, and the same with a colon and the port. Read back, the text and the port give the address.
\<close>

theorem InetAddress_text_roundtrip:
  assumes "sin_family addr = AF_INET" "sin_port addr = hostToNetwork16 port"
  shows "InetAddress_toIp addr = Inr (inet_ntop (sin_addr addr)) \<and> InetAddress_toPort addr = port \<and>
    InetAddress_toIpPort addr = Inr (inet_ntop (sin_addr addr) @ '':'' @ nat_dec (unat port)) \<and>
    length (inet_ntop (sin_addr addr) @ '':'' @ nat_dec (unat port)) \<le> 21 \<and>
    InetAddress_of (inet_ntop (sin_addr addr)) port = addr"
proof -
  note len = inet_ntop_length [of "sin_addr addr"]
  have "unat port < 10 ^ 5" using unsigned_less [of port, where ?'a = nat] by simp
  then have port: "length (nat_dec (unat port)) \<le> 5" using length_nat_dec by simp
  have "snprintf (32 - length (inet_ntop (sin_addr addr))) ('':'' @ nat_dec (unat port)) = '':'' @ nat_dec (unat port)"
    using len port by (simp add: snprintf_def)
  then show ?thesis
    using len port assms by (simp add: InetAddress_toIp_def InetAddress_toIpPort_def InetAddress_toPort_def sockets_toIpPort_def sockets_toIp_def
        assertR_def INET_ADDRSTRLEN_def Let_def InetAddress_of_def sockets_fromIpPort_def inet_ntop_cstr inet_pton_ntop zero_addr_def)
qed

theorem InetAddress_text_roundtrip_witness:
  "InetAddress_toIpPort (InetAddress_new 9981 True) = Inr ''127.0.0.1:9981'' \<and> InetAddress_of ''127.0.0.1'' 9981 = InetAddress_new 9981 True"
proof -
  have f: "sin_family (InetAddress_new 9981 True) = AF_INET" "sin_port (InetAddress_new 9981 True) = hostToNetwork16 9981"
    by (simp_all add: InetAddress_new_def zero_addr_def)
  have "le_bytes 4 (unat (hostToNetwork32 0x7f000001)) = rev (le_bytes 4 0x7f000001)" by (simp add: le_bytes_hostToNetwork)
  then have "map of_char (le_bytes 4 (unat (hostToNetwork32 0x7f000001))) = [127, 0, 0, 1 :: nat]"
    by (simp add: le_bytes_numeral)
  moreover have "dotted [127, 0, 0, 1] = ''127.0.0.1''" by (simp add: nat_dec.simps digit_def char_of_def bit_0)
  ultimately have t: "inet_ntop (sin_addr (InetAddress_new 9981 True)) = ''127.0.0.1''"
    by (simp add: inet_ntop_def InetAddress_new_def INADDR_LOOPBACK_def zero_addr_def)
  have p: "nat_dec (unat (9981 :: 16 word)) = ''9981''" by (simp add: nat_dec.simps digit_def char_of_def bit_0)
  show ?thesis using InetAddress_text_roundtrip [OF f] unfolding t p by simp
qed

text \<open>
  A text that is no address is not refused: \<open>InetAddress\<close> then is the wildcard address of the port, on which a server
  listens on every interface. The result of \<open>inet_pton\<close> is tested for a negative value only.
\<close>

theorem InetAddress_bad_text:
  assumes "inet_pton (cstr ip) = None"
  shows "InetAddress_of ip port = InetAddress_new port False"
proof -
  have "hostToNetwork32 INADDR_ANY = 0" by code_simp
  then show ?thesis using assms by (simp add: InetAddress_of_def sockets_fromIpPort_def InetAddress_new_def zero_addr_def)
qed

theorem InetAddress_bad_text_witness: "InetAddress_of ''localhost'' 9981 = InetAddress_new 9981 False"
proof -
  have "inet_pton (cstr ''localhost'') = None" by code_simp
  then show ?thesis by (rule InetAddress_bad_text)
qed

section \<open>The local address\<close>

text \<open>With the entries \<open>SIOCGIFCONF\<close> gives, all of the family, the first that is not the loopback is taken.\<close>

lemma local_ip_first:
  "\<forall>r\<in>set rs. fst (snd r) = AF_INET \<Longrightarrow>
   local_ip_loop (length rs) rs = Inr (case filter (\<lambda>r. fst r \<noteq> ''lo'') rs of [] \<Rightarrow> ''0.0.0.0'' | r # _ \<Rightarrow> inet_ntop (snd (snd r)))"
  by (induction rs) auto

text \<open>An entry of another family stops the search: the pointer stays on it.\<close>

lemma local_ip_stuck: "family \<noteq> AF_INET \<Longrightarrow> local_ip_loop n ((name, family, addr) # rs) = Inr ''0.0.0.0''"
  by (induction n) auto

lemma local_ip_returns: "\<exists>ip. local_ip_loop (length rs) rs = Inr ip"
proof (induction rs)
  case (Cons r rs)
  obtain name family addr where r: "r = (name, family, addr)" by (cases r) auto
  show ?case
  proof (cases "family = AF_INET")
    case True
    then show ?thesis using Cons by (simp add: r)
  next
    case False
    then show ?thesis using local_ip_stuck [of family "length (r # rs)" name addr rs] by (simp add: r)
  qed
qed simp

section \<open>Self-connection\<close>

lemma isSelfConnect_iff:
  "sockets_isSelfConnect (Inr l) (Inr p) = Inr True \<longleftrightarrow> sin_port l = sin_port p \<and> sin_addr l = sin_addr p"
  by (simp add: sockets_isSelfConnect_def sockets_getLocalAddr_def sockets_getPeerAddr_def or_die_def)

lemma accept_fatal: "errno \<notin> set resolvable_errors \<Longrightarrow> Socket_accept (Inl errno) a = Inl Fatal"
  by (simp add: Socket_accept_def sockets_accept_def)

section \<open>Socket\<close>

text \<open>The options a socket of the kernel has been given; \<open>setsockopt\<close> may fail, which only \<open>setReusePort\<close> looks at, to log it.\<close>

datatype sockopt = TCP_NODELAY | SO_REUSEADDR | SO_REUSEPORT | SO_KEEPALIVE

record Socket =
  sk_sockfd :: int
  sk_options :: "sockopt \<Rightarrow> int"
  sk_listening :: bool
  sk_writeShut :: bool
  sk_closed :: bool

definition set_option :: "int + unit \<Rightarrow> sockopt \<Rightarrow> bool \<Rightarrow> Socket \<Rightarrow> Socket" where
  "set_option setsockopt opt on s =
     (let optval = (if on then 1 else 0)
      in case setsockopt of Inl _ \<Rightarrow> s | Inr _ \<Rightarrow> s\<lparr>sk_options := (sk_options s)(opt := optval)\<rparr>)"

definition Socket_setTcpNoDelay :: "int + unit \<Rightarrow> bool \<Rightarrow> Socket \<Rightarrow> Socket" where
  "Socket_setTcpNoDelay setsockopt = set_option setsockopt TCP_NODELAY"

definition Socket_setReuseAddr :: "int + unit \<Rightarrow> bool \<Rightarrow> Socket \<Rightarrow> Socket" where
  "Socket_setReuseAddr setsockopt = set_option setsockopt SO_REUSEADDR"

definition Socket_setReusePort :: "int + unit \<Rightarrow> bool \<Rightarrow> Socket \<Rightarrow> Socket" where
  "Socket_setReusePort setsockopt = set_option setsockopt SO_REUSEPORT"

definition Socket_setKeepAlive :: "int + unit \<Rightarrow> bool \<Rightarrow> Socket \<Rightarrow> Socket" where
  "Socket_setKeepAlive setsockopt = set_option setsockopt SO_KEEPALIVE"

definition Socket_bindAddress :: "int + unit \<Rightarrow> Socket \<Rightarrow> Socket result" where
  "Socket_bindAddress bind' s = bindR (sockets_bindOrDie bind') (\<lambda>_. Inr s)"

definition Socket_listen :: "int + unit \<Rightarrow> Socket \<Rightarrow> Socket result" where
  "Socket_listen listen s = bindR (sockets_listenOrDie listen) (\<lambda>_. Inr (s\<lparr>sk_listening := True\<rparr>))"

definition Socket_shutdownWrite :: "int + unit \<Rightarrow> Socket \<Rightarrow> Socket" where
  "Socket_shutdownWrite shutdown s = (case shutdown of Inl _ \<Rightarrow> s | Inr _ \<Rightarrow> s\<lparr>sk_writeShut := True\<rparr>)"

definition Socket_destroy :: "int + unit \<Rightarrow> Socket \<Rightarrow> Socket" where
  "Socket_destroy close s = (case close of Inl _ \<Rightarrow> s | Inr _ \<Rightarrow> s\<lparr>sk_closed := True\<rparr>)"

text \<open>\<open>getTcpInfoString\<close>: what \<open>getsockopt\<close> reports, as text in an array of the given size.\<close>

record tcp_info =
  tcpi_retransmits :: "8 word"
  tcpi_rto :: "32 word"
  tcpi_ato :: "32 word"
  tcpi_snd_mss :: "32 word"
  tcpi_rcv_mss :: "32 word"
  tcpi_lost :: "32 word"
  tcpi_retrans :: "32 word"
  tcpi_rtt :: "32 word"
  tcpi_rttvar :: "32 word"
  tcpi_snd_ssthresh :: "32 word"
  tcpi_snd_cwnd :: "32 word"
  tcpi_total_retrans :: "32 word"

definition tcp_info_text :: "tcp_info \<Rightarrow> string" where
  "tcp_info_text ti =
     ''retransmits='' @ nat_dec (unat (tcpi_retransmits ti)) @ '' rto='' @ nat_dec (unat (tcpi_rto ti)) @ '' ato='' @ nat_dec (unat (tcpi_ato ti)) @
     '' snd_mss='' @ nat_dec (unat (tcpi_snd_mss ti)) @ '' rcv_mss='' @ nat_dec (unat (tcpi_rcv_mss ti)) @
     '' lost='' @ nat_dec (unat (tcpi_lost ti)) @ '' retrans='' @ nat_dec (unat (tcpi_retrans ti)) @
     '' rtt='' @ nat_dec (unat (tcpi_rtt ti)) @ '' rttvar='' @ nat_dec (unat (tcpi_rttvar ti)) @
     '' sshthresh='' @ nat_dec (unat (tcpi_snd_ssthresh ti)) @ '' cwnd='' @ nat_dec (unat (tcpi_snd_cwnd ti)) @
     '' total_retrans='' @ nat_dec (unat (tcpi_total_retrans ti))"

definition Socket_getTcpInfoString :: "int + tcp_info \<Rightarrow> nat \<Rightarrow> string option" where
  "Socket_getTcpInfoString getsockopt len = (case getsockopt of Inl _ \<Rightarrow> None | Inr ti \<Rightarrow> Some (snprintf len (tcp_info_text ti)))"

text \<open>An array of 221 bytes holds it whatever the numbers.\<close>

lemma word32_text: "length (nat_dec (unat (w :: 32 word))) \<le> 10"
proof -
  have "unat w < 10 ^ 10" using unsigned_less [of w, where ?'a = nat] by simp
  then show ?thesis using length_nat_dec by simp
qed

lemma word8_text: "length (nat_dec (unat (w :: 8 word))) \<le> 3"
proof -
  have "unat w < 10 ^ 3" using unsigned_less [of w, where ?'a = nat] by simp
  then show ?thesis using length_nat_dec by simp
qed

lemma tcp_info_fits:
  assumes "221 \<le> len"
  shows "Socket_getTcpInfoString (Inr ti) len = Some (tcp_info_text ti)"
proof -
  have "length (tcp_info_text ti) \<le> 220"
    using word8_text [of "tcpi_retransmits ti"] word32_text [of "tcpi_rto ti"] word32_text [of "tcpi_ato ti"] word32_text [of "tcpi_snd_mss ti"]
      word32_text [of "tcpi_rcv_mss ti"] word32_text [of "tcpi_lost ti"] word32_text [of "tcpi_retrans ti"] word32_text [of "tcpi_rtt ti"]
      word32_text [of "tcpi_rttvar ti"] word32_text [of "tcpi_snd_ssthresh ti"] word32_text [of "tcpi_snd_cwnd ti"]
      word32_text [of "tcpi_total_retrans ti"]
    by (simp add: tcp_info_text_def)
  then show ?thesis using assms by (simp add: Socket_getTcpInfoString_def snprintf_def)
qed

end
