(* ===== verification/Net_EventLoopThread.thy ===== *)
theory Net_EventLoopThread
  imports Prelude
begin

text \<open>
  \<open>ideal/base/Thread\<close> and \<open>ideal/net/EventLoopThread\<close>: the hand-over of a loop that lives on the stack of its thread, and its
  end. The three threads of control are the caller of \<open>startLoop\<close>, the thread, and the destructor; the lock makes
  each critical section one step. That a functor or another holder of the loop asks it to quit is a step of the environment,
  which the parameter of the relation allows or not.
\<close>

section \<open>Thread\<close>

record Thread =
  th_started :: bool
  th_joined :: bool
  th_name :: string

text \<open>\<open>setDefaultName\<close>, with the number of threads created so far.\<close>

definition Thread_new :: "int \<Rightarrow> string \<Rightarrow> Thread" where
  "Thread_new numCreated name =
     \<lparr>th_started = False, th_joined = False, th_name = (if name = '''' then snprintf 32 (''Thread'' @ int_dec (numCreated + 1)) else name)\<rparr>"

definition Thread_start :: "Thread \<Rightarrow> Thread result" where
  "Thread_start t = bindR (assertR (\<not> th_started t)) (\<lambda>_. Inr (t\<lparr>th_started := True\<rparr>))"

definition Thread_join :: "Thread \<Rightarrow> Thread result" where
  "Thread_join t = bindR (assertR (th_started t)) (\<lambda>_. bindR (assertR (\<not> th_joined t)) (\<lambda>_. Inr (t\<lparr>th_joined := True\<rparr>)))"

text \<open>The destructor detaches a thread that runs and was not joined.\<close>

definition Thread_detaches :: "Thread \<Rightarrow> bool" where
  "Thread_detaches t \<longleftrightarrow> th_started t \<and> \<not> th_joined t"

text \<open>How the function of a thread ends, and what \<open>runInThread\<close> makes of it: the name left behind and what becomes of the process.\<close>

datatype func_end = Returned | ThrewException | ThrewStd | ThrewOther

datatype thread_end = Finished | Aborted | Rethrown

definition ThreadData_runInThread :: "func_end \<Rightarrow> string \<times> thread_end" where
  "ThreadData_runInThread e =
     (case e of
        Returned \<Rightarrow> (''finished'', Finished)
      | ThrewException \<Rightarrow> (''crashed'', Aborted)
      | ThrewStd \<Rightarrow> (''crashed'', Aborted)
      | ThrewOther \<Rightarrow> (''crashed'', Rethrown))"

section \<open>The loop of a thread\<close>

text \<open>Where \<open>startLoop\<close> is: before the call, at the latch, before the test of the predicate, asleep, returned.\<close>

datatype starter = S_idle | S_latch | S_check | S_asleep | S_got

text \<open>Where the thread is: before the latch, with its loop constructed, in \<open>loop()\<close>, behind it, with \<open>_loop\<close> reset, at its end.\<close>

datatype runner = T_none | T_begin | T_init | T_loop | T_left | T_cleared | T_done

text \<open>Where the destructor is: behind the test of \<open>_loop\<close>, with the pointer in hand, in \<open>join\<close>, through.\<close>

datatype destroyer = D_none | D_quit | D_call | D_join | D_done | D_fault fault

record EventLoopThread =
  et_thread :: Thread
  et_loop :: bool
  et_exiting :: bool
  et_latch :: int
  et_alive :: bool
  et_quit :: bool
  et_starter :: starter
  et_runner :: runner
  et_destroyer :: destroyer

definition EventLoopThread_new :: "int \<Rightarrow> string \<Rightarrow> EventLoopThread" where
  "EventLoopThread_new numCreated name =
     \<lparr>et_thread = Thread_new numCreated name, et_loop = False, et_exiting = False, et_latch = 1, et_alive = False, et_quit = False,
      et_starter = S_idle, et_runner = T_none, et_destroyer = D_none\<rparr>"

text \<open>\<open>_loop = &loop; _cv.notify_all();\<close>\<close>

definition publish_loop :: "EventLoopThread \<Rightarrow> EventLoopThread" where
  "publish_loop s = s\<lparr>et_loop := True, et_runner := T_loop,
     et_starter := (if et_starter s = S_asleep then S_check else et_starter s)\<rparr>"

definition call_quit :: "EventLoopThread \<Rightarrow> EventLoopThread" where
  "call_quit s = (if et_alive s then s\<lparr>et_quit := True, et_destroyer := D_join\<rparr> else s\<lparr>et_destroyer := D_fault UseAfterFree\<rparr>)"

inductive et_step :: "bool \<Rightarrow> EventLoopThread \<Rightarrow> EventLoopThread \<Rightarrow> bool" for env where
  et_start: "et_starter s = S_idle \<Longrightarrow> et_destroyer s = D_none \<Longrightarrow> Thread_start (et_thread s) = Inr t \<Longrightarrow>
    et_step env s (s\<lparr>et_thread := t, et_starter := S_latch, et_runner := T_begin\<rparr>)"
| et_countDown: "et_runner s = T_begin \<Longrightarrow> et_step env s (s\<lparr>et_latch := et_latch s - 1, et_runner := T_init, et_alive := True\<rparr>)"
| et_opened: "et_starter s = S_latch \<Longrightarrow> et_latch s = 0 \<Longrightarrow> et_step env s (s\<lparr>et_starter := S_check\<rparr>)"
| et_wait: "et_starter s = S_check \<Longrightarrow> et_step env s (s\<lparr>et_starter := if et_loop s then S_got else S_asleep\<rparr>)"
| et_publish: "et_runner s = T_init \<Longrightarrow> et_step env s (publish_loop s)"
| et_env_quit: "env \<Longrightarrow> et_runner s = T_loop \<Longrightarrow> et_step env s (s\<lparr>et_quit := True\<rparr>)"
| et_leave: "et_runner s = T_loop \<Longrightarrow> et_quit s \<Longrightarrow> et_step env s (s\<lparr>et_runner := T_left\<rparr>)"
| et_clear: "et_runner s = T_left \<Longrightarrow> et_step env s (s\<lparr>et_loop := False, et_runner := T_cleared\<rparr>)"
| et_end: "et_runner s = T_cleared \<Longrightarrow> et_step env s (s\<lparr>et_alive := False, et_runner := T_done\<rparr>)"
| et_destroy: "et_destroyer s = D_none \<Longrightarrow> et_starter s \<in> {S_idle, S_got} \<Longrightarrow>
    et_step env s (s\<lparr>et_exiting := True, et_destroyer := if et_loop s then D_quit else D_done\<rparr>)"
| et_read: "et_destroyer s = D_quit \<Longrightarrow> et_step env s (s\<lparr>et_destroyer := if et_loop s then D_call else D_fault NullPointer\<rparr>)"
| et_call: "et_destroyer s = D_call \<Longrightarrow> et_step env s (call_quit s)"
| et_join: "et_destroyer s = D_join \<Longrightarrow> et_runner s = T_done \<Longrightarrow> Thread_join (et_thread s) = Inr t \<Longrightarrow>
    et_step env s (s\<lparr>et_thread := t, et_destroyer := D_done\<rparr>)"

inductive et_reachable :: "bool \<Rightarrow> EventLoopThread \<Rightarrow> bool" for env where
  et_init: "et_reachable env (EventLoopThread_new n name)"
| et_next: "et_reachable env s \<Longrightarrow> et_step env s s' \<Longrightarrow> et_reachable env s'"

section \<open>Nobody else quits the loop\<close>

definition et_inv :: "EventLoopThread \<Rightarrow> bool" where
  "et_inv s \<longleftrightarrow> (th_started (et_thread s) \<longleftrightarrow> et_runner s \<noteq> T_none) \<and> (et_starter s = S_idle \<longleftrightarrow> et_runner s = T_none) \<and>
     (th_joined (et_thread s) \<longrightarrow> et_destroyer s = D_done) \<and>
     et_latch s = (if et_runner s \<in> {T_none, T_begin} then 1 else 0) \<and>
     (et_alive s \<longleftrightarrow> et_runner s \<in> {T_init, T_loop, T_left, T_cleared}) \<and> (et_loop s \<longleftrightarrow> et_runner s \<in> {T_loop, T_left}) \<and>
     (et_starter s = S_asleep \<longrightarrow> et_runner s = T_init) \<and> (et_starter s = S_check \<longrightarrow> et_runner s \<noteq> T_begin) \<and>
     (et_starter s = S_got \<longrightarrow> et_runner s \<notin> {T_begin, T_init}) \<and>
     (et_quit s \<longrightarrow> et_destroyer s \<in> {D_join, D_done}) \<and> (et_runner s \<in> {T_left, T_cleared, T_done} \<longrightarrow> et_quit s) \<and>
     (et_destroyer s \<in> {D_quit, D_call} \<longrightarrow> et_runner s = T_loop) \<and> (et_destroyer s = D_join \<longrightarrow> et_quit s \<and> et_starter s = S_got) \<and>
     (et_destroyer s \<noteq> D_none \<longrightarrow> et_starter s \<in> {S_idle, S_got}) \<and>
     (et_destroyer s = D_done \<longrightarrow> et_runner s \<in> {T_none, T_done}) \<and> (\<forall>f. et_destroyer s \<noteq> D_fault f)"

lemmas et_ops = Thread_start_def Thread_join_def publish_loop_def call_quit_def assertR_def

lemma et_inv_new: "et_inv (EventLoopThread_new n name)"
  by (simp add: et_inv_def EventLoopThread_new_def Thread_new_def)

lemma et_inv_step: "et_step False s s' \<Longrightarrow> et_inv s \<Longrightarrow> et_inv s'"
proof (induction rule: et_step.induct)
  case (et_start s t)
  then have "t = (et_thread s)\<lparr>th_started := True\<rparr>" "\<not> th_started (et_thread s)" by (simp_all add: et_ops split: if_splits)
  then show ?case using et_start by (simp add: et_inv_def)
next
  case (et_countDown s)
  then show ?case by (cases "et_starter s"; cases "et_destroyer s") (simp_all add: et_inv_def)
next
  case (et_opened s)
  then show ?case by (cases "et_runner s"; cases "et_destroyer s") (simp_all add: et_inv_def)
next
  case (et_wait s)
  then show ?case by (cases "et_runner s"; cases "et_destroyer s") (simp_all add: et_inv_def)
next
  case (et_publish s)
  then show ?case by (cases "et_starter s"; cases "et_destroyer s") (simp_all add: et_inv_def et_ops)
next
  case (et_leave s)
  then show ?case by (cases "et_starter s"; cases "et_destroyer s") (simp_all add: et_inv_def)
next
  case (et_clear s)
  then show ?case by (cases "et_starter s"; cases "et_destroyer s") (simp_all add: et_inv_def)
next
  case (et_end s)
  then show ?case by (cases "et_starter s"; cases "et_destroyer s") (simp_all add: et_inv_def)
next
  case (et_destroy s)
  then show ?case by (cases "et_runner s") (auto simp: et_inv_def)
next
  case (et_read s)
  then show ?case by (cases "et_runner s"; cases "et_starter s") (simp_all add: et_inv_def)
next
  case (et_call s)
  then show ?case by (cases "et_runner s"; cases "et_starter s") (simp_all add: et_inv_def et_ops)
next
  case (et_join s t)
  then have "t = (et_thread s)\<lparr>th_joined := True\<rparr>" by (simp add: et_ops split: if_splits)
  then show ?case using et_join by (simp add: et_inv_def)
qed simp

lemma et_reachable_inv: "et_reachable False s \<Longrightarrow> et_inv s"
  by (induction rule: et_reachable.induct) (simp_all add: et_inv_new et_inv_step)

text \<open>Every step brings the end nearer.\<close>

fun starter_rank :: "starter \<Rightarrow> nat" where
  "starter_rank S_idle = 4"
| "starter_rank S_latch = 3"
| "starter_rank S_check = 2"
| "starter_rank S_asleep = 1"
| "starter_rank S_got = 0"

fun runner_rank :: "runner \<Rightarrow> nat" where
  "runner_rank T_none = 6"
| "runner_rank T_begin = 5"
| "runner_rank T_init = 4"
| "runner_rank T_loop = 3"
| "runner_rank T_left = 2"
| "runner_rank T_cleared = 1"
| "runner_rank T_done = 0"

fun destroyer_rank :: "destroyer \<Rightarrow> nat" where
  "destroyer_rank D_none = 4"
| "destroyer_rank D_quit = 3"
| "destroyer_rank D_call = 2"
| "destroyer_rank D_join = 1"
| "destroyer_rank _ = 0"

definition et_rank :: "EventLoopThread \<Rightarrow> nat" where
  "et_rank s = starter_rank (et_starter s) + 2 * runner_rank (et_runner s) + destroyer_rank (et_destroyer s)"

lemma et_rank_step: "et_step False s s' \<Longrightarrow> et_inv s \<Longrightarrow> et_rank s' < et_rank s"
proof (induction rule: et_step.induct)
  case (et_start s t)
  then have "et_runner s = T_none" by (simp add: et_inv_def)
  then show ?case using et_start by (simp add: et_rank_def)
qed (simp_all add: et_rank_def et_ops)

lemma et_rank_run: "(et_step False ^^ k) s s' \<Longrightarrow> et_inv s \<Longrightarrow> et_inv s' \<and> k + et_rank s' \<le> et_rank s"
proof (induction k arbitrary: s')
  case (Suc k)
  then obtain t where t: "(et_step False ^^ k) s t" "et_step False t s'" by auto
  then show ?case using Suc.IH [OF t(1) Suc.prems(2)] et_rank_step [OF t(2)] et_inv_step [OF t(2)] by simp
qed simp

lemma et_progress:
  assumes "et_inv s" "et_destroyer s \<noteq> D_done"
  shows "\<exists>s'. et_step False s s'"
proof (cases "et_starter s \<in> {S_idle, S_got} \<and> et_destroyer s = D_none")
  case True
  then show ?thesis using et_destroy [of s False] by blast
next
  case False
  show ?thesis
  proof (cases "et_destroyer s")
    case D_none
    then consider "et_starter s = S_latch" | "et_starter s = S_check" | "et_starter s = S_asleep"
      using False by (cases "et_starter s") auto
    then show ?thesis
    proof cases
      case 1
      then have "et_runner s = T_begin \<or> et_latch s = 0" using assms(1) by (simp add: et_inv_def)
      then show ?thesis using 1 et_opened et_countDown by blast
    next
      case 2
      then show ?thesis using et_wait by blast
    next
      case 3
      then have "et_runner s = T_init" using assms(1) by (simp add: et_inv_def)
      then show ?thesis using et_publish by blast
    qed
  next
    case D_join
    then have q: "et_quit s" "et_runner s \<in> {T_loop, T_left, T_cleared, T_done}" using assms(1)
      by (cases "et_runner s"; simp add: et_inv_def)+
    then have j: "\<exists>t. Thread_join (et_thread s) = Inr t" using assms(1) D_join
      by (cases "et_runner s") (simp_all add: et_inv_def et_ops)
    show ?thesis using q j et_leave et_clear et_end et_join [OF D_join] by blast
  next
    case D_quit
    then show ?thesis using et_read by blast
  next
    case D_call
    then show ?thesis using et_call by blast
  next
    case D_done
    then show ?thesis using assms(2) by simp
  next
    case (D_fault f)
    then show ?thesis using assms(1) by (simp add: et_inv_def)
  qed
qed


section \<open>Somebody else quits the loop\<close>

definition et0 :: EventLoopThread where
  "et0 = EventLoopThread_new 0 ''''"

lemma et0_fields: "\<not> th_started (et_thread et0)" "\<not> et_loop et0" "et_latch et0 = 1" "\<not> et_quit et0" "et_starter et0 = S_idle"
  "et_runner et0 = T_none" "et_destroyer et0 = D_none"
  by (simp_all add: et0_def EventLoopThread_new_def Thread_new_def)

text \<open>The loop is published while \<open>startLoop\<close> is still at the latch.\<close>

lemma et_published:
  "\<exists>s. et_reachable env s \<and> et_starter s = S_latch \<and> et_runner s = T_loop \<and> et_latch s = 0 \<and> et_loop s \<and> et_alive s \<and> et_destroyer s = D_none"
proof -
  define t where "t = (et_thread et0)\<lparr>th_started := True\<rparr>"
  define s1 where "s1 = et0\<lparr>et_thread := t, et_starter := S_latch, et_runner := T_begin\<rparr>"
  define s2 where "s2 = s1\<lparr>et_latch := et_latch s1 - 1, et_runner := T_init, et_alive := True\<rparr>"
  have "Thread_start (et_thread et0) = Inr t" by (simp add: Thread_start_def assertR_def et0_fields t_def)
  then have "et_step env et0 s1" unfolding s1_def by (intro et_start) (simp_all add: et0_fields)
  moreover have "et_step env s1 s2" unfolding s2_def by (rule et_countDown) (simp add: s1_def)
  moreover have "et_step env s2 (publish_loop s2)" by (rule et_publish) (simp add: s2_def)
  moreover have "et_reachable env et0" unfolding et0_def by (rule et_init)
  ultimately have "et_reachable env (publish_loop s2)" by (blast intro: et_next)
  then show ?thesis by (intro exI [of _ "publish_loop s2"]) (simp add: publish_loop_def s2_def s1_def et0_fields)
qed

text \<open>From \<open>loop()\<close> the environment can bring the thread to its end.\<close>

lemma et_gone:
  assumes "et_reachable True s" "et_runner s = T_loop"
  shows "et_reachable True (s\<lparr>et_quit := True, et_loop := False, et_alive := False, et_runner := T_done\<rparr>)"
proof -
  define s1 where "s1 = s\<lparr>et_quit := True\<rparr>"
  define s2 where "s2 = s1\<lparr>et_runner := T_left\<rparr>"
  define s3 where "s3 = s2\<lparr>et_loop := False, et_runner := T_cleared\<rparr>"
  have "et_step True s s1" unfolding s1_def by (intro et_env_quit assms TrueI)
  moreover have "et_step True s1 s2" unfolding s2_def by (rule et_leave) (simp_all add: s1_def assms)
  moreover have "et_step True s2 s3" unfolding s3_def by (rule et_clear) (simp add: s2_def)
  moreover have "et_step True s3 (s3\<lparr>et_alive := False, et_runner := T_done\<rparr>)" by (rule et_end) (simp add: s3_def)
  ultimately have "et_reachable True (s3\<lparr>et_alive := False, et_runner := T_done\<rparr>)" using assms(1) by (blast intro: et_next)
  then show ?thesis by (simp add: s3_def s2_def s1_def)
qed

text \<open>In the other order \<open>startLoop\<close> returns and the destructor holds the pointer.\<close>

lemma et_holding:
  "\<exists>s. et_reachable env s \<and> et_starter s = S_got \<and> et_runner s = T_loop \<and> et_loop s \<and> et_alive s \<and> et_destroyer s = D_none \<and>
     et_reachable env (s\<lparr>et_exiting := True, et_destroyer := D_call\<rparr>)"
proof -
  obtain p where p: "et_reachable env p" "et_starter p = S_latch" "et_runner p = T_loop" "et_latch p = 0" "et_loop p" "et_alive p"
    "et_destroyer p = D_none" using et_published by blast
  define o1 where "o1 = p\<lparr>et_starter := S_check\<rparr>"
  define o2 where "o2 = o1\<lparr>et_starter := S_got\<rparr>"
  define o3 where "o3 = o2\<lparr>et_exiting := True, et_destroyer := D_quit\<rparr>"
  have "et_step env p o1" unfolding o1_def by (rule et_opened) (simp_all add: p)
  moreover have "et_step env o1 o2" using et_wait [of o1 env] by (simp add: o2_def o1_def p)
  ultimately have r: "et_reachable env o2" using p(1) by (blast intro: et_next)
  moreover have "et_step env o2 o3" using et_destroy [of o2 env] by (simp add: o3_def o2_def o1_def p)
  moreover have "et_step env o3 (o3\<lparr>et_destroyer := D_call\<rparr>)" using et_read [of o3 env] by (simp add: o3_def o2_def o1_def p)
  ultimately have "et_reachable env (o3\<lparr>et_destroyer := D_call\<rparr>)" by (blast intro: et_next)
  then show ?thesis using r by (intro exI [of _ o2]) (simp add: o3_def o2_def o1_def p)
qed



text \<open>
  C40. What goes wrong when something else quits the loop, a functor queued by the initialization callback for example. If the
  thread ends before \<open>startLoop\<close> has looked, \<open>_loop\<close> is null again and \<open>startLoop\<close> sleeps for ever: no thread can
  make a step. And the destructor, which reads \<open>_loop\<close> without the lock, can call \<open>quit\<close> on a loop that is gone.
\<close>

theorem EventLoopThread_early_quit:
  "(\<exists>s. et_reachable True s \<and> et_starter s = S_asleep \<and> et_runner s = T_done \<and> \<not> (\<exists>s'. et_step True s s')) \<and>
   (\<exists>s. et_reachable True s \<and> et_destroyer s = D_fault UseAfterFree)"
proof
  obtain p where p: "et_reachable True p" "et_starter p = S_latch" "et_runner p = T_loop" "et_latch p = 0" "et_loop p" "et_alive p"
    "et_destroyer p = D_none" using et_published by blast
  define g where "g = p\<lparr>et_quit := True, et_loop := False, et_alive := False, et_runner := T_done\<rparr>"
  define c where "c = g\<lparr>et_starter := S_check\<rparr>"
  define a where "a = c\<lparr>et_starter := S_asleep\<rparr>"
  have "et_reachable True g" unfolding g_def by (rule et_gone [OF p(1,3)])
  moreover have "et_step True g c" unfolding c_def by (rule et_opened) (simp_all add: g_def p)
  moreover have "et_step True c a" using et_wait [of c True] by (simp add: a_def c_def g_def)
  ultimately have "et_reachable True a" by (blast intro: et_next)
  moreover have f: "et_starter a = S_asleep" "et_runner a = T_done" "et_destroyer a = D_none" by (simp_all add: a_def c_def g_def p)
  moreover have "\<not> et_step True a s'" for s'
  proof
    assume "et_step True a s'"
    then show False by (cases rule: et_step.cases) (simp_all add: f)
  qed
  ultimately show "\<exists>s. et_reachable True s \<and> et_starter s = S_asleep \<and> et_runner s = T_done \<and> \<not> (\<exists>s'. et_step True s s')"
    by blast
next
  obtain o2 where o2: "et_runner o2 = T_loop" "et_reachable True (o2\<lparr>et_exiting := True, et_destroyer := D_call\<rparr>)" using et_holding by blast
  let ?g = "o2\<lparr>et_exiting := True, et_destroyer := D_call, et_quit := True, et_loop := False, et_alive := False, et_runner := T_done\<rparr>"
  have "et_reachable True ?g" using et_gone [OF o2(2)] o2(1) by simp
  moreover have "et_step True ?g (call_quit ?g)" by (rule et_call) simp
  ultimately have "et_reachable True (call_quit ?g)" by (blast intro: et_next)
  then show "\<exists>s. et_reachable True s \<and> et_destroyer s = D_fault UseAfterFree"
    by (intro exI [of _ "call_quit ?g"]) (simp add: call_quit_def)
qed

end
