(* ===== verification/Spec2Isabelle.thy ===== *)
theory Spec2Isabelle
  imports Base_Queues Base_LogStream Base_TimeZone Net_TcpServer Net_Connector Net_Http Media_RtspConnection
    Base_ThreadPool Base_Logger Base_LogFile Net_FileServer Net_Echo Media_H264File Sudoku_Client
    Base_ProcessInfo Net_Socket Net_EventLoopThread
begin

text \<open>
  IdealServer: a reactor-style network library in C++ (\<open>ideal/base\<close>, \<open>ideal/net\<close>) with an RTSP media server
  (\<open>ideal/media\<close>) and servers (\<open>example\<close>) on top. This development models the logic of the
  library as the code has it and proves what makes it correct; where the code is wrong, a theorem states
  what it does.

  \<^bold>\<open>The program.\<close> One thread runs one \<open>EventLoop\<close>. The loop asks its \<open>EpollPoller\<close> for the \<open>Channel\<close>s with
  events, runs their callbacks, and then the functors other threads queued, for which an \<open>eventfd\<close> wakes
  it. Timers are a channel on a \<open>timerfd\<close> with a \<open>TimerQueue\<close>. A \<open>TcpServer\<close> accepts connections in the base
  loop and gives each to a loop of its \<open>EventLoopThreadPool\<close>; a \<open>Connector\<close> opens the connection of
  a \<open>TcpClient\<close>. A \<open>TcpConnection\<close> reads into and writes from a \<open>Buffer\<close>. The HTTP server parses requests out of
  that buffer and answers on the connection. The RTSP server keeps a table of \<open>MediaSession\<close>s; an \<open>RtspConnection\<close>
  parses requests and leads a client from DESCRIBE to PLAY; frames pushed into a session are cut into RTP
  packets by its \<open>H264Source\<close> and sent by every client's \<open>RtpConnection\<close>.

  \<^bold>\<open>Conventions.\<close> A class is a \<open>record\<close> of its members, a method \<open>C::m\<close> a definition \<open>C_m\<close> that returns the changed
  record. Everything that can stop the program is a value \<open>Inl fault\<close> of the result type of \<open>Prelude\<close>: a
  failing \<open>assert\<close> (the default build is Debug), an access outside an array, a null pointer, freed memory,
  \<open>LOG_FATAL\<close>. Machine integers are words where their width matters, and \<open>int\<close> or \<open>nat\<close> where the code
  stays in range; C division truncates (\<open>cdiv\<close>, \<open>cmod\<close>). System calls, clocks and random numbers are
  parameters, with hypotheses that state what their documentation promises (\<open>readv_contract\<close>, \<open>write_ok\<close>).
  Concurrency is interleaving: a call of another thread is a step that leaves a functor or a queued
  value behind, and an \<open>inductive\<close> step relation with its reachable states covers every order.

  \<^bold>\<open>Theories and the code they model.\<close>
  \<^item> \<open>Prelude\<close>: results and faults, C arrays and memory, decimal text, \<open>snprintf\<close>.
  \<^item> \<open>Endian\<close>: \<open>net/Endian.h\<close>. \<open>Net_Buffer\<close>: \<open>net/Buffer\<close>, refining a queue of bytes (locale \<open>byte_queue\<close>).
    \<open>Net_Lines\<close>: lines at the front of a buffer, shared by both parsers. \<open>Base_Scanf\<close>: the conversions of \<open>sscanf\<close> the code uses.
  \<^item> \<open>Base_Queues\<close>: \<open>base/RingBuffer.h\<close>, \<open>BoundedBlockingQueue.h\<close>, \<open>BlockingQueue.h\<close> with condition variables
    (locale \<open>blocking_queue\<close>, interpreted for both queues).
  \<^item> \<open>Base_Time\<close>, \<open>Base_Date\<close>, \<open>Base_TimeZone\<close>: \<open>base/Timestamp\<close>, \<open>Date\<close>, \<open>TimeZone\<close>. \<open>Base_LogStream\<close>, \<open>Base_Logger\<close>,
    \<open>Base_LogFile\<close>: \<open>base/LogStream\<close>; \<open>Logger\<close> with the thread numbers of \<open>CurrentThread\<close>; \<open>LogFile\<close> and the \<open>AppendFile\<close> of \<open>FileUtil\<close>.
  \<^item> \<open>Base_ThreadPool\<close>: \<open>base/ThreadPool\<close> and \<open>CountDownLatch.h\<close>. \<open>Net_EventLoopThread\<close>: \<open>base/Thread\<close> and \<open>net/EventLoopThread\<close>.
  \<^item> \<open>Base_StringPiece\<close>: \<open>base/StringPiece.h\<close>. \<open>Base_ProcessInfo\<close>: \<open>base/ProcessInfo\<close> and the \<open>ReadSmallFile\<close> of \<open>FileUtil\<close>.
    \<open>Net_Socket\<close>: \<open>net/InetAddress\<close>, \<open>SocketUtil\<close>, \<open>Socket\<close>.
  \<^item> \<open>Net_TimerQueue\<close>: \<open>net/Timer\<close>, \<open>TimerId\<close>, \<open>TimerQueue\<close>; deleted timers are addresses outside the heap map.
  \<^item> \<open>Net_Channel\<close>: \<open>net/Channel\<close>, \<open>Poller\<close>, \<open>poller/EpollPoller\<close> with the interest list of the kernel (locale
    \<open>interest_registry\<close>).
  \<^item> \<open>Net_EventLoop\<close>: \<open>net/EventLoop\<close> and \<open>EventLoopThreadPool\<close>.
  \<^item> \<open>Net_TcpConnection\<close>, \<open>Net_TcpServer\<close>, \<open>Net_Connector\<close>: \<open>net/TcpConnection\<close>; \<open>Acceptor\<close> and \<open>TcpServer\<close>; \<open>Connector\<close> and
    \<open>TcpClient\<close>.
  \<^item> \<open>Net_Http\<close>: \<open>example/http\<close>: \<open>HttpRequest.h\<close>, \<open>HttpContext\<close>, \<open>HttpResponse\<close>, \<open>HttpServer\<close>.
  \<^item> \<open>Media_H264\<close>: \<open>media/Media.h\<close>, \<open>Rtp.h\<close>, \<open>H264Source\<close>. \<open>Media_Rtp\<close>: \<open>media/RtpConnection\<close>. \<open>Media_Session\<close>: \<open>media/MediaSession\<close>
    and \<open>RtspServer\<close> (locale \<open>session_registry\<close>). \<open>Media_RtspMessage\<close>: \<open>media/RtspMessage\<close>. \<open>Media_RtspConnection\<close>:
    \<open>media/RtspConnection\<close> and \<open>Rtsp.h\<close>. \<open>Media_H264File\<close>: the file reader of \<open>example/media\<close>.
  \<^item> \<open>Net_FileServer\<close>: the three servers of \<open>example/filetransfer\<close>. \<open>Net_Echo\<close>: \<open>example/maxconnection\<close> and \<open>example/pingpong\<close>.
  \<^item> The exact-cover solver \<open>example/sudoku/sudoku.cc\<close>: \<open>Sudoku_Solver\<close> is the program, its nodes a heap of functions from pointers,
    \<open>Sudoku_Links\<close> the rings of nodes and covering, \<open>Sudoku_Search\<close> the search, \<open>Sudoku_Build\<close> the constructor, \<open>Sudoku_Correct\<close> boards.
    \<open>Sudoku_Server\<close>: \<open>server_basic.cc\<close> and \<open>server_threadpool.cc\<close>; \<open>Sudoku_Percentile\<close>: \<open>percentile.h\<close>; \<open>Sudoku_Client\<close>: \<open>loadtest.cc\<close>
    (locale \<open>line_service\<close>, interpreted for both servers and the client).

  \<^bold>\<open>What the theorems show.\<close>
  \<^item> Data: the buffer is a queue of bytes that reallocates only when it must; \<open>readFd\<close> appends what arrived; the ring buffer is
    a bounded list; both blocking queues hand elements over in order and lose no wake-up; so does
    the thread pool, whose workers end after \<open>stop\<close>, while a caller that waits for room then waits for ever.
    A loop thread hands over its loop and ends with its destructor, if nobody else quits the loop.
  \<^item> Text: \<open>convert\<close> prints every integer as its decimal text; any line of a log stream stays in its array; day numbers count the
    days of the Gregorian calendar; a local time is that of the last transition. A logger prints exactly the promised lines,
    cached clock or not; log files hold every line, whole and in order. Text views
    compare in dictionary order, but \<open>isStartWith\<close> answers the opposite; the text of an address fits and reads back, and a text that is none
    is silently the wildcard address; a small file is read whole.
  \<^item> Timers: exactly the due timers run, a stale identifier cancels nothing, the \<open>timerfd\<close> is armed no
    later than the first expiration, and nothing is used after it is deleted.
  \<^item> Reactor: the kernel's interest list mirrors the channels; events run exactly the callbacks they call for;
    functors run once and in order; a blocked loop with work to do is always woken.
  \<^item> Connections: over all interleavings the bytes written are the bytes accepted, in order; shutting down waits
    for the output; callbacks come once; the server knows exactly its live connections. A connector accounts for every socket,
    and the theorems say exactly which calls of \<open>start\<close> abort; a client can connect only once.
  \<^item> HTTP: a request is answered once with the bytes of its response, however its bytes are cut; \<open>parseRequest\<close> returns just in
    the states the server calls it in; a bad request line is never consumed and aborts the program
    when more data comes.
  \<^item> Media: a frame comes back byte for byte from its packets; packets form a well-framed RTP stream on the TCP
    connection; a pushed frame reaches every client of its session; requests get one answer, and a client is led
    to PLAY. The file reader returns the pictures of a file. A long address in a URL overruns an array, and a request before DESCRIBE follows a null pointer.
  \<^item> Servers: the file server that sends piece by piece delivers exactly the file and never stalls, the one that closes its
    file by hand can read it after closing; the echo server keeps its limit; in ping-pong no byte is lost.
  \<^item> Sudoku: the solver answers every puzzle, with a completion of the givens or with \<open>NoSolution\<close> when there is none;
    \<open>uncover\<close> undoes \<open>cover\<close> exactly; the constructor stays within its array. The servers
    answer every request with its identifier, in the loop in order, from a pool in any order; short bad lines they do not see. The load
    test sends at exactly its rate, and its clients account for every answer but a last \<open>NoSolution\<close>.

  \<^bold>\<open>Bounds and fuel.\<close> Only the solver uses fuel, because its loops follow pointers: \<open>ring_fuel\<close> (one more than
  there are nodes) steps for a ring and \<open>kMaxNodes + 1\<close> levels of recursion, and the theorem about \<open>solveSudoku\<close> includes that they
  are enough. Other loops that end are \<open>fun\<close> or \<open>function\<close> with a measure; the loop of
  \<open>parseRequest\<close>, which need not end, is a \<open>partial_function\<close> whose value \<open>None\<close> is not returning. Hypotheses bound what the code
  leaves unchecked: connection numbers below \<open>2 ^ 31\<close> (\<open>int\<close>), a response body below \<open>10 ^ 13\<close> bytes (the
  32 bytes \<open>Content-Length\<close> is printed into), up to \<open>10 ^ 8\<close> requests of a load test client with a name of up to 100 bytes (the
  256 bytes of a request).

  \<^bold>\<open>Not modelled.\<close> The functions of \<open>ProcessInfo\<close> and \<open>SocketUtil\<close> that only pass on the answer of a system call; of \<open>CurrentThread\<close> the names,
  sleeping and stack traces; \<open>Any\<close>, \<open>WeakCallback\<close> and \<open>Exception\<close>, utilities the model replaces by options and ties. The
  theories of the components that open sockets keep the system calls themselves as parameters. The \<open>main\<close> functions and the tests only
  drive the rest.
\<close>

end
